(* ===== verification/Prelude.thy ===== *)
theory Prelude
  imports Main "HOL-Library.Char_ord" "HOL-Library.List_Lexorder" "HOL-Library.AList"
begin

text \<open>
  What every component of the ZenithDB development shares.
  \<^item> A Python \<open>bytes\<close> (or \<open>bytearray\<close>) value is a list of 8-bit characters; the order
    of \<open>Char_ord\<close> and \<open>List_Lexorder\<close> is the lexicographic byte order Python's \<open><\<close>
    uses on \<open>bytes\<close>.
  \<^item> A Python \<open>str\<close> is represented by its UTF-8 encoding, so \<open>encode("utf-8")\<close> is the
    identity and \<open>decode("utf-8")\<close> the partial inverse (theory PyStr); UTF-8 keeps the
    code point order, so comparisons of \<open>str\<close> are comparisons of the encodings.
  \<^item> An exception is the left value of a sum (\<open>py_error + 'a\<close>); a method that mutates its
    object is a function of the object to the result and the new object (\<open>pym\<close>), so the
    changes made before a \<open>raise\<close> stay visible.
  \<^item> A Python \<open>dict\<close> is an association list with distinct keys: \<open>AList.update\<close> overwrites
    in place and appends new keys, which is Python's insertion order.
\<close>

section \<open>Collections of facts\<close>

named_theorems pym_simps \<open>equations of the exception and state combinators\<close>
named_theorems codec \<open>length and inversion facts of the binary encoders\<close>

section \<open>Values and errors\<close>

type_synonym bytes = string

datatype py_error =
    ValueError string
  | TypeError string
  | RuntimeError string
  | AttributeError string
  | IndexError
  | KeyError
  | ZeroDivisionError
  | OverflowError
  | StructError
  | UnicodeDecodeError
  | JSONDecodeError
  | RecursionError
  | OSError

subsection \<open>Exceptions without state\<close>

type_synonym 'a res = "py_error + 'a"

definition rbind :: "'a res \<Rightarrow> ('a \<Rightarrow> 'b res) \<Rightarrow> 'b res" where
  "rbind r f = (case r of Inl e \<Rightarrow> Inl e | Inr x \<Rightarrow> f x)"

lemma rbind_simps [simp, pym_simps]:
  "rbind (Inl e) f = Inl e"
  "rbind (Inr x) f = f x"
  by (simp_all add: rbind_def)

lemma rbind_Inr_iff: "rbind r f = Inr y \<longleftrightarrow> (\<exists>x. r = Inr x \<and> f x = Inr y)"
  by (cases r) auto

lemma rbind_Inl_iff:
  "rbind r f = Inl e \<longleftrightarrow> r = Inl e \<or> (\<exists>x. r = Inr x \<and> f x = Inl e)"
  by (cases r) auto

text \<open>A loop whose body may raise: the first exception ends it.\<close>

fun rfold :: "('x \<Rightarrow> 'a \<Rightarrow> 'a res) \<Rightarrow> 'x list \<Rightarrow> 'a \<Rightarrow> 'a res" where
  "rfold f [] a = Inr a"
| "rfold f (x # xs) a = rbind (f x a) (rfold f xs)"

lemma rfold_append: "rfold f (xs @ ys) a = rbind (rfold f xs a) (rfold f ys)"
  by (induction xs arbitrary: a) (auto simp: rbind_def split: sum.splits)

subsection \<open>Exceptions and state\<close>

type_synonym ('s, 'a) pym = "'s \<Rightarrow> 'a res \<times> 's"

definition ret :: "'a \<Rightarrow> ('s, 'a) pym" where
  "ret x = (\<lambda>s. (Inr x, s))"

definition raise :: "py_error \<Rightarrow> ('s, 'a) pym" where
  "raise e = (\<lambda>s. (Inl e, s))"

definition bnd :: "('s, 'a) pym \<Rightarrow> ('a \<Rightarrow> ('s, 'b) pym) \<Rightarrow> ('s, 'b) pym" where
  "bnd m f = (\<lambda>s. case m s of (Inl e, s') \<Rightarrow> (Inl e, s') | (Inr x, s') \<Rightarrow> f x s')"

definition sq :: "('s, 'a) pym \<Rightarrow> ('s, 'b) pym \<Rightarrow> ('s, 'b) pym" where
  "sq m n = bnd m (\<lambda>_. n)"

definition gets :: "('s \<Rightarrow> 'a) \<Rightarrow> ('s, 'a) pym" where
  "gets f = (\<lambda>s. (Inr (f s), s))"

definition lift_res :: "'a res \<Rightarrow> ('s, 'a) pym" where
  "lift_res r = (\<lambda>s. (r, s))"

primrec for_each :: "'x list \<Rightarrow> ('x \<Rightarrow> ('s, unit) pym) \<Rightarrow> ('s, unit) pym" where
  "for_each [] f = ret ()"
| "for_each (x # xs) f = sq (f x) (for_each xs f)"

lemma pym_eval [pym_simps]:
  "ret x s = (Inr x, s)"
  "raise e s = (Inl e, s)"
  "gets g s = (Inr (g s), s)"
  "lift_res r s = (r, s)"
  by (simp_all add: ret_def raise_def gets_def lift_res_def)

lemma bnd_eval [pym_simps]:
  "m s = (Inr x, s') \<Longrightarrow> bnd m f s = f x s'"
  "m s = (Inl e, s') \<Longrightarrow> bnd m f s = (Inl e, s')"
  by (simp_all add: bnd_def)

lemma sq_eval [pym_simps]:
  "m s = (Inr x, s') \<Longrightarrow> sq m n s = n s'"
  "m s = (Inl e, s') \<Longrightarrow> sq m n s = (Inl e, s')"
  by (simp_all add: sq_def bnd_def)

text \<open>
  \<open>wp m Q s\<close>: from state \<open>s\<close> the method \<open>m\<close> returns normally, and its result and final
  state satisfy \<open>Q\<close>. It is total: a raise makes it false.
\<close>

definition wp :: "('s, 'a) pym \<Rightarrow> ('a \<Rightarrow> 's \<Rightarrow> bool) \<Rightarrow> 's \<Rightarrow> bool" where
  "wp m Q s \<longleftrightarrow> (case m s of (Inl e, _) \<Rightarrow> False | (Inr x, s') \<Rightarrow> Q x s')"

lemma wp_simps [simp]:
  "wp (ret x) Q s = Q x s"
  "wp (raise e) Q s = False"
  "wp (gets g) Q s = Q (g s) s"
  "wp (lift_res (Inr x)) Q s = Q x s"
  "wp (bnd m f) Q s = wp m (\<lambda>x. wp (f x) Q) s"
  "wp (sq m n) Q s = wp m (\<lambda>_. wp n Q) s"
  by (auto simp: wp_def ret_def raise_def gets_def lift_res_def bnd_def sq_def
      split: sum.splits prod.splits)

lemma wp_mono: "wp m P s \<Longrightarrow> (\<And>x t. P x t \<Longrightarrow> Q x t) \<Longrightarrow> wp m Q s"
  by (auto simp: wp_def split: sum.splits prod.splits)

lemma wpI: "m s = (Inr x, s') \<Longrightarrow> Q x s' \<Longrightarrow> wp m Q s"
  by (simp add: wp_def)

lemma wpE: "wp m Q s \<Longrightarrow> (\<And>x s'. m s = (Inr x, s') \<Longrightarrow> Q x s' \<Longrightarrow> R) \<Longrightarrow> R"
  by (cases "m s"; cases "fst (m s)") (auto simp: wp_def)

section \<open>Byte strings\<close>

definition startswith :: "'a list \<Rightarrow> 'a list \<Rightarrow> bool" where
  "startswith s p \<longleftrightarrow> take (length p) s = p"

definition endswith :: "'a list \<Rightarrow> 'a list \<Rightarrow> bool" where
  "endswith s p \<longleftrightarrow> length p \<le> length s \<and> drop (length s - length p) s = p"

lemma startswith_append [simp]: "startswith (p @ s) p"
  by (simp add: startswith_def)

lemma startswith_iff: "startswith s p \<longleftrightarrow> (\<exists>t. s = p @ t)"
  by (metis append_eq_conv_conj append_take_drop_id startswith_def)

lemma endswith_append [simp]: "endswith (s @ p) p"
  by (simp add: endswith_def)

text \<open>Python's slice \<open>xs[a:b]\<close> for non-negative \<open>a\<close>, \<open>b\<close>.\<close>

definition py_slice :: "'a list \<Rightarrow> nat \<Rightarrow> nat \<Rightarrow> 'a list" where
  "py_slice xs a b = take (b - a) (drop a xs)"

subsection \<open>The order of byte strings\<close>

lemma bytes_less_append: "s \<noteq> [] \<Longrightarrow> p < p @ s" for p :: bytes
proof (induction p)
  case Nil
  then show ?case by (cases s) auto
qed simp

lemma bytes_le_append [simp]: "p \<le> p @ s" for p :: bytes
  by (cases "s = []") (auto simp: bytes_less_append less_imp_le)

lemma bytes_append_less_iff [simp]: "p @ s < p @ t \<longleftrightarrow> s < t" for p :: bytes
  by (induction p) auto

lemma bytes_append_le_iff [simp]: "p @ s \<le> p @ t \<longleftrightarrow> s \<le> t" for p :: bytes
  by (induction p) auto

lemma nil_le_bytes [simp]: "[] \<le> s" for s :: bytes
  by (simp add: Nil_le_Cons)

text \<open>
  The byte strings with a given prefix are contiguous in the order: a string between two of
  them has the prefix. This is why a prefix scan may stop at the first key without it.
\<close>

lemma prefix_contiguous:
  fixes p :: bytes
  assumes "startswith a p" "startswith c p" "a \<le> b" "b \<le> c"
  shows "startswith b p"
  using assms
proof (induction p arbitrary: a b c)
  case Nil
  then show ?case by (simp add: startswith_def)
next
  case (Cons x p)
  from Cons.prems(1,2) obtain a' c' where a: "a = x # a'" "startswith a' p"
    and c: "c = x # c'" "startswith c' p"
    by (auto simp: startswith_iff)
  with Cons.prems(3,4) obtain b' where b: "b = x # b'" "a' \<le> b'" "b' \<le> c'"
    by (cases b) auto
  with a c have "startswith b' p" using Cons.IH by blast
  with b show ?case by (simp add: startswith_def)
qed

lemma prefix_le: "startswith s p \<Longrightarrow> p \<le> s" for s p :: bytes
  by (auto simp: startswith_iff)

lemma above_prefix_without:
  fixes p :: bytes
  assumes "p \<le> a" "\<not> startswith a p" "startswith c p"
  shows "c < a"
  by (metis assms not_le prefix_contiguous startswith_def take_all_iff order_refl)

section \<open>Association lists and sorted runs\<close>

definition strict_keys :: "('k::linorder \<times> 'v) list \<Rightarrow> bool" where
  "strict_keys es \<longleftrightarrow> sorted_wrt (<) (map fst es)"

lemma strict_keys_simps [simp]:
  "strict_keys []"
  "strict_keys ((k, v) # es) \<longleftrightarrow> (\<forall>k' \<in> set (map fst es). k < k') \<and> strict_keys es"
  by (simp_all add: strict_keys_def)

lemma strict_keys_append:
  "strict_keys (xs @ ys) \<longleftrightarrow> strict_keys xs \<and> strict_keys ys \<and>
     (\<forall>k \<in> fst ` set xs. \<forall>k' \<in> fst ` set ys. k < k')"
  by (auto simp: strict_keys_def sorted_wrt_append)

lemma strict_keys_distinct: "strict_keys es \<Longrightarrow> distinct (map fst es)"
  by (simp add: strict_keys_def strict_sorted_iff)

lemma strict_keys_filter: "strict_keys es \<Longrightarrow> strict_keys (filter P es)"
  by (induction es) auto

lemma strict_keys_drop: "strict_keys es \<Longrightarrow> strict_keys (drop n es)"
  by (simp add: strict_keys_def sorted_wrt_drop flip: drop_map)

lemma map_of_None_below:
  "strict_keys es \<Longrightarrow> \<forall>k' \<in> fst ` set es. k < k' \<Longrightarrow> map_of es k = None"
  by (force simp: map_of_eq_None_iff)

text \<open>Two strictly sorted runs with the same lookups are the same list.\<close>

lemma strict_keys_eqI:
  assumes "strict_keys xs" "strict_keys ys" "map_of xs = map_of ys"
  shows "xs = ys"
proof -
  have d: "distinct (map fst xs)" "distinct (map fst ys)"
    using assms(1,2) by (auto intro: strict_keys_distinct)
  have s: "set xs = set ys"
    using d assms(3) by (simp add: map_of_inject_set)
  have keys: "map fst xs = map fst ys"
    using assms(1,2) s by (metis list.set_map strict_keys_def strict_sorted_equal)
  show ?thesis
  proof (rule nth_equalityI)
    show len: "length xs = length ys" using keys by (metis length_map)
    fix i assume i: "i < length xs"
    have f: "fst (xs ! i) = fst (ys ! i)"
      using keys i len by (metis nth_map)
    have "map_of xs (fst (xs ! i)) = Some (snd (xs ! i))"
      using d i by (simp add: map_of_eq_Some_iff)
    moreover have "map_of ys (fst (ys ! i)) = Some (snd (ys ! i))"
      using d i len by (simp add: map_of_eq_Some_iff)
    ultimately show "xs ! i = ys ! i"
      using f assms(3) by (simp add: prod_eq_iff)
  qed
qed

lemma map_of_filter_key: "map_of (filter (\<lambda>(k, v). P k) es) k = (if P k then map_of es k else None)"
  by (induction es) auto

text \<open>Sorting the names of a directory that holds exactly a strictly increasing list of them.\<close>

lemma sort_names_eq:
  fixes xs ys :: "'a::linorder list"
  assumes "distinct xs" "sorted_wrt (<) ys" "set xs = set ys"
  shows "sort xs = ys"
  using assms by (intro sorted_distinct_set_unique) (auto simp: strict_sorted_iff)

lemma distinct_keys_update: "distinct (map fst d) \<Longrightarrow> distinct (map fst (AList.update k v d))"
  by (rule distinct_update)

lemma keys_update: "fst ` set (AList.update k v d) = insert k (fst ` set d)"
  by (induction d) auto

lemma set_filter_keys: "set (filter P (map fst d)) = {n \<in> fst ` set d. P n}"
  by auto

section \<open>Dictionaries\<close>

text \<open>\<open>for k, v in items: d[k] = v\<close>.\<close>

definition dict_update :: "('k \<times> 'v) list \<Rightarrow> ('k \<times> 'v) list \<Rightarrow> ('k \<times> 'v) list" where
  "dict_update es d = fold (\<lambda>(k, v). AList.update k v) es d"

lemma dict_update_simps [simp]:
  "dict_update [] d = d"
  "dict_update ((k, v) # es) d = dict_update es (AList.update k v d)"
  by (simp_all add: dict_update_def)

lemma distinct_dict_update: "distinct (map fst d) \<Longrightarrow> distinct (map fst (dict_update es d))"
  by (induction es arbitrary: d) (auto simp: distinct_update)

lemma map_of_dict_update: "distinct (map fst es) \<Longrightarrow> map_of (dict_update es d) = map_of d ++ map_of es"
proof (induction es arbitrary: d)
  case (Cons e es)
  obtain k v where e: "e = (k, v)" by fastforce
  have "map_of es k = None" using Cons.prems by (auto simp: e map_of_eq_None_iff)
  with Cons show ?case by (auto simp: e update_conv' map_add_def fun_eq_iff split: option.split)
qed simp

text \<open>A loop over objects that returns the first value that is not None.\<close>

fun search_first :: "('t \<Rightarrow> 'v option res) \<Rightarrow> 't list \<Rightarrow> 'v option res" where
  "search_first f [] = Inr None"
| "search_first f (t # ts) =
     rbind (f t) (\<lambda>v. case v of Some x \<Rightarrow> Inr (Some x) | None \<Rightarrow> search_first f ts)"

text \<open>A loop that collects the results of a call which may raise.\<close>

fun rmap :: "('a \<Rightarrow> 'b res) \<Rightarrow> 'a list \<Rightarrow> 'b list res" where
  "rmap f [] = Inr []"
| "rmap f (x # xs) = rbind (f x) (\<lambda>y. rbind (rmap f xs) (\<lambda>ys. Inr (y # ys)))"

lemma rmap_Inr: "list_all2 (\<lambda>x y. f x = Inr y) xs ys \<Longrightarrow> rmap f xs = Inr ys"
  by (induction rule: list_all2_induct) simp_all

end
