(* ===== verification/PyStruct.thy ===== *)
theory PyStruct
  imports Prelude "HOL-Library.Word"
begin

text \<open>
  The part of Python's standard library the storage layer writes files with: \<open>struct.pack\<close>
  and \<open>struct.unpack\<close> of big-endian unsigned fields (\<open>>B >H >I >Q\<close>), the IEEE 754 doubles
  and singles of \<open>>d\<close> and \<open>>f\<close> as bit patterns, and \<open>zlib.crc32\<close>.
\<close>

unbundle bit_operations_syntax

section \<open>Big-endian unsigned fields\<close>

primrec be_bytes :: "nat \<Rightarrow> nat \<Rightarrow> bytes" where
  "be_bytes 0 x = []"
| "be_bytes (Suc n) x = be_bytes n (x div 256) @ [char_of (x mod 256)]"

definition be_val :: "bytes \<Rightarrow> nat" where
  "be_val bs = foldl (\<lambda>a c. 256 * a + of_char c) 0 bs"

lemma be_val_Nil [simp]: "be_val [] = 0"
  by (simp add: be_val_def)

lemma be_val_snoc [simp]: "be_val (bs @ [c]) = 256 * be_val bs + of_char c"
  by (simp add: be_val_def)

lemma length_be_bytes [simp, codec]: "length (be_bytes n x) = n"
  by (induction n arbitrary: x) auto

lemma be_val_be_bytes [codec]: "x < 256 ^ n \<Longrightarrow> be_val (be_bytes n x) = x"
  by (induction n arbitrary: x) (auto simp: less_mult_imp_div_less mult.commute)

lemma be_val_bound: "be_val bs < 256 ^ length bs"
proof (induction bs rule: rev_induct)
  case (snoc c bs)
  have "of_char c < (256 :: nat)" by simp
  with snoc have "256 * be_val bs + of_char c < 256 * 256 ^ length bs" by linarith
  then show ?case by simp
qed simp

lemma be_bytes_be_val [codec]: "be_bytes (length bs) (be_val bs) = bs"
proof (induction bs rule: rev_induct)
  case (snoc c bs)
  have "of_char c < (256 :: nat)" by simp
  with snoc show ?case by (simp add: char_of_char)
qed simp

lemma be_bytes_inject: "x < 256 ^ n \<Longrightarrow> y < 256 ^ n \<Longrightarrow> be_bytes n x = be_bytes n y \<longleftrightarrow> x = y"
  by (metis be_val_be_bytes)

text \<open>\<open>struct.pack\<close> of one unsigned field raises \<open>struct.error\<close> when the value does not fit.\<close>

definition pack_uint :: "nat \<Rightarrow> nat \<Rightarrow> bytes res" where
  "pack_uint n x = (if x < 256 ^ n then Inr (be_bytes n x) else Inl StructError)"

text \<open>\<open>struct.unpack\<close> raises it when the buffer does not have the format's size.\<close>

definition unpack_uint :: "nat \<Rightarrow> bytes \<Rightarrow> nat res" where
  "unpack_uint n bs = (if length bs = n then Inr (be_val bs) else Inl StructError)"

lemma unpack_pack_uint: "pack_uint n x = Inr bs \<Longrightarrow> unpack_uint n bs = Inr x"
  by (auto simp: pack_uint_def unpack_uint_def be_val_be_bytes split: if_splits)

lemma pack_unpack_uint: "unpack_uint n bs = Inr x \<Longrightarrow> pack_uint n x = Inr bs"
  by (auto simp: pack_uint_def unpack_uint_def be_val_bound be_bytes_be_val split: if_splits)

text \<open>A header of several fields: the packed fields one after the other.\<close>

fun pack_fields :: "(nat \<times> nat) list \<Rightarrow> bytes res" where
  "pack_fields [] = Inr []"
| "pack_fields ((n, x) # fs) =
     rbind (pack_uint n x) (\<lambda>a. rbind (pack_fields fs) (\<lambda>b. Inr (a @ b)))"

fun unpack_fields :: "nat list \<Rightarrow> bytes \<Rightarrow> nat list" where
  "unpack_fields [] bs = []"
| "unpack_fields (n # ns) bs = be_val (take n bs) # unpack_fields ns (drop n bs)"

definition fields_fit :: "(nat \<times> nat) list \<Rightarrow> bool" where
  "fields_fit fs = list_all (\<lambda>(n, x). x < 256 ^ n) fs"

definition be_fields :: "(nat \<times> nat) list \<Rightarrow> bytes" where
  "be_fields fs = concat (map (\<lambda>(n, x). be_bytes n x) fs)"

lemma pack_fields_eq:
  "pack_fields fs = (if fields_fit fs then Inr (be_fields fs) else Inl StructError)"
  by (induction fs) (auto simp: pack_uint_def fields_fit_def be_fields_def)

lemma length_be_fields [codec]: "length (be_fields fs) = sum_list (map fst fs)"
  by (induction fs) (auto simp: be_fields_def)

lemma unpack_be_fields [codec]:
  "fields_fit fs \<Longrightarrow> unpack_fields (map fst fs) (be_fields fs @ rest) = map snd fs"
  by (induction fs) (auto simp: be_fields_def fields_fit_def be_val_be_bytes)

section \<open>IEEE 754 bit patterns\<close>

text \<open>
  A Python \<open>float\<close> is a double; \<open>struct.pack(">d", x)\<close> writes its 64 bits. The model keeps
  the bits.
\<close>

type_synonym f64 = "64 word"
type_synonym f32 = "32 word"

definition f64_sign :: "f64 \<Rightarrow> nat" where
  "f64_sign w = unat w div 2 ^ 63"

definition f64_exp :: "f64 \<Rightarrow> nat" where
  "f64_exp w = unat w div 2 ^ 52 mod 2048"

definition f64_mant :: "f64 \<Rightarrow> nat" where
  "f64_mant w = unat w mod 2 ^ 52"

text \<open>Division rounded to nearest, ties to even: the rounding of the default IEEE mode.\<close>

definition rne_div :: "nat \<Rightarrow> nat \<Rightarrow> nat" where
  "rne_div a d =
     (let q = a div d; r = a mod d
      in if d < 2 * r \<or> (2 * r = d \<and> odd q) then q + 1 else q)"

text \<open>
  \<open>struct.pack(">f", x)\<close> narrows the double \<open>x\<close> to a single: not-a-number and the infinities
  are kept, a finite value that rounds past the largest single raises \<open>OverflowError\<close>.
\<close>

definition f64_to_f32 :: "f64 \<Rightarrow> f32 res" where
  "f64_to_f32 w =
     (let s = f64_sign w; e = f64_exp w; m = f64_mant w in
      if e = 2047 then
        (if m = 0 then Inr (of_nat (s * 2 ^ 31 + 255 * 2 ^ 23))
         else Inr (of_nat (s * 2 ^ 31 + 255 * 2 ^ 23 + (m div 2 ^ 29 mod 2 ^ 22) + 2 ^ 22)))
      else
        let mm = (if e = 0 then m else 2 ^ 52 + m);
            r = (if 897 \<le> e then (e - 897) * 2 ^ 23 + rne_div mm (2 ^ 29)
                 else rne_div mm (2 ^ (29 + (897 - max e 1))))
        in if 255 * 2 ^ 23 \<le> r then Inl OverflowError else Inr (of_nat (s * 2 ^ 31 + r)))"

text \<open>\<open>struct.unpack(">f", b)\<close> widens a single to the double of the same value.\<close>

fun norm_shift :: "nat \<Rightarrow> nat \<Rightarrow> nat" where
  "norm_shift 0 m = 0"
| "norm_shift (Suc n) m = (if 2 ^ 23 \<le> m then 0 else Suc (norm_shift n (2 * m)))"

definition f32_to_f64 :: "f32 \<Rightarrow> f64" where
  "f32_to_f64 w =
     (let s = unat w div 2 ^ 31; e = unat w div 2 ^ 23 mod 256; m = unat w mod 2 ^ 23 in
      of_nat (s * 2 ^ 63 +
       (if e = 255 then
          2047 * 2 ^ 52 + (if m = 0 then 0 else m mod 2 ^ 22 * 2 ^ 29 + 2 ^ 51)
        else if e = 0 then
          (if m = 0 then 0
           else let k = norm_shift 23 m in (897 - k) * 2 ^ 52 + (m * 2 ^ k - 2 ^ 23) * 2 ^ 29)
        else (e + 896) * 2 ^ 52 + m * 2 ^ 29)))"

text \<open>
  Every finite double is an integer multiple of \<open>2 ^ (- 1074)\<close>: \<open>f64_scaled\<close> is the multiple.
  The rounded difference of two doubles is at least \<open>1.0\<close> exactly when the exact one is at
  least \<open>1 - 2 ^ (- 54)\<close>, from where round-to-even goes up to \<open>1.0\<close>.
\<close>

definition f64_scaled :: "f64 \<Rightarrow> int" where
  "f64_scaled w =
     (if f64_sign w = 0 then 1 else - 1) *
     int (if f64_exp w = 0 then f64_mant w
          else (2 ^ 52 + f64_mant w) * 2 ^ (f64_exp w - 1))"

definition f64_diff_ge_1 :: "f64 \<Rightarrow> f64 \<Rightarrow> bool" where
  "f64_diff_ge_1 a b \<longleftrightarrow> 2 ^ 1074 - 2 ^ 1020 \<le> f64_scaled a - f64_scaled b"

section \<open>zlib.crc32\<close>

text \<open>
  The reflected CRC-32 of polynomial \<open>0xEDB88320\<close>, bit by bit: the register starts at
  all ones, takes one byte at a time and is complemented at the end.
\<close>

definition crc_bit :: "nat \<Rightarrow> nat" where
  "crc_bit c = (if odd c then c div 2 XOR 0xEDB88320 else c div 2)"

definition crc_byte :: "nat \<Rightarrow> char \<Rightarrow> nat" where
  "crc_byte c x = (crc_bit ^^ 8) (c XOR of_char x)"

definition crc32 :: "bytes \<Rightarrow> nat" where
  "crc32 bs = foldl crc_byte 0xFFFFFFFF bs XOR 0xFFFFFFFF"

lemma nat_xor_less: "a < 2 ^ n \<Longrightarrow> b < 2 ^ n \<Longrightarrow> a XOR b < 2 ^ n" for a b :: nat
  by (metis take_bit_nat_eq_self take_bit_nat_eq_self_iff take_bit_xor)

lemma crc_bit_bound: "c < 2 ^ 32 \<Longrightarrow> crc_bit c < 2 ^ 32"
  using nat_xor_less [where a = "c div 2" and b = "0xEDB88320" and n = 32] by (auto simp: crc_bit_def)

lemma crc_bits_bound: "c < 2 ^ 32 \<Longrightarrow> (crc_bit ^^ n) c < 2 ^ 32"
  by (induction n) (auto simp del: power_numeral intro: crc_bit_bound)

lemma crc_byte_bound: "c < 2 ^ 32 \<Longrightarrow> crc_byte c x < 2 ^ 32"
proof -
  assume c: "c < 2 ^ 32"
  have "of_char x < (256 :: nat)" by (rule nat_of_char_less_256)
  then have "of_char x < (2 :: nat) ^ 32" by (rule less_le_trans) simp
  then show "crc_byte c x < 2 ^ 32"
    unfolding crc_byte_def by (intro crc_bits_bound nat_xor_less c)
qed

lemma foldl_crc_bound: "c < 2 ^ 32 \<Longrightarrow> foldl crc_byte c bs < 2 ^ 32"
  by (induction bs arbitrary: c) (auto simp del: power_numeral intro: crc_byte_bound)

lemma crc32_bound: "crc32 bs < 256 ^ 4"
proof -
  have "foldl crc_byte 0xFFFFFFFF bs < 2 ^ 32" by (rule foldl_crc_bound) simp
  then have "foldl crc_byte 0xFFFFFFFF bs XOR 0xFFFFFFFF < 2 ^ 32"
    by (rule nat_xor_less) simp
  then show ?thesis by (simp add: crc32_def)
qed

text \<open>
  Two inputs of the same length that differ in exactly one byte have different checksums:
  every step of the register is injective.
\<close>

lemma crc_bit_top: "c < 2 ^ 32 \<Longrightarrow> bit (crc_bit c) 31 \<longleftrightarrow> odd c"
proof -
  assume c: "c < 2 ^ 32"
  have "c div 2 < 2 ^ 31" using c by simp
  then have "\<not> bit (c div 2) 31" by (simp add: bit_iff_odd div_less)
  moreover have "bit (0xEDB88320 :: nat) 31" by (simp add: bit_iff_odd)
  ultimately show ?thesis by (simp add: crc_bit_def bit_xor_iff)
qed

lemma nat_xor_cancel: "a XOR m = b XOR m \<longleftrightarrow> a = b" for a b m :: nat
proof
  assume "a XOR m = b XOR m"
  then have "(a XOR m) XOR m = (b XOR m) XOR m" by simp
  then show "a = b" by (simp add: xor.assoc)
qed simp

lemma nat_xor_cancel_left: "m XOR a = m XOR b \<longleftrightarrow> a = b" for a b m :: nat
  using nat_xor_cancel [of a m b] by (simp add: xor.commute)

lemma crc_bit_inj: "c < 2 ^ 32 \<Longrightarrow> d < 2 ^ 32 \<Longrightarrow> crc_bit c = crc_bit d \<Longrightarrow> c = d"
proof -
  assume c: "c < 2 ^ 32" "d < 2 ^ 32" and e: "crc_bit c = crc_bit d"
  have o: "odd c \<longleftrightarrow> odd d" using crc_bit_top [OF c(1)] crc_bit_top [OF c(2)] e by simp
  then have "c div 2 = d div 2" using e by (auto simp: crc_bit_def nat_xor_cancel split: if_splits)
  with o show "c = d" by (metis bit_eq_rec)
qed

lemma crc_bits_inj:
  "c < 2 ^ 32 \<Longrightarrow> d < 2 ^ 32 \<Longrightarrow> (crc_bit ^^ n) c = (crc_bit ^^ n) d \<Longrightarrow> c = d"
  by (induction n) (use crc_bits_bound crc_bit_inj in auto)

lemma xor_char_bound: "c < 2 ^ 32 \<Longrightarrow> c XOR of_char x < 2 ^ 32" for c :: nat
  by (rule nat_xor_less) (auto intro: less_le_trans [OF nat_of_char_less_256])

lemma crc_byte_inj: "c < 2 ^ 32 \<Longrightarrow> d < 2 ^ 32 \<Longrightarrow> crc_byte c x = crc_byte d x \<Longrightarrow> c = d"
  unfolding crc_byte_def using crc_bits_inj xor_char_bound nat_xor_cancel by metis

lemma crc_byte_inj_char: "c < 2 ^ 32 \<Longrightarrow> crc_byte c x = crc_byte c y \<Longrightarrow> x = y"
  unfolding crc_byte_def using crc_bits_inj xor_char_bound nat_xor_cancel_left
  by (metis of_char_eq_iff)

lemma foldl_crc_inj:
  "c < 2 ^ 32 \<Longrightarrow> d < 2 ^ 32 \<Longrightarrow> foldl crc_byte c bs = foldl crc_byte d bs \<Longrightarrow> c = d"
proof (induction bs arbitrary: c d)
  case (Cons b bs)
  then have "crc_byte c b = crc_byte d b" using crc_byte_bound by simp
  with Cons.prems show ?case by (auto intro: crc_byte_inj)
qed simp

lemma crc32_detects_byte:
  assumes "x \<noteq> y"
  shows "crc32 (p @ x # s) \<noteq> crc32 (p @ y # s)"
proof
  let ?c = "foldl crc_byte 0xFFFFFFFF p"
  assume "crc32 (p @ x # s) = crc32 (p @ y # s)"
  then have e: "foldl crc_byte (crc_byte ?c x) s = foldl crc_byte (crc_byte ?c y) s"
    by (simp add: crc32_def nat_xor_cancel)
  have "?c < 2 ^ 32" by (rule foldl_crc_bound) simp
  then have "crc_byte ?c x = crc_byte ?c y" "?c < 2 ^ 32"
    using foldl_crc_inj [OF crc_byte_bound crc_byte_bound e] by blast+
  with assms show False using crc_byte_inj_char by blast
qed

text \<open>The published check value of the algorithm.\<close>

lemma funpow8: "(f ^^ 8) x = f (f (f (f (f (f (f (f x)))))))"
  by (simp add: eval_nat_numeral)

lemma crc_bit_eval:
  "crc_bit 0 = 0" "crc_bit (Suc 0) = 0xEDB88320" "crc_bit 1 = 0xEDB88320"
  "crc_bit (numeral (Num.Bit0 n)) = numeral n"
  "crc_bit (numeral (Num.Bit1 n)) = numeral n XOR 0xEDB88320"
  by (simp_all add: crc_bit_def)

lemmas crc_eval = crc32_def crc_byte_def funpow8 crc_bit_eval

lemma crc32_check_value: "crc32 ''123456789'' = 0xCBF43926"
  by (simp add: crc_eval)

end
