(* ===== verification/Bloom.thy ===== *)
theory Bloom
  imports PyStruct
begin

text \<open>
  \<open>zenith/storage/bloom.py\<close>: the Bloom filter of the SSTables. The record has the object's
  attributes; \<open>bits\<close> is the \<open>bytearray\<close>.

  Two things the filter takes from C libraries are fields of \<open>host\<close>: \<open>h12\<close>, the two
  big-endian 64-bit words at the start of a key's SHA-256 digest, and the values of the two
  \<open>math.log\<close> sizing formulas. That \<open>math.log\<close> raises \<open>ValueError\<close> for a rate that is zero or
  negative is written out below; \<open>log_m\<close>, which has the rest of the first formula, may raise
  too (the rate or the capacity may be too large for \<open>math.ceil\<close> or for a \<open>float\<close>, the rate may
  be not-a-number). Nothing else is assumed of them: the lemmas hold for any hash function and
  any sizes.
\<close>

record host =
  h12 :: "bytes \<Rightarrow> 64 word \<times> 64 word"
  log_m :: "nat \<Rightarrow> f64 \<Rightarrow> int res"
  log_k :: "nat \<Rightarrow> nat \<Rightarrow> int"

record bloom =
  bl_capacity :: nat
  bl_rate :: f64
  bl_m :: nat
  bl_k :: nat
  bl_byte_count :: nat
  bl_bits :: bytes
  bl_count :: nat

section \<open>Operations\<close>

text \<open>
  \<open>math.log(x)\<close> raises for zero and for negative numbers (minus infinity among them); of
  not-a-number it is not-a-number. Then \<open>m\<close> and \<open>k\<close> from the capacity and the error rate.
\<close>

definition has_log :: "f64 \<Rightarrow> bool" where
  "has_log w \<longleftrightarrow> f64_exp w = 2047 \<and> f64_mant w \<noteq> 0 \<or> f64_sign w = 0 \<and> w \<noteq> 0"

definition optimal_size :: "host \<Rightarrow> nat \<Rightarrow> f64 \<Rightarrow> (nat \<times> nat) res" where
  "optimal_size H cap rate =
     (if \<not> has_log rate then Inl (ValueError ''math domain error'')
      else rbind (log_m H cap rate) (\<lambda>m0.
        let m = nat (max 8 m0) in Inr (m, nat (max 1 (min 30 (log_k H m cap))))))"

definition bloom_init ::
  "host \<Rightarrow> int \<Rightarrow> f64 \<Rightarrow> nat option \<Rightarrow> nat option \<Rightarrow> bytes option \<Rightarrow> bloom res" where
  "bloom_init H capacity rate bit_count hash_count bit_array =
     (let cap = nat (max 1 capacity) in
      rbind (case (bit_count, hash_count) of
              (Some m, Some k) \<Rightarrow> Inr (m, k)
            | _ \<Rightarrow> optimal_size H cap rate) (\<lambda>(m, k).
      let byte_count = (m + 7) div 8
      in Inr \<lparr>bl_capacity = cap, bl_rate = rate, bl_m = byte_count * 8, bl_k = k,
              bl_byte_count = byte_count,
              bl_bits = (case bit_array of Some b \<Rightarrow> b | None \<Rightarrow> replicate byte_count (CHR 0x00)),
              bl_count = 0\<rparr>))"

text \<open>The \<open>i\<close>-th position of Kirsch-Mitzenmacher double hashing, on unbounded integers.\<close>

definition bloom_hash :: "64 word \<times> 64 word \<Rightarrow> nat \<Rightarrow> nat \<Rightarrow> nat res" where
  "bloom_hash h m i =
     (if m = 0 then Inl ZeroDivisionError
      else Inr ((unat (fst h) + i * unat (snd h)) mod m))"

definition set_bit_at :: "nat \<Rightarrow> bytes \<Rightarrow> bytes res" where
  "set_bit_at pos bits =
     (if pos div 8 < length bits
      then Inr (bits[pos div 8 :=
             char_of (of_char (bits ! (pos div 8)) OR (2 ^ (pos mod 8) :: nat))])
      else Inl IndexError)"

definition test_bit_at :: "nat \<Rightarrow> bytes \<Rightarrow> bool res" where
  "test_bit_at pos bits =
     (if pos div 8 < length bits
      then Inr (of_char (bits ! (pos div 8)) AND (2 ^ (pos mod 8) :: nat) \<noteq> 0)
      else Inl IndexError)"

definition bloom_add :: "host \<Rightarrow> bytes \<Rightarrow> bloom \<Rightarrow> bloom res" where
  "bloom_add H key b =
     rbind (rfold (\<lambda>i bits. rbind (bloom_hash (h12 H key) (bl_m b) i) (\<lambda>pos. set_bit_at pos bits))
              [0..<bl_k b] (bl_bits b))
       (\<lambda>bits. Inr (b\<lparr>bl_bits := bits, bl_count := bl_count b + 1\<rparr>))"

fun probe :: "64 word \<times> 64 word \<Rightarrow> bloom \<Rightarrow> nat list \<Rightarrow> bool res" where
  "probe h b [] = Inr True"
| "probe h b (i # is) =
     rbind (bloom_hash h (bl_m b) i) (\<lambda>pos.
     rbind (test_bit_at pos (bl_bits b)) (\<lambda>t.
     if \<not> t then Inr False else probe h b is))"

definition bloom_contains :: "host \<Rightarrow> bytes \<Rightarrow> bloom \<Rightarrow> bool res" where
  "bloom_contains H key b = probe (h12 H key) b [0..<bl_k b]"

definition BLOOM_MAGIC :: bytes where
  "BLOOM_MAGIC = ''ZBLM''"

definition bloom_to_bytes :: "bloom \<Rightarrow> bytes res" where
  "bloom_to_bytes b =
     rbind (f64_to_f32 (bl_rate b)) (\<lambda>r.
     rbind (pack_fields [(4, bl_capacity b), (4, unat r), (4, bl_m b), (2, bl_k b)]) (\<lambda>fs.
     Inr (BLOOM_MAGIC @ fs @ bl_bits b)))"

definition bloom_from_bytes :: "host \<Rightarrow> bytes \<Rightarrow> bloom res" where
  "bloom_from_bytes H data =
     (if length data < 18 then Inl (ValueError ''Invalid Bloom filter binary payload'')
      else if take 4 data \<noteq> BLOOM_MAGIC then Inl (ValueError ''Invalid Bloom filter magic: '')
      else case unpack_fields [4, 4, 4, 2] (drop 4 data) of
          [capacity, rate, m, k] \<Rightarrow>
            bloom_init H (int capacity) (f32_to_f64 (of_nat rate)) (Some m) (Some k)
              (Some (drop 18 data))
        | _ \<Rightarrow> Inl StructError)"

section \<open>Bits\<close>

definition bit_at :: "bytes \<Rightarrow> nat \<Rightarrow> bool" where
  "bit_at bits p \<longleftrightarrow> p div 8 < length bits \<and> bit (of_char (bits ! (p div 8)) :: nat) (p mod 8)"

lemma and_power2_nonzero: "(n AND 2 ^ k \<noteq> 0) \<longleftrightarrow> bit n k" for n :: nat
  by (metis and_exp_eq_0_iff_not_bit)

lemma and_power2_pos: "(0 < n AND 2 ^ k) \<longleftrightarrow> bit n k" for n :: nat
  using and_power2_nonzero [of n k] by simp

lemma or_byte: "k < 8 \<Longrightarrow> of_char c OR (2 ^ k :: nat) < 256"
proof -
  assume k: "k < 8"
  have "take_bit 8 (of_char c OR (2 ^ k :: nat)) = of_char c OR 2 ^ k"
    using k by (simp add: take_bit_or take_bit_nat_eq_self)
  then show ?thesis by (metis take_bit_nat_eq_self_iff[of 8, simplified])
qed

lemma test_bit_at_Inr: "test_bit_at p bits = Inr t \<longleftrightarrow> p div 8 < length bits \<and> t = bit_at bits p"
  by (auto simp: test_bit_at_def bit_at_def and_power2_nonzero and_power2_pos)

lemma set_bit_at_Inr:
  assumes "set_bit_at p bits = Inr bits'"
  shows "length bits' = length bits" "bit_at bits' q \<longleftrightarrow> q = p \<or> bit_at bits q"
proof -
  have p: "p div 8 < length bits"
    and b: "bits' = bits[p div 8 := char_of (of_char (bits ! (p div 8)) OR (2 ^ (p mod 8) :: nat))]"
    using assms by (auto simp: set_bit_at_def split: if_splits)
  show "length bits' = length bits" by (simp add: b)
  have m: "(of_char (bits ! (p div 8)) OR (2 ^ (p mod 8) :: nat)) mod 256 =
           of_char (bits ! (p div 8)) OR 2 ^ (p mod 8)"
    by (rule mod_less) (rule or_byte, simp)
  show "bit_at bits' q \<longleftrightarrow> q = p \<or> bit_at bits q"
  proof (cases "q div 8 = p div 8")
    case True
    then have "q = p \<longleftrightarrow> q mod 8 = p mod 8" by (metis div_mult_mod_eq)
    with True p show ?thesis by (auto simp: b bit_at_def m bit_or_iff bit_exp_iff)
  next
    case False
    then show ?thesis by (auto simp: b bit_at_def)
  qed
qed

section \<open>No false negatives\<close>

definition bloom_wf :: "bloom \<Rightarrow> bool" where
  "bloom_wf b \<longleftrightarrow> 0 < bl_m b \<and> bl_m b = bl_byte_count b * 8 \<and> length (bl_bits b) = bl_byte_count b"

definition positions :: "host \<Rightarrow> bytes \<Rightarrow> bloom \<Rightarrow> nat set" where
  "positions H key b = (\<lambda>i. (unat (fst (h12 H key)) + i * unat (snd (h12 H key))) mod bl_m b) ` {0..<bl_k b}"

text \<open>What the constructor does with an error rate: it raises, or builds an empty filter.\<close>

lemma bloom_init_size:
  "bloom_init H c r None None None = Inr b \<longleftrightarrow>
     (\<exists>m. has_log r \<and> log_m H (nat (max 1 c)) r = Inr m \<and>
        b = \<lparr>bl_capacity = nat (max 1 c), bl_rate = r, bl_m = (nat (max 8 m) + 7) div 8 * 8,
             bl_k = nat (max 1 (min 30 (log_k H (nat (max 8 m)) (nat (max 1 c))))),
             bl_byte_count = (nat (max 8 m) + 7) div 8,
             bl_bits = replicate ((nat (max 8 m) + 7) div 8) (CHR 0x00), bl_count = 0\<rparr>)"
  by (auto simp: bloom_init_def optimal_size_def rbind_Inr_iff Let_def)

lemma bloom_init_wf: "bloom_init H c r None None None = Inr b \<Longrightarrow> bloom_wf b"
  by (auto simp: bloom_init_size bloom_wf_def)

lemma position_in_bits: "bloom_wf b \<Longrightarrow> length bits = length (bl_bits b) \<Longrightarrow> x mod bl_m b div 8 < length bits"
  by (simp add: bloom_wf_def less_mult_imp_div_less)

lemma mark_loop:
  assumes "bloom_wf b" "length bits = length (bl_bits b)"
  shows "\<exists>bits'. rfold (\<lambda>i bits. rbind (bloom_hash h (bl_m b) i) (\<lambda>pos. set_bit_at pos bits)) is bits
             = Inr bits' \<and> length bits' = length bits \<and>
           (\<forall>q. bit_at bits' q \<longleftrightarrow>
              q \<in> (\<lambda>i. (unat (fst h) + i * unat (snd h)) mod bl_m b) ` set is \<or> bit_at bits q)"
  using assms(2)
proof (induction "is" arbitrary: bits)
  case Nil
  then show ?case by simp
next
  case (Cons i "is")
  let ?p = "(unat (fst h) + i * unat (snd h)) mod bl_m b"
  have m: "bl_m b \<noteq> 0" using assms(1) by (simp add: bloom_wf_def)
  have "?p div 8 < length bits" using position_in_bits [OF assms(1) Cons.prems] .
  then obtain b1 where b1: "set_bit_at ?p bits = Inr b1" by (auto simp: set_bit_at_def)
  note set_bit_at_Inr [OF b1]
  then obtain b2 where "rfold (\<lambda>i bits. rbind (bloom_hash h (bl_m b) i) (\<lambda>pos. set_bit_at pos bits)) is b1 = Inr b2"
      "length b2 = length b1"
      "\<forall>q. bit_at b2 q \<longleftrightarrow> q \<in> (\<lambda>i. (unat (fst h) + i * unat (snd h)) mod bl_m b) ` set is \<or> bit_at b1 q"
    using Cons.IH [of b1] Cons.prems by auto
  with b1 m set_bit_at_Inr [OF b1] show ?case by (auto simp: bloom_hash_def)
qed

text \<open>
  Adding to a well-formed filter succeeds, keeps it well-formed and sets exactly the key's
  positions.
\<close>

lemma bloom_add_total:
  assumes "bloom_wf b"
  obtains b' where "bloom_add H key b = Inr b'" "bloom_wf b'"
    "bl_m b' = bl_m b" "bl_k b' = bl_k b" "bl_capacity b' = bl_capacity b" "bl_rate b' = bl_rate b"
    "\<And>q. bit_at (bl_bits b') q \<longleftrightarrow> q \<in> positions H key b \<or> bit_at (bl_bits b) q"
proof -
  obtain bits where r: "rfold (\<lambda>i bits. rbind (bloom_hash (h12 H key) (bl_m b) i) (\<lambda>pos. set_bit_at pos bits))
        [0..<bl_k b] (bl_bits b) = Inr bits" and "length bits = length (bl_bits b)"
      and "\<forall>q. bit_at bits q \<longleftrightarrow>
        q \<in> (\<lambda>i. (unat (fst (h12 H key)) + i * unat (snd (h12 H key))) mod bl_m b) ` set [0..<bl_k b]
        \<or> bit_at (bl_bits b) q"
    using mark_loop [OF assms refl, of "h12 H key" "[0..<bl_k b]"] by blast
  then show ?thesis
    using assms
    by (intro that [of "b\<lparr>bl_bits := bits, bl_count := bl_count b + 1\<rparr>"])
       (auto simp: bloom_add_def bloom_wf_def positions_def)
qed

lemma probe_wf:
  assumes "bloom_wf b"
  shows "probe h b is = Inr (\<forall>i \<in> set is. bit_at (bl_bits b) ((unat (fst h) + i * unat (snd h)) mod bl_m b))"
proof (induction "is")
  case (Cons i "is")
  let ?p = "(unat (fst h) + i * unat (snd h)) mod bl_m b"
  have "?p div 8 < length (bl_bits b)" using position_in_bits [OF assms refl] .
  then have "test_bit_at ?p (bl_bits b) = Inr (bit_at (bl_bits b) ?p)" by (simp add: test_bit_at_Inr)
  with Cons assms show ?case by (auto simp: bloom_hash_def bloom_wf_def)
qed simp

lemma bloom_contains_wf:
  "bloom_wf b \<Longrightarrow> bloom_contains H key b = Inr (\<forall>q \<in> positions H key b. bit_at (bl_bits b) q)"
  by (auto simp: bloom_contains_def probe_wf positions_def)

text \<open>
  The contract the SSTable code relies on, for any approximate set: adding succeeds and keeps
  the object's shape, what was added is reported present, and nothing is forgotten. Its one
  consequence: a key reported absent was never added.
\<close>

locale membership_filter =
  fixes finv :: "'f \<Rightarrow> bool"
    and fadd :: "'k \<Rightarrow> 'f \<Rightarrow> 'f res"
    and fmem :: "'k \<Rightarrow> 'f \<Rightarrow> bool res"
    and shape :: "'f \<Rightarrow> 's"
  assumes add_total: "finv f \<Longrightarrow> \<exists>f'. fadd k f = Inr f' \<and> finv f' \<and> shape f' = shape f \<and>
      fmem k f' = Inr True \<and> (\<forall>k'. fmem k' f = Inr True \<longrightarrow> fmem k' f' = Inr True)"
    and mem_total: "finv f \<Longrightarrow> \<exists>b. fmem k f = Inr b"
begin

definition covers :: "'f \<Rightarrow> 'k set \<Rightarrow> bool" where
  "covers f ks \<longleftrightarrow> finv f \<and> (\<forall>k \<in> ks. fmem k f = Inr True)"

lemma covers_empty: "finv f \<Longrightarrow> covers f {}"
  by (simp add: covers_def)

lemma covers_add:
  assumes "covers f ks"
  obtains f' where "fadd k f = Inr f'" "covers f' (insert k ks)" "shape f' = shape f"
  using assms add_total [of f k] by (auto simp: covers_def)

lemma covers_fold:
  assumes "covers f ks"
  shows "\<exists>f'. rfold fadd xs f = Inr f' \<and> covers f' (ks \<union> set xs) \<and> shape f' = shape f"
  using assms
proof (induction xs arbitrary: f ks)
  case (Cons x xs)
  obtain f1 where f1: "fadd x f = Inr f1" "covers f1 (insert x ks)" "shape f1 = shape f"
    using covers_add [OF Cons.prems] by blast
  with Cons.IH [OF f1(2)] show ?case by auto
qed simp

lemma absent_never_added:
  "covers f ks \<Longrightarrow> fmem k f = Inr False \<Longrightarrow> k \<notin> ks"
  by (auto simp: covers_def)

end

definition bloom_shape :: "bloom \<Rightarrow> nat \<times> f64 \<times> nat \<times> nat" where
  "bloom_shape b = (bl_capacity b, bl_rate b, bl_m b, bl_k b)"

interpretation bf: membership_filter bloom_wf "bloom_add H" "bloom_contains H" bloom_shape for H
proof
  fix f k assume w: "bloom_wf f"
  obtain b' where b': "bloom_add H k f = Inr b'" "bloom_wf b'" "bl_m b' = bl_m f" "bl_k b' = bl_k f"
      "bl_capacity b' = bl_capacity f" "bl_rate b' = bl_rate f"
      "\<And>q. bit_at (bl_bits b') q \<longleftrightarrow> q \<in> positions H k f \<or> bit_at (bl_bits f) q"
    using bloom_add_total [OF w, of H k] by blast
  have "positions H k' b' = positions H k' f" for k'
    using b'(3,4) by (simp add: positions_def)
  with w b' show "\<exists>f'. bloom_add H k f = Inr f' \<and> bloom_wf f' \<and> bloom_shape f' = bloom_shape f \<and>
      bloom_contains H k f' = Inr True \<and>
      (\<forall>k'. bloom_contains H k' f = Inr True \<longrightarrow> bloom_contains H k' f' = Inr True)"
    by (auto simp: bloom_contains_wf bloom_shape_def)
next
  fix f k assume "bloom_wf f"
  then show "\<exists>b. bloom_contains H k f = Inr b" by (simp add: bloom_contains_wf)
qed

text \<open>
  C26. No false negatives. The constructor of a filter of any capacity raises
  \<open>ValueError\<close> for an error rate that has no logarithm (zero or negative) and returns a filter
  whenever the sizing formula gives a size. Adding any keys to a filter it has returned
  never raises, and the filter then answers True for each of them, for every hash function
  and every result of the sizing formulas.
\<close>

theorem bloom_no_false_negatives:
  "(\<not> has_log rate \<longrightarrow> bloom_init H capacity rate None None None = Inl (ValueError ''math domain error'')) \<and>
   (has_log rate \<longrightarrow> log_m H (nat (max 1 capacity)) rate = Inr bits \<longrightarrow>
      (\<exists>b0. bloom_init H capacity rate None None None = Inr b0)) \<and>
   (bloom_init H capacity rate None None None = Inr b0 \<longrightarrow>
      (\<exists>b. rfold (bloom_add H) ks b0 = Inr b \<and> (\<forall>k \<in> set ks. bloom_contains H k b = Inr True)))"
proof (intro conjI impI)
  assume "bloom_init H capacity rate None None None = Inr b0"
  from bf.covers_fold [OF bf.covers_empty [OF bloom_init_wf [OF this]], of H ks]
  show "\<exists>b. rfold (bloom_add H) ks b0 = Inr b \<and> (\<forall>k \<in> set ks. bloom_contains H k b = Inr True)"
    by (auto simp: bf.covers_def)
qed (auto simp: bloom_init_size, simp add: bloom_init_def optimal_size_def)

text \<open>A host whose digests and sizes are all zero, for concrete inputs.\<close>

definition sample_host :: host where
  "sample_host = \<lparr>h12 = (\<lambda>_. (0, 0)), log_m = (\<lambda>_ _. Inr 0), log_k = (\<lambda>_ _. 0)\<rparr>"

text \<open>
  The witness has the values of the formulas for two keys at the error rate 0.01, twenty bits
  and seven hashes, and digests that differ.
\<close>

definition two_key_host :: host where
  "two_key_host = \<lparr>h12 = (\<lambda>k. if k = ''a'' then (11, 5) else (2, 9)), log_m = (\<lambda>_ _. Inr 20), log_k = (\<lambda>_ _. 7)\<rparr>"

theorem bloom_no_false_negatives_witness:
  "(\<exists>b0 b. bloom_init two_key_host 2 0x3F847AE147AE147B None None None = Inr b0 \<and>
       rfold (bloom_add two_key_host) [''a'', ''b''] b0 = Inr b \<and>
       bloom_contains two_key_host ''a'' b = Inr True \<and> bloom_contains two_key_host ''b'' b = Inr True) \<and>
   bloom_init two_key_host 2 0 None None None = Inl (ValueError ''math domain error'')"
proof
  have h: "has_log 0x3F847AE147AE147B" "\<not> has_log 0"
    by (simp_all add: has_log_def f64_exp_def f64_mant_def f64_sign_def)
  have m: "log_m two_key_host (nat (max 1 2)) 0x3F847AE147AE147B = Inr 20" by (simp add: two_key_host_def)
  from bloom_no_false_negatives [THEN conjunct2, THEN conjunct1, rule_format, OF h(1) m]
  obtain b0 where b0: "bloom_init two_key_host 2 0x3F847AE147AE147B None None None = Inr b0" by blast
  from bloom_no_false_negatives [THEN conjunct2, THEN conjunct2, rule_format, OF b0, of "[''a'', ''b'']"] b0
  show "\<exists>b0 b. bloom_init two_key_host 2 0x3F847AE147AE147B None None None = Inr b0 \<and>
       rfold (bloom_add two_key_host) [''a'', ''b''] b0 = Inr b \<and>
       bloom_contains two_key_host ''a'' b = Inr True \<and> bloom_contains two_key_host ''b'' b = Inr True"
    by auto
  from bloom_no_false_negatives [THEN conjunct1, rule_format, OF h(2)]
  show "bloom_init two_key_host 2 0 None None None = Inl (ValueError ''math domain error'')" .
qed

section \<open>Serialisation\<close>

lemma bloom_from_to_bytes:
  assumes "bloom_wf b" "1 \<le> bl_capacity b" "bloom_to_bytes b = Inr data"
  obtains b' where "bloom_from_bytes H data = Inr b'" "bloom_wf b'"
    "bl_capacity b' = bl_capacity b" "bl_m b' = bl_m b" "bl_k b' = bl_k b" "bl_bits b' = bl_bits b"
proof -
  obtain r where r: "f64_to_f32 (bl_rate b) = Inr r"
    and fit: "fields_fit [(4, bl_capacity b), (4, unat r), (4, bl_m b), (2, bl_k b)]"
    and d: "data = BLOOM_MAGIC @ be_fields [(4, bl_capacity b), (4, unat r), (4, bl_m b), (2, bl_k b)] @ bl_bits b"
    using assms(3) by (auto simp: bloom_to_bytes_def rbind_Inr_iff pack_fields_eq split: if_splits)
  have u: "unpack_fields [4, 4, 4, 2] (drop 4 data) = [bl_capacity b, unat r, bl_m b, bl_k b]"
    using unpack_be_fields [OF fit, of "bl_bits b"] by (simp add: d BLOOM_MAGIC_def)
  have l: "length (be_fields [(4, bl_capacity b), (4, unat r), (4, bl_m b), (2, bl_k b)]) = 14"
    by (simp add: length_be_fields)
  then have k: "drop 18 data = bl_bits b" "\<not> length data < 18" "take 4 data = BLOOM_MAGIC"
    by (simp_all add: d BLOOM_MAGIC_def)
  obtain n where n: "bl_m b = n * 8" "bl_byte_count b = n" "0 < n" "length (bl_bits b) = n"
    using assms(1) by (auto simp: bloom_wf_def)
  let ?b = "\<lparr>bl_capacity = nat (max 1 (int (bl_capacity b))), bl_rate = f32_to_f64 (of_nat (unat r)),
      bl_m = (bl_m b + 7) div 8 * 8, bl_k = bl_k b, bl_byte_count = (bl_m b + 7) div 8,
      bl_bits = bl_bits b, bl_count = 0\<rparr>"
  have e: "bloom_from_bytes H data = Inr ?b"
    unfolding bloom_from_bytes_def u using k by (simp add: bloom_init_def Let_def)
  have "(n * 8 + 7) div 8 = n" by simp
  with n assms(2) have w: "bloom_wf ?b" "bl_capacity ?b = bl_capacity b" "bl_m ?b = bl_m b"
      "bl_k ?b = bl_k b" "bl_bits ?b = bl_bits b"
    by (simp_all add: bloom_wf_def del: of_nat_unat)
  show ?thesis by (rule that [of ?b]) (use e w in simp_all)
qed

lemma bloom_contains_cong:
  "bl_m b' = bl_m b \<Longrightarrow> bl_k b' = bl_k b \<Longrightarrow> bl_bits b' = bl_bits b \<Longrightarrow>
   bloom_contains H key b' = bloom_contains H key b"
proof -
  assume a: "bl_m b' = bl_m b" "bl_k b' = bl_k b" "bl_bits b' = bl_bits b"
  have "probe h b' is = probe h b is" for h "is"
    by (induction "is") (simp_all add: a cong: if_cong)
  then show ?thesis by (simp add: bloom_contains_def a)
qed

text \<open>
  Serialisation. A filter that \<open>to_bytes\<close> can write is read back by \<open>from_bytes\<close> with
  the same size, hash count and bits, and answers every membership query as before.
\<close>

theorem bloom_roundtrip:
  assumes "bloom_wf b" "1 \<le> bl_capacity b" "bloom_to_bytes b = Inr data"
  shows "\<exists>b'. bloom_from_bytes H data = Inr b' \<and> bloom_wf b' \<and> bl_capacity b' = bl_capacity b \<and>
     (\<forall>key. bloom_contains H' key b' = bloom_contains H' key b)"
  using assms
proof (rule bloom_from_to_bytes)
  fix b' assume "bloom_from_bytes H data = Inr b'" "bloom_wf b'" "bl_capacity b' = bl_capacity b"
    "bl_m b' = bl_m b" "bl_k b' = bl_k b" "bl_bits b' = bl_bits b"
  then show ?thesis using bloom_contains_cong by blast
qed

definition sample_filter :: bloom where
  "sample_filter = \<lparr>bl_capacity = 1, bl_rate = 0, bl_m = 8, bl_k = 1, bl_byte_count = 1,
     bl_bits = [CHR 0x00], bl_count = 0\<rparr>"

theorem bloom_roundtrip_witness:
  "\<exists>data b'. bloom_to_bytes sample_filter = Inr data \<and>
      bloom_from_bytes sample_host data = Inr b' \<and> bl_capacity b' = 1"
proof -
  have w: "bloom_wf sample_filter" "1 \<le> bl_capacity sample_filter" "bl_capacity sample_filter = 1"
    by (simp_all add: sample_filter_def bloom_wf_def)
  have "f64_to_f32 0 = Inr 0"
    by (simp add: f64_to_f32_def f64_exp_def f64_mant_def f64_sign_def rne_div_def Let_def)
  then obtain data where d: "bloom_to_bytes sample_filter = Inr data"
    by (simp add: sample_filter_def bloom_to_bytes_def pack_fields_eq fields_fit_def)
  show ?thesis using bloom_roundtrip [OF w(1,2) d, where H = sample_host] d w(3) by metis
qed

end
