(* ===== verification/SSTable.thy ===== *)
theory SSTable
  imports Bloom
begin

text \<open>
  \<open>zenith/storage/sstable.py\<close>: the writer and the reader of sorted string tables. A directory
  is an association list from file names to contents. \<open>sw_file\<close> is everything the writer has
  written to its temporary file; \<open>sr_file\<close> is the content of the (immutable) file the reader
  has open. \<open>f.read(n)\<close> at a position is \<open>take n\<close> of the rest of the file, \<open>f.tell()\<close> the
  number of bytes before it.
\<close>

definition TOMBSTONE :: bytes where
  "TOMBSTONE = ''__ZENITH_TOMBSTONE__''"

definition SST_HEADER :: bytes where
  "SST_HEADER = ''ZSST'' @ [CHR 0x01]"

definition SST_TRAILER_MAGIC :: bytes where
  "SST_TRAILER_MAGIC = ''ZSSTFOOT''"

text \<open>The double \<open>0.01\<close>.\<close>

definition RATE_001 :: f64 where
  "RATE_001 = 0x3F847AE147AE147B"

text \<open>\<open>(start_key is None or k >= start_key) and (end_key is None or k <= end_key)\<close>.\<close>

definition in_bounds :: "bytes option \<Rightarrow> bytes option \<Rightarrow> bytes \<Rightarrow> bool" where
  "in_bounds s e k \<longleftrightarrow> (s = None \<or> the s \<le> k) \<and> (e = None \<or> k \<le> the e)"

section \<open>The writer\<close>

record sst_writer =
  sw_path :: bytes
  sw_interval :: nat
  sw_file :: bytes
  sw_count :: nat
  sw_index :: "(bytes \<times> nat) list"
  sw_bloom :: bloom
  sw_min :: "bytes option"
  sw_max :: "bytes option"
  sw_closed :: bool

type_synonym dir = "(bytes \<times> bytes) list"

definition temp_path :: "bytes \<Rightarrow> bytes" where
  "temp_path path = path @ ''.tmp''"

definition sst_writer_new :: "host \<Rightarrow> bytes \<Rightarrow> nat \<Rightarrow> (dir, sst_writer) pym" where
  "sst_writer_new H path interval d =
     (rbind (bloom_init H 10000 RATE_001 None None None) (\<lambda>b.
        Inr \<lparr>sw_path = path, sw_interval = interval, sw_file = SST_HEADER, sw_count = 0,
             sw_index = [], sw_bloom = b, sw_min = None, sw_max = None, sw_closed = False\<rparr>),
      AList.update (temp_path path) [] d)"

definition sst_write_entry :: "host \<Rightarrow> bytes \<Rightarrow> bytes \<Rightarrow> (sst_writer, unit) pym" where
  "sst_write_entry H key value w =
     (if 65535 < length key
      then (Inl (ValueError ''Key size exceeds maximum allowable 64KB limit''), w)
      else
        let w1 = w\<lparr>sw_min := (case sw_min w of None \<Rightarrow> Some key | Some m \<Rightarrow> Some m),
                   sw_max := Some key\<rparr>
        in if sw_interval w = 0 then (Inl ZeroDivisionError, w1)
        else
          let w2 = (if sw_count w1 mod sw_interval w1 = 0
                    then w1\<lparr>sw_index := sw_index w1 @ [(key, length (sw_file w1))]\<rparr> else w1)
          in case bloom_add H key (sw_bloom w2) of
               Inl e \<Rightarrow> (Inl e, w2)
             | Inr b \<Rightarrow>
                 let w3 = w2\<lparr>sw_bloom := b\<rparr>
                 in case pack_fields [(2, length key), (4, length value)] of
                      Inl e \<Rightarrow> (Inl e, w3)
                    | Inr hdr \<Rightarrow>
                        (Inr (), w3\<lparr>sw_file := sw_file w3 @ hdr @ key @ value,
                                    sw_count := sw_count w3 + 1\<rparr>))"

text \<open>The index block: the number of entries, then key length, data offset and key of each.\<close>

fun index_entries :: "(bytes \<times> nat) list \<Rightarrow> bytes res" where
  "index_entries [] = Inr []"
| "index_entries ((k, off) # es) =
     rbind (pack_fields [(2, length k), (8, off)]) (\<lambda>h.
     rbind (index_entries es) (\<lambda>r. Inr (h @ k @ r)))"

definition index_block :: "(bytes \<times> nat) list \<Rightarrow> bytes res" where
  "index_block es =
     rbind (pack_fields [(4, length es)]) (\<lambda>n. rbind (index_entries es) (\<lambda>b. Inr (n @ b)))"

definition footer_block :: "nat \<Rightarrow> nat \<Rightarrow> nat \<Rightarrow> nat \<Rightarrow> nat \<Rightarrow> bytes \<Rightarrow> bytes \<Rightarrow> bytes res" where
  "footer_block index_offset index_size bloom_offset bloom_size count min_k max_k =
     rbind (pack_fields [(8, index_offset), (8, index_size), (8, bloom_offset), (8, bloom_size),
                         (4, count), (2, length min_k)]) (\<lambda>h.
     rbind (pack_fields [(2, length max_k)]) (\<lambda>m. Inr (h @ min_k @ m @ max_k)))"

definition none_to_empty :: "bytes option \<Rightarrow> bytes" where
  "none_to_empty k = (case k of Some x \<Rightarrow> x | None \<Rightarrow> [])"

text \<open>Everything after the data block, in the order \<open>finish\<close> writes it.\<close>

definition sst_tail :: "sst_writer \<Rightarrow> bytes res" where
  "sst_tail w =
     (let index_offset = length (sw_file w) in
      rbind (index_block (sw_index w)) (\<lambda>ib.
      rbind (bloom_to_bytes (sw_bloom w)) (\<lambda>bb.
      let bloom_offset = index_offset + length ib;
          footer_offset = bloom_offset + length bb in
      rbind (footer_block index_offset (length ib) bloom_offset (length bb) (sw_count w)
               (none_to_empty (sw_min w)) (none_to_empty (sw_max w))) (\<lambda>fb.
      rbind (pack_fields [(8, footer_offset)]) (\<lambda>t.
      Inr (ib @ bb @ fb @ t @ SST_TRAILER_MAGIC))))))"

text \<open>
  \<open>finish\<close> on a non-empty table renames the temporary file over the target; a \<open>raise\<close> before
  that leaves the target as it was. (What an aborted \<open>finish\<close> leaves in the temporary file is
  not modelled: no one reads it.)
\<close>

definition sst_finish :: "sst_writer \<Rightarrow> (dir, sst_writer) pym" where
  "sst_finish w d =
     (if sw_closed w then (Inr w, d)
      else if sw_count w = 0
      then (Inr (w\<lparr>sw_closed := True\<rparr>), AList.delete (temp_path (sw_path w)) d)
      else case sst_tail w of
          Inl e \<Rightarrow> (Inl e, d)
        | Inr tail \<Rightarrow>
            let image = sw_file w @ tail;
                d1 = AList.delete (sw_path w) d
            in if temp_path (sw_path w) \<notin> fst ` set d1 then (Inl OSError, d1)
               else (Inr (w\<lparr>sw_file := image, sw_closed := True\<rparr>),
                     AList.update (sw_path w) image (AList.delete (temp_path (sw_path w)) d1)))"

text \<open>The sequence of calls of both users of the writer: create, write every entry, finish.\<close>

definition write_table :: "host \<Rightarrow> bytes \<Rightarrow> (bytes \<times> bytes) list \<Rightarrow> (dir, unit) pym" where
  "write_table H path es d =
     (case sst_writer_new H path 16 d of
        (Inl e, d1) \<Rightarrow> (Inl e, d1)
      | (Inr w, d1) \<Rightarrow> (case for_each es (\<lambda>(k, v). sst_write_entry H k v) w of
          (Inl e, w1) \<Rightarrow> (Inl e, d1)
        | (Inr u, w1) \<Rightarrow> (case sst_finish w1 d1 of
              (Inl e, d2) \<Rightarrow> (Inl e, d2)
            | (Inr w2, d2) \<Rightarrow> (Inr (), d2))))"

section \<open>The reader\<close>

record sst_reader =
  sr_path :: bytes
  sr_file :: bytes
  sr_index_keys :: "bytes list"
  sr_index_offsets :: "nat list"
  sr_bloom :: bloom
  sr_entry_count :: nat
  sr_min_key :: bytes
  sr_max_key :: bytes
  sr_index_offset :: nat

text \<open>\<open>seek\<close> raises \<open>ValueError\<close> when the position does not fit the platform's offset type.\<close>

definition seek :: "nat \<Rightarrow> bytes \<Rightarrow> bytes res" where
  "seek pos data = (if pos < 2 ^ 63 then Inr (drop pos data)
                    else Inl (ValueError ''cannot fit 'int' into an offset-sized integer''))"

definition unpack_exact :: "nat list \<Rightarrow> bytes \<Rightarrow> nat list res" where
  "unpack_exact ns bs = (if length bs = sum_list ns then Inr (unpack_fields ns bs) else Inl StructError)"

fun read_index :: "nat \<Rightarrow> bytes \<Rightarrow> (bytes \<times> nat) list res" where
  "read_index 0 rest = Inr []"
| "read_index (Suc n) rest =
     rbind (unpack_exact [2, 8] (take 10 rest)) (\<lambda>f.
     rbind (read_index n (drop (f ! 0) (drop 10 rest))) (\<lambda>es.
     Inr ((take (f ! 0) (drop 10 rest), f ! 1) # es)))"

text \<open>The constructor with \<open>_load_metadata\<close>: trailer, footer, index block, Bloom filter.\<close>

definition sst_open :: "host \<Rightarrow> bytes \<Rightarrow> bytes \<Rightarrow> sst_reader res" where
  "sst_open H path data =
     (if length data < 16 then Inl (ValueError ''SSTable file too small: '')
      else
      let trailer = drop (length data - 16) data;
          footer_offset = be_val (take 8 trailer) in
      if drop 8 trailer \<noteq> SST_TRAILER_MAGIC
      then Inl (ValueError ''Invalid SSTable trailer magic in '')
      else
      rbind (seek footer_offset data) (\<lambda>r0.
      rbind (unpack_exact [8, 8, 8, 8, 4, 2] (take 38 r0)) (\<lambda>f.
      let index_offset = f ! 0; bloom_offset = f ! 2; bloom_size = f ! 3;
          r1 = drop 38 r0; min_key = take (f ! 5) r1; r2 = drop (f ! 5) r1 in
      rbind (unpack_exact [2] (take 2 r2)) (\<lambda>m.
      let max_key = take (m ! 0) (drop 2 r2) in
      rbind (seek index_offset data) (\<lambda>r3.
      rbind (unpack_exact [4] (take 4 r3)) (\<lambda>n.
      rbind (read_index (n ! 0) (drop 4 r3)) (\<lambda>idx.
      rbind (seek bloom_offset data) (\<lambda>r4.
      rbind (bloom_from_bytes H (take bloom_size r4)) (\<lambda>bloom.
      Inr \<lparr>sr_path = path, sr_file = data, sr_index_keys = map fst idx,
           sr_index_offsets = map snd idx, sr_bloom = bloom, sr_entry_count = f ! 4,
           sr_min_key = min_key, sr_max_key = max_key, sr_index_offset = index_offset\<rparr>)))))))))"

text \<open>\<open>bisect.bisect_right\<close>, the binary search of Python's library.\<close>

function bisect_loop :: "bytes list \<Rightarrow> bytes \<Rightarrow> nat \<Rightarrow> nat \<Rightarrow> nat" where
  "bisect_loop xs x lo hi =
     (if lo < hi
      then (let mid = (lo + hi) div 2
            in if x < xs ! mid then bisect_loop xs x lo mid else bisect_loop xs x (mid + 1) hi)
      else lo)"
  by pat_completeness auto
termination by (relation "measure (\<lambda>(_, _, lo, hi). hi - lo)") auto

declare bisect_loop.simps [simp del]

definition bisect_right :: "bytes list \<Rightarrow> bytes \<Rightarrow> nat" where
  "bisect_right xs x = bisect_loop xs x 0 (length xs)"

text \<open>\<open>idx = max(0, bisect_right(keys, key) - 1)\<close> and the offset it selects.\<close>

definition start_offset :: "bytes \<Rightarrow> sst_reader \<Rightarrow> nat" where
  "start_offset key r = sr_index_offsets r ! (bisect_right (sr_index_keys r) key - 1)"

text \<open>One entry at the head of the rest of the file, and the number of bytes consumed.\<close>

definition parse_entry :: "bytes \<Rightarrow> (bytes \<times> bytes \<times> nat) option" where
  "parse_entry rest =
     (let hdr = take 6 rest in
      if length hdr < 6 then None
      else let klen = be_val (take 2 hdr); vlen = be_val (drop 2 hdr);
               k = take klen (drop 6 rest); v = take vlen (drop klen (drop 6 rest))
           in Some (k, v, 6 + length k + length v))"

lemma parse_entry_size: "parse_entry rest = Some (k, v, n) \<Longrightarrow> 6 \<le> n \<and> 6 \<le> length rest"
  by (auto simp: parse_entry_def Let_def split: if_splits)

function scan_get :: "bytes \<Rightarrow> nat \<Rightarrow> nat \<Rightarrow> bytes \<Rightarrow> bytes option" where
  "scan_get key limit pos rest =
     (if limit \<le> pos then None
      else case parse_entry rest of
          None \<Rightarrow> None
        | Some (k, v, n) \<Rightarrow>
            if k = key then Some v
            else if key < k then None
            else scan_get key limit (pos + n) (drop n rest))"
  by pat_completeness auto
termination
  by (relation "measure (\<lambda>(_, _, _, rest). length rest)") (auto dest: parse_entry_size)

declare scan_get.simps [simp del]

definition sst_get :: "host \<Rightarrow> bytes \<Rightarrow> sst_reader \<Rightarrow> bytes option res" where
  "sst_get H key r =
     (if sr_min_key r = [] \<or> key < sr_min_key r \<or> sr_max_key r < key then Inr None
      else rbind (bloom_contains H key (sr_bloom r)) (\<lambda>b.
        if \<not> b then Inr None
        else if sr_index_keys r = [] then Inr None
        else rbind (seek (start_offset key r) (sr_file r)) (\<lambda>rest.
          Inr (scan_get key (sr_index_offset r) (start_offset key r) rest))))"

fun scan_loop ::
  "bytes option \<Rightarrow> bytes option \<Rightarrow> nat \<Rightarrow> nat \<Rightarrow> nat \<Rightarrow> bytes \<Rightarrow> (bytes \<times> bytes) list" where
  "scan_loop start_key end_key limit 0 pos rest = []"
| "scan_loop start_key end_key limit (Suc n) pos rest =
     (if limit \<le> pos then []
      else case parse_entry rest of
          None \<Rightarrow> []
        | Some (k, v, m) \<Rightarrow>
            if start_key \<noteq> None \<and> k < the start_key
            then scan_loop start_key end_key limit n (pos + m) (drop m rest)
            else if end_key \<noteq> None \<and> the end_key < k then []
            else (k, v) # scan_loop start_key end_key limit n (pos + m) (drop m rest))"

definition sst_scan ::
  "bytes option \<Rightarrow> bytes option \<Rightarrow> sst_reader \<Rightarrow> (bytes \<times> bytes) list res" where
  "sst_scan start_key end_key r =
     (if sr_entry_count r = 0 then Inr []
      else if start_key \<noteq> None \<and> sr_max_key r < the start_key then Inr []
      else if end_key \<noteq> None \<and> the end_key < sr_min_key r then Inr []
      else let offset = (if start_key \<noteq> None \<and> sr_index_keys r \<noteq> []
                         then start_offset (the start_key) r else 5)
           in rbind (seek offset (sr_file r)) (\<lambda>rest.
              Inr (scan_loop start_key end_key (sr_index_offset r) (sr_entry_count r) offset rest)))"

definition sst_iter_all :: "sst_reader \<Rightarrow> (bytes \<times> bytes) list res" where
  "sst_iter_all r = sst_scan None None r"

end
