(* ===== verification/SSTableLaws.thy ===== *)
theory SSTableLaws
  imports SSTable
begin

text \<open>
  What a table file promises. \<open>table_of H r es\<close> says that the reader \<open>r\<close> has open a file
  whose data block is the strictly sorted run \<open>es\<close>, with a sparse index of it and a filter
  that covers its keys. The writer produces such files, \<open>get\<close> is lookup in the run and
  \<open>scan\<close> a range of it.
\<close>

section \<open>Binary search\<close>

lemma bisect_loop_spec:
  assumes "lo \<le> hi" "hi \<le> length xs" "sorted xs"
    "\<forall>i < lo. xs ! i \<le> x" "\<forall>i. hi \<le> i \<and> i < length xs \<longrightarrow> x < xs ! i"
  shows "let r = bisect_loop xs x lo hi in lo \<le> r \<and> r \<le> hi \<and>
    (\<forall>i < r. xs ! i \<le> x) \<and> (\<forall>i. r \<le> i \<and> i < length xs \<longrightarrow> x < xs ! i)"
  using assms
proof (induction xs x lo hi rule: bisect_loop.induct)
  case (1 xs x lo hi)
  show ?case
  proof (cases "lo < hi")
    case False
    then have "bisect_loop xs x lo hi = lo" by (subst bisect_loop.simps) simp
    moreover have "hi = lo" using False 1(3) by simp
    ultimately show ?thesis unfolding Let_def using 1(6,7) by auto
  next
    case True
    let ?mid = "(lo + hi) div 2"
    have m: "lo \<le> ?mid" "?mid < hi" "?mid < length xs" using True 1(4) by auto
    show ?thesis
    proof (cases "x < xs ! ?mid")
      case less: True
      have up: "\<forall>i. ?mid \<le> i \<and> i < length xs \<longrightarrow> x < xs ! i"
        using less 1(5) by (meson less_le_trans sorted_nth_mono)
      have "bisect_loop xs x lo hi = bisect_loop xs x lo ?mid"
        using True less by (subst bisect_loop.simps) (simp add: Let_def)
      moreover note 1(1) [OF True refl less _ _ 1(5,6) up]
      ultimately show ?thesis using m by (simp add: Let_def)
    next
      case ge: False
      have dn: "\<forall>i < ?mid + 1. xs ! i \<le> x"
      proof (intro allI impI)
        fix i assume "i < ?mid + 1"
        then have "xs ! i \<le> xs ! ?mid" using sorted_nth_mono [OF 1(5) _ m(3)] by simp
        also have "\<dots> \<le> x" using ge by simp
        finally show "xs ! i \<le> x" .
      qed
      have "bisect_loop xs x lo hi = bisect_loop xs x (?mid + 1) hi"
        using True ge by (subst bisect_loop.simps) (simp add: Let_def)
      moreover note 1(2) [OF True refl ge _ 1(4,5) dn 1(7)]
      ultimately show ?thesis using m by (simp add: Let_def)
    qed
  qed
qed

lemma bisect_right_spec:
  assumes "sorted xs"
  shows "bisect_right xs x \<le> length xs"
    and "i < bisect_right xs x \<Longrightarrow> xs ! i \<le> x"
    and "bisect_right xs x \<le> i \<Longrightarrow> i < length xs \<Longrightarrow> x < xs ! i"
proof -
  have "\<forall>i. length xs \<le> i \<and> i < length xs \<longrightarrow> x < xs ! i" by auto
  note s = bisect_loop_spec [of 0 "length xs" xs x, OF _ order_refl assms _ this, unfolded Let_def]
  show "bisect_right xs x \<le> length xs" using s by (simp add: bisect_right_def)
  show "i < bisect_right xs x \<Longrightarrow> xs ! i \<le> x" using s by (simp add: bisect_right_def)
  show "bisect_right xs x \<le> i \<Longrightarrow> i < length xs \<Longrightarrow> x < xs ! i" using s by (simp add: bisect_right_def)
qed

section \<open>The data block\<close>

definition entry_ok :: "bytes \<times> bytes \<Rightarrow> bool" where
  "entry_ok e \<longleftrightarrow> length (fst e) \<le> 65535 \<and> length (snd e) < 2 ^ 32"

definition entry_bytes :: "bytes \<times> bytes \<Rightarrow> bytes" where
  "entry_bytes e = be_fields [(2, length (fst e)), (4, length (snd e))] @ fst e @ snd e"

definition data_bytes :: "(bytes \<times> bytes) list \<Rightarrow> bytes" where
  "data_bytes es = concat (map entry_bytes es)"

lemma data_bytes_simps [simp]:
  "data_bytes [] = []"
  "data_bytes (e # es) = entry_bytes e @ data_bytes es"
  "data_bytes (es @ fs) = data_bytes es @ data_bytes fs"
  by (simp_all add: data_bytes_def)

lemma length_entry_bytes: "length (entry_bytes e) = 6 + length (fst e) + length (snd e)"
  by (simp add: entry_bytes_def length_be_fields)

lemma entry_fields_fit: "entry_ok e \<Longrightarrow> fields_fit [(2, length (fst e)), (4, length (snd e))]"
  by (simp add: entry_ok_def fields_fit_def)

lemma parse_entry_bytes:
  assumes "entry_ok (k, v)"
  shows "parse_entry (entry_bytes (k, v) @ rest) = Some (k, v, length (entry_bytes (k, v)))"
proof -
  have k: "length k < 256 ^ 2" and v: "length v < 256 ^ 4" using assms by (auto simp: entry_ok_def)
  have e: "entry_bytes (k, v) @ rest = be_bytes 2 (length k) @ be_bytes 4 (length v) @ k @ v @ rest"
    by (simp add: entry_bytes_def be_fields_def)
  have h: "take 6 (entry_bytes (k, v) @ rest) = be_bytes 2 (length k) @ be_bytes 4 (length v)"
    "drop 6 (entry_bytes (k, v) @ rest) = k @ v @ rest"
    unfolding e by (simp_all del: be_bytes.simps)
  have "take 2 (be_bytes 2 (length k) @ be_bytes 4 (length v)) = be_bytes 2 (length k)"
    "drop 2 (be_bytes 2 (length k) @ be_bytes 4 (length v)) = be_bytes 4 (length v)"
    by (simp_all del: be_bytes.simps)
  then show ?thesis
    unfolding parse_entry_def Let_def h
    by (simp add: be_val_be_bytes [OF k] be_val_be_bytes [OF v] length_entry_bytes del: be_bytes.simps)
qed

text \<open>Scanning from the start of a sorted run.\<close>

lemma scan_get_run:
  assumes "list_all entry_ok es" "strict_keys es" "limit = pos + length (data_bytes es)"
  shows "scan_get key limit pos (data_bytes es @ rest) = map_of es key"
  using assms
proof (induction es arbitrary: pos)
  case Nil
  then show ?case by (subst scan_get.simps) simp
next
  case (Cons e es)
  obtain k v where e: "e = (k, v)" by fastforce
  have p: "parse_entry (data_bytes (e # es) @ rest) = Some (k, v, length (entry_bytes (k, v)))"
    using parse_entry_bytes [of k v "data_bytes es @ rest"] Cons.prems(1) by (simp add: e)
  have pos: "\<not> limit \<le> pos" using Cons.prems(3) by (simp add: length_entry_bytes)
  have above: "key < k \<Longrightarrow> map_of es key = None"
    using Cons.prems(2) by (intro map_of_None_below) (auto simp: e dest: less_trans)
  have d: "drop (length (entry_bytes (k, v))) (data_bytes (e # es) @ rest) = data_bytes es @ rest"
    by (simp add: e)
  have ih: "scan_get key limit (pos + length (entry_bytes (k, v))) (data_bytes es @ rest) = map_of es key"
    using Cons.prems by (intro Cons.IH) (auto simp: e)
  show ?case
    unfolding scan_get.simps [of key limit pos "data_bytes (e # es) @ rest"] p option.case prod.case d ih
    using pos above by (auto simp: e)
qed

definition range_of :: "bytes option \<Rightarrow> bytes option \<Rightarrow> (bytes \<times> bytes) list \<Rightarrow> (bytes \<times> bytes) list" where
  "range_of s e es = filter (\<lambda>(k, v). in_bounds s e k) es"

lemma range_of_beyond:
  "strict_keys ((k, v) # es) \<Longrightarrow> \<not> in_bounds None e k \<Longrightarrow> range_of s e ((k, v) # es) = []"
  by (fastforce simp: range_of_def in_bounds_def filter_empty_conv dest: less_imp_le)

lemma scan_loop_run:
  assumes "list_all entry_ok es" "strict_keys es" "limit = pos + length (data_bytes es)" "length es \<le> n"
  shows "scan_loop s e limit n pos (data_bytes es @ rest) = range_of s e es"
  using assms
proof (induction es arbitrary: n pos)
  case Nil
  then show ?case by (cases n) (simp_all add: range_of_def)
next
  case (Cons x es)
  obtain k v where x: "x = (k, v)" by fastforce
  obtain m where n: "n = Suc m" using Cons.prems(4) by (cases n) auto
  have p: "parse_entry (data_bytes (x # es) @ rest) = Some (k, v, length (entry_bytes (k, v)))"
    using parse_entry_bytes [of k v "data_bytes es @ rest"] Cons.prems(1) by (simp add: x)
  have pos: "\<not> limit \<le> pos" using Cons.prems(3) by (simp add: length_entry_bytes)
  have d: "drop (length (entry_bytes (k, v))) (data_bytes (x # es) @ rest) = data_bytes es @ rest"
    by (simp add: x)
  have ih: "scan_loop s e limit m (pos + length (entry_bytes (k, v))) (data_bytes es @ rest) = range_of s e es"
    using Cons.prems by (intro Cons.IH) (auto simp: x n)
  have b: "e \<noteq> None \<and> the e < k \<Longrightarrow> range_of s e (x # es) = []"
    using Cons.prems(2) unfolding x by (intro range_of_beyond) (auto simp: in_bounds_def)
  have r: "range_of s e (x # es) = (if in_bounds s e k then x # range_of s e es else range_of s e es)"
    by (simp add: range_of_def x)
  have c: "s \<noteq> None \<and> k < the s \<Longrightarrow> \<not> in_bounds s e k"
    "\<not> (s \<noteq> None \<and> k < the s) \<Longrightarrow> \<not> (e \<noteq> None \<and> the e < k) \<Longrightarrow> in_bounds s e k"
    by (auto simp: in_bounds_def)
  show ?case
    unfolding n scan_loop.simps p option.case prod.case d ih if_not_P [OF pos]
    by (metis b c r x)
qed

section \<open>The sparse index\<close>

fun index_of :: "nat \<Rightarrow> nat \<Rightarrow> nat \<Rightarrow> (bytes \<times> bytes) list \<Rightarrow> (bytes \<times> nat) list" where
  "index_of iv i off [] = []"
| "index_of iv i off (e # es) =
     (if i mod iv = 0 then [(fst e, off)] else []) @ index_of iv (i + 1) (off + length (entry_bytes e)) es"

lemma index_of_snoc:
  "index_of iv i off (es @ [e]) = index_of iv i off es @
     (if (i + length es) mod iv = 0 then [(fst e, off + length (data_bytes es))] else [])"
  by (induction es arbitrary: i off) (auto simp: add.assoc)

lemma index_of_entry:
  "(k, p) \<in> set (index_of iv i off es) \<Longrightarrow>
   \<exists>xs v ys. es = xs @ (k, v) # ys \<and> p = off + length (data_bytes xs)"
proof (induction es arbitrary: i off)
  case (Cons e es)
  consider "k = fst e" "p = off" | "(k, p) \<in> set (index_of iv (i + 1) (off + length (entry_bytes e)) es)"
    using Cons.prems by (auto split: if_splits)
  then show ?case
  proof cases
    case 1
    then show ?thesis by (intro exI [of _ "[]"] exI [of _ "snd e"] exI [of _ es]) simp
  next
    case 2
    with Cons.IH obtain xs v ys where "es = xs @ (k, v) # ys" "p = off + length (entry_bytes e) + length (data_bytes xs)"
      by blast
    then show ?thesis by (intro exI [of _ "e # xs"] exI [of _ v] exI [of _ ys]) simp
  qed
qed simp

lemma index_of_keys: "fst ` set (index_of iv i off es) \<subseteq> fst ` set es"
  by (induction es arbitrary: i off) force+

lemma index_of_sorted: "strict_keys es \<Longrightarrow> sorted (map fst (index_of iv i off es))"
proof (induction es arbitrary: i off)
  case (Cons e es)
  obtain k v where e: "e = (k, v)" by fastforce
  with Cons.prems have s: "\<forall>k' \<in> fst ` set es. k < k'" "strict_keys es" by auto
  have "k \<le> k'" if "k' \<in> fst ` set (index_of iv (i + 1) (off + length (entry_bytes e)) es)" for k'
    using that index_of_keys s(1) by (blast intro: less_imp_le)
  with Cons.IH [OF s(2)] show ?case by (auto simp: e)
qed simp

text \<open>
  The entry the index selects: everything before it is below the key. Below the smallest key
  it is the first entry.
\<close>

lemma index_start:
  assumes "strict_keys es" "es \<noteq> []" "0 < iv" "ix = index_of iv 0 off es"
  obtains xs ys where "es = xs @ ys" "\<forall>k \<in> fst ` set xs. k < key"
    "map snd ix ! (bisect_right (map fst ix) key - 1) = off + length (data_bytes xs)" "ix \<noteq> []"
proof -
  let ?b = "bisect_right (map fst ix) key"
  have s: "sorted (map fst ix)" using index_of_sorted [OF assms(1)] by (simp add: assms(4))
  obtain e es' where es: "es = e # es'" using assms(2) by (cases es) auto
  then have ix: "ix = (fst e, off) # index_of iv 1 (off + length (entry_bytes e)) es'"
    by (simp add: assms(4))
  show ?thesis
  proof (cases "?b - 1 = 0")
    case True
    then show ?thesis by (intro that [of "[]" es]) (simp_all add: ix)
  next
    case False
    let ?i = "?b - 1"
    have i: "?i < length ix" using bisect_right_spec(1) [OF s, of key] False by simp
    have le: "map fst ix ! ?i \<le> key" by (rule bisect_right_spec(2) [OF s]) (use False in simp)
    obtain k p where kp: "ix ! ?i = (k, p)" by fastforce
    then have "(k, p) \<in> set (index_of iv 0 off es)" using i assms(4) by (metis nth_mem)
    then obtain xs v ys where x: "es = xs @ (k, v) # ys" "p = off + length (data_bytes xs)"
      using index_of_entry by blast
    have "\<forall>k' \<in> fst ` set xs. k' < key"
      using assms(1) le i kp unfolding x(1) strict_keys_append
      by (fastforce dest: less_le_trans)
    moreover have "map snd ix ! ?i = off + length (data_bytes xs)" using i kp x(2) by simp
    moreover have "ix \<noteq> []" by (simp add: ix)
    ultimately show ?thesis using x(1) by (intro that [of xs "(k, v) # ys"])
  qed
qed

section \<open>The reader\<close>

definition table_of :: "host \<Rightarrow> sst_reader \<Rightarrow> (bytes \<times> bytes) list \<Rightarrow> bool" where
  "table_of H r es \<longleftrightarrow>
     es \<noteq> [] \<and> strict_keys es \<and> list_all entry_ok es \<and> length (sr_file r) < 2 ^ 63 \<and>
     (\<exists>tail. sr_file r = SST_HEADER @ data_bytes es @ tail) \<and>
     sr_index_offset r = 5 + length (data_bytes es) \<and>
     (\<exists>iv > 0. sr_index_keys r = map fst (index_of iv 0 5 es) \<and>
        sr_index_offsets r = map snd (index_of iv 0 5 es)) \<and>
     bf.covers H (sr_bloom r) (fst ` set es) \<and>
     sr_entry_count r = length es \<and> sr_min_key r = fst (hd es) \<and> sr_max_key r = fst (last es)"

lemma strict_keys_bounds:
  "strict_keys es \<Longrightarrow> (k, v) \<in> set es \<Longrightarrow> fst (hd es) \<le> k \<and> k \<le> fst (last es)"
proof (induction es)
  case (Cons e es)
  obtain k0 v0 where e: "e = (k0, v0)" by fastforce
  show ?case
  proof (cases "es = []")
    case True
    with Cons.prems show ?thesis by auto
  next
    case False
    then have l: "fst (last es) \<in> fst ` set es" by simp
    show ?thesis
    proof (cases "(k, v) = e")
      case True
      then have "k = k0" by (simp add: e)
      then show ?thesis using False l Cons.prems(1) by (auto simp: e intro!: less_imp_le)
    next
      case ne: False
      then have "(k, v) \<in> set es" using Cons.prems by simp
      then show ?thesis using Cons.IH Cons.prems(1) False by (force simp: e intro: less_imp_le)
    qed
  qed
qed simp

lemma table_start:
  assumes "table_of H r es"
  obtains xs ys tail where "es = xs @ ys" "\<forall>k \<in> fst ` set xs. k < key" "sr_index_keys r \<noteq> []"
    "start_offset key r = 5 + length (data_bytes xs)"
    "seek (start_offset key r) (sr_file r) = Inr (data_bytes ys @ tail)"
proof -
  obtain iv tail where t: "0 < iv" "sr_index_keys r = map fst (index_of iv 0 5 es)"
      "sr_index_offsets r = map snd (index_of iv 0 5 es)" "sr_file r = SST_HEADER @ data_bytes es @ tail"
    using assms by (auto simp: table_of_def)
  have s: "strict_keys es" "es \<noteq> []" using assms by (auto simp: table_of_def)
  obtain xs ys where x: "es = xs @ ys" "\<forall>k \<in> fst ` set xs. k < key" "index_of iv 0 5 es \<noteq> []"
      "map snd (index_of iv 0 5 es) ! (bisect_right (map fst (index_of iv 0 5 es)) key - 1)
       = 5 + length (data_bytes xs)"
    using index_start [OF s t(1) refl, where off = 5 and key = key] by metis
  then have o: "start_offset key r = 5 + length (data_bytes xs)"
    by (simp add: start_offset_def t(2,3))
  have f: "sr_file r = (SST_HEADER @ data_bytes xs) @ data_bytes ys @ tail"
    "length (SST_HEADER @ data_bytes xs) = 5 + length (data_bytes xs)"
    by (simp_all add: t(4) x(1) SST_HEADER_def)
  have "5 + length (data_bytes xs) < 2 ^ 63"
    using assms unfolding table_of_def f(1) by (simp add: SST_HEADER_def)
  then have "seek (start_offset key r) (sr_file r) = Inr (data_bytes ys @ tail)"
    unfolding seek_def o f(1) by (metis append_eq_conv_conj f(2))
  with x o show ?thesis by (intro that [of xs ys tail]) (auto simp: t(2))
qed

text \<open>
  \<open>get\<close> is lookup in the run, unless the smallest key is empty: then it finds nothing.
\<close>

lemma table_get:
  assumes "table_of H r es"
  shows "sst_get H key r = Inr (if sr_min_key r = [] then None else map_of es key)"
proof -
  have t: "strict_keys es" "list_all entry_ok es" "sr_min_key r = fst (hd es)" "sr_max_key r = fst (last es)"
    "sr_index_offset r = 5 + length (data_bytes es)" "bf.covers H (sr_bloom r) (fst ` set es)"
    using assms by (auto simp: table_of_def)
  have "bloom_wf (sr_bloom r)" using t(6) by (simp add: bf.covers_def)
  then obtain b where b: "bloom_contains H key (sr_bloom r) = Inr b" using bf.mem_total by blast
  have nb: "map_of es key = None" if "\<not> b"
    using bf.absent_never_added [OF t(6)] b that by (force simp: map_of_eq_None_iff)
  have out: "map_of es key = None" if "key < fst (hd es) \<or> fst (last es) < key"
  proof (rule ccontr)
    assume "map_of es key \<noteq> None"
    then obtain v where "(key, v) \<in> set es" by (auto dest: map_of_SomeD)
    with strict_keys_bounds [OF t(1)] that show False by fastforce
  qed
  obtain xs ys tail where x: "es = xs @ ys" "\<forall>k \<in> fst ` set xs. k < key" "sr_index_keys r \<noteq> []"
    "start_offset key r = 5 + length (data_bytes xs)"
    "seek (start_offset key r) (sr_file r) = Inr (data_bytes ys @ tail)"
    using table_start [OF assms, of key] by blast
  have "scan_get key (sr_index_offset r) (start_offset key r) (data_bytes ys @ tail) = map_of ys key"
    using t by (intro scan_get_run) (auto simp: x strict_keys_append)
  moreover have "map_of es key = map_of ys key"
  proof -
    have "key \<notin> fst ` set xs" using x(2) by auto
    then have "map_of xs key = None" by (simp add: map_of_eq_None_iff)
    then show ?thesis by (simp add: x(1) map_add_def split: option.split)
  qed
  ultimately show ?thesis
    using b nb out x(3,5) t(3,4) by (auto simp: sst_get_def)
qed

lemma table_scan:
  assumes "table_of H r es"
  shows "sst_scan s e r = Inr (range_of s e es)"
proof -
  have t: "es \<noteq> []" "strict_keys es" "list_all entry_ok es" "sr_min_key r = fst (hd es)"
    "sr_max_key r = fst (last es)" "sr_index_offset r = 5 + length (data_bytes es)" "sr_entry_count r = length es"
    using assms by (auto simp: table_of_def)
  have b: "range_of s e es = []" if "s \<noteq> None \<and> sr_max_key r < the s \<or> e \<noteq> None \<and> the e < sr_min_key r"
  proof -
    have "\<not> in_bounds s e k" if "(k, v) \<in> set es" for k v
      using \<open>s \<noteq> None \<and> _ \<or> _\<close> strict_keys_bounds [OF t(2) that] t(4,5) unfolding in_bounds_def
      by (metis leD le_less_trans less_le_trans option.collapse)
    then show ?thesis by (auto simp: range_of_def filter_empty_conv)
  qed
  obtain xs ys tail where x: "es = xs @ ys" "s \<noteq> None \<longrightarrow> (\<forall>k \<in> fst ` set xs. k < the s)"
    "(if s \<noteq> None \<and> sr_index_keys r \<noteq> [] then start_offset (the s) r else 5) = 5 + length (data_bytes xs)"
    "seek (if s \<noteq> None \<and> sr_index_keys r \<noteq> [] then start_offset (the s) r else 5) (sr_file r)
       = Inr (data_bytes ys @ tail)" "s = None \<longrightarrow> xs = []"
  proof (cases s)
    case None
    obtain tail where f: "sr_file r = SST_HEADER @ data_bytes es @ tail"
      using assms by (auto simp: table_of_def)
    have "seek 5 (sr_file r) = Inr (data_bytes es @ tail)" by (simp add: f seek_def SST_HEADER_def)
    then show ?thesis using None by (intro that [of "[]" es tail]) auto
  next
    case (Some key)
    obtain xs ys tail where y: "es = xs @ ys" "\<forall>k \<in> fst ` set xs. k < key" "sr_index_keys r \<noteq> []"
      "start_offset key r = 5 + length (data_bytes xs)"
      "seek (start_offset key r) (sr_file r) = Inr (data_bytes ys @ tail)"
      using table_start [OF assms, of key] by blast
    then show ?thesis using Some by (intro that [of xs ys tail]) simp_all
  qed
  have "scan_loop s e (sr_index_offset r) (sr_entry_count r) (5 + length (data_bytes xs)) (data_bytes ys @ tail)
      = range_of s e ys"
    using t by (intro scan_loop_run) (auto simp: x(1) strict_keys_append)
  moreover have "range_of s e es = range_of s e ys"
  proof -
    have "\<not> in_bounds s e k" if "(k, v) \<in> set xs" for k v
      using x(2,5) that by (cases s) (force simp: in_bounds_def)+
    then have "filter (\<lambda>(k, v). in_bounds s e k) xs = []" by (auto simp: filter_empty_conv)
    then show ?thesis by (simp add: range_of_def x(1))
  qed
  moreover have "sr_entry_count r \<noteq> 0" using t(1,7) by simp
  moreover have "seek (5 + length (data_bytes xs)) (sr_file r) = Inr (data_bytes ys @ tail)"
    using x(4) unfolding x(3) .
  ultimately show ?thesis
    unfolding sst_scan_def Let_def x(3) using b by auto
qed

lemma table_iter_all: "table_of H r es \<Longrightarrow> sst_iter_all r = Inr es"
  by (simp add: sst_iter_all_def table_scan range_of_def in_bounds_def)

section \<open>The writer\<close>

text \<open>
  The sizing formulas of the standard library's \<open>math.log\<close> give 95851 bits for 10000 keys at
  0.01; all that is needed of it is that the size fits its 32-bit field.
\<close>

definition host_ok :: "host \<Rightarrow> bool" where
  "host_ok H \<longleftrightarrow> (case log_m H 10000 RATE_001 of Inl e \<Rightarrow> False | Inr m \<Rightarrow> m < 2 ^ 31)"

definition sst_filter :: "host \<Rightarrow> bloom res" where
  "sst_filter H = bloom_init H 10000 RATE_001 None None None"

lemma rate_has_log: "has_log RATE_001"
  by (simp add: has_log_def RATE_001_def f64_exp_def f64_mant_def f64_sign_def)

lemma sst_filter_ok:
  assumes "host_ok H"
  obtains b where "sst_filter H = Inr b" "bloom_wf b"
    "bl_capacity b = 10000" "bl_rate b = RATE_001" "bl_m b < 2 ^ 31 + 8" "bl_k b \<le> 30"
proof -
  obtain m where m: "log_m H 10000 RATE_001 = Inr m" "m < 2 ^ 31"
    using assms by (auto simp: host_ok_def split: sum.splits)
  then obtain b where b: "bloom_init H 10000 RATE_001 None None None = Inr b"
    using rate_has_log by (auto simp: bloom_init_size)
  with m show ?thesis
    by (intro that [of b]) (auto simp: sst_filter_def bloom_init_wf, auto simp: bloom_init_size)
qed

definition writer_of :: "host \<Rightarrow> bytes \<Rightarrow> nat \<Rightarrow> sst_writer \<Rightarrow> (bytes \<times> bytes) list \<Rightarrow> bool" where
  "writer_of H path iv w es \<longleftrightarrow>
     sw_path w = path \<and> sw_interval w = iv \<and> \<not> sw_closed w \<and>
     sw_file w = SST_HEADER @ data_bytes es \<and> sw_count w = length es \<and>
     sw_index w = index_of iv 0 5 es \<and>
     bf.covers H (sw_bloom w) (fst ` set es) \<and> map_sum id bloom_shape (sst_filter H) = Inr (bloom_shape (sw_bloom w)) \<and>
     sw_min w = (if es = [] then None else Some (fst (hd es))) \<and>
     sw_max w = (if es = [] then None else Some (fst (last es)))"

lemma writer_new:
  assumes "host_ok H"
  obtains w where "sst_writer_new H path iv d = (Inr w, AList.update (temp_path path) [] d)"
    "writer_of H path iv w []" "sw_count w = 0" "\<not> sw_closed w" "sw_path w = path"
proof (rule sst_filter_ok [OF assms])
  fix b assume b: "sst_filter H = Inr b" "bloom_wf b"
  then show ?thesis
    using bf.covers_empty [OF b(2), of H] that
    by (auto simp: sst_writer_new_def writer_of_def sst_filter_def)
qed

lemma write_entry_ok:
  assumes w: "writer_of H path iv w es" and "0 < iv" "entry_ok (k, v)"
  shows "\<exists>w'. sst_write_entry H k v w = (Inr (), w') \<and> writer_of H path iv w' (es @ [(k, v)])"
proof -
  obtain b where b: "bloom_add H k (sw_bloom w) = Inr b" "bf.covers H b (insert k (fst ` set es))"
      "bloom_shape b = bloom_shape (sw_bloom w)"
    using bf.covers_add [of H "sw_bloom w" "fst ` set es" k] w unfolding writer_of_def by blast
  have fit: "pack_fields [(2, length k), (4, length v)] = Inr (be_fields [(2, length k), (4, length v)])"
    using entry_fields_fit [OF assms(3)] by (simp add: pack_fields_eq)
  let ?w' = "w\<lparr>sw_file := sw_file w @ entry_bytes (k, v), sw_count := sw_count w + 1,
     sw_index := index_of iv 0 5 (es @ [(k, v)]), sw_bloom := b,
     sw_min := Some (fst (hd (es @ [(k, v)]))), sw_max := Some k\<rparr>"
  have "\<not> 65535 < length k" using assms(3) by (simp add: entry_ok_def)
  moreover have "length (sw_file w) = 5 + length (data_bytes es)"
    using w by (simp add: writer_of_def SST_HEADER_def)
  ultimately have "sst_write_entry H k v w = (Inr (), ?w')"
    using w assms(2) b(1) fit
    by (cases "es = []") (simp_all add: sst_write_entry_def writer_of_def index_of_snoc entry_bytes_def Let_def)
  moreover have "writer_of H path iv ?w' (es @ [(k, v)])"
    using w b(2,3) by (cases "es = []") (simp_all add: writer_of_def)
  ultimately show ?thesis by blast
qed

lemma write_all_ok:
  "writer_of H path iv w es \<Longrightarrow> 0 < iv \<Longrightarrow> list_all entry_ok fs \<Longrightarrow>
   \<exists>w'. for_each fs (\<lambda>(k, v). sst_write_entry H k v) w = (Inr (), w') \<and> writer_of H path iv w' (es @ fs)"
proof (induction fs arbitrary: w es)
  case Nil
  then show ?case by (simp add: pym_simps)
next
  case (Cons f fs)
  obtain k v where f: "f = (k, v)" by fastforce
  obtain w1 where "sst_write_entry H k v w = (Inr (), w1)" "writer_of H path iv w1 (es @ [(k, v)])"
    using write_entry_ok [OF Cons.prems(1,2)] Cons.prems(3) f by auto
  then show ?case using Cons.IH [of w1 "es @ [(k, v)]"] Cons.prems by (auto simp: f pym_simps)
qed

section \<open>The file the writer produces\<close>

definition index_bytes :: "(bytes \<times> nat) list \<Rightarrow> bytes" where
  "index_bytes ix = concat (map (\<lambda>(k, off). be_fields [(2, length k), (8, off)] @ k) ix)"

definition index_fit :: "(bytes \<times> nat) list \<Rightarrow> bool" where
  "index_fit ix \<longleftrightarrow> list_all (\<lambda>(k, off). fields_fit [(2, length k), (8, off)]) ix"

lemma index_bytes_simps [simp]:
  "index_bytes [] = []"
  "index_bytes ((k, off) # ix) = be_fields [(2, length k), (8, off)] @ k @ index_bytes ix"
  by (simp_all add: index_bytes_def)

lemma index_entries_ok: "index_fit ix \<Longrightarrow> index_entries ix = Inr (index_bytes ix)"
  by (induction ix rule: index_entries.induct) (simp_all add: index_fit_def pack_fields_eq)

lemma unpack_head:
  assumes "fields_fit fs" "ns = map fst fs" "n = sum_list ns"
  shows "unpack_exact ns (take n (be_fields fs @ rest)) = Inr (map snd fs)"
proof -
  have "take n (be_fields fs @ rest) = be_fields fs" using assms(2,3) by (simp add: length_be_fields)
  then show ?thesis
    using unpack_be_fields [OF assms(1), of "[]"] assms(2) by (simp add: unpack_exact_def length_be_fields)
qed

lemma read_index_ok: "index_fit ix \<Longrightarrow> read_index (length ix) (index_bytes ix @ rest) = Inr ix"
proof (induction ix)
  case (Cons x ix)
  obtain k off where x: "x = (k, off)" by fastforce
  let ?h = "be_fields [(2, length k), (8, off)]"
  have fit: "fields_fit [(2, length k), (8, off)]" using Cons.prems by (simp add: index_fit_def x)
  have l: "length ?h = 10" by (simp add: length_be_fields)
  have "unpack_exact [2, 8] (take 10 (?h @ k @ index_bytes ix @ rest)) = Inr [length k, off]"
    using unpack_head [OF fit, of "[2, 8]" 10 "k @ index_bytes ix @ rest"] by (simp del: take_append)
  moreover have "drop 10 (?h @ k @ index_bytes ix @ rest) = k @ index_bytes ix @ rest" using l by simp
  ultimately show ?case
    using Cons by (simp add: x index_fit_def)
qed simp

text \<open>The tail of the file, for the offsets and blocks given.\<close>

definition footer_fields :: "nat \<Rightarrow> bytes \<Rightarrow> bytes \<Rightarrow> nat \<Rightarrow> bytes \<Rightarrow> (nat \<times> nat) list" where
  "footer_fields io ib bb n mn =
     [(8, io), (8, length ib), (8, io + length ib), (8, length bb), (4, n), (2, length mn)]"

definition tail_bytes :: "nat \<Rightarrow> bytes \<Rightarrow> bytes \<Rightarrow> nat \<Rightarrow> bytes \<Rightarrow> bytes \<Rightarrow> bytes" where
  "tail_bytes io ib bb n mn mx =
     ib @ bb @ (be_fields (footer_fields io ib bb n mn) @ mn @ be_fields [(2, length mx)] @ mx) @
     be_fields [(8, io + length ib + length bb)] @ SST_TRAILER_MAGIC"

definition index_block_bytes :: "(bytes \<times> nat) list \<Rightarrow> bytes" where
  "index_block_bytes ix = be_fields [(4, length ix)] @ index_bytes ix"

lemma sst_tail_ok:
  assumes "index_fit (sw_index w)" "length (sw_index w) < 2 ^ 32" "bloom_to_bytes (sw_bloom w) = Inr bb"
    "sw_min w = Some mn" "sw_max w = Some mx"
    "fields_fit (footer_fields (length (sw_file w)) (index_block_bytes (sw_index w)) bb (sw_count w) mn)"
    "length mx < 65536" "length (sw_file w) + length (index_block_bytes (sw_index w)) + length bb < 2 ^ 64"
  shows "sst_tail w = Inr (tail_bytes (length (sw_file w)) (index_block_bytes (sw_index w)) bb (sw_count w) mn mx)"
proof -
  have "index_block (sw_index w) = Inr (index_block_bytes (sw_index w))"
    using assms(1,2)
    by (simp add: index_block_def pack_fields_eq fields_fit_def index_entries_ok index_block_bytes_def)
  moreover have "fields_fit [(2, length mx)]"
    "fields_fit [(8, length (sw_file w) + length (index_block_bytes (sw_index w)) + length bb)]"
    using assms(7,8) by (simp_all add: fields_fit_def)
  ultimately show ?thesis
    using assms(3-6)
    by (simp add: sst_tail_def footer_block_def pack_fields_eq none_to_empty_def Let_def tail_bytes_def
        footer_fields_def)
qed

lemma seek_append: "length xs = n \<Longrightarrow> n < 2 ^ 63 \<Longrightarrow> seek n (xs @ ys) = Inr ys"
  by (simp add: seek_def)

lemma open_image:
  fixes pre ib bb mn mx :: bytes and n :: nat
  defines "io \<equiv> length pre"
  defines "img \<equiv> pre @ tail_bytes io ib bb n mn mx"
  assumes ib: "ib = index_block_bytes ix" "index_fit ix" "length ix < 2 ^ 32"
    and bb: "bloom_from_bytes H bb = Inr b"
    and fit: "fields_fit (footer_fields io ib bb n mn)" "length mx < 65536"
    and size: "io + length ib + length bb < 2 ^ 63"
  shows "sst_open H path img = Inr \<lparr>sr_path = path, sr_file = img, sr_index_keys = map fst ix,
           sr_index_offsets = map snd ix, sr_bloom = b, sr_entry_count = n,
           sr_min_key = mn, sr_max_key = mx, sr_index_offset = io\<rparr>"
proof -
  define ff where "ff = be_fields (footer_fields io ib bb n mn)"
  define fo where "fo = io + length ib + length bb"
  define m where "m = be_fields [(2, length mx)]"
  define t where "t = be_fields [(8, fo)] @ SST_TRAILER_MAGIC"
  define f where "f = ff @ mn @ m @ mx @ t"
  have i1: "img = pre @ ib @ bb @ f"
    by (simp add: img_def tail_bytes_def f_def ff_def m_def t_def fo_def)
  then have i2: "img = (pre @ ib @ bb @ ff @ mn @ m @ mx) @ t"
    "img = (pre @ ib @ bb) @ f" "img = (pre @ ib) @ bb @ f" by (simp_all add: f_def)
  have lt: "length t = 16" by (simp add: t_def length_be_fields SST_TRAILER_MAGIC_def)
  then have tr: "\<not> length img < 16" "drop (length img - 16) img = t"
    unfolding i2(1) by simp_all
  have t8: "take 8 t = be_fields [(8, fo)]" "drop 8 t = SST_TRAILER_MAGIC"
    by (simp_all add: t_def length_be_fields)
  have v: "be_val (be_fields [(8, fo)]) = fo"
    using size by (simp add: be_fields_def be_val_be_bytes fo_def del: be_bytes.simps)
  have s1: "seek fo img = Inr f"
    unfolding i2(2) using size by (intro seek_append) (simp_all add: io_def fo_def)
  have u1: "unpack_exact [8, 8, 8, 8, 4, 2] (take 38 f)
      = Inr [io, length ib, io + length ib, length bb, n, length mn]"
    unfolding f_def ff_def
    using unpack_head [OF fit(1), of "[8, 8, 8, 8, 4, 2]" 38 "mn @ m @ mx @ t"]
    by (simp add: footer_fields_def)
  have d1: "drop 38 f = mn @ m @ mx @ t"
    by (simp add: f_def ff_def length_be_fields footer_fields_def)
  have u2: "unpack_exact [2] (take 2 (m @ mx @ t)) = Inr [length mx]"
    using unpack_head [of "[(2, length mx)]" "[2]" 2 "mx @ t"] fit(2) by (simp add: fields_fit_def m_def)
  have d2: "drop 2 (m @ mx @ t) = mx @ t" by (simp add: m_def length_be_fields)
  have s2: "seek io img = Inr (ib @ bb @ f)"
    unfolding i1 using size by (intro seek_append) (simp_all add: io_def)
  have u3: "unpack_exact [4] (take 4 (ib @ bb @ f)) = Inr [length ix]"
    using unpack_head [of "[(4, length ix)]" "[4]" 4 "index_bytes ix @ bb @ f"] ib
    by (simp add: fields_fit_def index_block_bytes_def)
  have r: "read_index (length ix) (drop 4 (ib @ bb @ f)) = Inr ix"
    using read_index_ok [OF ib(2)] by (simp add: ib(1) index_block_bytes_def length_be_fields)
  have s3: "seek (io + length ib) img = Inr (bb @ f)"
    unfolding i2(3) using size by (intro seek_append) (simp_all add: io_def)
  have nths: "[length mx] ! 0 = length mx" "[length ix] ! 0 = length ix"
    "[io, length ib, io + length ib, length bb, n, length mn] ! 0 = io"
    "[io, length ib, io + length ib, length bb, n, length mn] ! 2 = io + length ib"
    "[io, length ib, io + length ib, length bb, n, length mn] ! 3 = length bb"
    "[io, length ib, io + length ib, length bb, n, length mn] ! 4 = n"
    "[io, length ib, io + length ib, length bb, n, length mn] ! 5 = length mn" by simp_all
  have cut: "take (length mn) (mn @ m @ mx @ t) = mn" "drop (length mn) (mn @ m @ mx @ t) = m @ mx @ t"
    "take (length mx) (mx @ t) = mx" "take (length bb) (bb @ f) = bb" by simp_all
  show ?thesis
    unfolding sst_open_def Let_def tr(2) t8 v s1 rbind_simps u1 d1 nths cut u2 d2 s2 u3 r s3 bb
    using tr(1) by simp
qed

section \<open>Writing and opening a table\<close>

lemma index_of_facts:
  "list_all entry_ok es \<Longrightarrow> off + length (data_bytes es) < 2 ^ 62 \<Longrightarrow>
   index_fit (index_of iv i off es) \<and> length (index_of iv i off es) \<le> length es \<and>
   length (index_bytes (index_of iv i off es)) \<le> 2 * length (data_bytes es)"
proof (induction es arbitrary: i off)
  case (Cons e es)
  have "off < 256 ^ 8" "fields_fit [(2, length (fst e)), (8, off)]"
    using Cons.prems by (auto simp: fields_fit_def entry_ok_def)
  with Cons.IH [of "off + length (entry_bytes e)" "i + 1"] Cons.prems show ?case
    by (auto simp: index_fit_def length_be_fields length_entry_bytes)
qed (simp add: index_fit_def)

lemma rate_narrow: "\<exists>r. f64_to_f32 RATE_001 = Inr r"
  by (simp add: f64_to_f32_def RATE_001_def f64_exp_def f64_mant_def f64_sign_def rne_div_def Let_def)

text \<open>The filter's block can always be written, and opened again as a filter with the same answers.\<close>

lemma filter_block:
  assumes "host_ok H" "bf.covers H b ks" "map_sum id bloom_shape (sst_filter H) = Inr (bloom_shape b)"
  obtains bb b' where "bloom_to_bytes b = Inr bb" "length bb < 2 ^ 30"
    "bloom_from_bytes H bb = Inr b'" "bf.covers H b' ks"
proof -
  have w: "bloom_wf b" using assms(2) by (simp add: bf.covers_def)
  have s: "bl_capacity b = 10000" "bl_rate b = RATE_001" "bl_m b < 2 ^ 31 + 8" "bl_k b \<le> 30"
    using assms(3) by (auto intro: sst_filter_ok [OF assms(1)] simp: bloom_shape_def)
  obtain r where r: "f64_to_f32 RATE_001 = Inr r" using rate_narrow by blast
  have "unat r < 2 ^ LENGTH(32)" by (rule unsigned_less)
  then have fit: "fields_fit [(4, bl_capacity b), (4, unat r), (4, bl_m b), (2, bl_k b)]"
    using s by (simp add: fields_fit_def)
  let ?bb = "BLOOM_MAGIC @ be_fields [(4, bl_capacity b), (4, unat r), (4, bl_m b), (2, bl_k b)] @ bl_bits b"
  have bb: "bloom_to_bytes b = Inr ?bb"
    using fit r s by (simp add: bloom_to_bytes_def pack_fields_eq)
  have l: "length ?bb < 2 ^ 30"
    using w s by (simp add: length_be_fields BLOOM_MAGIC_def bloom_wf_def)
  obtain b' where b': "bloom_from_bytes H ?bb = Inr b'" "bloom_wf b'"
    "bl_m b' = bl_m b" "bl_k b' = bl_k b" "bl_bits b' = bl_bits b"
    using bloom_from_to_bytes [OF w _ bb, of H] s(1) by auto
  then have "bf.covers H b' ks"
    using assms(2) bloom_contains_cong [of b' b H] by (simp add: bf.covers_def)
  with bb l b' show ?thesis by (intro that)
qed

text \<open>
  What the writer needs: a strictly sorted run whose sizes fit their fields.
\<close>

definition run_ok :: "(bytes \<times> bytes) list \<Rightarrow> bool" where
  "run_ok es \<longleftrightarrow> strict_keys es \<and> list_all entry_ok es \<and> length es < 2 ^ 32 \<and> length (data_bytes es) < 2 ^ 60"

lemma finish_ok:
  assumes w: "writer_of H path iv w es" and iv: "0 < iv" and es: "es \<noteq> []" "run_ok es"
    and H: "host_ok H" and d: "temp_path path \<in> fst ` set d"
  obtains w' img r where
    "sst_finish w d = (Inr w', AList.update path img (AList.delete (temp_path path) (AList.delete path d)))"
    "sst_open H path img = Inr r" "table_of H r es" "sr_path r = path" "sr_file r = img"
proof -
  have ok: "list_all entry_ok es" and len: "length es < 2 ^ 32" "length (data_bytes es) < 2 ^ 60"
    using es(2) by (auto simp: run_ok_def)
  let ?ix = "index_of iv 0 5 es" and ?pre = "SST_HEADER @ data_bytes es"
  have f: "sw_file w = ?pre" "sw_index w = ?ix" "sw_count w = length es"
    "sw_min w = Some (fst (hd es))" "sw_max w = Some (fst (last es))"
    "sw_path w = path" "\<not> sw_closed w" using w es(1) by (auto simp: writer_of_def)
  have lp: "length ?pre = 5 + length (data_bytes es)" by (simp add: SST_HEADER_def)
  have ix: "index_fit ?ix" "length ?ix < 2 ^ 32" "length (index_bytes ?ix) \<le> 2 * length (data_bytes es)"
    using index_of_facts [OF ok, of 5 iv 0] len by simp_all
  have lib: "length (index_block_bytes ?ix) \<le> 4 + 2 * length (data_bytes es)"
    using ix(3) by (simp add: index_block_bytes_def length_be_fields)
  obtain bb b' where b: "bloom_to_bytes (sw_bloom w) = Inr bb" "length bb < 2 ^ 30"
    "bloom_from_bytes H bb = Inr b'" "bf.covers H b' (fst ` set es)"
    using filter_block [OF H, of "sw_bloom w"] w unfolding writer_of_def by metis
  have "hd es \<in> set es" "last es \<in> set es" using es(1) by simp_all
  then have k: "length (fst (hd es)) < 65536" "length (fst (last es)) < 65536"
    using ok by (auto simp: list_all_iff entry_ok_def)
  have size: "length ?pre + length (index_block_bytes ?ix) + length bb < 2 ^ 63"
    using lib b(2) len(2) lp by simp
  have ff: "fields_fit (footer_fields (length ?pre) (index_block_bytes ?ix) bb (length es) (fst (hd es)))"
    using size k(1) len(1) by (simp add: footer_fields_def fields_fit_def)
  let ?tail = "tail_bytes (length ?pre) (index_block_bytes ?ix) bb (length es) (fst (hd es)) (fst (last es))"
  let ?img = "?pre @ ?tail"
  have tail: "sst_tail w = Inr ?tail"
    using sst_tail_ok [of w bb "fst (hd es)" "fst (last es)", unfolded f, OF ix(1,2) b(1) refl refl ff k(2)]
      size by simp
  have "temp_path path \<noteq> path" by (simp add: temp_path_def)
  then have "temp_path path \<in> fst ` set (AList.delete path d)" using d by (force simp: AList.delete_eq)
  then have fin: "sst_finish w d = (Inr (w\<lparr>sw_file := ?img, sw_closed := True\<rparr>),
      AList.update path ?img (AList.delete (temp_path path) (AList.delete path d)))"
    using f es(1) tail by (simp add: sst_finish_def Let_def)
  let ?r = "\<lparr>sr_path = path, sr_file = ?img, sr_index_keys = map fst ?ix, sr_index_offsets = map snd ?ix,
      sr_bloom = b', sr_entry_count = length es, sr_min_key = fst (hd es), sr_max_key = fst (last es),
      sr_index_offset = length ?pre\<rparr>"
  have op: "sst_open H path ?img = Inr ?r"
    by (rule open_image [OF refl ix(1,2) b(3) ff k(2) size])
  have "length ?img < 2 ^ 63"
    using size lib lp b(2) len(2) k
    by (simp add: tail_bytes_def length_be_fields footer_fields_def SST_TRAILER_MAGIC_def)
  then have "table_of H ?r es"
    using es b(4) iv lp unfolding table_of_def run_ok_def by auto
  then show ?thesis by (intro that [OF fin op]) simp_all
qed

definition fresh_dir :: "bytes \<Rightarrow> dir \<Rightarrow> dir" where
  "fresh_dir path d = AList.delete (temp_path path) (AList.update (temp_path path) [] d)"

text \<open>The effect on the directory, file by file: the table is there, its temporary file is not.\<close>

definition table_written :: "bytes \<Rightarrow> bytes option \<Rightarrow> dir \<Rightarrow> dir \<Rightarrow> bool" where
  "table_written path img d d' \<longleftrightarrow>
     (\<forall>f. map_of d' f = (if f = path then img else if f = temp_path path then None else map_of d f)) \<and>
     (distinct (map fst d) \<longrightarrow> distinct (map fst d'))"

lemma temp_path_neq [simp]: "temp_path p \<noteq> p" "p \<noteq> temp_path p"
  by (simp_all add: temp_path_def)

lemma distinct_delete: "distinct (map fst d) \<Longrightarrow> distinct (map fst (AList.delete k d))"
  by (simp add: AList.delete_eq distinct_map_filter)

lemma write_table_nonempty:
  assumes "es \<noteq> []" "run_ok es" "host_ok H"
  shows "\<exists>d' img r. write_table H path es d = (Inr (), d') \<and> table_written path (Some img) d d' \<and>
     sst_open H path img = Inr r \<and> table_of H r es \<and> sr_path r = path \<and> sr_file r = img"
proof -
  let ?d0 = "AList.update (temp_path path) [] d"
  obtain w0 where n: "sst_writer_new H path 16 d = (Inr w0, ?d0)" "writer_of H path 16 w0 []"
    using writer_new [OF assms(3)] by metis
  have ok: "list_all entry_ok es" using assms(2) by (simp add: run_ok_def)
  obtain w1 where w1: "for_each es (\<lambda>(k, v). sst_write_entry H k v) w0 = (Inr (), w1)"
      "writer_of H path 16 w1 es"
    using write_all_ok [OF n(2) _ ok] by auto
  have t: "temp_path path \<in> fst ` set ?d0" by (simp add: keys_update)
  obtain w2 img r where f: "sst_finish w1 ?d0 = (Inr w2,
        AList.update path img (AList.delete (temp_path path) (AList.delete path ?d0)))"
      "sst_open H path img = Inr r" "table_of H r es" "sr_path r = path" "sr_file r = img"
    using finish_ok [OF w1(2) _ assms(1,2,3) t] by auto
  have "write_table H path es d = (Inr (), AList.update path img (AList.delete (temp_path path) (AList.delete path ?d0)))"
    using n(1) w1(1) f(1) by (simp add: write_table_def)
  moreover have "table_written path (Some img) d
      (AList.update path img (AList.delete (temp_path path) (AList.delete path ?d0)))"
    by (auto simp: table_written_def update_conv AList.delete_conv distinct_update distinct_delete)
  ultimately show ?thesis using f(2-5) by blast
qed

lemma write_table_empty:
  assumes "host_ok H"
  shows "\<exists>d'. write_table H path [] d = (Inr (), d') \<and>
     (\<forall>f. map_of d' f = (if f = temp_path path then None else map_of d f)) \<and>
     (distinct (map fst d) \<longrightarrow> distinct (map fst d'))"
proof (rule writer_new [OF assms])
  fix w assume "sst_writer_new H path 16 d = (Inr w, AList.update (temp_path path) [] d)"
    "sw_count w = 0" "\<not> sw_closed w" "sw_path w = path"
  then show ?thesis
    by (auto simp: write_table_def sst_finish_def pym_simps update_conv AList.delete_conv
        distinct_update distinct_delete)
qed

text \<open>An oversize key makes the writer raise; the target of the table does not appear.\<close>

lemma for_each_prefix:
  "for_each (xs @ ys) f = sq (for_each xs f) (for_each ys f)"
  by (induction xs) (auto simp: sq_def bnd_def ret_def fun_eq_iff split: sum.splits prod.splits)

lemma write_table_oversize:
  assumes "host_ok H" "list_all entry_ok xs" "65535 < length k"
  shows "write_table H path (xs @ (k, v) # ys) d =
    (Inl (ValueError ''Key size exceeds maximum allowable 64KB limit''), AList.update (temp_path path) [] d)"
proof -
  obtain w0 where n: "sst_writer_new H path 16 d = (Inr w0, AList.update (temp_path path) [] d)"
      "writer_of H path 16 w0 []"
    using writer_new [OF assms(1)] by metis
  obtain w1 where "for_each xs (\<lambda>(k, v). sst_write_entry H k v) w0 = (Inr (), w1)"
    using write_all_ok [OF n(2) _ assms(2)] by auto
  then show ?thesis
    using n(1) assms(3)
    by (simp add: write_table_def for_each_prefix pym_simps sst_write_entry_def)
qed

section \<open>The contract of a table\<close>

text \<open>
  What the LSM tree uses of a table: lookup and range scan of a sorted run. \<open>layers\<close> is a
  sequence of runs, oldest first, in which a newer run hides an older one.
\<close>

definition layers :: "('k \<times> 'v) list list \<Rightarrow> 'k \<rightharpoonup> 'v" where
  "layers ess = foldl (\<lambda>m es. m ++ map_of es) Map.empty ess"

lemma layers_simps [simp]:
  "layers [] = Map.empty"
  "layers (ess @ [es]) = layers ess ++ map_of es"
  by (simp_all add: layers_def)

lemma layers_append: "layers (xs @ ys) = layers xs ++ layers ys"
  by (induction ys rule: rev_induct) (simp_all flip: append_assoc)

lemma layers_Cons: "layers (es # ess) = map_of es ++ layers ess"
  using layers_append [of "[es]" ess] by (simp add: layers_def)

locale sorted_table =
  fixes run_of :: "'t \<Rightarrow> ('k::linorder \<times> 'v) list \<Rightarrow> bool"
    and lookup :: "'k \<Rightarrow> 't \<Rightarrow> 'v option res"
    and scan :: "'k option \<Rightarrow> 'k option \<Rightarrow> 't \<Rightarrow> ('k \<times> 'v) list res"
    and within :: "'k option \<Rightarrow> 'k option \<Rightarrow> 'k \<Rightarrow> bool"
  assumes run_sorted: "run_of t es \<Longrightarrow> strict_keys es"
    and lookup_run: "run_of t es \<Longrightarrow> lookup k t = Inr (map_of es k)"
    and scan_run: "run_of t es \<Longrightarrow> scan s e t = Inr (filter (\<lambda>(k, v). within s e k) es)"
begin

text \<open>Searching the tables from the newest to the oldest is lookup in the layered map.\<close>

lemma search_layers:
  "list_all2 run_of ts ess \<Longrightarrow> search_first (lookup k) (rev ts) = Inr (layers ess k)"
proof (induction ts arbitrary: ess rule: rev_induct)
  case (snoc t ts)
  then obtain ess' es where e: "ess = ess' @ [es]" "list_all2 run_of ts ess'" "run_of t es"
    by (auto simp: list_all2_append1 list_all2_Cons1)
  with snoc.IH lookup_run [OF e(3), of k] show ?case
    by (auto simp: map_add_def split: option.split)
qed simp

text \<open>Collecting the scans of the tables from the oldest to the newest into one dictionary.\<close>

lemma collect_layers:
  assumes "list_all2 run_of ts ess"
  shows "\<exists>d'. rfold (\<lambda>t d. rbind (scan s e t) (\<lambda>es. Inr (dict_update es d))) ts d = Inr d' \<and>
     (\<forall>k. map_of d' k = (if within s e k then (map_of d ++ layers ess) k else map_of d k)) \<and>
     (distinct (map fst d) \<longrightarrow> distinct (map fst d'))"
  using assms
proof (induction ts arbitrary: ess d)
  case (Cons t ts)
  then obtain es ess' where e: "ess = es # ess'" "run_of t es" "list_all2 run_of ts ess'"
    by (auto simp: list_all2_Cons1)
  let ?d = "dict_update (filter (\<lambda>(k, v). within s e k) es) d"
  have d: "map_of ?d k = (if within s e k then (map_of d ++ map_of es) k else map_of d k)" for k
    using run_sorted [OF e(2)]
    by (simp add: map_of_dict_update strict_keys_filter strict_keys_distinct map_of_filter_key map_add_def)
  obtain d' where "rfold (\<lambda>t d. rbind (scan s e t) (\<lambda>es. Inr (dict_update es d))) ts ?d = Inr d'"
    "\<forall>k. map_of d' k = (if within s e k then (map_of ?d ++ layers ess') k else map_of ?d k)"
    "distinct (map fst ?d) \<longrightarrow> distinct (map fst d')"
    using Cons.IH [OF e(3), of ?d] by blast
  then show ?case
    using scan_run [OF e(2), of s e]
    by (auto simp: e(1) layers_Cons d map_add_def distinct_dict_update split: option.split)
qed simp

end

lemma table_of_sorted: "table_of H r es \<Longrightarrow> strict_keys es"
  by (simp add: table_of_def)

interpretation tbl: sorted_table "\<lambda>r es. table_of H r es \<and> sr_min_key r \<noteq> []" "sst_get H" sst_scan in_bounds
  for H
  by unfold_locales (auto simp: table_of_sorted table_get table_scan range_of_def)

section \<open>Properties\<close>

text \<open>
  C12. A table file round trip. Writing a strictly sorted, non-empty run with non-empty keys
  and opening the file that results gives a reader whose \<open>get\<close> is lookup in the run, for
  every key, and whose \<open>scan\<close> is exactly the entries between the bounds, in order, through
  the sparse index, the Bloom filter and the footer. The temporary file is gone.
\<close>

theorem sst_roundtrip:
  assumes "es \<noteq> []" "run_ok es" "host_ok H" "fst (hd es) \<noteq> []"
  shows "\<exists>d' img r. write_table H path es d = (Inr (), d') \<and>
     map_of d' path = Some img \<and> map_of d' (temp_path path) = None \<and>
     sst_open H path img = Inr r \<and>
     (\<forall>k. sst_get H k r = Inr (map_of es k)) \<and>
     (\<forall>s e. sst_scan s e r = Inr (filter (\<lambda>(k, v). in_bounds s e k) es))"
proof -
  obtain d' img r where w: "write_table H path es d = (Inr (), d')" "table_written path (Some img) d d'"
      "sst_open H path img = Inr r" "table_of H r es"
    using write_table_nonempty [OF assms(1-3)] by blast
  have "sr_min_key r \<noteq> []" using w(4) assms(4) by (simp add: table_of_def)
  with w(4) have "sst_get H k r = Inr (map_of es k)" "sst_scan s e r = Inr (filter (\<lambda>(k, v). in_bounds s e k) es)"
    for k s e using tbl.lookup_run tbl.scan_run by blast+
  with w show ?thesis by (auto simp: table_written_def)
qed

lemma sample_run_ok: "run_ok [(''a'', ''1''), (''b'', ''2'')]" "host_ok sample_host"
  by (simp_all add: run_ok_def entry_ok_def length_entry_bytes host_ok_def sample_host_def)

theorem sst_roundtrip_witness:
  "\<exists>d' img r. write_table sample_host ''t'' [(''a'', ''1''), (''b'', ''2'')] [] = (Inr (), d') \<and>
     sst_open sample_host ''t'' img = Inr r \<and> sst_get sample_host ''b'' r = Inr (Some ''2'') \<and>
     sst_get sample_host ''c'' r = Inr None \<and> sst_scan (Some ''b'') None r = Inr [(''b'', ''2'')]"
proof -
  obtain d' img r where "write_table sample_host ''t'' [(''a'', ''1''), (''b'', ''2'')] [] = (Inr (), d')"
    "sst_open sample_host ''t'' img = Inr r"
    "\<And>k. sst_get sample_host k r = Inr (map_of [(''a'', ''1''), (''b'', ''2'')] k)"
    "\<And>s e. sst_scan s e r = Inr (filter (\<lambda>(k, v). in_bounds s e k) [(''a'', ''1''), (''b'', ''2'')])"
    using sst_roundtrip [OF _ sample_run_ok, of "''t''" "[]"] by auto
  moreover have "filter (\<lambda>(k, v). in_bounds (Some ''b'') None k) [(''a'', ''1''), (''b'', ''2'')] = [(''b'', ''2'')]"
    by (simp add: in_bounds_def)
  ultimately show ?thesis
    by (intro exI [of _ d'] exI [of _ img] exI [of _ r]) simp
qed

text \<open>
  The empty key hides a table. If the smallest key of a table is the empty byte string,
  \<open>get\<close> answers None for every key of it, although \<open>scan\<close> still returns all its entries: the
  test \<open>if not self.min_key\<close> takes an empty key for an absent one.
\<close>

theorem sst_empty_key_hides:
  assumes "run_ok (([], v) # es)" "host_ok H"
  shows "\<exists>d' img r. write_table H path (([], v) # es) d = (Inr (), d') \<and>
     map_of d' path = Some img \<and> sst_open H path img = Inr r \<and>
     (\<forall>k. sst_get H k r = Inr None) \<and> sst_iter_all r = Inr (([], v) # es)"
proof -
  obtain d' img r where w: "write_table H path (([], v) # es) d = (Inr (), d')" "table_written path (Some img) d d'"
      "sst_open H path img = Inr r" "table_of H r (([], v) # es)"
    using write_table_nonempty [OF _ assms] by blast
  then show ?thesis
    using table_get [OF w(4)] table_iter_all [OF w(4)] by (auto simp: table_of_def table_written_def)
qed

theorem sst_empty_key_hides_witness:
  "\<exists>d' img r. write_table sample_host ''t'' [([], ''0''), (''a'', ''1'')] [] = (Inr (), d') \<and>
     sst_open sample_host ''t'' img = Inr r \<and> sst_get sample_host ''a'' r = Inr None"
proof -
  have "run_ok [([], ''0''), (''a'', ''1'')]"
    by (simp add: run_ok_def entry_ok_def length_entry_bytes)
  from sst_empty_key_hides [OF this sample_run_ok(2), of "''t''" "[]"] show ?thesis by blast
qed

text \<open>
  Binary search. On a sorted list \<open>bisect_right\<close> returns the number of elements that are
  at most the key, and they are the ones before that position.
\<close>

theorem bisect_right_partition:
  assumes "sorted xs"
  shows "take (bisect_right xs x) xs = filter (\<lambda>y. y \<le> x) xs"
proof -
  let ?b = "bisect_right xs x"
  have "\<forall>y \<in> set (take ?b xs). y \<le> x"
    using bisect_right_spec(2) [OF assms] by (auto simp: in_set_conv_nth)
  moreover have "\<not> y \<le> x" if "y \<in> set (drop ?b xs)" for y
  proof -
    from that obtain i where "i < length xs - ?b" "y = xs ! (?b + i)" by (auto simp: in_set_conv_nth)
    then have "x < y" using bisect_right_spec(3) [OF assms, of x "?b + i"] by simp
    then show ?thesis by simp
  qed
  ultimately have "filter (\<lambda>y. y \<le> x) (take ?b xs @ drop ?b xs) = take ?b xs"
    unfolding filter_append by (simp add: filter_id_conv filter_empty_conv)
  then show ?thesis by simp
qed

theorem bisect_right_partition_witness: "bisect_right [''a'', ''c'', ''c'', ''e''] ''c'' = 3"
proof -
  have "length (take (bisect_right [''a'', ''c'', ''c'', ''e''] ''c'') [''a'', ''c'', ''c'', ''e'']) = 3"
    by (subst bisect_right_partition) simp_all
  with bisect_right_spec(1) [of "[''a'', ''c'', ''c'', ''e'']" "''c''"] show ?thesis by simp
qed

text \<open>
  An oversize key aborts a table. When a key longer than 65535 bytes is reached, the
  writer raises and no table file appears: only the temporary file has been created.
\<close>

theorem sst_oversize_key_aborts:
  assumes "host_ok H" "list_all entry_ok xs" "65535 < length k"
  shows "\<exists>d'. write_table H path (xs @ (k, v) # ys) d =
       (Inl (ValueError ''Key size exceeds maximum allowable 64KB limit''), d') \<and>
     (\<forall>f. f \<noteq> temp_path path \<longrightarrow> map_of d' f = map_of d f)"
  using write_table_oversize [OF assms] by (auto simp: update_conv)

theorem sst_oversize_key_aborts_witness:
  "\<exists>d'. write_table sample_host ''t'' [(''a'', ''1''), (replicate 65536 (CHR ''x''), ''2'')] [] =
     (Inl (ValueError ''Key size exceeds maximum allowable 64KB limit''), d') \<and> map_of d' ''t'' = None"
proof -
  have "list_all entry_ok [(''a'', ''1'')]" "65535 < length (replicate 65536 (CHR ''x''))"
    by (simp_all add: entry_ok_def)
  from sst_oversize_key_aborts [OF sample_run_ok(2) this, of "''t''" "''2''" "[]" "[]"] show ?thesis
    by (auto simp: temp_path_def)
qed

end
