(* ===== verification/Merge.thy ===== *)
theory Merge
  imports SSTableLaws
begin

text \<open>
  The k-way merge of \<open>LSMTree.compact\<close> (\<open>zenith/storage/lsm.py\<close>). The heap holds, for each
  table that is not exhausted, its next entry and the rest of its iterator. \<open>heapq.heappop\<close>
  returns the least item in tuple order: smallest key first and, the second component being
  \<open>-i\<close>, the newest table first on equal keys.
\<close>

type_synonym item = "bytes \<times> nat \<times> bytes \<times> (bytes \<times> bytes) list"

definition item_less :: "item \<Rightarrow> item \<Rightarrow> bool" where
  "item_less x y \<longleftrightarrow> fst x < fst y \<or> (fst x = fst y \<and> fst (snd y) < fst (snd x))"

fun heap_min :: "item \<Rightarrow> item list \<Rightarrow> item" where
  "heap_min m [] = m"
| "heap_min m (x # xs) = heap_min (if item_less x m then x else m) xs"

definition heap_push :: "nat \<Rightarrow> (bytes \<times> bytes) list \<Rightarrow> item list \<Rightarrow> item list" where
  "heap_push i it heap = (case it of [] \<Rightarrow> heap | (k, v) # rest \<Rightarrow> (k, i, v, rest) # heap)"

definition heap_size :: "item list \<Rightarrow> nat" where
  "heap_size heap = sum_list (map (\<lambda>(k, i, v, rest). Suc (length rest)) heap)"

lemma heap_min_in: "heap_min m xs \<in> set (m # xs)"
  by (induction m xs rule: heap_min.induct) auto

lemma heap_size_pop:
  assumes "(k, i, v, rest) \<in> set heap"
  shows "heap_size (heap_push i rest (remove1 (k, i, v, rest) heap)) < heap_size heap"
proof -
  let ?f = "\<lambda>(k, i, v, rest). Suc (length rest)"
  have "heap_size heap = ?f (k, i, v, rest) + heap_size (remove1 (k, i, v, rest) heap)"
    unfolding heap_size_def using assms by (rule sum_list_map_remove1)
  then show ?thesis by (auto simp: heap_push_def heap_size_def split: list.split)
qed

lemma heap_size_step:
  assumes "(k, i, v, rest) = heap_min x xs"
  shows "heap_size (heap_push i rest (remove1 (heap_min x xs) (x # xs))) < heap_size (x # xs)"
  using heap_min_in [of x xs] unfolding assms [symmetric] by (rule heap_size_pop)

text \<open>
  The loop of \<open>compact\<close>: the entries it writes, in order. An older duplicate of the key just
  seen is skipped, a tombstone is not written (but hides the older versions).
\<close>

function merge_loop :: "bytes option \<Rightarrow> item list \<Rightarrow> (bytes \<times> bytes) list" where
  "merge_loop last_key [] = []"
| "merge_loop last_key (x # xs) =
     (case heap_min x xs of (key, i, val, it) \<Rightarrow>
        let heap = heap_push i it (remove1 (key, i, val, it) (x # xs)) in
        if last_key = Some key then merge_loop last_key heap
        else (if val \<noteq> TOMBSTONE then [(key, val)] else []) @ merge_loop (Some key) heap)"
  by pat_completeness auto
termination
  by (relation "measure (\<lambda>(_, heap). heap_size heap)")
    (auto intro: heap_size_step simp del: remove1.simps)

declare merge_loop.simps [simp del]

text \<open>The heap before the loop: the first entry of every table that has one.\<close>

fun heap_of :: "nat \<Rightarrow> (bytes \<times> bytes) list list \<Rightarrow> item list" where
  "heap_of i [] = []"
| "heap_of i (run # runs) = heap_push i run (heap_of (Suc i) runs)"

definition merge_runs :: "(bytes \<times> bytes) list list \<Rightarrow> (bytes \<times> bytes) list" where
  "merge_runs runs = merge_loop None (heap_of 0 runs)"


section \<open>Correctness of the merge\<close>

text \<open>The run a heap item stands for, and the runs of a heap by table number.\<close>

fun item_run :: "item \<Rightarrow> (bytes \<times> bytes) list" where
  "item_run (k, i, v, rest) = (k, v) # rest"

fun item_idx :: "item \<Rightarrow> nat" where
  "item_idx (k, i, v, rest) = i"

definition heap_repr :: "(nat \<Rightarrow> (bytes \<times> bytes) list) \<Rightarrow> nat \<Rightarrow> item list \<Rightarrow> bool" where
  "heap_repr f n heap \<longleftrightarrow>
     distinct (map item_idx heap) \<and>
     (\<forall>i < n. strict_keys (f i)) \<and>
     (\<forall>x \<in> set heap. item_idx x < n \<and> item_run x = f (item_idx x)) \<and>
     (\<forall>i < n. f i \<noteq> [] \<longrightarrow> i \<in> item_idx ` set heap)"

lemma heap_reprD:
  assumes "heap_repr f n heap"
  shows "distinct (map item_idx heap)" "i < n \<Longrightarrow> strict_keys (f i)"
    "x \<in> set heap \<Longrightarrow> item_idx x < n" "x \<in> set heap \<Longrightarrow> item_run x = f (item_idx x)"
    "i < n \<Longrightarrow> f i \<noteq> [] \<Longrightarrow> \<exists>x \<in> set heap. item_idx x = i"
  using assms unfolding heap_repr_def by (blast, blast, blast, blast, blast)

lemma item_less_trans: "item_less x y \<Longrightarrow> item_less y z \<Longrightarrow> item_less x z"
  by (auto simp: item_less_def)

lemma item_less_total: "item_idx x \<noteq> item_idx y \<Longrightarrow> item_less x y \<or> item_less y x"
  by (cases x; cases y) (auto simp: item_less_def)

lemma item_less_irrefl: "\<not> item_less x x"
  by (simp add: item_less_def)

lemma heap_min_least: "y \<in> set (m # xs) \<Longrightarrow> \<not> item_less y (heap_min m xs)"
proof (induction m xs arbitrary: y rule: heap_min.induct)
  case (1 m)
  then show ?case by (simp add: item_less_irrefl)
next
  case (2 m x xs)
  let ?m = "if item_less x m then x else m"
  have m: "\<not> item_less ?m (heap_min ?m xs)" using "2.IH" by simp
  show ?case
  proof (cases "y \<in> set (?m # xs)")
    case True
    with "2.IH" show ?thesis by simp
  next
    case False
    with "2.prems" consider "y = m" "item_less x m" | "y = x" "\<not> item_less x m"
      by (auto split: if_splits)
    then show ?thesis
    proof cases
      case 1
      with m show ?thesis using item_less_trans [of x m "heap_min x xs"] by simp blast
    next
      case 2
      have "item_less m x \<or> fst x = fst m \<and> fst (snd x) = fst (snd m)"
        using 2(2) by (auto simp: item_less_def)
      then show ?thesis
      proof
        assume "item_less m x"
        with 2 m show ?thesis using item_less_trans [of m x "heap_min m xs"] by simp blast
      next
        assume "fst x = fst m \<and> fst (snd x) = fst (snd m)"
        with 2 m show ?thesis by (simp add: item_less_def)
      qed
    qed
  qed
qed

text \<open>The merged view of the tables: a higher number is a newer table.\<close>

definition merged :: "(nat \<Rightarrow> (bytes \<times> bytes) list) \<Rightarrow> nat \<Rightarrow> bytes \<rightharpoonup> bytes" where
  "merged f n = layers (map f [0..<n])"

lemma merged_Suc: "merged f (Suc n) = merged f n ++ map_of (f n)"
  by (simp add: merged_def)

lemma merged_newest:
  "i < n \<Longrightarrow> map_of (f i) k = Some v \<Longrightarrow> \<forall>j. i < j \<and> j < n \<longrightarrow> map_of (f j) k = None \<Longrightarrow>
   merged f n k = Some v"
proof (induction n)
  case (Suc n)
  then show ?case by (cases "i = n") (auto simp: merged_Suc map_add_def)
qed simp

lemma merged_cong: "\<forall>i < n. map_of (f i) k = map_of (g i) k \<Longrightarrow> merged f n k = merged g n k"
proof (induction n)
  case 0
  then show ?case by (simp add: merged_def)
next
  case (Suc n)
  then show ?case by (simp add: merged_Suc map_add_def split: option.split)
qed

lemma merged_None: "merged f n k = None \<longleftrightarrow> (\<forall>i < n. map_of (f i) k = None)"
  by (induction n) (auto simp: merged_def less_Suc_eq)

lemma merged_Some: "merged f n k = Some v \<Longrightarrow> \<exists>i < n. map_of (f i) k = Some v"
proof (induction n)
  case (Suc n)
  then show ?case by (auto simp: merged_Suc map_add_def less_Suc_eq split: option.splits)
qed (simp add: merged_def)

text \<open>One pop: the least item, and the heap afterwards.\<close>

lemma heap_pop:
  assumes "heap_repr f n heap" "(k, i, v, it) \<in> set heap"
  shows "heap_repr (f(i := it)) n (heap_push i it (remove1 (k, i, v, it) heap))" "f i = (k, v) # it" "i < n"
proof -
  show i: "f i = (k, v) # it" "i < n" using assms by (fastforce simp: heap_repr_def)+
  let ?h = "remove1 (k, i, v, it) heap"
  have d: "distinct heap" using assms(1) by (simp add: heap_repr_def distinct_map)
  then have s: "set ?h = set heap - {(k, i, v, it)}" by simp
  have idx: "x \<in> set ?h \<Longrightarrow> item_idx x \<noteq> i" for x
    using assms unfolding s heap_repr_def by (auto simp: distinct_map inj_on_def)
  have dh: "distinct (map item_idx ?h)"
    using assms(1) d s by (auto simp: heap_repr_def distinct_map inj_on_def)
  have "strict_keys it" using heap_reprD(2) [OF assms(1) i(2)] i(1) by simp
  then have sk: "\<forall>j < n. strict_keys ((f(i := it)) j)" using heap_reprD(2) [OF assms(1)] by simp
  have ru: "\<forall>x \<in> set ?h. item_idx x < n \<and> item_run x = (f(i := it)) (item_idx x)"
    using heap_reprD(3,4) [OF assms(1)] idx s by simp
  have old: "j \<in> item_idx ` set ?h" if j: "j < n" "j \<noteq> i" "f j \<noteq> []" for j
  proof -
    obtain x where "x \<in> set heap" "item_idx x = j" using heap_reprD(5) [OF assms(1) j(1,3)] by blast
    with j(2) s show ?thesis by auto
  qed
  show "heap_repr (f(i := it)) n (heap_push i it ?h)"
  proof (cases it)
    case Nil
    with dh sk ru old show ?thesis unfolding heap_repr_def heap_push_def by simp
  next
    case (Cons e rest)
    obtain a b where e: "e = (a, b)" by fastforce
    have p: "heap_push i it ?h = (a, i, b, rest) # ?h" by (simp add: heap_push_def Cons e)
    have "\<forall>j < n. (f(i := it)) j \<noteq> [] \<longrightarrow> j \<in> insert i (item_idx ` set ?h)" using old by auto
    moreover have "i \<notin> item_idx ` set ?h" using idx by blast
    ultimately show ?thesis
      using dh sk ru i(2) unfolding heap_repr_def p by (simp add: Cons e)
  qed
qed

lemma least_head:
  assumes r: "heap_repr f n (x # xs)" and m: "heap_min x xs = (k, i, v, it)" and j: "j < n"
    and k': "map_of (f j) k' \<noteq> None"
  shows "k \<le> k'" "k' = k \<Longrightarrow> j \<le> i"
proof -
  have mi: "(k, i, v, it) \<in> set (x # xs)" using heap_min_in [of x xs] m by simp
  have "f j \<noteq> []" using k' by auto
  then obtain y where y: "y \<in> set (x # xs)" "item_idx y = j" using heap_reprD(5) [OF r j] by blast
  obtain a b rest where yy: "y = (a, j, b, rest)" using y(2) by (cases y) auto
  have fj: "f j = (a, b) # rest" using heap_reprD(4) [OF r y(1)] yy by simp
  have "\<not> item_less y (k, i, v, it)" using heap_min_least [OF y(1)] m by simp
  then have le: "k < a \<or> (a = k \<and> j \<le> i)" by (auto simp: item_less_def yy)
  have "strict_keys (f j)" using r j by (simp add: heap_repr_def)
  moreover have "k' \<in> fst ` set (f j)" using k' by (simp add: map_of_eq_None_iff)
  ultimately have "a \<le> k'" by (auto simp: fj intro: less_imp_le)
  with le show "k \<le> k'" "k' = k \<Longrightarrow> j \<le> i" by auto
qed

definition live :: "bytes \<Rightarrow> bytes option" where
  "live v = (if v = TOMBSTONE then None else Some v)"

definition after :: "bytes option \<Rightarrow> bytes \<Rightarrow> bool" where
  "after lk k \<longleftrightarrow> (case lk of None \<Rightarrow> True | Some l \<Rightarrow> l < k)"

text \<open>
  The loop writes, in strictly increasing order, every key after \<open>last_key\<close> whose newest
  version is not a tombstone, with that version.
\<close>

lemma merge_loop_spec:
  assumes "heap_repr f n heap" "\<forall>i < n. \<forall>k \<in> dom (map_of (f i)). lk = None \<or> the lk \<le> k"
  shows "strict_keys (merge_loop lk heap) \<and>
     (\<forall>k. map_of (merge_loop lk heap) k =
        (if after lk k then Option.bind (merged f n k) live else None))"
  using assms
proof (induction lk heap arbitrary: f rule: merge_loop.induct)
  case (1 lk)
  have "merged f n k = None" for k using 1 by (auto simp: merged_None heap_repr_def)
  then show ?case by (simp add: merge_loop.simps)
next
  case (2 lk x xs)
  obtain k i v it where m: "heap_min x xs = (k, i, v, it)" by (cases "heap_min x xs")
  let ?heap = "heap_push i it (remove1 (k, i, v, it) (x # xs))" and ?f = "f(i := it)"
  have mi: "(k, i, v, it) \<in> set (x # xs)" using heap_min_in [of x xs] m by simp
  note pop = heap_pop [OF "2.prems"(1) mi]
  note least = least_head [OF "2.prems"(1) m]
  have ks: "\<forall>k' \<in> fst ` set it. k < k'" using "2.prems"(1) pop(2,3) by (fastforce simp: heap_repr_def)
  have other: "merged ?f n k' = merged f n k'" if "k' \<noteq> k" for k'
    using that pop(2) by (intro merged_cong) auto
  have newest: "merged f n k = Some v"
    using least pop(2,3) by (intro merged_newest [of i]) (auto, metis linorder_not_less not_None_eq)
  have below: "merged f n k' = None" if "k' < k" for k'
    using least(1) that by (fastforce simp: merged_None)
  have up: "k \<le> k'" if "j < n" "k' \<in> dom (map_of (?f j))" for j k'
  proof (cases "j = i")
    case True
    then have "k' \<in> fst ` set it" using that(2) by (auto simp: dom_map_of_conv_image_fst)
    with ks show ?thesis by (auto intro: less_imp_le)
  next
    case False
    with that least(1) show ?thesis by auto
  qed
  show ?case
  proof (cases "lk = Some k")
    case True
    have "strict_keys (merge_loop lk ?heap) \<and> (\<forall>k'. map_of (merge_loop lk ?heap) k' =
        (if after lk k' then Option.bind (merged ?f n k') live else None))"
      by (rule "2.IH"(1) [OF m [symmetric] refl refl refl True pop(1)]) (use up True in auto)
    moreover have "merge_loop lk (x # xs) = merge_loop lk ?heap"
      by (subst merge_loop.simps) (simp add: m True Let_def del: remove1.simps)
    ultimately show ?thesis using other True by (auto simp: after_def)
  next
    case False
    have ih: "strict_keys (merge_loop (Some k) ?heap) \<and> (\<forall>k'. map_of (merge_loop (Some k) ?heap) k' =
        (if after (Some k) k' then Option.bind (merged ?f n k') live else None))"
      by (rule "2.IH"(2) [OF m [symmetric] refl refl refl False pop(1)]) (use up in auto)
    then have gt: "\<forall>k' \<in> fst ` set (merge_loop (Some k) ?heap). k < k'"
      by (metis after_def map_of_eq_None_iff option.case(2))
    have e: "merge_loop lk (x # xs) = (if v \<noteq> TOMBSTONE then [(k, v)] else []) @ merge_loop (Some k) ?heap"
      by (subst merge_loop.simps) (simp add: m False Let_def del: remove1.simps)
    have ka: "after lk k"
    proof (cases lk)
      case (Some l)
      have "k \<in> dom (map_of (f i))" using pop(2) by simp
      then have "l \<le> k" using "2.prems"(2) pop(3) Some by fastforce
      then show ?thesis using False Some by (auto simp: after_def)
    qed (simp add: after_def)
    have kk: "after lk k'" if "k < k'" for k'
      using ka that by (auto simp: after_def split: option.splits)
    have "map_of (merge_loop lk (x # xs)) k' =
        (if after lk k' then Option.bind (merged f n k') live else None)" for k'
    proof (cases k' k rule: linorder_cases)
      case less
      then show ?thesis using ih below [OF less] by (auto simp: e after_def)
    next
      case equal
      then show ?thesis using ih newest ka by (auto simp: e after_def live_def)
    next
      case greater
      then show ?thesis using ih other [of k'] kk [OF greater] by (auto simp: e after_def)
    qed
    moreover have "strict_keys (merge_loop lk (x # xs))" using ih gt by (auto simp: e)
    ultimately show ?thesis by blast
  qed
qed


lemma heap_of_idx: "x \<in> set (heap_of i runs) \<Longrightarrow> i \<le> item_idx x"
proof (induction runs arbitrary: i)
  case (Cons run runs)
  then show ?case by (cases run) (auto simp: heap_push_def dest: Suc_leD)
qed simp

lemma heap_of_item:
  "x \<in> set (heap_of i runs) \<Longrightarrow> \<exists>j < length runs. item_idx x = i + j \<and> item_run x = runs ! j"
proof (induction runs arbitrary: i)
  case (Cons run runs)
  show ?case
  proof (cases "x \<in> set (heap_of (Suc i) runs)")
    case True
    then obtain j where "j < length runs" "item_idx x = Suc i + j" "item_run x = runs ! j"
      using Cons.IH by blast
    then show ?thesis by (intro exI [of _ "Suc j"]) simp
  next
    case False
    with Cons.prems show ?thesis by (cases run) (auto simp: heap_push_def)
  qed
qed simp

lemma heap_of_covers:
  "j < length runs \<Longrightarrow> runs ! j \<noteq> [] \<Longrightarrow> i + j \<in> item_idx ` set (heap_of i runs)"
proof (induction runs arbitrary: i j)
  case (Cons run runs)
  show ?case
  proof (cases j)
    case 0
    with Cons.prems obtain k v rest where "run = (k, v) # rest" by (cases run) auto
    with 0 show ?thesis by (auto simp: heap_push_def intro!: image_eqI [of _ _ "(k, i, v, rest)"])
  next
    case (Suc j')
    with Cons.prems Cons.IH [of j' "Suc i"] have "Suc i + j' \<in> item_idx ` set (heap_of (Suc i) runs)"
      by simp
    then show ?thesis by (cases run) (auto simp: heap_push_def Suc)
  qed
qed simp

lemma heap_of_distinct: "distinct (map item_idx (heap_of i runs))"
proof (induction runs arbitrary: i)
  case (Cons run runs)
  have "i \<notin> item_idx ` set (heap_of (Suc i) runs)" using heap_of_idx by fastforce
  with Cons show ?case by (cases run) (auto simp: heap_push_def)
qed simp

lemma heap_of_repr:
  "list_all strict_keys runs \<Longrightarrow> heap_repr (\<lambda>i. runs ! i) (length runs) (heap_of 0 runs)"
  using heap_of_item [of _ 0 runs] heap_of_covers [of _ runs 0] heap_of_distinct [of 0 runs]
  unfolding heap_repr_def by (fastforce simp: list_all_length)

lemma merge_runs_spec:
  assumes "list_all strict_keys runs"
  shows "strict_keys (merge_runs runs)" "map_of (merge_runs runs) k = Option.bind (layers runs k) live"
proof -
  have l: "merged (\<lambda>i. runs ! i) (length runs) = layers runs" by (simp add: merged_def map_nth)
  show "strict_keys (merge_runs runs)" "map_of (merge_runs runs) k = Option.bind (layers runs k) live"
    using merge_loop_spec [OF heap_of_repr [OF assms], of None]
    by (simp_all add: merge_runs_def after_def l)
qed

lemma layers_in: "layers runs k = Some v \<Longrightarrow> \<exists>run \<in> set runs. (k, v) \<in> set run"
proof (induction runs rule: rev_induct)
  case (snoc run runs)
  then show ?case by (auto simp: map_add_def dest: map_of_SomeD split: option.splits)
qed simp

lemma merge_runs_in:
  assumes "list_all strict_keys runs" "(k, v) \<in> set (merge_runs runs)"
  shows "\<exists>run \<in> set runs. (k, v) \<in> set run"
proof -
  have "map_of (merge_runs runs) k = Some v"
    using assms(2) strict_keys_distinct [OF merge_runs_spec(1) [OF assms(1)]] by simp
  then have "layers runs k = Some v"
    by (auto simp: merge_runs_spec(2) [OF assms(1)] Option.bind_eq_Some_conv live_def split: if_splits)
  then show ?thesis by (rule layers_in)
qed

text \<open>
  C11. Compaction merges correctly. For any number of sorted tables, oldest first, the merge
  loop of \<open>compact\<close> writes its entries in strictly increasing key order, and a key is written
  with a value exactly when the newest table that has the key has that value and it is not
  the tombstone.
\<close>

theorem merge_runs_correct:
  assumes "list_all strict_keys runs"
  shows "strict_keys (merge_runs runs) \<and>
    (\<forall>k v. map_of (merge_runs runs) k = Some v \<longleftrightarrow>
       v \<noteq> TOMBSTONE \<and> (\<exists>i < length runs. map_of (runs ! i) k = Some v \<and>
          (\<forall>j. i < j \<and> j < length runs \<longrightarrow> map_of (runs ! j) k = None)))"
proof -
  let ?n = "length runs"
  have l: "layers runs = merged (\<lambda>i. runs ! i) ?n" by (simp add: merged_def map_nth)
  have "merged (\<lambda>i. runs ! i) n k = Some v \<longleftrightarrow>
      (\<exists>i < n. map_of (runs ! i) k = Some v \<and> (\<forall>j. i < j \<and> j < n \<longrightarrow> map_of (runs ! j) k = None))" for n k v
  proof (induction n)
    case (Suc n)
    then show ?case
      by (cases "map_of (runs ! n) k") (auto simp: merged_Suc map_add_def less_Suc_eq)
  qed (simp add: merged_def)
  then show ?thesis
    using merge_runs_spec [OF assms] by (auto simp: l Option.bind_eq_Some_conv live_def split: if_splits)
qed

theorem merge_runs_correct_witness:
  "strict_keys (merge_runs [[(''a'', ''1''), (''b'', ''2'')], [(''b'', TOMBSTONE), (''c'', ''3'')]]) \<and>
   map_of (merge_runs [[(''a'', ''1''), (''b'', ''2'')], [(''b'', TOMBSTONE), (''c'', ''3'')]]) ''b'' = None"
proof -
  let ?runs = "[[(''a'', ''1''), (''b'', ''2'')], [(''b'', TOMBSTONE), (''c'', ''3'')]]"
  have "list_all strict_keys ?runs" by simp
  note c = merge_runs_correct [OF this]
  have "map_of (merge_runs ?runs) ''b'' \<noteq> Some v" for v
    using c by (auto simp: less_Suc_eq)
  with c show ?thesis by (metis option.exhaust)
qed

end
