(* ===== verification/PyStr.thy ===== *)
theory PyStr
  imports Prelude
begin

text \<open>
  Python's text conversions as the engines use them: \<open>str(int)\<close> and \<open>int(str)\<close>, the
  format \<open>{seq:08d}\<close> of the file names, and the strict and the replacing UTF-8 decoder.
  A \<open>str\<close> is represented by its UTF-8 bytes, so decoding is a check of well-formedness.
  Restricted here: \<open>int()\<close> accepts ASCII digits and ASCII white space (CPython also takes
  other Unicode digits and spaces), and its 4300-digit limit is not modelled.
\<close>

section \<open>Decimal numbers\<close>

definition digit_char :: "nat \<Rightarrow> char" where
  "digit_char d = char_of (48 + d)"

definition is_digit :: "char \<Rightarrow> bool" where
  "is_digit c \<longleftrightarrow> 48 \<le> (of_char c :: nat) \<and> (of_char c :: nat) \<le> 57"

definition digit_val :: "char \<Rightarrow> nat" where
  "digit_val c = of_char c - 48"

lemma digit_char [simp]:
  "d < 10 \<Longrightarrow> is_digit (digit_char d)"
  "d < 10 \<Longrightarrow> digit_val (digit_char d) = d"
  by (simp_all add: is_digit_def digit_char_def digit_val_def)

fun str_nat :: "nat \<Rightarrow> bytes" where
  "str_nat n = (if n < 10 then [digit_char n] else str_nat (n div 10) @ [digit_char (n mod 10)])"

declare str_nat.simps [simp del]

definition str_int :: "int \<Rightarrow> bytes" where
  "str_int i = (if i < 0 then CHR ''-'' # str_nat (nat (- i)) else str_nat (nat i))"

text \<open>The digits of a literal: single underscores may stand between digits.\<close>

fun read_digits :: "bytes \<Rightarrow> nat \<Rightarrow> bool \<Rightarrow> nat option" where
  "read_digits [] acc after_digit = (if after_digit then Some acc else None)"
| "read_digits (c # cs) acc after_digit =
     (if is_digit c then read_digits cs (10 * acc + digit_val c) True
      else if c = CHR ''_'' \<and> after_digit then read_digits cs acc False
      else None)"

definition is_space :: "char \<Rightarrow> bool" where
  "is_space c \<longleftrightarrow> (let n = (of_char c :: nat) in (9 \<le> n \<and> n \<le> 13) \<or> (28 \<le> n \<and> n \<le> 32))"

definition strip :: "bytes \<Rightarrow> bytes" where
  "strip s = rev (dropWhile is_space (rev (dropWhile is_space s)))"

definition py_int :: "bytes \<Rightarrow> int option" where
  "py_int s = (case strip s of
      [] \<Rightarrow> None
    | c # cs \<Rightarrow>
        if c = CHR ''-'' then map_option (\<lambda>n. - int n) (read_digits cs 0 False)
        else if c = CHR ''+'' then map_option int (read_digits cs 0 False)
        else map_option int (read_digits (c # cs) 0 False))"

lemma str_nat_digits: "\<forall>c \<in> set (str_nat n). is_digit c"
proof (induction n rule: str_nat.induct)
  case (1 n)
  then show ?case by (subst str_nat.simps) auto
qed

lemma str_nat_nonempty [simp]: "str_nat n \<noteq> []"
  by (subst str_nat.simps) simp

lemma read_digits_append:
  "\<forall>c \<in> set xs. is_digit c \<Longrightarrow> xs \<noteq> [] \<Longrightarrow>
   read_digits (xs @ ys) acc b = read_digits ys (foldl (\<lambda>a c. 10 * a + digit_val c) acc xs) True"
proof (induction xs arbitrary: acc b)
  case (Cons c cs)
  then show ?case by (cases "cs = []") auto
qed simp

lemma foldl_str_nat: "foldl (\<lambda>a c. 10 * a + digit_val c) 0 (str_nat n) = n"
proof (induction n rule: str_nat.induct)
  case (1 n)
  then show ?case by (subst str_nat.simps) auto
qed

lemma read_digits_str_nat: "read_digits (str_nat n) 0 False = Some n"
  using read_digits_append [OF str_nat_digits str_nat_nonempty, of n "[]" 0 False]
  by (simp add: foldl_str_nat)

lemma digit_not_space: "is_digit c \<Longrightarrow> \<not> is_space c"
  by (auto simp: is_digit_def is_space_def Let_def)

lemma digit_not_sign: "is_digit c \<Longrightarrow> c \<noteq> CHR ''-'' \<and> c \<noteq> CHR ''+'' \<and> c \<noteq> CHR '':'' \<and> c \<noteq> CHR 0x0D"
  by (auto simp: is_digit_def)

lemma strip_no_space: "\<forall>c \<in> set s. \<not> is_space c \<Longrightarrow> strip s = s"
proof -
  assume a: "\<forall>c \<in> set s. \<not> is_space c"
  have w: "(\<forall>c \<in> set t. \<not> is_space c) \<Longrightarrow> dropWhile is_space t = t" for t
    by (cases t) auto
  have "dropWhile is_space s = s" using a by (rule w)
  moreover have "dropWhile is_space (rev s) = rev s" using a by (intro w) simp
  ultimately show ?thesis by (simp add: strip_def)
qed

lemma str_int_chars: "c \<in> set (str_int i) \<Longrightarrow> is_digit c \<or> c = CHR ''-''"
  using str_nat_digits by (auto simp: str_int_def split: if_splits)

lemma str_int_nonempty [simp]: "str_int i \<noteq> []"
  by (simp add: str_int_def)

lemma strip_str_int: "strip (str_int i) = str_int i"
  by (rule strip_no_space)
    (auto dest!: str_int_chars digit_not_space simp: is_space_def)

text \<open>\<open>int(str(i)) == i\<close>.\<close>

lemma py_int_str_int [simp, codec]: "py_int (str_int i) = Some i"
proof -
  obtain c cs where c: "str_nat (nat i) = c # cs" by (cases "str_nat (nat i)") auto
  then have "is_digit c" using str_nat_digits [of "nat i"] by auto
  then have "c \<noteq> CHR ''-''" "c \<noteq> CHR ''+''" by (auto dest: digit_not_sign)
  moreover have "read_digits (c # cs) 0 False = Some (nat i)"
    using read_digits_str_nat [of "nat i"] c by simp
  ultimately show ?thesis
    unfolding py_int_def strip_str_int
    by (auto simp: str_int_def read_digits_str_nat c)
qed

lemma str_int_inject [simp]: "str_int i = str_int j \<longleftrightarrow> i = j"
  by (metis py_int_str_int option.inject)

lemma str_nat_inject [simp]: "str_nat m = str_nat n \<longleftrightarrow> m = n"
  by (metis foldl_str_nat)

subsection \<open>The zero-padded format {n:08d}\<close>

definition pad8 :: "nat \<Rightarrow> bytes" where
  "pad8 n = replicate (8 - length (str_nat n)) (CHR ''0'') @ str_nat n"

lemma length_str_nat: "n < 10 ^ k \<Longrightarrow> 0 < k \<Longrightarrow> length (str_nat n) \<le> k"
proof (induction k arbitrary: n)
  case (Suc k)
  show ?case
  proof (cases "n < 10")
    case True
    then show ?thesis by (subst str_nat.simps) simp
  next
    case False
    then have "0 < k" using Suc.prems by (cases k) auto
    moreover have "n div 10 < 10 ^ k" using Suc.prems by auto
    ultimately have "length (str_nat (n div 10)) \<le> k" using Suc.IH by blast
    with False show ?thesis by (subst str_nat.simps) simp
  qed
qed simp

lemma length_pad8: "n < 10 ^ 8 \<Longrightarrow> length (pad8 n) = 8"
  using length_str_nat [of n 8] by (simp add: pad8_def)

lemma pad8_digits: "\<forall>c \<in> set (pad8 n). is_digit c"
  using str_nat_digits [of n] by (auto simp: pad8_def is_digit_def)

lemma foldl_replicate_0: "foldl (\<lambda>a c. 10 * a + digit_val c) 0 (replicate k (CHR ''0'')) = 0"
  by (induction k) (auto simp: digit_val_def)

lemma foldl_pad8: "foldl (\<lambda>a c. 10 * a + digit_val c) 0 (pad8 n) = n"
  by (simp add: pad8_def foldl_replicate_0 foldl_str_nat)

lemma py_int_digits:
  assumes d: "\<forall>c \<in> set s. is_digit c" and s: "s \<noteq> []"
  shows "py_int s = Some (int (foldl (\<lambda>a c. 10 * a + digit_val c) 0 s))"
proof -
  have r: "read_digits s 0 False = Some (foldl (\<lambda>a c. 10 * a + digit_val c) 0 s)"
    using read_digits_append [OF d s, of "[]"] by simp
  have "strip s = s" using d by (auto intro: strip_no_space dest: digit_not_space)
  moreover obtain c cs where c: "s = c # cs" using s by (cases s) auto
  moreover have "c \<noteq> CHR ''-''" "c \<noteq> CHR ''+''" using d c by (auto dest: digit_not_sign)
  ultimately show ?thesis using r by (simp add: py_int_def)
qed

lemma py_int_pad8: "py_int (pad8 n) = Some (int n)"
  using py_int_digits [OF pad8_digits, of n] by (simp add: foldl_pad8) (simp add: pad8_def)

text \<open>For numbers of at most eight digits the order of the names is the numeric order.\<close>

lemma digits_order:
  assumes "length xs = length ys" "\<forall>c \<in> set xs. is_digit c" "\<forall>c \<in> set ys. is_digit c"
  shows "foldl (\<lambda>a c. 10 * a + digit_val c) a xs < foldl (\<lambda>a c. 10 * a + digit_val c) b ys \<longleftrightarrow>
         a < b \<or> a = b \<and> xs < ys"
  using assms
proof (induction xs ys arbitrary: a b rule: list_induct2)
  case (Cons x xs y ys)
  let ?f = "\<lambda>a c. 10 * a + digit_val c"
  have v: "digit_val x < 10" "digit_val y < 10"
    using Cons.prems by (auto simp: is_digit_def digit_val_def)
  have lo: "48 \<le> (of_char x :: nat)" "48 \<le> (of_char y :: nat)"
    using Cons.prems by (auto simp: is_digit_def)
  then have "digit_val x = digit_val y \<longleftrightarrow> (of_char x :: nat) = of_char y"
    unfolding digit_val_def by linarith
  then have o: "digit_val x < digit_val y \<longleftrightarrow> x < y" "digit_val x = digit_val y \<longleftrightarrow> x = y"
    using lo unfolding digit_val_def less_char_def by auto
  have "foldl ?f a (x # xs) < foldl ?f b (y # ys) \<longleftrightarrow>
        ?f a x < ?f b y \<or> ?f a x = ?f b y \<and> xs < ys"
    using Cons by simp
  also have "\<dots> \<longleftrightarrow> a < b \<or> a = b \<and> (digit_val x < digit_val y \<or> digit_val x = digit_val y \<and> xs < ys)"
    using v by linarith
  finally show ?case by (simp add: o)
qed simp

lemma pad8_less: "m < 10 ^ 8 \<Longrightarrow> n < 10 ^ 8 \<Longrightarrow> pad8 m < pad8 n \<longleftrightarrow> m < n"
  using digits_order [of "pad8 m" "pad8 n" 0 0] by (simp add: length_pad8 pad8_digits foldl_pad8)

lemma pad8_inject [simp]: "pad8 m = pad8 n \<longleftrightarrow> m = n"
  by (metis foldl_pad8)

definition fmt08 :: "int \<Rightarrow> bytes" where
  "fmt08 i = (if i < 0
     then CHR ''-'' # replicate (7 - length (str_nat (nat (- i)))) (CHR ''0'') @ str_nat (nat (- i))
     else pad8 (nat i))"

lemma fmt08_nat [simp]: "fmt08 (int n) = pad8 n"
  by (simp add: fmt08_def)

text \<open>File names of the form prefix, eight digits, extension.\<close>

definition numbered :: "bytes \<Rightarrow> bytes \<Rightarrow> nat \<Rightarrow> bytes" where
  "numbered pre ext n = pre @ pad8 n @ ext"

lemma numbered_inject [simp]: "numbered pre ext m = numbered pre ext n \<longleftrightarrow> m = n"
  by (simp add: numbered_def)

lemma numbered_affixes [simp]:
  "startswith (numbered pre ext n) pre" "endswith (numbered pre ext n) ext"
  using endswith_append [of "pre @ pad8 n" ext] by (simp_all add: numbered_def)

lemma append_less_same_length:
  fixes xs ys :: bytes
  shows "length xs = length ys \<Longrightarrow> xs @ zs < ys @ zs \<longleftrightarrow> xs < ys"
  by (induction xs ys rule: list_induct2) auto

lemma numbered_less:
  "m < 10 ^ 8 \<Longrightarrow> n < 10 ^ 8 \<Longrightarrow> numbered pre ext m < numbered pre ext n \<longleftrightarrow> m < n"
  by (simp add: numbered_def append_less_same_length length_pad8 pad8_less)

lemma numbered_seq:
  "length pre = 4 \<Longrightarrow> n < 10 ^ 8 \<Longrightarrow> py_int (py_slice (numbered pre ext n) 4 12) = Some (int n)"
  by (simp add: numbered_def py_slice_def length_pad8 py_int_pad8)

section \<open>UTF-8\<close>

definition in_range :: "nat \<Rightarrow> nat \<Rightarrow> char \<Rightarrow> bool" where
  "in_range lo hi c \<longleftrightarrow> lo \<le> of_char c \<and> of_char c \<le> hi"

text \<open>
  The number of bytes of the well-formed character at the head of the input, 0 if there is
  none: the table of RFC 3629, which CPython's strict decoder follows (no overlong forms, no
  surrogates, nothing above U+10FFFF).
\<close>

definition cont :: "char \<Rightarrow> bool" where
  "cont = in_range 0x80 0xBF"

fun tail2 :: "bytes \<Rightarrow> bool" where
  "tail2 (b # _) = cont b"
| "tail2 _ = False"

fun tail3 :: "char \<Rightarrow> bytes \<Rightarrow> bool" where
  "tail3 a (b # c # _) =
     (cont b \<and> cont c \<and>
      (of_char a = (0xE0 :: nat) \<longrightarrow> in_range 0xA0 0xBF b) \<and>
      (of_char a = (0xED :: nat) \<longrightarrow> in_range 0x80 0x9F b))"
| "tail3 _ _ = False"

fun tail4 :: "char \<Rightarrow> bytes \<Rightarrow> bool" where
  "tail4 a (b # c # d # _) =
     (cont b \<and> cont c \<and> cont d \<and>
      (of_char a = (0xF0 :: nat) \<longrightarrow> in_range 0x90 0xBF b) \<and>
      (of_char a = (0xF4 :: nat) \<longrightarrow> in_range 0x80 0x8F b))"
| "tail4 _ _ = False"

fun utf8_head :: "bytes \<Rightarrow> nat" where
  "utf8_head [] = 0"
| "utf8_head (a # bs) =
    (if in_range 0x00 0x7F a then 1
     else if in_range 0xC2 0xDF a \<and> tail2 bs then 2
     else if in_range 0xE0 0xEF a \<and> tail3 a bs then 3
     else if in_range 0xF0 0xF4 a \<and> tail4 a bs then 4
     else 0)"

lemma tails_append:
  "tail2 bs \<Longrightarrow> tail2 (bs @ cs)"
  "tail3 a bs \<Longrightarrow> tail3 a (bs @ cs)"
  "tail4 a bs \<Longrightarrow> tail4 a (bs @ cs)"
  subgoal by (cases bs rule: tail2.cases) simp_all
  subgoal by (cases "(a, bs)" rule: tail3.cases) simp_all
  subgoal by (cases "(a, bs)" rule: tail4.cases) simp_all
  done

lemma tails_length:
  "tail2 bs \<Longrightarrow> 1 \<le> length bs"
  "tail3 a bs \<Longrightarrow> 2 \<le> length bs"
  "tail4 a bs \<Longrightarrow> 3 \<le> length bs"
  subgoal by (cases bs rule: tail2.cases) simp_all
  subgoal by (cases "(a, bs)" rule: tail3.cases) simp_all
  subgoal by (cases "(a, bs)" rule: tail4.cases) simp_all
  done

lemma ranges_disjoint:
  "in_range 0xC2 0xDF a \<Longrightarrow> \<not> in_range 0xE0 0xEF a \<and> \<not> in_range 0xF0 0xF4 a"
  "in_range 0xE0 0xEF a \<Longrightarrow> \<not> in_range 0xF0 0xF4 a"
  by (auto simp: in_range_def)

function utf8_valid :: "bytes \<Rightarrow> bool" where
  "utf8_valid bs =
     (if bs = [] then True
      else let n = utf8_head bs in if n = 0 then False else utf8_valid (drop n bs))"
  by pat_completeness auto
termination
  by (relation "measure length") auto

declare utf8_valid.simps [simp del]

definition py_decode :: "bytes \<Rightarrow> bytes res" where
  "py_decode bs = (if utf8_valid bs then Inr bs else Inl UnicodeDecodeError)"

text \<open>\<open>len\<close> of a \<open>str\<close> counts code points: the bytes that are not continuation bytes.\<close>

definition str_len :: "bytes \<Rightarrow> nat" where
  "str_len s = length (filter (\<lambda>c. \<not> cont c) s)"

lemma utf8_valid_Nil [simp]: "utf8_valid []"
  by (subst utf8_valid.simps) simp

lemma utf8_head_le: "utf8_head bs \<le> length bs"
  by (cases bs) (auto dest: tails_length)

lemma utf8_head_append: "utf8_head bs \<noteq> 0 \<Longrightarrow> utf8_head (bs @ cs) = utf8_head bs"
  by (cases bs) (auto dest: tails_append ranges_disjoint split: if_splits)

lemma utf8_valid_append: "utf8_valid p \<Longrightarrow> utf8_valid (p @ s) \<longleftrightarrow> utf8_valid s"
proof (induction p rule: utf8_valid.induct)
  case (1 p)
  show ?case
  proof (cases "p = []")
    case False
    then have h: "utf8_head p \<noteq> 0" "utf8_valid (drop (utf8_head p) p)"
      using "1.prems" by (auto simp: utf8_valid.simps [of p] Let_def split: if_splits)
    then have "utf8_valid (drop (utf8_head p) p @ s) \<longleftrightarrow> utf8_valid s"
      using "1.IH" False by simp
    moreover have "drop (utf8_head p) (p @ s) = drop (utf8_head p) p @ s"
      using utf8_head_le [of p] by simp
    ultimately show ?thesis
      using h False by (simp add: utf8_valid.simps [of "p @ s"] Let_def utf8_head_append)
  qed simp
qed

lemma utf8_ascii: "\<forall>c \<in> set s. of_char c < (128 :: nat) \<Longrightarrow> utf8_valid s"
proof (induction s)
  case (Cons c s)
  then have "utf8_head (c # s) = 1" by (auto simp: in_range_def)
  with Cons show ?case by (subst utf8_valid.simps) (auto simp: Let_def)
qed simp

lemma py_decode_Inr: "py_decode bs = Inr s \<longleftrightarrow> utf8_valid bs \<and> s = bs"
  by (auto simp: py_decode_def)

lemma utf8_str_int [simp]: "utf8_valid (str_int i)"
  by (rule utf8_ascii) (auto dest!: str_int_chars simp: is_digit_def)

end
