(* ===== verification/Wal.thy ===== *)
theory Wal
  imports PyStruct PyStr
begin

text \<open>
  \<open>zenith/storage/wal.py\<close>: the write-ahead log. \<open>w_dir\<close> is the log directory as the disk has
  it (file name to contents); \<open>w_pending\<close> is what \<open>write\<close> has put in the buffer of the
  current file object and \<open>flush\<close> has not yet handed over. \<open>time.time()\<close> reads the clock
  \<open>w_clock\<close>, an arbitrary stream of doubles, one reading per call.
\<close>

section \<open>Records\<close>

datatype wal_op = SET | DEL | EXPIRE | TXN_BEGIN | TXN_COMMIT | TXN_ROLLBACK | FLUSH

fun op_code :: "wal_op \<Rightarrow> nat" where
  "op_code SET = 1"
| "op_code DEL = 2"
| "op_code EXPIRE = 3"
| "op_code TXN_BEGIN = 4"
| "op_code TXN_COMMIT = 5"
| "op_code TXN_ROLLBACK = 6"
| "op_code FLUSH = 7"

definition op_of_code :: "nat \<Rightarrow> wal_op option" where
  "op_of_code n = map_of (map (\<lambda>x. (op_code x, x))
     [SET, DEL, EXPIRE, TXN_BEGIN, TXN_COMMIT, TXN_ROLLBACK, FLUSH]) n"

record wal_frame =
  fr_lsn :: nat
  fr_ts :: f64
  fr_op :: wal_op
  fr_key :: bytes
  fr_value :: bytes
  fr_crc :: nat

datatype sync_mode = Always | EverySec | NoSync

record wal =
  w_dir :: "(bytes \<times> bytes) list"
  w_max_file_size :: nat
  w_sync_mode :: sync_mode
  w_open :: bool
  w_path :: bytes
  w_pending :: bytes
  w_seq :: int
  w_next_lsn :: nat
  w_last_sync :: f64
  w_clock :: "nat \<Rightarrow> f64"
  w_ticks :: nat

definition wal_time :: "wal \<Rightarrow> f64 \<times> wal" where
  "wal_time w = (w_clock w (w_ticks w), w\<lparr>w_ticks := w_ticks w + 1\<rparr>)"

section \<open>Frames\<close>

definition WAL_MAGIC :: bytes where
  "WAL_MAGIC = ''ZWAL''"

definition WAL_VERSION :: nat where
  "WAL_VERSION = 1"

definition encode_frame :: "nat \<Rightarrow> f64 \<Rightarrow> wal_op \<Rightarrow> bytes \<Rightarrow> bytes \<Rightarrow> bytes res" where
  "encode_frame lsn ts op key value =
     rbind (pack_fields [(1, op_code op), (8, lsn)]) (\<lambda>c.
     rbind (pack_fields [(1, WAL_VERSION), (8, lsn), (8, unat ts), (1, op_code op),
                         (4, length key), (4, length value), (4, crc32 (c @ key @ value))]) (\<lambda>h.
     Inr (WAL_MAGIC @ h @ key @ value)))"

text \<open>
  One turn of the loop of \<open>read_frames\<close>: the frame at the head of the rest of the file and
  its size, or \<open>None\<close> where the loop breaks. \<open>frame_body\<close> is the part after the magic test,
  from the unpacked fields version, LSN, timestamp, operation, key length, value length, CRC.
\<close>

definition frame_body :: "nat list \<Rightarrow> bytes \<Rightarrow> (wal_frame \<times> nat) option" where
  "frame_body f rest =
     (let lsn = f ! 1; ts = f ! 2; op_val = f ! 3; klen = f ! 4; vlen = f ! 5; crc = f ! 6 in
      if f ! 0 \<noteq> WAL_VERSION then None
      else let payload = take (klen + vlen) rest in
      if length payload < klen + vlen then None
      else let key = take klen payload; value = py_slice payload klen (klen + vlen) in
      if crc32 (be_fields [(1, op_val), (8, lsn)] @ key @ value) \<noteq> crc then None
      else (case op_of_code op_val of
          None \<Rightarrow> None
        | Some op \<Rightarrow> Some (\<lparr>fr_lsn = lsn, fr_ts = of_nat ts, fr_op = op,
                            fr_key = key, fr_value = value, fr_crc = crc\<rparr>, 34 + klen + vlen)))"

definition parse_frame :: "bytes \<Rightarrow> (wal_frame \<times> nat) option" where
  "parse_frame bs =
     (let header = take 34 bs in
      if length header < 34 then None
      else if take 4 header \<noteq> WAL_MAGIC then None
      else frame_body (unpack_fields [1, 8, 8, 1, 4, 4, 4] (drop 4 header)) (drop 34 bs))"

lemma frame_body_size: "frame_body f rest = Some (fr, n) \<Longrightarrow> 34 \<le> n"
  by (auto simp: frame_body_def Let_def split: if_splits option.splits)

lemma parse_frame_size: "parse_frame bs = Some (f, n) \<Longrightarrow> 34 \<le> n \<and> 34 \<le> length bs"
  unfolding parse_frame_def Let_def
  by (simp only: split: if_splits) (auto dest: frame_body_size)

function read_frames :: "bytes \<Rightarrow> wal_frame list" where
  "read_frames bs = (case parse_frame bs of
      None \<Rightarrow> []
    | Some (f, n) \<Rightarrow> f # read_frames (drop n bs))"
  by pat_completeness auto
termination
  by (relation "measure length") (auto dest!: parse_frame_size)

declare read_frames.simps [simp del]

section \<open>Files and rotation\<close>

definition wal_name :: "int \<Rightarrow> bytes" where
  "wal_name seq = ''wal_'' @ fmt08 seq @ ''.log''"

definition is_log :: "bytes \<Rightarrow> bool" where
  "is_log f \<longleftrightarrow> startswith f ''wal_'' \<and> endswith f ''.log''"

definition log_files :: "(bytes \<times> bytes) list \<Rightarrow> bytes list" where
  "log_files d = sort (filter is_log (map fst d))"

definition file_content :: "(bytes \<times> bytes) list \<Rightarrow> bytes \<Rightarrow> bytes" where
  "file_content d f = (case map_of d f of Some c \<Rightarrow> c | None \<Rightarrow> [])"

text \<open>\<open>open(path, "a+b")\<close>: the file exists afterwards and keeps its contents.\<close>

definition open_append :: "bytes \<Rightarrow> wal \<Rightarrow> wal" where
  "open_append path w =
     w\<lparr>w_dir := AList.update path (file_content (w_dir w) path) (w_dir w),
       w_path := path, w_open := True, w_pending := []\<rparr>"

definition wal_init_or_rotate :: "wal \<Rightarrow> wal" where
  "wal_init_or_rotate w =
     (let existing = log_files (w_dir w);
          seq = (if existing \<noteq> []
                 then (case py_int (py_slice (last existing) 4 12) of Some s \<Rightarrow> s | None \<Rightarrow> 1)
                 else 1)
      in open_append (wal_name seq) (w\<lparr>w_seq := seq\<rparr>))"

definition wal_sync :: "wal \<Rightarrow> wal" where
  "wal_sync w =
     (if w_open w
      then w\<lparr>w_dir := AList.update (w_path w) (file_content (w_dir w) (w_path w) @ w_pending w) (w_dir w),
             w_pending := []\<rparr>
      else w)"

definition wal_rotate :: "wal \<Rightarrow> wal" where
  "wal_rotate w =
     (let w1 = wal_sync w; seq = w_seq w + 1
      in open_append (wal_name seq) (w1\<lparr>w_open := False, w_seq := seq\<rparr>))"

definition wal_close :: "wal \<Rightarrow> wal" where
  "wal_close w = (if w_open w then (wal_sync w)\<lparr>w_open := False\<rparr> else w)"

definition wal_tell :: "wal \<Rightarrow> nat" where
  "wal_tell w = length (file_content (w_dir w) (w_path w)) + length (w_pending w)"

definition wal_sync_policy :: "wal \<Rightarrow> wal" where
  "wal_sync_policy w = (case w_sync_mode w of
      Always \<Rightarrow> wal_sync w
    | EverySec \<Rightarrow>
        (let (now, w1) = wal_time w
         in if f64_diff_ge_1 now (w_last_sync w1)
            then (wal_sync w1)\<lparr>w_last_sync := now\<rparr> else w1)
    | NoSync \<Rightarrow> w)"

definition wal_append :: "wal_op \<Rightarrow> bytes \<Rightarrow> bytes \<Rightarrow> f64 option \<Rightarrow> (wal, nat) pym" where
  "wal_append op key value timestamp w0 =
     (let w1 = (if w_open w0 then w0 else wal_init_or_rotate w0);
          lsn = w_next_lsn w1;
          w2 = w1\<lparr>w_next_lsn := lsn + 1\<rparr>;
          (ts, w3) = (case timestamp of Some t \<Rightarrow> (t, w2) | None \<Rightarrow> wal_time w2)
      in case encode_frame lsn ts op key value of
          Inl e \<Rightarrow> (Inl e, w3)
        | Inr payload \<Rightarrow>
            let w4 = wal_sync_policy (w3\<lparr>w_pending := w_pending w3 @ payload\<rparr>);
                w5 = (if w_max_file_size w4 \<le> wal_tell w4 then wal_rotate w4 else w4)
            in (Inr lsn, w5))"

definition wal_new ::
  "(bytes \<times> bytes) list \<Rightarrow> nat \<Rightarrow> sync_mode \<Rightarrow> (nat \<Rightarrow> f64) \<Rightarrow> nat \<Rightarrow> wal" where
  "wal_new d max_file_size mode clock ticks =
     wal_init_or_rotate
       \<lparr>w_dir = d, w_max_file_size = max_file_size, w_sync_mode = mode, w_open = False,
        w_path = [], w_pending = [], w_seq = 0, w_next_lsn = 1,
        w_last_sync = clock ticks, w_clock = clock, w_ticks = ticks + 1\<rparr>"

definition wal_recover :: "wal \<Rightarrow> wal_frame list \<times> wal" where
  "wal_recover w =
     (let w1 = wal_sync w;
          frames = concat (map (\<lambda>f. read_frames (file_content (w_dir w1) f)) (log_files (w_dir w1)));
          max_lsn = foldl (\<lambda>m f. if m < fr_lsn f then fr_lsn f else m) 0 frames
      in (frames, w1\<lparr>w_next_lsn := max_lsn + 1\<rparr>))"

definition obsolete :: "int \<Rightarrow> int \<Rightarrow> bytes \<Rightarrow> bool" where
  "obsolete max_seq current f \<longleftrightarrow>
     is_log f \<and> (case py_int (py_slice f 4 12) of Some s \<Rightarrow> s < max_seq \<and> s \<noteq> current | None \<Rightarrow> False)"

definition wal_purge_before :: "int \<Rightarrow> wal \<Rightarrow> nat \<times> wal" where
  "wal_purge_before max_seq w =
     (length (filter (\<lambda>(f, _). obsolete max_seq (w_seq w) f) (w_dir w)),
      w\<lparr>w_dir := filter (\<lambda>(f, _). \<not> obsolete max_seq (w_seq w) f) (w_dir w)\<rparr>)"

text \<open>
  The directory a crash of the process leaves: of the buffered bytes an arbitrary prefix has
  reached the file (a full buffer is handed over early), the rest is lost.
\<close>

definition wal_crash :: "nat \<Rightarrow> wal \<Rightarrow> (bytes \<times> bytes) list" where
  "wal_crash n w =
     (if w_open w
      then AList.update (w_path w) (file_content (w_dir w) (w_path w) @ take n (w_pending w)) (w_dir w)
      else w_dir w)"

section \<open>Frames round trip\<close>

definition mk_frame :: "nat \<Rightarrow> f64 \<Rightarrow> wal_op \<Rightarrow> bytes \<Rightarrow> bytes \<Rightarrow> wal_frame" where
  "mk_frame lsn ts op key value =
     \<lparr>fr_lsn = lsn, fr_ts = ts, fr_op = op, fr_key = key, fr_value = value,
      fr_crc = crc32 (be_fields [(1, op_code op), (8, lsn)] @ key @ value)\<rparr>"

definition frame_ok :: "wal_frame \<Rightarrow> bool" where
  "frame_ok f \<longleftrightarrow> fr_lsn f < 2 ^ 64 \<and> length (fr_key f) < 2 ^ 32 \<and> length (fr_value f) < 2 ^ 32 \<and>
     f = mk_frame (fr_lsn f) (fr_ts f) (fr_op f) (fr_key f) (fr_value f)"

definition frame_fields :: "wal_frame \<Rightarrow> (nat \<times> nat) list" where
  "frame_fields f = [(1, WAL_VERSION), (8, fr_lsn f), (8, unat (fr_ts f)), (1, op_code (fr_op f)),
     (4, length (fr_key f)), (4, length (fr_value f)), (4, fr_crc f)]"

definition frame_bytes :: "wal_frame \<Rightarrow> bytes" where
  "frame_bytes f = WAL_MAGIC @ be_fields (frame_fields f) @ fr_key f @ fr_value f"

definition frames_bytes :: "wal_frame list \<Rightarrow> bytes" where
  "frames_bytes fs = concat (map frame_bytes fs)"

lemma frames_bytes_simps [simp]:
  "frames_bytes [] = []"
  "frames_bytes (f # fs) = frame_bytes f @ frames_bytes fs"
  "frames_bytes (fs @ gs) = frames_bytes fs @ frames_bytes gs"
  by (simp_all add: frames_bytes_def)

lemma op_of_code [simp]: "op_of_code (op_code op) = Some op"
  by (cases op) (simp_all add: op_of_code_def)

lemma op_code_bounds: "op_code op < 256"
  by (cases op) simp_all

lemma ts_bound: "unat (t :: f64) < 256 ^ 8"
proof -
  have "unat t < 2 ^ LENGTH(64)" by (rule unsigned_less)
  then show ?thesis by simp
qed

lemma frame_fields_fit: "frame_ok f \<Longrightarrow> fields_fit (frame_fields f)"
proof -
  assume ok: "frame_ok f"
  then have "fr_crc f < 256 ^ 4"
    by (metis frame_ok_def mk_frame_def crc32_bound wal_frame.select_convs(6))
  then show ?thesis
    using ok op_code_bounds [of "fr_op f"] ts_bound [of "fr_ts f"]
    by (simp add: frame_ok_def frame_fields_def fields_fit_def WAL_VERSION_def)
qed

lemma length_frame_bytes: "length (frame_bytes f) = 34 + length (fr_key f) + length (fr_value f)"
  by (simp add: frame_bytes_def frame_fields_def length_be_fields WAL_MAGIC_def)

text \<open>
  \<open>append\<close> writes the bytes of the frame exactly when the sizes fit their fields; otherwise
  \<open>struct.pack\<close> raises.
\<close>

lemma encode_frame_ok:
  assumes "lsn < 2 ^ 64" "length key < 2 ^ 32" "length value < 2 ^ 32"
  shows "encode_frame lsn ts op key value = Inr (frame_bytes (mk_frame lsn ts op key value))"
    and "frame_ok (mk_frame lsn ts op key value)"
proof -
  show ok: "frame_ok (mk_frame lsn ts op key value)"
    using assms by (simp add: frame_ok_def mk_frame_def)
  have "fields_fit [(1, op_code op), (8, lsn)]"
    using assms op_code_bounds [of op] by (simp add: fields_fit_def)
  then show "encode_frame lsn ts op key value = Inr (frame_bytes (mk_frame lsn ts op key value))"
    using frame_fields_fit [OF ok]
    by (simp add: encode_frame_def pack_fields_eq frame_bytes_def frame_fields_def mk_frame_def)
qed

lemma encode_frame_error:
  assumes "2 ^ 64 \<le> lsn \<or> 2 ^ 32 \<le> length key \<or> 2 ^ 32 \<le> length value"
  shows "encode_frame lsn ts op key value = Inl StructError"
  using assms by (auto simp: encode_frame_def pack_fields_eq fields_fit_def)

lemma take4_header: "take 4 (take 34 xs) = take 4 xs"
  by simp

lemma frame_head:
  shows "take 4 (frame_bytes f @ rest) = WAL_MAGIC"
    and "drop 4 (take 34 (frame_bytes f @ rest)) = be_fields (frame_fields f)"
    and "drop 34 (frame_bytes f @ rest) = fr_key f @ fr_value f @ rest"
  by (simp_all add: frame_bytes_def frame_fields_def length_be_fields WAL_MAGIC_def)

lemma unpack_frame_fields:
  assumes "frame_ok f"
  shows "unpack_fields [1, 8, 8, 1, 4, 4, 4] (be_fields (frame_fields f)) = map snd (frame_fields f)"
  using unpack_be_fields [OF frame_fields_fit [OF assms], of "[]"] by (simp add: frame_fields_def)

lemma frame_body_frame:
  assumes "frame_ok f"
  shows "frame_body (map snd (frame_fields f)) (fr_key f @ fr_value f @ rest)
       = Some (f, length (frame_bytes f))"
proof -
  have c: "fr_crc f = crc32 (be_fields [(1, op_code (fr_op f)), (8, fr_lsn f)] @ fr_key f @ fr_value f)"
    using assms by (metis frame_ok_def mk_frame_def wal_frame.select_convs(6))
  then show ?thesis
    by (simp add: frame_body_def frame_fields_def py_slice_def length_frame_bytes Let_def)
qed

lemma parse_frame_bytes:
  assumes "frame_ok f"
  shows "parse_frame (frame_bytes f @ rest) = Some (f, length (frame_bytes f))"
proof -
  have "\<not> length (take 34 (frame_bytes f @ rest)) < 34"
    by (simp add: length_frame_bytes)
  moreover have "take 4 (take 34 (frame_bytes f @ rest)) = WAL_MAGIC"
    unfolding take4_header by (rule frame_head(1))
  ultimately show ?thesis
    unfolding parse_frame_def Let_def frame_head(2,3) unpack_frame_fields [OF assms] frame_body_frame [OF assms]
    by simp
qed

lemma frame_body_short: "length rest < f ! 4 + f ! 5 \<Longrightarrow> frame_body f rest = None"
  by (simp add: frame_body_def Let_def)

lemma parse_frame_torn:
  assumes "frame_ok f" "n < length (frame_bytes f)"
  shows "parse_frame (take n (frame_bytes f)) = None"
proof (cases "n < 34")
  case True
  then have "length (take 34 (take n (frame_bytes f))) < 34" by simp
  then show ?thesis unfolding parse_frame_def Let_def by (rule if_P)
next
  case False
  let ?rest = "take (n - 34) (fr_key f @ fr_value f)"
  have r: "drop 34 (take n (frame_bytes f)) = ?rest"
    using False frame_head(3) [of f "[]"] by (simp add: drop_take)
  have h: "take 34 (take n (frame_bytes f)) = take 34 (frame_bytes f)"
    using False by (simp add: min_def)
  have d: "drop 4 (take 34 (frame_bytes f)) = be_fields (frame_fields f)"
    using frame_head(2) [of f "[]"] by (simp only: append_Nil2)
  have b: "frame_body (map snd (frame_fields f)) ?rest = None"
  proof (rule frame_body_short)
    have "length ?rest \<le> n - 34" by simp
    also have "\<dots> < length (fr_key f) + length (fr_value f)"
      using assms(2) False by (simp add: length_frame_bytes)
    finally show "length ?rest < map snd (frame_fields f) ! 4 + map snd (frame_fields f) ! 5"
      by (simp add: frame_fields_def)
  qed
  show ?thesis
    unfolding parse_frame_def Let_def h d r unpack_frame_fields [OF assms(1)] b if_cancel by (rule refl)
qed

lemma read_frames_Nil [simp]: "read_frames [] = []"
  by (subst read_frames.simps) (simp add: parse_frame_def)

lemma read_frames_None: "parse_frame bs = None \<Longrightarrow> read_frames bs = []"
  by (subst read_frames.simps) simp

lemma read_frames_Cons: "frame_ok f \<Longrightarrow> read_frames (frame_bytes f @ rest) = f # read_frames rest"
  by (subst read_frames.simps) (simp add: parse_frame_bytes)

lemma read_frames_append:
  "list_all frame_ok fs \<Longrightarrow> read_frames (frames_bytes fs @ rest) = fs @ read_frames rest"
  by (induction fs) (simp_all add: read_frames_Cons)

lemma read_frames_bytes: "list_all frame_ok fs \<Longrightarrow> read_frames (frames_bytes fs) = fs"
  using read_frames_append [of fs "[]"] by simp

text \<open>The frames that lie wholly within the first \<open>n\<close> bytes of a log.\<close>

fun whole_frames :: "nat \<Rightarrow> wal_frame list \<Rightarrow> wal_frame list" where
  "whole_frames n [] = []"
| "whole_frames n (f # fs) =
     (if length (frame_bytes f) \<le> n then f # whole_frames (n - length (frame_bytes f)) fs else [])"

lemma read_frames_take:
  "list_all frame_ok fs \<Longrightarrow> read_frames (take n (frames_bytes fs)) = whole_frames n fs"
proof (induction fs arbitrary: n)
  case (Cons f fs)
  show ?case
  proof (cases "length (frame_bytes f) \<le> n")
    case True
    then have "take n (frames_bytes (f # fs))
             = frame_bytes f @ take (n - length (frame_bytes f)) (frames_bytes fs)" by simp
    with Cons True show ?thesis by (simp add: read_frames_Cons)
  next
    case False
    then have "take n (frames_bytes (f # fs)) = take n (frame_bytes f)" by simp
    with Cons.prems False show ?thesis by (simp add: read_frames_None parse_frame_torn)
  qed
qed simp

lemma whole_frames_prefix: "\<exists>gs. fs = whole_frames n fs @ gs"
  by (induction fs arbitrary: n) auto

lemma whole_frames_all: "length (frames_bytes fs) \<le> n \<Longrightarrow> whole_frames n fs = fs"
  by (induction fs arbitrary: n) auto

lemma whole_frames_append:
  "length (frames_bytes fs) \<le> n \<Longrightarrow>
   whole_frames n (fs @ gs) = fs @ whole_frames (n - length (frames_bytes fs)) gs"
  by (induction fs arbitrary: n) auto

end
