(* ===== verification/WalLog.thy ===== *)
theory WalLog
  imports Wal
begin

text \<open>
  What the write-ahead log promises, over its directory. A ghost list of segments (number
  and frames, in order) describes the log; \<open>wal_ok\<close> says that the files are exactly those
  segments once the buffer is flushed, and each operation is an operation on the list.
\<close>

section \<open>The directory as segments\<close>

type_synonym segments = "(nat \<times> wal_frame list) list"

definition seg_name :: "nat \<Rightarrow> bytes" where
  "seg_name s = numbered ''wal_'' ''.log'' s"

lemma wal_name_nat: "wal_name (int s) = seg_name s"
  by (simp add: wal_name_def seg_name_def numbered_def)

lemma is_log_seg_name [simp]: "is_log (seg_name s)"
  by (simp add: is_log_def seg_name_def)

lemma seg_name_inject [simp]: "seg_name s = seg_name t \<longleftrightarrow> s = t"
  by (simp add: seg_name_def)

lemma seg_name_less: "s < 10 ^ 8 \<Longrightarrow> t < 10 ^ 8 \<Longrightarrow> seg_name s < seg_name t \<longleftrightarrow> s < t"
  by (simp add: seg_name_def numbered_less)

lemma seg_name_seq: "s < 10 ^ 8 \<Longrightarrow> py_int (py_slice (seg_name s) 4 12) = Some (int s)"
  unfolding seg_name_def by (rule numbered_seq) simp_all

definition seg_frames :: "segments \<Rightarrow> wal_frame list" where
  "seg_frames segs = concat (map snd segs)"

lemma seg_frames_simps [simp]:
  "seg_frames [] = []"
  "seg_frames ((s, fs) # segs) = fs @ seg_frames segs"
  "seg_frames (segs @ segs') = seg_frames segs @ seg_frames segs'"
  by (simp_all add: seg_frames_def)

definition seg_dir :: "(bytes \<times> bytes) list \<Rightarrow> segments \<Rightarrow> bool" where
  "seg_dir d segs \<longleftrightarrow>
     distinct (map fst d) \<and> sorted_wrt (<) (map fst segs) \<and>
     (\<forall>(s, fs) \<in> set segs. s < 10 ^ 8 \<and> list_all frame_ok fs \<and>
        map_of d (seg_name s) = Some (frames_bytes fs)) \<and>
     {n \<in> fst ` set d. is_log n} = seg_name ` fst ` set segs"

lemma seg_dirD:
  assumes "seg_dir d segs"
  shows "distinct (map fst d)" "sorted_wrt (<) (map fst segs)"
    "\<And>s fs. (s, fs) \<in> set segs \<Longrightarrow> s < 10 ^ 8 \<and> list_all frame_ok fs \<and>
        map_of d (seg_name s) = Some (frames_bytes fs)"
    "{n \<in> fst ` set d. is_log n} = seg_name ` fst ` set segs"
  using assms by (auto simp: seg_dir_def)

lemma log_files_segs: "seg_dir d segs \<Longrightarrow> log_files d = map (seg_name \<circ> fst) segs"
proof -
  assume d: "seg_dir d segs"
  have "sorted_wrt (\<lambda>x y. fst x < fst y) segs"
    using seg_dirD(2) [OF d] by (simp add: sorted_wrt_map)
  moreover have "seg_name (fst x) < seg_name (fst y)"
    if "x \<in> set segs" "y \<in> set segs" "fst x < fst y" for x y
    using that seg_dirD(3) [OF d, of "fst x" "snd x"] seg_dirD(3) [OF d, of "fst y" "snd y"]
    by (simp add: seg_name_less)
  ultimately have "sorted_wrt (\<lambda>x y. seg_name (fst x) < seg_name (fst y)) segs"
    by (metis (no_types, lifting) sorted_wrt_mono_rel)
  then have "sorted_wrt (<) (map seg_name (map fst segs))"
    by (simp add: sorted_wrt_map)
  moreover have "distinct (filter is_log (map fst d))"
    using seg_dirD(1) [OF d] by (rule distinct_filter)
  moreover have "set (filter is_log (map fst d)) = set (map seg_name (map fst segs))"
    unfolding set_filter_keys seg_dirD(4) [OF d] by (simp add: image_image)
  ultimately show ?thesis
    unfolding log_files_def by (metis sort_names_eq map_map)
qed

lemma read_segment:
  assumes "seg_dir d segs" "(s, fs) \<in> set segs"
  shows "file_content d (seg_name s) = frames_bytes fs" "read_frames (file_content d (seg_name s)) = fs"
  using seg_dirD(3) [OF assms] by (simp_all add: file_content_def read_frames_bytes)

lemma read_all_segments:
  assumes "seg_dir d segs"
  shows "concat (map (\<lambda>f. read_frames (file_content d f)) (log_files d)) = seg_frames segs"
  unfolding log_files_segs [OF assms] seg_frames_def map_map
  by (rule arg_cong [where f = concat], rule map_cong [OF refl])
    (use read_segment(2) [OF assms] in auto)

text \<open>Writing the last segment's file, or the file of a new last segment.\<close>

lemma seg_dir_update:
  assumes "seg_dir d (segs @ old)" "old = [] \<or> (\<exists>gs. old = [(q, gs)])"
    and "\<forall>s \<in> fst ` set segs. s < q" "q < 10 ^ 8" "list_all frame_ok fs"
  shows "seg_dir (AList.update (seg_name q) (frames_bytes fs) d) (segs @ [(q, fs)])"
proof -
  note D = seg_dirD [OF assms(1)]
  let ?d = "AList.update (seg_name q) (frames_bytes fs) d"
  have keys: "{n \<in> fst ` set ?d. is_log n} = insert (seg_name q) {n \<in> fst ` set d. is_log n}"
    by (auto simp: keys_update)
  have names: "{n \<in> fst ` set ?d. is_log n} = seg_name ` fst ` set (segs @ [(q, fs)])"
    unfolding keys D(4) using assms(2) by auto
  have segs: "(s, gs) \<in> set segs \<Longrightarrow> s < q" for s gs using assms(3) by force
  have "map_of ?d (seg_name s) = map_of d (seg_name s)" if "s < q" for s
    using that by (simp add: update_conv)
  with D(3) segs have old: "(s, gs) \<in> set segs \<Longrightarrow>
      s < 10 ^ 8 \<and> list_all frame_ok gs \<and> map_of ?d (seg_name s) = Some (frames_bytes gs)" for s gs
    by fastforce
  have "sorted_wrt (<) (map fst (segs @ [(q, fs)]))"
    using D(2) assms(3) by (auto simp: sorted_wrt_append)
  moreover have "map_of ?d (seg_name q) = Some (frames_bytes fs)" by (simp add: update_conv)
  moreover have "distinct (map fst ?d)" using D(1) by (rule distinct_update)
  ultimately show ?thesis
    unfolding seg_dir_def names using old assms(4,5) by auto
qed

lemma obsolete_seg_name: "s < 10 ^ 8 \<Longrightarrow> obsolete (int q) (int q) (seg_name s) \<longleftrightarrow> s < q"
  by (auto simp: obsolete_def seg_name_seq)

lemma seg_dir_purge:
  assumes "seg_dir d (segs @ [(q, fs)])"
  shows "seg_dir (filter (\<lambda>(f, _). \<not> obsolete (int q) (int q) f) d) [(q, fs)]"
proof -
  note D = seg_dirD [OF assms]
  let ?d = "filter (\<lambda>(f, _). \<not> obsolete (int q) (int q) f) d"
  have o: "obsolete (int q) (int q) (seg_name s) \<longleftrightarrow> s < q" if "s \<in> fst ` set (segs @ [(q, fs)])" for s
  proof -
    from that obtain gs where "(s, gs) \<in> set (segs @ [(q, fs)])" by force
    with D(3) have "s < 10 ^ 8" by blast
    then show ?thesis by (rule obsolete_seg_name)
  qed
  have lt: "\<forall>s \<in> fst ` set segs. s < q" using D(2) by (auto simp: sorted_wrt_append)
  have k: "fst ` set ?d = {n \<in> fst ` set d. \<not> obsolete (int q) (int q) n}" by force
  have "{n \<in> fst ` set ?d. is_log n} = {n \<in> {n \<in> fst ` set d. is_log n}. \<not> obsolete (int q) (int q) n}"
    unfolding k by blast
  also have "\<dots> = seg_name ` {s \<in> fst ` set (segs @ [(q, fs)]). \<not> s < q}"
    unfolding D(4) using o by blast
  also have "{s \<in> fst ` set (segs @ [(q, fs)]). \<not> s < q} = {q}"
    using lt by auto
  also have "seg_name ` {q} = {seg_name q}" by simp
  finally have n: "{n \<in> fst ` set ?d. is_log n} = {seg_name q}" .
  have "distinct (map fst ?d)" using D(1) by (simp add: distinct_map_filter)
  moreover have "map_of ?d (seg_name q) = Some (frames_bytes fs)"
    using D(3) [of q fs] o by (simp add: map_of_filter_key)
  ultimately show ?thesis
    unfolding seg_dir_def n using D(3) [of q fs] by simp
qed

section \<open>The invariant of the log object\<close>

definition wal_ok :: "wal \<Rightarrow> segments \<Rightarrow> bool" where
  "wal_ok w segs \<longleftrightarrow>
     w_open w \<and> segs \<noteq> [] \<and> w_seq w = int (fst (last segs)) \<and> w_path w = seg_name (fst (last segs)) \<and>
     seg_dir (w_dir (wal_sync w)) segs"

lemma wal_okE:
  assumes "wal_ok w segs"
  obtains segs' q fs where "segs = segs' @ [(q, fs)]" "w_open w" "w_seq w = int q" "w_path w = seg_name q"
    "q < 10 ^ 8" "\<forall>s \<in> fst ` set segs'. s < q" "list_all frame_ok fs"
    "seg_dir (AList.update (seg_name q) (file_content (w_dir w) (seg_name q) @ w_pending w) (w_dir w)) segs"
proof -
  obtain segs' q fs where s: "segs = segs' @ [(q, fs)]"
    using assms by (metis wal_ok_def rev_exhaust surj_pair)
  with assms have w: "w_open w" "w_seq w = int q" "w_path w = seg_name q"
    "seg_dir (AList.update (seg_name q) (file_content (w_dir w) (seg_name q) @ w_pending w) (w_dir w)) segs"
    by (auto simp: wal_ok_def wal_sync_def)
  from seg_dirD(2,3) [OF w(4)] s show ?thesis
    by (intro that [OF s w(1-3) _ _ _ w(4)]) (auto simp: sorted_wrt_append)
qed

lemma wal_ok_content:
  assumes "wal_ok w (segs @ [(q, fs)])"
  shows "file_content (w_dir w) (w_path w) @ w_pending w = frames_bytes fs"
  using assms by (elim wal_okE) (auto dest!: seg_dirD(3) [where s = q and fs = fs] simp: update_conv)

lemma file_content_update: "file_content (AList.update f c d) g = (if f = g then c else file_content d g)"
  by (simp add: file_content_def update_conv)

lemma update_update_same: "AList.update k v (AList.update k v' d) = AList.update k v d"
  by (induction d) auto

lemma wal_sync_fields [simp]:
  "w_open (wal_sync w) = w_open w" "w_path (wal_sync w) = w_path w" "w_seq (wal_sync w) = w_seq w"
  "w_next_lsn (wal_sync w) = w_next_lsn w" "w_max_file_size (wal_sync w) = w_max_file_size w"
  "w_sync_mode (wal_sync w) = w_sync_mode w" "w_clock (wal_sync w) = w_clock w"
  "w_ticks (wal_sync w) = w_ticks w" "w_last_sync (wal_sync w) = w_last_sync w"
  by (simp_all add: wal_sync_def)

lemma wal_sync_sync [simp]: "wal_sync (wal_sync w) = wal_sync w"
  by (simp add: wal_sync_def update_update_same file_content_update)

lemma wal_sync_pending: "w_open w \<Longrightarrow> w_pending (wal_sync w) = []"
  by (simp add: wal_sync_def)

text \<open>\<open>wal_ok\<close> reads the directory, the buffer and the current segment only.\<close>

lemma wal_ok_cong:
  assumes "wal_ok w segs" "w_dir w' = w_dir w" "w_open w' = w_open w" "w_path w' = w_path w"
    "w_pending w' = w_pending w" "w_seq w' = w_seq w"
  shows "wal_ok w' segs"
proof -
  have "w_dir (wal_sync w') = w_dir (wal_sync w)"
    using assms(2-6) by (simp add: wal_sync_def)
  with assms show ?thesis by (simp add: wal_ok_def)
qed

lemma wal_ok_sync: "wal_ok w segs \<Longrightarrow> wal_ok (wal_sync w) segs"
  by (simp add: wal_ok_def)

lemma wal_ok_rotate:
  assumes "wal_ok w segs" "w_seq w + 1 < 10 ^ 8"
  shows "wal_ok (wal_rotate w) (segs @ [(nat (w_seq w) + 1, [])])"
  using assms(1)
proof (rule wal_okE)
  fix segs' q fs
  assume s: "segs = segs' @ [(q, fs)]" and w: "w_open w" "w_seq w = int q" "w_path w = seg_name q"
    and lt: "q < 10 ^ 8" "\<forall>s \<in> fst ` set segs'. s < q"
    and d: "seg_dir (AList.update (seg_name q) (file_content (w_dir w) (seg_name q) @ w_pending w) (w_dir w)) segs"
  let ?d = "AList.update (seg_name q) (file_content (w_dir w) (seg_name q) @ w_pending w) (w_dir w)"
  have "seg_name (q + 1) \<notin> {n \<in> fst ` set ?d. is_log n}"
    unfolding seg_dirD(4) [OF d] using s lt by auto
  then have "map_of ?d (seg_name (q + 1)) = None"
    by (simp add: map_of_eq_None_iff)
  then have c: "file_content ?d (seg_name (q + 1)) = []" by (simp add: file_content_def)
  have "seg_dir (AList.update (seg_name (q + 1)) (frames_bytes []) ?d) (segs @ [(q + 1, [])])"
    using assms(2) w(2) s lt
    by (intro seg_dir_update [where old = "[]"]) (use d in auto)
  moreover have "wal_name (int q + 1) = seg_name (q + 1)"
    using wal_name_nat [of "q + 1"] by (simp add: algebra_simps)
  ultimately show ?thesis
    using w c
    by (simp add: wal_ok_def wal_rotate_def open_append_def wal_sync_def Let_def
        file_content_update update_update_same nat_add_distrib)
qed

lemma wal_ok_purge:
  assumes "wal_ok w (segs @ [(q, fs)])"
  shows "wal_ok (snd (wal_purge_before (w_seq w) w)) [(q, fs)]"
  using assms
proof (rule wal_okE)
  fix segs' q' fs'
  assume "segs @ [(q, fs)] = segs' @ [(q', fs')]" and w: "w_open w" "w_seq w = int q'" "w_path w = seg_name q'"
    and "q' < 10 ^ 8"
    and d: "seg_dir (AList.update (seg_name q') (file_content (w_dir w) (seg_name q') @ w_pending w) (w_dir w))
              (segs @ [(q, fs)])"
  then have q: "q' = q" "fs' = fs" "segs' = segs" and qb: "q < 10 ^ 8" by simp_all
  let ?p = "\<lambda>(f, c). \<not> obsolete (int q) (int q) f"
  have "\<not> obsolete (int q) (int q) (seg_name q)"
    using qb by (simp add: obsolete_seg_name)
  then have f: "filter ?p (AList.update (seg_name q) c d) = AList.update (seg_name q) c (filter ?p d)" for c d
    by (induction d) auto
  have c: "file_content (filter ?p (w_dir w)) (seg_name q) = file_content (w_dir w) (seg_name q)"
    using \<open>\<not> obsolete (int q) (int q) (seg_name q)\<close> by (simp add: file_content_def map_of_filter_key)
  from seg_dir_purge [OF d [unfolded q]]
  show ?thesis
    using w by (simp add: wal_ok_def wal_purge_before_def wal_sync_def q f c)
qed

section \<open>Appending\<close>

lemma wal_sync_policy_fields:
  "w_next_lsn (wal_sync_policy w) = w_next_lsn w" "w_seq (wal_sync_policy w) = w_seq w"
  "w_open (wal_sync_policy w) = w_open w" "w_max_file_size (wal_sync_policy w) = w_max_file_size w"
  "w_sync_mode (wal_sync_policy w) = w_sync_mode w"
  by (auto simp: wal_sync_policy_def wal_time_def split: sync_mode.splits)

lemma wal_ok_clock [simp]:
  "wal_ok (w\<lparr>w_ticks := t\<rparr>) segs = wal_ok w segs"
  "wal_ok (w\<lparr>w_last_sync := l\<rparr>) segs = wal_ok w segs"
  by (simp_all add: wal_ok_def wal_sync_def)

lemma wal_ok_sync_policy: "wal_ok w segs \<Longrightarrow> wal_ok (wal_sync_policy w) segs"
  by (simp add: wal_sync_policy_def wal_time_def wal_ok_sync split: sync_mode.split)

lemma wal_ok_buffer:
  assumes "wal_ok w (segs @ [(q, fs)])" "frame_ok f"
  shows "wal_ok (w\<lparr>w_pending := w_pending w @ frame_bytes f\<rparr>) (segs @ [(q, fs @ [f])])"
  using assms(1)
proof (rule wal_okE)
  fix segs' q' fs'
  assume s: "segs @ [(q, fs)] = segs' @ [(q', fs')]" and w: "w_open w" "w_seq w = int q'" "w_path w = seg_name q'"
    and b: "q' < 10 ^ 8" "\<forall>s \<in> fst ` set segs'. s < q'" "list_all frame_ok fs'"
    and d: "seg_dir (AList.update (seg_name q') (file_content (w_dir w) (seg_name q') @ w_pending w) (w_dir w))
              (segs @ [(q, fs)])"
  have q: "q' = q" "fs' = fs" "segs' = segs" using s by simp_all
  have e: "frames_bytes (fs @ [f]) = file_content (w_dir w) (seg_name q) @ w_pending w @ frame_bytes f"
    using wal_ok_content [OF assms(1)] w(3) q by simp
  have "seg_dir (AList.update (seg_name q) (frames_bytes (fs @ [f]))
          (AList.update (seg_name q) (file_content (w_dir w) (seg_name q) @ w_pending w) (w_dir w)))
          (segs @ [(q, fs @ [f])])"
    using d b q assms(2) by (intro seg_dir_update [where old = "[(q, fs)]"]) auto
  from this [unfolded update_update_same e] show ?thesis
    using w q by (simp add: wal_ok_def wal_sync_def)
qed

definition next_segs :: "nat \<Rightarrow> segments \<Rightarrow> nat \<Rightarrow> wal_frame list \<Rightarrow> segments" where
  "next_segs mx segs q fs =
     segs @ [(q, fs)] @ (if mx \<le> length (frames_bytes fs) then [(q + 1, [])] else [])"

lemma seg_frames_next [simp]: "seg_frames (next_segs mx segs q fs) = seg_frames segs @ fs"
  by (simp add: next_segs_def)

text \<open>
  \<open>append\<close> adds one frame to the last segment and, when that segment has reached the maximal
  size, opens the next one.
\<close>

lemma wal_append_ok:
  assumes ok: "wal_ok w (segs @ [(q, fs)])"
    and size: "w_next_lsn w < 2 ^ 64" "length key < 2 ^ 32" "length value < 2 ^ 32" "q + 1 < 10 ^ 8"
  obtains ts w' where "wal_append op key value tso w = (Inr (w_next_lsn w), w')"
    "wal_ok w' (next_segs (w_max_file_size w) segs q (fs @ [mk_frame (w_next_lsn w) ts op key value]))"
    "w_next_lsn w' = w_next_lsn w + 1" "w_max_file_size w' = w_max_file_size w"
    "w_sync_mode w' = w_sync_mode w" "w_sync_mode w = Always \<Longrightarrow> w_pending w' = []"
proof -
  have op: "w_open w" and seq: "w_seq w = int q" using ok by (auto simp: wal_ok_def)
  define ts where "ts = (case tso of Some t \<Rightarrow> t | None \<Rightarrow> w_clock w (w_ticks w))"
  define w3 where "w3 = (case tso of
      Some t \<Rightarrow> w\<lparr>w_next_lsn := w_next_lsn w + 1\<rparr>
    | None \<Rightarrow> w\<lparr>w_next_lsn := w_next_lsn w + 1, w_ticks := w_ticks w + 1\<rparr>)"
  let ?f = "mk_frame (w_next_lsn w) ts op key value"
  let ?w4 = "wal_sync_policy (w3\<lparr>w_pending := w_pending w3 @ frame_bytes ?f\<rparr>)"
  have ok3: "wal_ok w3 (segs @ [(q, fs)])"
    by (rule wal_ok_cong [OF ok]) (auto simp: w3_def split: option.splits)
  have w3: "w_next_lsn w3 = w_next_lsn w + 1" "w_max_file_size w3 = w_max_file_size w"
      "w_sync_mode w3 = w_sync_mode w" "w_seq w3 = w_seq w" "w_open w3"
    using op by (auto simp: w3_def split: option.splits)
  have f: "encode_frame (w_next_lsn w) ts op key value = Inr (frame_bytes ?f)" "frame_ok ?f"
    using size encode_frame_ok by blast+
  have ok4: "wal_ok ?w4 (segs @ [(q, fs @ [?f])])"
    by (rule wal_ok_sync_policy) (rule wal_ok_buffer [OF ok3 f(2)])
  then have tell: "wal_tell ?w4 = length (frames_bytes (fs @ [?f]))"
    unfolding wal_tell_def using wal_ok_content by (metis length_append)
  define w' where "w' = (if w_max_file_size ?w4 \<le> wal_tell ?w4 then wal_rotate ?w4 else ?w4)"
  have r: "wal_append op key value tso w = (Inr (w_next_lsn w), w')"
    using op f(1) by (simp add: wal_append_def Let_def wal_time_def ts_def w3_def w'_def split: option.splits)
  have ok': "wal_ok w' (next_segs (w_max_file_size w) segs q (fs @ [?f]))"
    using ok4 wal_ok_rotate [OF ok4] size(4) seq
    by (auto simp: w'_def next_segs_def tell wal_sync_policy_fields w3)
  have p: "w_pending w' = []" if "w_sync_mode w = Always"
    using that w3
    by (auto simp: w'_def wal_rotate_def open_append_def wal_sync_policy_def Let_def wal_sync_pending)
  show ?thesis
    by (rule that [OF r ok' _ _ _ p])
      (auto simp: w'_def wal_rotate_def open_append_def Let_def wal_sync_policy_fields w3)
qed

section \<open>Opening and recovering\<close>

lemma update_same_value: "map_of d k = Some v \<Longrightarrow> AList.update k v d = d"
  by (induction d) (auto split: if_splits)

lemma Max_insert2_max: "finite S \<Longrightarrow> Max (insert m (insert a S)) = Max (insert (max m a) S)"
  for m a :: nat
  by (cases "S = {}") (auto simp: max.assoc)

lemma foldl_max_lsn:
  "foldl (\<lambda>m f. if m < fr_lsn f then fr_lsn f else m) m0 fs = Max (insert m0 (fr_lsn ` set fs))"
proof (induction fs arbitrary: m0)
  case (Cons f fs)
  have "(if m0 < fr_lsn f then fr_lsn f else m0) = max m0 (fr_lsn f)" by simp
  with Cons show ?case by (simp only: foldl_Cons list.set image_insert Max_insert2_max finite_imageI finite_set)
qed simp

lemma wal_recover_ok:
  assumes "wal_ok w segs"
  obtains w' where "wal_recover w = (seg_frames segs, w')" "wal_ok w' segs"
    "w_next_lsn w' = Max (insert 0 (fr_lsn ` set (seg_frames segs))) + 1"
    "w_pending w' = []" "w_max_file_size w' = w_max_file_size w" "w_sync_mode w' = w_sync_mode w"
proof -
  have o: "w_open w" "seg_dir (w_dir (wal_sync w)) segs" using assms by (auto simp: wal_ok_def)
  let ?w' = "(wal_sync w)\<lparr>w_next_lsn := Max (insert 0 (fr_lsn ` set (seg_frames segs))) + 1\<rparr>"
  have "wal_recover w = (seg_frames segs, ?w')"
    unfolding wal_recover_def Let_def read_all_segments [OF o(2)] foldl_max_lsn by (rule refl)
  moreover have "wal_ok ?w' segs"
    by (rule wal_ok_cong [OF wal_ok_sync [OF assms]]) simp_all
  ultimately show ?thesis using o(1) by (intro that [of ?w']) (auto simp: wal_sync_pending)
qed

lemma last_log_file:
  assumes "seg_dir d (segs @ [(q, fs)])"
  shows "log_files d \<noteq> []" "last (log_files d) = seg_name q"
  using log_files_segs [OF assms] by simp_all

lemma init_existing:
  assumes "log_files d \<noteq> []" "last (log_files d) = seg_name q" "q < 10 ^ 8" "map_of d (seg_name q) = Some c"
  shows "wal_new d mx mode clk t =
    \<lparr>w_dir = d, w_max_file_size = mx, w_sync_mode = mode, w_open = True, w_path = seg_name q,
     w_pending = [], w_seq = int q, w_next_lsn = 1, w_last_sync = clk t, w_clock = clk, w_ticks = t + 1\<rparr>"
  using assms
  by (simp add: wal_new_def wal_init_or_rotate_def open_append_def Let_def seg_name_seq wal_name_nat
      file_content_def update_same_value)

lemma wal_new_ok:
  assumes "seg_dir d segs"
  shows "wal_ok (wal_new d mx mode clk t) (if segs = [] then [(1, [])] else segs)"
proof (cases segs rule: rev_cases)
  case Nil
  have "log_files d = []" using log_files_segs [OF assms] Nil by simp
  moreover have "seg_dir (AList.update (seg_name 1) (frames_bytes []) d) [(1, [])]"
    using seg_dir_update [where segs = "[]" and old = "[]" and q = 1 and fs = "[]"] assms Nil by simp
  moreover have "wal_name 1 = seg_name 1" using wal_name_nat [of 1] by simp
  moreover have "file_content d (seg_name 1) = []"
    using seg_dirD(4) [OF assms] Nil is_log_seg_name [of 1]
    by (auto simp: file_content_def split: option.splits dest!: map_of_SomeD)
  ultimately show ?thesis
    using Nil
    by (simp add: wal_ok_def wal_new_def wal_init_or_rotate_def open_append_def wal_sync_def Let_def
        file_content_update update_update_same)
next
  case (snoc segs' x)
  obtain q fs where x: "x = (q, fs)" by (cases x)
  note d = assms [unfolded snoc x]
  have q: "q < 10 ^ 8" "map_of d (seg_name q) = Some (frames_bytes fs)"
    using seg_dirD(3) [OF d, of q fs] by auto
  show ?thesis
    using d snoc x
    by (simp add: wal_ok_def init_existing [OF last_log_file [OF d] q] wal_sync_def q(2)
        file_content_def update_same_value)
qed

section \<open>Crashes\<close>

lemma keys_update_eq: "map fst (AList.update k v d) = map fst (AList.update k v' d)"
  by (induction d) auto

lemma wal_crash_read:
  assumes "wal_ok w (segs @ [(q, fs)])"
  shows "fst (wal_recover (wal_new (wal_crash n w) mx mode clk t)) =
         seg_frames segs @ whole_frames (length (file_content (w_dir w) (w_path w)) + n) fs"
  using assms
proof (rule wal_okE)
  fix segs' q' fs'
  assume s: "segs @ [(q, fs)] = segs' @ [(q', fs')]" and w: "w_open w" "w_seq w = int q'" "w_path w = seg_name q'"
    and b: "q' < 10 ^ 8" "\<forall>s \<in> fst ` set segs'. s < q'" "list_all frame_ok fs'"
    and d: "seg_dir (AList.update (seg_name q') (file_content (w_dir w) (seg_name q') @ w_pending w) (w_dir w))
              (segs @ [(q, fs)])"
  let ?c = "file_content (w_dir w) (seg_name q)"
  let ?d = "AList.update (seg_name q) (?c @ w_pending w) (w_dir w)"
  let ?d' = "AList.update (seg_name q) (?c @ take n (w_pending w)) (w_dir w)"
  have q: "q' = q" "fs' = fs" "segs' = segs" using s by simp_all
  note D = d [unfolded q]
  have logs: "log_files ?d' = log_files ?d"
    unfolding log_files_def by (subst keys_update_eq) (rule refl)
  have m: "map_of ?d' (seg_name q) = Some (?c @ take n (w_pending w))" by (simp add: update_conv)
  have crash: "wal_crash n w = ?d'" using w q by (simp add: wal_crash_def)
  have eq: "wal_sync (wal_new ?d' mx mode clk t) = wal_new ?d' mx mode clk t"
    unfolding init_existing [OF last_log_file [OF D, folded logs] b(1) [unfolded q] m]
    by (simp add: wal_sync_def file_content_update update_update_same)
  have dir: "w_dir (wal_new ?d' mx mode clk t) = ?d'"
    unfolding init_existing [OF last_log_file [OF D, folded logs] b(1) [unfolded q] m] by simp
  have torn: "?c @ take n (w_pending w) = take (length ?c + n) (frames_bytes fs)"
    using wal_ok_content [OF assms] w q by (metis append_take_drop_id take_append diff_add_inverse length_append take_all_iff le_add1 append_eq_conv_conj)
  have names: "log_files ?d' = map (seg_name \<circ> fst) segs @ [seg_name q]"
    unfolding logs log_files_segs [OF D] by simp
  have "read_frames (file_content ?d' (seg_name s)) = gs" if "(s, gs) \<in> set segs" for s gs
  proof -
    have "s < q" using that b(2) q by force
    then have "file_content ?d' (seg_name s) = file_content ?d (seg_name s)"
      by (simp add: file_content_update)
    with read_segment(2) [OF D, of s gs] that show ?thesis by simp
  qed
  then have old: "map ((\<lambda>f. read_frames (file_content ?d' f)) \<circ> (seg_name \<circ> fst)) segs = map snd segs"
    by (intro map_cong refl) auto
  have cur: "read_frames (file_content ?d' (seg_name q)) = whole_frames (length ?c + n) fs"
    using b(3) q by (simp add: file_content_update torn read_frames_take)
  have "concat (map (\<lambda>f. read_frames (file_content ?d' f)) (log_files ?d'))
      = seg_frames segs @ whole_frames (length ?c + n) fs"
    unfolding names map_append map_map concat_append old seg_frames_def by (simp add: cur)
  then show ?thesis
    unfolding crash wal_recover_def Let_def eq dir using w q by simp
qed

section \<open>Sequences of appends\<close>

definition frame_payload :: "wal_frame \<Rightarrow> wal_op \<times> bytes \<times> bytes" where
  "frame_payload f = (fr_op f, fr_key f, fr_value f)"

definition append_all :: "(wal_op \<times> bytes \<times> bytes) list \<Rightarrow> (wal, unit) pym" where
  "append_all ops = for_each ops (\<lambda>(op, k, v). bnd (wal_append op k v None) (\<lambda>_. ret ()))"

lemma append_all_ok:
  assumes "wal_ok w segs" "w_next_lsn w + length ops \<le> 2 ^ 64" "fst (last segs) + length ops < 10 ^ 8"
    "\<forall>(op, k, v) \<in> set ops. length k < 2 ^ 32 \<and> length v < 2 ^ 32"
    "w_sync_mode w = Always \<longrightarrow> w_pending w = []"
  shows "wp (append_all ops) (\<lambda>_ w'. \<exists>segs'. wal_ok w' segs' \<and>
      map frame_payload (seg_frames segs') = map frame_payload (seg_frames segs) @ ops \<and>
      w_sync_mode w' = w_sync_mode w \<and> (w_sync_mode w = Always \<longrightarrow> w_pending w' = [])) w"
  using assms
proof (induction ops arbitrary: w segs)
  case Nil
  then show ?case by (auto simp: append_all_def)
next
  case (Cons x ops)
  obtain op k v where x: "x = (op, k, v)" by (cases x)
  obtain segs0 q fs where s: "segs = segs0 @ [(q, fs)]"
    using Cons.prems(1) by (rule wal_okE) auto
  have sz: "w_next_lsn w < 2 ^ 64" "length k < 2 ^ 32" "length v < 2 ^ 32" "q + 1 < 10 ^ 8"
    using Cons.prems s x by auto
  obtain ts w1 where r: "wal_append op k v None w = (Inr (w_next_lsn w), w1)"
    and ok: "wal_ok w1 (next_segs (w_max_file_size w) segs0 q (fs @ [mk_frame (w_next_lsn w) ts op k v]))"
    and w1: "w_next_lsn w1 = w_next_lsn w + 1" "w_sync_mode w1 = w_sync_mode w"
      "w_sync_mode w = Always \<Longrightarrow> w_pending w1 = []"
    by (rule wal_append_ok [OF Cons.prems(1) [unfolded s] sz, where op = op and tso = None]) (rule that)
  let ?segs = "next_segs (w_max_file_size w) segs0 q (fs @ [mk_frame (w_next_lsn w) ts op k v])"
  have "fst (last ?segs) \<le> q + 1" by (simp add: next_segs_def)
  then have "wp (append_all ops) (\<lambda>_ w'. \<exists>segs'. wal_ok w' segs' \<and>
      map frame_payload (seg_frames segs') = map frame_payload (seg_frames ?segs) @ ops \<and>
      w_sync_mode w' = w_sync_mode w1 \<and> (w_sync_mode w1 = Always \<longrightarrow> w_pending w' = [])) w1"
    using Cons.prems s w1 by (intro Cons.IH [OF ok]) auto
  then have "wp (append_all ops) (\<lambda>_ w'. \<exists>segs'. wal_ok w' segs' \<and>
      map frame_payload (seg_frames segs') = map frame_payload (seg_frames segs) @ x # ops \<and>
      w_sync_mode w' = w_sync_mode w \<and> (w_sync_mode w = Always \<longrightarrow> w_pending w' = [])) w1"
    using s w1 x by (elim wp_mono) (simp add: frame_payload_def mk_frame_def)
  then show ?case
    by (simp add: append_all_def x wpI [where m = "wal_append op k v None" and s = w, OF r])
qed

lemma wal_new_fields:
  "w_next_lsn (wal_new d mx mode clk t) = 1" "w_sync_mode (wal_new d mx mode clk t) = mode"
  "w_pending (wal_new d mx mode clk t) = []" "w_max_file_size (wal_new d mx mode clk t) = mx"
  by (simp_all add: wal_new_def wal_init_or_rotate_def open_append_def Let_def)

lemma seg_dir_Nil: "seg_dir [] []"
  by (simp add: seg_dir_def)

section \<open>Properties\<close>

text \<open>
  C13. Crash recovery of the log. A fresh log takes any sequence of appends without an
  exception (the sizes fit their fields); if the process then crashes, with an arbitrary
  prefix of the unflushed bytes on disk, a new log object recovers a prefix of the appended
  records, in order and with their operations, keys and values; in sync mode "always" it
  recovers all of them.
\<close>

theorem wal_crash_prefix:
  assumes "length ops < 10 ^ 8 - 1" "\<forall>(op, k, v) \<in> set ops. length k < 2 ^ 32 \<and> length v < 2 ^ 32"
  shows "\<exists>w. append_all ops (wal_new [] mx mode clk t) = (Inr (), w) \<and>
      (\<forall>n mx' mode' clk' t'. \<exists>lost.
         ops = map frame_payload (fst (wal_recover (wal_new (wal_crash n w) mx' mode' clk' t'))) @ lost \<and>
         (mode = Always \<longrightarrow> lost = []))"
proof -
  let ?w0 = "wal_new [] mx mode clk t"
  have "wal_ok ?w0 [(1, [])]" using wal_new_ok [OF seg_dir_Nil, of mx mode clk t] by simp
  then have "wp (append_all ops) (\<lambda>_ w'. \<exists>segs'. wal_ok w' segs' \<and>
      map frame_payload (seg_frames segs') = map frame_payload (seg_frames [(1, [])]) @ ops \<and>
      w_sync_mode w' = w_sync_mode ?w0 \<and> (w_sync_mode ?w0 = Always \<longrightarrow> w_pending w' = [])) ?w0"
    using assms by (intro append_all_ok) (auto simp: wal_new_fields)
  then obtain w segs where w: "append_all ops ?w0 = (Inr (), w)" "wal_ok w segs"
    "map frame_payload (seg_frames segs) = ops" "mode = Always \<longrightarrow> w_pending w = []"
    by (elim wpE) (auto simp: wal_new_fields)
  obtain segs' q fs where s: "segs = segs' @ [(q, fs)]" and c: "wal_ok w (segs' @ [(q, fs)])"
    using w(2) by (rule wal_okE) (use w(2) in auto)
  have "\<exists>lost. ops = map frame_payload (fst (wal_recover (wal_new (wal_crash n w) mx' mode' clk' t'))) @ lost \<and>
         (mode = Always \<longrightarrow> lost = [])" for n mx' mode' clk' t'
  proof -
    let ?m = "length (file_content (w_dir w) (w_path w)) + n"
    obtain gs where gs: "fs = whole_frames ?m fs @ gs" using whole_frames_prefix by blast
    have "mode = Always \<longrightarrow> gs = []"
      using w(4) wal_ok_content [OF c] gs whole_frames_all [of fs ?m] by auto
    moreover have "ops = map frame_payload (seg_frames segs' @ whole_frames ?m fs) @ map frame_payload gs"
      using w(3) gs s by (metis append_assoc append_Nil2 map_append seg_frames_simps)
    ultimately show ?thesis
      unfolding wal_crash_read [OF c] by blast
  qed
  with w(1) show ?thesis by blast
qed

theorem wal_crash_prefix_witness:
  "\<exists>w. append_all [(SET, ''k'', ''v''), (DEL, ''k'', [])] (wal_new [] 1000 Always (\<lambda>_. 0) 0) = (Inr (), w) \<and>
      map frame_payload (fst (wal_recover (wal_new (wal_crash 5 w) 1000 Always (\<lambda>_. 0) 0)))
        = [(SET, ''k'', ''v''), (DEL, ''k'', [])]"
  using wal_crash_prefix [of "[(SET, ''k'', ''v''), (DEL, ''k'', [])]" 1000 Always "\<lambda>_. 0" 0]
  by fastforce

text \<open>
  LSN order. After \<open>recover\<close> every recovered frame has an LSN below the next one the log
  will hand out, so LSNs are not reused while their frames are in the log; and the frames
  \<open>recover\<close> returns are those of the segments, in order.
\<close>

theorem wal_recover_next_lsn:
  assumes "wal_ok w segs" "wal_recover w = (frames, w')"
  shows "frames = seg_frames segs \<and> wal_ok w' segs \<and> (\<forall>f \<in> set frames. fr_lsn f < w_next_lsn w')"
  using assms(1)
proof (rule wal_recover_ok)
  fix w1
  assume "wal_recover w = (seg_frames segs, w1)" "wal_ok w1 segs"
    "w_next_lsn w1 = Max (insert 0 (fr_lsn ` set (seg_frames segs))) + 1"
  with assms(2) show ?thesis by (auto simp: less_Suc_eq_le)
qed

theorem wal_recover_next_lsn_witness:
  "let w = wal_new [(seg_name 1, frame_bytes (mk_frame 7 0 SET ''k'' ''v''))] 1000 Always (\<lambda>_. 0) 0
   in \<forall>f \<in> set (fst (wal_recover w)). fr_lsn f < w_next_lsn (snd (wal_recover w))"
proof -
  let ?d = "[(seg_name 1, frame_bytes (mk_frame 7 0 SET ''k'' ''v''))]"
  have "seg_dir ?d [(1, [mk_frame 7 0 SET ''k'' ''v''])]"
    by (simp add: seg_dir_def encode_frame_ok(2)) auto
  then have ok: "wal_ok (wal_new ?d 1000 Always (\<lambda>_. 0) 0) [(1, [mk_frame 7 0 SET ''k'' ''v''])]"
    using wal_new_ok by fastforce
  obtain fs w' where r: "wal_recover (wal_new ?d 1000 Always (\<lambda>_. 0) 0) = (fs, w')"
    by (cases "wal_recover (wal_new ?d 1000 Always (\<lambda>_. 0) 0)")
  show ?thesis using wal_recover_next_lsn [OF ok r] r by (simp add: Let_def)
qed

lemma parse_frame_split:
  "length h = 34 \<Longrightarrow> take 4 h = WAL_MAGIC \<Longrightarrow>
   parse_frame (h @ p) = frame_body (unpack_fields [1, 8, 8, 1, 4, 4, 4] (drop 4 h)) p"
  by (simp add: parse_frame_def Let_def del: unpack_fields.simps)

lemma parse_frame_header:
  assumes "frame_ok f"
  shows "parse_frame (WAL_MAGIC @ be_fields (frame_fields f) @ p) = frame_body (map snd (frame_fields f)) p"
proof -
  let ?h = "WAL_MAGIC @ be_fields (frame_fields f)"
  have "length ?h = 34" by (simp add: WAL_MAGIC_def frame_fields_def length_be_fields)
  moreover have "take 4 ?h = WAL_MAGIC" "drop 4 ?h = be_fields (frame_fields f)"
    by (simp_all add: WAL_MAGIC_def)
  ultimately show ?thesis
    using parse_frame_split [of ?h p] unpack_frame_fields [OF assms] by (simp del: unpack_fields.simps)
qed

lemma frame_body_bad_crc:
  assumes "length q = f ! 4 + f ! 5" "crc32 (be_fields [(1, f ! 3), (8, f ! 1)] @ q) \<noteq> f ! 6"
  shows "frame_body f (q @ rest) = None"
proof -
  have "take (f ! 4) q @ py_slice q (f ! 4) (f ! 4 + f ! 5) = q"
    using assms(1) by (simp add: py_slice_def)
  with assms show ?thesis by (simp add: frame_body_def Let_def)
qed

text \<open>
  C25. Corruption of a payload. If any single byte of a frame's key or value is changed on
  disk, the checksum test rejects the frame and replay stops before it.
\<close>

theorem wal_detects_corruption:
  assumes "frame_ok f" "34 \<le> i" "i < length (frame_bytes f)" "c \<noteq> frame_bytes f ! i"
  shows "read_frames ((frame_bytes f)[i := c] @ rest) = []"
proof -
  let ?h = "WAL_MAGIC @ be_fields (frame_fields f)" and ?p = "fr_key f @ fr_value f" and ?j = "i - 34"
  have lh: "length ?h = 34" by (simp add: WAL_MAGIC_def frame_fields_def length_be_fields)
  have fb: "frame_bytes f = ?h @ ?p" by (simp add: frame_bytes_def)
  have j: "?j < length ?p" using assms(2,3) by (simp add: length_frame_bytes)
  have gen: "(h @ p)[i := c] = h @ p[?j := c]" "(h @ p) ! i = p ! ?j" if "length h = 34" for h p :: bytes
    using that assms(2) by (simp_all add: list_update_append nth_append)
  have u: "(frame_bytes f)[i := c] @ rest = ?h @ ?p[?j := c] @ rest"
    unfolding fb using gen(1) [OF lh, of ?p] by simp
  have ne: "c \<noteq> ?p ! ?j" using assms(4) gen(2) [OF lh, of ?p] by (simp add: fb)
  let ?c = "be_fields [(1, op_code (fr_op f)), (8, fr_lsn f)]"
  have "crc32 ((?c @ take ?j ?p) @ c # drop (Suc ?j) ?p) \<noteq> crc32 ((?c @ take ?j ?p) @ ?p ! ?j # drop (Suc ?j) ?p)"
    using ne by (rule crc32_detects_byte)
  then have "crc32 (?c @ ?p[?j := c]) \<noteq> crc32 (?c @ ?p)"
    using j id_take_nth_drop [OF j] upd_conv_take_nth_drop [OF j] by (metis append_assoc)
  moreover have "fr_crc f = crc32 (?c @ ?p)"
    using assms(1) by (metis frame_ok_def mk_frame_def wal_frame.select_convs(6))
  ultimately have crc: "crc32 (?c @ ?p[?j := c]) \<noteq> fr_crc f" by simp
  let ?q = "?p[?j := c]"
  have "frame_body (map snd (frame_fields f)) (?q @ rest) = None"
    by (rule frame_body_bad_crc) (use crc in \<open>simp_all add: frame_fields_def del: list_update_append\<close>)
  then have "parse_frame (?h @ ?q @ rest) = None"
    unfolding parse_frame_header [OF assms(1)] append_assoc by simp
  then show ?thesis unfolding u by (rule read_frames_None)
qed

theorem wal_detects_corruption_witness:
  "read_frames ((frame_bytes (mk_frame 1 0 SET ''k'' ''v''))[35 := CHR ''w''] @ []) = []"
proof (rule wal_detects_corruption)
  let ?f = "mk_frame 1 0 SET ''k'' ''v''"
  show "frame_ok ?f" by (simp add: encode_frame_ok(2))
  show len: "35 < length (frame_bytes ?f)" by (simp add: length_frame_bytes mk_frame_def)
  have "frame_bytes ?f ! 35 = drop 34 (frame_bytes ?f) ! 1" using len by simp
  also have "\<dots> = CHR ''v''" using frame_head(3) [of ?f "[]"] by (simp add: mk_frame_def)
  finally show "CHR ''w'' \<noteq> frame_bytes ?f ! 35" by simp
qed simp

text \<open>
  A torn tail hides what follows. When a crash leaves one to three bytes of a frame at
  the end of a log file, the new log object appends its frames after them, and the next
  recovery of that file stops at the torn bytes: none of the later frames is ever read.
\<close>

theorem wal_torn_tail_hides_appends:
  assumes "list_all frame_ok fs" "0 < n" "n < 4"
  shows "read_frames (frames_bytes fs @ take n WAL_MAGIC @ frames_bytes gs) = fs"
proof -
  have "read_frames (take n WAL_MAGIC @ frames_bytes gs) = []"
  proof (rule read_frames_None)
    have "gs = [] \<or> (\<exists>t. frames_bytes gs = ''ZWAL'' @ t)"
      by (cases gs) (auto simp: frame_bytes_def WAL_MAGIC_def)
    moreover have "n = 1 \<or> n = 2 \<or> n = 3" using assms(2,3) by linarith
    ultimately have "take 4 (take 34 (take n WAL_MAGIC @ frames_bytes gs)) \<noteq> WAL_MAGIC"
      by (auto simp: WAL_MAGIC_def)
    then show "parse_frame (take n WAL_MAGIC @ frames_bytes gs) = None"
      by (simp only: parse_frame_def Let_def if_True not_True_eq_False if_cancel simp_thms)
  qed
  with read_frames_append [OF assms(1), of "take n WAL_MAGIC @ frames_bytes gs"] show ?thesis by simp
qed

theorem wal_torn_tail_hides_appends_witness:
  "read_frames (frames_bytes [mk_frame 1 0 SET ''a'' ''1''] @ take 2 WAL_MAGIC @
      frames_bytes [mk_frame 2 0 SET ''b'' ''2'']) = [mk_frame 1 0 SET ''a'' ''1'']"
  by (rule wal_torn_tail_hides_appends) (simp_all add: encode_frame_ok(2))

end
