(* ===== verification/Lsm.thy ===== *)
theory Lsm
  imports Merge WalLog
begin

text \<open>
  \<open>zenith/storage/lsm.py\<close>: the memtable and the LSM tree. The tree's directories are
  \<open>l_dir\<close> (the SSTables, by file name) and the directory inside its log \<open>l_wal\<close>. The tree's
  lock serialises its methods, so each is one state transition. The Bloom filters' \<open>host\<close> is an argument of the operations that build or read tables.
\<close>

section \<open>MemTable\<close>

record memtable =
  mt_max :: nat
  mt_data :: "(bytes \<times> bytes) list"
  mt_size :: int

definition mt_new :: "nat \<Rightarrow> memtable" where
  "mt_new max_size = \<lparr>mt_max = max_size, mt_data = [], mt_size = 0\<rparr>"

definition mt_put :: "bytes \<Rightarrow> bytes \<Rightarrow> memtable \<Rightarrow> memtable" where
  "mt_put key value m =
     (let size = (case map_of (mt_data m) key of
          Some old \<Rightarrow> mt_size m - int (length key + length old)
        | None \<Rightarrow> mt_size m)
      in m\<lparr>mt_data := AList.update key value (mt_data m),
           mt_size := size + int (length key + length value + 16)\<rparr>)"

definition mt_get :: "bytes \<Rightarrow> memtable \<Rightarrow> bytes option" where
  "mt_get key m = map_of (mt_data m) key"

definition mt_delete :: "bytes \<Rightarrow> memtable \<Rightarrow> memtable" where
  "mt_delete key m = mt_put key TOMBSTONE m"

definition mt_is_full :: "memtable \<Rightarrow> bool" where
  "mt_is_full m \<longleftrightarrow> int (mt_max m) \<le> mt_size m"

definition mt_sorted_entries :: "memtable \<Rightarrow> (bytes \<times> bytes) list" where
  "mt_sorted_entries m = sort_key fst (mt_data m)"

definition mt_len :: "memtable \<Rightarrow> nat" where
  "mt_len m = length (mt_data m)"

definition mt_clear :: "memtable \<Rightarrow> memtable" where
  "mt_clear m = m\<lparr>mt_data := [], mt_size := 0\<rparr>"

section \<open>The tree\<close>

record lsm =
  l_mem_bytes :: nat
  l_wal :: wal
  l_mem :: memtable
  l_imm :: "memtable option"
  l_readers :: "sst_reader list"
  l_next_id :: int
  l_dir :: dir

definition sst_path :: "int \<Rightarrow> bytes" where
  "sst_path i = ''sst_'' @ fmt08 i @ ''.sst''"

text \<open>A method of the log called by the tree.\<close>

definition on_wal :: "(wal, 'a) pym \<Rightarrow> (lsm, 'a) pym" where
  "on_wal m L = (case m (l_wal L) of (r, w) \<Rightarrow> (r, L\<lparr>l_wal := w\<rparr>))"

text \<open>\<open>SSTableReader(path)\<close>: opening a file that is not there raises.\<close>

definition open_reader :: "host \<Rightarrow> bytes \<Rightarrow> dir \<Rightarrow> sst_reader res" where
  "open_reader H path d = (case map_of d path of None \<Rightarrow> Inl OSError | Some data \<Rightarrow> sst_open H path data)"

text \<open>
  The first half of \<open>compact\<close>: the merged table is written next to the old ones. Returns
  its path.
\<close>

definition compact_write :: "host \<Rightarrow> (lsm, bytes) pym" where
  "compact_write H L =
     (case rmap sst_iter_all (l_readers L) of
          Inl e \<Rightarrow> (Inl e, L)
        | Inr runs \<Rightarrow>
            (let path = sst_path (l_next_id L) in
             case write_table H path (merge_runs runs) (l_dir L) of
                (Inl e, d) \<Rightarrow> (Inl e, L\<lparr>l_next_id := l_next_id L + 1, l_dir := d\<rparr>)
              | (Inr u, d) \<Rightarrow> (Inr path, L\<lparr>l_next_id := l_next_id L + 1, l_dir := d\<rparr>)))"

text \<open>
  The loop that removes the old tables: the directory before it and after each of its passes.
\<close>

fun remove_each :: "sst_reader list \<Rightarrow> dir \<Rightarrow> dir list" where
  "remove_each [] d = [d]"
| "remove_each (r # rs) d = d # remove_each rs (AList.delete (sr_path r) d)"

definition removal_dirs :: "lsm \<Rightarrow> dir list" where
  "removal_dirs L = remove_each (l_readers L) (l_dir L)"

text \<open>
  The end of \<open>compact\<close>: close and remove the old tables, open the compacted one if it was
  written, purge the log segments before the current one.
\<close>

definition replace_tables :: "host \<Rightarrow> bytes \<Rightarrow> (lsm, unit) pym" where
  "replace_tables H path L =
     (let L1 = L\<lparr>l_readers := [], l_dir := last (removal_dirs L)\<rparr>;
          purge = (\<lambda>L. (Inr (), L\<lparr>l_wal := snd (wal_purge_before (w_seq (l_wal L)) (l_wal L))\<rparr>))
      in if path \<in> fst ` set (l_dir L1)
         then (case open_reader H path (l_dir L1) of
             Inl e \<Rightarrow> (Inl e, L1)
           | Inr r \<Rightarrow> purge (L1\<lparr>l_readers := [r]\<rparr>))
         else purge L1)"

definition lsm_compact :: "host \<Rightarrow> (lsm, unit) pym" where
  "lsm_compact H L =
     (if length (l_readers L) < 2 then (Inr (), L)
      else bnd (compact_write H) (replace_tables H) L)"

text \<open>
  \<open>_flush_memtable\<close>, up to the point where the new table is on disk and open
  (\<open>flush_table\<close>), and from there.
\<close>

definition flush_table :: "host \<Rightarrow> (lsm, unit) pym" where
  "flush_table H L =
     (let L1 = L\<lparr>l_imm := Some (l_mem L), l_mem := mt_new (l_mem_bytes L),
                 l_next_id := l_next_id L + 1\<rparr>;
          path = sst_path (l_next_id L)
      in case write_table H path (mt_sorted_entries (l_mem L)) (l_dir L1) of
          (Inl e, d) \<Rightarrow> (Inl e, L1\<lparr>l_dir := d\<rparr>)
        | (Inr u, d) \<Rightarrow> (case open_reader H path d of
              Inl e \<Rightarrow> (Inl e, L1\<lparr>l_dir := d\<rparr>)
            | Inr r \<Rightarrow> (Inr (), L1\<lparr>l_dir := d, l_readers := l_readers L1 @ [r]\<rparr>)))"

definition rotate_log :: "(lsm, unit) pym" where
  "rotate_log L = (Inr (), L\<lparr>l_wal := wal_rotate (l_wal L), l_imm := None\<rparr>)"

definition maybe_compact :: "host \<Rightarrow> (lsm, unit) pym" where
  "maybe_compact H L = (if 4 \<le> length (l_readers L) then lsm_compact H L else (Inr (), L))"

definition lsm_flush_memtable :: "host \<Rightarrow> (lsm, unit) pym" where
  "lsm_flush_memtable H L =
     (if mt_len (l_mem L) = 0 then (Inr (), L)
      else sq (flush_table H) (sq rotate_log (maybe_compact H)) L)"

definition lsm_flush_if_full :: "host \<Rightarrow> (lsm, unit) pym" where
  "lsm_flush_if_full H L = (if mt_is_full (l_mem L) then lsm_flush_memtable H L else (Inr (), L))"

definition lsm_put :: "host \<Rightarrow> bytes \<Rightarrow> bytes \<Rightarrow> (lsm, unit) pym" where
  "lsm_put H key value =
     sq (on_wal (wal_append SET key value None))
    (sq (\<lambda>L. (Inr (), L\<lparr>l_mem := mt_put key value (l_mem L)\<rparr>))
        (lsm_flush_if_full H))"

definition lsm_delete :: "host \<Rightarrow> bytes \<Rightarrow> (lsm, unit) pym" where
  "lsm_delete H key =
     sq (on_wal (wal_append DEL key TOMBSTONE None))
    (sq (\<lambda>L. (Inr (), L\<lparr>l_mem := mt_delete key (l_mem L)\<rparr>))
        (lsm_flush_if_full H))"

text \<open>\<open>None if val == TOMBSTONE else val\<close> is \<open>live\<close> of theory Merge.\<close>

definition lsm_get :: "host \<Rightarrow> bytes \<Rightarrow> lsm \<Rightarrow> bytes option res" where
  "lsm_get H key L =
     (case mt_get key (l_mem L) of
        Some v \<Rightarrow> Inr (live v)
      | None \<Rightarrow>
         (case (case l_imm L of Some m \<Rightarrow> (if mt_len m \<noteq> 0 then mt_get key m else None) | None \<Rightarrow> None) of
            Some v \<Rightarrow> Inr (live v)
          | None \<Rightarrow> rbind (search_first (sst_get H key) (rev (l_readers L)))
                      (\<lambda>v. Inr (Option.bind v live))))"

definition bounded :: "bytes option \<Rightarrow> bytes option \<Rightarrow> memtable \<Rightarrow> (bytes \<times> bytes) list" where
  "bounded s e m = filter (\<lambda>(k, v). in_bounds s e k) (mt_sorted_entries m)"

definition lsm_scan :: "bytes option \<Rightarrow> bytes option \<Rightarrow> lsm \<Rightarrow> (bytes \<times> bytes) list res" where
  "lsm_scan start_key end_key L =
     rbind (rfold (\<lambda>r d. rbind (sst_scan start_key end_key r) (\<lambda>es. Inr (dict_update es d))) (l_readers L) [])
       (\<lambda>d.
       let d1 = (case l_imm L of Some m \<Rightarrow> dict_update (bounded start_key end_key m) d | None \<Rightarrow> d);
           d2 = dict_update (bounded start_key end_key (l_mem L)) d1
       in Inr (filter (\<lambda>(k, v). v \<noteq> TOMBSTONE) (map (\<lambda>k. (k, the (map_of d2 k))) (sort (map fst d2)))))"

definition lsm_flush :: "host \<Rightarrow> (lsm, unit) pym" where
  "lsm_flush H = sq (lsm_flush_memtable H) (\<lambda>L. (Inr (), L\<lparr>l_wal := wal_sync (l_wal L)\<rparr>))"

text \<open>After \<open>close\<close> the readers are closed too; calls on a closed tree are not modelled.\<close>

definition lsm_close :: "host \<Rightarrow> (lsm, unit) pym" where
  "lsm_close H = sq (lsm_flush H) (\<lambda>L. (Inr (), L\<lparr>l_wal := wal_close (l_wal L)\<rparr>))"

section \<open>Opening\<close>

definition is_sst :: "bytes \<Rightarrow> bool" where
  "is_sst f \<longleftrightarrow> startswith f ''sst_'' \<and> endswith f ''.sst''"

definition load_step :: "host \<Rightarrow> dir \<Rightarrow> sst_reader list \<times> int \<Rightarrow> bytes \<Rightarrow> sst_reader list \<times> int" where
  "load_step H d acc f =
     (case py_int (py_slice f 4 12) of
        None \<Rightarrow> acc
      | Some sst_id \<Rightarrow>
          (let max_id = (if snd acc < sst_id then sst_id else snd acc)
           in case open_reader H f d of
               Inl e \<Rightarrow> (fst acc, max_id)
             | Inr r \<Rightarrow> (fst acc @ [r], max_id)))"

definition load_existing_sstables :: "host \<Rightarrow> lsm \<Rightarrow> lsm" where
  "load_existing_sstables H L =
     (case foldl (load_step H (l_dir L)) ([], 0) (sort (filter is_sst (map fst (l_dir L)))) of
        (readers, max_id) \<Rightarrow> L\<lparr>l_readers := readers, l_next_id := max_id + 1\<rparr>)"

definition replay_frame :: "memtable \<Rightarrow> wal_frame \<Rightarrow> memtable" where
  "replay_frame m f =
     (if fr_op f = SET then mt_put (fr_key f) (fr_value f) m
      else if fr_op f = DEL then mt_delete (fr_key f) m
      else m)"

definition recover_from_wal :: "lsm \<Rightarrow> lsm" where
  "recover_from_wal L =
     (case wal_recover (l_wal L) of
        (frames, w) \<Rightarrow> L\<lparr>l_wal := w, l_mem := foldl replay_frame (l_mem L) frames\<rparr>)"

text \<open>The default \<open>max_file_size\<close> of the log.\<close>

definition MAX_LOG_SIZE :: nat where
  "MAX_LOG_SIZE = 32 * 1024 * 1024"

definition lsm_open ::
  "host \<Rightarrow> dir \<Rightarrow> dir \<Rightarrow> nat \<Rightarrow> sync_mode \<Rightarrow> (nat \<Rightarrow> f64) \<Rightarrow> nat \<Rightarrow> lsm" where
  "lsm_open H sst_dir wal_dir mem_bytes mode clock ticks =
     recover_from_wal (load_existing_sstables H
       \<lparr>l_mem_bytes = mem_bytes, l_wal = wal_new wal_dir MAX_LOG_SIZE mode clock ticks,
        l_mem = mt_new mem_bytes, l_imm = None, l_readers = [], l_next_id = 1, l_dir = sst_dir\<rparr>)"

text \<open>The two directories a crash of the process leaves (see \<open>wal_crash\<close>).\<close>

definition lsm_crash :: "nat \<Rightarrow> lsm \<Rightarrow> dir \<times> dir" where
  "lsm_crash n L = (l_dir L, wal_crash n (l_wal L))"

end
