(* ===== verification/LsmSpec.thy ===== *)
theory LsmSpec
  imports Lsm
begin

text \<open>
  The meaning of an LSM tree. A ghost history \<open>ws\<close> lists all writes, a deletion being a write
  of the tombstone; \<open>rawmap ws\<close> is the last write of each key and \<open>vis\<close> hides tombstones.
  \<open>lsm_view\<close> relates a tree to a history: the memtable holds the writes from position \<open>m\<close> on
  and the tables those before position \<open>p \<ge> m\<close>. \<open>durable\<close> relates the log to it.
\<close>

section \<open>Histories\<close>

type_synonym history = "(bytes \<times> bytes) list"

definition rawmap :: "history \<Rightarrow> bytes \<rightharpoonup> bytes" where
  "rawmap ws = map_of (rev ws)"

definition vis :: "(bytes \<rightharpoonup> bytes) \<Rightarrow> bytes \<rightharpoonup> bytes" where
  "vis f k = Option.bind (f k) live"

lemma rawmap_simps [simp]:
  "rawmap [] = Map.empty"
  "rawmap (xs @ ys) = rawmap xs ++ rawmap ys"
  "rawmap [(k, v)] = [k \<mapsto> v]"
  by (simp_all add: rawmap_def)

lemma rawmap_Cons: "rawmap ((k, v) # ws) = [k \<mapsto> v] ++ rawmap ws"
  using rawmap_simps(2) [of "[(k, v)]" ws] by simp

lemma rawmap_None: "rawmap ws k = None \<longleftrightarrow> k \<notin> fst ` set ws"
  by (simp add: rawmap_def map_of_eq_None_iff)

lemma rawmap_drop: "rawmap (drop m ws) k = Some v \<Longrightarrow> rawmap ws k = Some v"
  using rawmap_simps(2) [of "take m ws" "drop m ws"] by (simp add: map_add_def)

lemma rawmap_take:
  assumes "rawmap (drop m ws) k = None" "m \<le> p"
  shows "rawmap (take p ws) k = rawmap ws k"
proof -
  have "set (drop p ws) \<subseteq> set (drop m ws)" using assms(2) by (rule set_drop_subset_set_drop)
  then have "rawmap (drop p ws) k = None" using assms(1) by (auto simp: rawmap_None)
  then show ?thesis using rawmap_simps(2) [of "take p ws" "drop p ws"] by (simp add: map_add_def)
qed

lemma vis_cong: "f k = g k \<Longrightarrow> vis f k = vis g k"
  by (simp add: vis_def)

definition hist_ok :: "history \<Rightarrow> bool" where
  "hist_ok ws \<longleftrightarrow> (\<forall>(k, v) \<in> set ws. k \<noteq> [] \<and> entry_ok (k, v)) \<and> length ws < 2 ^ 32 \<and>
     length (data_bytes ws) < 2 ^ 60"

lemma length_data_bytes: "length (data_bytes es) = sum_list (map (\<lambda>e. length (entry_bytes e)) es)"
  by (induction es) simp_all

lemma distinct_weight_le:
  fixes g :: "'a \<Rightarrow> nat"
  assumes "distinct xs" "set xs \<subseteq> set ys"
  shows "sum_list (map g xs) \<le> sum_list (map g ys)"
  using assms
proof (induction xs arbitrary: ys)
  case (Cons x xs)
  have "sum_list (map g xs) \<le> sum_list (map g (remove1 x ys))"
  proof (rule Cons.IH)
    show "set xs \<subseteq> set (remove1 x ys)"
    proof
      fix y assume y: "y \<in> set xs"
      then have "y \<noteq> x" using Cons.prems(1) by auto
      with y Cons.prems(2) show "y \<in> set (remove1 x ys)" by auto
    qed
  qed (use Cons.prems in simp)
  moreover have "sum_list (map g ys) = g x + sum_list (map g (remove1 x ys))"
    using Cons.prems by (intro sum_list_map_remove1) simp
  ultimately show ?case by simp
qed simp

lemma run_ok_of_history:
  assumes "hist_ok ws" "strict_keys es" "set es \<subseteq> set ws"
  shows "run_ok es" "es \<noteq> [] \<Longrightarrow> fst (hd es) \<noteq> []"
proof -
  have d: "distinct es" using strict_keys_distinct [OF assms(2)] by (simp add: distinct_map)
  have "length (data_bytes es) \<le> length (data_bytes ws)"
    unfolding length_data_bytes by (rule distinct_weight_le [OF d assms(3)])
  moreover have "length es \<le> length ws"
    using distinct_weight_le [OF d assms(3), of "\<lambda>_. 1"] by (simp add: sum_list_triv)
  moreover have all: "e \<in> set es \<Longrightarrow> fst e \<noteq> [] \<and> entry_ok e" for e
    using assms(1,3) by (cases e) (auto simp: hist_ok_def)
  then have "list_all entry_ok es" by (simp add: list_all_iff)
  ultimately show "run_ok es" using assms(1,2) by (simp add: run_ok_def hist_ok_def)
  show "fst (hd es) \<noteq> []" if "es \<noteq> []"
    using all [OF hd_in_set [OF that]] by simp
qed

section \<open>The memtable\<close>

definition mem_holds :: "memtable \<Rightarrow> history \<Rightarrow> bool" where
  "mem_holds mt ws \<longleftrightarrow> distinct (map fst (mt_data mt)) \<and> map_of (mt_data mt) = rawmap ws"

lemma mem_holds_new: "mem_holds (mt_new n) []"
  by (simp add: mem_holds_def mt_new_def)

lemma mem_holds_put: "mem_holds mt ws \<Longrightarrow> mem_holds (mt_put k v mt) (ws @ [(k, v)])"
  by (simp add: mem_holds_def mt_put_def Let_def distinct_update update_conv')

lemma mem_holds_empty: "mem_holds mt ws \<Longrightarrow> mt_len mt = 0 \<Longrightarrow> ws = []"
  by (cases ws rule: rev_cases) (auto simp: mem_holds_def mt_len_def fun_eq_iff split: if_splits prod.splits)

lemma mem_holds_set: "mem_holds mt ws \<Longrightarrow> set (mt_data mt) \<subseteq> set ws"
proof
  fix e assume m: "mem_holds mt ws" and e: "e \<in> set (mt_data mt)"
  then have "map_of (mt_data mt) (fst e) = Some (snd e)" by (intro map_of_is_SomeI) (simp_all add: mem_holds_def)
  then have "rawmap ws (fst e) = Some (snd e)" using m by (simp add: mem_holds_def)
  then have "(fst e, snd e) \<in> set (rev ws)" unfolding rawmap_def by (rule map_of_SomeD)
  then show "e \<in> set ws" by simp
qed

lemma sort_key_fst:
  assumes "distinct (map fst d)"
  shows "strict_keys (sort_key fst d)" "map_of (sort_key fst d) = map_of d" "set (sort_key fst d) = set d"
proof -
  have "distinct (map fst (sort_key fst d))"
    using assms by (simp add: distinct_map)
  then show "strict_keys (sort_key fst d)"
    by (simp add: strict_keys_def strict_sorted_iff)
  show "set (sort_key fst d) = set d" by simp
  then show "map_of (sort_key fst d) = map_of d"
    using assms \<open>distinct (map fst (sort_key fst d))\<close> by (simp add: map_of_inject_set)
qed

lemma mem_entries:
  assumes "mem_holds mt ws"
  shows "strict_keys (mt_sorted_entries mt)" "map_of (mt_sorted_entries mt) = rawmap ws"
    "set (mt_sorted_entries mt) \<subseteq> set ws" "mt_sorted_entries mt = [] \<longleftrightarrow> mt_len mt = 0"
proof -
  have d: "distinct (map fst (mt_data mt))" using assms by (simp add: mem_holds_def)
  show "strict_keys (mt_sorted_entries mt)" "map_of (mt_sorted_entries mt) = rawmap ws"
    "set (mt_sorted_entries mt) \<subseteq> set ws" "mt_sorted_entries mt = [] \<longleftrightarrow> mt_len mt = 0"
    using sort_key_fst [OF d] assms mem_holds_set [OF assms]
    by (auto simp: mt_sorted_entries_def mem_holds_def mt_len_def simp flip: length_0_conv)
qed

text \<open>The writes in the log.\<close>

definition fr_write :: "wal_frame \<Rightarrow> history" where
  "fr_write f = (if fr_op f = SET then [(fr_key f, fr_value f)]
                 else if fr_op f = DEL then [(fr_key f, TOMBSTONE)] else [])"

definition fr_writes :: "wal_frame list \<Rightarrow> history" where
  "fr_writes fs = concat (map fr_write fs)"

lemma fr_writes_simps [simp]:
  "fr_writes [] = []"
  "fr_writes (f # fs) = fr_write f @ fr_writes fs"
  "fr_writes (fs @ gs) = fr_writes fs @ fr_writes gs"
  by (simp_all add: fr_writes_def)

lemma mem_holds_replay: "mem_holds mt ws \<Longrightarrow> mem_holds (foldl replay_frame mt fs) (ws @ fr_writes fs)"
proof (induction fs arbitrary: mt ws)
  case (Cons f fs)
  have "mem_holds (replay_frame mt f) (ws @ fr_write f)"
    using mem_holds_put [OF Cons.prems] Cons.prems by (auto simp: replay_frame_def fr_write_def mt_delete_def)
  from Cons.IH [OF this] show ?case by simp
qed simp

section \<open>The tables\<close>

definition sst_name :: "nat \<Rightarrow> bytes" where
  "sst_name i = numbered ''sst_'' ''.sst'' i"

lemma sst_path_nat: "sst_path (int i) = sst_name i"
  by (simp add: sst_path_def sst_name_def numbered_def)

lemma sst_name_facts [simp]:
  "is_sst (sst_name i)" "sst_name i = sst_name j \<longleftrightarrow> i = j" "\<not> is_sst (temp_path f)"
  by (simp_all add: is_sst_def sst_name_def) (simp add: temp_path_def endswith_def)

definition dir_ok :: "host \<Rightarrow> dir \<Rightarrow> sst_reader list \<Rightarrow> nat list \<Rightarrow> bool" where
  "dir_ok H d rs ids \<longleftrightarrow>
     distinct (map fst d) \<and> map sr_path rs = map sst_name ids \<and> sorted_wrt (<) ids \<and>
     (\<forall>i \<in> set ids. i < 10 ^ 8) \<and>
     (\<forall>r \<in> set rs. map_of d (sr_path r) = Some (sr_file r) \<and> sst_open H (sr_path r) (sr_file r) = Inr r) \<and>
     (\<forall>f. is_sst f \<longrightarrow> map_of d f \<noteq> None \<longrightarrow> f \<in> sst_name ` set ids)"

definition tables_ok :: "host \<Rightarrow> sst_reader list \<Rightarrow> (bytes \<times> bytes) list list \<Rightarrow> bool" where
  "tables_ok H rs ess \<longleftrightarrow> list_all2 (\<lambda>r es. table_of H r es \<and> sr_min_key r \<noteq> []) rs ess"

definition lsm_view ::
  "host \<Rightarrow> lsm \<Rightarrow> (bytes \<times> bytes) list list \<Rightarrow> history \<Rightarrow> nat \<Rightarrow> nat \<Rightarrow> bool" where
  "lsm_view H L ess ws m p \<longleftrightarrow>
     hist_ok ws \<and> m \<le> p \<and> p \<le> length ws \<and>
     mem_holds (l_mem L) (drop m ws) \<and> l_imm L = None \<and>
     tables_ok H (l_readers L) ess \<and> (\<forall>es \<in> set ess. set es \<subseteq> set (take p ws)) \<and>
     (\<forall>k. vis (layers ess) k = vis (rawmap (take p ws)) k) \<and>
     (\<exists>ids nid. dir_ok H (l_dir L) (l_readers L) ids \<and> l_next_id L = int nid \<and> (\<forall>i \<in> set ids. i < nid))"

section \<open>Reading\<close>

lemma view_layers:
  assumes "lsm_view H L ess ws m p" "rawmap (drop m ws) k = None"
  shows "vis (layers ess) k = vis (rawmap ws) k"
  using assms rawmap_take [OF assms(2), of p] by (auto simp: lsm_view_def intro: vis_cong)

lemma lsm_get_view:
  assumes "lsm_view H L ess ws m p"
  shows "lsm_get H k L = Inr (vis (rawmap ws) k)"
proof -
  have t: "list_all2 (\<lambda>r es. table_of H r es \<and> sr_min_key r \<noteq> []) (l_readers L) ess"
    and m: "mt_get k (l_mem L) = rawmap (drop m ws) k" and i: "l_imm L = None"
    using assms by (auto simp: lsm_view_def tables_ok_def mem_holds_def mt_get_def)
  show ?thesis
  proof (cases "rawmap (drop m ws) k")
    case (Some v)
    with rawmap_drop [OF Some] m show ?thesis by (simp add: lsm_get_def vis_def)
  next
    case None
    with m i tbl.search_layers [OF t] view_layers [OF assms None] show ?thesis
      by (simp add: lsm_get_def vis_def)
  qed
qed

lemma strict_keys_map_pair:
  "sorted_wrt (<) ks \<Longrightarrow> strict_keys (map (\<lambda>k. (k, f k)) ks)"
  by (simp add: strict_keys_def comp_def)

lemma map_of_map_pair: "map_of (map (\<lambda>k. (k, f k)) ks) k = (if k \<in> set ks then Some (f k) else None)"
  by (induction ks) auto

lemma map_of_filter_live:
  "distinct (map fst es) \<Longrightarrow> map_of (filter (\<lambda>(k, v). v \<noteq> TOMBSTONE) es) k = vis (map_of es) k"
  by (induction es) (auto simp: vis_def live_def map_of_eq_None_iff split: option.split)

lemma lsm_scan_view:
  assumes "lsm_view H L ess ws m p"
  shows "\<exists>es. lsm_scan s e L = Inr es \<and> strict_keys es \<and>
     (\<forall>k. map_of es k = (if in_bounds s e k then vis (rawmap ws) k else None))"
proof -
  have t: "list_all2 (\<lambda>r es. table_of H r es \<and> sr_min_key r \<noteq> []) (l_readers L) ess"
    and mem: "mem_holds (l_mem L) (drop m ws)" and i: "l_imm L = None"
    using assms by (auto simp: lsm_view_def tables_ok_def)
  obtain d where d: "rfold (\<lambda>r d. rbind (sst_scan s e r) (\<lambda>es. Inr (dict_update es d))) (l_readers L) [] = Inr d"
      "\<And>k. map_of d k = (if in_bounds s e k then layers ess k else None)" "distinct (map fst d)"
    using tbl.collect_layers [OF t, of s e "[]"] by auto
  define d2 where "d2 = dict_update (bounded s e (l_mem L)) d"
  have b: "map_of (bounded s e (l_mem L)) k = (if in_bounds s e k then rawmap (drop m ws) k else None)"
    "distinct (map fst (bounded s e (l_mem L)))" for k
    using mem_entries(1,2) [OF mem]
    by (simp_all add: bounded_def map_of_filter_key strict_keys_filter strict_keys_distinct)
  have d2: "map_of d2 k = (if in_bounds s e k then (layers ess ++ rawmap (drop m ws)) k else None)"
    "distinct (map fst d2)" for k
    unfolding d2_def using b d(2,3)
    by (simp_all add: map_of_dict_update distinct_dict_update map_add_def split: option.split)
  define es where "es = map (\<lambda>k. (k, the (map_of d2 k))) (sort (map fst d2))"
  have sk: "strict_keys es"
    unfolding es_def using d2(2) by (intro strict_keys_map_pair) (simp add: strict_sorted_iff)
  have mo: "map_of es k = map_of d2 k" for k
    by (cases "map_of d2 k")
      (auto simp: es_def map_of_map_pair map_of_eq_None_iff [THEN iffD2] map_of_eq_None_iff
        simp flip: domIff dom_map_of_conv_image_fst)
  have v: "vis (map_of es) k = (if in_bounds s e k then vis (rawmap ws) k else None)" for k
  proof (cases "rawmap (drop m ws) k")
    case None
    have "vis (map_of es) k = (if in_bounds s e k then vis (layers ess) k else None)"
      unfolding vis_def mo d2(1) using None by (simp add: map_add_def)
    then show ?thesis unfolding view_layers [OF assms None] .
  next
    case (Some v)
    have "vis (map_of es) k = (if in_bounds s e k then live v else None)"
      unfolding vis_def mo d2(1) using Some by (simp add: map_add_def)
    then show ?thesis using rawmap_drop [OF Some] by (simp add: vis_def)
  qed
  have "lsm_scan s e L = Inr (filter (\<lambda>(k, v). v \<noteq> TOMBSTONE) es)"
    using d(1) i by (simp add: lsm_scan_def d2_def es_def Let_def)
  moreover have "map_of (filter (\<lambda>(k, v). v \<noteq> TOMBSTONE) es) k = vis (map_of es) k" for k
    by (rule map_of_filter_live [OF strict_keys_distinct [OF sk]])
  ultimately show ?thesis using v strict_keys_filter [OF sk] by auto
qed

section \<open>Writing a table\<close>

lemma dir_keys: "f \<in> fst ` set d \<longleftrightarrow> map_of d f \<noteq> None"
  by (simp add: map_of_eq_None_iff)

lemma dir_ok_next:
  assumes "dir_ok H d rs ids" "\<forall>i \<in> set ids. i < nid"
  shows "map_of d (sst_name nid) = None" "r \<in> set rs \<Longrightarrow> sr_path r \<noteq> sst_name nid"
    "r \<in> set rs \<Longrightarrow> is_sst (sr_path r)"
proof -
  have n: "sst_name nid \<notin> sst_name ` set ids" using assms(2) by auto
  then show "map_of d (sst_name nid) = None" using assms(1) unfolding dir_ok_def by (metis sst_name_facts(1))
  have "sr_path r \<in> sst_name ` set ids" if "r \<in> set rs" for r
    using assms(1) that unfolding dir_ok_def by (metis image_eqI image_set)
  with n show "r \<in> set rs \<Longrightarrow> sr_path r \<noteq> sst_name nid" "r \<in> set rs \<Longrightarrow> is_sst (sr_path r)"
    by (metis, metis imageE sst_name_facts(1))
qed

text \<open>The directory after a new table has been added.\<close>

lemma dir_ok_add:
  assumes d: "dir_ok H d rs ids" "\<forall>i \<in> set ids. i < nid" "nid < 10 ^ 8"
    and w: "table_written (sst_name nid) (Some img) d d'"
    and r: "sst_open H (sst_name nid) img = Inr r" "sr_path r = sst_name nid" "sr_file r = img"
  shows "dir_ok H d' (rs @ [r]) (ids @ [nid])"
proof -
  note n = dir_ok_next [OF d(1,2)]
  have m: "map_of d' f = (if f = sst_name nid then Some img else if f = temp_path (sst_name nid) then None else map_of d f)" for f
    using w by (auto simp: table_written_def)
  have old: "map_of d' (sr_path x) = Some (sr_file x) \<and> sst_open H (sr_path x) (sr_file x) = Inr x" if "x \<in> set rs" for x
    using d(1) n(2,3) [OF that] that sst_name_facts(3) unfolding dir_ok_def by (auto simp: m)
  have "f \<in> sst_name ` set (ids @ [nid])" if "is_sst f" "map_of d' f \<noteq> None" for f
    using d(1) that unfolding dir_ok_def by (auto simp: m split: if_splits)
  moreover have "distinct (map fst d')" using d(1) w by (simp add: dir_ok_def table_written_def)
  ultimately show ?thesis
    using d old r m unfolding dir_ok_def by (auto simp: sorted_wrt_append)
qed

lemma flush_table_ok:
  assumes v: "lsm_view H L ess ws m p" and H: "host_ok H" and ne: "mt_len (l_mem L) \<noteq> 0"
    and id: "l_next_id L < 10 ^ 8"
  shows "\<exists>L' es. flush_table H L = (Inr (), L') \<and> l_wal L' = l_wal L \<and>
     l_imm L' = Some (l_mem L) \<and> l_mem L' = mt_new (l_mem_bytes L) \<and>
     l_mem_bytes L' = l_mem_bytes L \<and> l_next_id L' = l_next_id L + 1 \<and>
     length (l_readers L') = length (l_readers L) + 1 \<and>
     lsm_view H (L'\<lparr>l_imm := None\<rparr>) (ess @ [es]) ws (length ws) (length ws)"
proof -
  from v have mem: "mem_holds (l_mem L) (drop m ws)" and h: "hist_ok ws" and t: "tables_ok H (l_readers L) ess"
    and sub: "\<forall>es \<in> set ess. set es \<subseteq> set (take p ws)"
    and lay: "\<And>k. vis (layers ess) k = vis (rawmap (take p ws)) k" and mp: "m \<le> p"
    by (auto simp: lsm_view_def)
  from v obtain ids nid where d: "dir_ok H (l_dir L) (l_readers L) ids" "\<forall>i \<in> set ids. i < nid"
    "l_next_id L = int nid" by (auto simp: lsm_view_def)
  let ?es = "mt_sorted_entries (l_mem L)"
  note E = mem_entries [OF mem]
  have ne': "?es \<noteq> []" using E(4) ne by simp
  have s: "set ?es \<subseteq> set ws" using E(3) by (auto dest: in_set_dropD)
  have nid: "nid < 10 ^ 8" using id d(3) by simp
  have pa: "sst_path (l_next_id L) = sst_name nid" by (simp add: d(3) sst_path_nat)
  obtain d' img r where w: "write_table H (sst_name nid) ?es (l_dir L) = (Inr (), d')"
      "table_written (sst_name nid) (Some img) (l_dir L) d'"
      "sst_open H (sst_name nid) img = Inr r" "table_of H r ?es" "sr_path r = sst_name nid" "sr_file r = img"
    using write_table_nonempty [OF ne' run_ok_of_history(1) [OF h E(1) s] H] by blast
  have op: "open_reader H (sst_name nid) d' = Inr r"
    using w(2,3) by (simp add: open_reader_def table_written_def)
  let ?L = "L\<lparr>l_imm := Some (l_mem L), l_mem := mt_new (l_mem_bytes L), l_next_id := l_next_id L + 1,
     l_dir := d', l_readers := l_readers L @ [r]\<rparr>"
  have f: "flush_table H L = (Inr (), ?L)"
    using w(1) op by (simp add: flush_table_def pa Let_def)
  have "sr_min_key r \<noteq> []"
    using run_ok_of_history(2) [OF h E(1) s ne'] w(4) by (simp add: table_of_def)
  with t w(4) have t': "tables_ok H (l_readers ?L) (ess @ [?es])"
    by (simp add: tables_ok_def list_all2_appendI)
  have "vis (layers (ess @ [?es])) k = vis (rawmap ws) k" for k
  proof (cases "rawmap (drop m ws) k")
    case None
    then have "vis (layers (ess @ [?es])) k = vis (layers ess) k"
      by (simp add: vis_def map_add_def E(2))
    also have "\<dots> = vis (rawmap ws) k" by (rule view_layers [OF v None])
    finally show ?thesis .
  next
    case (Some x)
    with rawmap_drop [OF Some] show ?thesis by (simp add: vis_def map_add_def E(2))
  qed
  moreover have "\<forall>es \<in> set (ess @ [?es]). set es \<subseteq> set (take (length ws) ws)"
    using sub s by (auto dest: in_set_takeD)
  moreover have "dir_ok H d' (l_readers L @ [r]) (ids @ [nid])"
    by (rule dir_ok_add [OF d(1,2) nid w(2,3,5,6)])
  moreover have "l_next_id L + 1 = int (nid + 1)" "\<forall>i \<in> set (ids @ [nid]). i < nid + 1"
    using d(2,3) by auto
  ultimately have "lsm_view H (?L\<lparr>l_imm := None\<rparr>) (ess @ [?es]) ws (length ws) (length ws)"
    using h t' mem_holds_new unfolding lsm_view_def
    by (auto intro!: exI [of _ "ids @ [nid]"] exI [of _ "Suc nid"])
  with f show ?thesis by (intro exI [of _ ?L] exI [of _ ?es]) simp
qed

section \<open>Compaction\<close>

lemma fold_delete:
  "map_of (foldl (\<lambda>d r. AList.delete (sr_path r) d) d rs) f = (if f \<in> sr_path ` set rs then None else map_of d f)"
  "distinct (map fst d) \<Longrightarrow> distinct (map fst (foldl (\<lambda>d r. AList.delete (sr_path r) d) d rs))"
  by (induction rs arbitrary: d) (auto simp: delete_conv' distinct_delete)

lemma remove_each_conv:
  "remove_each rs d = map (\<lambda>j. foldl (\<lambda>d r. AList.delete (sr_path r) d) d (take j rs)) [0..<Suc (length rs)]"
proof (induction rs arbitrary: d)
  case (Cons r rs)
  have "[0..<Suc (length (r # rs))] = 0 # map Suc [0..<Suc (length rs)]"
    by (simp add: map_Suc_upt upt_conv_Cons del: upt_Suc)
  then show ?case using Cons.IH by (simp add: comp_def del: upt_Suc)
qed simp

lemma removal_dirs:
  "d' \<in> set (removal_dirs L) \<longleftrightarrow>
     (\<exists>j \<le> length (l_readers L). d' = foldl (\<lambda>d r. AList.delete (sr_path r) d) (l_dir L) (take j (l_readers L)))"
  "last (removal_dirs L) = foldl (\<lambda>d r. AList.delete (sr_path r) d) (l_dir L) (l_readers L)"
  by (auto simp: removal_dirs_def remove_each_conv less_Suc_eq_le simp del: upt_Suc) (simp add: last_map)

lemma tables_runs:
  assumes "tables_ok H rs ess"
  shows "rmap sst_iter_all rs = Inr ess" "list_all strict_keys ess" "length rs = length ess"
proof -
  have "list_all2 (\<lambda>r es. sst_iter_all r = Inr es) rs ess" "list_all2 (\<lambda>r es. strict_keys es) rs ess"
    using assms unfolding tables_ok_def by (auto elim!: list_all2_mono simp: table_iter_all table_of_sorted)
  then show "rmap sst_iter_all rs = Inr ess" "list_all strict_keys ess" "length rs = length ess"
    by (auto intro: rmap_Inr simp: list_all2_conv_all_nth list_all_length)
qed

text \<open>Removing the oldest tables from the directory.\<close>

lemma dir_ok_drop:
  assumes "dir_ok H d (rs @ rs') ids"
  shows "dir_ok H (foldl (\<lambda>d r. AList.delete (sr_path r) d) d rs) rs' (drop (length rs) ids)"
proof -
  let ?n = "length rs" and ?d = "foldl (\<lambda>d r. AList.delete (sr_path r) d) d rs"
  have m: "map sr_path rs @ map sr_path rs' = map sst_name ids"
    and s: "sorted_wrt (<) ids"
    and o: "\<forall>r \<in> set rs'. map_of d (sr_path r) = Some (sr_file r) \<and> sst_open H (sr_path r) (sr_file r) = Inr r"
    and n: "\<forall>f. is_sst f \<longrightarrow> map_of d f \<noteq> None \<longrightarrow> f \<in> sst_name ` set ids"
    and dd: "distinct (map fst d)" and b: "\<forall>i \<in> set ids. i < 10 ^ 8"
    using assms by (auto simp: dir_ok_def)
  have old: "map sr_path rs = map sst_name (take ?n ids)" "map sr_path rs' = map sst_name (drop ?n ids)"
    using m by (metis append_eq_conv_conj length_map take_map, metis append_eq_conv_conj length_map drop_map)
  have rm: "sr_path ` set rs = sst_name ` set (take ?n ids)" using old(1) by (metis list.set_map)
  have ids: "set ids = set (take ?n ids) \<union> set (drop ?n ids)" by (metis append_take_drop_id set_append)
  have "set (take ?n ids) \<inter> set (drop ?n ids) = {}"
    using s by (intro set_take_disj_set_drop_if_distinct) (simp_all add: strict_sorted_iff)
  moreover have "sr_path r \<in> sst_name ` set (drop ?n ids)" if "r \<in> set rs'" for r
    using old(2) that by (metis image_eqI list.set_map)
  ultimately have keep: "sr_path r \<notin> sr_path ` set rs" if "r \<in> set rs'" for r
    unfolding rm using that by fastforce
  have "\<forall>f. is_sst f \<longrightarrow> map_of ?d f \<noteq> None \<longrightarrow> f \<in> sst_name ` set (drop ?n ids)"
    using n ids unfolding fold_delete(1) rm by (auto split: if_splits)
  moreover have "\<forall>r \<in> set rs'. map_of ?d (sr_path r) = Some (sr_file r) \<and> sst_open H (sr_path r) (sr_file r) = Inr r"
    using o keep by (simp add: fold_delete(1))
  ultimately show ?thesis
    using old(2) fold_delete(2) [OF dd] s b sorted_wrt_drop [OF s] unfolding dir_ok_def
    by (auto dest: in_set_dropD)
qed

text \<open>
  The table a compaction writes, if any, and the directory with some of the oldest tables
  removed: the reads are those before.
\<close>

definition merged_view :: "host \<Rightarrow> lsm \<Rightarrow> (bytes \<times> bytes) list list \<Rightarrow> history \<Rightarrow> nat \<Rightarrow> dir \<Rightarrow> nat \<Rightarrow> sst_reader list \<Rightarrow> bool" where
  "merged_view H L ess ws p d j new \<longleftrightarrow>
     (\<exists>ids nid ess'. dir_ok H (foldl (\<lambda>d r. AList.delete (sr_path r) d) d (take j (l_readers L)))
         (drop j (l_readers L) @ new) ids \<and> l_next_id L + 1 = int nid \<and> (\<forall>i \<in> set ids. i < nid) \<and>
       tables_ok H (drop j (l_readers L) @ new) ess' \<and> (\<forall>es \<in> set ess'. set es \<subseteq> set (take p ws)) \<and>
       (\<forall>k. vis (layers ess') k = vis (rawmap (take p ws)) k))"

lemma layers_merged:
  assumes "\<And>k. map_of es k = vis (layers ess) k"
  shows "vis (layers (drop j ess @ [es])) k = vis (layers ess) k"
proof -
  have l: "layers ess k = (layers (take j ess) ++ layers (drop j ess)) k" by (simp flip: layers_append)
  show ?thesis
  proof (cases "map_of es k")
    case (Some v)
    then have "layers ess k = Some v" "live v = Some v"
      using assms [of k] by (auto simp: vis_def live_def Option.bind_eq_Some_conv split: if_splits)
    with Some show ?thesis by (simp add: vis_def)
  next
    case None
    then have "vis (layers ess) k = None" using assms by simp
    then show ?thesis using None l
      by (cases "layers (drop j ess) k") (simp_all add: vis_def map_add_def)
  qed
qed

lemma compact_table:
  assumes v: "lsm_view H L ess ws m p" and H: "host_ok H" and id: "l_next_id L < 10 ^ 8"
  obtains d' new where "write_table H (sst_path (l_next_id L)) (merge_runs ess) (l_dir L) = (Inr (), d')"
    "new = [] \<and> map_of d' (sst_path (l_next_id L)) = None \<or>
     (\<exists>r. new = [r] \<and> sr_path r = sst_path (l_next_id L) \<and> open_reader H (sst_path (l_next_id L)) d' = Inr r)"
    "\<And>r. r \<in> set (l_readers L) \<Longrightarrow> sr_path r \<noteq> sst_path (l_next_id L)"
    "\<And>j. merged_view H L ess ws p d' j new"
proof -
  from v have h: "hist_ok ws" and t: "tables_ok H (l_readers L) ess"
    and sub: "\<forall>es \<in> set ess. set es \<subseteq> set (take p ws)"
    and lay: "\<And>k. vis (layers ess) k = vis (rawmap (take p ws)) k"
    by (auto simp: lsm_view_def)
  from v obtain ids nid where d: "dir_ok H (l_dir L) (l_readers L) ids" "\<forall>i \<in> set ids. i < nid"
    "l_next_id L = int nid" by (auto simp: lsm_view_def)
  note R = tables_runs [OF t] and n = dir_ok_next [OF d(1,2)]
  let ?es = "merge_runs ess"
  have es: "strict_keys ?es" by (rule merge_runs_spec(1) [OF R(2)])
  have s: "set ?es \<subseteq> set (take p ws)" using merge_runs_in [OF R(2)] sub by fastforce
  then have sw: "set ?es \<subseteq> set ws" by (auto dest: in_set_takeD)
  have vm: "map_of ?es k = vis (layers ess) k" for k
    by (simp add: vis_def merge_runs_spec(2) [OF R(2)])
  have nid: "nid < 10 ^ 8" using id d(3) by simp
  have pa: "sst_path (l_next_id L) = sst_name nid" by (simp add: d(3) sst_path_nat)
  have dj: "tables_ok H (drop j (l_readers L)) (drop j ess)" "\<forall>es \<in> set (drop j ess). set es \<subseteq> set (take p ws)" for j
    using t sub by (auto simp: tables_ok_def list_all2_dropI dest: in_set_dropD)
  show ?thesis
  proof (cases "?es = []")
    case True
    obtain d' where w: "write_table H (sst_name nid) [] (l_dir L) = (Inr (), d')"
        "\<forall>f. map_of d' f = (if f = temp_path (sst_name nid) then None else map_of (l_dir L) f)"
        "distinct (map fst (l_dir L)) \<longrightarrow> distinct (map fst d')"
      using write_table_empty [OF H] by blast
    have same: "map_of d' f = map_of (l_dir L) f" if "is_sst f" for f
      using w(2) that sst_name_facts(3) by metis
    have "dir_ok H d' (l_readers L) ids"
      using d(1) same n(3) w(3) unfolding dir_ok_def by auto
    then have dir: "dir_ok H (foldl (\<lambda>d r. AList.delete (sr_path r) d) d' (take j (l_readers L)))
        (drop j (l_readers L)) (drop (length (take j (l_readers L))) ids)" for j
      by (intro dir_ok_drop) simp
    have vj: "vis (layers (drop j ess)) k = vis (rawmap (take p ws)) k" for j k
      using layers_merged [OF vm, of j k] lay True by (simp add: vis_def)
    have "merged_view H L ess ws p d' j []" for j
      unfolding merged_view_def using dir [of j] dj [of j] vj [of j] d(2,3)
      by (intro exI [of _ "drop (length (take j (l_readers L))) ids"] exI [of _ "Suc nid"] exI [of _ "drop j ess"])
        (auto dest!: in_set_dropD)
    then show ?thesis
      using w(1) n(1) same [of "sst_name nid"] n(2) by (intro that [of d' "[]"]) (simp_all add: pa True)
  next
    case False
    obtain d' img r where w: "write_table H (sst_name nid) ?es (l_dir L) = (Inr (), d')"
        "table_written (sst_name nid) (Some img) (l_dir L) d'"
        "sst_open H (sst_name nid) img = Inr r" "table_of H r ?es" "sr_path r = sst_name nid" "sr_file r = img"
      using write_table_nonempty [OF False run_ok_of_history(1) [OF h es sw] H] by blast
    have op: "open_reader H (sst_name nid) d' = Inr r" using w(2,3) by (simp add: open_reader_def table_written_def)
    have "dir_ok H d' (l_readers L @ [r]) (ids @ [nid])"
      by (rule dir_ok_add [OF d(1,2) nid w(2,3,5,6)])
    then have dir: "dir_ok H (foldl (\<lambda>d r. AList.delete (sr_path r) d) d' (take j (l_readers L)))
        (drop j (l_readers L) @ [r]) (drop (length (take j (l_readers L))) (ids @ [nid]))" for j
      by (intro dir_ok_drop) (simp flip: append_assoc)
    have "sr_min_key r \<noteq> []"
      using w(4) run_ok_of_history(2) [OF h es sw False] by (simp add: table_of_def)
    then have tj: "tables_ok H (drop j (l_readers L) @ [r]) (drop j ess @ [?es])" for j
      using dj(1) w(4) by (simp add: tables_ok_def list_all2_appendI)
    have vj: "vis (layers (drop j ess @ [?es])) k = vis (rawmap (take p ws)) k" for j k
      using layers_merged [OF vm] lay by metis
    have "merged_view H L ess ws p d' j [r]" for j
      unfolding merged_view_def using dir [of j] tj [of j] dj(2) [of j] vj [of j] d(2,3) s
      by (intro exI [of _ "drop (length (take j (l_readers L))) (ids @ [nid])"] exI [of _ "Suc nid"]
          exI [of _ "drop j ess @ [?es]"]) (auto dest!: in_set_dropD intro: less_SucI simp del: drop_append)
    then show ?thesis
      using w(1,5) n(2) op by (intro that [of d' "[r]"]) (simp_all add: pa)
  qed
qed

text \<open>
  The outcome of a compaction: the same reads from one table or none, and the segments of the
  log before the current one are gone.
\<close>

lemma lsm_compact_ok:
  assumes v: "lsm_view H L ess ws m p" and H: "host_ok H" and id: "l_next_id L < 10 ^ 8"
    and two: "2 \<le> length (l_readers L)"
  shows "\<exists>L' ess'. lsm_compact H L = (Inr (), L') \<and> lsm_view H L' ess' ws m p \<and>
     l_wal L' = snd (wal_purge_before (w_seq (l_wal L)) (l_wal L)) \<and> l_mem L' = l_mem L \<and>
     l_mem_bytes L' = l_mem_bytes L \<and> l_next_id L' = l_next_id L + 1"
proof -
  let ?path = "sst_path (l_next_id L)"
  have t: "tables_ok H (l_readers L) ess" using v by (simp add: lsm_view_def)
  obtain d' new where c: "write_table H ?path (merge_runs ess) (l_dir L) = (Inr (), d')"
    "new = [] \<and> map_of d' ?path = None \<or>
     (\<exists>r. new = [r] \<and> sr_path r = ?path \<and> open_reader H ?path d' = Inr r)"
    "\<And>r. r \<in> set (l_readers L) \<Longrightarrow> sr_path r \<noteq> ?path" "\<And>j. merged_view H L ess ws p d' j new"
    using compact_table [OF v H id] by blast
  let ?d = "foldl (\<lambda>d r. AList.delete (sr_path r) d) d' (l_readers L)"
  let ?L = "L\<lparr>l_next_id := l_next_id L + 1, l_readers := new, l_dir := ?d,
      l_wal := snd (wal_purge_before (w_seq (l_wal L)) (l_wal L))\<rparr>"
  have "?path \<notin> sr_path ` set (l_readers L)" using c(3) by fastforce
  then have own: "map_of ?d ?path = map_of d' ?path" by (simp add: fold_delete(1))
  have "lsm_compact H L = (Inr (), ?L)"
    using c(1,2) two tables_runs(1) [OF t]
    by (auto simp: lsm_compact_def compact_write_def bnd_def replace_tables_def removal_dirs dir_keys own open_reader_def Let_def split: option.splits)
  moreover obtain ess' where "lsm_view H ?L ess' ws m p"
    using v c(4) [of "length (l_readers L)"] unfolding lsm_view_def merged_view_def by auto
  ultimately show ?thesis by (intro exI [of _ ?L] exI [of _ ess']) simp
qed

section \<open>The log of the tree\<close>

text \<open>
  The log holds the writes from position \<open>o \<le> m\<close> of the history on, and everything not in
  the tables is in its last segment's buffer or on disk.
\<close>

definition durable :: "segments \<Rightarrow> history \<Rightarrow> nat \<Rightarrow> nat \<Rightarrow> nat \<Rightarrow> bool" where
  "durable segs ws b m p \<longleftrightarrow>
     b \<le> m \<and> fr_writes (seg_frames segs) = drop b ws \<and>
     p \<le> b + length (fr_writes (seg_frames (butlast segs)))"

definition lsm_inv ::
  "host \<Rightarrow> lsm \<Rightarrow> (bytes \<times> bytes) list list \<Rightarrow> segments \<Rightarrow> history \<Rightarrow> nat \<Rightarrow> nat \<Rightarrow> bool" where
  "lsm_inv H L ess segs ws m p \<longleftrightarrow> lsm_view H L ess ws m p \<and> wal_ok (l_wal L) segs"

text \<open>Room for the counters: one operation takes at most two numbers of each kind.\<close>

definition room :: "lsm \<Rightarrow> nat \<Rightarrow> bool" where
  "room L n \<longleftrightarrow> w_next_lsn (l_wal L) + n < 2 ^ 64 \<and> w_seq (l_wal L) + 2 * int n < 10 ^ 8 \<and>
     l_next_id L + 2 * int n < 10 ^ 8"

lemma view_write:
  assumes "lsm_view H L ess ws m p" "hist_ok (ws @ [(k, v)])"
  shows "lsm_view H (L\<lparr>l_wal := w, l_mem := mt_put k v (l_mem L)\<rparr>) ess (ws @ [(k, v)]) m p"
proof -
  have "mem_holds (mt_put k v (l_mem L)) (drop m (ws @ [(k, v)]))"
    using assms(1) mem_holds_put by (auto simp: lsm_view_def)
  with assms show ?thesis unfolding lsm_view_def by auto
qed

lemma update_nonempty: "AList.update k v d \<noteq> []"
  by (cases d) auto

lemma write_step:
  assumes i: "lsm_inv H L ess segs ws m p" and h: "hist_ok (ws @ [(k, v)])" and r: "room L (Suc n)"
    and op: "op = SET \<or> op = DEL \<and> v = TOMBSTONE"
  shows "\<exists>L' segs'. sq (on_wal (wal_append op k v None)) (\<lambda>L. (Inr (), L\<lparr>l_mem := mt_put k v (l_mem L)\<rparr>)) L = (Inr (), L') \<and>
     lsm_inv H L' ess segs' (ws @ [(k, v)]) m p \<and>
     (\<forall>b. durable segs ws b m p \<longrightarrow> durable segs' (ws @ [(k, v)]) b m p) \<and>
     w_next_lsn (l_wal L') = w_next_lsn (l_wal L) + 1 \<and> w_seq (l_wal L') \<le> w_seq (l_wal L) + 1 \<and>
     l_next_id L' = l_next_id L \<and> l_mem_bytes L' = l_mem_bytes L \<and>
     w_sync_mode (l_wal L') = w_sync_mode (l_wal L) \<and>
     (w_sync_mode (l_wal L) = Always \<longrightarrow> w_pending (l_wal L') = []) \<and>
     l_readers L' = l_readers L \<and> mt_len (l_mem L') \<noteq> 0 \<and>
     w_max_file_size (l_wal L') = w_max_file_size (l_wal L) \<and>
     (w_max_file_size (l_wal L) \<le> length v \<longrightarrow> snd (last segs') = []) \<and>
     l_mem L' = mt_put k v (l_mem L)"
proof -
  from i have v: "lsm_view H L ess ws m p" and w: "wal_ok (l_wal L) segs" by (auto simp: lsm_inv_def)
  obtain segs0 q fs where s: "segs = segs0 @ [(q, fs)]" and seq: "w_seq (l_wal L) = int q"
    using w by (rule wal_okE)
  have e: "entry_ok (k, v)" using h by (auto simp: hist_ok_def)
  have q: "q + 1 < 10 ^ 8" using r seq by (simp add: room_def)
  have sz: "w_next_lsn (l_wal L) < 2 ^ 64" "length k < 2 ^ 32" "length v < 2 ^ 32"
    using r e by (simp_all add: room_def entry_ok_def)
  obtain ts w' where a: "wal_append op k v None (l_wal L) = (Inr (w_next_lsn (l_wal L)), w')"
    "wal_ok w' (next_segs (w_max_file_size (l_wal L)) segs0 q (fs @ [mk_frame (w_next_lsn (l_wal L)) ts op k v]))"
    "w_next_lsn w' = w_next_lsn (l_wal L) + 1" "w_max_file_size w' = w_max_file_size (l_wal L)"
    "w_sync_mode w' = w_sync_mode (l_wal L)" "w_sync_mode (l_wal L) = Always \<Longrightarrow> w_pending w' = []"
    using wal_append_ok [OF w [unfolded s] sz q, of op None] by blast
  let ?f = "mk_frame (w_next_lsn (l_wal L)) ts op k v"
  let ?segs = "next_segs (w_max_file_size (l_wal L)) segs0 q (fs @ [?f])"
  let ?L = "L\<lparr>l_wal := w', l_mem := mt_put k v (l_mem L)\<rparr>"
  have wr: "fr_write ?f = [(k, v)]" using op by (auto simp: fr_write_def mk_frame_def)
  have "durable ?segs (ws @ [(k, v)]) b m p" if "durable segs ws b m p" for b
    using that v wr by (auto simp: durable_def s next_segs_def butlast_append lsm_view_def)
  moreover have "w_seq w' \<le> w_seq (l_wal L) + 1"
    using a(2) by (auto simp: wal_ok_def next_segs_def seq split: if_splits)
  moreover have "lsm_inv H ?L ess ?segs (ws @ [(k, v)]) m p"
    using view_write [OF v h] a(2) by (simp add: lsm_inv_def)
  moreover have "sq (on_wal (wal_append op k v None)) (\<lambda>L. (Inr (), L\<lparr>l_mem := mt_put k v (l_mem L)\<rparr>)) L = (Inr (), ?L)"
    using a(1) by (simp add: sq_def bnd_def on_wal_def)
  moreover have "mt_len (l_mem ?L) \<noteq> 0" by (simp add: mt_len_def mt_put_def Let_def update_nonempty)
  moreover have "w_max_file_size (l_wal L) \<le> length v \<longrightarrow> snd (last ?segs) = []"
    by (simp add: next_segs_def length_frame_bytes mk_frame_def)
  ultimately show ?thesis using a(3-6) by (intro exI [of _ ?L] exI [of _ ?segs]) simp
qed

text \<open>A record of the log that is no write (the markers of a transaction).\<close>

lemma mark_step:
  assumes i: "lsm_inv H L ess segs ws m p" and r: "room L (Suc n)"
    and op: "op \<noteq> SET" "op \<noteq> DEL" and k: "length k < 2 ^ 32"
  shows "\<exists>w segs'. on_wal (wal_append op k [] None) L = (Inr (w_next_lsn (l_wal L)), L\<lparr>l_wal := w\<rparr>) \<and>
     lsm_inv H (L\<lparr>l_wal := w\<rparr>) ess segs' ws m p \<and>
     (\<forall>b. durable segs ws b m p \<longrightarrow> durable segs' ws b m p) \<and>
     w_next_lsn w = w_next_lsn (l_wal L) + 1 \<and> w_seq w \<le> w_seq (l_wal L) + 1 \<and>
     w_sync_mode w = w_sync_mode (l_wal L) \<and> (w_sync_mode (l_wal L) = Always \<longrightarrow> w_pending w = [])"
proof -
  from i have v: "lsm_view H L ess ws m p" and w: "wal_ok (l_wal L) segs" by (auto simp: lsm_inv_def)
  obtain segs0 q fs where s: "segs = segs0 @ [(q, fs)]" and seq: "w_seq (l_wal L) = int q"
    using w by (rule wal_okE)
  have q: "q + 1 < 10 ^ 8" and sz: "w_next_lsn (l_wal L) < 2 ^ 64" "length k < 2 ^ 32" "length ([] :: bytes) < 2 ^ 32"
    using r seq k by (simp_all add: room_def)
  obtain ts w' where a: "wal_append op k [] None (l_wal L) = (Inr (w_next_lsn (l_wal L)), w')"
    "wal_ok w' (next_segs (w_max_file_size (l_wal L)) segs0 q (fs @ [mk_frame (w_next_lsn (l_wal L)) ts op k []]))"
    "w_next_lsn w' = w_next_lsn (l_wal L) + 1" "w_sync_mode w' = w_sync_mode (l_wal L)"
    "w_sync_mode (l_wal L) = Always \<Longrightarrow> w_pending w' = []"
    using wal_append_ok [OF w [unfolded s] sz q, of op None] by blast
  let ?f = "mk_frame (w_next_lsn (l_wal L)) ts op k []"
  let ?segs = "next_segs (w_max_file_size (l_wal L)) segs0 q (fs @ [?f])"
  have wr: "fr_write ?f = []" using op by (auto simp: fr_write_def mk_frame_def)
  have "durable ?segs ws b m p" if "durable segs ws b m p" for b
    using that v wr by (auto simp: durable_def s next_segs_def butlast_append lsm_view_def)
  moreover have "w_seq w' \<le> w_seq (l_wal L) + 1"
    using a(2) by (auto simp: wal_ok_def next_segs_def seq split: if_splits)
  moreover have "lsm_inv H (L\<lparr>l_wal := w'\<rparr>) ess ?segs ws m p"
    using v a(2) by (simp add: lsm_inv_def lsm_view_def)
  moreover have "on_wal (wal_append op k [] None) L = (Inr (w_next_lsn (l_wal L)), L\<lparr>l_wal := w'\<rparr>)"
    using a(1) by (simp add: on_wal_def)
  ultimately show ?thesis using a(3-5) by (intro exI [of _ w'] exI [of _ ?segs]) simp
qed

text \<open>A flush with its possible compaction: the reads do not change, nothing durable is lost.\<close>

lemma purge_segs:
  assumes "wal_ok w segs"
  shows "wal_ok (snd (wal_purge_before (w_seq w) w)) [last segs]"
  using assms
proof (rule wal_okE)
  fix segs' q fs assume "segs = segs' @ [(q, fs)]"
  with assms wal_ok_purge [of w segs' q fs] show ?thesis by simp
qed

lemma purge_fields:
  "w_next_lsn (snd (wal_purge_before s w)) = w_next_lsn w" "w_seq (snd (wal_purge_before s w)) = w_seq w"
  "w_sync_mode (snd (wal_purge_before s w)) = w_sync_mode w"
  "w_pending (snd (wal_purge_before s w)) = w_pending w"
  "w_max_file_size (snd (wal_purge_before s w)) = w_max_file_size w"
  by (simp_all add: wal_purge_before_def)

lemma rotate_fields:
  "w_next_lsn (wal_rotate w) = w_next_lsn w" "w_seq (wal_rotate w) = w_seq w + 1"
  "w_sync_mode (wal_rotate w) = w_sync_mode w" "w_pending (wal_rotate w) = []"
  "w_max_file_size (wal_rotate w) = w_max_file_size w"
  by (simp_all add: wal_rotate_def open_append_def Let_def)

lemma compact_step:
  assumes i: "lsm_inv H L ess segs ws m p" and H: "host_ok H" and id: "l_next_id L < 10 ^ 8"
  shows "\<exists>L' ess' segs'. lsm_compact H L = (Inr (), L') \<and> lsm_inv H L' ess' segs' ws m p \<and>
     (\<forall>b. durable segs ws b m p \<longrightarrow> b + length (fr_writes (seg_frames (butlast segs))) \<le> m \<longrightarrow>
        (\<exists>b'. durable segs' ws b' m p)) \<and>
     w_next_lsn (l_wal L') = w_next_lsn (l_wal L) \<and> w_seq (l_wal L') = w_seq (l_wal L) \<and>
     l_next_id L' \<le> l_next_id L + 1 \<and> w_sync_mode (l_wal L') = w_sync_mode (l_wal L) \<and>
     w_pending (l_wal L') = w_pending (l_wal L) \<and> w_max_file_size (l_wal L') = w_max_file_size (l_wal L) \<and>
     l_mem L' = l_mem L \<and> l_mem_bytes L' = l_mem_bytes L"
proof (cases "2 \<le> length (l_readers L)")
  case False
  then have "lsm_compact H L = (Inr (), L)" by (simp add: lsm_compact_def)
  then show ?thesis using i by (intro exI [of _ L] exI [of _ ess] exI [of _ segs]) auto
next
  case True
  from i have v: "lsm_view H L ess ws m p" and w: "wal_ok (l_wal L) segs" by (auto simp: lsm_inv_def)
  obtain L' ess' where c: "lsm_compact H L = (Inr (), L')" "lsm_view H L' ess' ws m p"
     "l_wal L' = snd (wal_purge_before (w_seq (l_wal L)) (l_wal L))" "l_next_id L' = l_next_id L + 1"
     "l_mem L' = l_mem L" "l_mem_bytes L' = l_mem_bytes L"
    using lsm_compact_ok [OF v H id True] by blast
  have "wal_ok (l_wal L') [last segs]" using purge_segs [OF w] c(3) by simp
  moreover have "durable [last segs] ws (b + length (fr_writes (seg_frames (butlast segs)))) m p"
    if d: "durable segs ws b m p" "b + length (fr_writes (seg_frames (butlast segs))) \<le> m" for b
  proof -
    have "segs \<noteq> []" using w by (simp add: wal_ok_def)
    then have s: "seg_frames segs = seg_frames (butlast segs) @ seg_frames [last segs]"
      by (metis append_butlast_last_id seg_frames_simps(3))
    have "fr_writes (seg_frames [last segs]) = drop (length (fr_writes (seg_frames (butlast segs)))) (drop b ws)"
      using d(1) unfolding durable_def s fr_writes_simps by (metis append_eq_conv_conj)
    with d show ?thesis by (auto simp: durable_def add.commute)
  qed
  ultimately show ?thesis
    using c by (intro exI [of _ L'] exI [of _ ess'] exI [of _ "[last segs]"])
      (auto simp: lsm_inv_def purge_fields)
qed

lemma flush_step:
  assumes i: "lsm_inv H L ess segs ws m p" and H: "host_ok H"
    and r: "w_seq (l_wal L) + 1 < 10 ^ 8" "l_next_id L + 1 < 10 ^ 8"
  shows "\<exists>L' ess' segs' m' p'. lsm_flush_memtable H L = (Inr (), L') \<and> lsm_inv H L' ess' segs' ws m' p' \<and>
     (\<forall>b. durable segs ws b m p \<longrightarrow> (\<exists>b'. durable segs' ws b' m' p')) \<and>
     w_next_lsn (l_wal L') = w_next_lsn (l_wal L) \<and> w_seq (l_wal L') \<le> w_seq (l_wal L) + 1 \<and>
     l_next_id L' \<le> l_next_id L + 2 \<and> w_sync_mode (l_wal L') = w_sync_mode (l_wal L) \<and>
     m' = length ws \<and> (mt_len (l_mem L) \<noteq> 0 \<longrightarrow> p' = length ws) \<and>
     (w_pending (l_wal L) = [] \<longrightarrow> w_pending (l_wal L') = []) \<and>
     w_max_file_size (l_wal L') = w_max_file_size (l_wal L) \<and>
     (mt_len (l_mem L) \<noteq> 0 \<and> length (l_readers L) < 3 \<longrightarrow> length (l_readers L') = length (l_readers L) + 1) \<and>
     (mt_len (l_mem L) \<noteq> 0 \<longrightarrow> l_mem L' = mt_new (l_mem_bytes L)) \<and> l_mem_bytes L' = l_mem_bytes L"
proof (cases "mt_len (l_mem L) = 0")
  case True
  then have "lsm_flush_memtable H L = (Inr (), L)" by (simp add: lsm_flush_memtable_def)
  moreover have "m = length ws"
    using i True mem_holds_empty [of "l_mem L" "drop m ws"] by (auto simp: lsm_inv_def lsm_view_def)
  ultimately show ?thesis using i True
    by (intro exI [of _ L] exI [of _ ess] exI [of _ segs] exI [of _ m] exI [of _ p]) auto
next
  case False
  from i have v: "lsm_view H L ess ws m p" and w: "wal_ok (l_wal L) segs" by (auto simp: lsm_inv_def)
  have id: "l_next_id L < 10 ^ 8" using r by simp
  obtain L1 es where f: "flush_table H L = (Inr (), L1)" "l_wal L1 = l_wal L"
      "l_next_id L1 = l_next_id L + 1" "length (l_readers L1) = length (l_readers L) + 1"
      "l_mem L1 = mt_new (l_mem_bytes L)" "l_mem_bytes L1 = l_mem_bytes L"
      "lsm_view H (L1\<lparr>l_imm := None\<rparr>) (ess @ [es]) ws (length ws) (length ws)"
    using flush_table_ok [OF v H False id] by blast
  define L2 where "L2 = L1\<lparr>l_wal := wal_rotate (l_wal L1), l_imm := None\<rparr>"
  define segs2 where "segs2 = segs @ [(nat (w_seq (l_wal L)) + 1, [])]"
  have "lsm_view H L2 (ess @ [es]) ws (length ws) (length ws)"
    using f(7) by (simp add: L2_def lsm_view_def)
  moreover have "wal_ok (l_wal L2) segs2" using wal_ok_rotate [OF w r(1)] f(2) by (simp add: L2_def segs2_def)
  ultimately have i2: "lsm_inv H L2 (ess @ [es]) segs2 ws (length ws) (length ws)" by (simp add: lsm_inv_def)
  have d2: "durable segs2 ws b (length ws) (length ws)" "b + length (fr_writes (seg_frames (butlast segs2))) = length ws"
    if "durable segs ws b m p" for b
    using that v by (auto simp: durable_def segs2_def lsm_view_def)
  have F: "w_next_lsn (l_wal L2) = w_next_lsn (l_wal L)" "w_seq (l_wal L2) = w_seq (l_wal L) + 1"
    "w_sync_mode (l_wal L2) = w_sync_mode (l_wal L)" "w_pending (l_wal L2) = []" "l_next_id L2 = l_next_id L + 1"
    "w_max_file_size (l_wal L2) = w_max_file_size (l_wal L)" "length (l_readers L2) = length (l_readers L) + 1"
    "l_mem L2 = mt_new (l_mem_bytes L)" "l_mem_bytes L2 = l_mem_bytes L"
    using f(2-6) by (simp_all add: L2_def rotate_fields)
  have id2: "l_next_id L2 < 10 ^ 8" using r F(5) by simp
  have e: "lsm_flush_memtable H L = maybe_compact H L2"
    using False f(1) by (simp add: lsm_flush_memtable_def sq_def bnd_def rotate_log_def L2_def)
  show ?thesis
  proof (cases "4 \<le> length (l_readers L2)")
    case no: False
    then have "lsm_flush_memtable H L = (Inr (), L2)" by (simp add: e maybe_compact_def)
    with i2 d2 F show ?thesis
      by (intro exI [of _ L2] exI [of _ "ess @ [es]"] exI [of _ segs2] exI [of _ "length ws"] exI [of _ "length ws"]) auto
  next
    case True
    obtain L3 ess3 segs3 where c: "lsm_compact H L2 = (Inr (), L3)" "lsm_inv H L3 ess3 segs3 ws (length ws) (length ws)"
      "\<forall>b. durable segs2 ws b (length ws) (length ws) \<longrightarrow>
         b + length (fr_writes (seg_frames (butlast segs2))) \<le> length ws \<longrightarrow> (\<exists>b'. durable segs3 ws b' (length ws) (length ws))"
      "w_next_lsn (l_wal L3) = w_next_lsn (l_wal L2)" "w_seq (l_wal L3) = w_seq (l_wal L2)"
      "l_next_id L3 \<le> l_next_id L2 + 1" "w_sync_mode (l_wal L3) = w_sync_mode (l_wal L2)" "w_pending (l_wal L3) = w_pending (l_wal L2)"
      "w_max_file_size (l_wal L3) = w_max_file_size (l_wal L2)"
      "l_mem L3 = l_mem L2" "l_mem_bytes L3 = l_mem_bytes L2"
      using compact_step [OF i2 H id2] by blast
    have "\<forall>b. durable segs ws b m p \<longrightarrow> (\<exists>b'. durable segs3 ws b' (length ws) (length ws))"
      using c(3) d2 by (metis order_refl)
    with c F e True show ?thesis
      by (intro exI [of _ L3] exI [of _ ess3] exI [of _ segs3] exI [of _ "length ws"] exI [of _ "length ws"])
        (simp add: maybe_compact_def)
  qed
qed

end
