(* ===== verification/LsmRefine.thy ===== *)
theory LsmRefine
  imports LsmSpec
begin

text \<open>
  The LSM tree refines a map. A client program is a list of calls, \<open>Begin\<close> and \<open>Commit\<close> being
  the markers a transaction adds to the log; \<open>spec_op\<close> is what each call means for a finite map from keys to values, and \<open>apply_op\<close> the method. The tree read
  through \<open>get\<close> and \<open>scan\<close> is that map, before and after a restart.
\<close>

datatype lsm_op = Put bytes bytes | Delete bytes | Flush | Compact | Begin | Commit

definition txn_begin_mark :: "(lsm, unit) pym" where
  "txn_begin_mark = sq (on_wal (wal_append TXN_BEGIN ''TXN_START'' [] None)) (ret ())"

definition txn_commit_mark :: "(lsm, unit) pym" where
  "txn_commit_mark =
     sq (on_wal (wal_append TXN_COMMIT ''TXN_COMMIT'' [] None)) (\<lambda>L. (Inr (), L\<lparr>l_wal := wal_sync (l_wal L)\<rparr>))"

fun apply_op :: "host \<Rightarrow> lsm_op \<Rightarrow> (lsm, unit) pym" where
  "apply_op H (Put k v) = lsm_put H k v"
| "apply_op H (Delete k) = lsm_delete H k"
| "apply_op H Flush = lsm_flush H"
| "apply_op H Compact = lsm_compact H"
| "apply_op H Begin = txn_begin_mark"
| "apply_op H Commit = txn_commit_mark"

fun spec_op :: "lsm_op \<Rightarrow> (bytes \<rightharpoonup> bytes) \<Rightarrow> (bytes \<rightharpoonup> bytes)" where
  "spec_op (Put k v) f = f(k := live v)"
| "spec_op (Delete k) f = f(k := None)"
| "spec_op Flush f = f"
| "spec_op Compact f = f"
| "spec_op Begin f = f"
| "spec_op Commit f = f"

definition spec_ops :: "lsm_op list \<Rightarrow> bytes \<rightharpoonup> bytes" where
  "spec_ops ops = fold spec_op ops Map.empty"

fun op_writes :: "lsm_op \<Rightarrow> history" where
  "op_writes (Put k v) = [(k, v)]"
| "op_writes (Delete k) = [(k, TOMBSTONE)]"
| "op_writes Flush = []"
| "op_writes Compact = []"
| "op_writes Begin = []"
| "op_writes Commit = []"

definition writes_of :: "lsm_op list \<Rightarrow> history" where
  "writes_of ops = concat (map op_writes ops)"

lemma writes_of_simps [simp]:
  "writes_of [] = []"
  "writes_of (op # ops) = op_writes op @ writes_of ops"
  "writes_of (xs @ ys) = writes_of xs @ writes_of ys"
  by (simp_all add: writes_of_def)

lemma vis_writes: "vis (rawmap (ws @ op_writes op)) = spec_op op (vis (rawmap ws))"
  by (cases op) (auto simp: vis_def fun_eq_iff live_def)

lemma vis_writes_of: "vis (rawmap (writes_of ops)) = spec_ops ops"
  by (induction ops rule: rev_induct) (simp_all add: spec_ops_def vis_writes flip: rawmap_simps(2),
    simp add: vis_def fun_eq_iff)

text \<open>A prefix of the writes is the writes of a prefix of the calls.\<close>

lemma take_writes: "\<exists>i \<le> length ops. take n (writes_of ops) = writes_of (take i ops) \<and>
   (length (writes_of ops) \<le> n \<longrightarrow> i = length ops)"
proof (induction ops arbitrary: n)
  case (Cons op ops)
  show ?case
  proof (cases "n < length (op_writes op)")
    case True
    then have "take n (writes_of (op # ops)) = []" by (cases op) auto
    with True show ?thesis by (intro exI [of _ 0]) auto
  next
    case False
    obtain i where "i \<le> length ops" "take (n - length (op_writes op)) (writes_of ops) = writes_of (take i ops)"
       "length (writes_of ops) \<le> n - length (op_writes op) \<longrightarrow> i = length ops"
      using Cons.IH by blast
    with False show ?thesis by (intro exI [of _ "Suc i"]) auto
  qed
qed simp

text \<open>
  Programs in which every \<open>compact()\<close> comes when nothing has been written since the last
  \<open>flush()\<close>; \<open>c\<close> tells whether that is so at the start.
\<close>

fun compacts_flushed :: "bool \<Rightarrow> lsm_op list \<Rightarrow> bool" where
  "compacts_flushed c [] = True"
| "compacts_flushed c (op # ops) =
     ((op = Compact \<longrightarrow> c) \<and> compacts_flushed (op = Flush \<or> c \<and> op_writes op = []) ops)"

lemma compacts_flushed_mono: "compacts_flushed c ops \<Longrightarrow> (c \<Longrightarrow> c') \<Longrightarrow> compacts_flushed c' ops"
  by (induction ops arbitrary: c c') (simp, fastforce)

lemma compacts_flushed_none: "Compact \<notin> set ops \<Longrightarrow> compacts_flushed c ops"
  by (induction ops arbitrary: c) auto

lemma compacts_flushed_append:
  "compacts_flushed c ops \<Longrightarrow> Compact \<notin> set ops' \<Longrightarrow> compacts_flushed c (ops @ ops')"
  by (induction ops arbitrary: c) (auto intro: compacts_flushed_none)

lemma compacts_flushed_take: "compacts_flushed c ops \<Longrightarrow> compacts_flushed c (take n ops)"
  by (induction ops arbitrary: c n) (simp, case_tac n, auto)

definition run_ops :: "host \<Rightarrow> lsm_op list \<Rightarrow> (lsm, unit) pym" where
  "run_ops H ops = for_each ops (apply_op H)"

section \<open>One call\<close>

definition keeps :: "lsm \<Rightarrow> lsm \<Rightarrow> nat \<Rightarrow> bool" where
  "keeps L L' n \<longleftrightarrow> room L' n \<and> w_sync_mode (l_wal L') = w_sync_mode (l_wal L) \<and>
     (w_sync_mode (l_wal L) = Always \<and> w_pending (l_wal L) = [] \<longrightarrow> w_pending (l_wal L') = [])"

lemma write_flush_step:
  assumes i: "lsm_inv H L ess segs ws m p" and H: "host_ok H" and h: "hist_ok (ws @ [(k, v)])"
    and r: "room L (Suc n)" and op: "op = SET \<or> op = DEL \<and> v = TOMBSTONE"
  shows "\<exists>L' ess' segs' m' p'. sq (on_wal (wal_append op k v None))
        (sq (\<lambda>L. (Inr (), L\<lparr>l_mem := mt_put k v (l_mem L)\<rparr>)) (lsm_flush_if_full H)) L = (Inr (), L') \<and>
     lsm_inv H L' ess' segs' (ws @ [(k, v)]) m' p' \<and>
     (\<forall>b. durable segs ws b m p \<longrightarrow> (\<exists>b'. durable segs' (ws @ [(k, v)]) b' m' p')) \<and> keeps L L' n"
proof -
  obtain L1 segs1 where s: "sq (on_wal (wal_append op k v None)) (\<lambda>L. (Inr (), L\<lparr>l_mem := mt_put k v (l_mem L)\<rparr>)) L = (Inr (), L1)"
     "lsm_inv H L1 ess segs1 (ws @ [(k, v)]) m p"
     "\<forall>b. durable segs ws b m p \<longrightarrow> durable segs1 (ws @ [(k, v)]) b m p"
     "w_next_lsn (l_wal L1) = w_next_lsn (l_wal L) + 1" "w_seq (l_wal L1) \<le> w_seq (l_wal L) + 1"
     "l_next_id L1 = l_next_id L" "w_sync_mode (l_wal L1) = w_sync_mode (l_wal L)"
     "w_sync_mode (l_wal L) = Always \<longrightarrow> w_pending (l_wal L1) = []"
    using write_step [OF i h r op] by blast
  have e: "sq (on_wal (wal_append op k v None))
        (sq (\<lambda>L. (Inr (), L\<lparr>l_mem := mt_put k v (l_mem L)\<rparr>)) (lsm_flush_if_full H)) L = lsm_flush_if_full H L1"
    using s(1) by (auto simp: sq_def bnd_def split: sum.splits prod.splits)
  have r1: "room L1 n" using r s(4-6) by (simp add: room_def)
  have k1: "keeps L L1 n" using r1 s(7,8) by (simp add: keeps_def)
  show ?thesis
  proof (cases "mt_is_full (l_mem L1)")
    case False
    then show ?thesis
      using e s(2,3) k1 by (intro exI [of _ L1] exI [of _ ess] exI [of _ segs1] exI [of _ m] exI [of _ p])
        (auto simp: lsm_flush_if_full_def)
  next
    case True
    have "w_seq (l_wal L1) + 1 < 10 ^ 8" "l_next_id L1 + 1 < 10 ^ 8"
      using r s(4-6) by (simp_all add: room_def)
    from flush_step [OF s(2) H this] obtain L2 ess2 segs2 m2 p2 where
      f: "lsm_flush_memtable H L1 = (Inr (), L2)" "lsm_inv H L2 ess2 segs2 (ws @ [(k, v)]) m2 p2"
      "\<forall>b. durable segs1 (ws @ [(k, v)]) b m p \<longrightarrow> (\<exists>b'. durable segs2 (ws @ [(k, v)]) b' m2 p2)"
      "w_next_lsn (l_wal L2) = w_next_lsn (l_wal L1)" "w_seq (l_wal L2) \<le> w_seq (l_wal L1) + 1"
      "l_next_id L2 \<le> l_next_id L1 + 2" "w_sync_mode (l_wal L2) = w_sync_mode (l_wal L1)"
      "w_pending (l_wal L1) = [] \<longrightarrow> w_pending (l_wal L2) = []" by blast
    have "room L2 n" using r s(4-6) f(4-6) by (simp add: room_def)
    then have "keeps L L2 n" using s(7,8) f(7,8) by (simp add: keeps_def)
    with e True f(1-3) s(3) show ?thesis
      by (intro exI [of _ L2] exI [of _ ess2] exI [of _ segs2] exI [of _ m2] exI [of _ p2])
        (auto simp: lsm_flush_if_full_def)
  qed
qed

lemma durable_before_last:
  assumes "durable segs ws b m p" "segs \<noteq> []" "m = length ws"
  shows "b + length (fr_writes (seg_frames (butlast segs))) \<le> m"
proof -
  have "seg_frames segs = seg_frames (butlast segs) @ seg_frames [last segs]"
    using assms(2) by (metis append_butlast_last_id seg_frames_simps(3))
  then have "length (fr_writes (seg_frames segs)) \<ge> length (fr_writes (seg_frames (butlast segs)))" by simp
  with assms show ?thesis by (auto simp: durable_def)
qed

text \<open>
  Every call succeeds and keeps the invariant. Every call but an explicit compaction with
  writes in the memtable also keeps the log durable.
\<close>

lemma op_step:
  assumes i: "lsm_inv H L ess segs ws m p" and H: "host_ok H" and h: "hist_ok (ws @ op_writes op)"
    and r: "room L (Suc n)"
  shows "\<exists>L' ess' segs' m' p'. apply_op H op L = (Inr (), L') \<and>
     lsm_inv H L' ess' segs' (ws @ op_writes op) m' p' \<and>
     (op \<noteq> Compact \<or> m = length ws \<longrightarrow>
        (\<forall>b. durable segs ws b m p \<longrightarrow> (\<exists>b'. durable segs' (ws @ op_writes op) b' m' p'))) \<and>
     keeps L L' n \<and> (op \<in> {Flush, Commit} \<longrightarrow> w_pending (l_wal L') = []) \<and>
     (op = Flush \<or> m = length ws \<and> op_writes op = [] \<longrightarrow> m' = length (ws @ op_writes op))"
proof (cases op)
  case (Put k v)
  with write_flush_step [OF i H _ r, of k v SET] h show ?thesis by (auto simp: lsm_put_def)
next
  case (Delete k)
  with write_flush_step [OF i H _ r, of k TOMBSTONE DEL] h show ?thesis
    by (auto simp: lsm_delete_def mt_delete_def)
next
  case Flush
  have "w_seq (l_wal L) + 1 < 10 ^ 8" "l_next_id L + 1 < 10 ^ 8"
    using r by (simp_all add: room_def)
  from flush_step [OF i H this] obtain L1 ess1 segs1 m1 p1 where
    f: "lsm_flush_memtable H L = (Inr (), L1)" "lsm_inv H L1 ess1 segs1 ws m1 p1"
    "\<forall>b. durable segs ws b m p \<longrightarrow> (\<exists>b'. durable segs1 ws b' m1 p1)"
    "w_next_lsn (l_wal L1) = w_next_lsn (l_wal L)" "w_seq (l_wal L1) \<le> w_seq (l_wal L) + 1"
    "l_next_id L1 \<le> l_next_id L + 2" "w_sync_mode (l_wal L1) = w_sync_mode (l_wal L)" "m1 = length ws" by blast
  let ?L = "L1\<lparr>l_wal := wal_sync (l_wal L1)\<rparr>"
  have w: "wal_ok (l_wal L1) segs1" "lsm_view H L1 ess1 ws m1 p1" using f(2) by (auto simp: lsm_inv_def)
  then have "w_pending (l_wal ?L) = []" by (simp add: wal_ok_def wal_sync_pending)
  moreover have "lsm_inv H ?L ess1 segs1 ws m1 p1"
    using w wal_ok_sync by (simp add: lsm_inv_def lsm_view_def)
  moreover have "room ?L n" using r f(4-6) by (simp add: room_def)
  moreover have "apply_op H op L = (Inr (), ?L)"
    using f(1) by (simp add: Flush lsm_flush_def sq_def bnd_def)
  ultimately show ?thesis
    using f(3,7,8)
    by (intro exI [of _ ?L] exI [of _ ess1] exI [of _ segs1] exI [of _ m1] exI [of _ p1])
      (auto simp: Flush keeps_def)
next
  case Begin
  obtain w segs' where b: "on_wal (wal_append TXN_BEGIN ''TXN_START'' [] None) L = (Inr (w_next_lsn (l_wal L)), L\<lparr>l_wal := w\<rparr>)"
     "lsm_inv H (L\<lparr>l_wal := w\<rparr>) ess segs' ws m p"
     "\<forall>b. durable segs ws b m p \<longrightarrow> durable segs' ws b m p"
     "w_next_lsn w = w_next_lsn (l_wal L) + 1" "w_seq w \<le> w_seq (l_wal L) + 1"
     "w_sync_mode w = w_sync_mode (l_wal L)" "w_sync_mode (l_wal L) = Always \<longrightarrow> w_pending w = []"
    using mark_step [OF i r, of TXN_BEGIN "''TXN_START''"] by auto
  have "keeps L (L\<lparr>l_wal := w\<rparr>) n" using r b(4-7) by (simp add: keeps_def room_def)
  with b(1-3) show ?thesis
    by (intro exI [of _ "L\<lparr>l_wal := w\<rparr>"] exI [of _ ess] exI [of _ segs'] exI [of _ m] exI [of _ p])
      (auto simp: Begin txn_begin_mark_def pym_simps)
next
  case Commit
  obtain w segs' where b: "on_wal (wal_append TXN_COMMIT ''TXN_COMMIT'' [] None) L = (Inr (w_next_lsn (l_wal L)), L\<lparr>l_wal := w\<rparr>)"
     "lsm_inv H (L\<lparr>l_wal := w\<rparr>) ess segs' ws m p"
     "\<forall>b. durable segs ws b m p \<longrightarrow> durable segs' ws b m p"
     "w_next_lsn w = w_next_lsn (l_wal L) + 1" "w_seq w \<le> w_seq (l_wal L) + 1"
     "w_sync_mode w = w_sync_mode (l_wal L)" "w_sync_mode (l_wal L) = Always \<longrightarrow> w_pending w = []"
    using mark_step [OF i r, of TXN_COMMIT "''TXN_COMMIT''"] by auto
  let ?L = "L\<lparr>l_wal := wal_sync w\<rparr>"
  have v: "wal_ok w segs'" "lsm_view H (L\<lparr>l_wal := w\<rparr>) ess ws m p" using b(2) by (auto simp: lsm_inv_def)
  then have i2: "lsm_inv H ?L ess segs' ws m p" using wal_ok_sync by (simp add: lsm_inv_def lsm_view_def)
  have s: "w_pending (wal_sync w) = []" using v(1) by (simp add: wal_ok_def wal_sync_pending)
  then have "keeps L ?L n" using r b(4-7) by (simp add: keeps_def room_def)
  with b(1,3) i2 s show ?thesis
    by (intro exI [of _ ?L] exI [of _ ess] exI [of _ segs'] exI [of _ m] exI [of _ p])
      (auto simp: Commit txn_commit_mark_def pym_simps simp del: length_0_conv)
next
  case Compact
  have "l_next_id L < 10 ^ 8" using r by (simp add: room_def)
  from compact_step [OF i H this] obtain L1 ess1 segs1 where
    c: "lsm_compact H L = (Inr (), L1)" "lsm_inv H L1 ess1 segs1 ws m p"
    "\<forall>b. durable segs ws b m p \<longrightarrow> b + length (fr_writes (seg_frames (butlast segs))) \<le> m \<longrightarrow>
        (\<exists>b'. durable segs1 ws b' m p)"
    "w_next_lsn (l_wal L1) = w_next_lsn (l_wal L)" "w_seq (l_wal L1) = w_seq (l_wal L)"
    "l_next_id L1 \<le> l_next_id L + 1" "w_sync_mode (l_wal L1) = w_sync_mode (l_wal L)"
    "w_pending (l_wal L1) = w_pending (l_wal L)" by blast
  have "keeps L L1 n" using r c(4-8) by (simp add: keeps_def room_def)
  moreover have "\<exists>b'. durable segs1 ws b' m p" if "m = length ws" "durable segs ws b m p" for b
    using c(3) that durable_before_last [OF that(2)] i by (auto simp: lsm_inv_def wal_ok_def)
  ultimately show ?thesis using c(1,2)
    by (intro exI [of _ L1] exI [of _ ess1] exI [of _ segs1] exI [of _ m] exI [of _ p]) (auto simp: Compact)
qed

lemma hist_ok_append: "hist_ok (ws @ vs) \<Longrightarrow> hist_ok ws"
  by (auto simp: hist_ok_def)

lemma run_step:
  assumes "lsm_inv H L ess segs ws m p" "host_ok H" "hist_ok (ws @ writes_of ops)" "room L (length ops)"
  shows "\<exists>L' ess' segs' m' p'. run_ops H ops L = (Inr (), L') \<and>
     lsm_inv H L' ess' segs' (ws @ writes_of ops) m' p' \<and>
     (compacts_flushed (m = length ws) ops \<longrightarrow>
        (\<forall>b. durable segs ws b m p \<longrightarrow> (\<exists>b'. durable segs' (ws @ writes_of ops) b' m' p'))) \<and>
     keeps L L' 0 \<and> (ops \<noteq> [] \<and> last ops \<in> {Flush, Commit} \<longrightarrow> w_pending (l_wal L') = [])"
  using assms
proof (induction ops arbitrary: L ess segs ws m p)
  case Nil
  then show ?case
    by (intro exI [of _ L] exI [of _ ess] exI [of _ segs] exI [of _ m] exI [of _ p])
      (auto simp: run_ops_def keeps_def pym_simps)
next
  case (Cons op ops)
  have h: "hist_ok (ws @ op_writes op)" using Cons.prems(3) hist_ok_append by (metis append_assoc writes_of_simps(2))
  have r: "room L (Suc (length ops))" using Cons.prems(4) by simp
  obtain L1 ess1 segs1 m1 p1 where s: "apply_op H op L = (Inr (), L1)"
     "lsm_inv H L1 ess1 segs1 (ws @ op_writes op) m1 p1"
     "op \<noteq> Compact \<or> m = length ws \<longrightarrow>
        (\<forall>b. durable segs ws b m p \<longrightarrow> (\<exists>b'. durable segs1 (ws @ op_writes op) b' m1 p1))"
     "keeps L L1 (length ops)" "op \<in> {Flush, Commit} \<longrightarrow> w_pending (l_wal L1) = []"
     "op = Flush \<or> m = length ws \<and> op_writes op = [] \<longrightarrow> m1 = length (ws @ op_writes op)"
    using op_step [OF Cons.prems(1,2) h r] by blast
  have "hist_ok ((ws @ op_writes op) @ writes_of ops)" "room L1 (length ops)"
    using Cons.prems(3) s(4) by (simp_all add: keeps_def)
  from Cons.IH [OF s(2) Cons.prems(2) this] obtain L2 ess2 segs2 m2 p2 where
    t: "run_ops H ops L1 = (Inr (), L2)" "lsm_inv H L2 ess2 segs2 ((ws @ op_writes op) @ writes_of ops) m2 p2"
     "compacts_flushed (m1 = length (ws @ op_writes op)) ops \<longrightarrow> (\<forall>b. durable segs1 (ws @ op_writes op) b m1 p1 \<longrightarrow>
        (\<exists>b'. durable segs2 ((ws @ op_writes op) @ writes_of ops) b' m2 p2))"
     "keeps L1 L2 0" "ops \<noteq> [] \<and> last ops \<in> {Flush, Commit} \<longrightarrow> w_pending (l_wal L2) = []" by blast
  have "run_ops H (op # ops) L = (Inr (), L2)" using s(1) t(1) by (simp add: run_ops_def pym_simps)
  moreover have "keeps L L2 0" using s(4) t(4) by (auto simp: keeps_def)
  moreover have "w_pending (l_wal L2) = []" if "last (op # ops) \<in> {Flush, Commit}"
  proof (cases "ops = []")
    case True
    then have "L2 = L1" using t(1) by (simp add: run_ops_def pym_simps)
    with that True s(5) show ?thesis by simp
  next
    case False
    with that t(5) show ?thesis by simp
  qed
  moreover have "\<exists>b'. durable segs2 (ws @ writes_of (op # ops)) b' m2 p2"
    if c: "compacts_flushed (m = length ws) (op # ops)" "durable segs ws b m p" for b
  proof -
    have "op \<noteq> Compact \<or> m = length ws" using c(1) by auto
    moreover have "compacts_flushed (op = Flush \<or> m = length ws \<and> op_writes op = []) ops"
      using c(1) by simp
    then have "compacts_flushed (m1 = length (ws @ op_writes op)) ops"
      by (rule compacts_flushed_mono) (rule s(6) [rule_format])
    ultimately obtain b1 where "durable segs1 (ws @ op_writes op) b1 m1 p1"
        "compacts_flushed (m1 = length (ws @ op_writes op)) ops"
      using s(3) c(2) by blast
    then show ?thesis using t(3) by auto
  qed
  ultimately show ?case
    using t(2) by (intro exI [of _ L2] exI [of _ ess2] exI [of _ segs2] exI [of _ m2] exI [of _ p2]) simp
qed

section \<open>Opening the directories\<close>

lemma sst_name_seq: "i < 10 ^ 8 \<Longrightarrow> py_int (py_slice (sst_name i) 4 12) = Some (int i)"
  unfolding sst_name_def by (rule numbered_seq) simp_all

lemma load_fold:
  assumes "list_all2 (\<lambda>r i. i < 10 ^ 8 \<and> open_reader H (sst_name i) d = Inr r) rs ids"
  shows "\<exists>n'. foldl (load_step H d) (acc, int n) (map sst_name ids) = (acc @ rs, int n') \<and>
     n \<le> n' \<and> (\<forall>i \<in> set ids. i \<le> n')"
  using assms
proof (induction rs ids arbitrary: acc n rule: list_all2_induct)
  case (Cons r rs i ids)
  let ?n = "if n < i then i else n"
  have "load_step H d (acc, int n) (sst_name i) = (acc @ [r], int ?n)"
    using Cons.hyps by (simp add: load_step_def sst_name_seq)
  moreover obtain n' where "foldl (load_step H d) (acc @ [r], int ?n) (map sst_name ids) = ((acc @ [r]) @ rs, int n')"
    "?n \<le> n'" "\<forall>i \<in> set ids. i \<le> n'" using Cons.IH [of "acc @ [r]" ?n] by blast
  ultimately show ?case by (intro exI [of _ n']) (auto split: if_splits)
qed auto

lemma load_tables:
  assumes "dir_ok H d rs ids" and dL: "l_dir L = d"
  shows "\<exists>nid. load_existing_sstables H L = L\<lparr>l_readers := rs, l_next_id := int nid\<rparr> \<and> (\<forall>i \<in> set ids. i < nid)"
proof -
  have D: "distinct (map fst d)" "map sr_path rs = map sst_name ids" "sorted_wrt (<) ids"
     "\<forall>i \<in> set ids. i < 10 ^ 8"
     "\<forall>r \<in> set rs. map_of d (sr_path r) = Some (sr_file r) \<and> sst_open H (sr_path r) (sr_file r) = Inr r"
     "\<forall>f. is_sst f \<longrightarrow> map_of d f \<noteq> None \<longrightarrow> f \<in> sst_name ` set ids"
    using assms by (auto simp: dir_ok_def)
  have len: "length rs = length ids" using D(2) by (metis length_map)
  have open_r: "open_reader H (sst_name (ids ! j)) d = Inr (rs ! j)" if "j < length rs" for j
  proof -
    have "sr_path (rs ! j) = sst_name (ids ! j)" using D(2) that len by (metis nth_map)
    then show ?thesis using D(5) that nth_mem [OF that] by (metis open_reader_def option.case(2))
  qed
  then have l: "list_all2 (\<lambda>r i. i < 10 ^ 8 \<and> open_reader H (sst_name i) d = Inr r) rs ids"
    using D(4) len by (simp add: list_all2_conv_all_nth)
  have "sorted_wrt (<) (map sst_name ids)"
    unfolding sorted_wrt_map
    by (rule sorted_wrt_mono_rel [OF _ D(3)]) (use D(4) in \<open>simp add: sst_name_def numbered_less\<close>)
  moreover have "set (filter is_sst (map fst d)) = set (map sst_name ids)"
  proof -
    have "sst_name i \<in> fst ` set d" if "i \<in> set ids" for i
    proof -
      have "sst_name i \<in> set (map sr_path rs)" unfolding D(2) using that by simp
      then show ?thesis using D(5) by (force simp: dir_keys)
    qed
    moreover have "f \<in> sst_name ` set ids" if "f \<in> fst ` set d" "is_sst f" for f
      using D(6) that by (simp add: dir_keys)
    ultimately show ?thesis unfolding set_filter_keys by auto
  qed
  ultimately have "sort (filter is_sst (map fst d)) = map sst_name ids"
    using D(1) by (intro sort_names_eq) simp_all
  moreover obtain n' where "foldl (load_step H d) ([], int 0) (map sst_name ids) = ([] @ rs, int n')"
    "\<forall>i \<in> set ids. i \<le> n'" using load_fold [OF l, of "[]" 0] by blast
  ultimately show ?thesis
    using dL by (intro exI [of _ "Suc n'"]) (auto simp: load_existing_sstables_def less_Suc_eq_le)
qed

text \<open>
  A tree opened on the tables of another one and a log directory from which \<open>recover\<close> reads
  the writes from position \<open>b\<close> on of a history that extends the tables.
\<close>

lemma open_view:
  assumes v: "lsm_view H L ess ws m p" and h: "hist_ok ws'" "take p ws' = take p ws" "p \<le> length ws'" "b \<le> p"
    and rec: "fr_writes (fst (wal_recover (wal_new wd MAX_LOG_SIZE mode clk t))) = drop b ws'"
  shows "lsm_view H (lsm_open H (l_dir L) wd mb mode clk t) ess ws' b p"
proof -
  obtain ids nid where d: "dir_ok H (l_dir L) (l_readers L) ids" using v by (auto simp: lsm_view_def)
  let ?w = "wal_new wd MAX_LOG_SIZE mode clk t"
  let ?L0 = "\<lparr>l_mem_bytes = mb, l_wal = ?w, l_mem = mt_new mb, l_imm = None, l_readers = [], l_next_id = 1,
     l_dir = l_dir L\<rparr>"
  obtain nid where l: "load_existing_sstables H ?L0 = ?L0\<lparr>l_readers := l_readers L, l_next_id := int nid\<rparr>"
    "\<forall>i \<in> set ids. i < nid" using load_tables [OF d, of ?L0] by auto
  obtain fs w where r: "wal_recover ?w = (fs, w)" by fastforce
  have o: "lsm_open H (l_dir L) wd mb mode clk t =
      ?L0\<lparr>l_readers := l_readers L, l_next_id := int nid, l_wal := w, l_mem := foldl replay_frame (mt_new mb) fs\<rparr>"
    by (simp add: lsm_open_def l(1) recover_from_wal_def r)
  have "mem_holds (foldl replay_frame (mt_new mb) fs) (drop b ws')"
    using mem_holds_replay [OF mem_holds_new, of mb fs] rec r by simp
  then show ?thesis
    using v d l(2) h unfolding o lsm_view_def by auto
qed

lemma fresh_tree: "lsm_inv H (lsm_open H [] [] mb mode clk t) [] [(1, [])] [] 0 0"
   "durable [(1, [])] [] 0 0 0" "keeps (lsm_open H [] [] mb mode clk t) (lsm_open H [] [] mb mode clk t) 40000000"
   "w_sync_mode (l_wal (lsm_open H [] [] mb mode clk t)) = mode"
   "w_pending (l_wal (lsm_open H [] [] mb mode clk t)) = []"
proof -
  let ?w = "wal_new [] MAX_LOG_SIZE mode clk t"
  let ?L0 = "\<lparr>l_mem_bytes = mb, l_wal = ?w, l_mem = mt_new mb, l_imm = None, l_readers = [], l_next_id = 1,
     l_dir = []\<rparr>"
  have ok: "wal_ok ?w [(1, [])]" using wal_new_ok [OF seg_dir_Nil, of MAX_LOG_SIZE mode clk t] by simp
  obtain w where r: "wal_recover ?w = (seg_frames [(1, [])], w)" "wal_ok w [(1, [])]"
    "w_next_lsn w = Max (insert 0 (fr_lsn ` set (seg_frames [(1, [])]))) + 1" "w_pending w = []"
    "w_sync_mode w = w_sync_mode ?w" using wal_recover_ok [OF ok] by metis
  have "load_existing_sstables H ?L0 = ?L0"
    by (simp add: load_existing_sstables_def)
  then have o: "lsm_open H [] [] mb mode clk t = ?L0\<lparr>l_wal := w\<rparr>"
    using r(1) by (simp add: lsm_open_def recover_from_wal_def)
  have "dir_ok H [] [] []" by (simp add: dir_ok_def)
  then have "lsm_view H (lsm_open H [] [] mb mode clk t) [] [] 0 0"
    using mem_holds_new unfolding o lsm_view_def
    by (auto simp: hist_ok_def tables_ok_def vis_def intro!: exI [of _ "[]"] exI [of _ 1])
  with r show "lsm_inv H (lsm_open H [] [] mb mode clk t) [] [(1, [])] [] 0 0" by (simp add: lsm_inv_def o)
  show "durable [(1, [])] [] 0 0 0" by (simp add: durable_def)
  have "w_seq w = 1" using r(2) by (simp add: wal_ok_def)
  then show "keeps (lsm_open H [] [] mb mode clk t) (lsm_open H [] [] mb mode clk t) 40000000"
    using r(3) by (simp add: keeps_def room_def o)
  show "w_sync_mode (l_wal (lsm_open H [] [] mb mode clk t)) = mode"
    "w_pending (l_wal (lsm_open H [] [] mb mode clk t)) = []"
    using r(4,5) by (simp_all add: o wal_new_fields)
qed

text \<open>Any bounded program on a fresh tree succeeds, and what is known afterwards.\<close>

definition program_ok :: "lsm_op list \<Rightarrow> bool" where
  "program_ok ops \<longleftrightarrow> length ops \<le> 40000000 \<and> hist_ok (writes_of ops)"

lemma run_fresh:
  assumes "host_ok H" "program_ok ops"
  obtains L ess segs m p where "run_ops H ops (lsm_open H [] [] mb mode clk t) = (Inr (), L)"
    "lsm_inv H L ess segs (writes_of ops) m p"
    "compacts_flushed True ops \<Longrightarrow> \<exists>b. durable segs (writes_of ops) b m p"
    "mode = Always \<Longrightarrow> w_pending (l_wal L) = []"
    "ops \<noteq> [] \<Longrightarrow> last ops \<in> {Flush, Commit} \<Longrightarrow> w_pending (l_wal L) = []" "room L 0"
proof -
  let ?L = "lsm_open H [] [] mb mode clk t"
  note F = fresh_tree(1) [of H mb mode clk t] fresh_tree(2) fresh_tree(3) [of H mb mode clk t]
    fresh_tree(4,5) [of H mb mode clk t]
  have r: "room ?L (length ops)" using F(3) assms(2) by (simp add: keeps_def room_def program_ok_def)
  have h: "hist_ok ([] @ writes_of ops)" using assms(2) by (simp add: program_ok_def)
  from run_step [OF F(1) assms(1) h r] obtain L ess segs m p where
    "run_ops H ops ?L = (Inr (), L)" "lsm_inv H L ess segs ([] @ writes_of ops) m p"
     "compacts_flushed (0 = length ([] :: history)) ops \<longrightarrow> (\<forall>b. durable [(1, [])] [] b 0 0 \<longrightarrow> (\<exists>b'. durable segs ([] @ writes_of ops) b' m p))"
     "keeps ?L L 0" "ops \<noteq> [] \<and> last ops \<in> {Flush, Commit} \<longrightarrow> w_pending (l_wal L) = []" by blast
  with F(2,4,5) show ?thesis by (intro that [of L ess segs m p]) (auto simp: keeps_def)
qed

text \<open>What a restart after a crash reads.\<close>

lemma fr_writes_prefix: "fr_writes (whole_frames n fs) = take (length (fr_writes (whole_frames n fs))) (fr_writes fs)"
proof -
  obtain gs where "fs = whole_frames n fs @ gs" using whole_frames_prefix by blast
  then show ?thesis by (metis append_eq_conv_conj fr_writes_simps(3))
qed

lemma crash_reads:
  assumes w: "wal_ok (l_wal L) segs" and d: "durable segs ws b m p"
  obtains j where "b + j \<le> length ws \<or> length ws \<le> b" "p \<le> b + j"
    "w_pending (l_wal L) = [] \<Longrightarrow> j = length ws - b"
    "\<And>mode clk t. fr_writes (fst (wal_recover (wal_new (wal_crash n (l_wal L)) MAX_LOG_SIZE mode clk t))) = take j (drop b ws)"
proof -
  obtain segs' q fs where s: "segs = segs' @ [(q, fs)]" using w by (rule wal_okE)
  let ?c = "length (file_content (w_dir (l_wal L)) (w_path (l_wal L)))"
  let ?fs = "whole_frames (?c + n) fs"
  let ?j = "length (fr_writes (seg_frames segs')) + length (fr_writes ?fs)"
  have D: "fr_writes (seg_frames segs') @ fr_writes fs = drop b ws"
    "p \<le> b + length (fr_writes (seg_frames segs'))" using d by (auto simp: durable_def s)
  have len: "length (fr_writes (seg_frames segs')) + length (fr_writes fs) = length ws - b"
    using D(1) by (metis length_append length_drop)
  have pre: "fr_writes ?fs = take (length (fr_writes ?fs)) (fr_writes fs)" by (rule fr_writes_prefix)
  then have "length (fr_writes ?fs) \<le> length (fr_writes fs)" by (metis length_take min.cobounded1)
  then have 1: "b + ?j \<le> length ws \<or> length ws \<le> b" using len by linarith
  have "take ?j (drop b ws) = fr_writes (seg_frames segs') @ take (length (fr_writes ?fs)) (fr_writes fs)"
    by (simp flip: D(1))
  then have 2: "fr_writes (fst (wal_recover (wal_new (wal_crash n (l_wal L)) MAX_LOG_SIZE mode clk t)))
      = take ?j (drop b ws)" for mode clk t
    using wal_crash_read [OF w [unfolded s], of n MAX_LOG_SIZE mode clk t] pre by simp
  have 3: "?j = length ws - b" if "w_pending (l_wal L) = []"
  proof -
    have "frames_bytes fs = file_content (w_dir (l_wal L)) (w_path (l_wal L))"
      using wal_ok_content [OF w [unfolded s]] that by simp
    then have "?fs = fs" by (intro whole_frames_all) simp
    then show ?thesis using len by simp
  qed
  show ?thesis by (rule that [OF 1 _ 3 2]) (use D(2) in simp)
qed

lemma hist_ok_take: "hist_ok ws \<Longrightarrow> hist_ok (take j ws)"
  using hist_ok_append [of "take j ws" "drop j ws"] by simp

lemma crash_view:
  assumes i: "lsm_inv H L ess segs ws m p" and d: "durable segs ws b m p"
  obtains j where "p \<le> j" "w_pending (l_wal L) = [] \<Longrightarrow> j = length ws"
    "lsm_view H (lsm_open H (fst (lsm_crash n L)) (snd (lsm_crash n L)) mb mode clk t) ess (take j ws) b p"
proof -
  have v: "lsm_view H L ess ws m p" and w: "wal_ok (l_wal L) segs" using i by (auto simp: lsm_inv_def)
  obtain j where j: "b + j \<le> length ws \<or> length ws \<le> b" "p \<le> b + j"
    "w_pending (l_wal L) = [] \<Longrightarrow> j = length ws - b"
    "\<And>mode clk t. fr_writes (fst (wal_recover (wal_new (wal_crash n (l_wal L)) MAX_LOG_SIZE mode clk t))) = take j (drop b ws)"
    using crash_reads [OF w d, of n] by blast
  have mp: "b \<le> p" "p \<le> length ws" "hist_ok ws" using v d by (auto simp: lsm_view_def durable_def)
  let ?j = "min (b + j) (length ws)"
  have "drop b (take ?j ws) = take j (drop b ws)" by (simp add: drop_take min_def)
  then have "lsm_view H (lsm_open H (l_dir L) (wal_crash n (l_wal L)) mb mode clk t) ess (take ?j ws) b p"
    using j(2,4) mp by (intro open_view [OF v hist_ok_take [OF mp(3)]]) (simp_all add: min_def)
  then show ?thesis
    using that [of ?j] j(2,3) mp by (simp add: lsm_crash_def)
qed

lemma crash_synced:
  assumes "lsm_inv H L ess segs ws m p" "durable segs ws b m p" "w_pending (l_wal L) = []"
  shows "lsm_get H k (lsm_open H (fst (lsm_crash n L)) (snd (lsm_crash n L)) mb mode clk t) = Inr (vis (rawmap ws) k)"
proof (rule crash_view [OF assms(1,2)])
  fix j assume "w_pending (l_wal L) = [] \<Longrightarrow> j = length ws"
    and "lsm_view H (lsm_open H (fst (lsm_crash n L)) (snd (lsm_crash n L)) mb mode clk t) ess (take j ws) b p"
  with assms(3) lsm_get_view show ?thesis by simp
qed

section \<open>Properties\<close>

text \<open>
  C1. The tree is a map. Any program of puts, deletes, flushes and compactions whose keys are not
  empty and whose sizes fit the fields of the files (\<open>program_ok\<close>), for any
  memtable size and log mode (so with flushes and compactions triggered at any point), runs
  without an exception on a fresh tree, and afterwards \<open>get\<close> answers for every key what the
  program's map holds (storing the tombstone value being a deletion).
\<close>

theorem lsm_refines_map:
  assumes "host_ok H" "program_ok ops"
  shows "\<exists>L. run_ops H ops (lsm_open H [] [] mb mode clk t) = (Inr (), L) \<and>
     (\<forall>k. lsm_get H k L = Inr (spec_ops ops k))"
proof -
  obtain L ess segs m p where "run_ops H ops (lsm_open H [] [] mb mode clk t) = (Inr (), L)"
    "lsm_inv H L ess segs (writes_of ops) m p" using run_fresh [OF assms] by metis
  then show ?thesis using lsm_get_view by (auto simp: lsm_inv_def simp flip: vis_writes_of)
qed

lemma sample_program_ok:
  "program_ok [Put ''a'' ''1'', Flush, Put ''b'' ''2'', Delete ''a'']"
  by (simp add: program_ok_def hist_ok_def entry_ok_def length_entry_bytes TOMBSTONE_def)

theorem lsm_refines_map_witness:
  "\<exists>L. run_ops sample_host [Put ''a'' ''1'', Flush, Put ''b'' ''2'', Delete ''a'']
        (lsm_open sample_host [] [] 100 EverySec (\<lambda>_. 0) 0) = (Inr (), L) \<and>
     lsm_get sample_host ''a'' L = Inr None \<and> lsm_get sample_host ''b'' L = Inr (Some ''2'')"
proof -
  have "spec_ops [Put ''a'' ''1'', Flush, Put ''b'' ''2'', Delete ''a''] ''a'' = None"
    "spec_ops [Put ''a'' ''1'', Flush, Put ''b'' ''2'', Delete ''a''] ''b'' = Some ''2''"
    by (simp_all add: spec_ops_def live_def TOMBSTONE_def)
  with lsm_refines_map [OF sample_run_ok(2) sample_program_ok, of 100 EverySec "\<lambda>_. 0" 0]
  show ?thesis by fastforce
qed

text \<open>
  C2. Scans. After any such program \<open>scan(start, end)\<close> returns, in strictly increasing key
  order, exactly the present keys within the bounds with their values.
\<close>

theorem lsm_scan_refines_map:
  assumes "host_ok H" "program_ok ops"
  shows "\<exists>L es. run_ops H ops (lsm_open H [] [] mb mode clk t) = (Inr (), L) \<and>
     lsm_scan s e L = Inr es \<and> strict_keys es \<and>
     (\<forall>k. map_of es k = (if in_bounds s e k then spec_ops ops k else None))"
proof -
  obtain L ess segs m p where "run_ops H ops (lsm_open H [] [] mb mode clk t) = (Inr (), L)"
    "lsm_inv H L ess segs (writes_of ops) m p" using run_fresh [OF assms] by metis
  then show ?thesis using lsm_scan_view [of H L ess _ m p s e] unfolding lsm_inv_def vis_writes_of [symmetric] by blast
qed

theorem lsm_scan_refines_map_witness:
  "\<exists>L es. run_ops sample_host [Put ''a'' ''1'', Flush, Put ''b'' ''2'', Delete ''a'']
        (lsm_open sample_host [] [] 100 EverySec (\<lambda>_. 0) 0) = (Inr (), L) \<and>
     lsm_scan None (Some ''b'') L = Inr es \<and> map_of es ''a'' = None \<and> map_of es ''b'' = Some ''2''"
proof -
  have "spec_ops [Put ''a'' ''1'', Flush, Put ''b'' ''2'', Delete ''a''] ''a'' = None"
    "spec_ops [Put ''a'' ''1'', Flush, Put ''b'' ''2'', Delete ''a''] ''b'' = Some ''2''"
    "in_bounds None (Some ''b'') ''a''" "in_bounds None (Some ''b'') ''b''"
    by (simp_all add: spec_ops_def live_def TOMBSTONE_def in_bounds_def)
  with lsm_scan_refines_map [OF sample_run_ok(2) sample_program_ok, of 100 EverySec "\<lambda>_. 0" 0 None "Some ''b''"]
  show ?thesis by (metis (no_types, lifting))
qed

text \<open>
  What a crash leaves of a tree whose log holds all that the tables do not: reopened, it is in
  the state after a prefix of its program, the whole program when the log was synced.
\<close>

lemma crash_reopens:
  assumes "lsm_inv H L ess segs (writes_of ops) m p" "durable segs (writes_of ops) b m p"
  shows "\<exists>i \<le> length ops. (w_pending (l_wal L) = [] \<longrightarrow> i = length ops) \<and>
        (\<forall>k. lsm_get H k (lsm_open H (fst (lsm_crash n L)) (snd (lsm_crash n L)) mb mode clk t)
             = Inr (spec_ops (take i ops) k))"
proof (rule crash_view [OF assms])
  fix j assume j: "w_pending (l_wal L) = [] \<Longrightarrow> j = length (writes_of ops)"
    and v: "lsm_view H (lsm_open H (fst (lsm_crash n L)) (snd (lsm_crash n L)) mb mode clk t) ess
         (take j (writes_of ops)) b p"
  obtain i where i: "i \<le> length ops" "take j (writes_of ops) = writes_of (take i ops)"
     "length (writes_of ops) \<le> j \<longrightarrow> i = length ops" using take_writes by blast
  have "w_pending (l_wal L) = [] \<longrightarrow> i = length ops" using i(3) j by simp
  with i(1) lsm_get_view [OF v] show ?thesis unfolding i(2) vis_writes_of by blast
qed

text \<open>The same for a program on a fresh tree, in any sync mode.\<close>

lemma fresh_crash_reopens:
  assumes "host_ok H" "program_ok ops" "compacts_flushed True ops"
  obtains L where "run_ops H ops (lsm_open H [] [] mb mode clk t) = (Inr (), L)"
    "\<And>n mb' mode' clk' t'. \<exists>i \<le> length ops.
       (mode = Always \<or> ops \<noteq> [] \<and> last ops \<in> {Flush, Commit} \<longrightarrow> i = length ops) \<and>
       (\<forall>k. lsm_get H k (lsm_open H (fst (lsm_crash n L)) (snd (lsm_crash n L)) mb' mode' clk' t')
            = Inr (spec_ops (take i ops) k))"
proof (rule run_fresh [OF assms(1,2), of mb mode clk t])
  fix L ess segs m p
  assume L: "run_ops H ops (lsm_open H [] [] mb mode clk t) = (Inr (), L)"
    "lsm_inv H L ess segs (writes_of ops) m p"
    "compacts_flushed True ops \<Longrightarrow> \<exists>b. durable segs (writes_of ops) b m p"
    "mode = Always \<Longrightarrow> w_pending (l_wal L) = []"
    "ops \<noteq> [] \<Longrightarrow> last ops \<in> {Flush, Commit} \<Longrightarrow> w_pending (l_wal L) = []"
  obtain b where "durable segs (writes_of ops) b m p" using L(3) assms(3) by blast
  note C = crash_reopens [OF L(2) this]
  show thesis
  proof (rule that [OF L(1)])
    fix n mb' mode' clk' t'
    from C [of n mb' mode' clk' t'] L(4,5)
    show "\<exists>i \<le> length ops.
       (mode = Always \<or> ops \<noteq> [] \<and> last ops \<in> {Flush, Commit} \<longrightarrow> i = length ops) \<and>
       (\<forall>k. lsm_get H k (lsm_open H (fst (lsm_crash n L)) (snd (lsm_crash n L)) mb' mode' clk' t')
            = Inr (spec_ops (take i ops) k))" by blast
  qed
qed

text \<open>
  C3. Crash recovery of the tree. Take any program of puts, deletes, flushes (with the
  compactions these trigger), transaction markers and calls of \<open>compact()\<close>, where no
  \<open>compact()\<close> is called while there are writes that no flush has followed (such a call can lose
  them: \<open>lsm_compact_loses_unflushed\<close>). If the process crashes after it, losing an arbitrary
  suffix of the log's unflushed buffer, the tree opened on what is left answers as after a
  prefix of the program; in sync mode "always" the prefix is the whole program.
\<close>

theorem lsm_crash_recovery:
  assumes "host_ok H" "program_ok ops" "compacts_flushed True ops"
  shows "\<exists>L. run_ops H ops (lsm_open H [] [] mb mode clk t) = (Inr (), L) \<and>
     (\<forall>n mb' mode' clk' t'. \<exists>i \<le> length ops. (mode = Always \<longrightarrow> i = length ops) \<and>
        (\<forall>k. lsm_get H k (lsm_open H (fst (lsm_crash n L)) (snd (lsm_crash n L)) mb' mode' clk' t')
             = Inr (spec_ops (take i ops) k)))"
  by (rule fresh_crash_reopens [OF assms, of mb mode clk t]) blast

theorem lsm_crash_recovery_witness:
  "\<exists>L. run_ops sample_host [Put ''a'' ''1'', Flush, Compact, Put ''b'' ''2'', Delete ''a'']
        (lsm_open sample_host [] [] 100 Always (\<lambda>_. 0) 0) = (Inr (), L) \<and>
     lsm_get sample_host ''b'' (lsm_open sample_host (fst (lsm_crash 0 L)) (snd (lsm_crash 0 L)) 100 Always (\<lambda>_. 0) 0)
       = Inr (Some ''2'')"
proof -
  let ?ops = "[Put ''a'' ''1'', Flush, Compact, Put ''b'' ''2'', Delete ''a'']"
  have s: "spec_ops ?ops ''b'' = Some ''2''" by (simp add: spec_ops_def live_def TOMBSTONE_def)
  have c: "compacts_flushed True ?ops" by simp
  have p: "program_ok ?ops"
    by (simp add: program_ok_def hist_ok_def entry_ok_def length_entry_bytes TOMBSTONE_def)
  obtain L where L: "run_ops sample_host ?ops (lsm_open sample_host [] [] 100 Always (\<lambda>_. 0) 0) = (Inr (), L)"
    "\<And>n mb' mode' clk' t'. \<exists>i \<le> length ?ops. (Always = Always \<longrightarrow> i = length ?ops) \<and>
        (\<forall>k. lsm_get sample_host k (lsm_open sample_host (fst (lsm_crash n L)) (snd (lsm_crash n L)) mb' mode' clk' t')
             = Inr (spec_ops (take i ?ops) k))"
    using lsm_crash_recovery [OF sample_run_ok(2) p c, of 100 Always "\<lambda>_. 0" 0] by blast
  from L(2) [of 0 100 Always "\<lambda>_. 0" 0] s L(1) show ?thesis by fastforce
qed

text \<open>
  C4. Durability of a flush. After a program that ends with \<open>flush()\<close>, in which no \<open>compact()\<close>
  is called while there are writes that no flush has followed, a crash loses nothing, in every
  sync mode.
\<close>

theorem lsm_flush_durable:
  assumes "host_ok H" "program_ok (ops @ [Flush])" "compacts_flushed True ops"
  shows "\<exists>L. run_ops H (ops @ [Flush]) (lsm_open H [] [] mb mode clk t) = (Inr (), L) \<and>
     (\<forall>n mb' mode' clk' t' k.
        lsm_get H k (lsm_open H (fst (lsm_crash n L)) (snd (lsm_crash n L)) mb' mode' clk' t')
        = Inr (spec_ops ops k))"
proof -
  have c: "compacts_flushed True (ops @ [Flush])" using assms(3) by (intro compacts_flushed_append) simp_all
  have s: "spec_ops (ops @ [Flush]) = spec_ops ops" by (simp add: spec_ops_def)
  obtain L where L: "run_ops H (ops @ [Flush]) (lsm_open H [] [] mb mode clk t) = (Inr (), L)"
    "\<And>n mb' mode' clk' t'. \<exists>i \<le> length (ops @ [Flush]).
       (mode = Always \<or> ops @ [Flush] \<noteq> [] \<and> last (ops @ [Flush]) \<in> {Flush, Commit} \<longrightarrow> i = length (ops @ [Flush])) \<and>
       (\<forall>k. lsm_get H k (lsm_open H (fst (lsm_crash n L)) (snd (lsm_crash n L)) mb' mode' clk' t')
            = Inr (spec_ops (take i (ops @ [Flush])) k))"
    using fresh_crash_reopens [OF assms(1,2) c, of mb mode clk t] by blast
  have "lsm_get H k (lsm_open H (fst (lsm_crash n L)) (snd (lsm_crash n L)) mb' mode' clk' t')
       = Inr (spec_ops ops k)" for n mb' mode' clk' t' k
    using L(2) [of n mb' mode' clk' t'] s by auto
  with L(1) show ?thesis by blast
qed

theorem lsm_flush_durable_witness:
  "\<exists>L. run_ops sample_host ([Put ''a'' ''1'', Put ''b'' ''2''] @ [Flush])
        (lsm_open sample_host [] [] 100 NoSync (\<lambda>_. 0) 0) = (Inr (), L) \<and>
     lsm_get sample_host ''b'' (lsm_open sample_host (fst (lsm_crash 0 L)) (snd (lsm_crash 0 L)) 100 Always (\<lambda>_. 0) 0)
       = Inr (Some ''2'')"
proof -
  have p: "program_ok ([Put ''a'' ''1'', Put ''b'' ''2''] @ [Flush])" "compacts_flushed True [Put ''a'' ''1'', Put ''b'' ''2'']"
    by (simp_all add: program_ok_def hist_ok_def entry_ok_def length_entry_bytes)
  have "spec_ops [Put ''a'' ''1'', Put ''b'' ''2''] ''b'' = Some ''2''"
    by (simp add: spec_ops_def live_def TOMBSTONE_def)
  with lsm_flush_durable [OF sample_run_ok(2) p, of 100 NoSync "\<lambda>_. 0" 0] show ?thesis by metis
qed

end
