(* ===== verification/LsmFaults.thy ===== *)
theory LsmFaults
  imports LsmRefine
begin

text \<open>
  Crashes in the middle of a flush or a compaction, and three call sequences after which the
  tree has lost acknowledged data: an explicit compaction after the log has rotated by size,
  a flush whose table is published before the log is synced, and an oversize key.
\<close>

section \<open>A crash in the middle of a flush or a compaction\<close>

lemma writes_slice:
  "\<exists>ops'. take j (drop b (writes_of ops)) = writes_of ops' \<and> set ops' \<subseteq> set ops \<and> length ops' \<le> length ops \<and>
     (\<exists>i i'. ops' = take i (drop i' ops))"
proof -
  obtain i' where i': "take b (writes_of ops) = writes_of (take i' ops)" using take_writes by blast
  have "drop b (writes_of ops) = writes_of (drop i' ops)"
  proof -
    have "take b (writes_of ops) @ drop b (writes_of ops) = writes_of (take i' ops) @ writes_of (drop i' ops)"
      by (simp flip: writes_of_simps(3))
    then show ?thesis unfolding i' by simp
  qed
  moreover obtain i where "take j (writes_of (drop i' ops)) = writes_of (take i (drop i' ops))"
    using take_writes by blast
  ultimately show ?thesis
    by (intro exI [of _ "take i (drop i' ops)"]) (auto dest: in_set_takeD in_set_dropD)
qed

lemma hist_ok_slice:
  assumes "hist_ok (ws @ ws)"
  shows "hist_ok (ws @ take x (drop b ws))"
proof -
  have e: "ws = take b ws @ take x (drop b ws) @ drop x (drop b ws)"
    by (metis append_take_drop_id)
  have "length (data_bytes (take x (drop b ws))) \<le> length (data_bytes ws)"
    by (subst (2) e) (simp only: data_bytes_simps length_append)
  moreover have "set (take x (drop b ws)) \<subseteq> set ws"
    by (meson order_trans set_drop_subset set_take_subset)
  moreover have "length (take x (drop b ws)) \<le> length ws" by simp
  ultimately show ?thesis using assms unfolding hist_ok_def by (auto simp del: length_take length_drop)
qed

text \<open>
  A crash inside a flush. The new table is published before the log is synced, so a crash
  between the two leaves the whole program in the tables and an older part of it in the log,
  which recovery replays on top: the state is that of the program followed by a stretch of
  its calls again. If the log had been synced, nothing is lost.
\<close>

theorem lsm_crash_inside_flush:
  assumes "host_ok H" "program_ok (ops @ ops)" "Compact \<notin> set ops"
  shows "\<exists>L. run_ops H ops (lsm_open H [] [] mb mode clk t) = (Inr (), L) \<and>
     (mt_len (l_mem L) \<noteq> 0 \<longrightarrow> (\<exists>L1. flush_table H L = (Inr (), L1) \<and>
       (\<forall>n mb' mode' clk' t'. \<exists>i j. \<forall>k.
          lsm_get H k (lsm_open H (l_dir L1) (wal_crash n (l_wal L1)) mb' mode' clk' t')
            = Inr (spec_ops (ops @ take i (drop j ops)) k) \<and>
          (mode = Always \<longrightarrow> spec_ops (ops @ take i (drop j ops)) k = spec_ops ops k))))"
proof -
  have po: "program_ok ops" using assms(2) by (auto simp: program_ok_def dest: hist_ok_append)
  let ?ws = "writes_of ops"
  obtain L ess segs m p b where L: "run_ops H ops (lsm_open H [] [] mb mode clk t) = (Inr (), L)"
    "lsm_inv H L ess segs ?ws m p" "durable segs ?ws b m p"
    "mode = Always \<longrightarrow> w_pending (l_wal L) = []" "room L 0"
  proof (rule run_fresh [OF assms(1) po])
    fix L ess segs m p assume "run_ops H ops (lsm_open H [] [] mb mode clk t) = (Inr (), L)"
      "lsm_inv H L ess segs ?ws m p" "compacts_flushed True ops \<Longrightarrow> \<exists>b. durable segs ?ws b m p"
      "mode = Always \<Longrightarrow> w_pending (l_wal L) = []" "room L 0"
    then show ?thesis using that compacts_flushed_none [OF assms(3)] by blast
  qed
  have v: "lsm_view H L ess ?ws m p" and w: "wal_ok (l_wal L) segs" using L(2) by (auto simp: lsm_inv_def)
  have "\<exists>L1. flush_table H L = (Inr (), L1) \<and>
       (\<forall>n mb' mode' clk' t'. \<exists>i j. \<forall>k.
          lsm_get H k (lsm_open H (l_dir L1) (wal_crash n (l_wal L1)) mb' mode' clk' t')
            = Inr (spec_ops (ops @ take i (drop j ops)) k) \<and>
          (mode = Always \<longrightarrow> spec_ops (ops @ take i (drop j ops)) k = spec_ops ops k))"
    if ne: "mt_len (l_mem L) \<noteq> 0"
  proof -
    have id: "l_next_id L < 10 ^ 8" using L(5) by (simp add: room_def)
    obtain L1 es where f: "flush_table H L = (Inr (), L1)" "l_wal L1 = l_wal L"
      "lsm_view H (L1\<lparr>l_imm := None\<rparr>) (ess @ [es]) ?ws (length ?ws) (length ?ws)"
      using flush_table_ok [OF v assms(1) ne id] by blast
    have "\<exists>i j. \<forall>k. lsm_get H k (lsm_open H (l_dir L1) (wal_crash n (l_wal L1)) mb' mode' clk' t')
            = Inr (spec_ops (ops @ take i (drop j ops)) k) \<and>
          (mode = Always \<longrightarrow> spec_ops (ops @ take i (drop j ops)) k = spec_ops ops k)" for n mb' mode' clk' t'
    proof -
      obtain x where x: "w_pending (l_wal L) = [] \<Longrightarrow> x = length ?ws - b"
        "\<And>mode clk t. fr_writes (fst (wal_recover (wal_new (wal_crash n (l_wal L)) MAX_LOG_SIZE mode clk t)))
            = take x (drop b ?ws)"
        by (rule crash_reads [OF w L(3), of n]) (rule that)
      obtain ops' i j where s: "take x (drop b ?ws) = writes_of ops'" "ops' = take i (drop j ops)"
        "set ops' \<subseteq> set ops" using writes_slice [of x b ops] by blast
      let ?ws' = "?ws @ take x (drop b ?ws)"
      have hk: "hist_ok ?ws'" using assms(2) by (intro hist_ok_slice) (simp add: program_ok_def)
      have "lsm_view H (lsm_open H (l_dir L1) (wal_crash n (l_wal L1)) mb' mode' clk' t') (ess @ [es]) ?ws' (length ?ws) (length ?ws)"
        using open_view [OF f(3) hk, of "length ?ws" "wal_crash n (l_wal L1)" mode' clk' t'] x(2) f(2) by simp
      from lsm_get_view [OF this]
      have g: "lsm_get H k (lsm_open H (l_dir L1) (wal_crash n (l_wal L1)) mb' mode' clk' t')
          = Inr (spec_ops (ops @ take i (drop j ops)) k)" for k
        using vis_writes_of [of "ops @ ops'"] unfolding s by simp
      have "spec_ops (ops @ take i (drop j ops)) k = spec_ops ops k" if "mode = Always" for k
      proof -
        have "take x (drop b ?ws) = drop b ?ws" using that L(4) x(1) by simp
        then have r: "writes_of ops' = drop b ?ws" using s(1) by simp
        have "rawmap (?ws @ drop b ?ws) k = rawmap ?ws k"
        proof (cases "rawmap (drop b ?ws) k")
          case (Some y)
          with rawmap_drop [OF Some] show ?thesis by (simp add: map_add_def)
        qed (simp add: map_add_def)
        then have "vis (rawmap (writes_of (ops @ ops'))) k = vis (rawmap ?ws) k"
          using r by (simp add: vis_def)
        then show ?thesis unfolding vis_writes_of s(2) .
      qed
      with g show ?thesis by blast
    qed
    with f(1) show ?thesis by blast
  qed
  with L(1) show ?thesis by blast
qed

theorem lsm_crash_inside_flush_witness:
  "\<exists>L. run_ops sample_host [Put ''a'' ''1'', Put ''a'' ''2'']
        (lsm_open sample_host [] [] 100 Always (\<lambda>_. 0) 0) = (Inr (), L) \<and>
     (mt_len (l_mem L) \<noteq> 0 \<longrightarrow> (\<exists>L1. flush_table sample_host L = (Inr (), L1) \<and>
        lsm_get sample_host ''a'' (lsm_open sample_host (l_dir L1) (wal_crash 0 (l_wal L1)) 100 Always (\<lambda>_. 0) 0)
          = Inr (Some ''2'')))"
proof -
  let ?ops = "[Put ''a'' ''1'', Put ''a'' ''2'']"
  have p: "program_ok (?ops @ ?ops)" "Compact \<notin> set ?ops"
    by (simp_all add: program_ok_def hist_ok_def entry_ok_def length_entry_bytes)
  have "spec_ops ?ops ''a'' = Some ''2''" by (simp add: spec_ops_def live_def TOMBSTONE_def)
  with lsm_crash_inside_flush [OF sample_run_ok(2) p, of 100 Always "\<lambda>_. 0" 0] show ?thesis by metis
qed

text \<open>
  C10. A crash inside a compaction. After a program in which no \<open>compact()\<close> was
  called while there were writes that no flush had followed, let a compaction write its table
  and start to remove the old ones. From every directory the loop
  passes through, the one before the first removal and the one after the last included, and
  from what a crash leaves of the log, a restart reads the state after a prefix of the
  program, the whole program in sync mode "always": no more is lost than by a crash before
  the compaction. The loop removes the oldest table first, so that the old tables that remain
  keep the tombstones that hide what the compacted table dropped.
\<close>

theorem lsm_crash_inside_compaction:
  assumes "host_ok H" "program_ok ops" "compacts_flushed True ops"
  shows "\<exists>L path L1. run_ops H ops (lsm_open H [] [] mb mode clk t) = (Inr (), L) \<and>
     compact_write H L = (Inr path, L1) \<and>
     (\<forall>d \<in> set (removal_dirs L1). \<forall>n mb' mode' clk' t'.
        \<exists>i \<le> length ops. (mode = Always \<longrightarrow> i = length ops) \<and>
          (\<forall>k. lsm_get H k (lsm_open H d (wal_crash n (l_wal L1)) mb' mode' clk' t')
               = Inr (spec_ops (take i ops) k)))"
proof -
  let ?ws = "writes_of ops"
  obtain L ess segs m p b where L: "run_ops H ops (lsm_open H [] [] mb mode clk t) = (Inr (), L)"
    "lsm_inv H L ess segs ?ws m p" "durable segs ?ws b m p" "mode = Always \<longrightarrow> w_pending (l_wal L) = []" "room L 0"
    using run_fresh [OF assms(1,2)] assms(3) by metis
  have v: "lsm_view H L ess ?ws m p" and w: "wal_ok (l_wal L) segs" using L(2) by (auto simp: lsm_inv_def)
  have id: "l_next_id L < 10 ^ 8" using L(5) by (simp add: room_def)
  have runs: "rmap sst_iter_all (l_readers L) = Inr ess"
    using v tables_runs(1) by (auto simp: lsm_view_def)
  obtain d new where c: "write_table H (sst_path (l_next_id L)) (merge_runs ess) (l_dir L) = (Inr (), d)"
    "\<And>j. merged_view H L ess ?ws p d j new"
    by (rule compact_table [OF v assms(1) id]) (rule that)
  let ?L1 = "L\<lparr>l_next_id := l_next_id L + 1, l_dir := d\<rparr>"
  have "\<exists>i \<le> length ops. (mode = Always \<longrightarrow> i = length ops) \<and>
      (\<forall>k. lsm_get H k (lsm_open H d' (wal_crash n (l_wal ?L1)) mb' mode' clk' t') = Inr (spec_ops (take i ops) k))"
    if d': "d' \<in> set (removal_dirs ?L1)" for d' n mb' mode' clk' t'
  proof -
    obtain j where j: "d' = foldl (\<lambda>d r. AList.delete (sr_path r) d) d (take j (l_readers L))"
      using d' by (auto simp: removal_dirs)
    let ?L = "?L1\<lparr>l_readers := drop j (l_readers L) @ new, l_dir := d'\<rparr>"
    obtain ess' where "lsm_view H ?L ess' ?ws m p"
      using v c(2) [of j] unfolding lsm_view_def merged_view_def j by auto
    with w have "lsm_inv H ?L ess' segs ?ws m p" by (simp add: lsm_inv_def)
    from crash_reopens [OF this L(3), of n mb' mode' clk' t'] L(4) show ?thesis by (auto simp: lsm_crash_def)
  qed
  with L(1) runs c(1) show ?thesis by (simp add: compact_write_def)
qed

theorem lsm_crash_inside_compaction_witness:
  "\<exists>L path L1. run_ops sample_host [Put ''a'' ''1'', Flush, Delete ''a'', Flush]
        (lsm_open sample_host [] [] 100 Always (\<lambda>_. 0) 0) = (Inr (), L) \<and>
     compact_write sample_host L = (Inr path, L1) \<and>
     (\<forall>d \<in> set (removal_dirs L1).
        lsm_get sample_host ''a'' (lsm_open sample_host d (wal_crash 0 (l_wal L1)) 100 Always (\<lambda>_. 0) 0) = Inr None)"
proof -
  let ?ops = "[Put ''a'' ''1'', Flush, Delete ''a'', Flush]"
  have p: "program_ok ?ops" "compacts_flushed True ?ops"
    by (simp_all add: program_ok_def hist_ok_def entry_ok_def length_entry_bytes TOMBSTONE_def)
  have n: "spec_ops ?ops ''a'' = None" by (simp add: spec_ops_def)
  obtain L path L1 where "run_ops sample_host ?ops (lsm_open sample_host [] [] 100 Always (\<lambda>_. 0) 0) = (Inr (), L)"
     "compact_write sample_host L = (Inr path, L1)"
     "\<forall>d \<in> set (removal_dirs L1). \<forall>n mb' mode' clk' t'.
        \<exists>i \<le> length ?ops. (Always = Always \<longrightarrow> i = length ?ops) \<and>
          (\<forall>k. lsm_get sample_host k (lsm_open sample_host d (wal_crash n (l_wal L1)) mb' mode' clk' t')
               = Inr (spec_ops (take i ?ops) k))"
    using lsm_crash_inside_compaction [OF sample_run_ok(2) p, of 100 Always "\<lambda>_. 0" 0] by blast
  then show ?thesis using n by (intro exI [of _ L] exI [of _ path] exI [of _ L1]) fastforce
qed

section \<open>Losing acknowledged data\<close>

lemma not_full: "mt_size m < int (mt_max m) \<Longrightarrow> \<not> mt_is_full m"
  by (simp add: mt_is_full_def)

lemma put_not_full:
  assumes s: "sq (on_wal (wal_append SET k v None)) (\<lambda>L. (Inr (), L\<lparr>l_mem := mt_put k v (l_mem L)\<rparr>)) L = (Inr (), L')"
    and "\<not> mt_is_full (l_mem L')"
  shows "lsm_put H k v L = (Inr (), L')"
proof -
  have "lsm_put H k v L = lsm_flush_if_full H L'"
    using s by (auto simp: lsm_put_def sq_def bnd_def split: sum.splits prod.splits)
  then show ?thesis using assms(2) by (simp add: lsm_flush_if_full_def)
qed

text \<open>
  One put and a flush on a tree with an empty memtable and fewer than three tables.
\<close>

lemma put_then_flush:
  assumes i: "lsm_inv H L ess segs ws m p" and H: "host_ok H" and h: "hist_ok (ws @ [(k, v)])"
    and r: "room L (Suc n)" and mem: "l_mem L = mt_new mb" "l_mem_bytes L = mb"
    and small: "length k + length v + 16 < mb" and few: "length (l_readers L) < 3"
    and d: "durable segs ws b m p"
  obtains L' ess' segs' m' p' b' where "run_ops H [Put k v, Flush] L = (Inr (), L')"
    "lsm_inv H L' ess' segs' (ws @ [(k, v)]) m' p'" "p' = length (ws @ [(k, v)])"
    "durable segs' (ws @ [(k, v)]) b' m' p'" "room L' n"
    "l_mem L' = mt_new mb" "l_mem_bytes L' = mb" "length (l_readers L') = length (l_readers L) + 1"
    "w_max_file_size (l_wal L') = w_max_file_size (l_wal L)"
proof -
  obtain L1 segs1 where s: "sq (on_wal (wal_append SET k v None)) (\<lambda>L. (Inr (), L\<lparr>l_mem := mt_put k v (l_mem L)\<rparr>)) L = (Inr (), L1)"
     "lsm_inv H L1 ess segs1 (ws @ [(k, v)]) m p"
     "\<forall>b. durable segs ws b m p \<longrightarrow> durable segs1 (ws @ [(k, v)]) b m p"
     "w_next_lsn (l_wal L1) = w_next_lsn (l_wal L) + 1" "w_seq (l_wal L1) \<le> w_seq (l_wal L) + 1"
     "l_next_id L1 = l_next_id L" "l_mem_bytes L1 = l_mem_bytes L" "l_readers L1 = l_readers L"
     "mt_len (l_mem L1) \<noteq> 0" "w_max_file_size (l_wal L1) = w_max_file_size (l_wal L)"
     "l_mem L1 = mt_put k v (l_mem L)"
    using write_step [OF i h r, of SET] by blast
  have "\<not> mt_is_full (l_mem L1)"
    using small by (intro not_full) (simp add: s(11) mem mt_put_def mt_new_def)
  note put = put_not_full [OF s(1) this, of H]
  have "w_seq (l_wal L1) + 1 < 10 ^ 8" "l_next_id L1 + 1 < 10 ^ 8" using r s(5,6) by (simp_all add: room_def)
  from flush_step [OF s(2) H this] obtain L2 ess2 segs2 m2 p2 where
    f: "lsm_flush_memtable H L1 = (Inr (), L2)" "lsm_inv H L2 ess2 segs2 (ws @ [(k, v)]) m2 p2"
      "\<forall>b. durable segs1 (ws @ [(k, v)]) b m p \<longrightarrow> (\<exists>b'. durable segs2 (ws @ [(k, v)]) b' m2 p2)"
      "w_next_lsn (l_wal L2) = w_next_lsn (l_wal L1)" "w_seq (l_wal L2) \<le> w_seq (l_wal L1) + 1"
      "l_next_id L2 \<le> l_next_id L1 + 2" "mt_len (l_mem L1) \<noteq> 0 \<longrightarrow> p2 = length (ws @ [(k, v)])"
      "w_max_file_size (l_wal L2) = w_max_file_size (l_wal L1)"
      "mt_len (l_mem L1) \<noteq> 0 \<and> length (l_readers L1) < 3 \<longrightarrow> length (l_readers L2) = length (l_readers L1) + 1"
      "mt_len (l_mem L1) \<noteq> 0 \<longrightarrow> l_mem L2 = mt_new (l_mem_bytes L1)" "l_mem_bytes L2 = l_mem_bytes L1" by blast
  obtain b2 where b2: "durable segs2 (ws @ [(k, v)]) b2 m2 p2" using d s(3) f(3) by blast
  let ?L = "L2\<lparr>l_wal := wal_sync (l_wal L2)\<rparr>"
  have "run_ops H [Put k v, Flush] L = (Inr (), ?L)"
    using put f(1) by (simp add: run_ops_def lsm_flush_def sq_def bnd_def ret_def)
  moreover have "lsm_inv H ?L ess2 segs2 (ws @ [(k, v)]) m2 p2"
    using f(2) wal_ok_sync by (simp add: lsm_inv_def lsm_view_def)
  moreover have "room ?L n" using r s(4-6) f(4-6) by (simp add: room_def)
  ultimately show ?thesis
    using f s mem few b2 by (intro that [of ?L ess2 segs2 m2 p2 b2]) simp_all
qed

lemma run_ops_append: "run_ops H (xs @ ys) = sq (run_ops H xs) (run_ops H ys)"
  by (simp add: run_ops_def for_each_prefix)

lemma open_mem: "l_mem (lsm_open H [] [] mb mode clk t) = mt_new mb"
  "l_mem_bytes (lsm_open H [] [] mb mode clk t) = mb" "l_readers (lsm_open H [] [] mb mode clk t) = []"
  "w_max_file_size (l_wal (lsm_open H [] [] mb mode clk t)) = MAX_LOG_SIZE"
proof -
  have ok: "wal_ok (wal_new [] MAX_LOG_SIZE mode clk t) [(1, [])]"
    using wal_new_ok [OF seg_dir_Nil, of MAX_LOG_SIZE mode clk t] by simp
  obtain w where "wal_recover (wal_new [] MAX_LOG_SIZE mode clk t) = (seg_frames [(1, [])], w)"
    "w_max_file_size w = w_max_file_size (wal_new [] MAX_LOG_SIZE mode clk t)" using wal_recover_ok [OF ok] by metis
  then show "l_mem (lsm_open H [] [] mb mode clk t) = mt_new mb"
    "l_mem_bytes (lsm_open H [] [] mb mode clk t) = mb" "l_readers (lsm_open H [] [] mb mode clk t) = []"
    "w_max_file_size (l_wal (lsm_open H [] [] mb mode clk t)) = MAX_LOG_SIZE"
    by (simp_all add: lsm_open_def load_existing_sstables_def recover_from_wal_def wal_new_fields)
qed

text \<open>
  Compaction purges the log of unflushed writes. The log starts a new segment when a
  segment reaches 32 MiB, whatever the memtable still holds. If \<open>compact()\<close> is then called, it
  deletes the old segments although the memtable's writes are in no table yet: a value that
  was written in sync mode "always" and is still readable is gone after a crash.
\<close>

theorem lsm_compact_loses_unflushed:
  assumes "host_ok H" "MAX_LOG_SIZE \<le> length v" "length v < 2 ^ 32" "length v + 100 < mb"
  shows "\<exists>L. run_ops H ([Put ''a'' ''1'', Flush] @ [Put ''b'' ''2'', Flush] @ [Put ''c'' v, Compact])
        (lsm_open H [] [] mb Always clk t) = (Inr (), L) \<and>
     lsm_get H ''c'' L = Inr (Some v) \<and>
     (\<forall>n mb' mode' clk' t'. lsm_get H ''c''
        (lsm_open H (fst (lsm_crash n L)) (snd (lsm_crash n L)) mb' mode' clk' t') = Inr None)"
proof -
  let ?L0 = "lsm_open H [] [] mb Always clk t"
  note F = fresh_tree(1) [of H mb Always clk t] fresh_tree(2) fresh_tree(3) [of H mb Always clk t]
  note O = open_mem [of H mb Always clk t]
  have big: "33554432 \<le> length v" using assms(2) by (simp add: MAX_LOG_SIZE_def)
  have tomb: "v \<noteq> TOMBSTONE" using big by (auto simp: TOMBSTONE_def)
  have h: "hist_ok [(''a'', ''1'')]" "hist_ok [(''a'', ''1''), (''b'', ''2'')]"
    "hist_ok [(''a'', ''1''), (''b'', ''2''), (''c'', v)]"
    using assms(3) by (simp_all add: hist_ok_def entry_ok_def length_entry_bytes)
  have mb: "100 < mb" using assms(4) by simp
  have r0: "room ?L0 (Suc 10)" using F(3) by (simp add: keeps_def room_def)
  obtain L1 ess1 segs1 m1 p1 b1 where s1: "run_ops H [Put ''a'' ''1'', Flush] ?L0 = (Inr (), L1)"
    "lsm_inv H L1 ess1 segs1 [(''a'', ''1'')] m1 p1" "durable segs1 [(''a'', ''1'')] b1 m1 p1" "room L1 (Suc 9)"
    "l_mem L1 = mt_new mb" "l_mem_bytes L1 = mb" "length (l_readers L1) = 1"
    "w_max_file_size (l_wal L1) = MAX_LOG_SIZE"
    by (rule put_then_flush [OF F(1) assms(1), of "''a''" "''1''" 10 mb])
      (use h mb r0 O F(2) in \<open>auto simp: room_def\<close>)
  obtain L2 ess2 segs2 m2 p2 b2 where s2: "run_ops H [Put ''b'' ''2'', Flush] L1 = (Inr (), L2)"
    "lsm_inv H L2 ess2 segs2 [(''a'', ''1''), (''b'', ''2'')] m2 p2" "p2 = 2"
    "durable segs2 [(''a'', ''1''), (''b'', ''2'')] b2 m2 p2" "room L2 9"
    "l_mem L2 = mt_new mb" "l_mem_bytes L2 = mb" "length (l_readers L2) = 2"
    "w_max_file_size (l_wal L2) = MAX_LOG_SIZE"
    by (rule put_then_flush [OF s1(2) assms(1), of "''b''" "''2''" 9 mb])
      (use h mb s1 in \<open>auto simp: room_def numeral_2_eq_2\<close>)
  let ?ws = "[(''a'', ''1''), (''b'', ''2'')] @ [(''c'', v)]"
  have h3: "hist_ok ?ws" using h(3) by simp
  have r2: "room L2 (Suc 8)" using s2(5) by (simp add: room_def)
  obtain L3 segs3 where s3: "sq (on_wal (wal_append SET ''c'' v None)) (\<lambda>L. (Inr (), L\<lparr>l_mem := mt_put ''c'' v (l_mem L)\<rparr>)) L2 = (Inr (), L3)"
     "lsm_inv H L3 ess2 segs3 ?ws m2 p2" "durable segs3 ?ws b2 m2 p2" "snd (last segs3) = []"
     "l_next_id L3 = l_next_id L2" "l_readers L3 = l_readers L2" "l_mem L3 = mt_put ''c'' v (l_mem L2)"
    using write_step [OF s2(2) h3 r2, of SET] s2(4,9) assms(2) by auto
  have "\<not> mt_is_full (l_mem L3)"
    using assms(4) by (intro not_full) (simp add: s3(7) s2(6) mt_put_def mt_new_def)
  note put = put_not_full [OF s3(1) this, of H]
  have v3: "lsm_view H L3 ess2 ?ws m2 p2" and w3: "wal_ok (l_wal L3) segs3" using s3(2) by (auto simp: lsm_inv_def)
  have id: "l_next_id L3 < 10 ^ 8" using r2 s3(5) by (simp add: room_def)
  obtain L4 ess4 where c: "lsm_compact H L3 = (Inr (), L4)" "lsm_view H L4 ess4 ?ws m2 p2"
     "l_wal L4 = snd (wal_purge_before (w_seq (l_wal L3)) (l_wal L3))"
    using lsm_compact_ok [OF v3 assms(1) id] s3(6) s2(8) by auto
  have w4: "wal_ok (l_wal L4) [last segs3]" using purge_segs [OF w3] c(3) by simp
  have ls: "last segs3 = (fst (last segs3), [])" using s3(4) by (metis prod.collapse)
  have rec: "fr_writes (fst (wal_recover (wal_new (wal_crash n (l_wal L4)) MAX_LOG_SIZE mode clk t))) = []" for n mode clk t
    using wal_crash_read [of "l_wal L4" "[]" "fst (last segs3)" "[]" n MAX_LOG_SIZE mode clk t] w4 ls by simp
  let ?ws2 = "[(''a'', ''1''), (''b'', ''2'')]"
  have "lsm_get H ''c'' (lsm_open H (l_dir L4) (wal_crash n (l_wal L4)) mb' mode' clk' t') = Inr None" for n mb' mode' clk' t'
  proof -
    have "lsm_view H (lsm_open H (l_dir L4) (wal_crash n (l_wal L4)) mb' mode' clk' t') ess4 ?ws2 2 p2"
      by (rule open_view [OF c(2) h(2)]) (simp_all add: s2(3) rec)
    from lsm_get_view [OF this, of "''c''"] show ?thesis by (simp add: rawmap_def vis_def)
  qed
  moreover have "lsm_get H ''c'' L4 = Inr (Some v)"
    using lsm_get_view [OF c(2), of "''c''"] tomb by (simp add: rawmap_def vis_def live_def)
  moreover have "run_ops H ([Put ''a'' ''1'', Flush] @ [Put ''b'' ''2'', Flush] @ [Put ''c'' v, Compact]) ?L0 = (Inr (), L4)"
    using s1(1) s2(1) put c(1) unfolding run_ops_append
    by (simp add: sq_def bnd_def run_ops_def [of H "[Put ''c'' v, Compact]"] ret_def)
  ultimately show ?thesis by (intro exI [of _ L4]) (simp add: lsm_crash_def)
qed

theorem lsm_compact_loses_unflushed_witness:
  "\<exists>L. run_ops sample_host ([Put ''a'' ''1'', Flush] @ [Put ''b'' ''2'', Flush] @
          [Put ''c'' (replicate MAX_LOG_SIZE (CHR ''x'')), Compact])
        (lsm_open sample_host [] [] (2 * MAX_LOG_SIZE) Always (\<lambda>_. 0) 0) = (Inr (), L) \<and>
     lsm_get sample_host ''c''
        (lsm_open sample_host (fst (lsm_crash 0 L)) (snd (lsm_crash 0 L)) (2 * MAX_LOG_SIZE) Always (\<lambda>_. 0) 0) = Inr None"
proof -
  have "MAX_LOG_SIZE \<le> length (replicate MAX_LOG_SIZE (CHR ''x''))" "length (replicate MAX_LOG_SIZE (CHR ''x'')) < 2 ^ 32"
    "length (replicate MAX_LOG_SIZE (CHR ''x'')) + 100 < 2 * MAX_LOG_SIZE"
    by (simp_all add: MAX_LOG_SIZE_def)
  from lsm_compact_loses_unflushed [OF sample_run_ok(2) this, of "\<lambda>_. 0" 0] show ?thesis by blast
qed

text \<open>The value of \<open>l_imm\<close> before a flush does not matter: the flush overwrites it.\<close>

lemma flush_imm:
  assumes "mt_len (l_mem L) \<noteq> 0"
  shows "lsm_flush H (L\<lparr>l_imm := x\<rparr>) = lsm_flush H L"
proof -
  have "flush_table H (L\<lparr>l_imm := x\<rparr>) = flush_table H L" by (simp add: flush_table_def Let_def)
  then show ?thesis using assms by (simp add: lsm_flush_def lsm_flush_memtable_def sq_def bnd_def)
qed

lemma put_eval:
  assumes "wal_append SET k v None (l_wal L) = (Inr n, w)" "\<not> mt_is_full (mt_put k v (l_mem L))"
  shows "lsm_put H k v L = (Inr (), L\<lparr>l_wal := w, l_mem := mt_put k v (l_mem L)\<rparr>)"
  using assms by (simp add: lsm_put_def on_wal_def sq_def bnd_def lsm_flush_if_full_def)

lemma append_total:
  assumes "wal_ok w segs" "w_next_lsn w < 2 ^ 64" "length k < 2 ^ 32" "length v < 2 ^ 32" "w_seq w + 1 < 10 ^ 8"
  shows "\<exists>n w' segs'. wal_append op k v None w = (Inr n, w') \<and> wal_ok w' segs' \<and>
    w_next_lsn w' = w_next_lsn w + 1 \<and> w_seq w' \<le> w_seq w + 1"
proof -
  obtain segs0 q fs where s: "segs = segs0 @ [(q, fs)]" "w_seq w = int q" using assms(1) by (rule wal_okE)
  have q: "q + 1 < 10 ^ 8" using assms(5) s(2) by simp
  obtain ts w' where a: "wal_append op k v None w = (Inr (w_next_lsn w), w')"
    "wal_ok w' (next_segs (w_max_file_size w) segs0 q (fs @ [mk_frame (w_next_lsn w) ts op k v]))"
    "w_next_lsn w' = w_next_lsn w + 1"
    by (rule wal_append_ok [OF assms(1) [unfolded s] assms(2-4) q, of op None]) (rule that)
  have "w_seq w' \<le> w_seq w + 1" using a(2) by (auto simp: wal_ok_def next_segs_def s(2) split: if_splits)
  with a show ?thesis by blast
qed

text \<open>A tree without tables, whatever its memtable: emptied, it is a fresh tree.\<close>

lemma emptied_tree:
  assumes "lsm_view H L [] ws m p" "wal_ok w segs"
  shows "lsm_inv H (L\<lparr>l_wal := w, l_mem := mt_new mb, l_next_id := l_next_id L + 1,
      l_dir := AList.update (temp_path f) [] (l_dir L)\<rparr>) [] segs [] 0 0"
proof -
  obtain ids nid where d: "dir_ok H (l_dir L) (l_readers L) ids" "l_next_id L = int nid"
    and t: "l_readers L = []" and i: "l_imm L = None"
    using assms(1) by (auto simp: lsm_view_def tables_ok_def)
  have "ids = []" using d(1) t by (simp add: dir_ok_def)
  then have no: "map_of (l_dir L) g = None" if "is_sst g" for g using d(1) that by (auto simp: dir_ok_def)
  have dd: "distinct (map fst (l_dir L))" using d(1) by (simp add: dir_ok_def)
  have "\<forall>g. is_sst g \<longrightarrow> map_of (AList.update (temp_path f) [] (l_dir L)) g = None"
    using no by (simp add: update_conv)
  then have "dir_ok H (AList.update (temp_path f) [] (l_dir L)) [] []"
    using dd by (simp add: dir_ok_def distinct_update)
  then show ?thesis
    using assms(2) i t d(2) mem_holds_new unfolding lsm_inv_def lsm_view_def
    by (auto simp: hist_ok_def tables_ok_def vis_def intro!: exI [of _ "[]"] exI [of _ "Suc nid"])
qed

lemma flush_oversize:
  assumes H: "host_ok H" and m: "mt_sorted_entries (l_mem L) = xs @ (k, v) # ys"
    and xs: "list_all entry_ok xs" "65535 < length k"
  shows "lsm_flush H L = (Inl (ValueError ''Key size exceeds maximum allowable 64KB limit''),
     L\<lparr>l_imm := Some (l_mem L), l_mem := mt_new (l_mem_bytes L), l_next_id := l_next_id L + 1,
       l_dir := AList.update (temp_path (sst_path (l_next_id L))) [] (l_dir L)\<rparr>)"
proof -
  have "mt_len (l_mem L) \<noteq> 0"
    using m by (cases "mt_data (l_mem L)") (auto simp: mt_sorted_entries_def mt_len_def)
  then show ?thesis
    using write_table_oversize [OF H xs] m
    by (simp add: lsm_flush_def lsm_flush_memtable_def flush_table_def sq_def bnd_def Let_def)
qed

text \<open>
  An oversize key loses the memtable. \<open>put\<close> accepts a key longer than 65535 bytes, which
  no table can hold. The next flush raises, after the memtable has been moved aside; the flush
  after that overwrites it, and every write it held is unreadable in the running process.
\<close>

theorem lsm_oversize_key_loses:
  assumes "host_ok H" "65535 < length big" "length big < 2 ^ 32" "length big + 200 < mb"
  shows "\<exists>L1 L2 L3. run_ops H [Put ''a'' ''1'', Put big ''x''] (lsm_open H [] [] mb mode clk t) = (Inr (), L1) \<and>
     lsm_get H ''a'' L1 = Inr (Some ''1'') \<and>
     lsm_flush H L1 = (Inl (ValueError ''Key size exceeds maximum allowable 64KB limit''), L2) \<and>
     run_ops H [Put ''b'' ''2'', Flush] L2 = (Inr (), L3) \<and> lsm_get H ''a'' L3 = Inr None"
proof -
  let ?L0 = "lsm_open H [] [] mb mode clk t"
  let ?a = "''a''" and ?b = "''b''"
  note F = fresh_tree(1) [of H mb mode clk t] fresh_tree(3) [of H mb mode clk t]
  note O = open_mem [of H mb mode clk t]
  have w0: "wal_ok (l_wal ?L0) [(1, [])]" "lsm_view H ?L0 [] [] 0 0" using F(1) by (auto simp: lsm_inv_def)
  have r0: "w_next_lsn (l_wal ?L0) + 10 < 2 ^ 64" "w_seq (l_wal ?L0) + 10 < 10 ^ 8" "l_next_id ?L0 + 10 < 10 ^ 8"
    using F(2) by (simp_all add: keeps_def room_def)
  obtain w1 segs1 n1 where a1: "wal_append SET ?a ''1'' None (l_wal ?L0) = (Inr n1, w1)" "wal_ok w1 segs1"
    "w_next_lsn w1 = w_next_lsn (l_wal ?L0) + 1" "w_seq w1 \<le> w_seq (l_wal ?L0) + 1"
    using append_total [OF w0(1), of ?a "''1''" SET] r0 by (force simp: algebra_simps)
  obtain w2 segs2 n2 where a2: "wal_append SET big ''x'' None w1 = (Inr n2, w2)" "wal_ok w2 segs2"
    "w_next_lsn w2 = w_next_lsn w1 + 1" "w_seq w2 \<le> w_seq w1 + 1"
    using append_total [OF a1(2), of big "''x''" SET] r0 a1(3,4) assms(3) by (force simp: algebra_simps)
  obtain w3 segs3 n3 where a3: "wal_append SET ?b ''2'' None w2 = (Inr n3, w3)" "wal_ok w3 segs3"
    using append_total [OF a2(2), of ?b "''2''" SET] r0 a1(3,4) a2(3,4) by (force simp: algebra_simps)
  let ?m1 = "mt_put ?a ''1'' (mt_new mb)"
  let ?m2 = "mt_put big ''x'' ?m1"
  have ne: "big \<noteq> ?a" using assms(2) by auto
  have nf: "\<not> mt_is_full ?m1" "\<not> mt_is_full ?m2" "\<not> mt_is_full (mt_put ?b ''2'' (mt_new mb))"
    using assms(4) ne by (auto intro!: not_full simp: mt_put_def mt_new_def)
  define L1 where "L1 = ?L0\<lparr>l_wal := w2, l_mem := ?m2\<rparr>"
  have run1: "run_ops H [Put ?a ''1'', Put big ''x''] ?L0 = (Inr (), L1)"
    using put_eval [of ?a "''1''" ?L0, OF a1(1)] nf O(1) put_eval [of big "''x''" "?L0\<lparr>l_wal := w1, l_mem := ?m1\<rparr>"] a2(1)
    by (simp add: run_ops_def pym_simps L1_def)
  have get1: "lsm_get H ?a L1 = Inr (Some ''1'')"
    using ne by (simp add: L1_def lsm_get_def mt_get_def mt_put_def mt_new_def update_conv live_def TOMBSTONE_def Let_def)
  have data: "mt_data (l_mem L1) = [(?a, ''1''), (big, ''x'')]"
    using ne by (simp add: L1_def mt_put_def mt_new_def Let_def)
  have "entry_ok (?a, ''1'')" by (simp add: entry_ok_def)
  moreover have "mt_sorted_entries (l_mem L1) = (if ?a \<le> big then [(?a, ''1'')] @ [(big, ''x'')] else [] @ [(big, ''x''), (?a, ''1'')])"
    by (simp add: mt_sorted_entries_def data)
  ultimately obtain xs ys where es: "mt_sorted_entries (l_mem L1) = xs @ (big, ''x'') # ys" "list_all entry_ok xs"
    using that [of "[(?a, ''1'')]" "[]"] that [of "[]" "[(?a, ''1'')]"] by (simp split: if_splits)
  define L2 where "L2 = L1\<lparr>l_imm := Some (l_mem L1), l_mem := mt_new (l_mem_bytes L1), l_next_id := l_next_id L1 + 1,
       l_dir := AList.update (temp_path (sst_path (l_next_id L1))) [] (l_dir L1)\<rparr>"
  have fl: "lsm_flush H L1 = (Inl (ValueError ''Key size exceeds maximum allowable 64KB limit''), L2)"
    using flush_oversize [OF assms(1) es assms(2)] by (simp add: L2_def)
  let ?L2 = "?L0\<lparr>l_wal := w2, l_mem := mt_new mb, l_next_id := l_next_id ?L0 + 1,
      l_dir := AList.update (temp_path (sst_path (l_next_id ?L0))) [] (l_dir ?L0)\<rparr>"
  have i2: "lsm_inv H ?L2 [] segs2 [] 0 0" by (rule emptied_tree [OF w0(2) a2(2)])
  then have i2': "lsm_inv H ?L2 [] segs2 [] 0 0" "l_imm ?L2 = None" by (auto simp: lsm_inv_def lsm_view_def)
  have L2: "L2 = ?L2\<lparr>l_imm := Some (l_mem L1)\<rparr>" by (simp add: L2_def L1_def O)
  let ?P = "?L2\<lparr>l_wal := w3, l_mem := mt_put ?b ''2'' (mt_new mb)\<rparr>"
  have hb: "hist_ok ([] @ [(?b, ''2'')])" by (simp add: hist_ok_def entry_ok_def length_entry_bytes)
  have rm: "room ?L2 (Suc 1)" using r0 a1(3,4) a2(3,4) by (simp add: room_def)
  obtain L' segs' where s: "sq (on_wal (wal_append SET ?b ''2'' None)) (\<lambda>L. (Inr (), L\<lparr>l_mem := mt_put ?b ''2'' (l_mem L)\<rparr>)) ?L2 = (Inr (), L')"
     "lsm_inv H L' [] segs' ([] @ [(?b, ''2'')]) 0 0" "mt_len (l_mem L') \<noteq> 0"
     "w_seq (l_wal L') \<le> w_seq (l_wal ?L2) + 1" "l_next_id L' = l_next_id ?L2"
    using write_step [OF i2 hb rm, of SET] by blast
  have L': "L' = ?P" using s(1) a3(1) by (simp add: sq_def bnd_def on_wal_def)
  have "w_seq (l_wal L') + 1 < 10 ^ 8" "l_next_id L' + 1 < 10 ^ 8" using rm s(4,5) by (simp_all add: room_def)
  from flush_step [OF s(2) assms(1) this] obtain L3 ess3 segs3' m3 p3 where
    f: "lsm_flush_memtable H L' = (Inr (), L3)" "lsm_inv H L3 ess3 segs3' ([] @ [(?b, ''2'')]) m3 p3" by blast
  let ?L3 = "L3\<lparr>l_wal := wal_sync (l_wal L3)\<rparr>"
  have "lsm_flush H (L'\<lparr>l_imm := Some (l_mem L1)\<rparr>) = (Inr (), ?L3)"
    unfolding flush_imm [OF s(3)] using f(1) by (simp add: lsm_flush_def sq_def bnd_def)
  moreover have "lsm_put H ?b ''2'' L2 = (Inr (), L'\<lparr>l_imm := Some (l_mem L1)\<rparr>)"
    using put_eval [of ?b "''2''" L2 n3 w3 H] a3(1) nf(3) unfolding L2 L' by simp
  ultimately have run3: "run_ops H [Put ?b ''2'', Flush] L2 = (Inr (), ?L3)"
    by (simp add: run_ops_def pym_simps)
  have "lsm_view H ?L3 ess3 [(?b, ''2'')] m3 p3" using f(2) by (simp add: lsm_inv_def lsm_view_def)
  from lsm_get_view [OF this, of ?a] have "lsm_get H ?a ?L3 = Inr None" by (simp add: vis_def rawmap_def)
  with run1 get1 fl run3 show ?thesis by blast
qed

theorem lsm_oversize_key_loses_witness:
  "\<exists>L1 L2 L3. run_ops sample_host [Put ''a'' ''1'', Put (replicate 65536 (CHR ''k'')) ''x'']
       (lsm_open sample_host [] [] 100000 Always (\<lambda>_. 0) 0) = (Inr (), L1) \<and>
     lsm_flush sample_host L1 = (Inl (ValueError ''Key size exceeds maximum allowable 64KB limit''), L2) \<and>
     run_ops sample_host [Put ''b'' ''2'', Flush] L2 = (Inr (), L3) \<and> lsm_get sample_host ''a'' L3 = Inr None"
proof -
  have "65535 < length (replicate 65536 (CHR ''k''))" "length (replicate 65536 (CHR ''k'')) < 2 ^ 32"
    "length (replicate 65536 (CHR ''k'')) + 200 < 100000" by simp_all
  from lsm_oversize_key_loses [OF sample_run_ok(2) this, of Always "\<lambda>_. 0" 0] show ?thesis by blast
qed

end
