(* ===== verification/Store.thy ===== *)
theory Store
  imports LsmFaults PyStr
begin

text \<open>
  The contract of the key-value store the engines are built on, as a locale, and its
  interpretation on the LSM tree. \<open>repr s f n\<close> says that the store \<open>s\<close> holds the map \<open>f\<close> and
  has room for \<open>n\<close> more writes (the tree's counters and files are bounded).
\<close>

section \<open>The contract\<close>

definition key_ok :: "bytes \<Rightarrow> bool" where
  "key_ok k \<longleftrightarrow> k \<noteq> [] \<and> length k \<le> 65535"

definition val_ok :: "bytes \<Rightarrow> bool" where
  "val_ok v \<longleftrightarrow> v \<noteq> TOMBSTONE \<and> length v < 2 ^ 32"

text \<open>The entries of a scan from a prefix on, up to the first key without the prefix.\<close>

definition with_prefix :: "bytes \<Rightarrow> (bytes \<times> bytes) list \<Rightarrow> (bytes \<times> bytes) list" where
  "with_prefix p es = takeWhile (\<lambda>(k, v). startswith k p) es"

text \<open>What writing a buffer does to the map when a tombstone stands for a deletion.\<close>

definition buffered :: "(bytes \<times> bytes) list \<Rightarrow> (bytes \<rightharpoonup> bytes) \<Rightarrow> (bytes \<rightharpoonup> bytes)" where
  "buffered es f = fold (\<lambda>(k, v) f. f(k := live v)) es f"

lemma buffered_simps [simp]:
  "buffered [] f = f"
  "buffered ((k, v) # es) f = buffered es (f(k := live v))"
  "buffered (es @ es') f = buffered es' (buffered es f)"
  by (simp_all add: buffered_def)

lemma buffered_lookup:
  "distinct (map fst es) \<Longrightarrow> buffered es f k = (case map_of es k of Some v \<Rightarrow> live v | None \<Rightarrow> f k)"
proof (induction es arbitrary: f)
  case (Cons e es)
  obtain k' v where e: "e = (k', v)" by fastforce
  have "map_of es k' = None" using Cons.prems by (simp add: e map_of_eq_None_iff)
  with Cons show ?case by (auto simp: e split: option.split)
qed simp

locale kv_store =
  fixes repr :: "'s \<Rightarrow> (bytes \<rightharpoonup> bytes) \<Rightarrow> nat \<Rightarrow> bool"
    and put :: "bytes \<Rightarrow> bytes \<Rightarrow> ('s, unit) pym"
    and del :: "bytes \<Rightarrow> ('s, unit) pym"
    and get :: "bytes \<Rightarrow> 's \<Rightarrow> bytes option res"
    and scan :: "bytes option \<Rightarrow> bytes option \<Rightarrow> 's \<Rightarrow> (bytes \<times> bytes) list res"
  assumes put_law: "repr s f (Suc n) \<Longrightarrow> key_ok k \<Longrightarrow> val_ok v \<Longrightarrow>
      \<exists>s'. put k v s = (Inr (), s') \<and> repr s' (f(k \<mapsto> v)) n"
    and del_law: "repr s f (Suc n) \<Longrightarrow> key_ok k \<Longrightarrow> \<exists>s'. del k s = (Inr (), s') \<and> repr s' (f(k := None)) n"
    and get_law: "repr s f n \<Longrightarrow> get k s = Inr (f k)"
    and scan_law: "repr s f n \<Longrightarrow> \<exists>es. scan a b s = Inr es \<and> strict_keys es \<and>
      (\<forall>k. map_of es k = (if in_bounds a b k then f k else None))"
    and less_room: "repr s f (Suc n) \<Longrightarrow> repr s f n"
begin

lemma wp_put: "repr s f (Suc n) \<Longrightarrow> key_ok k \<Longrightarrow> val_ok v \<Longrightarrow> (\<And>s'. repr s' (f(k \<mapsto> v)) n \<Longrightarrow> Q () s') \<Longrightarrow>
    wp (put k v) Q s"
  using put_law by (metis wpI)

lemma wp_del: "repr s f (Suc n) \<Longrightarrow> key_ok k \<Longrightarrow> (\<And>s'. repr s' (f(k := None)) n \<Longrightarrow> Q () s') \<Longrightarrow>
    wp (del k) Q s"
  using del_law by (metis wpI)

lemma room_le: "repr s f n \<Longrightarrow> m \<le> n \<Longrightarrow> repr s f m"
proof (induction n)
  case (Suc n)
  then show ?case using less_room by (metis le_Suc_eq)
qed simp

text \<open>A loop over a buffer whose tombstones are deletions, as the commit of a transaction.\<close>

lemma write_buffer:
  "repr s f (n + length es) \<Longrightarrow> \<forall>(k, v) \<in> set es. key_ok k \<and> length v < 2 ^ 32 \<Longrightarrow>
   \<exists>s'. for_each es (\<lambda>(k, v). if v = TOMBSTONE then del k else put k v) s = (Inr (), s') \<and>
     repr s' (buffered es f) n"
proof (induction es arbitrary: s f)
  case Nil
  then show ?case by (simp add: pym_simps buffered_def)
next
  case (Cons e es)
  obtain k v where e: "e = (k, v)" by fastforce
  have r: "repr s f (Suc (n + length es))" using Cons.prems(1) by simp
  obtain s1 where "(if v = TOMBSTONE then del k else put k v) s = (Inr (), s1)"
    "repr s1 (f(k := live v)) (n + length es)"
  proof (cases "v = TOMBSTONE")
    case True
    then show ?thesis using del_law [OF r, of k] Cons.prems(2) that by (auto simp: e live_def)
  next
    case False
    then show ?thesis using put_law [OF r, of k v] Cons.prems(2) that by (auto simp: e live_def val_ok_def)
  qed
  note s1 = this
  obtain s2 where s2: "for_each es (\<lambda>(k, v). if v = TOMBSTONE then del k else put k v) s1 = (Inr (), s2)"
    "repr s2 (buffered es (f(k := live v))) n"
    using Cons.IH [OF s1(2)] Cons.prems(2) by (meson list.set_intros(2))
  have "for_each (e # es) (\<lambda>(k, v). if v = TOMBSTONE then del k else put k v) s = (Inr (), s2)"
    using s1(1) s2(1) by (cases "v = TOMBSTONE") (simp_all add: e sq_eval(1))
  moreover have "buffered (e # es) f = buffered es (f(k := live v))" by (simp add: e buffered_def)
  ultimately show ?case using s2(2) by simp
qed

text \<open>Reading all entries with a prefix.\<close>

lemma prefix_scan:
  assumes "repr s f n"
  shows "\<exists>es. scan (Some p) None s = Inr es \<and> strict_keys (with_prefix p es) \<and>
    (\<forall>k. map_of (with_prefix p es) k = (if startswith k p then f k else None))"
proof -
  obtain es where es: "scan (Some p) None s = Inr es" "strict_keys es"
    "\<forall>k. map_of es k = (if in_bounds (Some p) None k then f k else None)"
    using scan_law [OF assms] by blast
  define xs where "xs = with_prefix p es"
  define ys where "ys = dropWhile (\<lambda>(k, v). startswith k p) es"
  have e: "es = xs @ ys" by (simp add: xs_def ys_def with_prefix_def)
  have x: "\<forall>k \<in> fst ` set xs. startswith k p"
    by (auto simp: xs_def with_prefix_def dest!: set_takeWhileD)
  have y: "\<not> startswith k p" if "k \<in> fst ` set ys" for k
  proof -
    have "ys \<noteq> []" using that by auto
    then obtain a ys' where a: "ys = a # ys'" by (cases ys) auto
    have na: "\<not> startswith (fst a) p"
      using a hd_dropWhile [of "\<lambda>(k, v). startswith k p" es] unfolding ys_def by (auto simp: case_prod_beta)
    have "a \<in> set es" by (simp add: e a)
    then have "map_of es (fst a) \<noteq> None" by (metis map_of_eq_None_iff image_eqI)
    then have pa: "p \<le> fst a" using es(3) by (auto simp: in_bounds_def split: if_splits)
    have "strict_keys (a # ys')" using es(2) by (simp add: e a strict_keys_append)
    then have "fst a \<le> k" using that by (cases a) (auto simp: a intro: less_imp_le)
    then show ?thesis using above_prefix_without [OF pa na] by force
  qed
  have sk: "strict_keys xs" using es(2) by (simp add: e strict_keys_append)
  have "map_of xs k = (if startswith k p then f k else None)" for k
  proof (cases "startswith k p")
    case True
    then have "map_of ys k = None" using y by (metis map_of_eq_None_iff)
    then have "map_of xs k = map_of es k" by (simp add: e map_add_def split: option.split)
    also have "\<dots> = f k" using es(3) prefix_le [OF True] by (simp add: in_bounds_def)
    finally show ?thesis using True by simp
  next
    case False
    then have "map_of xs k = None" using x by (metis map_of_eq_None_iff)
    with False show ?thesis by simp
  qed
  then show ?thesis using es(1) sk unfolding xs_def by blast
qed

end

text \<open>
  A store with transaction markers: records of the log that do not change the map.
\<close>

locale marked_store = kv_store +
  fixes begin_mark commit_mark :: "('a, unit) pym"
  assumes begin_law: "repr s f (Suc n) \<Longrightarrow> \<exists>s'. begin_mark s = (Inr (), s') \<and> repr s' f n"
    and commit_law: "repr s f (Suc n) \<Longrightarrow> \<exists>s'. commit_mark s = (Inr (), s') \<and> repr s' f n"
begin

lemma marked_writes:
  assumes r: "repr s f (n + length es + length es' + 2)"
    and ok: "\<forall>(k, v) \<in> set (es @ es'). key_ok k \<and> length v < 2 ^ 32"
  defines "write \<equiv> \<lambda>(k, v). if v = TOMBSTONE then del k else put k v"
  shows "\<exists>s'. sq begin_mark (sq (for_each es write) (sq (for_each es' write) commit_mark)) s = (Inr (), s') \<and>
    repr s' (buffered (es @ es') f) n"
proof -
  have "repr s f (Suc (n + length es' + 1 + length es))" using r by (simp add: ac_simps)
  then obtain s1 where s1: "begin_mark s = (Inr (), s1)" "repr s1 f (n + length es' + 1 + length es)"
    using begin_law by blast
  obtain s2 where s2: "for_each es write s1 = (Inr (), s2)" "repr s2 (buffered es f) (n + length es' + 1)"
    using write_buffer [OF s1(2)] ok unfolding write_def by auto
  then have "repr s2 (buffered es f) (Suc n + length es')" by (simp add: ac_simps)
  then obtain s3 where s3: "for_each es' write s2 = (Inr (), s3)" "repr s3 (buffered es' (buffered es f)) (Suc n)"
    using write_buffer [of s2 _ "Suc n" es'] ok unfolding write_def by auto
  obtain s4 where "commit_mark s3 = (Inr (), s4)" "repr s4 (buffered es' (buffered es f)) n"
    using commit_law [OF s3(2)] by blast
  with s1 s2 s3 show ?thesis by (simp add: sq_eval(1))
qed

end

section \<open>Sequences of commands\<close>

lemma wp_result: "wp m (\<lambda>x s'. x = y \<and> P s') s \<Longrightarrow> \<exists>s'. m s = (Inr y, s') \<and> P s'"
  by (auto elim: wpE)

text \<open>A list comprehension over calls.\<close>

primrec map_m :: "('x \<Rightarrow> ('s, 'a) pym) \<Rightarrow> 'x list \<Rightarrow> ('s, 'a list) pym" where
  "map_m f [] = ret []"
| "map_m f (x # xs) = bnd (f x) (\<lambda>y. bnd (map_m f xs) (\<lambda>ys. ret (y # ys)))"


text \<open>
  A family of commands on one key, against a specification on values of type \<open>'a\<close>: when every
  command returns what the specification says and leaves the store in the state it says, every
  sequence of commands does. \<open>cost\<close> bounds the writes of a command; \<open>frame\<close> relates the stores
  before and after.
\<close>

fun run_spec :: "('op \<Rightarrow> 'a \<Rightarrow> 'r \<times> 'a) \<Rightarrow> 'op list \<Rightarrow> 'a \<Rightarrow> 'r list \<times> 'a" where
  "run_spec spec [] x = ([], x)"
| "run_spec spec (op # ops) x = (case spec op x of (r, y) \<Rightarrow> (case run_spec spec ops y of (rs, z) \<Rightarrow> (r # rs, z)))"

definition run_cost :: "('op \<Rightarrow> nat) \<Rightarrow> 'op list \<Rightarrow> nat" where
  "run_cost cost ops = sum_list (map cost ops)"

locale store_commands = kv_store +
  fixes call :: "'op \<Rightarrow> ('a, 'r) pym"
    and spec :: "'op \<Rightarrow> 'v \<Rightarrow> 'r \<times> 'v"
    and cost :: "'op \<Rightarrow> nat"
    and op_ok :: "'op \<Rightarrow> bool"
    and holds :: "(bytes \<rightharpoonup> bytes) \<Rightarrow> 'v \<Rightarrow> nat \<Rightarrow> bool"
    and frame :: "(bytes \<rightharpoonup> bytes) \<Rightarrow> (bytes \<rightharpoonup> bytes) \<Rightarrow> bool"
  assumes step_law: "repr K f (n + cost op) \<Longrightarrow> holds f x (n + cost op) \<Longrightarrow> op_ok op \<Longrightarrow>
      wp (call op) (\<lambda>r K'. r = fst (spec op x) \<and> (\<exists>f'. repr K' f' n \<and> holds f' (snd (spec op x)) n \<and> frame f f')) K"
    and frame_refl: "frame f f"
    and frame_trans: "frame f g \<Longrightarrow> frame g h \<Longrightarrow> frame f h"
begin

lemma wp_run:
  "repr K f (n + run_cost cost ops) \<Longrightarrow> holds f x (n + run_cost cost ops) \<Longrightarrow> list_all op_ok ops \<Longrightarrow>
   wp (map_m call ops) (\<lambda>rs K'. rs = fst (run_spec spec ops x) \<and>
      (\<exists>f'. repr K' f' n \<and> holds f' (snd (run_spec spec ops x)) n \<and> frame f f')) K"
proof (induction ops arbitrary: K f x)
  case Nil
  then show ?case by (auto simp: run_cost_def frame_refl intro!: exI [of _ f])
next
  case (Cons op ops)
  obtain r y where s: "spec op x = (r, y)" by fastforce
  obtain rs z where z: "run_spec spec ops y = (rs, z)" by fastforce
  have step: "wp (call op) (\<lambda>r K'. r = fst (spec op x) \<and> (\<exists>f'. repr K' f' (n + run_cost cost ops) \<and>
     holds f' (snd (spec op x)) (n + run_cost cost ops) \<and> frame f f')) K"
    by (rule step_law) (use Cons.prems in \<open>auto simp: run_cost_def ac_simps\<close>)
  show ?case unfolding map_m.simps wp_simps
  proof (rule wp_mono [OF step])
    fix r' and K1 assume "r' = fst (spec op x) \<and> (\<exists>f'. repr K1 f' (n + run_cost cost ops) \<and>
        holds f' (snd (spec op x)) (n + run_cost cost ops) \<and> frame f f')"
    then obtain f1 where f1: "r' = r" "repr K1 f1 (n + run_cost cost ops)" "holds f1 y (n + run_cost cost ops)" "frame f f1"
      by (auto simp: s)
    show "wp (map_m call ops) (\<lambda>ys K'. r' # ys = fst (run_spec spec (op # ops) x) \<and>
        (\<exists>f'. repr K' f' n \<and> holds f' (snd (run_spec spec (op # ops) x)) n \<and> frame f f')) K1"
      by (rule wp_mono [OF Cons.IH [OF f1(2,3)]])
        (use Cons.prems(3) f1(1) frame_trans [OF f1(4)] in \<open>auto simp: s z\<close>)
  qed
qed

lemma run: "repr K f (n + run_cost cost ops) \<Longrightarrow> holds f x (n + run_cost cost ops) \<Longrightarrow> list_all op_ok ops \<Longrightarrow>
   \<exists>K' f'. map_m call ops K = (Inr (fst (run_spec spec ops x)), K') \<and> repr K' f' n \<and>
     holds f' (snd (run_spec spec ops x)) n \<and> frame f f'"
  using wp_result [OF wp_run] by simp

end

section \<open>The LSM tree as a store\<close>

definition writes_ok :: "history \<Rightarrow> bool" where
  "writes_ok ws \<longleftrightarrow> (\<forall>(k, v) \<in> set ws. key_ok k \<and> length v < 2 ^ 32)"

definition lsm_repr :: "host \<Rightarrow> lsm \<Rightarrow> (bytes \<rightharpoonup> bytes) \<Rightarrow> nat \<Rightarrow> bool" where
  "lsm_repr H L f n \<longleftrightarrow> (\<exists>ess segs ws m p. lsm_inv H L ess segs ws m p \<and> (\<exists>b. durable segs ws b m p) \<and>
     (w_sync_mode (l_wal L) = Always \<longrightarrow> w_pending (l_wal L) = []) \<and> host_ok H \<and> writes_ok ws \<and>
     length ws + n \<le> 40000000 \<and> room L n \<and> f = vis (rawmap ws))"

lemma writes_hist_ok: "writes_ok ws \<Longrightarrow> length ws \<le> 40000000 \<Longrightarrow> hist_ok ws"
proof -
  assume w: "writes_ok ws" and l: "length ws \<le> 40000000"
  have "length (data_bytes ws) \<le> length ws * (6 + 65535 + 2 ^ 32)" using w
    by (induction ws) (auto simp: length_entry_bytes writes_ok_def key_ok_def)
  also have "\<dots> \<le> 40000000 * (6 + 65535 + 2 ^ 32)" using l by (rule mult_right_mono) simp
  finally have "length (data_bytes ws) < 2 ^ 60" by simp
  then show "hist_ok ws" using w l by (auto simp: hist_ok_def writes_ok_def key_ok_def entry_ok_def)
qed

lemma lsm_repr_op:
  assumes r: "lsm_repr H L f (Suc n)" and op: "op \<noteq> Compact" and "op_writes op = [] \<or> (\<exists>k v. op_writes op = [(k, v)] \<and> key_ok k \<and> length v < 2 ^ 32)"
  shows "\<exists>L'. apply_op H op L = (Inr (), L') \<and> lsm_repr H L' (spec_op op f) n"
proof -
  obtain ess segs ws m p b where i: "lsm_inv H L ess segs ws m p" "host_ok H" "writes_ok ws"
    "length ws + Suc n \<le> 40000000" "room L (Suc n)" "f = vis (rawmap ws)"
    and d: "durable segs ws b m p" "w_sync_mode (l_wal L) = Always \<longrightarrow> w_pending (l_wal L) = []"
    using r unfolding lsm_repr_def by blast
  have w: "writes_ok (ws @ op_writes op)" and l: "length (ws @ op_writes op) + n \<le> 40000000"
    using i(3,4) assms(3) by (auto simp: writes_ok_def)
  have h: "hist_ok (ws @ op_writes op)" by (rule writes_hist_ok [OF w]) (use l in simp)
  obtain L' ess' segs' m' p' where s: "apply_op H op L = (Inr (), L')"
     "lsm_inv H L' ess' segs' (ws @ op_writes op) m' p'" "keeps L L' n" "\<exists>b'. durable segs' (ws @ op_writes op) b' m' p'"
    using op_step [OF i(1,2) h i(5)] op d(1) by blast
  have "room L' n" "w_sync_mode (l_wal L') = Always \<longrightarrow> w_pending (l_wal L') = []"
    using s(3) d(2) unfolding keeps_def by auto
  moreover have "spec_op op f = vis (rawmap (ws @ op_writes op))" by (simp only: vis_writes i(6))
  ultimately show ?thesis using i(2) w l s(1,2,4) unfolding lsm_repr_def by blast
qed

lemma room_mono: "room L n \<Longrightarrow> n' \<le> n \<Longrightarrow> room L n'"
  by (simp add: room_def)

lemma lsm_repr_mono:
  assumes "lsm_repr H L f n" "n' \<le> n"
  shows "lsm_repr H L f n'"
proof -
  obtain ess segs ws m p b where "lsm_inv H L ess segs ws m p" "durable segs ws b m p" "host_ok H" "writes_ok ws"
    "length ws + n \<le> 40000000" "room L n" "f = vis (rawmap ws)" "w_sync_mode (l_wal L) = Always \<longrightarrow> w_pending (l_wal L) = []"
    using assms(1) unfolding lsm_repr_def by blast
  moreover from this have "length ws + n' \<le> 40000000" "room L n'" using assms(2) room_mono by auto
  ultimately show ?thesis unfolding lsm_repr_def by blast
qed

text \<open>Changes of the log that neither its frames nor its buffer show.\<close>

lemma lsm_repr_log:
  assumes r: "lsm_repr H L f n" and w: "\<And>segs. wal_ok (l_wal L) segs \<Longrightarrow> wal_ok w segs"
    and same: "w_sync_mode w = w_sync_mode (l_wal L)" "w_pending w = w_pending (l_wal L)"
    and room: "room L n \<Longrightarrow> room (L\<lparr>l_wal := w\<rparr>) n'" "n' \<le> n"
  shows "lsm_repr H (L\<lparr>l_wal := w\<rparr>) f n'"
proof -
  obtain ess segs ws m p b where i: "lsm_inv H L ess segs ws m p" "durable segs ws b m p" "host_ok H" "writes_ok ws"
    "length ws + n \<le> 40000000" "room L n" "f = vis (rawmap ws)" "w_sync_mode (l_wal L) = Always \<longrightarrow> w_pending (l_wal L) = []"
    using r unfolding lsm_repr_def by blast
  have "lsm_inv H (L\<lparr>l_wal := w\<rparr>) ess segs ws m p" using i(1) w by (simp add: lsm_inv_def lsm_view_def)
  moreover have "length ws + n' \<le> 40000000" "room (L\<lparr>l_wal := w\<rparr>) n'" using i(5,6) room by auto
  moreover have "w_sync_mode (l_wal (L\<lparr>l_wal := w\<rparr>)) = Always \<longrightarrow> w_pending (l_wal (L\<lparr>l_wal := w\<rparr>)) = []"
    using i(8) same by simp
  ultimately show ?thesis using i(2-4,7) unfolding lsm_repr_def by blast
qed

interpretation st: kv_store "lsm_repr H" "lsm_put H" "lsm_delete H" "lsm_get H" lsm_scan for H
proof
  fix s f n k v assume "lsm_repr H s f (Suc n)" "key_ok k" "val_ok v"
  with lsm_repr_op [of H s f n "Put k v"] show "\<exists>s'. lsm_put H k v s = (Inr (), s') \<and> lsm_repr H s' (f(k \<mapsto> v)) n"
    by (auto simp: val_ok_def live_def)
next
  fix s f n k assume "lsm_repr H s f (Suc n)" "key_ok k"
  with lsm_repr_op [of H s f n "Delete k"] show "\<exists>s'. lsm_delete H k s = (Inr (), s') \<and> lsm_repr H s' (f(k := None)) n"
    by (auto simp: TOMBSTONE_def)
next
  fix s f n k assume "lsm_repr H s f n"
  then show "lsm_get H k s = Inr (f k)" using lsm_get_view by (auto simp: lsm_repr_def lsm_inv_def)
next
  fix s f n a b assume "lsm_repr H s f n"
  then show "\<exists>es. lsm_scan a b s = Inr es \<and> strict_keys es \<and>
      (\<forall>k. map_of es k = (if in_bounds a b k then f k else None))"
    unfolding lsm_repr_def lsm_inv_def using lsm_scan_view [of H s _ _ _ _ a b] by blast
next
  fix s f n assume "lsm_repr H s f (Suc n)"
  then show "lsm_repr H s f n" by (rule lsm_repr_mono) simp
qed

interpretation mst: marked_store "lsm_repr H" "lsm_put H" "lsm_delete H" "lsm_get H" lsm_scan txn_begin_mark txn_commit_mark for H
proof
  fix s f n assume r: "lsm_repr H s f (Suc n)"
  show "\<exists>s'. txn_begin_mark s = (Inr (), s') \<and> lsm_repr H s' f n" using lsm_repr_op [OF r, of Begin] by simp
  show "\<exists>s'. txn_commit_mark s = (Inr (), s') \<and> lsm_repr H s' f n" using lsm_repr_op [OF r, of Commit] by simp
qed

lemma lsm_repr_fresh: "host_ok H \<Longrightarrow> n \<le> 40000000 \<Longrightarrow> lsm_repr H (lsm_open H [] [] mb mode clk t) Map.empty n"
  using fresh_tree(1,3,4,5) [of H mb mode clk t] fresh_tree(2)
  unfolding lsm_repr_def keeps_def room_def
  by (intro exI [of _ "[]"] exI [of _ "[(1, [])]"] exI [of _ "[]"] exI [of _ 0] exI [of _ 0])
    (auto simp: writes_ok_def vis_def fun_eq_iff)

section \<open>A restart\<close>

text \<open>A tree that syncs every record reads the same after a crash.\<close>

lemma lsm_repr_crash:
  assumes "lsm_repr H L f n" "w_sync_mode (l_wal L) = Always"
  shows "lsm_get H k (lsm_open H (fst (lsm_crash c L)) (snd (lsm_crash c L)) mb mode clk t) = Inr (f k)"
proof -
  obtain ess segs ws m p b where "lsm_inv H L ess segs ws m p" "durable segs ws b m p" "f = vis (rawmap ws)"
    "w_pending (l_wal L) = []"
    using assms unfolding lsm_repr_def by blast
  with crash_synced show ?thesis by blast
qed

end
