(* ===== verification/Txn.thy ===== *)
theory Txn
  imports Store
begin

text \<open>
  \<open>zenith/engine/txn.py\<close>: transactions over the LSM tree. A transaction buffers its writes in
  two dictionaries and holds no view of the tree; \<open>commit\<close> writes them out between two markers
  of the log. A \<open>with\<close> block is \<open>txn_exit\<close> after its body. Values are \<open>str\<close> or \<open>bytes\<close>, both
  a byte string here; the manager's lock makes a commit one transition.
\<close>

section \<open>The code\<close>

record txn =
  t_writes :: "(bytes \<times> bytes) list"
  t_meta :: "(bytes \<times> bytes) list"
  t_committed :: bool
  t_rolled_back :: bool

definition V_KEY :: "bytes \<Rightarrow> bytes" where
  "V_KEY key = ''__V__:'' @ key"

definition TYPE_KEY :: "bytes \<Rightarrow> bytes" where
  "TYPE_KEY key = ''__TYPE__:'' @ key"

definition EXP_KEY :: "bytes \<Rightarrow> bytes" where
  "EXP_KEY key = ''__EXP__:'' @ key"

definition txn_begin :: txn where
  "txn_begin = \<lparr>t_writes = [], t_meta = [], t_committed = False, t_rolled_back = False\<rparr>"

definition txn_finished :: "txn \<Rightarrow> bool" where
  "txn_finished t \<longleftrightarrow> t_committed t \<or> t_rolled_back t"

definition INACTIVE :: py_error where
  "INACTIVE = RuntimeError ''Transaction is no longer active''"

definition txn_set :: "bytes \<Rightarrow> bytes \<Rightarrow> (txn, unit) pym" where
  "txn_set key value t =
     (if txn_finished t then (Inl INACTIVE, t)
      else (Inr (), t\<lparr>t_writes := AList.update (V_KEY key) value (t_writes t),
                      t_meta := AList.update (TYPE_KEY key) ''string'' (t_meta t)\<rparr>))"

definition txn_delete :: "bytes \<Rightarrow> (txn, unit) pym" where
  "txn_delete key t =
     (if txn_finished t then (Inl INACTIVE, t)
      else (Inr (), t\<lparr>t_writes := AList.update (V_KEY key) TOMBSTONE (t_writes t),
                      t_meta := AList.update (EXP_KEY key) TOMBSTONE
                                  (AList.update (TYPE_KEY key) TOMBSTONE (t_meta t))\<rparr>))"

text \<open>\<open>val.decode("utf-8") if val else None\<close>: an empty value is treated as absent.\<close>

definition txn_get :: "host \<Rightarrow> bytes \<Rightarrow> txn \<Rightarrow> lsm \<Rightarrow> bytes option res" where
  "txn_get H key t L =
     (case map_of (t_writes t) (V_KEY key) of
        Some v \<Rightarrow> (if v = TOMBSTONE then Inr None else rbind (py_decode v) (\<lambda>s. Inr (Some s)))
      | None \<Rightarrow> rbind (lsm_get H (V_KEY key) L) (\<lambda>r. case r of
            Some v \<Rightarrow> (if v = [] then Inr None else rbind (py_decode v) (\<lambda>s. Inr (Some s)))
          | None \<Rightarrow> Inr None))"

definition commit_write :: "host \<Rightarrow> bytes \<times> bytes \<Rightarrow> (lsm, unit) pym" where
  "commit_write H = (\<lambda>(k, v). if v = TOMBSTONE then lsm_delete H k else lsm_put H k v)"

definition txn_commit :: "host \<Rightarrow> (txn \<times> lsm, unit) pym" where
  "txn_commit H s =
     (let t = fst s in
      if txn_finished t then (Inl INACTIVE, s)
      else case sq txn_begin_mark
               (sq (for_each (t_writes t) (commit_write H))
               (sq (for_each (t_meta t) (commit_write H)) txn_commit_mark)) (snd s) of
          (Inl e, L) \<Rightarrow> (Inl e, (t, L))
        | (Inr u, L) \<Rightarrow> (Inr (), (t\<lparr>t_committed := True\<rparr>, L)))"

definition txn_rollback :: "txn \<Rightarrow> txn" where
  "txn_rollback t =
     (if txn_finished t then t else t\<lparr>t_writes := [], t_meta := [], t_rolled_back := True\<rparr>)"

text \<open>\<open>__exit__\<close>; the flag says whether the body of the \<open>with\<close> block raised.\<close>

definition txn_exit :: "host \<Rightarrow> bool \<Rightarrow> (txn \<times> lsm, unit) pym" where
  "txn_exit H raised s =
     (if raised then (Inr (), (txn_rollback (fst s), snd s))
      else if \<not> txn_finished (fst s) then txn_commit H s
      else (Inr (), s))"

section \<open>What the buffers stand for\<close>

datatype txn_op = TSet bytes bytes | TDel bytes

fun txn_call :: "txn_op \<Rightarrow> (txn, unit) pym" where
  "txn_call (TSet k v) = txn_set k v"
| "txn_call (TDel k) = txn_delete k"

fun call_spec :: "txn_op \<Rightarrow> (bytes \<rightharpoonup> bytes) \<Rightarrow> (bytes \<rightharpoonup> bytes)" where
  "call_spec (TSet k v) f = f(V_KEY k := live v, TYPE_KEY k \<mapsto> ''string'')"
| "call_spec (TDel k) f = f(V_KEY k := None, TYPE_KEY k := None, EXP_KEY k := None)"

fun call_ok :: "txn_op \<Rightarrow> bool" where
  "call_ok (TSet k v) \<longleftrightarrow> length k \<le> 65000 \<and> length v < 2 ^ 32"
| "call_ok (TDel k) \<longleftrightarrow> length k \<le> 65000"

fun call_key :: "txn_op \<Rightarrow> bytes" where
  "call_key (TSet k v) = k"
| "call_key (TDel k) = k"

lemma key_distinct [simp]:
  "V_KEY a \<noteq> TYPE_KEY b" "TYPE_KEY b \<noteq> V_KEY a" "V_KEY a \<noteq> EXP_KEY b" "EXP_KEY b \<noteq> V_KEY a"
  "TYPE_KEY a \<noteq> EXP_KEY b" "EXP_KEY b \<noteq> TYPE_KEY a"
  "V_KEY a = V_KEY b \<longleftrightarrow> a = b" "TYPE_KEY a = TYPE_KEY b \<longleftrightarrow> a = b" "EXP_KEY a = EXP_KEY b \<longleftrightarrow> a = b"
  by (simp_all add: V_KEY_def TYPE_KEY_def EXP_KEY_def)

lemma key_ok_keys: "length k \<le> 65000 \<Longrightarrow> key_ok (V_KEY k) \<and> key_ok (TYPE_KEY k) \<and> key_ok (EXP_KEY k)"
  by (simp add: key_ok_def V_KEY_def TYPE_KEY_def EXP_KEY_def)

lemma const_live [simp]: "live TOMBSTONE = None" "live ''string'' = Some ''string''"
  by (simp_all add: live_def TOMBSTONE_def)

text \<open>The state of an active transaction after the calls \<open>cs\<close>.\<close>

definition txn_holds :: "txn \<Rightarrow> txn_op list \<Rightarrow> bool" where
  "txn_holds t cs \<longleftrightarrow> \<not> txn_finished t \<and>
     distinct (map fst (t_writes t)) \<and> distinct (map fst (t_meta t)) \<and>
     fst ` set (t_writes t) = V_KEY ` call_key ` set cs \<and>
     fst ` set (t_meta t) \<subseteq> TYPE_KEY ` call_key ` set cs \<union> EXP_KEY ` call_key ` set cs \<and>
     (\<forall>f. buffered (t_writes t @ t_meta t) f = fold call_spec cs f) \<and>
     length (t_writes t) \<le> length cs \<and> length (t_meta t) \<le> 2 * length cs \<and>
     (list_all call_ok cs \<longrightarrow> (\<forall>(k, v) \<in> set (t_writes t @ t_meta t). key_ok k \<and> length v < 2 ^ 32))"

lemma holds_begin: "txn_holds txn_begin []"
  by (simp add: txn_holds_def txn_begin_def txn_finished_def)

lemma update_keys: "fst ` set (AList.update k v d) = insert k (fst ` set d)"
  by (rule keys_update)

lemma length_update: "length (AList.update k v d) \<le> Suc (length d)"
  by (induction d) auto

lemma set_update: "set (AList.update k v d) \<subseteq> insert (k, v) (set d)"
  by (induction d) auto

text \<open>Two buffers over disjoint keys, as maps.\<close>

lemma buffered_two:
  assumes "distinct (map fst w)" "distinct (map fst m)"
  shows "buffered (w @ m) f k =
    (case map_of m k of Some v \<Rightarrow> live v | None \<Rightarrow> (case map_of w k of Some v \<Rightarrow> live v | None \<Rightarrow> f k))"
  using assms by (simp add: buffered_lookup split: option.split)

lemma holds_call:
  assumes "txn_holds t cs"
  shows "\<exists>t'. txn_call c t = (Inr (), t') \<and> txn_holds t' (cs @ [c])"
proof -
  have A: "\<not> txn_finished t" "distinct (map fst (t_writes t))" "distinct (map fst (t_meta t))"
    "fst ` set (t_writes t) = V_KEY ` call_key ` set cs"
    "fst ` set (t_meta t) \<subseteq> TYPE_KEY ` call_key ` set cs \<union> EXP_KEY ` call_key ` set cs"
    "\<And>f. buffered (t_writes t @ t_meta t) f = fold call_spec cs f"
    "length (t_writes t) \<le> length cs" "length (t_meta t) \<le> 2 * length cs"
    "list_all call_ok cs \<Longrightarrow> \<forall>(k, v) \<in> set (t_writes t @ t_meta t). key_ok k \<and> length v < 2 ^ 32"
    using assms by (auto simp: txn_holds_def)
  have none: "map_of (t_meta t) (V_KEY k) = None" "map_of (t_writes t) (TYPE_KEY k) = None"
    "map_of (t_writes t) (EXP_KEY k) = None" for k
    using A(4,5) by (auto simp: map_of_eq_None_iff)
  have sp: "fold call_spec cs f k = (case map_of (t_meta t) k of Some v \<Rightarrow> live v
     | None \<Rightarrow> (case map_of (t_writes t) k of Some v \<Rightarrow> live v | None \<Rightarrow> f k))" for f k
    using A(6) [of f] buffered_two [OF A(2,3)] by metis
  show ?thesis
  proof (cases c)
    case (TSet k v)
    let ?t = "t\<lparr>t_writes := AList.update (V_KEY k) v (t_writes t), t_meta := AList.update (TYPE_KEY k) ''string'' (t_meta t)\<rparr>"
    have "buffered (t_writes ?t @ t_meta ?t) f = fold call_spec (cs @ [c]) f" for f
      using A(2,3) none by (auto simp: TSet fun_eq_iff buffered_lookup distinct_update update_conv' sp split: option.split)
    moreover have "\<forall>(k, v) \<in> set (t_writes ?t @ t_meta ?t). key_ok k \<and> length v < 2 ^ 32" if "list_all call_ok (cs @ [c])"
      using that A(9) key_ok_keys [of k] set_update [of "V_KEY k" v "t_writes t"]
        set_update [of "TYPE_KEY k" "''string''" "t_meta t"] by (fastforce simp: TSet)
    moreover have "txn_call c t = (Inr (), ?t)" using A(1) by (simp add: TSet txn_set_def)
    ultimately show ?thesis
      using A length_update [of "V_KEY k" v "t_writes t"] length_update [of "TYPE_KEY k" "''string''" "t_meta t"]
      by (intro exI [of _ ?t]) (auto simp: txn_holds_def txn_finished_def TSet distinct_update update_keys)
  next
    case (TDel k)
    let ?t = "t\<lparr>t_writes := AList.update (V_KEY k) TOMBSTONE (t_writes t),
       t_meta := AList.update (EXP_KEY k) TOMBSTONE (AList.update (TYPE_KEY k) TOMBSTONE (t_meta t))\<rparr>"
    have "buffered (t_writes ?t @ t_meta ?t) f = fold call_spec (cs @ [c]) f" for f
      using A(2,3) none by (auto simp: TDel fun_eq_iff buffered_lookup distinct_update update_conv' sp split: option.split)
    moreover have "length TOMBSTONE < 2 ^ 32" by (simp add: TOMBSTONE_def)
    then have "\<forall>(k, v) \<in> set (t_writes ?t @ t_meta ?t). key_ok k \<and> length v < 2 ^ 32" if "list_all call_ok (cs @ [c])"
      using that A(9) key_ok_keys [of k] set_update [of "V_KEY k" TOMBSTONE "t_writes t"]
        set_update [of "EXP_KEY k" TOMBSTONE "AList.update (TYPE_KEY k) TOMBSTONE (t_meta t)"]
        set_update [of "TYPE_KEY k" TOMBSTONE "t_meta t"] by (fastforce simp: TDel)
    moreover have "txn_call c t = (Inr (), ?t)" using A(1) by (simp add: TDel txn_delete_def)
    ultimately show ?thesis
      using A length_update [of "V_KEY k" TOMBSTONE "t_writes t"] length_update [of "TYPE_KEY k" TOMBSTONE "t_meta t"]
        length_update [of "EXP_KEY k" TOMBSTONE "AList.update (TYPE_KEY k) TOMBSTONE (t_meta t)"]
      by (intro exI [of _ ?t]) (auto simp: txn_holds_def txn_finished_def TDel distinct_update update_keys)
  qed
qed

lemma holds_calls: "txn_holds t cs \<Longrightarrow> \<exists>t'. for_each ds txn_call t = (Inr (), t') \<and> txn_holds t' (cs @ ds)"
proof (induction ds arbitrary: t cs)
  case (Cons d ds)
  obtain t1 where t1: "txn_call d t = (Inr (), t1)" "txn_holds t1 (cs @ [d])" using holds_call [OF Cons.prems] by blast
  from Cons.IH [OF this(2)] t1(1) show ?case by (auto simp: sq_eval(1))
qed (simp add: pym_simps)

section \<open>Commit\<close>

lemma commit_store:
  assumes h: "txn_holds t cs" "list_all call_ok cs" and r: "lsm_repr H L f (n + 3 * length cs + 2)"
  shows "\<exists>L'. txn_commit H (t, L) = (Inr (), (t\<lparr>t_committed := True\<rparr>, L')) \<and>
     lsm_repr H L' (fold call_spec cs f) n"
proof -
  have l: "length (t_writes t) \<le> length cs" "length (t_meta t) \<le> 2 * length cs"
    and a: "\<not> txn_finished t" and b: "buffered (t_writes t @ t_meta t) f = fold call_spec cs f"
    and ok: "\<forall>(k, v) \<in> set (t_writes t @ t_meta t). key_ok k \<and> length v < 2 ^ 32"
    using h by (auto simp: txn_holds_def)
  have "lsm_repr H L f (n + length (t_writes t) + length (t_meta t) + 2)"
    by (rule st.room_le [OF r]) (use l in simp)
  from mst.marked_writes [OF this ok] obtain L' where
    "sq txn_begin_mark (sq (for_each (t_writes t) (commit_write H))
       (sq (for_each (t_meta t) (commit_write H)) txn_commit_mark)) L = (Inr (), L')"
    "lsm_repr H L' (buffered (t_writes t @ t_meta t) f) n" unfolding commit_write_def by blast
  with a b show ?thesis by (simp add: txn_commit_def)
qed

text \<open>
  C14. A commit applies the whole transaction. After any sets and deletes of a new transaction
  on a tree that holds the map \<open>f\<close>, \<open>commit\<close> returns, and every key of the tree then reads
  as if the calls had been applied to \<open>f\<close> one by one.
\<close>

theorem txn_commit_applies:
  assumes "lsm_repr H L f (n + 3 * length cs + 2)" "list_all call_ok cs"
  shows "\<exists>t L'. for_each cs txn_call txn_begin = (Inr (), t) \<and>
     txn_commit H (t, L) = (Inr (), (t\<lparr>t_committed := True\<rparr>, L')) \<and>
     (\<forall>k. lsm_get H k L' = Inr (fold call_spec cs f k)) \<and> lsm_repr H L' (fold call_spec cs f) n"
proof -
  obtain t where t: "for_each cs txn_call txn_begin = (Inr (), t)" "txn_holds t cs"
    using holds_calls [OF holds_begin, of cs] by auto
  obtain L' where "txn_commit H (t, L) = (Inr (), (t\<lparr>t_committed := True\<rparr>, L'))"
    "lsm_repr H L' (fold call_spec cs f) n" using commit_store [OF t(2) assms(2,1)] by blast
  with t(1) st.get_law show ?thesis by blast
qed

definition sample_tree :: lsm where
  "sample_tree = lsm_open sample_host [] [] 100 Always (\<lambda>_. 0) 0"

lemma sample_repr: "n \<le> 40000000 \<Longrightarrow> lsm_repr sample_host sample_tree Map.empty n"
  unfolding sample_tree_def by (rule lsm_repr_fresh [OF sample_run_ok(2)])

theorem txn_commit_applies_witness:
  "\<exists>t L'. for_each [TSet ''a'' ''1'', TSet ''b'' ''2'', TDel ''a''] txn_call txn_begin = (Inr (), t) \<and>
     txn_commit sample_host (t, sample_tree) = (Inr (), (t\<lparr>t_committed := True\<rparr>, L')) \<and>
     lsm_get sample_host (V_KEY ''a'') L' = Inr None \<and> lsm_get sample_host (V_KEY ''b'') L' = Inr (Some ''2'')"
proof -
  let ?cs = "[TSet ''a'' ''1'', TSet ''b'' ''2'', TDel ''a'']"
  have "fold call_spec ?cs Map.empty (V_KEY ''a'') = None" "fold call_spec ?cs Map.empty (V_KEY ''b'') = Some ''2''"
    by (simp_all add: live_def TOMBSTONE_def)
  with txn_commit_applies [of sample_host sample_tree Map.empty 0 ?cs] sample_repr show ?thesis by fastforce
qed

text \<open>
  C17. A transaction reads its own writes, and the tree for keys it has not touched. An empty
  value stored in the tree is reported as absent, one in the buffer is not.
\<close>

theorem txn_reads_own_writes:
  assumes "lsm_repr H L f n"
  shows "\<exists>t. for_each cs txn_call txn_begin = (Inr (), t) \<and>
     txn_get H k t L = (case fold call_spec cs f (V_KEY k) of
         None \<Rightarrow> Inr None
       | Some v \<Rightarrow> if v = [] \<and> k \<notin> call_key ` set cs then Inr None
                   else rbind (py_decode v) (\<lambda>s. Inr (Some s)))"
proof -
  obtain t where t: "for_each cs txn_call txn_begin = (Inr (), t)" "txn_holds t cs"
    using holds_calls [OF holds_begin, of cs] by auto
  have h: "distinct (map fst (t_writes t))" "distinct (map fst (t_meta t))"
    "fst ` set (t_writes t) = V_KEY ` call_key ` set cs"
    "fst ` set (t_meta t) \<subseteq> TYPE_KEY ` call_key ` set cs \<union> EXP_KEY ` call_key ` set cs"
    "fold call_spec cs f = buffered (t_writes t @ t_meta t) f"
    using t(2) by (auto simp: txn_holds_def)
  have m: "map_of (t_meta t) (V_KEY k) = None" using h(4) by (auto simp: map_of_eq_None_iff)
  then have e: "fold call_spec cs f (V_KEY k)
      = (case map_of (t_writes t) (V_KEY k) of Some v \<Rightarrow> live v | None \<Rightarrow> f (V_KEY k))"
    unfolding h(5) using h(1,2) by (simp only: buffered_two option.case)
  have i: "map_of (t_writes t) (V_KEY k) = None \<longleftrightarrow> k \<notin> call_key ` set cs"
    using h(3) by (auto simp: map_of_eq_None_iff)
  show ?thesis
    using t(1) st.get_law [OF assms] e i
    by (cases "map_of (t_writes t) (V_KEY k)") (auto simp: txn_get_def live_def split: option.split)
qed

theorem txn_reads_own_writes_witness:
  "\<exists>t. for_each [TSet ''a'' ''1''] txn_call txn_begin = (Inr (), t) \<and>
     txn_get sample_host ''a'' t sample_tree = Inr (Some ''1'')"
proof -
  have "utf8_valid ''1''" by (rule utf8_ascii) simp
  then show ?thesis
    using txn_reads_own_writes [OF sample_repr, of 0 "[TSet ''a'' ''1'']" "''a''"]
    by (simp add: live_def TOMBSTONE_def py_decode_def)
qed

section \<open>The life of a transaction\<close>

text \<open>
  One call on a transaction and its tree, successful or raising. A \<open>with\<close> block ends in
  \<open>txn_exit\<close>.
\<close>

inductive txn_step :: "host \<Rightarrow> txn \<times> lsm \<Rightarrow> txn \<times> lsm \<Rightarrow> bool" for H where
  Call: "txn_call c t = (r, t') \<Longrightarrow> txn_step H (t, L) (t', L)"
| Rollback: "txn_step H (t, L) (txn_rollback t, L)"
| Commits: "txn_commit H s = (r, s') \<Longrightarrow> txn_step H s s'"
| Exit: "txn_exit H raised s = (r, s') \<Longrightarrow> txn_step H s s'"

inductive txn_reachable :: "host \<Rightarrow> lsm \<Rightarrow> txn \<times> lsm \<Rightarrow> bool" for H L where
  Start: "txn_reachable H L (txn_begin, L)"
| Step: "txn_reachable H L s \<Longrightarrow> txn_step H s s' \<Longrightarrow> txn_reachable H L s'"

lemma call_finished: "txn_finished t \<Longrightarrow> txn_call c t = (Inl INACTIVE, t)"
  by (cases c) (simp_all add: txn_set_def txn_delete_def)

lemma call_flags:
  "txn_call c t = (r, t') \<Longrightarrow> t_committed t' = t_committed t \<and> t_rolled_back t' = t_rolled_back t"
  by (cases c) (auto simp: txn_set_def txn_delete_def split: if_splits)

lemma commit_finished: "txn_finished t \<Longrightarrow> txn_commit H (t, L) = (Inl INACTIVE, (t, L))"
  by (simp add: txn_commit_def)

text \<open>A commit either fails and leaves the transaction as it was, or it succeeds.\<close>

lemma commit_cases:
  assumes "txn_commit H (t, L) = (r, s')"
  obtains e where "r = Inl e" "fst s' = t"
    | "r = Inr ()" "\<not> txn_finished t" "fst s' = t\<lparr>t_committed := True\<rparr>"
  using assms by (auto simp: txn_commit_def Let_def split: if_splits sum.splits prod.splits)

lemma step_finished: "txn_step H (t, L) s' \<Longrightarrow> txn_finished t \<Longrightarrow> s' = (t, L)"
  by (erule txn_step.cases) (auto simp: call_finished commit_finished txn_rollback_def txn_exit_def split: if_splits)

definition txn_state_ok :: "txn \<Rightarrow> bool" where
  "txn_state_ok t \<longleftrightarrow> \<not> (t_committed t \<and> t_rolled_back t) \<and>
     (t_rolled_back t \<longrightarrow> t_writes t = [] \<and> t_meta t = [])"

lemma step_ok:
  assumes "txn_step H (t, L) (t', L')" "txn_state_ok t"
  shows "txn_state_ok t' \<and> (t_committed t' \<and> \<not> t_committed t \<longrightarrow> txn_commit H (t, L) = (Inr (), (t', L')))"
proof (cases "txn_finished t")
  case True
  with step_finished [OF assms(1)] assms(2) show ?thesis by simp
next
  case False
  have c: "txn_state_ok t' \<and> (t_committed t' \<and> \<not> t_committed t \<longrightarrow> txn_commit H (t, L) = (Inr (), (t', L')))"
    if "txn_commit H (t, L) = (r, (t', L'))" for r
    using that by (rule commit_cases) (use that assms(2) False in \<open>auto simp: txn_state_ok_def txn_finished_def\<close>)
  have b: "txn_state_ok (txn_rollback t) \<and> t_committed (txn_rollback t) = t_committed t"
    using False by (simp add: txn_rollback_def txn_state_ok_def txn_finished_def)
  from assms(1) show ?thesis
  proof cases
    case (Call c r)
    with call_flags [OF Call(2)] False show ?thesis by (auto simp: txn_state_ok_def txn_finished_def)
  next
    case (Exit raised r)
    with b c False show ?thesis by (auto simp: txn_exit_def split: if_splits)
  qed (use b c in auto)
qed

text \<open>
  C15. The states of a transaction. Whatever calls are made, in any order and whether they raise
  or not: a transaction is never both committed and rolled back, a rolled-back one has empty
  buffers, a committed one has been committed by exactly one successful \<open>commit\<close> call which
  was the last to change the tree, and once finished no call changes it or the tree.
\<close>

theorem txn_commits_at_most_once:
  assumes "txn_reachable H L0 (t, L)"
  shows "txn_state_ok t \<and>
     (t_committed t \<longrightarrow> (\<exists>t0 L1. txn_reachable H L0 (t0, L1) \<and> \<not> txn_finished t0 \<and>
        txn_commit H (t0, L1) = (Inr (), (t, L)))) \<and>
     (txn_finished t \<longrightarrow> (\<forall>s'. txn_step H (t, L) s' \<longrightarrow> s' = (t, L)))"
proof -
  have "txn_state_ok (fst s) \<and> (t_committed (fst s) \<longrightarrow> (\<exists>t0 L1. txn_reachable H L0 (t0, L1) \<and>
     \<not> txn_finished t0 \<and> txn_commit H (t0, L1) = (Inr (), s)))" if "txn_reachable H L0 s" for s
    using that
  proof (induction rule: txn_reachable.induct)
    case Start
    show ?case by (simp add: txn_state_ok_def txn_begin_def)
  next
    case (Step s s')
    obtain t L t' L' where s: "s = (t, L)" "s' = (t', L')" by fastforce
    note ok = step_ok [OF Step.hyps(2) [unfolded s]]
    show ?case
    proof (cases "txn_finished t")
      case True
      with step_finished Step.hyps(2) have "s' = s" unfolding s by blast
      with Step.IH show ?thesis by simp
    next
      case False
      then show ?thesis using ok Step.IH Step.hyps(1) by (auto simp: s txn_finished_def)
    qed
  qed
  with assms step_finished show ?thesis by fastforce
qed

lemma commit_active:
  assumes "txn_commit H (t, L) = (Inr (), (t', L'))"
  shows "t_committed t'"
  using assms by (rule commit_cases) (use assms in auto)

theorem txn_commits_at_most_once_witness:
  "\<exists>L. txn_reachable sample_host sample_tree (txn_begin\<lparr>t_committed := True\<rparr>, L) \<and>
     (\<forall>s'. txn_step sample_host (txn_begin\<lparr>t_committed := True\<rparr>, L) s' \<longrightarrow> s' = (txn_begin\<lparr>t_committed := True\<rparr>, L))"
proof -
  obtain L where "txn_commit sample_host (txn_begin, sample_tree) = (Inr (), (txn_begin\<lparr>t_committed := True\<rparr>, L))"
    using commit_store [OF holds_begin, of sample_host sample_tree Map.empty 0] sample_repr by auto
  then have "txn_reachable sample_host sample_tree (txn_begin\<lparr>t_committed := True\<rparr>, L)"
    by (intro txn_reachable.Step [OF txn_reachable.Start] txn_step.Commits)
  with txn_commits_at_most_once [OF this] show ?thesis by (auto simp: txn_finished_def)
qed

section \<open>What a commit does not give\<close>

text \<open>
  There is no snapshot. A transaction that reads a key it has not written sees the value
  another client puts after the transaction began.
\<close>

theorem txn_no_snapshot:
  assumes "lsm_repr H L f (Suc n)" "length k \<le> 65000" "val_ok v" "v \<noteq> []" "utf8_valid v"
    and "k \<notin> call_key ` set cs"
  shows "\<exists>t L'. for_each cs txn_call txn_begin = (Inr (), t) \<and> lsm_put H (V_KEY k) v L = (Inr (), L') \<and>
     txn_get H k t L' = Inr (Some v) \<and>
     txn_get H k t L = (case f (V_KEY k) of None \<Rightarrow> Inr None
        | Some u \<Rightarrow> if u = [] then Inr None else rbind (py_decode u) (\<lambda>s. Inr (Some s)))"
proof -
  obtain t where t: "for_each cs txn_call txn_begin = (Inr (), t)" "txn_holds t cs"
    using holds_calls [OF holds_begin, of cs] by auto
  have n: "map_of (t_writes t) (V_KEY k) = None"
    using t(2) assms(6) by (auto simp: txn_holds_def map_of_eq_None_iff)
  obtain L' where L': "lsm_put H (V_KEY k) v L = (Inr (), L')" "lsm_repr H L' (f(V_KEY k \<mapsto> v)) n"
    using st.put_law [OF assms(1) _ assms(3)] key_ok_keys [OF assms(2)] by blast
  have "txn_get H k t L' = Inr (Some v)"
    using st.get_law [OF L'(2)] n assms(4,5) by (simp add: txn_get_def py_decode_def)
  moreover have "txn_get H k t L = (case f (V_KEY k) of None \<Rightarrow> Inr None
        | Some u \<Rightarrow> if u = [] then Inr None else rbind (py_decode u) (\<lambda>s. Inr (Some s)))"
    using st.get_law [OF assms(1)] n by (simp add: txn_get_def split: option.split)
  ultimately show ?thesis using t(1) L'(1) by blast
qed

theorem txn_no_snapshot_witness:
  "\<exists>t L'. for_each [TSet ''a'' ''1''] txn_call txn_begin = (Inr (), t) \<and>
     lsm_put sample_host (V_KEY ''b'') ''2'' sample_tree = (Inr (), L') \<and>
     txn_get sample_host ''b'' t sample_tree = Inr None \<and> txn_get sample_host ''b'' t L' = Inr (Some ''2'')"
proof -
  have "utf8_valid ''2''" "val_ok ''2''" by (rule utf8_ascii) (simp_all add: val_ok_def TOMBSTONE_def)
  then show ?thesis
    using txn_no_snapshot [OF sample_repr, of 0 "''b''" "''2''" "[TSet ''a'' ''1'']"] by fastforce
qed

subsection \<open>Errors in the middle of a commit\<close>

lemma oversize_value_put:
  assumes r: "lsm_repr H L f (Suc n)" and v: "2 ^ 32 \<le> length v"
  shows "\<exists>L'. lsm_put H k v L = (Inl StructError, L') \<and> lsm_repr H L' f n"
proof -
  obtain segs where w: "wal_ok (l_wal L) segs" "w_open (l_wal L)"
    using r unfolding lsm_repr_def by (auto simp: lsm_inv_def wal_ok_def)
  let ?w = "(l_wal L)\<lparr>w_next_lsn := w_next_lsn (l_wal L) + 1, w_ticks := w_ticks (l_wal L) + 1\<rparr>"
  have "wal_append SET k v None (l_wal L) = (Inl StructError, ?w)"
    using w(2) encode_frame_error [of "w_next_lsn (l_wal L)" k v] v by (simp add: wal_append_def wal_time_def Let_def)
  then have "lsm_put H k v L = (Inl StructError, L\<lparr>l_wal := ?w\<rparr>)" by (simp add: lsm_put_def sq_def bnd_def on_wal_def)
  moreover have "wal_ok ?w segs" if "wal_ok (l_wal L) segs" for segs using that by (rule wal_ok_cong) simp_all
  then have "lsm_repr H (L\<lparr>l_wal := ?w\<rparr>) f n" by (rule lsm_repr_log [OF r]) (simp_all add: room_def)
  ultimately show ?thesis by blast
qed

text \<open>
  A commit that raises is not undone. When a buffered value is too long for a log record
  (4 GiB), \<open>commit\<close> raises \<open>struct.error\<close> after the writes before it have reached the tree,
  where they stay visible; the transaction is still active, and a rollback does not remove
  them.
\<close>

theorem txn_commit_error_keeps_writes:
  assumes r: "lsm_repr H L f (n + length ws + 2)" and a: "\<not> txn_finished t"
    and w: "t_writes t = ws @ (k, v) # ws'" and ok: "\<forall>(k, v) \<in> set ws. key_ok k \<and> length v < 2 ^ 32"
    and v: "2 ^ 32 \<le> length v"
  shows "\<exists>L'. txn_commit H (t, L) = (Inl StructError, (t, L')) \<and> \<not> txn_finished t \<and>
     (\<forall>k. lsm_get H k L' = Inr (buffered ws f k)) \<and>
     txn_exit H True (t, L') = (Inr (), (txn_rollback t, L'))"
proof -
  have "lsm_repr H L f (Suc (Suc n + length ws))" using r by simp
  then obtain L1 where L1: "txn_begin_mark L = (Inr (), L1)" "lsm_repr H L1 f (Suc n + length ws)"
    using mst.begin_law by blast
  obtain L2 where L2: "for_each ws (commit_write H) L1 = (Inr (), L2)" "lsm_repr H L2 (buffered ws f) (Suc n)"
    using st.write_buffer [OF L1(2) ok] unfolding commit_write_def by blast
  obtain L3 where L3: "lsm_put H k v L2 = (Inl StructError, L3)" "lsm_repr H L3 (buffered ws f) n"
    using oversize_value_put [OF L2(2) v] by blast
  have "v \<noteq> TOMBSTONE" using v by (auto simp: TOMBSTONE_def)
  then have "for_each (t_writes t) (commit_write H) L1 = (Inl StructError, L3)"
    using L2(1) L3(1) by (simp add: w for_each_prefix sq_def bnd_def commit_write_def)
  then have "txn_commit H (t, L) = (Inl StructError, (t, L3))"
    using a L1(1) by (simp add: txn_commit_def sq_def bnd_def)
  with a st.get_law [OF L3(2)] show ?thesis by (auto simp: txn_exit_def)
qed

theorem txn_commit_error_keeps_writes_witness:
  "\<exists>t L'. for_each [TSet ''a'' ''1'', TSet ''b'' (replicate (2 ^ 32) CHR ''x'')] txn_call txn_begin = (Inr (), t) \<and>
     txn_commit sample_host (t, sample_tree) = (Inl StructError, (t, L')) \<and>
     lsm_get sample_host (V_KEY ''a'') L' = Inr (Some ''1'') \<and> lsm_get sample_host (V_KEY ''b'') L' = Inr None"
proof -
  let ?v = "replicate (2 ^ 32) CHR ''x''"
  let ?t = "txn_begin\<lparr>t_writes := [(V_KEY ''a'', ''1''), (V_KEY ''b'', ?v)],
     t_meta := [(TYPE_KEY ''a'', ''string''), (TYPE_KEY ''b'', ''string'')]\<rparr>"
  have t: "for_each [TSet ''a'' ''1'', TSet ''b'' ?v] txn_call txn_begin = (Inr (), ?t)"
    by (simp add: txn_set_def txn_begin_def txn_finished_def sq_def bnd_def ret_def)
  have "\<exists>L'. txn_commit sample_host (?t, sample_tree) = (Inl StructError, (?t, L')) \<and> \<not> txn_finished ?t \<and>
     (\<forall>k. lsm_get sample_host k L' = Inr (buffered [(V_KEY ''a'', ''1'')] Map.empty k)) \<and>
     txn_exit sample_host True (?t, L') = (Inr (), (txn_rollback ?t, L'))"
    by (rule txn_commit_error_keeps_writes [where n = 0 and v = ?v and k = "V_KEY ''b''" and ws' = "[]"])
      (simp_all add: sample_repr txn_begin_def txn_finished_def key_ok_keys)
  with t show ?thesis by (fastforce simp: live_def TOMBSTONE_def)
qed

subsection \<open>Crashes in the middle of a commit\<close>

text \<open>The calls on the tree that a commit makes, in order.\<close>

definition commit_ops :: "txn \<Rightarrow> lsm_op list" where
  "commit_ops t = Begin # map (\<lambda>(k, v). if v = TOMBSTONE then Delete k else Put k v) (t_writes t @ t_meta t) @ [Commit]"

lemma sq_assoc: "sq (sq m n) r = sq m (sq n r)"
  by (auto simp: sq_def bnd_def fun_eq_iff split: prod.splits sum.splits)

lemma sq_ret_unit [simp]: "sq m (ret ()) = m"
  by (auto simp: sq_def bnd_def ret_def fun_eq_iff split: prod.splits sum.splits)

lemma run_writes: "run_ops H (map (\<lambda>(k, v). if v = TOMBSTONE then Delete k else Put k v) es) = for_each es (commit_write H)"
  by (induction es) (auto simp: run_ops_def commit_write_def split: prod.splits)

lemma commit_runs_ops:
  "\<not> txn_finished t \<Longrightarrow> txn_commit H (t, L) =
     (case run_ops H (commit_ops t) L of (Inl e, L') \<Rightarrow> (Inl e, (t, L')) | (Inr u, L') \<Rightarrow> (Inr (), (t\<lparr>t_committed := True\<rparr>, L')))"
proof -
  assume a: "\<not> txn_finished t"
  have r: "run_ops H (op # ops) = sq (apply_op H op) (run_ops H ops)" for op ops by (simp add: run_ops_def)
  have "run_ops H (commit_ops t) = sq txn_begin_mark (sq (for_each (t_writes t @ t_meta t) (commit_write H)) txn_commit_mark)"
    unfolding commit_ops_def by (simp add: r run_ops_append run_writes del: map_append) (simp add: run_ops_def)
  then show ?thesis using a by (simp add: txn_commit_def Let_def for_each_prefix sq_assoc)
qed

lemma program_ok_take: "program_ok (ops @ ops') \<Longrightarrow> program_ok (ops @ take j ops')"
proof -
  assume p: "program_ok (ops @ ops')"
  have "hist_ok (writes_of ((ops @ take j ops') @ drop j ops'))" using p by (simp add: program_ok_def flip: writes_of_simps(3))
  then have "hist_ok (writes_of (ops @ take j ops'))" by (simp only: writes_of_simps(3)) (rule hist_ok_append, simp)
  moreover have "length (ops @ take j ops') \<le> length (ops @ ops')" by simp
  ultimately show ?thesis using p unfolding program_ok_def by linarith
qed

text \<open>
  C16. A commit is not atomic under a crash, and is durable once it has returned. After a
  program in which no \<open>compact()\<close> was called while there were writes that no flush had followed,
  a commit is the run of \<open>commit_ops\<close>. If the process crashes after any number \<open>j\<close> of these
  calls, the reopened tree holds the writes of a prefix of all the calls made so far, because
  recovery replays the records between the markers of an unfinished transaction like all
  others. In sync mode "always" the prefix is all of them: exactly the part of the transaction
  that had been written is there. In every sync mode it is all of them when the commit was
  complete.
\<close>

theorem txn_crash_inside_commit:
  assumes "host_ok H" "program_ok (ops @ commit_ops t)" "compacts_flushed True ops" "\<not> txn_finished t"
  shows "\<exists>L0 L. run_ops H ops (lsm_open H [] [] mb mode clk tick) = (Inr (), L0) \<and>
     txn_commit H (t, L0) = (case run_ops H (commit_ops t) L0 of (Inl e, L') \<Rightarrow> (Inl e, (t, L'))
         | (Inr u, L') \<Rightarrow> (Inr (), (t\<lparr>t_committed := True\<rparr>, L'))) \<and>
     run_ops H (take j (commit_ops t)) L0 = (Inr (), L) \<and>
     (\<forall>n mb' mode' clk' t'. \<exists>i \<le> length (ops @ take j (commit_ops t)).
        (mode = Always \<or> length (commit_ops t) \<le> j \<longrightarrow> i = length (ops @ take j (commit_ops t))) \<and>
        (\<forall>k. lsm_get H k (lsm_open H (fst (lsm_crash n L)) (snd (lsm_crash n L)) mb' mode' clk' t')
             = Inr (spec_ops (take i (ops @ take j (commit_ops t))) k)))"
proof -
  let ?ops = "ops @ take j (commit_ops t)"
  have "Compact \<notin> set (commit_ops t)" by (auto simp: commit_ops_def split: if_splits)
  then have c: "compacts_flushed True ?ops"
    using assms(3) by (intro compacts_flushed_append) (auto dest: in_set_takeD)
  have e: "?ops \<noteq> [] \<and> last ?ops \<in> {Flush, Commit}" if "length (commit_ops t) \<le> j"
    using that by (simp add: commit_ops_def)
  obtain L where L: "run_ops H ?ops (lsm_open H [] [] mb mode clk tick) = (Inr (), L)"
    "\<And>n mb' mode' clk' t'. \<exists>i \<le> length ?ops.
       (mode = Always \<or> ?ops \<noteq> [] \<and> last ?ops \<in> {Flush, Commit} \<longrightarrow> i = length ?ops) \<and>
       (\<forall>k. lsm_get H k (lsm_open H (fst (lsm_crash n L)) (snd (lsm_crash n L)) mb' mode' clk' t')
            = Inr (spec_ops (take i ?ops) k))"
    using fresh_crash_reopens [OF assms(1) program_ok_take [OF assms(2), of j] c, of mb mode clk tick] by blast
  then have "\<exists>i \<le> length ?ops. (mode = Always \<or> length (commit_ops t) \<le> j \<longrightarrow> i = length ?ops) \<and>
        (\<forall>k. lsm_get H k (lsm_open H (fst (lsm_crash n L)) (snd (lsm_crash n L)) mb' mode' clk' t')
             = Inr (spec_ops (take i ?ops) k))" for n mb' mode' clk' t'
    using L(2) [of n mb' mode' clk' t'] e by blast
  moreover obtain L0 where "run_ops H ops (lsm_open H [] [] mb mode clk tick) = (Inr (), L0)"
     "run_ops H (take j (commit_ops t)) L0 = (Inr (), L)"
    using L(1) unfolding run_ops_append by (auto simp: sq_def bnd_def split: prod.splits sum.splits)
  ultimately show ?thesis using commit_runs_ops [OF assms(4)] by blast
qed

theorem txn_crash_inside_commit_witness:
  "\<exists>t L. for_each [TSet ''a'' ''1'', TSet ''b'' ''2''] txn_call txn_begin = (Inr (), t) \<and>
     run_ops sample_host (take 2 (commit_ops t)) sample_tree = (Inr (), L) \<and>
     lsm_get sample_host (V_KEY ''a'') (lsm_open sample_host (fst (lsm_crash 0 L)) (snd (lsm_crash 0 L)) 100 Always (\<lambda>_. 0) 0)
       = Inr (Some ''1'') \<and>
     lsm_get sample_host (V_KEY ''b'') (lsm_open sample_host (fst (lsm_crash 0 L)) (snd (lsm_crash 0 L)) 100 Always (\<lambda>_. 0) 0)
       = Inr None"
proof -
  let ?t = "txn_begin\<lparr>t_writes := [(V_KEY ''a'', ''1''), (V_KEY ''b'', ''2'')],
     t_meta := [(TYPE_KEY ''a'', ''string''), (TYPE_KEY ''b'', ''string'')]\<rparr>"
  have t: "for_each [TSet ''a'' ''1'', TSet ''b'' ''2''] txn_call txn_begin = (Inr (), ?t)"
    by (simp add: txn_set_def txn_begin_def txn_finished_def sq_def bnd_def ret_def)
  have ops: "commit_ops ?t = [Begin, Put (V_KEY ''a'') ''1'', Put (V_KEY ''b'') ''2'',
      Put (TYPE_KEY ''a'') ''string'', Put (TYPE_KEY ''b'') ''string'', Commit]"
    by (simp add: commit_ops_def TOMBSTONE_def)
  then have p: "program_ok ([] @ commit_ops ?t)"
    by (simp add: program_ok_def hist_ok_def entry_ok_def length_entry_bytes V_KEY_def TYPE_KEY_def)
  have c: "compacts_flushed True []" "\<not> txn_finished ?t" by (simp_all add: txn_finished_def txn_begin_def)
  obtain L0 L where L: "run_ops sample_host [] sample_tree = (Inr (), L0)"
     "run_ops sample_host (take 2 (commit_ops ?t)) L0 = (Inr (), L)"
     "\<And>n mb' mode' clk' t'. \<exists>i \<le> length ([] @ take 2 (commit_ops ?t)).
        (Always = Always \<or> length (commit_ops ?t) \<le> 2 \<longrightarrow> i = length ([] @ take 2 (commit_ops ?t))) \<and>
        (\<forall>k. lsm_get sample_host k (lsm_open sample_host (fst (lsm_crash n L)) (snd (lsm_crash n L)) mb' mode' clk' t')
             = Inr (spec_ops (take i ([] @ take 2 (commit_ops ?t))) k))"
    using txn_crash_inside_commit [OF sample_run_ok(2) p c, of 100 Always "\<lambda>_. 0" 0 2]
    unfolding sample_tree_def by blast
  have "L0 = sample_tree" using L(1) by (simp add: run_ops_def pym_simps)
  moreover have "spec_ops ([] @ take 2 (commit_ops ?t)) (V_KEY ''a'') = Some ''1''"
    "spec_ops ([] @ take 2 (commit_ops ?t)) (V_KEY ''b'') = None"
    by (simp_all add: ops spec_ops_def live_def TOMBSTONE_def)
  moreover have "lsm_get sample_host k (lsm_open sample_host (fst (lsm_crash 0 L)) (snd (lsm_crash 0 L)) 100 Always (\<lambda>_. 0) 0)
       = Inr (spec_ops ([] @ take 2 (commit_ops ?t)) k)" for k
  proof -
    obtain i where "i = length ([] @ take 2 (commit_ops ?t))"
      "\<forall>k. lsm_get sample_host k (lsm_open sample_host (fst (lsm_crash 0 L)) (snd (lsm_crash 0 L)) 100 Always (\<lambda>_. 0) 0)
         = Inr (spec_ops (take i ([] @ take 2 (commit_ops ?t))) k)"
      using L(3) [of 0 100 Always "\<lambda>_. 0" 0] by blast
    then show ?thesis by (simp only: take_all order_refl)
  qed
  ultimately show ?thesis using t L(2) by metis
qed

end
