(* ===== verification/PyText.thy ===== *)
theory PyText
  imports PyStr
begin

text \<open>
  More of Python's text operations: slices and indices with negative numbers, \<open>find\<close>,
  \<open>decode("utf-8", errors="replace")\<close>, \<open>split()\<close> at white space, \<open>upper\<close> and \<open>lower\<close>.
  Restricted here: case conversion is the ASCII one (other characters are kept).
\<close>

section \<open>Indices and slices\<close>

text \<open>A slice bound as CPython adjusts it to a sequence of length \<open>n\<close>.\<close>

definition clamp :: "nat \<Rightarrow> int \<Rightarrow> nat" where
  "clamp n i = (if i < 0 then nat (int n + i) else min n (nat i))"

definition py_slice_int :: "'a list \<Rightarrow> int \<Rightarrow> int \<Rightarrow> 'a list" where
  "py_slice_int xs a b = py_slice xs (clamp (length xs) a) (clamp (length xs) b)"

definition py_index :: "'a list \<Rightarrow> int \<Rightarrow> 'a option" where
  "py_index xs i =
     (let j = (if i < 0 then int (length xs) + i else i)
      in if 0 \<le> j \<and> j < int (length xs) then Some (xs ! nat j) else None)"

lemma clamp_nat [simp]: "k \<le> n \<Longrightarrow> clamp n (int k) = k"
  by (simp add: clamp_def)

lemma clamp_le: "clamp n i \<le> n"
  by (simp add: clamp_def nat_le_iff)

lemma py_slice_nat: "a \<le> length xs \<Longrightarrow> b \<le> length xs \<Longrightarrow> py_slice_int xs (int a) (int b) = py_slice xs a b"
  by (simp add: py_slice_int_def)

lemma py_slice_middle: "py_slice (xs @ ys @ zs) (length xs) (length xs + length ys) = ys"
  by (simp add: py_slice_def)

lemma py_index_nat: "i < length xs \<Longrightarrow> py_index xs (int i) = Some (xs ! i)"
  by (simp add: py_index_def)

section \<open>Searching\<close>

fun find_sub :: "'a list \<Rightarrow> 'a list \<Rightarrow> nat option" where
  "find_sub p [] = (if p = [] then Some 0 else None)"
| "find_sub p (c # cs) = (if startswith (c # cs) p then Some 0 else map_option Suc (find_sub p cs))"

text \<open>\<open>s.find(p, start)\<close> for a non-empty \<open>p\<close>.\<close>

definition py_find :: "bytes \<Rightarrow> bytes \<Rightarrow> int \<Rightarrow> int" where
  "py_find p s start =
     (let i = clamp (length s) start
      in case find_sub p (drop i s) of None \<Rightarrow> -1 | Some j \<Rightarrow> int (i + j))"

lemma startswith_length: "startswith s p \<Longrightarrow> length p \<le> length s"
  by (auto simp: startswith_iff)

lemma find_sub_bound: "find_sub p s = Some j \<Longrightarrow> j + length p \<le> length s"
  by (induction s arbitrary: j) (auto dest: startswith_length split: if_splits)

lemma py_find_bound: "py_find p s start = -1 \<or>
    (int (clamp (length s) start) \<le> py_find p s start \<and> py_find p s start + int (length p) \<le> int (length s))"
  using find_sub_bound [of p "drop (clamp (length s) start) s"] clamp_le [of "length s" start]
  by (auto simp: py_find_def Let_def split: option.split)

definition CRLF :: bytes where
  "CRLF = [CHR 0x0D, CHR 0x0A]"

lemma CRLF_facts [simp]: "CRLF \<noteq> []" "length CRLF = 2" "CRLF @ r \<noteq> CHR 0x0A # t" "CRLF \<noteq> CHR 0x0A # t"
  by (simp_all add: CRLF_def)

lemma startswith_CRLF: "startswith s CRLF \<longleftrightarrow> (\<exists>t. s = CHR 0x0D # CHR 0x0A # t)"
  by (simp add: startswith_iff CRLF_def)

lemma find_CRLF: "find_sub CRLF s = None \<Longrightarrow> find_sub CRLF (s @ CRLF @ rest) = Some (length s)"
proof (induction s)
  case Nil
  show ?case by (simp add: CRLF_def startswith_def)
next
  case (Cons c s)
  have "\<not> startswith ((c # s) @ CRLF @ rest) CRLF"
  proof
    assume "startswith ((c # s) @ CRLF @ rest) CRLF"
    then obtain t where "c = CHR 0x0D" "s @ CRLF @ rest = CHR 0x0A # t" by (auto simp: startswith_CRLF)
    then have "startswith (c # s) CRLF" by (cases s) (auto simp: startswith_CRLF)
    then show False using Cons.prems by simp
  qed
  moreover have "find_sub CRLF s = None" using Cons.prems by (auto split: if_splits)
  ultimately show ?case using Cons.IH by simp
qed

lemma find_CRLF_None: "\<forall>c \<in> set s. c \<noteq> CHR 0x0D \<Longrightarrow> find_sub CRLF s = None"
  by (induction s) (auto simp: startswith_CRLF)

text \<open>A line break that has not arrived completely is not found.\<close>

lemma find_CRLF_take: "find_sub CRLF s = None \<Longrightarrow> n < length s + 2 \<Longrightarrow> find_sub CRLF (take n (s @ CRLF)) = None"
proof (induction s arbitrary: n)
  case Nil
  then have "n = 0 \<or> n = 1" by auto
  then show ?case by (auto simp: CRLF_def startswith_def)
next
  case (Cons c s)
  show ?case
  proof (cases n)
    case 0
    then show ?thesis by (simp add: CRLF_def)
  next
    case (Suc k)
    have n: "find_sub CRLF s = None" "\<not> startswith (c # s) CRLF" using Cons.prems(1) by (auto split: if_splits)
    have "\<not> startswith (c # take k (s @ CRLF)) CRLF"
    proof
      assume "startswith (c # take k (s @ CRLF)) CRLF"
      then obtain t where t: "c = CHR 0x0D" "take k (s @ CRLF) = CHR 0x0A # t" by (auto simp: startswith_CRLF)
      then obtain u where "s @ CRLF = CHR 0x0A # u" by (cases k; cases "s @ CRLF") auto
      then have "startswith (c # s) CRLF" using t(1) by (cases s) (auto simp: startswith_CRLF)
      with n(2) show False by simp
    qed
    with Cons.IH [OF n(1), of k] Cons.prems(2) Suc show ?thesis by simp
  qed
qed

section \<open>The replacing UTF-8 decoder\<close>

text \<open>
  An ill-formed sequence is replaced by U+FFFD up to the first byte that cannot continue it
  (the longest prefix of a well-formed character, at least one byte).
\<close>

definition second_ok :: "char \<Rightarrow> char \<Rightarrow> bool" where
  "second_ok a b \<longleftrightarrow> cont b \<and>
     (of_char a = (0xE0 :: nat) \<longrightarrow> in_range 0xA0 0xBF b) \<and> (of_char a = (0xED :: nat) \<longrightarrow> in_range 0x80 0x9F b) \<and>
     (of_char a = (0xF0 :: nat) \<longrightarrow> in_range 0x90 0xBF b) \<and> (of_char a = (0xF4 :: nat) \<longrightarrow> in_range 0x80 0x8F b)"

fun bad_len :: "bytes \<Rightarrow> nat" where
  "bad_len (a # b # c # bs) =
     (if (in_range 0xE0 0xEF a \<or> in_range 0xF0 0xF4 a) \<and> second_ok a b
      then (if in_range 0xF0 0xF4 a \<and> cont c then 3 else 2) else 1)"
| "bad_len [a, b] = (if (in_range 0xE0 0xEF a \<or> in_range 0xF0 0xF4 a) \<and> second_ok a b then 2 else 1)"
| "bad_len bs = 1"

lemma bad_len_pos: "0 < bad_len bs"
  by (cases bs rule: bad_len.cases) auto

definition REPLACEMENT :: bytes where
  "REPLACEMENT = [CHR 0xEF, CHR 0xBF, CHR 0xBD]"

function utf8_replace :: "bytes \<Rightarrow> bytes" where
  "utf8_replace bs =
     (if bs = [] then []
      else let n = utf8_head bs
           in if n = 0 then REPLACEMENT @ utf8_replace (drop (bad_len bs) bs)
              else take n bs @ utf8_replace (drop n bs))"
  by pat_completeness auto
termination
  by (relation "measure length") (auto simp: bad_len_pos)

declare utf8_replace.simps [simp del]

lemma utf8_replace_valid: "utf8_valid bs \<Longrightarrow> utf8_replace bs = bs"
proof (induction bs rule: utf8_valid.induct)
  case (1 bs)
  show ?case
  proof (cases "bs = []")
    case True
    then show ?thesis by (simp add: utf8_replace.simps)
  next
    case False
    then have n: "utf8_head bs \<noteq> 0" "utf8_valid (drop (utf8_head bs) bs)"
      using 1(2) by (simp_all add: utf8_valid.simps [of bs] Let_def split: if_splits)
    with 1(1) [OF False refl n(1)] False show ?thesis by (simp add: utf8_replace.simps [of bs] Let_def)
  qed
qed

lemma utf8_head_REPLACEMENT: "utf8_valid REPLACEMENT"
  by (simp add: utf8_valid.simps [of REPLACEMENT]) (simp add: REPLACEMENT_def in_range_def cont_def)

lemma utf8_valid_head: "utf8_head bs \<noteq> 0 \<Longrightarrow> utf8_valid (take (utf8_head bs) bs)"
proof -
  assume h: "utf8_head bs \<noteq> 0"
  let ?t = "take (utf8_head bs) bs"
  have "utf8_head ?t = utf8_head bs"
  proof (cases bs)
    case (Cons a as)
    with h show ?thesis
      by (cases as rule: tail2.cases; cases "(a, as)" rule: tail3.cases; cases "(a, as)" rule: tail4.cases)
        (auto split: if_splits dest: ranges_disjoint)
  qed simp
  then show ?thesis using h utf8_head_le [of bs] by (cases "bs = []") (simp_all add: utf8_valid.simps [of ?t])
qed

lemma utf8_valid_replace: "utf8_valid (utf8_replace bs)"
proof (induction bs rule: utf8_replace.induct)
  case (1 bs)
  then show ?case
    using utf8_valid_append [OF utf8_head_REPLACEMENT] utf8_valid_append [OF utf8_valid_head]
    by (subst utf8_replace.simps) (auto simp: Let_def)
qed

section \<open>Splitting at white space\<close>

text \<open>\<open>s.split(c)\<close> at one character.\<close>

fun split_char :: "char \<Rightarrow> bytes \<Rightarrow> bytes list" where
  "split_char c [] = [[]]"
| "split_char c (x # s) =
     (if x = c then [] # split_char c s
      else (x # hd (split_char c s)) # tl (split_char c s))"

text \<open>The number of bytes of the Unicode white space character at the head, or 0.\<close>

fun space_head :: "bytes \<Rightarrow> nat" where
  "space_head [] = 0"
| "space_head (a # bs) =
     (if is_space a then 1
      else case bs of
        b # c # _ \<Rightarrow>
          (if a = CHR 0xC2 \<and> (b = CHR 0x85 \<or> b = CHR 0xA0) then 2
           else if a = CHR 0xE1 \<and> b = CHR 0x9A \<and> c = CHR 0x80 then 3
           else if a = CHR 0xE2 \<and> b = CHR 0x80 \<and>
              (in_range 0x80 0x8A c \<or> c = CHR 0xA8 \<or> c = CHR 0xA9 \<or> c = CHR 0xAF) then 3
           else if a = CHR 0xE2 \<and> b = CHR 0x81 \<and> c = CHR 0x9F then 3
           else if a = CHR 0xE3 \<and> b = CHR 0x80 \<and> c = CHR 0x80 then 3
           else 0)
      | [b] \<Rightarrow> (if a = CHR 0xC2 \<and> (b = CHR 0x85 \<or> b = CHR 0xA0) then 2 else 0)
      | [] \<Rightarrow> 0)"

text \<open>\<open>s.split()\<close>: the maximal runs without white space; \<open>word\<close> is the run being read.\<close>

function split_from :: "bytes \<Rightarrow> bytes \<Rightarrow> bytes list" where
  "split_from word s =
     (if s = [] then (if word = [] then [] else [word])
      else let n = space_head s
           in if n = 0 then split_from (word @ [hd s]) (tl s)
              else (if word = [] then [] else [word]) @ split_from [] (drop n s))"
  by pat_completeness auto
termination
  by (relation "measure (\<lambda>(_, s). length s)") auto

declare split_from.simps [simp del]

definition py_split :: "bytes \<Rightarrow> bytes list" where
  "py_split s = split_from [] s"

lemma split_from_word:
  "\<forall>c \<in> set s. of_char c < (128 :: nat) \<and> \<not> is_space c \<Longrightarrow> split_from word s = (if word @ s = [] then [] else [word @ s])"
proof (induction s arbitrary: word)
  case (Cons c s)
  have a: "c \<noteq> CHR 0xC2" "c \<noteq> CHR 0xE1" "c \<noteq> CHR 0xE2" "c \<noteq> CHR 0xE3" using Cons.prems by auto
  then have "space_head (c # s) = 0" using Cons.prems by (auto split: list.split)
  with Cons.IH [of "word @ [c]"] Cons.prems show ?case by (simp add: split_from.simps [of word "c # s"])
qed (simp add: split_from.simps)

lemma split_from_nonempty: "\<forall>t \<in> set (split_from word s). t \<noteq> []"
proof (induction word s rule: split_from.induct)
  case (1 word s)
  consider "s = []" | "s \<noteq> []" "space_head s = 0" | "s \<noteq> []" "space_head s \<noteq> 0" by blast
  then show ?case
  proof cases
    case 1
    then show ?thesis by (simp add: split_from.simps [of word "[]"])
  next
    case 2
    with 1(1) [OF 2(1) refl 2(2)] show ?thesis by (subst split_from.simps) (simp only: Let_def if_False if_True simp_thms)
  next
    case 3
    with 1(2) [OF 3(1) refl 3(2)] show ?thesis by (subst split_from.simps) (cases "word = []"; simp add: Let_def)
  qed
qed

section \<open>Case\<close>

definition upper_char :: "char \<Rightarrow> char" where
  "upper_char c = (if 97 \<le> (of_char c :: nat) \<and> (of_char c :: nat) \<le> 122 then char_of (of_char c - 32 :: nat) else c)"

definition lower_char :: "char \<Rightarrow> char" where
  "lower_char c = (if 65 \<le> (of_char c :: nat) \<and> (of_char c :: nat) \<le> 90 then char_of (of_char c + 32 :: nat) else c)"

definition upper :: "bytes \<Rightarrow> bytes" where
  "upper s = map upper_char s"

definition lower :: "bytes \<Rightarrow> bytes" where
  "lower s = map lower_char s"

definition hex_digit :: "nat \<Rightarrow> char" where
  "hex_digit d = (if d < 10 then char_of (48 + d) else char_of (87 + d))"

section \<open>Names joined by colons\<close>

lemma no_colon_prefix:
  "CHR '':'' \<notin> set a \<Longrightarrow> CHR '':'' \<notin> set b \<Longrightarrow> a @ CHR '':'' # x = b @ CHR '':'' # y \<Longrightarrow> a = b"
proof (induction a arbitrary: b)
  case Nil
  then show ?case by (cases b) auto
next
  case (Cons c a)
  then show ?case by (cases b) auto
qed

lemma no_colon_suffix:
  "CHR '':'' \<notin> set a \<Longrightarrow> CHR '':'' \<notin> set b \<Longrightarrow> x @ CHR '':'' # a = y @ CHR '':'' # b \<Longrightarrow> x = y \<and> a = b"
proof -
  assume n: "CHR '':'' \<notin> set a" "CHR '':'' \<notin> set b" and e: "x @ CHR '':'' # a = y @ CHR '':'' # b"
  from e have "rev a @ CHR '':'' # rev x = rev b @ CHR '':'' # rev y" by (metis append.assoc append_Cons append_Nil rev.simps(2) rev_append)
  moreover from this have "rev a = rev b" using no_colon_prefix [of "rev a" "rev b"] n by simp
  ultimately show ?thesis by simp
qed

end
