(* ===== verification/Resp.thy ===== *)
theory Resp
  imports PyText
begin

text \<open>
  \<open>zenith/protocol/resp.py\<close>: the streaming parser and the serializer. Offsets are Python
  integers, so a negative bulk length moves them backwards as in the code. The parser's
  recursion is bounded by \<open>depth\<close>, the number of frames the interpreter still allows.
\<close>

section \<open>Values\<close>

text \<open>
  The Python objects that are parsed or serialised. \<open>PList\<close> is a list, tuple or set in
  iteration order, \<open>PExc\<close> an exception with its message, \<open>POther\<close> any other object with its
  \<open>str\<close>.
\<close>

datatype pyval =
    PNone
  | PBool bool
  | PInt int
  | PStr bytes
  | PBytes bytes
  | PList "pyval list"
  | PDict "(pyval \<times> pyval) list"
  | PExc bytes
  | POther bytes

section \<open>The parser\<close>

definition parse_bulk :: "bytes \<Rightarrow> int \<Rightarrow> bytes \<Rightarrow> int \<Rightarrow> pyval \<times> int" where
  "parse_bulk buf offset line header_len =
     (case py_int line of
        None \<Rightarrow> (PNone, header_len)
      | Some bulk_len \<Rightarrow>
          if bulk_len = -1 then (PNone, header_len)
          else let total_needed = offset + header_len + bulk_len + 2 in
            if int (length buf) < total_needed then (PNone, 0)
            else let data_start = offset + header_len;
                     payload = py_slice_int buf data_start (data_start + bulk_len)
                 in (if utf8_valid payload then PStr payload else PBytes payload, total_needed - offset))"

text \<open>The loop over the elements; \<open>None\<close> is the early return on an incomplete element.\<close>

fun parse_elements ::
  "(int \<Rightarrow> (pyval \<times> int) res) \<Rightarrow> nat \<Rightarrow> int \<Rightarrow> pyval list \<Rightarrow> (pyval list \<times> int) option res" where
  "parse_elements f 0 curr_offset elements = Inr (Some (elements, curr_offset))"
| "parse_elements f (Suc n) curr_offset elements =
     rbind (f curr_offset) (\<lambda>(elem, consumed).
       if consumed = 0 then Inr None else parse_elements f n (curr_offset + consumed) (elements @ [elem]))"

definition parse_array ::
  "(int \<Rightarrow> (pyval \<times> int) res) \<Rightarrow> int \<Rightarrow> bytes \<Rightarrow> int \<Rightarrow> (pyval \<times> int) res" where
  "parse_array f offset line header_len =
     (case py_int line of
        None \<Rightarrow> Inr (PNone, header_len)
      | Some array_len \<Rightarrow>
          if array_len = -1 then Inr (PNone, header_len)
          else rbind (parse_elements f (nat array_len) (offset + header_len) [])
            (\<lambda>r. case r of None \<Rightarrow> Inr (PNone, 0)
                | Some (elements, curr_offset) \<Rightarrow> Inr (PList elements, curr_offset - offset)))"

primrec parse_from :: "nat \<Rightarrow> bytes \<Rightarrow> int \<Rightarrow> (pyval \<times> int) res" where
  "parse_from 0 buf offset = Inl RecursionError"
| "parse_from (Suc depth) buf offset =
     (if int (length buf) \<le> offset then Inr (PNone, 0)
      else case py_index buf offset of
        None \<Rightarrow> Inl IndexError
      | Some prefix \<Rightarrow>
          (let crlf_pos = py_find CRLF buf offset in
           if crlf_pos = -1 then Inr (PNone, 0)
           else let line = utf8_replace (py_slice_int buf (offset + 1) crlf_pos);
                    header_len = crlf_pos - offset + 2
             in if prefix = CHR ''+'' then Inr (PStr line, header_len)
                else if prefix = CHR ''-'' then Inr (PExc line, header_len)
                else if prefix = CHR '':'' then
                  Inr (PInt (case py_int line of None \<Rightarrow> 0 | Some i \<Rightarrow> i), header_len)
                else if prefix = CHR ''$'' then Inr (parse_bulk buf offset line header_len)
                else if prefix = CHR ''*'' then parse_array (parse_from depth buf) offset line header_len
                else Inr (PList (map PStr (py_split (utf8_replace (py_slice_int buf offset crlf_pos)))),
                          header_len)))"

text \<open>The state of a parser is its buffer.\<close>

definition resp_feed :: "bytes \<Rightarrow> bytes \<Rightarrow> bytes" where
  "resp_feed data buf = buf @ data"

definition get_next :: "nat \<Rightarrow> (bytes, pyval) pym" where
  "get_next depth buf =
     (if buf = [] then (Inr PNone, buf)
      else case parse_from depth buf 0 of
        Inl e \<Rightarrow> (Inl e, buf)
      | Inr (val, consumed) \<Rightarrow>
          if 0 < consumed then (Inr val, drop (nat consumed) buf) else (Inr PNone, buf))"

section \<open>The serializer\<close>

definition resp_ok :: bytes where
  "resp_ok = ''+OK'' @ CRLF"

definition resp_ping :: bytes where
  "resp_ping = ''+PONG'' @ CRLF"

definition resp_simple :: "bytes \<Rightarrow> bytes" where
  "resp_simple s = ''+'' @ s @ CRLF"

definition resp_error :: "bytes \<Rightarrow> bytes" where
  "resp_error msg = ''-ERR '' @ msg @ CRLF"

definition resp_integer :: "int \<Rightarrow> bytes" where
  "resp_integer val = '':'' @ str_int val @ CRLF"

definition resp_bulk :: "bytes option \<Rightarrow> bytes" where
  "resp_bulk s = (case s of
      None \<Rightarrow> ''$-1'' @ CRLF
    | Some b \<Rightarrow> ''$'' @ str_nat (length b) @ CRLF @ b @ CRLF)"

definition array_header :: "nat \<Rightarrow> bytes" where
  "array_header n = ''*'' @ str_nat n @ CRLF"

fun resp_encode :: "pyval \<Rightarrow> bytes" where
  "resp_encode PNone = resp_bulk None"
| "resp_encode (PBool b) = resp_integer (if b then 1 else 0)"
| "resp_encode (PInt i) = resp_integer i"
| "resp_encode (PStr s) = resp_bulk (Some s)"
| "resp_encode (PBytes s) = resp_bulk (Some s)"
| "resp_encode (PList xs) = array_header (length xs) @ concat (map resp_encode xs)"
| "resp_encode (PDict d) =
     array_header (2 * length d) @ concat (map (\<lambda>e. resp_encode (fst e) @ resp_encode (snd e)) d)"
| "resp_encode (PExc msg) = resp_error msg"
| "resp_encode (POther s) = resp_bulk (Some s)"

definition resp_array :: "pyval list option \<Rightarrow> bytes" where
  "resp_array items = (case items of
      None \<Rightarrow> ''*-1'' @ CRLF
    | Some xs \<Rightarrow> array_header (length xs) @ concat (map resp_encode xs))"

section \<open>Progress and bounds\<close>

text \<open>What is consumed never reaches beyond the buffer, whatever lengths the input claims.\<close>

lemma parse_bulk_bound:
  assumes "parse_bulk buf offset line header_len = (v, c)" "c \<noteq> 0" "offset + header_len \<le> int (length buf)"
  shows "offset + c \<le> int (length buf)"
  using assms by (auto simp: parse_bulk_def Let_def split: option.splits if_splits)

lemma parse_elements_bound:
  assumes "\<And>o' v c. f o' = Inr (v, c) \<Longrightarrow> c \<noteq> 0 \<Longrightarrow> o' + c \<le> b"
  shows "parse_elements f n offset acc = Inr (Some (xs, o')) \<Longrightarrow> offset \<le> b \<Longrightarrow> o' \<le> b"
proof (induction n arbitrary: offset acc)
  case (Suc n)
  then show ?case using assms by (auto simp: rbind_Inr_iff split: if_splits)
qed simp

lemma parse_from_bound:
  "parse_from depth buf offset = Inr (v, c) \<Longrightarrow> c \<noteq> 0 \<Longrightarrow> offset + c \<le> int (length buf)"
proof (induction depth arbitrary: offset v c)
  case (Suc depth)
  let ?p = "py_find CRLF buf offset"
  have b: "?p \<noteq> -1 \<Longrightarrow> offset + (?p - offset + 2) \<le> int (length buf)"
    using py_find_bound [of CRLF buf offset] by auto
  have a: "parse_array (parse_from depth buf) offset line h = Inr (v, c) \<Longrightarrow> offset + h \<le> int (length buf) \<Longrightarrow>
      offset + c \<le> int (length buf)" for line h
    using parse_elements_bound [of "parse_from depth buf" "int (length buf)", OF Suc.IH] Suc.prems(2)
    by (fastforce simp: parse_array_def rbind_Inr_iff split: option.splits if_splits)
  show ?case
    using Suc.prems b a parse_bulk_bound [of buf offset] 
    by (auto simp: Let_def split: option.splits if_splits)
qed simp

section \<open>Round trip\<close>

text \<open>What the parser makes of a serialised value.\<close>

fun resp_norm :: "pyval \<Rightarrow> pyval" where
  "resp_norm PNone = PNone"
| "resp_norm (PBool b) = PInt (if b then 1 else 0)"
| "resp_norm (PInt i) = PInt i"
| "resp_norm (PStr s) = PStr s"
| "resp_norm (PBytes s) = (if utf8_valid s then PStr s else PBytes s)"
| "resp_norm (PList xs) = PList (map resp_norm xs)"
| "resp_norm (PDict d) = PList (concat (map (\<lambda>e. [resp_norm (fst e), resp_norm (snd e)]) d))"
| "resp_norm (PExc msg) = PExc (''ERR '' @ msg)"
| "resp_norm (POther s) = PStr s"

text \<open>Text is well-formed UTF-8; an error message must not contain a line break.\<close>

fun resp_wf :: "pyval \<Rightarrow> bool" where
  "resp_wf (PStr s) = utf8_valid s"
| "resp_wf (POther s) = utf8_valid s"
| "resp_wf (PExc msg) = (utf8_valid msg \<and> find_sub CRLF msg = None)"
| "resp_wf (PList xs) = list_all resp_wf xs"
| "resp_wf (PDict d) = list_all (\<lambda>e. resp_wf (fst e) \<and> resp_wf (snd e)) d"
| "resp_wf _ = True"

fun resp_depth :: "pyval \<Rightarrow> nat" where
  "resp_depth (PList xs) = Suc (foldr max (map resp_depth xs) 0)"
| "resp_depth (PDict d) = Suc (foldr max (map (\<lambda>e. max (resp_depth (fst e)) (resp_depth (snd e))) d) 0)"
| "resp_depth _ = 1"

lemma foldr_max_ge: "x \<in> set xs \<Longrightarrow> f x \<le> foldr max (map f xs) (0::nat)"
  by (induction xs) auto

text \<open>One turn of the parser at a header line.\<close>

definition parse_header :: "nat \<Rightarrow> bytes \<Rightarrow> int \<Rightarrow> char \<Rightarrow> bytes \<Rightarrow> (pyval \<times> int) res" where
  "parse_header depth buf offset p s =
     (let h = int (length s) + 3 in
      if p = CHR ''+'' then Inr (PStr (utf8_replace s), h)
      else if p = CHR ''-'' then Inr (PExc (utf8_replace s), h)
      else if p = CHR '':'' then Inr (PInt (case py_int (utf8_replace s) of None \<Rightarrow> 0 | Some i \<Rightarrow> i), h)
      else if p = CHR ''$'' then Inr (parse_bulk buf offset (utf8_replace s) h)
      else if p = CHR ''*'' then parse_array (parse_from depth buf) offset (utf8_replace s) h
      else Inr (PList (map PStr (py_split (utf8_replace (p # s)))), h))"

lemma parse_from_line:
  assumes "buf = pre @ p # s @ CRLF @ rest" "find_sub CRLF s = None" "p \<noteq> CHR 0x0D"
  shows "parse_from (Suc depth) buf (int (length pre)) = parse_header depth buf (int (length pre)) p s"
proof -
  have "\<not> startswith (p # s @ CRLF @ rest) CRLF" using assms(3) by (auto simp: startswith_CRLF)
  then have "find_sub CRLF (p # s @ CRLF @ rest) = Some (Suc (length s))" using find_CRLF [OF assms(2)] by simp
  then have f: "py_find CRLF buf (int (length pre)) = int (length pre + Suc (length s))"
    by (simp add: py_find_def assms(1))
  have x: "py_index buf (int (length pre)) = Some p"
    using py_index_nat [of "length pre" buf] by (simp add: assms(1) nth_append)
  have l: "py_slice_int buf (int (length pre) + 1) (int (length pre + Suc (length s))) = s"
    using py_slice_nat [of "Suc (length pre)" buf "length pre + Suc (length s)"]
      py_slice_middle [of "pre @ [p]" s "CRLF @ rest"] by (simp add: assms(1) add.commute)
  have w: "py_slice_int buf (int (length pre)) (int (length pre + Suc (length s))) = p # s"
    using py_slice_nat [of "length pre" buf "length pre + Suc (length s)"]
      py_slice_middle [of pre "p # s" "CRLF @ rest"] by (simp add: assms(1))
  have n: "\<not> int (length buf) \<le> int (length pre)" "int (length pre + Suc (length s)) \<noteq> -1"
    "int (length pre + Suc (length s)) - int (length pre) + 2 = int (length s) + 3" by (simp_all add: assms(1))
  show ?thesis unfolding parse_from.simps x f option.case Let_def if_not_P [OF n(1)] if_not_P [OF n(2)] n(3) l w parse_header_def ..
qed

lemma prefix_not_cr: "CHR ''$'' \<noteq> CHR 0x0D" "CHR ''*'' \<noteq> CHR 0x0D" "CHR '':'' \<noteq> CHR 0x0D" "CHR ''-'' \<noteq> CHR 0x0D"
    "CHR ''+'' \<noteq> CHR 0x0D"
  by simp_all

lemma str_nat_no_cr: "find_sub CRLF (str_nat n) = None" "utf8_valid (str_nat n)" "py_int (str_nat n) = Some (int n)"
proof -
  have d: "\<forall>c \<in> set (str_nat n). is_digit c" by (rule str_nat_digits)
  then show "find_sub CRLF (str_nat n) = None" using digit_not_sign by (intro find_CRLF_None) blast
  show "utf8_valid (str_nat n)" using d by (intro utf8_ascii) (auto simp: is_digit_def)
  show "py_int (str_nat n) = Some (int n)" using py_int_str_int [of "int n"] by (simp add: str_int_def)
qed

lemma str_int_no_cr: "find_sub CRLF (str_int i) = None"
  using str_int_chars digit_not_sign by (intro find_CRLF_None) fastforce

lemma parse_encoded_bulk:
  assumes "buf = pre @ resp_bulk (Some b) @ rest"
  shows "parse_from (Suc depth) buf (int (length pre)) =
    Inr (if utf8_valid b then PStr b else PBytes b, int (length (resp_bulk (Some b))))"
proof -
  have "buf = pre @ CHR ''$'' # str_nat (length b) @ CRLF @ (b @ CRLF @ rest)" by (simp add: assms resp_bulk_def)
  note l = parse_from_line [OF this str_nat_no_cr(1) prefix_not_cr(1), of depth]
  let ?o = "length pre + (length (str_nat (length b)) + 3)"
  let ?x = "pre @ CHR ''$'' # str_nat (length b) @ CRLF"
  have x: "buf = ?x @ b @ (CRLF @ rest)" "?o = length ?x" by (simp_all add: assms resp_bulk_def)
  have "py_slice_int buf (int ?o) (int (?o + length b)) = py_slice buf ?o (?o + length b)"
    by (rule py_slice_nat) (simp_all add: assms resp_bulk_def)
  also have "\<dots> = b" unfolding x by (rule py_slice_middle)
  finally have "py_slice_int buf (int ?o) (int (?o + length b)) = b" .
  then show ?thesis
    using l by (simp add: parse_header_def utf8_replace_valid str_nat_no_cr parse_bulk_def Let_def)
      (simp add: assms resp_bulk_def algebra_simps)
qed

lemma parse_encoded_elements:
  assumes "\<And>v pre rest. v \<in> set vs \<Longrightarrow> buf = pre @ resp_encode v @ rest \<Longrightarrow>
      parse_from depth buf (int (length pre)) = Inr (resp_norm v, int (length (resp_encode v)))"
    and "\<And>v. v \<in> set vs \<Longrightarrow> resp_encode v \<noteq> []"
  shows "buf = pre @ concat (map resp_encode vs) @ rest \<Longrightarrow>
    parse_elements (parse_from depth buf) (length vs) (int (length pre)) acc =
      Inr (Some (acc @ map resp_norm vs, int (length (pre @ concat (map resp_encode vs)))))"
  using assms
proof (induction vs arbitrary: pre acc)
  case (Cons v vs)
  have "parse_from depth buf (int (length pre)) = Inr (resp_norm v, int (length (resp_encode v)))"
    by (rule Cons.prems(2)) (use Cons.prems(1) in simp_all)
  moreover have "resp_encode v \<noteq> []" by (rule Cons.prems(3)) simp
  moreover have "parse_elements (parse_from depth buf) (length vs) (int (length (pre @ resp_encode v))) (acc @ [resp_norm v]) =
      Inr (Some ((acc @ [resp_norm v]) @ map resp_norm vs, int (length ((pre @ resp_encode v) @ concat (map resp_encode vs)))))"
    by (rule Cons.IH) (use Cons.prems in simp_all)
  ultimately show ?case by simp
qed simp

lemma parse_encoded_array:
  assumes buf: "buf = pre @ array_header (length vs) @ concat (map resp_encode vs) @ rest"
    and "\<And>v pre rest. v \<in> set vs \<Longrightarrow> buf = pre @ resp_encode v @ rest \<Longrightarrow>
      parse_from depth buf (int (length pre)) = Inr (resp_norm v, int (length (resp_encode v)))"
    and "\<And>v. v \<in> set vs \<Longrightarrow> resp_encode v \<noteq> []"
  shows "parse_from (Suc depth) buf (int (length pre)) =
    Inr (PList (map resp_norm vs), int (length (array_header (length vs) @ concat (map resp_encode vs))))"
proof -
  have b: "buf = pre @ CHR ''*'' # str_nat (length vs) @ CRLF @ (concat (map resp_encode vs) @ rest)"
    by (simp add: buf array_header_def)
  have "buf = (pre @ array_header (length vs)) @ concat (map resp_encode vs) @ rest" by (simp add: buf)
  from parse_encoded_elements [OF assms(2,3) this, where acc = "[]"]
  have e: "parse_elements (parse_from depth buf) (length vs) (int (length (pre @ array_header (length vs)))) [] =
      Inr (Some (map resp_norm vs, int (length ((pre @ array_header (length vs)) @ concat (map resp_encode vs)))))"
    by simp
  have h: "int (length pre) + (int (length (str_nat (length vs))) + 3) = int (length (pre @ array_header (length vs)))"
    by (simp add: array_header_def)
  show ?thesis
    using e by (simp only: parse_from_line [OF b str_nat_no_cr(1) prefix_not_cr(2)] parse_header_def)
      (simp add: utf8_replace_valid str_nat_no_cr parse_array_def Let_def h del: length_append, simp)
qed

lemma encode_nonempty: "resp_encode v \<noteq> []"
  by (cases v) (simp_all add: resp_bulk_def resp_integer_def resp_error_def array_header_def split: option.split)

definition pairs_flat :: "('a \<times> 'a) list \<Rightarrow> 'a list" where
  "pairs_flat d = concat (map (\<lambda>e. [fst e, snd e]) d)"

lemma pairs_flat_facts:
  "length (pairs_flat d) = 2 * length d" "set (pairs_flat d) = fst ` set d \<union> snd ` set d"
  "concat (map f (pairs_flat d)) = concat (map (\<lambda>e. f (fst e) @ f (snd e)) d)"
  "map g (pairs_flat d) = concat (map (\<lambda>e. [g (fst e), g (snd e)]) d)"
  by (induction d) (auto simp: pairs_flat_def)

lemma parse_encoded:
  "resp_wf v \<Longrightarrow> resp_depth v \<le> depth \<Longrightarrow> buf = pre @ resp_encode v @ rest \<Longrightarrow>
   parse_from depth buf (int (length pre)) = Inr (resp_norm v, int (length (resp_encode v)))"
proof (induction v arbitrary: depth pre rest rule: resp_encode.induct)
  case 1
  then obtain d where d: "depth = Suc d" by (cases depth) auto
  have b: "buf = pre @ CHR ''$'' # ''-1'' @ CRLF @ rest" using 1 by (simp add: resp_bulk_def)
  have n: "find_sub CRLF ''-1'' = None" by (rule find_CRLF_None) simp
  have "utf8_valid ''-1''" by (rule utf8_ascii) simp
  moreover have "py_int ''-1'' = Some (-1)" by (simp add: py_int_def strip_def is_space_def is_digit_def digit_val_def)
  ultimately show ?case
    by (simp only: d parse_from_line [OF b n prefix_not_cr(1)])
      (simp add: parse_header_def parse_bulk_def utf8_replace_valid resp_bulk_def)
next
  case (2 x)
  then obtain d where d: "depth = Suc d" by (cases depth) auto
  have b: "buf = pre @ CHR '':'' # str_int (if x then 1 else 0) @ CRLF @ rest" using 2 by (simp add: resp_integer_def)
  show ?case
    by (simp only: d parse_from_line [OF b str_int_no_cr prefix_not_cr(3)]) (simp add: parse_header_def utf8_replace_valid resp_integer_def)
next
  case (3 i)
  then obtain d where d: "depth = Suc d" by (cases depth) auto
  have b: "buf = pre @ CHR '':'' # str_int i @ CRLF @ rest" using 3 by (simp add: resp_integer_def)
  show ?case
    by (simp only: d parse_from_line [OF b str_int_no_cr prefix_not_cr(3)]) (simp add: parse_header_def utf8_replace_valid resp_integer_def)
next
  case (4 s)
  then obtain d where "depth = Suc d" by (cases depth) auto
  with parse_encoded_bulk [of buf pre s rest d] 4 show ?case by simp
next
  case (5 s)
  then obtain d where "depth = Suc d" by (cases depth) auto
  with parse_encoded_bulk [of buf pre s rest d] 5 show ?case by simp
next
  case (6 xs)
  then obtain d where d: "depth = Suc d" by (cases depth) auto
  have x: "resp_depth x \<le> d \<and> resp_wf x" if "x \<in> set xs" for x
    using 6(2,3) that foldr_max_ge [OF that, of resp_depth] by (simp add: d list_all_iff)
  have el: "parse_from d buf (int (length pre')) = Inr (resp_norm x, int (length (resp_encode x)))"
    if "x \<in> set xs" "buf = pre' @ resp_encode x @ rest'" for x pre' rest'
    using 6(1) [OF that(1) _ _ that(2)] x [OF that(1)] by blast
  have "buf = pre @ array_header (length xs) @ concat (map resp_encode xs) @ rest" using 6(4) by simp
  then have "parse_from (Suc d) buf (int (length pre)) =
    Inr (PList (map resp_norm xs), int (length (array_header (length xs) @ concat (map resp_encode xs))))"
    by (rule parse_encoded_array) (erule (1) el, rule encode_nonempty)
  then show ?case by (simp add: d)
next
  case (7 d)
  then obtain k where k: "depth = Suc k" by (cases depth) auto
  have x: "resp_depth (fst e) \<le> k \<and> resp_depth (snd e) \<le> k \<and> resp_wf (fst e) \<and> resp_wf (snd e)" if "e \<in> set d" for e
    using 7(3,4) that foldr_max_ge [OF that, of "\<lambda>e. max (resp_depth (fst e)) (resp_depth (snd e))"]
    by (simp add: k list_all_iff)
  have el: "parse_from k buf (int (length pre')) = Inr (resp_norm x, int (length (resp_encode x)))"
    if "x \<in> set (pairs_flat d)" "buf = pre' @ resp_encode x @ rest'" for x pre' rest'
  proof -
    obtain e where "e \<in> set d" "x = fst e \<or> x = snd e" using \<open>x \<in> _\<close> by (auto simp: pairs_flat_facts)
    then show ?thesis using 7(1,2) [of e k pre' rest'] x [of e] that(2) by blast
  qed
  have "buf = pre @ array_header (length (pairs_flat d)) @ concat (map resp_encode (pairs_flat d)) @ rest"
    using 7(5) by (simp add: pairs_flat_facts(1,3))
  then have "parse_from (Suc k) buf (int (length pre)) =
    Inr (PList (map resp_norm (pairs_flat d)), int (length (array_header (length (pairs_flat d)) @ concat (map resp_encode (pairs_flat d)))))"
    by (rule parse_encoded_array) (erule (1) el, rule encode_nonempty)
  then show ?case by (simp add: k pairs_flat_facts(1,3) pairs_flat_facts(4) [of resp_norm])
next
  case (8 msg)
  then obtain d where d: "depth = Suc d" by (cases depth) auto
  have b: "buf = pre @ CHR ''-'' # (''ERR '' @ msg) @ CRLF @ rest" using 8 by (simp add: resp_error_def)
  have n: "find_sub CRLF (''ERR '' @ msg) = None" using 8 by (simp add: startswith_CRLF)
  have "utf8_valid ''ERR ''" by (rule utf8_ascii) simp
  from utf8_valid_append [OF this, of msg] have "utf8_valid (''ERR '' @ msg)" using 8 by simp
  then show ?case
    by (simp only: d parse_from_line [OF b n prefix_not_cr(4)]) (simp add: parse_header_def utf8_replace_valid resp_error_def)
next
  case (9 s)
  then obtain d where "depth = Suc d" by (cases depth) auto
  with parse_encoded_bulk [of buf pre s rest d] 9 show ?case by simp
qed

section \<open>Incomplete input\<close>

lemma parse_from_no_line:
  "find_sub CRLF t = None \<Longrightarrow> parse_from (Suc depth) (pre @ t) (int (length pre)) = Inr (PNone, 0)"
proof (cases "t = []")
  case False
  assume "find_sub CRLF t = None"
  then have f: "py_find CRLF (pre @ t) (int (length pre)) = -1" by (simp add: py_find_def)
  have "py_index (pre @ t) (int (length pre)) = Some (hd t)"
    using False py_index_nat [of "length pre" "pre @ t"] by (simp add: nth_append hd_conv_nth)
  with False f show ?thesis by simp
qed simp

lemma parse_from_short_line:
  assumes "find_sub CRLF s = None" "p \<noteq> CHR 0x0D" "n < length s + 3"
  shows "parse_from (Suc depth) (pre @ take n (p # s @ CRLF @ rest)) (int (length pre)) = Inr (PNone, 0)"
proof (rule parse_from_no_line)
  have "\<not> startswith (p # s) CRLF" using assms(2) by (auto simp: startswith_CRLF)
  then have "find_sub CRLF (p # s) = None" using assms(1) by simp
  from find_CRLF_take [OF this, of n] assms(3)
  have "find_sub CRLF (take n ((p # s) @ CRLF)) = None" by simp
  moreover have "take n (p # s @ CRLF @ rest) = take n ((p # s) @ CRLF)" using assms(3) by (simp add: CRLF_def take_Cons')
  ultimately show "find_sub CRLF (take n (p # s @ CRLF @ rest)) = None" by simp
qed

lemma parse_short_bulk:
  assumes n: "n < length (resp_bulk (Some b))"
  shows "\<exists>x. parse_from (Suc depth) (pre @ take n (resp_bulk (Some b))) (int (length pre)) = Inr (x, 0)"
proof (cases "n < length (str_nat (length b)) + 3")
  case True
  have e: "resp_bulk (Some b) = CHR ''$'' # str_nat (length b) @ CRLF @ b @ CRLF" by (simp add: resp_bulk_def)
  show ?thesis unfolding e using parse_from_short_line [OF str_nat_no_cr(1) prefix_not_cr(1) True] by blast
next
  case False
  let ?h = "CHR ''$'' # str_nat (length b) @ CRLF"
  define t where "t = take (n - length ?h) (b @ CRLF)"
  have "take n (resp_bulk (Some b)) = ?h @ t"
    using False by (simp add: resp_bulk_def t_def take_Cons' CRLF_def numeral_3_eq_3)
  then have buf: "pre @ take n (resp_bulk (Some b)) = pre @ CHR ''$'' # str_nat (length b) @ CRLF @ t" by simp
  have "length t < length b + 2" using n False by (simp add: t_def resp_bulk_def)
  then show ?thesis
    by (simp only: parse_from_line [OF buf str_nat_no_cr(1) prefix_not_cr(1)])
      (simp add: parse_header_def utf8_replace_valid str_nat_no_cr parse_bulk_def Let_def buf)
qed

lemma parse_short_elements:
  assumes "\<And>v buf pre rest. v \<in> set vs \<Longrightarrow> buf = pre @ resp_encode v @ rest \<Longrightarrow>
      parse_from depth buf (int (length pre)) = Inr (resp_norm v, int (length (resp_encode v)))"
    and "\<And>v pre n. v \<in> set vs \<Longrightarrow> n < length (resp_encode v) \<Longrightarrow>
      \<exists>x. parse_from depth (pre @ take n (resp_encode v)) (int (length pre)) = Inr (x, 0)"
  shows "n < length (concat (map resp_encode vs)) \<Longrightarrow>
    parse_elements (parse_from depth (pre @ take n (concat (map resp_encode vs)))) (length vs) (int (length pre)) acc = Inr None"
  using assms
proof (induction vs arbitrary: pre acc n)
  case (Cons v vs)
  show ?case
  proof (cases "n < length (resp_encode v)")
    case True
    obtain x where "parse_from depth (pre @ take n (resp_encode v)) (int (length pre)) = Inr (x, 0)"
      using Cons.prems(3) [OF _ True] by auto
    with True show ?thesis by simp
  next
    case False
    define m where "m = n - length (resp_encode v)"
    have t: "take n (concat (map resp_encode (v # vs))) = resp_encode v @ take m (concat (map resp_encode vs))"
      using False by (simp add: m_def)
    have e: "parse_from depth (pre @ resp_encode v @ take m (concat (map resp_encode vs))) (int (length pre))
        = Inr (resp_norm v, int (length (resp_encode v)))"
      by (rule Cons.prems(2)) simp_all
    have "parse_elements (parse_from depth ((pre @ resp_encode v) @ take m (concat (map resp_encode vs)))) (length vs)
        (int (length (pre @ resp_encode v))) (acc @ [resp_norm v]) = Inr None"
    proof (rule Cons.IH)
      show "m < length (concat (map resp_encode vs))" using Cons.prems(1) False by (simp add: m_def)
    qed (use Cons.prems in simp_all)
    with e encode_nonempty [of v] show ?thesis unfolding t by simp
  qed
qed simp

lemma parse_short_array:
  assumes "\<And>v buf pre rest. v \<in> set vs \<Longrightarrow> buf = pre @ resp_encode v @ rest \<Longrightarrow>
      parse_from depth buf (int (length pre)) = Inr (resp_norm v, int (length (resp_encode v)))"
    and "\<And>v pre n. v \<in> set vs \<Longrightarrow> n < length (resp_encode v) \<Longrightarrow>
      \<exists>x. parse_from depth (pre @ take n (resp_encode v)) (int (length pre)) = Inr (x, 0)"
    and n: "n < length (array_header (length vs) @ concat (map resp_encode vs))"
  shows "\<exists>x. parse_from (Suc depth) (pre @ take n (array_header (length vs) @ concat (map resp_encode vs))) (int (length pre)) = Inr (x, 0)"
proof (cases "n < length (str_nat (length vs)) + 3")
  case True
  have e: "array_header (length vs) @ concat (map resp_encode vs) =
      CHR ''*'' # str_nat (length vs) @ CRLF @ concat (map resp_encode vs)" by (simp add: array_header_def)
  show ?thesis unfolding e using parse_from_short_line [OF str_nat_no_cr(1) prefix_not_cr(2) True] by blast
next
  case False
  let ?a = "array_header (length vs)"
  define m where "m = n - length ?a"
  have l: "length ?a = length (str_nat (length vs)) + 3" by (simp add: array_header_def)
  then have t: "take n (?a @ concat (map resp_encode vs)) = ?a @ take m (concat (map resp_encode vs))"
    using False by (simp add: m_def)
  have buf: "pre @ take n (?a @ concat (map resp_encode vs)) =
      pre @ CHR ''*'' # str_nat (length vs) @ CRLF @ take m (concat (map resp_encode vs))"
    unfolding t by (simp add: array_header_def)
  have "m < length (concat (map resp_encode vs))" using n False l by (simp add: m_def)
  from parse_short_elements [OF assms(1,2) this, where pre = "pre @ ?a" and acc = "[]"]
  have e: "parse_elements (parse_from depth (pre @ take n (?a @ concat (map resp_encode vs)))) (length vs) (int (length (pre @ ?a))) []
      = Inr None" unfolding t by simp
  have h: "int (length pre) + (int (length (str_nat (length vs))) + 3) = int (length (pre @ ?a))" by (simp add: l)
  show ?thesis
    by (simp only: parse_from_line [OF buf str_nat_no_cr(1) prefix_not_cr(2)] parse_header_def)
      (simp add: utf8_replace_valid str_nat_no_cr parse_array_def Let_def h e del: length_append take_append)
qed

lemma parse_incomplete:
  "resp_wf v \<Longrightarrow> resp_depth v \<le> depth \<Longrightarrow> n < length (resp_encode v) \<Longrightarrow>
   \<exists>x. parse_from depth (pre @ take n (resp_encode v)) (int (length pre)) = Inr (x, 0)"
proof (induction v arbitrary: depth pre n rule: resp_encode.induct)
  case 1
  then obtain d where d: "depth = Suc d" by (cases depth) auto
  have "find_sub CRLF ''-1'' = None" by (rule find_CRLF_None) simp
  from parse_from_short_line [OF this prefix_not_cr(1), of n d pre "[]"] 1 show ?case by (simp add: d resp_bulk_def)
next
  case (2 x)
  then obtain d where d: "depth = Suc d" by (cases depth) auto
  from parse_from_short_line [OF str_int_no_cr prefix_not_cr(3), of n _ d pre "[]"] 2(3)
  have "parse_from (Suc d) (pre @ take n (CHR '':'' # str_int (if x then 1 else 0) @ CRLF @ [])) (int (length pre)) = Inr (PNone, 0)"
    by (simp add: resp_integer_def)
  then show ?case unfolding d resp_encode.simps resp_integer_def append.simps append_Nil2 by blast
next
  case (3 i)
  then obtain d where d: "depth = Suc d" by (cases depth) auto
  from parse_from_short_line [OF str_int_no_cr prefix_not_cr(3), of n i d pre "[]"] 3 show ?case
    by (simp add: d resp_integer_def)
next
  case (4 s)
  then obtain d where "depth = Suc d" by (cases depth) auto
  with parse_short_bulk [of n s d pre] 4 show ?case by simp
next
  case (5 s)
  then obtain d where "depth = Suc d" by (cases depth) auto
  with parse_short_bulk [of n s d pre] 5 show ?case by simp
next
  case (6 xs)
  then obtain d where d: "depth = Suc d" by (cases depth) auto
  have x: "resp_depth x \<le> d \<and> resp_wf x" if "x \<in> set xs" for x
    using 6(2,3) that foldr_max_ge [OF that, of resp_depth] by (simp add: d list_all_iff)
  have n: "n < length (array_header (length xs) @ concat (map resp_encode xs))" using 6(4) by simp
  have "\<exists>y. parse_from (Suc d) (pre @ take n (array_header (length xs) @ concat (map resp_encode xs))) (int (length pre)) = Inr (y, 0)"
    by (rule parse_short_array [OF _ _ n]) (use parse_encoded x 6(1) in blast)+
  then show ?case by (simp only: d resp_encode.simps)
next
  case (7 e)
  then obtain d where d: "depth = Suc d" by (cases depth) auto
  have x: "resp_depth (fst u) \<le> d \<and> resp_depth (snd u) \<le> d \<and> resp_wf (fst u) \<and> resp_wf (snd u)" if "u \<in> set e" for u
    using 7(3,4) that foldr_max_ge [OF that, of "\<lambda>e. max (resp_depth (fst e)) (resp_depth (snd e))"]
    by (simp add: d list_all_iff)
  have y: "(\<exists>u \<in> set e. y = fst u \<or> y = snd u) \<and> resp_depth y \<le> d \<and> resp_wf y" if "y \<in> set (pairs_flat e)" for y
    using x that unfolding pairs_flat_facts(2) by blast
  have n: "n < length (array_header (length (pairs_flat e)) @ concat (map resp_encode (pairs_flat e)))"
    using 7(5) by (simp add: pairs_flat_facts(1,3))
  have "\<exists>y. parse_from (Suc d) (pre @ take n (array_header (length (pairs_flat e)) @ concat (map resp_encode (pairs_flat e))))
      (int (length pre)) = Inr (y, 0)"
  proof (rule parse_short_array [OF _ _ n])
    fix v pre n assume "v \<in> set (pairs_flat e)" "n < length (resp_encode v)"
    with y [of v] 7(1,2) show "\<exists>x. parse_from d (pre @ take n (resp_encode v)) (int (length pre)) = Inr (x, 0)" by blast
  qed (use parse_encoded y in blast)
  then show ?case by (simp only: d resp_encode.simps pairs_flat_facts(1,3))
next
  case (8 msg)
  then obtain d where d: "depth = Suc d" by (cases depth) auto
  have "find_sub CRLF (''ERR '' @ msg) = None" using 8 by (simp add: startswith_CRLF)
  from parse_from_short_line [OF this prefix_not_cr(4), of n d pre "[]"] 8 show ?case by (simp add: d resp_error_def)
next
  case (9 s)
  then obtain d where "depth = Suc d" by (cases depth) auto
  with parse_short_bulk [of n s d pre] 9 show ?case by simp
qed

section \<open>Properties\<close>

text \<open>
  C24. Serialised values parse back. The parser reads a serialised value at the head of the
  buffer as the value itself (booleans as integers, dictionaries flattened, exceptions with
  the prefix ERR) and leaves exactly the bytes behind it.
\<close>

theorem resp_roundtrip:
  assumes "resp_wf v" "resp_depth v \<le> depth"
  shows "get_next depth (resp_encode v @ rest) = (Inr (resp_norm v), rest)"
  using parse_encoded [OF assms, of "resp_encode v @ rest" "[]" rest] encode_nonempty [of v]
  by (simp add: get_next_def)

theorem resp_roundtrip_witness:
  "get_next 2 (resp_encode (PList [PStr ''SET'', PStr ''k'', PInt (-5), PNone]) @ ''+OK'') =
     (Inr (PList [PStr ''SET'', PStr ''k'', PInt (-5), PNone]), ''+OK'')"
proof -
  have "utf8_valid ''SET''" "utf8_valid ''k''" by (rule utf8_ascii, simp)+
  then show ?thesis
    using resp_roundtrip [of "PList [PStr ''SET'', PStr ''k'', PInt (-5), PNone]" 2 "''+OK''"] by simp
qed

text \<open>
  A value that has arrived only partly is not consumed: for every proper prefix of a
  serialised value the parser returns None and keeps its buffer.
\<close>

lemma get_next_incomplete:
  assumes "resp_wf v" "resp_depth v \<le> depth" "n < length (resp_encode v)"
  shows "get_next depth (take n (resp_encode v)) = (Inr PNone, take n (resp_encode v))"
  using parse_incomplete [OF assms, of "[]"] by (auto simp: get_next_def)

text \<open>
  The inner loop of the connection handler (\<open>handle_client\<close>), without the execution of the
  commands: all complete values of the buffer, how the loop ended, and the buffer after it.
\<close>

lemma get_next_shrinks:
  assumes "get_next depth buf = (Inr v, buf')" "v \<noteq> PNone"
  shows "length buf' < length buf"
  using assms by (auto simp: get_next_def split: if_splits sum.splits prod.splits)

function drain :: "nat \<Rightarrow> bytes \<Rightarrow> pyval list \<times> unit res \<times> bytes" where
  "drain depth buf =
     (case get_next depth buf of
        (Inl e, b) \<Rightarrow> ([], Inl e, b)
      | (Inr v, b) \<Rightarrow>
          if v = PNone then ([], Inr (), b)
          else (case drain depth b of (vs, r, b') \<Rightarrow> (v # vs, r, b')))"
  by pat_completeness auto
termination
  by (relation "measure (\<lambda>(_, buf). length buf)") (auto dest!: get_next_shrinks [OF sym])

declare drain.simps [simp del]

text \<open>The outer loop: one step per block of data read from the connection.\<close>

fun read_stream :: "nat \<Rightarrow> bytes \<Rightarrow> bytes list \<Rightarrow> pyval list \<times> unit res \<times> bytes" where
  "read_stream depth buf [] = ([], Inr (), buf)"
| "read_stream depth buf (data # blocks) =
     (case drain depth (resp_feed data buf) of
        (vs, Inl e, b) \<Rightarrow> (vs, Inl e, b)
      | (vs, Inr u, b) \<Rightarrow> (case read_stream depth b blocks of (ws, r, b') \<Rightarrow> (vs @ ws, r, b')))"

definition stream_ok :: "nat \<Rightarrow> pyval \<Rightarrow> bool" where
  "stream_ok depth v \<longleftrightarrow> resp_wf v \<and> resp_depth v \<le> depth \<and> v \<noteq> PNone"

lemma norm_not_None: "v \<noteq> PNone \<Longrightarrow> resp_norm v \<noteq> PNone"
  by (cases v) auto

lemma drain_empty: "drain depth [] = ([], Inr (), [])"
  by (simp add: drain.simps get_next_def)

lemma drain_prefix:
  "list_all (stream_ok depth) vs \<Longrightarrow> buf @ rest = concat (map resp_encode vs) \<Longrightarrow>
   \<exists>k buf'. k \<le> length vs \<and> drain depth buf = (map resp_norm (take k vs), Inr (), buf') \<and>
     buf' @ rest = concat (map resp_encode (drop k vs)) \<and> (rest = [] \<longrightarrow> k = length vs) \<and>
     (k < length vs \<longrightarrow> length buf' < length (resp_encode (vs ! k)))"
proof (induction vs arbitrary: buf)
  case Nil
  then show ?case by (simp add: drain_empty)
next
  case (Cons v vs)
  have v: "resp_wf v" "resp_depth v \<le> depth" "v \<noteq> PNone" using Cons.prems(1) by (auto simp: stream_ok_def)
  have e: "buf @ rest = resp_encode v @ concat (map resp_encode vs)" using Cons.prems(2) by simp
  show ?case
  proof (cases "length buf < length (resp_encode v)")
    case True
    have "buf = take (length buf) (resp_encode v @ concat (map resp_encode vs))" by (simp flip: e)
    then have "buf = take (length buf) (resp_encode v)" using True by simp
    with get_next_incomplete [OF v(1,2) True] have "get_next depth buf = (Inr PNone, buf)" by simp
    then have "drain depth buf = ([], Inr (), buf)" by (simp add: drain.simps)
    moreover have "rest \<noteq> []"
    proof
      assume "rest = []"
      then have "length buf = length (resp_encode v @ concat (map resp_encode vs))" using e by simp
      with True show False by simp
    qed
    ultimately show ?thesis using Cons.prems(2) True by (intro exI [of _ 0] exI [of _ buf]) simp
  next
    case False
    define b where "b = drop (length (resp_encode v)) buf"
    have "take (length (resp_encode v)) (buf @ rest) = resp_encode v" by (simp add: e)
    then have "take (length (resp_encode v)) buf = resp_encode v" using False by simp
    then have "buf = resp_encode v @ b" unfolding b_def by (metis append_take_drop_id)
    with e have b: "buf = resp_encode v @ b" "b @ rest = concat (map resp_encode vs)" by simp_all
    obtain k buf' where k: "k \<le> length vs" "drain depth b = (map resp_norm (take k vs), Inr (), buf')"
      "buf' @ rest = concat (map resp_encode (drop k vs))" "rest = [] \<longrightarrow> k = length vs"
      "k < length vs \<longrightarrow> length buf' < length (resp_encode (vs ! k))"
      using Cons.IH [OF _ b(2)] Cons.prems(1) by auto
    have "get_next depth buf = (Inr (resp_norm v), b)"
      using parse_encoded [OF v(1,2), of buf "[]" b] encode_nonempty [of v] by (simp add: get_next_def b(1))
    then have "drain depth buf = (map resp_norm (take (Suc k) (v # vs)), Inr (), buf')"
      using norm_not_None [OF v(3)] k(2) by (simp add: drain.simps [of depth buf])
    with k show ?thesis by (intro exI [of _ "Suc k"] exI [of _ buf']) simp
  qed
qed

lemma read_stream_ok:
  "list_all (stream_ok depth) vs \<Longrightarrow> buf @ concat (c # cs) = concat (map resp_encode vs) \<Longrightarrow>
   read_stream depth buf (c # cs) = (map resp_norm vs, Inr (), [])"
proof (induction cs arbitrary: c buf vs)
  case Nil
  obtain k buf' where k: "drain depth (buf @ c) = (map resp_norm (take k vs), Inr (), buf')"
      "buf' @ [] = concat (map resp_encode (drop k vs))" "k = length vs"
    using drain_prefix [OF Nil(1), of "buf @ c" "[]"] Nil(2) by auto
  then show ?case by (simp add: resp_feed_def)
next
  case (Cons c' cs)
  obtain k buf' where k: "drain depth (buf @ c) = (map resp_norm (take k vs), Inr (), buf')"
      "buf' @ concat (c' # cs) = concat (map resp_encode (drop k vs))"
    using drain_prefix [OF Cons.prems(1), of "buf @ c" "concat (c' # cs)"] Cons.prems(2) by auto
  have "list_all (stream_ok depth) (drop k vs)" using Cons.prems(1) by (auto simp: list_all_iff dest: in_set_dropD)
  from Cons.IH [OF this k(2)] have "read_stream depth buf' (c' # cs) = (map resp_norm (drop k vs), Inr (), [])" .
  moreover have "map resp_norm (take k vs) @ map resp_norm (drop k vs) = map resp_norm vs"
    by (simp flip: map_append)
  ultimately show ?case using k(1) by (simp only: read_stream.simps(2) [of depth buf c] resp_feed_def) simp
qed

text \<open>
  Fragmentation does not matter. However the bytes of a sequence of serialised values
  (other than None) are cut into blocks on their way, the connection handler's loops read
  exactly these values in order and end with an empty buffer.
\<close>

theorem resp_fragmentation:
  assumes "list_all (stream_ok depth) vs" "concat blocks = concat (map resp_encode vs)"
  shows "read_stream depth [] blocks = (map resp_norm vs, Inr (), [])"
proof (cases blocks)
  case Nil
  then have "vs = []" using assms(2) encode_nonempty by (cases vs) auto
  with Nil show ?thesis by simp
next
  case (Cons c cs)
  with read_stream_ok [OF assms(1), of "[]" c cs] assms(2) show ?thesis by simp
qed

theorem resp_fragmentation_witness:
  "read_stream 1 [] [''$4'' @ [CHR 0x0D], CHR 0x0A # ''PI'', ''NG'' @ CRLF @ ''$4'' @ CRLF @ ''QU'', ''IT'' @ CRLF]
     = ([PStr ''PING'', PStr ''QUIT''], Inr (), [])"
proof -
  have "utf8_valid ''PING''" "utf8_valid ''QUIT''" by (rule utf8_ascii, simp)+
  moreover have "str_nat (Suc (Suc (Suc (Suc 0)))) = ''4''" by (simp add: str_nat.simps digit_char_def char_of_eq_iff)
  ultimately show ?thesis
    using resp_fragmentation [of 1 "[PStr ''PING'', PStr ''QUIT'']"
      "[''$4'' @ [CHR 0x0D], CHR 0x0A # ''PI'', ''NG'' @ CRLF @ ''$4'' @ CRLF @ ''QU'', ''IT'' @ CRLF]"]
    by (simp add: stream_ok_def resp_bulk_def CRLF_def)
qed

text \<open>A call that returns removes a prefix of the buffer, one that raises leaves it.\<close>

lemma get_next_prefix:
  "get_next depth buf = (Inr v, buf') \<Longrightarrow>
   \<exists>c \<le> length buf. buf' = drop c buf \<and> (v \<noteq> PNone \<longrightarrow> 0 < c)"
proof -
  assume g: "get_next depth buf = (Inr v, buf')"
  show ?thesis
  proof (cases "v = PNone \<and> buf' = buf")
    case True
    then show ?thesis by (intro exI [of _ 0]) simp
  next
    case False
    then obtain c where c: "parse_from depth buf 0 = Inr (v, c)" "0 < c" "buf' = drop (nat c) buf"
      using g by (auto simp: get_next_def split: if_splits sum.splits prod.splits)
    with parse_from_bound [OF c(1)] show ?thesis by (intro exI [of _ "nat c"]) simp
  qed
qed

lemma get_next_raises: "get_next depth buf = (Inl e, buf') \<Longrightarrow> buf' = buf"
  by (auto simp: get_next_def split: if_splits sum.splits prod.splits)

text \<open>
  Bounds and progress. On any input whatever, a call of \<open>get_next\<close> that returns removes a
  prefix of the buffer, never more than is there, and a call that returns a value removes at
  least one byte, so the handler's inner loop ends.
\<close>

theorem resp_consumes_prefix:
  "get_next depth buf = (Inr v, buf') \<Longrightarrow>
   \<exists>c \<le> length buf. buf' = drop c buf \<and> (v \<noteq> PNone \<longrightarrow> 0 < c)"
  by (rule get_next_prefix)

theorem resp_consumes_prefix_witness:
  "\<exists>c \<le> length (resp_encode (PInt 7) @ ''x''). ''x'' = drop c (resp_encode (PInt 7) @ ''x'') \<and> 0 < c"
proof -
  have "get_next 1 (resp_encode (PInt 7) @ ''x'') = (Inr (PInt 7), ''x'')"
    using parse_encoded [of "PInt 7" 1 "resp_encode (PInt 7) @ ''x''" "[]" "''x''"] encode_nonempty [of "PInt 7"]
    by (simp add: get_next_def)
  from resp_consumes_prefix [OF this] show ?thesis by auto
qed

text \<open>
  A negative bulk length moves the parser backwards. The ten bytes below, as the head of
  any input, send it into a recursion that no stack is deep enough for: \<open>get_next\<close> raises
  RecursionError.
\<close>

theorem resp_negative_length_recursion:
  "get_next depth (''*2'' @ CRLF @ ''$-12'' @ CRLF @ rest) = (Inl RecursionError, ''*2'' @ CRLF @ ''$-12'' @ CRLF @ rest)"
proof -
  let ?buf = "''*2'' @ CRLF @ ''$-12'' @ CRLF @ rest"
  have n: "find_sub CRLF ''2'' = None" "find_sub CRLF ''-12'' = None" by (rule find_CRLF_None, simp)+
  have u: "utf8_replace ''2'' = ''2''" "utf8_replace ''-12'' = ''-12''" by (rule utf8_replace_valid, rule utf8_ascii, simp)+
  have i: "py_int ''2'' = Some 2" "py_int ''-12'' = Some (-12)"
    by (simp_all add: py_int_def strip_def is_space_def is_digit_def digit_val_def)
  have b1: "?buf = [] @ CHR ''*'' # ''2'' @ CRLF @ (''$-12'' @ CRLF @ rest)" by simp
  have b2: "?buf = (''*2'' @ CRLF) @ CHR ''$'' # ''-12'' @ CRLF @ rest" by simp
  have bk: "\<exists>x. parse_from (Suc d) ?buf 4 = Inr (x, -4)" for d
  proof -
    have "parse_from (Suc d) ?buf 4 = Inr (parse_bulk ?buf 4 ''-12'' 6)"
      using parse_from_line [OF b2 n(2) prefix_not_cr(1), of d] by (simp add: parse_header_def u)
    moreover have "snd (parse_bulk ?buf 4 ''-12'' 6) = -4" by (simp add: parse_bulk_def i Let_def)
    ultimately show ?thesis by (metis prod.collapse)
  qed
  have "parse_from depth ?buf 0 = Inl RecursionError"
  proof (induction depth)
    case (Suc d)
    have p: "parse_from (Suc d) ?buf 0 = parse_array (parse_from d ?buf) 0 ''2'' 4"
      using parse_from_line [OF b1 n(1) prefix_not_cr(2), of d] by (simp add: parse_header_def u)
    show ?case
    proof (cases d)
      case 0
      then show ?thesis unfolding p by (simp add: parse_array_def i numeral_2_eq_2)
    next
      case (Suc d')
      obtain x where "parse_from d ?buf 4 = Inr (x, -4)" using bk [of d'] unfolding Suc by blast
      then show ?thesis unfolding p using Suc.IH by (simp add: parse_array_def i numeral_2_eq_2 del: parse_from.simps)
    qed
  qed simp
  then show ?thesis by (simp add: get_next_def)
qed

lemma drop_line: "drop (nat (int (length s) + 3)) (p # s @ CRLF @ rest) = rest"
proof -
  have "nat (int (length s) + 3) = length (p # s @ CRLF)" by simp
  then have "drop (nat (int (length s) + 3)) ((p # s @ CRLF) @ rest) = rest" by (metis append_eq_conv_conj)
  then show ?thesis by simp
qed

text \<open>
  Messages are not escaped. A simple string or an error message that contains a line break
  is read by the peer as a shorter message followed by whatever comes after the break.
\<close>

theorem resp_line_injection:
  assumes "utf8_valid s" "find_sub CRLF s = None" "0 < depth"
  shows "get_next depth (resp_simple (s @ CRLF @ t)) = (Inr (PStr s), t @ CRLF) \<and>
     get_next depth (resp_error (s @ CRLF @ t)) = (Inr (PExc (''ERR '' @ s)), t @ CRLF)"
proof -
  obtain d where d: "depth = Suc d" using assms(3) by (cases depth) auto
  have b1: "resp_simple (s @ CRLF @ t) = [] @ CHR ''+'' # s @ CRLF @ (t @ CRLF)" by (simp add: resp_simple_def)
  have b2: "resp_error (s @ CRLF @ t) = [] @ CHR ''-'' # (''ERR '' @ s) @ CRLF @ (t @ CRLF)" by (simp add: resp_error_def)
  have n: "find_sub CRLF (''ERR '' @ s) = None" using assms(2) by (simp add: startswith_CRLF)
  have "utf8_valid ''ERR ''" by (rule utf8_ascii) simp
  from utf8_valid_append [OF this, of s] have u: "utf8_valid (''ERR '' @ s)" using assms(1) by simp
  show ?thesis
    using parse_from_line [OF b1 assms(2) prefix_not_cr(5), of d] parse_from_line [OF b2 n prefix_not_cr(4), of d]
      utf8_replace_valid [OF assms(1)] utf8_replace_valid [OF u]
      drop_line [of s "CHR ''+''"] drop_line [of "''ERR '' @ s" "CHR ''-''"]
    unfolding d get_next_def resp_simple_def resp_error_def by (simp add: parse_header_def del: parse_from.simps)
qed

theorem resp_line_injection_witness:
  "get_next 1 (resp_simple (''PONG'' @ CRLF @ ''-ERR x'')) = (Inr (PStr ''PONG''), ''-ERR x'' @ CRLF)"
proof -
  have "utf8_valid ''PONG''" "find_sub CRLF ''PONG'' = None" by (rule utf8_ascii, simp) (rule find_CRLF_None, simp)
  with resp_line_injection [of "''PONG''" 1 "''-ERR x''"] show ?thesis by simp
qed

end
