(* ===== verification/PyFloat.thy ===== *)
theory PyFloat
  imports PyStruct PyText
begin

text \<open>
  Python's \<open>float\<close> on its 64 bits: comparison, correctly rounded addition, conversion from and
  to integers, \<open>float(str)\<close> and \<open>str(float)\<close> (the shortest digits that read back). A finite
  value is an integer multiple of \<open>2 ^ (- 1074)\<close>, so exact intermediate results are integers
  or ratios and every result is rounded once, to nearest, ties to even. Restricted here:
  \<open>float()\<close> strips ASCII white space and takes ASCII digits.
\<close>

section \<open>Rounding\<close>

fun bit_len :: "nat \<Rightarrow> nat" where
  "bit_len n = (if n = 0 then 0 else Suc (bit_len (n div 2)))"

declare bit_len.simps [simp del]

lemma bit_len_eq: "2 ^ l \<le> n \<Longrightarrow> n < 2 ^ Suc l \<Longrightarrow> bit_len n = Suc l"
proof (induction l arbitrary: n)
  case 0
  then have "n = 1" by simp
  then show ?case by (simp add: bit_len.simps)
next
  case (Suc l)
  have "0 < n" using Suc.prems(1) by (metis not_gr_zero not_le zero_less_power zero_less_numeral)
  moreover have "bit_len (n div 2) = Suc l" by (rule Suc.IH) (use Suc.prems in auto)
  ultimately show ?case by (subst bit_len.simps) simp
qed

lemma bit_len_le: "n < 2 ^ l \<Longrightarrow> bit_len n \<le> l"
proof (induction l arbitrary: n)
  case 0
  then show ?case by (simp add: bit_len.simps)
next
  case (Suc l)
  then have "bit_len (n div 2) \<le> l" by (intro Suc.IH) simp
  then show ?case by (subst bit_len.simps) simp
qed

text \<open>The bits, without the sign, of \<open>num / den\<close> units of \<open>2 ^ (- 1074)\<close>, before overflow.\<close>

definition round_bits :: "nat \<Rightarrow> nat \<Rightarrow> nat" where
  "round_bits num den =
     (let k = bit_len (num div den) - 53 in k * 2 ^ 52 + rne_div num (den * 2 ^ k))"

definition INF_BITS :: nat where
  "INF_BITS = 2047 * 2 ^ 52"

definition f64_round :: "bool \<Rightarrow> nat \<Rightarrow> nat \<Rightarrow> f64" where
  "f64_round neg num den = of_nat ((if neg then 2 ^ 63 else 0) + min (round_bits num den) INF_BITS)"

definition f64_of_scaled :: "int \<Rightarrow> f64" where
  "f64_of_scaled s = f64_round (s < 0) (nat \<bar>s\<bar>) 1"

definition f64_finite :: "f64 \<Rightarrow> bool" where
  "f64_finite w \<longleftrightarrow> f64_exp w \<noteq> 2047"

definition f64_nan :: "f64 \<Rightarrow> bool" where
  "f64_nan w \<longleftrightarrow> f64_exp w = 2047 \<and> f64_mant w \<noteq> 0"

definition NAN :: f64 where
  "NAN = of_nat (INF_BITS + 2 ^ 51)"

section \<open>Comparison and arithmetic\<close>

text \<open>The order of the values that are not NaN; the two zeros are equal.\<close>

definition f64_rank :: "f64 \<Rightarrow> int" where
  "f64_rank w = (if f64_sign w = 0 then 1 else -1) * int (unat w mod 2 ^ 63)"

definition f64_le :: "f64 \<Rightarrow> f64 \<Rightarrow> bool" where
  "f64_le a b \<longleftrightarrow> \<not> f64_nan a \<and> \<not> f64_nan b \<and> f64_rank a \<le> f64_rank b"

definition f64_less :: "f64 \<Rightarrow> f64 \<Rightarrow> bool" where
  "f64_less a b \<longleftrightarrow> \<not> f64_nan a \<and> \<not> f64_nan b \<and> f64_rank a < f64_rank b"

definition f64_eq :: "f64 \<Rightarrow> f64 \<Rightarrow> bool" where
  "f64_eq a b \<longleftrightarrow> \<not> f64_nan a \<and> \<not> f64_nan b \<and> f64_rank a = f64_rank b"

definition f64_neg :: "f64 \<Rightarrow> f64" where
  "f64_neg w = (if f64_sign w = 0 then w + of_nat (2 ^ 63) else w - of_nat (2 ^ 63))"

definition f64_add :: "f64 \<Rightarrow> f64 \<Rightarrow> f64" where
  "f64_add a b =
     (if f64_nan a then a
      else if f64_nan b then b
      else if f64_finite a \<and> f64_finite b then
        (let s = f64_scaled a + f64_scaled b
         in if s = 0 then (if f64_sign a = 1 \<and> f64_sign b = 1 then of_nat (2 ^ 63) else 0)
            else f64_of_scaled s)
      else if f64_finite a then b
      else if f64_finite b then a
      else if f64_sign a = f64_sign b then a
      else NAN)"

definition f64_sub :: "f64 \<Rightarrow> f64 \<Rightarrow> f64" where
  "f64_sub a b = (if f64_nan b then b else f64_add a (f64_neg b))"

text \<open>\<open>float(n)\<close> of an integer, and \<open>int(x)\<close> of a float, which truncates.\<close>

definition f64_of_int :: "int \<Rightarrow> f64 res" where
  "f64_of_int n =
     (if INF_BITS \<le> round_bits (nat \<bar>n\<bar> * 2 ^ 1074) 1 then Inl OverflowError
      else Inr (f64_round (n < 0) (nat \<bar>n\<bar> * 2 ^ 1074) 1))"

definition f64_to_int :: "f64 \<Rightarrow> int res" where
  "f64_to_int w =
     (if f64_nan w then Inl (ValueError ''cannot convert float NaN to integer'')
      else if \<not> f64_finite w then Inl OverflowError
      else Inr (if f64_scaled w < 0 then - (- f64_scaled w div 2 ^ 1074) else f64_scaled w div 2 ^ 1074))"

section \<open>Reading a float\<close>

text \<open>Underscores may stand between digits only; they are dropped.\<close>

fun drop_underscores :: "char \<Rightarrow> bytes \<Rightarrow> bytes option" where
  "drop_underscores prev [] = (if prev = CHR ''_'' then None else Some [])"
| "drop_underscores prev (c # cs) =
     (if c = CHR ''_'' then (if is_digit prev then drop_underscores c cs else None)
      else if prev = CHR ''_'' \<and> \<not> is_digit c then None
      else map_option ((#) c) (drop_underscores c cs))"

definition digits_val :: "bytes \<Rightarrow> nat" where
  "digits_val ds = foldl (\<lambda>a c. 10 * a + digit_val c) 0 ds"

definition read_exponent :: "bytes \<Rightarrow> int option" where
  "read_exponent s =
     (let (neg, ds) = (case s of [] \<Rightarrow> (False, [])
        | c # r \<Rightarrow> if c = CHR ''-'' then (True, r) else if c = CHR ''+'' then (False, r) else (False, c # r))
      in if ds \<noteq> [] \<and> list_all is_digit ds then Some ((if neg then -1 else 1) * int (digits_val ds)) else None)"

text \<open>A decimal literal without sign, as digits \<open>n\<close> and exponent \<open>e\<close> (the value \<open>n * 10 ^ e\<close>).\<close>

definition read_decimal :: "bytes \<Rightarrow> (nat \<times> int) option" where
  "read_decimal t =
     (let ip = takeWhile is_digit t; r1 = dropWhile is_digit t;
          (fp, r2) = (case r1 of
             [] \<Rightarrow> ([], [])
           | c # r \<Rightarrow> if c = CHR ''.'' then (takeWhile is_digit r, dropWhile is_digit r) else ([], c # r))
      in if ip @ fp = [] then None
         else case r2 of
            [] \<Rightarrow> Some (digits_val (ip @ fp), - int (length fp))
          | c # r \<Rightarrow> if c = CHR ''e'' \<or> c = CHR ''E''
              then map_option (\<lambda>e. (digits_val (ip @ fp), e - int (length fp))) (read_exponent r) else None)"

definition f64_of_decimal :: "bool \<Rightarrow> nat \<Rightarrow> int \<Rightarrow> f64" where
  "f64_of_decimal neg n e =
     (if 0 \<le> e then f64_round neg (n * 10 ^ nat e * 2 ^ 1074) 1
      else f64_round neg (n * 2 ^ 1074) (10 ^ nat (- e)))"

definition read_unsigned :: "bool \<Rightarrow> bytes \<Rightarrow> f64 option" where
  "read_unsigned neg t =
     (if lower t = ''inf'' \<or> lower t = ''infinity'' then Some (of_nat ((if neg then 2 ^ 63 else 0) + INF_BITS))
      else if lower t = ''nan'' then Some (if neg then f64_neg NAN else NAN)
      else map_option (\<lambda>(n, e). f64_of_decimal neg n e) (read_decimal t))"

definition py_float :: "bytes \<Rightarrow> f64 option" where
  "py_float s =
     (case drop_underscores (CHR '' '') (strip s) of
        None \<Rightarrow> None
      | Some [] \<Rightarrow> None
      | Some (c # t) \<Rightarrow>
          if c = CHR ''-'' then read_unsigned True t
          else if c = CHR ''+'' then read_unsigned False t
          else read_unsigned False (c # t))"

section \<open>Printing a float\<close>

text \<open>The decimal exponent of \<open>num / den\<close>: the \<open>p\<close> with \<open>10 ^ p \<le> num / den < 10 ^ (p + 1)\<close>.\<close>

definition dec_exp :: "nat \<Rightarrow> nat \<Rightarrow> int" where
  "dec_exp num den =
     (if den \<le> num then int (length (str_nat (num div den))) - 1
      else - int (length (str_nat ((den - 1) div num))))"

text \<open>
  The decimals with \<open>n\<close> digits next to \<open>num / den\<close>, the nearer one first: digits and exponent.
\<close>

definition near_decimals :: "nat \<Rightarrow> nat \<Rightarrow> nat \<Rightarrow> (nat \<times> int) list" where
  "near_decimals num den n =
     (let e = dec_exp num den - int n + 1;
          a = (if 0 \<le> e then num else num * 10 ^ nat (- e));
          b = (if 0 \<le> e then den * 10 ^ nat e else den);
          d = rne_div a b
      in [(d, e), (if d = a div b then d + 1 else d - 1, e)])"

definition strip_zeros :: "bytes \<Rightarrow> bytes" where
  "strip_zeros ds = rev (dropWhile (\<lambda>c. c = CHR ''0'') (rev ds))"

text \<open>\<open>float.__repr__\<close> of the value \<open>n * 10 ^ e\<close>: positional for exponents from -4 to 15.\<close>

definition format_decimal :: "nat \<times> int \<Rightarrow> bytes" where
  "format_decimal = (\<lambda>(n, e).
     let all = str_nat n; ds = strip_zeros all; decpt = int (length all) + e in
     if -4 < decpt \<and> decpt \<le> 16 then
       (if decpt \<le> 0 then ''0.'' @ replicate (nat (- decpt)) (CHR ''0'') @ ds
        else if int (length ds) \<le> decpt then ds @ replicate (nat decpt - length ds) (CHR ''0'') @ ''.0''
        else take (nat decpt) ds @ ''.'' @ drop (nat decpt) ds)
     else
       take 1 ds @ (if length ds = 1 then [] else ''.'' @ drop 1 ds) @ ''e'' @
       (if decpt - 1 < 0 then ''-'' else ''+'') @
       (let x = str_nat (nat \<bar>decpt - 1\<bar>) in if length x < 2 then ''0'' @ x else x))"

text \<open>
  The shortest decimal that reads back as \<open>w\<close>, and among these the nearest. Seventeen digits
  are always enough; the exact expansion after them makes the definition total by itself.
\<close>

definition str_float :: "f64 \<Rightarrow> bytes" where
  "str_float w =
     (let sign = (if f64_sign w = 1 then ''-'' else [])
      in if f64_nan w then ''nan''
         else if \<not> f64_finite w then sign @ ''inf''
         else if f64_scaled w = 0 then sign @ ''0.0''
         else
           (let m = nat \<bar>f64_scaled w\<bar>;
                texts = map (\<lambda>d. sign @ format_decimal d) (filter (\<lambda>d. 0 < fst d) (concat (map (near_decimals m (2 ^ 1074)) [1..<18])))
            in case find (\<lambda>t. py_float t = Some w) texts of
                 Some t \<Rightarrow> t
               | None \<Rightarrow> sign @ str_nat (m * 5 ^ 1074) @ ''e-1074''))"

section \<open>Printing and reading\<close>

lemma f64_parts:
  "unat w = f64_sign w * 2 ^ 63 + unat w mod 2 ^ 63" "unat w mod 2 ^ 63 = f64_exp w * 2 ^ 52 + f64_mant w"
  "f64_sign w < 2" "f64_mant w < 2 ^ 52"
proof -
  have b: "unat w < 2 ^ 64" using unsigned_less [of w] by simp
  show "unat w = f64_sign w * 2 ^ 63 + unat w mod 2 ^ 63" by (simp add: f64_sign_def)
  show "f64_sign w < 2" using b by (simp add: f64_sign_def less_mult_imp_div_less)
  show "f64_mant w < 2 ^ 52" by (simp add: f64_mant_def)
  have "unat w mod 2 ^ (52 + 11) div 2 ^ 52 = unat w div 2 ^ 52 mod 2 ^ 11"
    by (metis div_exp_mod_exp_eq add.commute)
  moreover have "unat w mod 2 ^ 63 mod 2 ^ 52 = unat w mod 2 ^ 52" by (rule mod_mod_cancel) (simp add: le_imp_power_dvd)
  ultimately show "unat w mod 2 ^ 63 = f64_exp w * 2 ^ 52 + f64_mant w"
    unfolding f64_exp_def f64_mant_def using div_mult_mod_eq [of "unat w mod 2 ^ 63" "2 ^ 52"] by simp
qed

lemma rne_div_exact: "0 < d \<Longrightarrow> rne_div (q * d) d = q"
  by (simp add: rne_div_def)

lemma scaled_abs:
  "nat \<bar>f64_scaled w\<bar> = (if f64_exp w = 0 then f64_mant w else (2 ^ 52 + f64_mant w) * 2 ^ (f64_exp w - 1))"
proof -
  have "nat \<bar>(if f64_sign w = 0 then 1 else - 1) * int n\<bar> = n" for n by simp
  then show ?thesis unfolding f64_scaled_def .
qed

lemma round_bits_exact:
  assumes "f64_finite w" "0 < d"
  shows "round_bits (nat \<bar>f64_scaled w\<bar> * d) d = unat w mod 2 ^ 63"
proof -
  let ?m = "nat \<bar>f64_scaled w\<bar>"
  have q: "?m * d div d = ?m" using assms(2) by simp
  have mant: "f64_mant w < 2 ^ 52" by (rule f64_parts)
  show ?thesis
  proof (cases "f64_exp w = 0")
    case True
    then have m: "?m = f64_mant w" by (simp add: scaled_abs)
    have "bit_len ?m \<le> 52" unfolding m by (rule bit_len_le [OF mant])
    then have "bit_len (?m * d div d) - 53 = 0" unfolding q by simp
    then have "round_bits (?m * d) d = rne_div (?m * d) d" by (simp add: round_bits_def)
    also have "\<dots> = f64_mant w" unfolding rne_div_exact [OF assms(2)] by (rule m)
    finally show ?thesis using True f64_parts(2) [of w] by simp
  next
    case False
    then obtain k where e: "f64_exp w = Suc k" by (cases "f64_exp w") auto
    have m: "?m = (2 ^ 52 + f64_mant w) * 2 ^ k" unfolding scaled_abs e by simp
    have "bit_len ?m = Suc (52 + k)"
    proof (rule bit_len_eq)
      have "(2 ^ 52 :: nat) * 2 ^ k \<le> ?m" unfolding m by (rule mult_right_mono) simp_all
      then show "2 ^ (52 + k) \<le> ?m" by (simp only: power_add)
      have "?m < (2 ^ 52 + 2 ^ 52) * 2 ^ k" unfolding m using mant by (intro mult_strict_right_mono) simp_all
      then show "?m < 2 ^ Suc (52 + k)" by (simp add: power_add)
    qed
    then have k: "bit_len (?m * d div d) - 53 = k" unfolding q by simp
    have a: "?m * d = (2 ^ 52 + f64_mant w) * (d * 2 ^ k)" unfolding m by simp
    have "round_bits (?m * d) d = k * 2 ^ 52 + rne_div (?m * d) (d * 2 ^ k)"
      unfolding round_bits_def k Let_def ..
    also have "rne_div (?m * d) (d * 2 ^ k) = 2 ^ 52 + f64_mant w"
      unfolding a by (rule rne_div_exact) (use assms(2) in simp)
    finally show ?thesis using f64_parts(2) [of w] by (simp add: e)
  qed
qed

lemma f64_bits: "of_nat ((if f64_sign w = 1 then 2 ^ 63 else 0) + unat w mod 2 ^ 63) = w"
proof -
  have "(if f64_sign w = 1 then 2 ^ 63 else 0) + unat w mod 2 ^ 63 = unat w"
    using f64_parts(1,3) [of w] by (cases "f64_sign w = 0") auto
  then show ?thesis by simp
qed

lemma f64_round_exact:
  assumes "f64_finite w" "0 < d"
  shows "f64_round (f64_sign w = 1) (nat \<bar>f64_scaled w\<bar> * d) d = w"
proof -
  have "f64_exp w < 2048" by (simp add: f64_exp_def)
  then have "f64_exp w * 2 ^ 52 + f64_mant w \<le> INF_BITS"
    using assms(1) f64_parts(4) [of w] by (simp add: f64_finite_def INF_BITS_def)
  then have "min (unat w mod 2 ^ 63) INF_BITS = unat w mod 2 ^ 63" unfolding f64_parts(2) by (rule min_absorb1)
  then show ?thesis unfolding f64_round_def round_bits_exact [OF assms] using f64_bits [of w] by simp
qed

lemma drop_underscores_none: "\<forall>c \<in> set s. c \<noteq> CHR ''_'' \<Longrightarrow> prev \<noteq> CHR ''_'' \<Longrightarrow> drop_underscores prev s = Some s"
  by (induction s arbitrary: prev) auto

lemma minus_not_space: "\<not> is_space (CHR ''-'')"
  by (simp add: is_space_def)

text \<open>Reading a text without underscores and white space.\<close>

lemma py_float_plain:
  assumes "\<forall>c \<in> set t. c \<noteq> CHR ''_'' \<and> \<not> is_space c" "t \<noteq> []" "hd t \<noteq> CHR ''-''" "hd t \<noteq> CHR ''+''"
  shows "py_float ((if neg then ''-'' else []) @ t) = read_unsigned neg t"
proof -
  let ?s = "(if neg then ''-'' else []) @ t"
  obtain c u where t: "t = c # u" using assms(2) by (cases t) auto
  have p: "\<forall>c \<in> set ?s. c \<noteq> CHR ''_'' \<and> \<not> is_space c" using assms(1) minus_not_space by auto
  then have "strip ?s = ?s" by (intro strip_no_space) blast
  moreover have "drop_underscores (CHR '' '') ?s = Some ?s" using p by (intro drop_underscores_none) auto
  ultimately show ?thesis using assms(3,4) by (simp add: py_float_def t)
qed

lemma digit_plain: "is_digit c \<Longrightarrow> c \<noteq> CHR ''_'' \<and> \<not> is_space c \<and> c \<noteq> CHR ''-'' \<and> c \<noteq> CHR ''+'' \<and> c \<noteq> CHR ''e'' \<and> c \<noteq> CHR ''.'' \<and>
    lower_char c \<noteq> CHR ''i'' \<and> lower_char c \<noteq> CHR ''n''"
  by (auto simp: is_digit_def is_space_def lower_char_def)

lemma read_decimal_exp:
  assumes "\<forall>c \<in> set ds. is_digit c" "ds \<noteq> []"
  shows "read_decimal (ds @ CHR ''e'' # r) = map_option (\<lambda>e. (digits_val ds, e)) (read_exponent r)"
proof -
  have "\<not> is_digit (CHR ''e'')" by (simp add: is_digit_def)
  then have "takeWhile is_digit (ds @ CHR ''e'' # r) = ds" "dropWhile is_digit (ds @ CHR ''e'' # r) = CHR ''e'' # r"
    using assms(1) by simp_all
  then show ?thesis using assms(2) by (simp add: read_decimal_def)
qed

lemma digits_val_str_nat: "digits_val (str_nat n) = n"
  by (simp add: digits_val_def foldl_str_nat)

lemma read_exact_decimal:
  "py_float ((if neg then ''-'' else []) @ str_nat n @ ''e-1074'') = Some (f64_of_decimal neg n (-1074))"
proof -
  let ?t = "str_nat n @ ''e-1074''"
  obtain c u where c: "str_nat n = c # u" "is_digit c"
    using str_nat_digits [of n] str_nat_nonempty [of n] by (cases "str_nat n") auto
  have "\<forall>c \<in> set ?t. c \<noteq> CHR ''_'' \<and> \<not> is_space c"
    using str_nat_digits [of n] digit_plain by (auto simp: is_space_def)
  from py_float_plain [OF this] c digit_plain
  have r: "py_float ((if neg then ''-'' else []) @ ?t) = read_unsigned neg ?t" by auto
  have "read_exponent ''-1074'' = Some (-1074)"
    by (simp add: read_exponent_def is_digit_def digits_val_def digit_val_def)
  then have "read_decimal ?t = Some (n, -1074)"
    using read_decimal_exp [OF str_nat_digits str_nat_nonempty, of n "''-1074''"] by (simp add: digits_val_str_nat)
  moreover have "lower ?t \<noteq> ''inf''" "lower ?t \<noteq> ''infinity''" "lower ?t \<noteq> ''nan''"
    using digit_plain [OF c(2)] by (simp_all add: c(1) lower_def)
  ultimately show ?thesis unfolding r by (simp add: read_unsigned_def)
qed

lemma scaled_zero: "f64_finite w \<Longrightarrow> f64_scaled w = 0 \<Longrightarrow> unat w mod 2 ^ 63 = 0"
  using round_bits_exact [of w 1] by (simp add: round_bits_def bit_len.simps rne_div_def)

lemma f64_of_decimal_neg: "0 < k \<Longrightarrow> f64_of_decimal neg n (- int k) = f64_round neg (n * 2 ^ 1074) (10 ^ k)"
proof -
  assume "0 < k"
  then have "\<not> 0 \<le> - int k" "nat (- (- int k)) = k" by simp_all
  then show ?thesis unfolding f64_of_decimal_def by (simp only: if_False)
qed

lemma zero_less_k: "k = 1074 \<Longrightarrow> 0 < (k :: nat)"
  by simp

lemma ten_power: "(5 :: nat) ^ k * 2 ^ k = 10 ^ k"
  by (simp flip: power_mult_distrib)

lemma exact_decimal:
  assumes "f64_finite w"
  shows "f64_of_decimal (f64_sign w = 1) (nat \<bar>f64_scaled w\<bar> * 5 ^ 1074) (-1074) = w"
proof -
  define k :: nat where "k = 1074"
  have e: "- int k = -1074" by (simp add: k_def)
  have "f64_of_decimal (f64_sign w = 1) (nat \<bar>f64_scaled w\<bar> * 5 ^ k) (- int k) = w"
    unfolding f64_of_decimal_neg [of k, unfolded k_def [symmetric], OF zero_less_k [OF k_def]] k_def [symmetric]
      mult.assoc ten_power
    by (rule f64_round_exact [OF assms]) simp
  then show ?thesis unfolding e unfolding k_def .
qed

lemma find_SomeD: "find P xs = Some x \<Longrightarrow> P x"
  by (auto simp: find_Some_iff)

text \<open>Reading what \<open>str\<close> printed gives the same double, bit by bit, for all but NaN.\<close>

lemma py_float_str_float: "\<not> f64_nan w \<Longrightarrow> py_float (str_float w) = Some w"
proof -
  assume n: "\<not> f64_nan w"
  let ?neg = "f64_sign w = 1"
  have eq: "(if f64_sign w = 1 then ''-'' else []) = (if ?neg then ''-'' else [])" ..
  consider (inf) "\<not> f64_finite w" | (zero) "f64_finite w" "f64_scaled w = 0" | (pos) "f64_finite w" "f64_scaled w \<noteq> 0"
    by blast
  then show ?thesis
  proof cases
    case inf
    then have "f64_exp w = 2047" "f64_mant w = 0" using n by (auto simp: f64_finite_def f64_nan_def)
    then have "unat w mod 2 ^ 63 = INF_BITS" using f64_parts(2) [of w] by (simp add: INF_BITS_def)
    then have w: "of_nat ((if ?neg then 2 ^ 63 else 0) + INF_BITS) = w" using f64_bits [of w] by simp
    have "py_float ((if ?neg then ''-'' else []) @ ''inf'') = read_unsigned ?neg ''inf''"
      by (rule py_float_plain) (simp_all add: is_space_def)
    also have "\<dots> = Some w" using w by (simp add: read_unsigned_def lower_def lower_char_def)
    finally show ?thesis using inf n by (simp add: str_float_def Let_def)
  next
    case zero
    have w: "of_nat (if ?neg then 2 ^ 63 else 0) = w" using f64_bits [of w] scaled_zero [OF zero] by simp
    have "read_decimal ''0.0'' = Some (0, -1)"
      by (simp add: read_decimal_def is_digit_def digits_val_def digit_val_def)
    moreover have "f64_of_decimal ?neg 0 (-1) = of_nat (if ?neg then 2 ^ 63 else 0)"
      by (simp add: f64_of_decimal_def f64_round_def round_bits_def bit_len.simps rne_div_def)
    moreover have "py_float ((if ?neg then ''-'' else []) @ ''0.0'') = read_unsigned ?neg ''0.0''"
      by (rule py_float_plain) (simp_all add: is_space_def)
    ultimately show ?thesis using zero n w
      by (simp add: str_float_def Let_def read_unsigned_def lower_def lower_char_def)
  next
    case pos
    let ?m = "nat \<bar>f64_scaled w\<bar>"
    let ?sign = "if ?neg then ''-'' else []"
    let ?texts = "map (\<lambda>d. ?sign @ format_decimal d) (filter (\<lambda>d. 0 < fst d) (concat (map (near_decimals ?m (2 ^ 1074)) [1..<18])))"
    have s: "str_float w = (case find (\<lambda>t. py_float t = Some w) ?texts of Some t \<Rightarrow> t
        | None \<Rightarrow> ?sign @ str_nat (?m * 5 ^ 1074) @ ''e-1074'')"
      unfolding str_float_def Let_def using n pos by (simp only: if_False not_not simp_thms)
    show ?thesis
    proof (cases "find (\<lambda>t. py_float t = Some w) ?texts")
      case None
      show ?thesis unfolding s None option.case read_exact_decimal exact_decimal [OF pos(1)] ..
    next
      case (Some t)
      then have "py_float t = Some w" by (rule find_SomeD)
      then show ?thesis unfolding s Some option.case .
    qed
  qed
qed

section \<open>The characters and the length of a printed float\<close>

lemma strip_zeros_set: "set (strip_zeros ds) \<subseteq> set ds" and strip_zeros_length: "length (strip_zeros ds) \<le> length ds"
  unfolding strip_zeros_def
  by (auto dest: set_dropWhileD) (metis length_dropWhile_le length_rev)

lemma format_decimal_set: "set (format_decimal (n, e)) \<subseteq> set (str_nat n) \<union> set ''0.e-+'' \<union> set (str_nat (nat \<bar>int (length (str_nat n)) + e - 1\<bar>))"
  using strip_zeros_set [of "str_nat n"]
  by (auto simp: format_decimal_def Let_def dest: in_set_takeD in_set_dropD split: if_splits)

lemma digit_ascii: "is_digit c \<Longrightarrow> of_char c < (128 :: nat)"
  by (simp add: is_digit_def)

lemma str_nat_ascii: "c \<in> set (str_nat n) \<Longrightarrow> of_char c < (128 :: nat)"
  using str_nat_digits digit_ascii by blast

lemma format_decimal_ascii: "c \<in> set (format_decimal d) \<Longrightarrow> of_char c < (128 :: nat)"
  using format_decimal_set [of "fst d" "snd d"] by (auto dest!: subsetD intro: str_nat_ascii)

lemma find_SomeI: "find P xs = Some x \<Longrightarrow> x \<in> set xs"
  by (auto simp: find_Some_iff)

lemma str_float_cases:
  obtains s where "str_float w \<in> {''nan'', s @ ''inf'', s @ ''0.0''}" "f64_finite w \<longrightarrow> str_float w = s @ ''0.0''" "s = (if f64_sign w = 1 then ''-'' else [])"
  | s d k where "str_float w = s @ format_decimal d" "d \<in> set (near_decimals (nat \<bar>f64_scaled w\<bar>) (2 ^ 1074) k)" "k < 18" "0 < fst d" "s = (if f64_sign w = 1 then ''-'' else [])"
  | s where "str_float w = s @ str_nat (nat \<bar>f64_scaled w\<bar> * 5 ^ 1074) @ ''e-1074''" "f64_scaled w \<noteq> 0" "s = (if f64_sign w = 1 then ''-'' else [])"
proof (cases "f64_nan w \<or> \<not> f64_finite w \<or> f64_scaled w = 0")
  case True
  then have "f64_finite w \<longrightarrow> str_float w = (if f64_sign w = 1 then ''-'' else []) @ ''0.0''"
    by (auto simp: str_float_def Let_def f64_nan_def f64_finite_def)
  moreover from True have "str_float w \<in> {''nan'', (if f64_sign w = 1 then ''-'' else []) @ ''inf'', (if f64_sign w = 1 then ''-'' else []) @ ''0.0''}"
    by (auto simp: str_float_def Let_def)
  ultimately show ?thesis by (intro that(1)) simp_all
next
  case False
  let ?s = "if f64_sign w = 1 then ''-'' else []"
  let ?texts = "map (\<lambda>d. ?s @ format_decimal d) (filter (\<lambda>d. 0 < fst d) (concat (map (near_decimals (nat \<bar>f64_scaled w\<bar>) (2 ^ 1074)) [1..<18])))"
  have s: "str_float w = (case find (\<lambda>t. py_float t = Some w) ?texts of Some t \<Rightarrow> t
      | None \<Rightarrow> ?s @ str_nat (nat \<bar>f64_scaled w\<bar> * 5 ^ 1074) @ ''e-1074'')"
    unfolding str_float_def Let_def using False by (simp only: de_Morgan_disj not_not if_False simp_thms)
  show ?thesis
  proof (cases "find (\<lambda>t. py_float t = Some w) ?texts")
    case None
    have e: "str_float w = ?s @ str_nat (nat \<bar>f64_scaled w\<bar> * 5 ^ 1074) @ ''e-1074''" using s unfolding None option.case .
    have "f64_scaled w \<noteq> 0" using False by blast
    then show ?thesis by (rule that(3) [OF e]) (rule refl)
  next
    case (Some t)
    then have "t \<in> set ?texts" by (rule find_SomeI)
    then obtain d k where d: "t = ?s @ format_decimal d" "d \<in> set (near_decimals (nat \<bar>f64_scaled w\<bar>) (2 ^ 1074) k)" "k < 18" "0 < fst d"
      unfolding set_map set_concat by auto
    have "str_float w = ?s @ format_decimal d" using s unfolding Some option.case d(1) .
    from that(2) [OF this d(2-4) refl] show ?thesis .
  qed
qed

lemma str_float_ascii: "c \<in> set (str_float w) \<Longrightarrow> of_char c < (128 :: nat)"
proof -
  assume c: "c \<in> set (str_float w)"
  show ?thesis
  proof (cases w rule: str_float_cases)
    case (1 s)
    with c show ?thesis by auto
  next
    case (2 s d k)
    with c show ?thesis by (auto intro: format_decimal_ascii)
  next
    case (3 s)
    from c have "c \<in> set s \<union> set (str_nat (nat \<bar>f64_scaled w\<bar> * 5 ^ 1074)) \<union> set ''e-1074''" unfolding 3(1) by (simp only: set_append Un_assoc)
    then show ?thesis using 3(3) by (elim UnE) (auto intro: str_nat_ascii simp del: power_numeral)
  qed
qed

lemma format_decimal_length:
  "length (format_decimal (n, e)) \<le> length (str_nat n) + nat \<bar>int (length (str_nat n)) + e\<bar> +
     length (str_nat (nat \<bar>int (length (str_nat n)) + e - 1\<bar>)) + 8"
  using strip_zeros_length [of "str_nat n"]
  by (auto simp: format_decimal_def Let_def)

lemma str_nat_pow8: "n < 2 ^ (3 * k) \<Longrightarrow> 0 < k \<Longrightarrow> length (str_nat n) \<le> k"
proof (rule length_str_nat)
  assume "n < 2 ^ (3 * k)"
  also have "(2 :: nat) ^ (3 * k) = 8 ^ k" by (simp add: power_mult)
  also have "\<dots> \<le> 10 ^ k" by (rule power_mono) simp_all
  finally show "n < 10 ^ k" .
qed

lemma scaled_less: "nat \<bar>f64_scaled w\<bar> < 2 ^ (3 * 700)"
proof -
  have "f64_mant w < 2 ^ 52" "f64_exp w < 2 ^ 11" by (rule f64_parts(4)) (simp add: f64_exp_def)
  then have "f64_exp w - 1 \<le> 2046" by simp
  then have p: "(2 :: nat) ^ (f64_exp w - 1) \<le> 2 ^ 2046" by (rule power_increasing) simp
  have "(2 ^ 52 + f64_mant w) * 2 ^ (f64_exp w - 1) \<le> 2 ^ 53 * 2 ^ 2046"
    by (rule mult_le_mono [OF _ p]) (use f64_parts(4) [of w] in simp)
  also have "\<dots> < (2 :: nat) ^ (3 * 700)" by (simp only: flip: power_add) (rule power_strict_increasing, simp_all)
  finally have a: "(2 ^ 52 + f64_mant w) * 2 ^ (f64_exp w - 1) < 2 ^ (3 * 700)" .
  have "f64_mant w < 2 ^ (3 * 700)"
    by (rule less_le_trans [OF f64_parts(4) [of w]], rule power_increasing) simp_all
  with a show ?thesis unfolding scaled_abs by simp
qed

lemma rne_div_le: "rne_div a d \<le> a + 1"
proof -
  have "a div d \<le> Suc a" by (rule le_SucI) simp
  then show ?thesis by (auto simp: rne_div_def Let_def)
qed

lemma dec_exp_bounds: "num < 2 ^ (3 * 700) \<Longrightarrow> - 359 \<le> dec_exp num (2 ^ 1074) \<and> dec_exp num (2 ^ 1074) \<le> 699"
proof -
  assume n: "num < 2 ^ (3 * 700)"
  then have "num div 2 ^ 1074 < 2 ^ (3 * 700)" by (rule le_less_trans [OF div_le_dividend])
  then have a: "length (str_nat (num div 2 ^ 1074)) \<le> 700" by (rule str_nat_pow8) simp
  have "((2 :: nat) ^ 1074 - 1) div num \<le> 2 ^ 1074 - 1" by (rule div_le_dividend)
  also have "\<dots> < 2 ^ (3 * 359)"
    by (rule less_le_trans [of _ "2 ^ 1074"], simp, rule power_increasing) simp_all
  finally have "length (str_nat ((2 ^ 1074 - 1) div num)) \<le> 359" by (rule str_nat_pow8) simp
  with a show ?thesis unfolding dec_exp_def by (cases "2 ^ 1074 \<le> num") (simp_all only: if_True if_False, linarith+)
qed

lemma near_decimals_le:
  assumes "(d, e) \<in> set (near_decimals num den k)"
  shows "e = dec_exp num den - int k + 1" "d \<le> (if 0 \<le> e then num else num * 10 ^ nat (- e)) + 2"
proof -
  show e: "e = dec_exp num den - int k + 1" using assms by (auto simp: near_decimals_def Let_def)
  let ?a = "if 0 \<le> e then num else num * 10 ^ nat (- e)"
  let ?b = "if 0 \<le> e then den * 10 ^ nat e else den"
  have "d = rne_div ?a ?b \<or> d = rne_div ?a ?b + 1 \<or> d = rne_div ?a ?b - 1"
    using assms unfolding near_decimals_def Let_def e [symmetric] by (simp split: if_split_asm) auto
  then show "d \<le> ?a + 2" using rne_div_le [of ?a ?b] by linarith
qed

lemma pow10_slack: "(a :: nat) \<le> 10 ^ p * 10 ^ q \<Longrightarrow> d \<le> a + 2 \<Longrightarrow> d < 10 ^ Suc (p + q)"
proof -
  assume a: "a \<le> 10 ^ p * 10 ^ q" "d \<le> a + 2"
  have "(1 :: nat) \<le> 10 ^ (p + q)" by (rule one_le_power) simp
  with a have "d < 10 * 10 ^ (p + q)" unfolding power_add by linarith
  then show ?thesis by simp
qed

lemma near_decimals_bound:
  assumes m: "num < 2 ^ (3 * 700)" and d: "(d, e) \<in> set (near_decimals num (2 ^ 1074) k)" and k: "k < 18"
  shows "length (str_nat d) \<le> 1200" "- 400 \<le> e" "e \<le> 700"
proof -
  let ?e = "dec_exp num (2 ^ 1074) - int k + 1"
  have b: "- 376 \<le> ?e" "?e \<le> 700" using dec_exp_bounds [OF m] k by auto
  let ?a = "if 0 \<le> ?e then num else num * 10 ^ nat (- ?e)"
  have e: "e = ?e" by (rule near_decimals_le(1) [OF d])
  have d2: "d \<le> ?a + 2" using near_decimals_le(2) [OF d] unfolding e .
  show "- 400 \<le> e" "e \<le> 700" using b by (simp_all add: e)
  have "nat (- ?e) \<le> 376" using b by linarith
  then have "(10 :: nat) ^ nat (- ?e) \<le> 10 ^ 376" by (rule power_increasing) simp
  moreover have "(1 :: nat) \<le> 10 ^ 376" by (rule one_le_power) simp
  ultimately have "?a \<le> num * 10 ^ 376" by (auto intro: mult_le_mono2 order.trans [OF _ mult_le_mono2 [of 1 _ num]])
  also have "\<dots> \<le> 10 ^ 700 * 10 ^ 376"
  proof (rule mult_le_mono1)
    have p: "num < 2 ^ (3 * k) \<Longrightarrow> num \<le> 10 ^ k" for k
      using power_mono [of "8 :: nat" 10 k] by (simp add: power_mult)
    show "num \<le> 10 ^ 700" by (rule p [OF m])
  qed
  finally have "d < 10 ^ Suc (700 + 376)" using d2 by (intro pow10_slack)
  then show "length (str_nat d) \<le> 1200" using length_str_nat [of d "Suc (700 + 376)"] by linarith
qed

lemma times_pow5: "(m :: nat) < 2 ^ (3 * a) \<Longrightarrow> m * 5 ^ b < 2 ^ (3 * (a + b))"
proof -
  assume m: "m < 2 ^ (3 * a)"
  have "(5 :: nat) ^ b \<le> 8 ^ b" by (rule power_mono) simp_all
  then have "m * 5 ^ b \<le> m * 8 ^ b" by simp
  also have "\<dots> < 2 ^ (3 * a) * 8 ^ b" using m by simp
  also have "\<dots> = 2 ^ (3 * (a + b))" by (simp add: power_mult power_add distrib_left)
  finally show ?thesis .
qed

lemma str_float_length: "length (str_float w) < 10000"
proof (cases w rule: str_float_cases)
  case (1 s)
  then show ?thesis by auto
next
  case (2 s d k)
  obtain n e where d: "d = (n, e)" by fastforce
  note b = near_decimals_bound [OF scaled_less 2(2) [unfolded d] 2(3)]
  have "nat \<bar>int (length (str_nat n)) + e - 1\<bar> < 10 ^ 4" using b by simp
  then have "length (str_nat (nat \<bar>int (length (str_nat n)) + e - 1\<bar>)) \<le> 4" by (rule length_str_nat) simp
  moreover have "nat \<bar>int (length (str_nat n)) + e\<bar> \<le> 1900" using b by simp
  ultimately show ?thesis using format_decimal_length [of n e] b(1) 2(5) by (auto simp: 2(1) d)
next
  case (3 s)
  define x where "x = str_nat (nat \<bar>f64_scaled w\<bar> * 5 ^ 1074)"
  have "length x \<le> 700 + 1074" unfolding x_def by (rule str_nat_pow8 [OF times_pow5 [OF scaled_less]]) simp
  moreover have "str_float w = s @ x @ ''e-1074''" using 3(1) unfolding x_def .
  ultimately show ?thesis using 3(3) by auto
qed

end
