(* ===== verification/Db.thy ===== *)
theory Db
  imports Store PyFloat
begin

text \<open>
  An engine over an LSM tree: the attribute \<open>self.lsm\<close> every engine has, the calls of the
  tree through it, and their rules over the contract of theory Store. The records of the
  engines extend \<open>db\<close>. \<open>time.time()\<close> reads the clock the log reads.
\<close>

section \<open>State and access to the tree\<close>

record db =
  db_lsm :: lsm

definition on_lsm :: "(lsm, 'a) pym \<Rightarrow> ('e db_scheme, 'a) pym" where
  "on_lsm m K = (case m (db_lsm K) of (r, L) \<Rightarrow> (r, K\<lparr>db_lsm := L\<rparr>))"

definition db_get :: "host \<Rightarrow> bytes \<Rightarrow> ('e db_scheme, bytes option) pym" where
  "db_get H k = (\<lambda>K. (lsm_get H k (db_lsm K), K))"

definition db_put :: "host \<Rightarrow> bytes \<Rightarrow> bytes \<Rightarrow> ('e db_scheme, unit) pym" where
  "db_put H k v = on_lsm (lsm_put H k v)"

definition db_del :: "host \<Rightarrow> bytes \<Rightarrow> ('e db_scheme, unit) pym" where
  "db_del H k = on_lsm (lsm_delete H k)"

text \<open>The entries of \<open>scan(start_key=prefix)\<close> up to the first key without the prefix.\<close>

definition db_prefix :: "bytes \<Rightarrow> ('e db_scheme, (bytes \<times> bytes) list) pym" where
  "db_prefix p = (\<lambda>K. (rbind (lsm_scan (Some p) None (db_lsm K)) (\<lambda>es. Inr (with_prefix p es)), K))"

definition kv_time :: "('e db_scheme, f64) pym" where
  "kv_time K = (case wal_time (l_wal (db_lsm K)) of (t, w) \<Rightarrow>
     (Inr t, K\<lparr>db_lsm := (db_lsm K)\<lparr>l_wal := w\<rparr>\<rparr>))"

section \<open>Rules\<close>

definition db_repr :: "host \<Rightarrow> 'e db_scheme \<Rightarrow> (bytes \<rightharpoonup> bytes) \<Rightarrow> nat \<Rightarrow> bool" where
  "db_repr H K f n \<longleftrightarrow> lsm_repr H (db_lsm K) f n"

definition db_read :: "host \<Rightarrow> bytes \<Rightarrow> 'e db_scheme \<Rightarrow> bytes option res" where
  "db_read H k K = lsm_get H k (db_lsm K)"

definition db_scan :: "bytes option \<Rightarrow> bytes option \<Rightarrow> 'e db_scheme \<Rightarrow> (bytes \<times> bytes) list res" where
  "db_scan a b K = lsm_scan a b (db_lsm K)"

interpretation dbs: kv_store "db_repr H" "db_put H" "db_del H" "db_read H" db_scan for H
proof
  fix s f n k v assume "db_repr H s f (Suc n)" "key_ok k" "val_ok v"
  then obtain L where "lsm_put H k v (db_lsm s) = (Inr (), L)" "lsm_repr H L (f(k \<mapsto> v)) n"
    using st.put_law unfolding db_repr_def by blast
  then show "\<exists>s'. db_put H k v s = (Inr (), s') \<and> db_repr H s' (f(k \<mapsto> v)) n"
    by (simp add: db_put_def on_lsm_def db_repr_def)
next
  fix s f n k assume "db_repr H s f (Suc n)" "key_ok k"
  then obtain L where "lsm_delete H k (db_lsm s) = (Inr (), L)" "lsm_repr H L (f(k := None)) n"
    using st.del_law unfolding db_repr_def by blast
  then show "\<exists>s'. db_del H k s = (Inr (), s') \<and> db_repr H s' (f(k := None)) n"
    by (simp add: db_del_def on_lsm_def db_repr_def)
next
  fix s f n k assume "db_repr H s f n"
  then show "db_read H k s = Inr (f k)" unfolding db_repr_def db_read_def by (rule st.get_law)
next
  fix s f n a b assume "db_repr H s f n"
  then show "\<exists>es. db_scan a b s = Inr es \<and> strict_keys es \<and>
      (\<forall>k. map_of es k = (if in_bounds a b k then f k else None))"
    unfolding db_repr_def db_scan_def by (rule st.scan_law)
next
  fix s f n assume "db_repr H s f (Suc n)"
  then show "db_repr H s f n" unfolding db_repr_def by (rule st.less_room)
qed

lemma wp_db_get: "db_repr H K f n \<Longrightarrow> Q (f k) K \<Longrightarrow> wp (db_get H k) Q K"
  using dbs.get_law [of H K f n k] by (simp add: wp_def db_get_def db_read_def)

lemma wp_db_prefix:
  assumes "db_repr H K f n"
    and "\<And>es. strict_keys es \<Longrightarrow> (\<And>k. map_of es k = (if startswith k p then f k else None)) \<Longrightarrow> Q es K"
  shows "wp (db_prefix p) Q K"
proof -
  obtain es where "db_scan (Some p) None K = Inr es" "strict_keys (with_prefix p es)"
    "\<forall>k. map_of (with_prefix p es) k = (if startswith k p then f k else None)"
    using dbs.prefix_scan [OF assms(1)] by blast
  then show ?thesis using assms(2) by (simp add: wp_def db_prefix_def db_scan_def)
qed

lemma lsm_repr_tick: "lsm_repr H L f n \<Longrightarrow> lsm_repr H (L\<lparr>l_wal := (l_wal L)\<lparr>w_ticks := t\<rparr>\<rparr>) f n"
proof -
  assume r: "lsm_repr H L f n"
  have "wal_ok ((l_wal L)\<lparr>w_ticks := t\<rparr>) segs" if "wal_ok (l_wal L) segs" for segs
    using that by (rule wal_ok_cong) simp_all
  from lsm_repr_log [OF r this, of n] show ?thesis by (simp add: room_def)
qed

definition next_time :: "'e db_scheme \<Rightarrow> f64" where
  "next_time K = w_clock (l_wal (db_lsm K)) (w_ticks (l_wal (db_lsm K)))"

lemma wp_kv_time:
  assumes "db_repr H K f n" "\<And>K'. db_repr H K' f n \<Longrightarrow> Q (next_time K) K'"
  shows "wp kv_time Q K"
  using lsm_repr_tick [of H "db_lsm K" f n] assms
  by (simp add: wp_def kv_time_def wal_time_def db_repr_def next_time_def)

section \<open>Entries under a prefix\<close>

lemma strict_keys_map: "strict_keys (map (\<lambda>(x, v). (p @ x, v)) xs) \<longleftrightarrow> strict_keys (xs :: (bytes \<times> 'v) list)"
proof (induction xs)
  case (Cons e xs)
  then show ?case by (cases e) (force simp: case_prod_beta)
qed simp

lemma map_of_prefix: "map_of (map (\<lambda>(x, v). (p @ x, v)) xs) (p @ y) = map_of xs y"
  by (induction xs) auto

lemma wp_db_entries:
  assumes r: "db_repr H K f n"
    and Q: "\<And>xs. strict_keys xs \<Longrightarrow> map_of xs = (\<lambda>x. f (p @ x)) \<Longrightarrow> Q (map (\<lambda>(x, v). (p @ x, v)) xs) K"
  shows "wp (db_prefix p) Q K"
proof (rule wp_db_prefix [OF r])
  fix es assume es: "strict_keys es" "\<And>k. map_of es k = (if startswith k p then f k else None)"
  define xs where "xs = map (\<lambda>(k, v). (drop (length p) k, v)) es"
  have "startswith k p" if "(k, v) \<in> set es" for k v
    using es(2) [of k] that by (metis map_of_eq_None_iff image_eqI fst_conv option.distinct(1))
  then have e: "es = map (\<lambda>(x, v). (p @ x, v)) xs"
    by (fastforce simp: xs_def startswith_iff intro!: map_idI [symmetric])
  have "strict_keys xs" using es(1) by (simp only: e strict_keys_map)
  moreover have "map_of xs x = f (p @ x)" for x
    using es(2) [of "p @ x"] by (simp add: e map_of_prefix startswith_iff)
  ultimately show "Q es K" using Q unfolding e by blast
qed

text \<open>The entries of a map in key order.\<close>

definition sorted_entries :: "(bytes \<rightharpoonup> 'v) \<Rightarrow> (bytes \<times> 'v) list" where
  "sorted_entries h = map (\<lambda>x. (x, the (h x))) (sorted_list_of_set (dom h))"

lemma strict_sorted_entries:
  assumes "strict_keys xs" "map_of xs = h"
  shows "xs = sorted_entries h" "map fst xs = sorted_list_of_set (dom h)" "length xs = card (dom h)"
proof -
  have d: "distinct (map fst xs)" "sorted_wrt (<) (map fst xs)"
    using assms(1) strict_keys_distinct [OF assms(1)] by (simp_all add: strict_keys_def)
  have dom: "dom h = set (map fst xs)" using assms(2) by (metis dom_map_of_conv_image_fst set_map)
  show k: "map fst xs = sorted_list_of_set (dom h)"
    unfolding dom using d by (metis sorted_list_of_set_sort_remdups distinct_remdups_id sorted_sort_id strict_sorted_iff)
  have "map (\<lambda>x. (x, the (h x))) (map fst xs) = xs"
    using d(1) assms(2) by (auto intro!: map_idI)
  then show "xs = sorted_entries h" by (simp only: sorted_entries_def k [symmetric])
  show "length xs = card (dom h)" using d(1) by (metis dom distinct_card length_map)
qed

lemma length_sorted_entries: "finite (dom h) \<Longrightarrow> length (sorted_entries h) = card (dom h)"
  by (simp add: sorted_entries_def)

lemma lsm_repr_key_ok: "lsm_repr H L f n \<Longrightarrow> f k = Some v \<Longrightarrow> key_ok k"
proof -
  assume "lsm_repr H L f n" and k: "f k = Some v"
  then obtain ws where w: "writes_ok ws" "f = vis (rawmap ws)" unfolding lsm_repr_def by blast
  have "rawmap ws k \<noteq> None" using k by (cases "rawmap ws k") (auto simp: w(2) vis_def)
  then have "k \<in> fst ` set ws" by (auto simp: rawmap_def map_of_eq_None_iff)
  then show "key_ok k" using w(1) by (auto simp: writes_ok_def)
qed

lemma db_repr_key_ok: "db_repr H K f n \<Longrightarrow> f k = Some v \<Longrightarrow> key_ok k"
  unfolding db_repr_def by (rule lsm_repr_key_ok)

section \<open>The other attributes of an engine\<close>

text \<open>Calls of the tree leave the other attributes of an engine as they are in \<open>K0\<close>.\<close>

definition rest_repr :: "host \<Rightarrow> 'e db_scheme \<Rightarrow> 'e db_scheme \<Rightarrow> (bytes \<rightharpoonup> bytes) \<Rightarrow> nat \<Rightarrow> bool" where
  "rest_repr H K0 K f n \<longleftrightarrow> db_repr H K f n \<and> db.more K = db.more K0"

lemma on_lsm_more: "on_lsm m K = (r, K') \<Longrightarrow> db.more K' = db.more K"
  by (auto simp: on_lsm_def split: prod.splits)

interpretation rest: kv_store "rest_repr H K0" "db_put H" "db_del H" "db_read H" db_scan for H K0
proof
  fix s f n k v assume r: "rest_repr H K0 s f (Suc n)" "key_ok k" "val_ok v"
  then obtain s' where s': "db_put H k v s = (Inr (), s')" "db_repr H s' (f(k \<mapsto> v)) n"
    using dbs.put_law unfolding rest_repr_def by blast
  then have "db.more s' = db.more s" unfolding db_put_def by (intro on_lsm_more)
  with s' r show "\<exists>s'. db_put H k v s = (Inr (), s') \<and> rest_repr H K0 s' (f(k \<mapsto> v)) n" by (simp add: rest_repr_def)
next
  fix s f n k assume r: "rest_repr H K0 s f (Suc n)" "key_ok k"
  then obtain s' where s': "db_del H k s = (Inr (), s')" "db_repr H s' (f(k := None)) n"
    using dbs.del_law unfolding rest_repr_def by blast
  then have "db.more s' = db.more s" unfolding db_del_def by (intro on_lsm_more)
  with s' r show "\<exists>s'. db_del H k s = (Inr (), s') \<and> rest_repr H K0 s' (f(k := None)) n" by (simp add: rest_repr_def)
next
  fix s f n a b assume "rest_repr H K0 s f n"
  then show "\<exists>es. db_scan a b s = Inr es \<and> strict_keys es \<and>
      (\<forall>k. map_of es k = (if in_bounds a b k then f k else None))"
    unfolding rest_repr_def by (intro dbs.scan_law) blast
qed (auto simp: rest_repr_def intro: dbs.get_law dbs.less_room)

lemma rest_get: "rest_repr H K0 K f n \<Longrightarrow> Q (f k) K \<Longrightarrow> wp (db_get H k) Q K"
  unfolding rest_repr_def by (blast intro: wp_db_get)

lemma rest_entries:
  "rest_repr H K0 K f n \<Longrightarrow>
   (\<And>xs. strict_keys xs \<Longrightarrow> map_of xs = (\<lambda>x. f (p @ x)) \<Longrightarrow> Q (map (\<lambda>(x, v). (p @ x, v)) xs) K) \<Longrightarrow> wp (db_prefix p) Q K"
  unfolding rest_repr_def by (blast intro: wp_db_entries)

end
