(* ===== verification/Glob.thy ===== *)
theory Glob
  imports PyText
begin

text \<open>
  Python's \<open>fnmatch.fnmatch\<close> on POSIX (no case folding), which the command KEYS uses: the
  pattern is read into tokens over code points and matched.
\<close>

section \<open>Code points\<close>

definition low_bits :: "nat \<Rightarrow> char \<Rightarrow> nat" where
  "low_bits n c = of_char c mod 2 ^ n"

text \<open>The code points of well-formed UTF-8 (a byte that is none stands for itself).\<close>

function code_points :: "bytes \<Rightarrow> nat list" where
  "code_points bs =
     (case bs of [] \<Rightarrow> []
      | a # as \<Rightarrow>
        (let n = utf8_head bs in
         if n = 2 then (low_bits 5 a * 2 ^ 6 + low_bits 6 (bs ! 1)) # code_points (drop 2 bs)
         else if n = 3 then (low_bits 4 a * 2 ^ 12 + low_bits 6 (bs ! 1) * 2 ^ 6 + low_bits 6 (bs ! 2)) # code_points (drop 3 bs)
         else if n = 4 then (low_bits 3 a * 2 ^ 18 + low_bits 6 (bs ! 1) * 2 ^ 12 + low_bits 6 (bs ! 2) * 2 ^ 6 + low_bits 6 (bs ! 3))
           # code_points (drop 4 bs)
         else of_char a # code_points as))"
  by pat_completeness auto
termination
  by (relation "measure length") auto

declare code_points.simps [simp del]

section \<open>Patterns\<close>

datatype glob =
    AnySeq
  | AnyChar
  | Exactly nat
  | Class bool "(nat \<times> nat) list"

text \<open>
  The inside of brackets as ranges. The first character, and the one behind a range, does not
  act as the hyphen of a range; a hyphen at the end is literal; an empty range vanishes.
\<close>

fun class_ranges :: "nat list \<Rightarrow> (nat \<times> nat) list" where
  "class_ranges (x # h # y # r) =
     (if h = 45 then (if x \<le> y then [(x, y)] else []) @ class_ranges r
      else (x, x) # class_ranges (h # y # r))"
| "class_ranges [x, h] = [(x, x), (h, h)]"
| "class_ranges [x] = [(x, x)]"
| "class_ranges [] = []"

definition glob_class :: "nat list \<Rightarrow> glob" where
  "glob_class stuff =
     (case stuff of
        c # r \<Rightarrow> if c = 33 then Class True (class_ranges r) else Class False (class_ranges stuff)
      | [] \<Rightarrow> Class False [])"

text \<open>
  The position of the closing bracket: a bracket directly behind \<open>[\<close> or \<open>[!\<close> is literal.
\<close>

definition class_end :: "nat list \<Rightarrow> nat option" where
  "class_end p =
     (let j = (if p \<noteq> [] \<and> hd p = 33 then 1 else 0);
          j' = (if j < length p \<and> p ! j = 93 then j + 1 else j);
          k = j' + length (takeWhile (\<lambda>c. c \<noteq> 93) (drop j' p))
      in if k < length p then Some k else None)"

function glob_tokens :: "nat list \<Rightarrow> glob list" where
  "glob_tokens p =
     (case p of [] \<Rightarrow> []
      | c # r \<Rightarrow>
          if c = 42 then AnySeq # glob_tokens r
          else if c = 63 then AnyChar # glob_tokens r
          else if c = 91 then
            (case class_end r of
               None \<Rightarrow> Exactly 91 # glob_tokens r
             | Some k \<Rightarrow> glob_class (take k r) # glob_tokens (drop (Suc k) r))
          else Exactly c # glob_tokens r)"
  by pat_completeness auto
termination
  by (relation "measure length") auto

declare glob_tokens.simps [simp del]

fun in_class :: "(nat \<times> nat) list \<Rightarrow> nat \<Rightarrow> bool" where
  "in_class rs c = list_ex (\<lambda>(lo, hi). lo \<le> c \<and> c \<le> hi) rs"

fun glob_match :: "glob list \<Rightarrow> nat list \<Rightarrow> bool" where
  "glob_match [] s = (s = [])"
| "glob_match (AnySeq # ts) [] = glob_match ts []"
| "glob_match (AnySeq # ts) (c # s) = (glob_match ts (c # s) \<or> glob_match (AnySeq # ts) s)"
| "glob_match (AnyChar # ts) (c # s) = glob_match ts s"
| "glob_match (Exactly x # ts) (c # s) = (c = x \<and> glob_match ts s)"
| "glob_match (Class neg rs # ts) (c # s) = (in_class rs c \<noteq> neg \<and> glob_match ts s)"
| "glob_match (_ # ts) [] = False"

definition fnmatch :: "bytes \<Rightarrow> bytes \<Rightarrow> bool" where
  "fnmatch name pattern = glob_match (glob_tokens (code_points pattern)) (code_points name)"

lemma fnmatch_star: "fnmatch name ''*''"
proof -
  have "code_points ''*'' = [42]" by (simp add: code_points.simps [of "''*''"] in_range_def) (simp add: code_points.simps)
  then have t: "glob_tokens (code_points ''*'') = [AnySeq]" by (simp add: glob_tokens.simps)
  have "glob_match [AnySeq] s" for s by (induction s) auto
  then show ?thesis unfolding fnmatch_def t .
qed

end
