(* ===== verification/KV.thy ===== *)
theory KV
  imports Db Txn Glob "HOL-Library.Product_Lexorder"
begin

text \<open>
  \<open>zenith/engine/kv.py\<close>: strings, hashes, lists, sets, sorted sets and expiry, all stored as
  entries of one LSM tree under typed key prefixes. \<open>time.time()\<close> reads the clock the log
  reads. A \<open>str\<close> argument is its UTF-8 encoding; a value of \<open>set\<close> is a \<open>str\<close> or \<open>bytes\<close>
  (other objects would go through \<open>json.dumps\<close> first), members and fields are \<open>str\<close>. A
  Python set is given as the distinct list of its elements. The order of scores in
  \<open>zrange\<close> is the order of floats without NaN.
\<close>

section \<open>State\<close>

record kv = db +
  kv_heap :: "(f64 \<times> bytes) list"

section \<open>Keys\<close>

definition H_PREFIX :: "bytes \<Rightarrow> bytes" where
  "H_PREFIX key = ''__H__:'' @ key @ '':''"

definition L_KEY :: "bytes \<Rightarrow> int \<Rightarrow> bytes" where
  "L_KEY key i = ''__L__:'' @ key @ '':'' @ str_int i"

definition LMETA_KEY :: "bytes \<Rightarrow> bytes" where
  "LMETA_KEY key = ''__LMETA__:'' @ key"

definition S_PREFIX :: "bytes \<Rightarrow> bytes" where
  "S_PREFIX key = ''__S__:'' @ key @ '':''"

definition Z_PREFIX :: "bytes \<Rightarrow> bytes" where
  "Z_PREFIX key = ''__Z__:'' @ key @ '':''"

section \<open>Expiry\<close>

text \<open>\<open>_get_list_meta\<close>: any malformed value counts as \<open>(0, 0)\<close>.\<close>

definition get_list_meta :: "host \<Rightarrow> bytes \<Rightarrow> (kv, int \<times> int) pym" where
  "get_list_meta H key = bnd (db_get H (LMETA_KEY key)) (\<lambda>val. ret (case val of
      None \<Rightarrow> (0, 0)
    | Some v \<Rightarrow> if \<not> utf8_valid v then (0, 0) else (case split_char (CHR '':'') v of
          [a, b] \<Rightarrow> (case (py_int a, py_int b) of (Some h, Some t) \<Rightarrow> (h, t) | _ \<Rightarrow> (0, 0))
        | _ \<Rightarrow> (0, 0))))"

definition set_list_meta :: "host \<Rightarrow> bytes \<Rightarrow> int \<Rightarrow> int \<Rightarrow> (kv, unit) pym" where
  "set_list_meta H key head tail =
     sq (db_put H (LMETA_KEY key) (str_int head @ '':'' @ str_int tail)) (db_put H (TYPE_KEY key) ''list'')"

definition purge_prefix :: "host \<Rightarrow> bytes \<Rightarrow> (kv, unit) pym" where
  "purge_prefix H p = bnd (db_prefix p) (\<lambda>es. for_each es (\<lambda>(k, _). db_del H k))"

definition purge_list :: "host \<Rightarrow> bytes \<Rightarrow> (kv, unit) pym" where
  "purge_list H key = bnd (get_list_meta H key) (\<lambda>(head, tail).
     sq (for_each [head..tail - 1] (\<lambda>i. db_del H (L_KEY key i))) (db_del H (LMETA_KEY key)))"

definition purge_key :: "host \<Rightarrow> bytes \<Rightarrow> (kv, unit) pym" where
  "purge_key H key = bnd (db_get H (TYPE_KEY key)) (\<lambda>t_bytes. case t_bytes of
      None \<Rightarrow> db_del H (EXP_KEY key)
    | Some t_bytes \<Rightarrow>
        if t_bytes = [] then db_del H (EXP_KEY key)
        else bnd (lift_res (py_decode t_bytes)) (\<lambda>t.
          sq (db_del H (TYPE_KEY key)) (sq (db_del H (EXP_KEY key))
           (if t = ''string'' then db_del H (V_KEY key)
            else if t = ''hash'' then purge_prefix H (H_PREFIX key)
            else if t = ''list'' then purge_list H key
            else if t = ''set'' then purge_prefix H (S_PREFIX key)
            else if t = ''zset'' then purge_prefix H (Z_PREFIX key)
            else ret ()))))"

text \<open>\<open>try: ... except ValueError: pass\<close>; a decoding error is a ValueError.\<close>

definition catch_value_error :: "'a \<Rightarrow> ('s, 'a) pym \<Rightarrow> ('s, 'a) pym" where
  "catch_value_error x m K = (case m K of
      (Inl (ValueError _), K') \<Rightarrow> (Inr x, K')
    | (Inl UnicodeDecodeError, K') \<Rightarrow> (Inr x, K')
    | r \<Rightarrow> r)"

definition float_res :: "bytes \<Rightarrow> f64 res" where
  "float_res s = (case py_float s of
      None \<Rightarrow> Inl (ValueError ''could not convert string to float'') | Some x \<Rightarrow> Inr x)"

definition is_expired :: "host \<Rightarrow> bytes \<Rightarrow> (kv, bool) pym" where
  "is_expired H key = bnd (db_get H (EXP_KEY key)) (\<lambda>exp_bytes. case exp_bytes of
      None \<Rightarrow> ret False
    | Some b \<Rightarrow> catch_value_error False
        (bnd (lift_res (py_decode b)) (\<lambda>s. bnd (lift_res (float_res s)) (\<lambda>exp_ts.
          bnd kv_time (\<lambda>now.
            if f64_le exp_ts now then sq (purge_key H key) (ret True) else ret False)))))"

text \<open>\<open>heapq.heappush\<close> on the list of expiry times.\<close>

definition exp_less :: "f64 \<times> bytes \<Rightarrow> f64 \<times> bytes \<Rightarrow> bool" where
  "exp_less x y = (if f64_eq (fst x) (fst y) then snd x < snd y else f64_less (fst x) (fst y))"

function sift_down :: "(f64 \<times> bytes) list \<Rightarrow> nat \<Rightarrow> f64 \<times> bytes \<Rightarrow> (f64 \<times> bytes) list" where
  "sift_down heap pos item =
     (if pos = 0 then heap[0 := item]
      else let p = (pos - 1) div 2
           in if exp_less item (heap ! p) then sift_down (heap[pos := heap ! p]) p item else heap[pos := item])"
  by pat_completeness auto
termination
  by (relation "measure (\<lambda>(_, pos, _). pos)") auto

declare sift_down.simps [simp del]

definition expiry_push :: "f64 \<times> bytes \<Rightarrow> (f64 \<times> bytes) list \<Rightarrow> (f64 \<times> bytes) list" where
  "expiry_push item heap = sift_down (heap @ [item]) (length heap) item"

definition kv_expire :: "host \<Rightarrow> bytes \<Rightarrow> int \<Rightarrow> (kv, bool) pym" where
  "kv_expire H key seconds = bnd kv_time (\<lambda>now.
     bnd (lift_res (f64_of_int (max 0 seconds))) (\<lambda>s.
     let exp_ts = f64_add now s in
     sq (db_put H (EXP_KEY key) (str_float exp_ts))
        (\<lambda>K. (Inr True, K\<lparr>kv_heap := expiry_push (exp_ts, key) (kv_heap K)\<rparr>))))"

definition kv_persist :: "host \<Rightarrow> bytes \<Rightarrow> (kv, bool) pym" where
  "kv_persist H key = bnd (db_get H (EXP_KEY key)) (\<lambda>v.
     if v \<noteq> None then sq (db_del H (EXP_KEY key)) (ret True) else ret False)"

definition kv_ttl :: "host \<Rightarrow> bytes \<Rightarrow> (kv, int) pym" where
  "kv_ttl H key = bnd (is_expired H key) (\<lambda>e. if e then ret (-2) else
     bnd (db_get H (TYPE_KEY key)) (\<lambda>t_bytes. if t_bytes = None then ret (-2) else
     bnd (db_get H (EXP_KEY key)) (\<lambda>exp_bytes. case exp_bytes of
        None \<Rightarrow> ret (-1)
      | Some b \<Rightarrow> catch_value_error (-1)
          (bnd (lift_res (py_decode b)) (\<lambda>s. bnd (lift_res (float_res s)) (\<lambda>exp_ts.
           bnd kv_time (\<lambda>now. bnd (lift_res (f64_to_int (f64_sub exp_ts now))) (\<lambda>remaining.
             ret (if 0 \<le> remaining then max 0 remaining else -2)))))))))"

section \<open>Strings\<close>

text \<open>
  The result of \<open>get\<close> is a \<open>str\<close> when the bytes are well-formed UTF-8 and the raw \<open>bytes\<close>
  otherwise.
\<close>

definition kv_get :: "host \<Rightarrow> bytes \<Rightarrow> (kv, bytes option) pym" where
  "kv_get H key = bnd (is_expired H key) (\<lambda>e. if e then ret None else db_get H (V_KEY key))"

definition kv_set :: "host \<Rightarrow> bytes \<Rightarrow> bytes \<Rightarrow> int option \<Rightarrow> bool \<Rightarrow> bool \<Rightarrow> (kv, bool) pym" where
  "kv_set H key payload ex nx xx = bnd (is_expired H key) (\<lambda>is_exp.
     bnd (if is_exp then ret None else kv_get H key) (\<lambda>existing.
     if nx \<and> existing \<noteq> None then ret False
     else if xx \<and> existing = None then ret False
     else sq (db_put H (V_KEY key) payload) (sq (db_put H (TYPE_KEY key) ''string'')
         (sq (case ex of
                Some s \<Rightarrow> if 0 < s then bnd (kv_expire H key s) (\<lambda>_. ret ()) else bnd (kv_persist H key) (\<lambda>_. ret ())
              | None \<Rightarrow> bnd (kv_persist H key) (\<lambda>_. ret ())) (ret True)))))"

definition kv_setnx :: "host \<Rightarrow> bytes \<Rightarrow> bytes \<Rightarrow> (kv, bool) pym" where
  "kv_setnx H key value = kv_set H key value None True False"

definition kv_mget :: "host \<Rightarrow> bytes list \<Rightarrow> (kv, bytes option list) pym" where
  "kv_mget H keys = map_m (kv_get H) keys"

definition kv_mset :: "host \<Rightarrow> (bytes \<times> bytes) list \<Rightarrow> (kv, bool) pym" where
  "kv_mset H mapping =
     sq (for_each mapping (\<lambda>(k, v). bnd (kv_set H k v None False False) (\<lambda>_. ret ()))) (ret True)"

definition NOT_AN_INTEGER :: py_error where
  "NOT_AN_INTEGER = TypeError ''Value is not an integer or out of range''"

definition kv_incrby :: "host \<Rightarrow> bytes \<Rightarrow> int \<Rightarrow> (kv, int) pym" where
  "kv_incrby H key amount = bnd (kv_get H key) (\<lambda>val.
     bnd (case val of None \<Rightarrow> ret amount
        | Some s \<Rightarrow> (case py_int s of None \<Rightarrow> raise NOT_AN_INTEGER | Some n \<Rightarrow> ret (n + amount))) (\<lambda>new_val.
     bnd (kv_set H key (str_int new_val) None False False) (\<lambda>_. ret new_val)))"

definition kv_decrby :: "host \<Rightarrow> bytes \<Rightarrow> int \<Rightarrow> (kv, int) pym" where
  "kv_decrby H key amount = kv_incrby H key (- amount)"

text \<open>\<open>str(b)\<close> of a \<open>bytes\<close> object.\<close>

definition repr_byte :: "char \<Rightarrow> char \<Rightarrow> bytes" where
  "repr_byte q c =
     (if c = q \<or> c = CHR 0x5C then [CHR 0x5C, c]
      else if c = CHR 0x09 then [CHR 0x5C, CHR ''t'']
      else if c = CHR 0x0A then [CHR 0x5C, CHR ''n'']
      else if c = CHR 0x0D then [CHR 0x5C, CHR ''r'']
      else if of_char c < (32 :: nat) \<or> 127 \<le> (of_char c :: nat)
        then [CHR 0x5C, CHR ''x'', hex_digit (of_char c div 16), hex_digit (of_char c mod 16)]
      else [c])"

definition bytes_repr :: "bytes \<Rightarrow> bytes" where
  "bytes_repr b =
     (let q = (if CHR 0x27 \<in> set b \<and> CHR 0x22 \<notin> set b then CHR 0x22 else CHR 0x27)
      in CHR ''b'' # q # concat (map (repr_byte q) b) @ [q])"

definition kv_append :: "host \<Rightarrow> bytes \<Rightarrow> bytes \<Rightarrow> (kv, nat) pym" where
  "kv_append H key val_to_append = bnd (kv_get H key) (\<lambda>val.
     let curr = (case val of None \<Rightarrow> [] | Some v \<Rightarrow> if utf8_valid v then v else bytes_repr v);
         new_val = curr @ val_to_append
     in bnd (kv_set H key new_val None False False) (\<lambda>_. ret (str_len new_val)))"

definition kv_strlen :: "host \<Rightarrow> bytes \<Rightarrow> (kv, nat) pym" where
  "kv_strlen H key = bnd (kv_get H key) (\<lambda>val. ret (case val of
      None \<Rightarrow> 0 | Some v \<Rightarrow> if utf8_valid v then str_len v else length v))"

section \<open>Hashes\<close>

definition kv_hset :: "host \<Rightarrow> bytes \<Rightarrow> bytes \<Rightarrow> bytes \<Rightarrow> (kv, nat) pym" where
  "kv_hset H key field value = bnd (is_expired H key) (\<lambda>_.
     bnd (db_get H (H_PREFIX key @ field)) (\<lambda>old.
     sq (db_put H (H_PREFIX key @ field) value) (sq (db_put H (TYPE_KEY key) ''hash'')
       (ret (if old = None then 1 else 0)))))"

text \<open>\<open>val.decode("utf-8") if val is not None else None\<close>\<close>

definition decode_opt :: "bytes option \<Rightarrow> bytes option res" where
  "decode_opt val = (case val of None \<Rightarrow> Inr None | Some v \<Rightarrow> rbind (py_decode v) (\<lambda>s. Inr (Some s)))"

definition kv_hget :: "host \<Rightarrow> bytes \<Rightarrow> bytes \<Rightarrow> (kv, bytes option) pym" where
  "kv_hget H key field = bnd (is_expired H key) (\<lambda>e. if e then ret None else
     bnd (db_get H (H_PREFIX key @ field)) (\<lambda>val. lift_res (decode_opt val)))"

text \<open>The loop of \<open>hdel\<close>, \<open>srem\<close> and \<open>zrem\<close>.\<close>

fun remove_members :: "host \<Rightarrow> bytes \<Rightarrow> bytes list \<Rightarrow> nat \<Rightarrow> (kv, nat) pym" where
  "remove_members H p [] count = ret count"
| "remove_members H p (m # ms) count = bnd (db_get H (p @ m)) (\<lambda>v.
     if v \<noteq> None then sq (db_del H (p @ m)) (remove_members H p ms (count + 1))
     else remove_members H p ms count)"

definition kv_hdel :: "host \<Rightarrow> bytes \<Rightarrow> bytes list \<Rightarrow> (kv, nat) pym" where
  "kv_hdel H key names = remove_members H (H_PREFIX key) names 0"

definition decode_field :: "bytes \<Rightarrow> bytes \<times> bytes \<Rightarrow> (bytes \<times> bytes) res" where
  "decode_field p = (\<lambda>(k, v). rbind (py_decode (drop (length p) k)) (\<lambda>f.
     rbind (py_decode v) (\<lambda>x. Inr (f, x))))"

definition kv_hgetall :: "host \<Rightarrow> bytes \<Rightarrow> (kv, (bytes \<times> bytes) list) pym" where
  "kv_hgetall H key = bnd (is_expired H key) (\<lambda>e. if e then ret [] else
     bnd (db_prefix (H_PREFIX key)) (\<lambda>es. lift_res (rmap (decode_field (H_PREFIX key)) es)))"

definition kv_hkeys :: "host \<Rightarrow> bytes \<Rightarrow> (kv, bytes list) pym" where
  "kv_hkeys H key = bnd (kv_hgetall H key) (\<lambda>d. ret (map fst d))"

definition kv_hvals :: "host \<Rightarrow> bytes \<Rightarrow> (kv, bytes list) pym" where
  "kv_hvals H key = bnd (kv_hgetall H key) (\<lambda>d. ret (map snd d))"

definition kv_hexists :: "host \<Rightarrow> bytes \<Rightarrow> bytes \<Rightarrow> (kv, bool) pym" where
  "kv_hexists H key field = bnd (kv_hget H key field) (\<lambda>v. ret (v \<noteq> None))"

definition kv_hlen :: "host \<Rightarrow> bytes \<Rightarrow> (kv, nat) pym" where
  "kv_hlen H key = bnd (kv_hgetall H key) (\<lambda>d. ret (length d))"

definition kv_hincrby :: "host \<Rightarrow> bytes \<Rightarrow> bytes \<Rightarrow> int \<Rightarrow> (kv, int) pym" where
  "kv_hincrby H key field amount = bnd (kv_hget H key field) (\<lambda>curr.
     bnd (case curr of None \<Rightarrow> ret amount
        | Some s \<Rightarrow> (case py_int s of
            None \<Rightarrow> raise (TypeError ''Hash field value is not an integer'') | Some n \<Rightarrow> ret (n + amount))) (\<lambda>new_val.
     bnd (kv_hset H key field (str_int new_val)) (\<lambda>_. ret new_val)))"

section \<open>Lists\<close>

fun push_left :: "host \<Rightarrow> bytes \<Rightarrow> bytes list \<Rightarrow> int \<Rightarrow> (kv, int) pym" where
  "push_left H key [] head = ret head"
| "push_left H key (v # vs) head =
     sq (db_put H (L_KEY key (head - 1)) v) (push_left H key vs (head - 1))"

definition kv_lpush :: "host \<Rightarrow> bytes \<Rightarrow> bytes list \<Rightarrow> (kv, int) pym" where
  "kv_lpush H key vals = bnd (is_expired H key) (\<lambda>_. bnd (get_list_meta H key) (\<lambda>(head, tail).
     bnd (push_left H key vals head) (\<lambda>head. sq (set_list_meta H key head tail) (ret (tail - head)))))"

fun push_right :: "host \<Rightarrow> bytes \<Rightarrow> bytes list \<Rightarrow> int \<Rightarrow> (kv, int) pym" where
  "push_right H key [] tail = ret tail"
| "push_right H key (v # vs) tail =
     sq (db_put H (L_KEY key tail) v) (push_right H key vs (tail + 1))"

definition kv_rpush :: "host \<Rightarrow> bytes \<Rightarrow> bytes list \<Rightarrow> (kv, int) pym" where
  "kv_rpush H key vals = bnd (is_expired H key) (\<lambda>_. bnd (get_list_meta H key) (\<lambda>(head, tail).
     bnd (push_right H key vals tail) (\<lambda>tail. sq (set_list_meta H key head tail) (ret (tail - head)))))"

text \<open>\<open>val.decode("utf-8") if val else None\<close>: an empty element pops as None.\<close>

definition decode_truthy :: "bytes option \<Rightarrow> bytes option res" where
  "decode_truthy val = (case val of
      None \<Rightarrow> Inr None | Some v \<Rightarrow> if v = [] then Inr None else rbind (py_decode v) (\<lambda>s. Inr (Some s)))"

definition pop_at :: "host \<Rightarrow> bytes \<Rightarrow> int \<Rightarrow> int \<Rightarrow> int \<Rightarrow> (kv, bytes option) pym" where
  "pop_at H key i head tail = bnd (db_get H (L_KEY key i)) (\<lambda>val.
     sq (db_del H (L_KEY key i)) (sq (set_list_meta H key head tail) (lift_res (decode_truthy val))))"

definition kv_lpop :: "host \<Rightarrow> bytes \<Rightarrow> (kv, bytes option) pym" where
  "kv_lpop H key = bnd (is_expired H key) (\<lambda>e. if e then ret None else
     bnd (get_list_meta H key) (\<lambda>(head, tail).
       if tail \<le> head then ret None else pop_at H key head (head + 1) tail))"

definition kv_rpop :: "host \<Rightarrow> bytes \<Rightarrow> (kv, bytes option) pym" where
  "kv_rpop H key = bnd (is_expired H key) (\<lambda>e. if e then ret None else
     bnd (get_list_meta H key) (\<lambda>(head, tail).
       if tail \<le> head then ret None else pop_at H key (tail - 1) head (tail - 1)))"

text \<open>The bounds of \<open>lrange\<close>, \<open>ltrim\<close> and \<open>zrange\<close> made absolute.\<close>

definition norm_start :: "int \<Rightarrow> int \<Rightarrow> int" where
  "norm_start len start = (if start < 0 then max 0 (len + start) else start)"

definition norm_stop :: "int \<Rightarrow> int \<Rightarrow> int" where
  "norm_stop len stop = (if stop < 0 then len + stop else min (len - 1) stop)"

fun collect_items :: "host \<Rightarrow> bytes \<Rightarrow> int list \<Rightarrow> (kv, bytes list) pym" where
  "collect_items H key [] = ret []"
| "collect_items H key (i # is) = bnd (db_get H (L_KEY key i)) (\<lambda>val. case val of
      None \<Rightarrow> collect_items H key is
    | Some v \<Rightarrow> bnd (lift_res (py_decode v)) (\<lambda>s. bnd (collect_items H key is) (\<lambda>items. ret (s # items))))"

definition kv_lrange :: "host \<Rightarrow> bytes \<Rightarrow> int \<Rightarrow> int \<Rightarrow> (kv, bytes list) pym" where
  "kv_lrange H key start stop = bnd (is_expired H key) (\<lambda>e. if e then ret [] else
     bnd (get_list_meta H key) (\<lambda>(head, tail).
       let len = tail - head; a = norm_start len start; b = norm_stop len stop in
       if len \<le> 0 then ret []
       else if b < a \<or> len \<le> a then ret []
       else collect_items H key [head + a..head + b]))"

definition kv_llen :: "host \<Rightarrow> bytes \<Rightarrow> (kv, int) pym" where
  "kv_llen H key = bnd (is_expired H key) (\<lambda>e. if e then ret 0 else
     bnd (get_list_meta H key) (\<lambda>(head, tail). ret (max 0 (tail - head))))"

definition kv_lindex :: "host \<Rightarrow> bytes \<Rightarrow> int \<Rightarrow> (kv, bytes option) pym" where
  "kv_lindex H key i = bnd (kv_lrange H key i i) (\<lambda>items. ret (case items of [] \<Rightarrow> None | x # _ \<Rightarrow> Some x))"

definition kv_lset :: "host \<Rightarrow> bytes \<Rightarrow> int \<Rightarrow> bytes \<Rightarrow> (kv, bool) pym" where
  "kv_lset H key i value = bnd (is_expired H key) (\<lambda>e. if e then ret False else
     bnd (get_list_meta H key) (\<lambda>(head, tail).
       let len = tail - head; j = (if i < 0 then len + i else i) in
       if len \<le> 0 then ret False
       else if j < 0 \<or> len \<le> j then ret False
       else sq (db_put H (L_KEY key (head + j)) value) (ret True)))"

section \<open>Key management\<close>

fun kv_delete_from :: "host \<Rightarrow> bytes list \<Rightarrow> nat \<Rightarrow> (kv, nat) pym" where
  "kv_delete_from H [] count = ret count"
| "kv_delete_from H (key # keys) count = bnd (db_get H (TYPE_KEY key)) (\<lambda>t.
     if t \<noteq> None then sq (purge_key H key) (kv_delete_from H keys (count + 1))
     else kv_delete_from H keys count)"

definition kv_delete :: "host \<Rightarrow> bytes list \<Rightarrow> (kv, nat) pym" where
  "kv_delete H keys = kv_delete_from H keys 0"

definition kv_ltrim :: "host \<Rightarrow> bytes \<Rightarrow> int \<Rightarrow> int \<Rightarrow> (kv, bool) pym" where
  "kv_ltrim H key start stop = bnd (is_expired H key) (\<lambda>e. if e then ret False else
     bnd (get_list_meta H key) (\<lambda>(head, tail).
       let len = tail - head; a = norm_start len start; b = norm_stop len stop in
       if len \<le> 0 then ret True
       else if b < a \<or> len \<le> a then bnd (kv_delete H [key]) (\<lambda>_. ret True)
       else sq (for_each [head..head + a - 1] (\<lambda>i. db_del H (L_KEY key i)))
           (sq (for_each [head + b + 1..tail - 1] (\<lambda>i. db_del H (L_KEY key i)))
           (sq (set_list_meta H key (head + a) (head + b + 1)) (ret True)))))"

fun kv_exists_from :: "host \<Rightarrow> bytes list \<Rightarrow> nat \<Rightarrow> (kv, nat) pym" where
  "kv_exists_from H [] count = ret count"
| "kv_exists_from H (k # ks) count = bnd (is_expired H k) (\<lambda>e.
     if e then kv_exists_from H ks count
     else bnd (db_get H (TYPE_KEY k)) (\<lambda>t. kv_exists_from H ks (if t \<noteq> None then count + 1 else count)))"

definition kv_exists :: "host \<Rightarrow> bytes list \<Rightarrow> (kv, nat) pym" where
  "kv_exists H keys = kv_exists_from H keys 0"

definition kv_type :: "host \<Rightarrow> bytes \<Rightarrow> (kv, bytes) pym" where
  "kv_type H key = bnd (is_expired H key) (\<lambda>e. if e then ret ''none'' else
     bnd (db_get H (TYPE_KEY key)) (\<lambda>t. case t of
        None \<Rightarrow> ret ''none'' | Some v \<Rightarrow> if v = [] then ret ''none'' else lift_res (py_decode v)))"

fun matching_keys :: "host \<Rightarrow> bytes \<Rightarrow> (bytes \<times> bytes) list \<Rightarrow> (kv, bytes list) pym" where
  "matching_keys H pattern [] = ret []"
| "matching_keys H pattern ((k, v) # es) =
     bnd (lift_res (py_decode (drop (length (TYPE_KEY [])) k))) (\<lambda>key_name.
     bnd (is_expired H key_name) (\<lambda>e.
     bnd (matching_keys H pattern es) (\<lambda>names.
       ret (if \<not> e \<and> fnmatch key_name pattern then key_name # names else names))))"

definition kv_keys :: "host \<Rightarrow> bytes \<Rightarrow> (kv, bytes list) pym" where
  "kv_keys H pattern = bnd (db_prefix (TYPE_KEY [])) (matching_keys H pattern)"

definition kv_dbsize :: "host \<Rightarrow> (kv, nat) pym" where
  "kv_dbsize H = bnd (kv_keys H ''*'') (\<lambda>ks. ret (length ks))"

definition kv_flushdb :: "host \<Rightarrow> (kv, unit) pym" where
  "kv_flushdb H = bnd (kv_keys H ''*'') (\<lambda>ks.
     sq (for_each ks (\<lambda>k. bnd (kv_delete H [k]) (\<lambda>_. ret ()))) (on_lsm (lsm_flush H)))"

section \<open>Sets\<close>

fun add_members :: "host \<Rightarrow> bytes \<Rightarrow> bytes list \<Rightarrow> nat \<Rightarrow> (kv, nat) pym" where
  "add_members H p [] added = ret added"
| "add_members H p (m # ms) added = bnd (db_get H (p @ m)) (\<lambda>v.
     if v = None then sq (db_put H (p @ m) ''1'') (add_members H p ms (added + 1))
     else add_members H p ms added)"

definition kv_sadd :: "host \<Rightarrow> bytes \<Rightarrow> bytes list \<Rightarrow> (kv, nat) pym" where
  "kv_sadd H key members = bnd (is_expired H key) (\<lambda>_.
     bnd (add_members H (S_PREFIX key) members 0) (\<lambda>added.
     sq (db_put H (TYPE_KEY key) ''set'') (ret added)))"

definition kv_srem :: "host \<Rightarrow> bytes \<Rightarrow> bytes list \<Rightarrow> (kv, nat) pym" where
  "kv_srem H key members = remove_members H (S_PREFIX key) members 0"

definition kv_smembers :: "host \<Rightarrow> bytes \<Rightarrow> (kv, bytes list) pym" where
  "kv_smembers H key = bnd (is_expired H key) (\<lambda>e. if e then ret [] else
     bnd (db_prefix (S_PREFIX key)) (\<lambda>es.
       lift_res (rmap (\<lambda>(k, _). py_decode (drop (length (S_PREFIX key)) k)) es)))"

definition kv_sismember :: "host \<Rightarrow> bytes \<Rightarrow> bytes \<Rightarrow> (kv, bool) pym" where
  "kv_sismember H key member = bnd (is_expired H key) (\<lambda>e. if e then ret False else
     bnd (db_get H (S_PREFIX key @ member)) (\<lambda>v. ret (v \<noteq> None)))"

definition kv_scard :: "host \<Rightarrow> bytes \<Rightarrow> (kv, nat) pym" where
  "kv_scard H key = bnd (kv_smembers H key) (\<lambda>ms. ret (length ms))"

fun fold_members :: "(bytes list \<Rightarrow> bytes list \<Rightarrow> bytes list) \<Rightarrow> host \<Rightarrow> bytes list \<Rightarrow> bytes list \<Rightarrow> (kv, bytes list) pym" where
  "fold_members f H [] acc = ret acc"
| "fold_members f H (k # ks) acc = bnd (kv_smembers H k) (\<lambda>ms. fold_members f H ks (f acc ms))"

definition kv_sunion :: "host \<Rightarrow> bytes list \<Rightarrow> (kv, bytes list) pym" where
  "kv_sunion H keys = fold_members (\<lambda>acc ms. acc @ filter (\<lambda>m. m \<notin> set acc) ms) H keys []"

definition kv_sinter :: "host \<Rightarrow> bytes list \<Rightarrow> (kv, bytes list) pym" where
  "kv_sinter H keys = (case keys of [] \<Rightarrow> ret []
    | k # ks \<Rightarrow> bnd (kv_smembers H k) (fold_members (\<lambda>acc ms. filter (\<lambda>m. m \<in> set ms) acc) H ks))"

definition kv_sdiff :: "host \<Rightarrow> bytes list \<Rightarrow> (kv, bytes list) pym" where
  "kv_sdiff H keys = (case keys of [] \<Rightarrow> ret []
    | k # ks \<Rightarrow> bnd (kv_smembers H k) (fold_members (\<lambda>acc ms. filter (\<lambda>m. m \<notin> set ms) acc) H ks))"

section \<open>Sorted sets\<close>

fun add_scores :: "host \<Rightarrow> bytes \<Rightarrow> (bytes \<times> f64) list \<Rightarrow> nat \<Rightarrow> (kv, nat) pym" where
  "add_scores H p [] added = ret added"
| "add_scores H p ((member, score) # ms) added = bnd (db_get H (p @ member)) (\<lambda>v.
     sq (db_put H (p @ member) (str_float score))
        (add_scores H p ms (if v = None then added + 1 else added)))"

definition kv_zadd :: "host \<Rightarrow> bytes \<Rightarrow> (bytes \<times> f64) list \<Rightarrow> (kv, nat) pym" where
  "kv_zadd H key mapping = bnd (is_expired H key) (\<lambda>_.
     bnd (add_scores H (Z_PREFIX key) mapping 0) (\<lambda>added.
     sq (db_put H (TYPE_KEY key) ''zset'') (ret added)))"

definition kv_zrem :: "host \<Rightarrow> bytes \<Rightarrow> bytes list \<Rightarrow> (kv, nat) pym" where
  "kv_zrem H key members = remove_members H (Z_PREFIX key) members 0"

definition decode_score :: "bytes \<Rightarrow> f64 res" where
  "decode_score v = rbind (py_decode v) float_res"

definition kv_zscore :: "host \<Rightarrow> bytes \<Rightarrow> bytes \<Rightarrow> (kv, f64 option) pym" where
  "kv_zscore H key member = bnd (is_expired H key) (\<lambda>e. if e then ret None else
     bnd (db_get H (Z_PREFIX key @ member)) (\<lambda>val. case val of
        None \<Rightarrow> ret None | Some v \<Rightarrow> bnd (lift_res (decode_score v)) (\<lambda>x. ret (Some x))))"

text \<open>\<open>self.zscore(key, member) or 0.0\<close>\<close>

definition kv_zincrby :: "host \<Rightarrow> bytes \<Rightarrow> f64 \<Rightarrow> bytes \<Rightarrow> (kv, f64) pym" where
  "kv_zincrby H key amount member = bnd (kv_zscore H key member) (\<lambda>curr.
     let c = (case curr of None \<Rightarrow> 0 | Some x \<Rightarrow> if f64_eq x 0 then 0 else x);
         new_score = f64_add c amount
     in bnd (kv_zadd H key [(member, new_score)]) (\<lambda>_. ret new_score))"

definition decode_member :: "bytes \<Rightarrow> bytes \<times> bytes \<Rightarrow> (bytes \<times> f64) res" where
  "decode_member p = (\<lambda>(k, v). rbind (py_decode (drop (length p) k)) (\<lambda>m. rbind (decode_score v) (\<lambda>x. Inr (m, x))))"

definition kv_zrange :: "host \<Rightarrow> bytes \<Rightarrow> int \<Rightarrow> int \<Rightarrow> (kv, (bytes \<times> f64) list) pym" where
  "kv_zrange H key start stop = bnd (is_expired H key) (\<lambda>e. if e then ret [] else
     bnd (db_prefix (Z_PREFIX key)) (\<lambda>es.
     bnd (lift_res (rmap (decode_member (Z_PREFIX key)) es)) (\<lambda>items.
       let sorted = sort_key (\<lambda>(m, x). (f64_rank x, m)) items; len = int (length items);
           a = norm_start len start; b = norm_stop len stop
       in ret (if len = 0 then [] else if a \<le> b then py_slice_int sorted a (b + 1) else []))))"

definition kv_zrank :: "host \<Rightarrow> bytes \<Rightarrow> bytes \<Rightarrow> (kv, nat option) pym" where
  "kv_zrank H key member = bnd (kv_zrange H key 0 (-1)) (\<lambda>items.
     ret (let i = length (takeWhile (\<lambda>(m, _). m \<noteq> member) items)
          in if i < length items then Some i else None))"

definition kv_zcard :: "host \<Rightarrow> bytes \<Rightarrow> (kv, nat) pym" where
  "kv_zcard H key = bnd (kv_zrange H key 0 (-1)) (\<lambda>items. ret (length items))"

end
