(* ===== verification/KVLaws.thy ===== *)
theory KVLaws
  imports KV
begin

text \<open>
  The key-value engine over the contract of its tree: the tree inside an engine is a store in
  the sense of theory Store, each access to it has a rule for \<open>wp\<close>, and reading the clock
  changes nothing the contract sees. A key that has no expiry entry is never expired.
\<close>

lemma wp_is_not_expired: "db_repr H K f n \<Longrightarrow> f (EXP_KEY key) = None \<Longrightarrow> Q False K \<Longrightarrow> wp (is_expired H key) Q K"
  unfolding is_expired_def by (simp, rule wp_db_get, assumption, simp)

lemmas wp_intros = wp_db_get wp_db_prefix dbs.wp_put dbs.wp_del wp_kv_time wp_is_not_expired

text \<open>Keys of different kinds differ.\<close>

lemma kinds_differ [simp]:
  "H_PREFIX a @ x \<noteq> V_KEY b" "H_PREFIX a @ x \<noteq> TYPE_KEY b" "H_PREFIX a @ x \<noteq> EXP_KEY b"
  "H_PREFIX a @ x \<noteq> LMETA_KEY b" "H_PREFIX a @ x \<noteq> L_KEY b i" "H_PREFIX a @ x \<noteq> S_PREFIX b @ y" "H_PREFIX a @ x \<noteq> Z_PREFIX b @ y"
  "S_PREFIX a @ x \<noteq> V_KEY b" "S_PREFIX a @ x \<noteq> TYPE_KEY b" "S_PREFIX a @ x \<noteq> EXP_KEY b"
  "S_PREFIX a @ x \<noteq> LMETA_KEY b" "S_PREFIX a @ x \<noteq> L_KEY b i" "S_PREFIX a @ x \<noteq> H_PREFIX b @ y" "S_PREFIX a @ x \<noteq> Z_PREFIX b @ y"
  "Z_PREFIX a @ x \<noteq> V_KEY b" "Z_PREFIX a @ x \<noteq> TYPE_KEY b" "Z_PREFIX a @ x \<noteq> EXP_KEY b"
  "Z_PREFIX a @ x \<noteq> LMETA_KEY b" "Z_PREFIX a @ x \<noteq> L_KEY b i" "Z_PREFIX a @ x \<noteq> H_PREFIX b @ y" "Z_PREFIX a @ x \<noteq> S_PREFIX b @ y"
  "L_KEY a i \<noteq> V_KEY b" "L_KEY a i \<noteq> TYPE_KEY b" "L_KEY a i \<noteq> EXP_KEY b" "L_KEY a i \<noteq> LMETA_KEY b"
  "LMETA_KEY a \<noteq> V_KEY b" "LMETA_KEY a \<noteq> TYPE_KEY b" "LMETA_KEY a \<noteq> EXP_KEY b"
  by (simp_all add: H_PREFIX_def S_PREFIX_def Z_PREFIX_def L_KEY_def LMETA_KEY_def V_KEY_def TYPE_KEY_def EXP_KEY_def)

lemmas kinds_differ_sym [simp] = kinds_differ [symmetric]

lemma L_KEY_inject [simp]: "L_KEY key i = L_KEY key j \<longleftrightarrow> i = j"
  by (simp add: L_KEY_def)

end
