(* ===== verification/KVList.thy ===== *)
theory KVList
  imports KVLaws Resp
begin

text \<open>
  The list commands of the key-value engine against lists: \<open>list_inv f key xs n\<close> says that the
  entries of the store \<open>f\<close> under the list prefix of \<open>key\<close>, between the head and the tail index of
  its meta entry, are the elements of \<open>xs\<close>, and that \<open>n\<close> more index steps stay within the bound.
\<close>

section \<open>Lists\<close>

lemma split_char_none: "c \<notin> set s \<Longrightarrow> split_char c s = [s]"
  by (induction s) auto

lemma split_char_append: "c \<notin> set s \<Longrightarrow> split_char c (s @ c # t) = s # split_char c t"
  by (induction s) auto

lemma str_int_no_colon: "CHR '':'' \<notin> set (str_int i)"
  using str_int_chars [of "CHR '':''" i] digit_not_sign [of "CHR '':''"] by auto

definition list_meta :: "bytes option \<Rightarrow> int \<times> int" where
  "list_meta val = (case val of
      None \<Rightarrow> (0, 0)
    | Some v \<Rightarrow> if \<not> utf8_valid v then (0, 0) else (case split_char (CHR '':'') v of
          [a, b] \<Rightarrow> (case (py_int a, py_int b) of (Some h, Some t) \<Rightarrow> (h, t) | _ \<Rightarrow> (0, 0))
        | _ \<Rightarrow> (0, 0)))"

lemma list_meta_None [simp]: "list_meta None = (0, 0)"
  by (simp add: list_meta_def)

lemma list_meta_Some [simp]: "list_meta (Some (str_int h @ CHR '':'' # str_int t)) = (h, t)"
proof -
  have "utf8_valid '':''" by (rule utf8_ascii) simp
  from utf8_valid_append [OF this, of "str_int t"] have "utf8_valid (CHR '':'' # str_int t)" by simp
  then have "utf8_valid (str_int h @ CHR '':'' # str_int t)" by (simp add: utf8_valid_append)
  then show ?thesis
    by (simp add: list_meta_def split_char_append split_char_none str_int_no_colon)
qed

lemma wp_get_list_meta: "db_repr H K f n \<Longrightarrow> Q (list_meta (f (LMETA_KEY key))) K \<Longrightarrow> wp (get_list_meta H key) Q K"
  unfolding get_list_meta_def list_meta_def [symmetric] wp_simps by (rule wp_db_get)

text \<open>The list stored at a key, between its head and its tail index.\<close>

definition list_at :: "(bytes \<rightharpoonup> bytes) \<Rightarrow> bytes \<Rightarrow> int \<Rightarrow> int \<Rightarrow> bytes list \<Rightarrow> bool" where
  "list_at f key h t xs \<longleftrightarrow> t = h + int (length xs) \<and> (\<forall>i < length xs. f (L_KEY key (h + int i)) = Some (xs ! i))"

definition INDEX_BOUND :: int where
  "INDEX_BOUND = 10 ^ 9"

definition list_inv :: "(bytes \<rightharpoonup> bytes) \<Rightarrow> bytes \<Rightarrow> bytes list \<Rightarrow> nat \<Rightarrow> bool" where
  "list_inv f key xs n \<longleftrightarrow> (\<exists>h t. list_meta (f (LMETA_KEY key)) = (h, t) \<and> list_at f key h t xs \<and>
     f (EXP_KEY key) = None \<and> - INDEX_BOUND + int n \<le> h \<and> t \<le> INDEX_BOUND - int n)"

text \<open>Nothing but the entries of the list changes.\<close>

definition list_frame :: "bytes \<Rightarrow> (bytes \<rightharpoonup> bytes) \<Rightarrow> (bytes \<rightharpoonup> bytes) \<Rightarrow> bool" where
  "list_frame key f f' \<longleftrightarrow> (\<forall>k. (\<forall>i. k \<noteq> L_KEY key i) \<longrightarrow> k \<noteq> LMETA_KEY key \<longrightarrow> k \<noteq> TYPE_KEY key \<longrightarrow> f' k = f k)"

definition items_frame :: "bytes \<Rightarrow> (bytes \<rightharpoonup> bytes) \<Rightarrow> (bytes \<rightharpoonup> bytes) \<Rightarrow> bool" where
  "items_frame key f f' \<longleftrightarrow> (\<forall>k. (\<forall>i. k \<noteq> L_KEY key i) \<longrightarrow> f' k = f k)"

lemma items_frame_simps [simp]:
  "items_frame key f f" "items_frame key (f(L_KEY key i := v)) f' \<longleftrightarrow> items_frame key f f'"
  "items_frame key f (f'(L_KEY key i := v)) \<longleftrightarrow> items_frame key f f'" "list_frame key f f"
  by (auto simp: items_frame_def list_frame_def)

lemma length_str_int: "\<bar>i\<bar> \<le> INDEX_BOUND \<Longrightarrow> length (str_int i) \<le> 11"
proof -
  assume "\<bar>i\<bar> \<le> INDEX_BOUND"
  then have "nat \<bar>i\<bar> < 10 ^ 10" by (simp add: INDEX_BOUND_def)
  then have "length (str_nat (nat \<bar>i\<bar>)) \<le> 10" by (rule length_str_nat) simp
  then show ?thesis by (auto simp: str_int_def)
qed

definition name_ok :: "bytes \<Rightarrow> bool" where
  "name_ok key \<longleftrightarrow> length key \<le> 30000"

lemma list_keys_ok [simp]:
  "name_ok key \<Longrightarrow> \<bar>i\<bar> \<le> INDEX_BOUND \<Longrightarrow> key_ok (L_KEY key i)"
  "name_ok key \<Longrightarrow> key_ok (LMETA_KEY key)" "name_ok key \<Longrightarrow> key_ok (TYPE_KEY key)"
  "name_ok key \<Longrightarrow> key_ok (EXP_KEY key)" "name_ok key \<Longrightarrow> key_ok (V_KEY key)"
  using length_str_int [of i]
  by (simp_all add: name_ok_def key_ok_def L_KEY_def LMETA_KEY_def TYPE_KEY_def EXP_KEY_def V_KEY_def)

lemma type_vals_ok [simp]: "val_ok ''list''" "val_ok ''hash''" "val_ok ''set''" "val_ok ''zset''" "val_ok ''string''" "val_ok ''1''"
  by (simp_all add: val_ok_def TOMBSTONE_def)

lemma meta_val_ok: "\<bar>h\<bar> \<le> INDEX_BOUND \<Longrightarrow> \<bar>t\<bar> \<le> INDEX_BOUND \<Longrightarrow> val_ok (str_int h @ CHR '':'' # str_int t)"
proof -
  assume "\<bar>h\<bar> \<le> INDEX_BOUND" "\<bar>t\<bar> \<le> INDEX_BOUND"
  then have "length (str_int h) \<le> 11" "length (str_int t) \<le> 11" by (auto intro: length_str_int)
  moreover have "CHR '':'' \<notin> set TOMBSTONE" by (simp add: TOMBSTONE_def)
  then have "str_int h @ CHR '':'' # str_int t \<noteq> TOMBSTONE" by (metis in_set_conv_decomp)
  ultimately show ?thesis by (simp add: val_ok_def)
qed

lemma wp_set_list_meta:
  assumes "db_repr H K f (Suc (Suc n))" "name_ok key" "\<bar>h\<bar> \<le> INDEX_BOUND" "\<bar>t\<bar> \<le> INDEX_BOUND"
    and "\<And>K'. db_repr H K' (f(LMETA_KEY key \<mapsto> str_int h @ CHR '':'' # str_int t, TYPE_KEY key \<mapsto> ''list'')) n \<Longrightarrow> Q () K'"
  shows "wp (set_list_meta H key h t) Q K"
  unfolding set_list_meta_def wp_simps
  by (rule dbs.wp_put [OF assms(1)], (simp add: assms(2) meta_val_ok [OF assms(3,4)])+, rule dbs.wp_put, assumption)
    (simp_all add: assms(2,5))

lemma list_at_snoc: "list_at f key h t xs \<Longrightarrow> list_at (f(L_KEY key t \<mapsto> v)) key h (t + 1) (xs @ [v])"
  by (auto simp: list_at_def nth_append less_Suc_eq)

lemma list_at_cons: "list_at f key h t xs \<Longrightarrow> list_at (f(L_KEY key (h - 1) \<mapsto> v)) key (h - 1) t (v # xs)"
proof -
  assume l: "list_at f key h t xs"
  have "(f(L_KEY key (h - 1) \<mapsto> v)) (L_KEY key (h - 1 + int i)) = Some ((v # xs) ! i)" if "i < Suc (length xs)" for i
  proof (cases i)
    case (Suc j)
    then have "h - 1 + int i = h + int j" by simp
    then show ?thesis using l that Suc by (simp add: list_at_def)
  qed simp
  then show ?thesis using l by (simp add: list_at_def)
qed

lemma wp_push_right:
  assumes "name_ok key"
  shows "db_repr H K f (n + length vs) \<Longrightarrow> list_at f key h t xs \<Longrightarrow> list_all val_ok vs \<Longrightarrow>
    - INDEX_BOUND \<le> h \<Longrightarrow> t + int (length vs) \<le> INDEX_BOUND \<Longrightarrow>
    (\<And>K' f'. db_repr H K' f' n \<Longrightarrow> list_at f' key h (t + int (length vs)) (xs @ vs) \<Longrightarrow> items_frame key f f' \<Longrightarrow>
       Q (t + int (length vs)) K') \<Longrightarrow>
    wp (push_right H key vs t) Q K"
proof (induction vs arbitrary: K f t xs)
  case Nil
  from Nil(6) [of K f] Nil(1,2) show ?case by simp
next
  case (Cons v vs)
  have t: "\<bar>t\<bar> \<le> INDEX_BOUND" using Cons.prems(2,4,5) by (auto simp: list_at_def)
  show ?case unfolding push_right.simps wp_simps
  proof (rule dbs.wp_put)
    show "db_repr H K f (Suc (n + length vs))" using Cons.prems(1) by simp
    show "key_ok (L_KEY key t)" "val_ok v" using assms t Cons.prems(3) by simp_all
    fix K1 :: kv assume K1: "db_repr H K1 (f(L_KEY key t \<mapsto> v)) (n + length vs)"
    show "wp (push_right H key vs (t + 1)) Q K1"
      by (rule Cons.IH [OF K1 list_at_snoc [OF Cons.prems(2)]])
        (use Cons.prems(3-6) in \<open>auto simp: add.assoc simp del: fun_upd_apply\<close>)
  qed
qed

lemma wp_push_left:
  assumes "name_ok key"
  shows "db_repr H K f (n + length vs) \<Longrightarrow> list_at f key h t xs \<Longrightarrow> list_all val_ok vs \<Longrightarrow>
    - INDEX_BOUND \<le> h - int (length vs) \<Longrightarrow> t \<le> INDEX_BOUND \<Longrightarrow>
    (\<And>K' f'. db_repr H K' f' n \<Longrightarrow> list_at f' key (h - int (length vs)) t (rev vs @ xs) \<Longrightarrow> items_frame key f f' \<Longrightarrow>
       Q (h - int (length vs)) K') \<Longrightarrow>
    wp (push_left H key vs h) Q K"
proof (induction vs arbitrary: K f h xs)
  case Nil
  from Nil(6) [of K f] Nil(1,2) show ?case by simp
next
  case (Cons v vs)
  have h: "\<bar>h - 1\<bar> \<le> INDEX_BOUND" using Cons.prems(2,4,5) by (auto simp: list_at_def)
  show ?case unfolding push_left.simps wp_simps
  proof (rule dbs.wp_put)
    show "db_repr H K f (Suc (n + length vs))" using Cons.prems(1) by simp
    show "key_ok (L_KEY key (h - 1))" "val_ok v" using assms h Cons.prems(3) by simp_all
    fix K1 :: kv assume K1: "db_repr H K1 (f(L_KEY key (h - 1) \<mapsto> v)) (n + length vs)"
    show "wp (push_left H key vs (h - 1)) Q K1"
      by (rule Cons.IH [OF K1 list_at_cons [OF Cons.prems(2)]])
        (use Cons.prems(3-6) in \<open>auto simp: algebra_simps simp del: fun_upd_apply\<close>)
  qed
qed

subsection \<open>List commands against lists\<close>

datatype list_op =
    LPush "bytes list"
  | RPush "bytes list"
  | LPop
  | RPop
  | LRange int int
  | LLen
  | LIndex int
  | LSet int bytes

text \<open>The value of an optional text in a reply.\<close>

definition opt_val :: "bytes option \<Rightarrow> pyval" where
  "opt_val v = (case v of None \<Rightarrow> PNone | Some s \<Rightarrow> PStr s)"

fun list_call :: "host \<Rightarrow> bytes \<Rightarrow> list_op \<Rightarrow> (kv, pyval) pym" where
  "list_call H key (LPush vs) = bnd (kv_lpush H key vs) (\<lambda>n. ret (PInt n))"
| "list_call H key (RPush vs) = bnd (kv_rpush H key vs) (\<lambda>n. ret (PInt n))"
| "list_call H key LPop = bnd (kv_lpop H key) (\<lambda>v. ret (opt_val v))"
| "list_call H key RPop = bnd (kv_rpop H key) (\<lambda>v. ret (opt_val v))"
| "list_call H key (LRange a b) = bnd (kv_lrange H key a b) (\<lambda>xs. ret (PList (map PStr xs)))"
| "list_call H key LLen = bnd (kv_llen H key) (\<lambda>n. ret (PInt n))"
| "list_call H key (LIndex i) = bnd (kv_lindex H key i) (\<lambda>v. ret (opt_val v))"
| "list_call H key (LSet i v) = bnd (kv_lset H key i v) (\<lambda>b. ret (PBool b))"

text \<open>What the commands mean for a list; positions from the end are negative.\<close>

definition position :: "nat \<Rightarrow> int \<Rightarrow> nat option" where
  "position n i = (let j = (if i < 0 then int n + i else i) in if 0 \<le> j \<and> j < int n then Some (nat j) else None)"

definition list_range :: "int \<Rightarrow> int \<Rightarrow> 'v list \<Rightarrow> 'v list" where
  "list_range a b xs =
     (let n = int (length xs); lo = (if a < 0 then max 0 (n + a) else a); hi = (if b < 0 then n + b else min (n - 1) b)
      in if hi < lo then [] else take (nat (hi - lo + 1)) (drop (nat lo) xs))"

definition popped :: "bytes \<Rightarrow> pyval" where
  "popped x = (if x = [] then PNone else PStr x)"

fun list_spec :: "list_op \<Rightarrow> bytes list \<Rightarrow> pyval \<times> bytes list" where
  "list_spec (LPush vs) xs = (PInt (int (length vs + length xs)), rev vs @ xs)"
| "list_spec (RPush vs) xs = (PInt (int (length vs + length xs)), xs @ vs)"
| "list_spec LPop xs = (if xs = [] then (PNone, []) else (popped (hd xs), tl xs))"
| "list_spec RPop xs = (if xs = [] then (PNone, []) else (popped (last xs), butlast xs))"
| "list_spec (LRange a b) xs = (PList (map PStr (list_range a b xs)), xs)"
| "list_spec LLen xs = (PInt (int (length xs)), xs)"
| "list_spec (LIndex i) xs = (opt_val (map_option (\<lambda>j. xs ! j) (position (length xs) i)), xs)"
| "list_spec (LSet i v) xs = (case position (length xs) i of
      None \<Rightarrow> (PBool False, xs) | Some j \<Rightarrow> (PBool True, xs[j := v]))"

text \<open>The writes a command makes at most.\<close>

fun list_cost :: "list_op \<Rightarrow> nat" where
  "list_cost (LPush vs) = length vs + 2"
| "list_cost (RPush vs) = length vs + 2"
| "list_cost LPop = 3"
| "list_cost RPop = 3"
| "list_cost (LSet i v) = 1"
| "list_cost _ = 0"

definition text_ok :: "bytes \<Rightarrow> bool" where
  "text_ok v \<longleftrightarrow> val_ok v \<and> utf8_valid v"

fun list_op_ok :: "list_op \<Rightarrow> bool" where
  "list_op_ok (LPush vs) = list_all text_ok vs"
| "list_op_ok (RPush vs) = list_all text_ok vs"
| "list_op_ok (LSet i v) = text_ok v"
| "list_op_ok _ = True"

lemma list_spec_ok: "list_op_ok op \<Longrightarrow> list_all text_ok xs \<Longrightarrow> list_all text_ok (snd (list_spec op xs))"
  by (cases op) (auto simp: list_all_iff position_def Let_def dest: in_set_butlastD list.set_sel(2) split: option.splits if_splits
      dest!: set_update_subset_insert [THEN subsetD])

lemma list_frame_trans: "list_frame key f g \<Longrightarrow> list_frame key g h \<Longrightarrow> list_frame key f h"
  by (simp add: list_frame_def)

lemma list_frame_meta: "items_frame key f g \<Longrightarrow> list_frame key f (g(LMETA_KEY key \<mapsto> a, TYPE_KEY key \<mapsto> b))"
  by (auto simp: items_frame_def list_frame_def)

lemma list_inv_meta:
  assumes "list_at g key h t xs" "g (EXP_KEY key) = None" "- INDEX_BOUND + int n \<le> h" "t \<le> INDEX_BOUND - int n"
  shows "list_inv (g(LMETA_KEY key \<mapsto> str_int h @ CHR '':'' # str_int t, TYPE_KEY key \<mapsto> ''list'')) key xs n"
  using assms by (simp add: list_inv_def list_at_def)

definition list_step_ok :: "host \<Rightarrow> bytes \<Rightarrow> list_op \<Rightarrow> kv \<Rightarrow> (bytes \<rightharpoonup> bytes) \<Rightarrow> bytes list \<Rightarrow> nat \<Rightarrow> bool" where
  "list_step_ok H key op K f xs n \<longleftrightarrow>
     wp (list_call H key op) (\<lambda>r K'. r = fst (list_spec op xs) \<and> (\<exists>f'. db_repr H K' f' n \<and>
        list_inv f' key (snd (list_spec op xs)) n \<and> list_frame key f f')) K"

lemma list_inv_less: "list_inv f key xs (m + n) \<Longrightarrow> list_inv f key xs n"
  by (fastforce simp: list_inv_def)

lemma list_inv_bounds: "list_inv f key xs n \<Longrightarrow> (\<And>h t. list_meta (f (LMETA_KEY key)) = (h, t) \<Longrightarrow> list_at f key h t xs \<Longrightarrow>
    f (EXP_KEY key) = None \<Longrightarrow> - INDEX_BOUND + int n \<le> h \<Longrightarrow> t \<le> INDEX_BOUND - int n \<Longrightarrow> h \<le> t \<Longrightarrow> P) \<Longrightarrow> P"
  by (auto simp: list_inv_def list_at_def)

lemma list_step_push:
  assumes r: "db_repr H K f (n + list_cost op)" and i: "list_inv f key xs (n + list_cost op)" and k: "name_ok key"
    and ok: "list_op_ok op" and op: "op = LPush vs \<or> op = RPush vs"
  shows "list_step_ok H key op K f xs n"
proof (rule list_inv_bounds [OF i])
  fix h t assume m: "list_meta (f (LMETA_KEY key)) = (h, t)" "list_at f key h t xs" "f (EXP_KEY key) = None"
    "- INDEX_BOUND + int (n + list_cost op) \<le> h" "t \<le> INDEX_BOUND - int (n + list_cost op)" "h \<le> t"
  have v: "list_all val_ok vs" using ok op by (auto simp: text_ok_def list_all_iff)
  have r2: "db_repr H K f (Suc (Suc n) + length vs)" using r op by auto
  have b: "- INDEX_BOUND + int n \<le> h - int (length vs)" "t + int (length vs) \<le> INDEX_BOUND - int n"
    "- INDEX_BOUND + int n \<le> h" "t \<le> INDEX_BOUND - int n" using m(4-6) op by auto
  have len: "t - h = int (length xs)" using m(2) by (simp add: list_at_def)
  from op show ?thesis
  proof
    assume o: "op = RPush vs"
    show ?thesis unfolding list_step_ok_def o list_call.simps kv_rpush_def wp_simps
    proof (rule wp_is_not_expired [OF r m(3)], rule wp_get_list_meta [OF r], unfold m(1) case_prod_conv wp_simps,
        rule wp_push_right [OF k r2 m(2) v])
      fix K1 :: kv and f1 assume K1: "db_repr H K1 f1 (Suc (Suc n))" "list_at f1 key h (t + int (length vs)) (xs @ vs)" "items_frame key f f1"
      have e: "f1 (EXP_KEY key) = None" using K1(3) m(3) by (simp add: items_frame_def)
      show "wp (set_list_meta H key h (t + int (length vs))) (\<lambda>_ s. PInt (t + int (length vs) - h) = fst (list_spec (RPush vs) xs) \<and>
          (\<exists>f'. db_repr H s f' n \<and> list_inv f' key (snd (list_spec (RPush vs) xs)) n \<and> list_frame key f f')) K1"
        by (rule wp_set_list_meta [OF K1(1) k])
          (use b m(6) len list_inv_meta [OF K1(2) e b(3,2)] list_frame_meta [OF K1(3)] in auto)
    qed (use b m(6) in auto)
  next
    assume o: "op = LPush vs"
    show ?thesis unfolding list_step_ok_def o list_call.simps kv_lpush_def wp_simps
    proof (rule wp_is_not_expired [OF r m(3)], rule wp_get_list_meta [OF r], unfold m(1) case_prod_conv wp_simps,
        rule wp_push_left [OF k r2 m(2) v])
      fix K1 :: kv and f1 assume K1: "db_repr H K1 f1 (Suc (Suc n))" "list_at f1 key (h - int (length vs)) t (rev vs @ xs)" "items_frame key f f1"
      have e: "f1 (EXP_KEY key) = None" using K1(3) m(3) by (simp add: items_frame_def)
      show "wp (set_list_meta H key (h - int (length vs)) t) (\<lambda>_ s. PInt (t - (h - int (length vs))) = fst (list_spec (LPush vs) xs) \<and>
          (\<exists>f'. db_repr H s f' n \<and> list_inv f' key (snd (list_spec (LPush vs) xs)) n \<and> list_frame key f f')) K1"
        by (rule wp_set_list_meta [OF K1(1) k])
          (use b m(6) len list_inv_meta [OF K1(2) e b(1,4)] list_frame_meta [OF K1(3)] in auto)
    qed (use b m(6) in auto)
  qed
qed

subsection \<open>Pop\<close>

lemma decode_truthy_text: "text_ok x \<Longrightarrow> decode_truthy (Some x) = Inr (if x = [] then None else Some x)"
  by (simp add: decode_truthy_def text_ok_def py_decode_def)

lemma list_at_tl: "list_at f key h t (x # xs) \<Longrightarrow> list_at (f(L_KEY key h := None)) key (h + 1) t xs"
  unfolding list_at_def
proof (intro conjI allI impI)
  fix i assume l: "t = h + int (length (x # xs)) \<and> (\<forall>i < length (x # xs). f (L_KEY key (h + int i)) = Some ((x # xs) ! i))"
    and i: "i < length xs"
  have "f (L_KEY key (h + int (Suc i))) = Some ((x # xs) ! Suc i)" using l i by (metis Suc_less_eq length_Cons)
  then show "(f(L_KEY key h := None)) (L_KEY key (h + 1 + int i)) = Some (xs ! i)" by (simp add: ac_simps)
qed simp

lemma list_at_butlast: "list_at f key h t (xs @ [x]) \<Longrightarrow> list_at (f(L_KEY key (t - 1) := None)) key h (t - 1) xs"
  by (auto simp: list_at_def nth_append)

lemma list_at_hd: "list_at f key h t (x # xs) \<Longrightarrow> f (L_KEY key h) = Some x"
proof -
  assume "list_at f key h t (x # xs)"
  then have "f (L_KEY key (h + int 0)) = Some ((x # xs) ! 0)" unfolding list_at_def by fastforce
  then show ?thesis by simp
qed

lemma list_at_last: "list_at f key h t (xs @ [x]) \<Longrightarrow> f (L_KEY key (t - 1)) = Some x"
proof -
  assume "list_at f key h t (xs @ [x])"
  then have "t - 1 = h + int (length xs)" "f (L_KEY key (h + int (length xs))) = Some ((xs @ [x]) ! length xs)"
    unfolding list_at_def by auto
  then show ?thesis by simp
qed

lemma wp_pop_at:
  assumes r: "db_repr H K f (n + 3)" and k: "name_ok key" and x: "f (L_KEY key i) = Some x" "text_ok x"
    and b: "\<bar>i\<bar> \<le> INDEX_BOUND" "- INDEX_BOUND + int n \<le> h" "t \<le> INDEX_BOUND - int n" "h \<le> t"
    and l: "list_at (f(L_KEY key i := None)) key h t xs" and e: "f (EXP_KEY key) = None"
    and Q: "\<And>K' f'. db_repr H K' f' n \<Longrightarrow> list_inv f' key xs n \<Longrightarrow> list_frame key f f' \<Longrightarrow> Q (if x = [] then None else Some x) K'"
  shows "wp (pop_at H key i h t) Q K"
  unfolding pop_at_def wp_simps
proof (rule wp_db_get [OF r], rule dbs.wp_del)
  show "db_repr H K f (Suc (Suc (Suc n)))" using r by (simp add: numeral_3_eq_3)
  show "key_ok (L_KEY key i)" using k b(1) by simp
  fix K1 :: kv assume K1: "db_repr H K1 (f(L_KEY key i := None)) (Suc (Suc n))"
  show "wp (set_list_meta H key h t) (\<lambda>_. wp (lift_res (decode_truthy (f (L_KEY key i)))) Q) K1"
  proof (rule wp_set_list_meta [OF K1 k])
    fix K2 :: kv assume K2: "db_repr H K2 (f(L_KEY key i := None, LMETA_KEY key \<mapsto> str_int h @ CHR '':'' # str_int t, TYPE_KEY key \<mapsto> ''list'')) n"
    show "wp (lift_res (decode_truthy (f (L_KEY key i)))) Q K2"
      unfolding x(1) decode_truthy_text [OF x(2)] wp_simps
      by (rule Q [OF K2 list_inv_meta [OF l]]) (use e b in \<open>auto intro!: list_frame_meta simp del: fun_upd_apply\<close>, simp add: e)
  qed (use b in auto)
qed

lemma list_step_lpop:
  assumes r: "db_repr H K f (n + 3)" and i: "list_inv f key xs (n + 3)" and k: "name_ok key" and x: "list_all text_ok xs"
  shows "list_step_ok H key LPop K f xs n"
proof (rule list_inv_bounds [OF i])
  fix h t assume m: "list_meta (f (LMETA_KEY key)) = (h, t)" "list_at f key h t xs" "f (EXP_KEY key) = None"
    "- INDEX_BOUND + int (n + 3) \<le> h" "t \<le> INDEX_BOUND - int (n + 3)" "h \<le> t"
  show ?thesis unfolding list_step_ok_def list_call.simps kv_lpop_def wp_simps
  proof (rule wp_is_not_expired [OF r m(3)], simp only: if_False, unfold wp_simps,
      rule wp_get_list_meta [OF r], unfold m(1) case_prod_conv)
    show "wp (if t \<le> h then ret None else pop_at H key h (h + 1) t) (\<lambda>v K'.
       opt_val v = fst (list_spec LPop xs) \<and> (\<exists>f'. db_repr H K' f' n \<and> list_inv f' key (snd (list_spec LPop xs)) n \<and> list_frame key f f')) K"
    proof (cases xs)
      case Nil
      then show ?thesis using m(2) dbs.room_le [OF r, of n] list_inv_less [of f key xs 3 n] i
        by (auto simp: list_at_def opt_val_def ac_simps intro!: exI [of _ f])
    next
      case (Cons x ys)
      have "\<not> t \<le> h" using m(2) by (simp add: list_at_def Cons)
      then show ?thesis
        by (simp only: if_False, intro wp_pop_at [OF r k list_at_hd [OF m(2) [unfolded Cons]] _ _ _ _ _
              list_at_tl [OF m(2) [unfolded Cons]] m(3)])
          (use m(4-6) x in \<open>auto simp: Cons popped_def opt_val_def\<close>)
    qed
  qed
qed

lemma list_step_rpop:
  assumes r: "db_repr H K f (n + 3)" and i: "list_inv f key xs (n + 3)" and k: "name_ok key" and x: "list_all text_ok xs"
  shows "list_step_ok H key RPop K f xs n"
proof (rule list_inv_bounds [OF i])
  fix h t assume m: "list_meta (f (LMETA_KEY key)) = (h, t)" "list_at f key h t xs" "f (EXP_KEY key) = None"
    "- INDEX_BOUND + int (n + 3) \<le> h" "t \<le> INDEX_BOUND - int (n + 3)" "h \<le> t"
  show ?thesis unfolding list_step_ok_def list_call.simps kv_rpop_def wp_simps
  proof (rule wp_is_not_expired [OF r m(3)], simp only: if_False, unfold wp_simps,
      rule wp_get_list_meta [OF r], unfold m(1) case_prod_conv)
    show "wp (if t \<le> h then ret None else pop_at H key (t - 1) h (t - 1)) (\<lambda>v K'.
       opt_val v = fst (list_spec RPop xs) \<and> (\<exists>f'. db_repr H K' f' n \<and> list_inv f' key (snd (list_spec RPop xs)) n \<and> list_frame key f f')) K"
    proof (cases xs rule: rev_cases)
      case Nil
      then show ?thesis using m(2) dbs.room_le [OF r, of n] list_inv_less [of f key xs 3 n] i
        by (auto simp: list_at_def opt_val_def ac_simps intro!: exI [of _ f])
    next
      case (snoc ys x)
      have "\<not> t \<le> h" using m(2) by (simp add: list_at_def snoc)
      then show ?thesis
        by (simp only: if_False, intro wp_pop_at [OF r k list_at_last [OF m(2) [unfolded snoc]] _ _ _ _ _
              list_at_butlast [OF m(2) [unfolded snoc]] m(3)])
          (use m(4-6) x in \<open>auto simp: snoc popped_def opt_val_def\<close>)
    qed
  qed
qed

subsection \<open>Reads and \<open>lset\<close>\<close>

lemma wp_collect_items:
  assumes "db_repr H K f n" "list_at f key h t xs" "list_all text_ok xs"
  shows "\<forall>j \<in> set js. j < length xs \<Longrightarrow> Q (map ((!) xs) js) K \<Longrightarrow>
    wp (collect_items H key (map (\<lambda>j. h + int j) js)) Q K"
proof (induction js arbitrary: Q)
  case (Cons j js)
  have x: "f (L_KEY key (h + int j)) = Some (xs ! j)" "py_decode (xs ! j) = Inr (xs ! j)"
    using Cons.prems(1) assms(2,3) by (auto simp: list_at_def list_all_length text_ok_def py_decode_def)
  show ?case unfolding list.map collect_items.simps wp_simps
    by (rule wp_db_get [OF assms(1)]) (use Cons x in simp)
qed simp

lemma upto_shift: "0 \<le> a \<Longrightarrow> [h + a..h + b] = map (\<lambda>j. h + int j) [nat a..<nat (b + 1)]"
  by (rule nth_equalityI) (auto simp: nth_append)

lemma map_nth_range: "b \<le> length xs \<Longrightarrow> map ((!) xs) [a..<b] = take (b - a) (drop a xs)"
  by (rule nth_equalityI) auto

lemma wp_lrange:
  assumes r: "db_repr H K f n" and i: "list_inv f key xs m" and x: "list_all text_ok xs" and Q: "Q (list_range a b xs) K"
  shows "wp (kv_lrange H key a b) Q K"
proof (rule list_inv_bounds [OF i])
  fix h t assume l: "list_meta (f (LMETA_KEY key)) = (h, t)" "list_at f key h t xs" "f (EXP_KEY key) = None"
  let ?n = "int (length xs)" and ?a = "norm_start (int (length xs)) a" and ?b = "norm_stop (int (length xs)) b"
  have n: "t - h = ?n" using l(2) by (simp add: list_at_def)
  have s: "list_range a b xs = (if ?b < ?a then [] else take (nat (?b - ?a + 1)) (drop (nat ?a) xs))"
    by (simp add: list_range_def norm_start_def norm_stop_def Let_def)
  have ge: "0 \<le> ?a" "?b < ?n" by (auto simp: norm_start_def norm_stop_def)
  show ?thesis unfolding kv_lrange_def wp_simps
  proof (rule wp_is_not_expired [OF r l(3)], simp only: if_False, unfold wp_simps,
      rule wp_get_list_meta [OF r], unfold l(1) case_prod_conv n Let_def)
    show "wp (if ?n \<le> 0 then ret [] else if ?b < ?a \<or> ?n \<le> ?a then ret [] else collect_items H key [h + ?a..h + ?b]) Q K"
    proof (cases "?b < ?a")
      case False
      have "nat (?b + 1) - nat ?a = nat (?b - ?a + 1)" using ge(1) False by (simp add: nat_diff_distrib')
      note d = this
      have "wp (collect_items H key (map (\<lambda>j. h + int j) [nat ?a..<nat (?b + 1)])) Q K"
        by (rule wp_collect_items [OF r l(2) x]) (use ge False Q s d in \<open>auto simp: map_nth_range\<close>)
      moreover have "xs \<noteq> []" using ge False by auto
      ultimately show ?thesis using False ge by (simp add: upto_shift)
    qed (use Q s in simp)
  qed
qed

lemma list_range_single: "list_range i i xs = (case position (length xs) i of None \<Rightarrow> [] | Some j \<Rightarrow> [xs ! j])"
proof (cases "position (length xs) i")
  case None
  then show ?thesis by (auto simp: position_def list_range_def Let_def split: if_splits)
next
  case (Some j)
  then have j: "j < length xs" "int j = (if i < 0 then int (length xs) + i else i)"
    by (auto simp: position_def Let_def split: if_splits)
  from j(2) have "nat (if i < 0 then int (length xs) + i else i) = j" by linarith
  with j have "list_range i i xs = take 1 (drop j xs)" by (auto simp: list_range_def Let_def)
  with j Some show ?thesis by (simp add: take_Suc hd_drop_conv_nth)
qed

lemma list_step_read:
  assumes r: "db_repr H K f n" and i: "list_inv f key xs n" and x: "list_all text_ok xs"
    and op: "op = LRange a b \<or> op = LLen \<or> op = LIndex j"
  shows "list_step_ok H key op K f xs n"
proof -
  have same: "\<exists>f'. db_repr H K f' n \<and> list_inv f' key xs n \<and> list_frame key f f'"
    using r i by (auto intro!: exI [of _ f])
  from op consider "op = LRange a b" | "op = LLen" | "op = LIndex j" by blast
  then show ?thesis
  proof cases
    case 1
    show ?thesis unfolding list_step_ok_def 1 list_call.simps wp_simps
      by (rule wp_lrange [OF r i x]) (use same in simp)
  next
    case 2
    show ?thesis
    proof (rule list_inv_bounds [OF i])
      fix h t assume l: "list_meta (f (LMETA_KEY key)) = (h, t)" "list_at f key h t xs" "f (EXP_KEY key) = None"
      show ?thesis unfolding list_step_ok_def 2 list_call.simps kv_llen_def wp_simps
        by (rule wp_is_not_expired [OF r l(3)], simp only: if_False, unfold wp_simps,
            rule wp_get_list_meta [OF r], unfold l(1) case_prod_conv wp_simps)
          (use same l(2) in \<open>simp add: list_at_def\<close>)
    qed
  next
    case 3
    show ?thesis unfolding list_step_ok_def 3 list_call.simps kv_lindex_def wp_simps
      by (rule wp_lrange [OF r i x])
        (use same in \<open>auto simp: list_range_single opt_val_def split: option.split\<close>)
  qed
qed

lemma list_at_upd: "list_at f key h t xs \<Longrightarrow> j < length xs \<Longrightarrow> list_at (f(L_KEY key (h + int j) \<mapsto> v)) key h t (xs[j := v])"
  by (auto simp: list_at_def nth_list_update)

lemma list_step_lset:
  assumes r: "db_repr H K f (Suc n)" and i: "list_inv f key xs (Suc n)" and k: "name_ok key" and v: "text_ok v"
  shows "list_step_ok H key (LSet i v) K f xs n"
proof (rule list_inv_bounds [OF i])
  fix h t assume m: "list_meta (f (LMETA_KEY key)) = (h, t)" "list_at f key h t xs" "f (EXP_KEY key) = None"
    "- INDEX_BOUND + int (Suc n) \<le> h" "t \<le> INDEX_BOUND - int (Suc n)" "h \<le> t"
  have n: "t - h = int (length xs)" using m(2) by (simp add: list_at_def)
  have same: "\<exists>f'. db_repr H K f' n \<and> list_inv f' key xs n \<and> list_frame key f f'"
    using dbs.less_room [OF r] list_inv_less [of f key xs 1 n] i by (auto intro!: exI [of _ f])
  show ?thesis
  proof (cases "position (length xs) i")
    case None
    then show ?thesis unfolding list_step_ok_def list_call.simps kv_lset_def wp_simps
      by (intro wp_is_not_expired [OF r m(3)], simp only: if_False, unfold wp_simps,
          intro wp_get_list_meta [OF r], unfold m(1) case_prod_conv n Let_def)
        (use same in \<open>auto simp: position_def Let_def split: if_splits\<close>)
  next
    case (Some j)
    then have j: "j < length xs" and ij: "(if i < 0 then int (length xs) + i else i) = int j"
      by (auto simp: position_def Let_def split: if_splits)
    have ne: "\<not> int (length xs) \<le> 0" using j by linarith
    show ?thesis unfolding list_step_ok_def list_call.simps kv_lset_def wp_simps
    proof (rule wp_is_not_expired [OF r m(3)], simp only: if_False, unfold wp_simps,
        rule wp_get_list_meta [OF r], unfold m(1) case_prod_conv n Let_def ij if_not_P [OF ne])
      have "\<not> (int j < 0 \<or> int (length xs) \<le> int j)" using j by simp
      then show "wp (if int j < 0 \<or> int (length xs) \<le> int j then ret False
           else sq (db_put H (L_KEY key (h + int j)) v) (ret True))
         (\<lambda>x K'. PBool x = fst (list_spec (LSet i v) xs) \<and>
           (\<exists>f'. db_repr H K' f' n \<and> list_inv f' key (snd (list_spec (LSet i v) xs)) n \<and> list_frame key f f')) K"
      proof (simp only: if_False, unfold wp_simps, intro dbs.wp_put [OF r])
        show "key_ok (L_KEY key (h + int j))" using k m(4-6) j n by (intro list_keys_ok) auto
        show "val_ok v" using v by (simp add: text_ok_def)
        fix K1 :: kv assume K1: "db_repr H K1 (f(L_KEY key (h + int j) \<mapsto> v)) n"
        have "list_inv (f(L_KEY key (h + int j) \<mapsto> v)) key (xs[j := v]) n"
          using list_at_upd [OF m(2) j, of v] m by (simp add: list_inv_def)
        moreover have "list_frame key f (f(L_KEY key (h + int j) \<mapsto> v))" by (auto simp: list_frame_def)
        ultimately show "PBool True = fst (list_spec (LSet i v) xs) \<and>
            (\<exists>f'. db_repr H K1 f' n \<and> list_inv f' key (snd (list_spec (LSet i v) xs)) n \<and> list_frame key f f')"
          using K1 by (auto simp: Some)
      qed
    qed
  qed
qed

lemma list_step:
  assumes r: "db_repr H K f (n + list_cost op)" and i: "list_inv f key xs (n + list_cost op)" and k: "name_ok key"
    and x: "list_all text_ok xs" and ok: "list_op_ok op"
  shows "list_step_ok H key op K f xs n"
proof (cases op)
  case (LSet i v)
  with list_step_lset [of H K f n key xs v i] assms show ?thesis by simp
next
  case LPop
  with list_step_lpop [of H K f n key xs] assms show ?thesis by simp
next
  case RPop
  with list_step_rpop [of H K f n key xs] assms show ?thesis by simp
qed (use list_step_push [OF r i k ok] list_step_read [of H K f n key xs op] assms in auto)

section \<open>A client of one list\<close>

definition list_holds :: "bytes \<Rightarrow> (bytes \<rightharpoonup> bytes) \<Rightarrow> bytes list \<Rightarrow> nat \<Rightarrow> bool" where
  "list_holds key f xs n \<longleftrightarrow> list_inv f key xs n \<and> name_ok key \<and> list_all text_ok xs"

interpretation lists: store_commands "db_repr H" "db_put H" "db_del H" "db_read H" db_scan "list_call H key" list_spec list_cost list_op_ok "list_holds key" "list_frame key" for H key
proof
  fix K :: kv and f n op xs assume "db_repr H K f (n + list_cost op)" "list_holds key f xs (n + list_cost op)" "list_op_ok op"
  then show "wp (list_call H key op) (\<lambda>r K'. r = fst (list_spec op xs) \<and>
      (\<exists>f'. db_repr H K' f' n \<and> list_holds key f' (snd (list_spec op xs)) n \<and> list_frame key f f')) K"
    using list_step [of H K f n op key xs] list_spec_ok [of op xs]
    by (auto simp: list_holds_def list_step_ok_def elim!: wp_mono)
qed (auto intro: list_frame_trans)

text \<open>
  C18. A client that runs any sequence of list commands on one key without an expiry gets, from
  every command, what a list would return: pushes, pops, ranges, lengths, reads and writes by
  position. Afterwards the entries of the store are those of the resulting list, and no entry
  of another key changed. An empty text pops as None.
\<close>

theorem kv_list_refines:
  assumes "db_repr H K f (n + run_cost list_cost ops)" "list_holds key f xs (n + run_cost list_cost ops)" "list_all list_op_ok ops"
  shows "\<exists>K' f'. map_m (list_call H key) ops K = (Inr (fst (run_spec list_spec ops xs)), K') \<and> db_repr H K' f' n \<and>
     list_holds key f' (snd (run_spec list_spec ops xs)) n \<and> list_frame key f f'"
  using assms by (rule lists.run)

definition sample_kv :: kv where
  "sample_kv = \<lparr>db_lsm = sample_tree, kv_heap = []\<rparr>"

definition sample_list_ops :: "list_op list" where
  "sample_list_ops = [RPush [''a'', ''b''], LPush [''c'', ''''], LSet (-1) ''z'', LRange 1 (-1), LPop, RPop, LIndex (-1), LLen]"

lemma sample_db_repr: "n \<le> 40000000 \<Longrightarrow> db_repr sample_host sample_kv Map.empty n"
  by (simp add: db_repr_def sample_kv_def sample_repr)

theorem kv_list_refines_witness:
  "\<exists>K' f'. map_m (list_call sample_host ''l'') sample_list_ops sample_kv =
       (Inr [PInt 2, PInt 4, PBool True, PList [PStr ''c'', PStr ''a'', PStr ''z''], PNone, PStr ''z'', PStr ''a'', PInt 2], K') \<and>
     db_repr sample_host K' f' 100 \<and> list_holds ''l'' f' [''c'', ''a''] 100 \<and> list_frame ''l'' Map.empty f'"
proof -
  have c: "run_cost list_cost sample_list_ops = 15" by (simp add: run_cost_def sample_list_ops_def)
  have ok: "text_ok ''a''" "text_ok ''b''" "text_ok ''c''" "text_ok ''z''" "text_ok ''''"
    by (auto simp: text_ok_def val_ok_def TOMBSTONE_def utf8_ascii)
  then have o: "list_all list_op_ok sample_list_ops" by (simp add: sample_list_ops_def)
  have r: "run_spec list_spec sample_list_ops [] = ([PInt 2, PInt 4, PBool True, PList [PStr ''c'', PStr ''a'', PStr ''z''], PNone,
      PStr ''z'', PStr ''a'', PInt 2], [''c'', ''a''])"
    by (simp add: sample_list_ops_def position_def list_range_def popped_def opt_val_def Let_def eval_nat_numeral)
  have i: "list_holds ''l'' Map.empty [] (100 + 15)" by (simp add: list_holds_def list_inv_def list_at_def INDEX_BOUND_def name_ok_def)
  show ?thesis
    using kv_list_refines [of sample_host sample_kv Map.empty 100 sample_list_ops "''l''" "[]"]
    using i by (simp add: c o r sample_db_repr name_ok_def)
qed

end
