(* ===== verification/KVHash.thy ===== *)
theory KVHash
  imports KVList
begin

text \<open>
  The collections stored as one entry per element under a prefix: hashes against maps, sorted
  sets against maps from members to scores. \<open>hash_inv f key h\<close> says that the entries of the
  store \<open>f\<close> under the hash prefix of \<open>key\<close> are the fields of \<open>h\<close>.
\<close>

section \<open>Members\<close>

text \<open>Removing members.\<close>

definition without :: "bytes \<Rightarrow> bytes list \<Rightarrow> (bytes \<rightharpoonup> bytes) \<Rightarrow> (bytes \<rightharpoonup> bytes)" where
  "without p ms f = (\<lambda>k. if k \<in> (@) p ` set ms then None else f k)"

lemma wp_remove_members:
  "db_repr H K f (n + length ms) \<Longrightarrow> \<forall>m \<in> set ms. key_ok (p @ m) \<Longrightarrow>
   (\<And>K'. db_repr H K' (without p ms f) n \<Longrightarrow> Q (c + card {m \<in> set ms. f (p @ m) \<noteq> None}) K') \<Longrightarrow>
   wp (remove_members H p ms c) Q K"
proof (induction ms arbitrary: K f c)
  case Nil
  then show ?case by (simp add: without_def)
next
  case (Cons m ms)
  let ?g = "f(p @ m := None)"
  have w: "without p ms ?g = without p (m # ms) f" by (auto simp: without_def)
  have r: "db_repr H K f (Suc (n + length ms))" using Cons.prems(1) by simp
  show ?case unfolding remove_members.simps wp_simps
  proof (rule wp_db_get [OF r])
    show "wp (if f (p @ m) \<noteq> None then sq (db_del H (p @ m)) (remove_members H p ms (c + 1)) else remove_members H p ms c) Q K"
    proof (cases "f (p @ m)")
      case None
      then have g: "?g = f" by auto
      have "{x. (x = m \<or> x \<in> set ms) \<and> f (p @ x) \<noteq> None} = {x \<in> set ms. f (p @ x) \<noteq> None}" using None by auto
      then have "wp (remove_members H p ms c) Q K"
        using Cons.prems w unfolding g
        by (intro Cons.IH [OF dbs.less_room [OF r]]) simp_all
      then show ?thesis using None by simp
    next
      case (Some v)
      have "{x \<in> set (m # ms). f (p @ x) \<noteq> None} = insert m {x \<in> set ms. ?g (p @ x) \<noteq> None}" using Some by auto
      moreover have "m \<notin> {x \<in> set ms. ?g (p @ x) \<noteq> None}" by simp
      ultimately have card: "card {x \<in> set (m # ms). f (p @ x) \<noteq> None} = Suc (card {x \<in> set ms. ?g (p @ x) \<noteq> None})"
        by simp
      have "wp (sq (db_del H (p @ m)) (remove_members H p ms (c + 1))) Q K" unfolding wp_simps
      proof (rule dbs.wp_del [OF r])
        fix K1 :: kv assume K1: "db_repr H K1 ?g (n + length ms)"
        show "wp (remove_members H p ms (c + 1)) Q K1"
        proof (rule Cons.IH [OF K1])
          fix K2 :: kv assume "db_repr H K2 (without p ms ?g) n"
          then have "Q (c + card {x \<in> set (m # ms). f (p @ x) \<noteq> None}) K2" using Cons.prems(3) w by simp
          then show "Q (c + 1 + card {x \<in> set ms. ?g (p @ x) \<noteq> None}) K2"
            by (simp only: card add_Suc_right Suc_eq_plus1 ac_simps)
        qed (use Cons.prems(2) in simp)
      qed (use Cons.prems(2) in simp)
      then show ?thesis using Some by simp
    qed
  qed
qed

section \<open>Hashes against maps\<close>

datatype hash_op =
    HSet bytes bytes
  | HGet bytes
  | HDel "bytes list"
  | HGetAll
  | HKeys
  | HLen
  | HExists bytes

definition str_pairs :: "(bytes \<times> bytes) list \<Rightarrow> pyval" where
  "str_pairs es = PDict (map (\<lambda>(k, v). (PStr k, PStr v)) es)"

fun hash_call :: "host \<Rightarrow> bytes \<Rightarrow> hash_op \<Rightarrow> (kv, pyval) pym" where
  "hash_call H key (HSet x v) = bnd (kv_hset H key x v) (\<lambda>n. ret (PInt (int n)))"
| "hash_call H key (HGet x) = bnd (kv_hget H key x) (\<lambda>v. ret (opt_val v))"
| "hash_call H key (HDel xs) = bnd (kv_hdel H key xs) (\<lambda>n. ret (PInt (int n)))"
| "hash_call H key HGetAll = bnd (kv_hgetall H key) (\<lambda>d. ret (str_pairs d))"
| "hash_call H key HKeys = bnd (kv_hkeys H key) (\<lambda>ks. ret (PList (map PStr ks)))"
| "hash_call H key HLen = bnd (kv_hlen H key) (\<lambda>n. ret (PInt (int n)))"
| "hash_call H key (HExists x) = bnd (kv_hexists H key x) (\<lambda>b. ret (PBool b))"

fun hash_spec :: "hash_op \<Rightarrow> (bytes \<rightharpoonup> bytes) \<Rightarrow> pyval \<times> (bytes \<rightharpoonup> bytes)" where
  "hash_spec (HSet x v) h = (PInt (if h x = None then 1 else 0), h(x \<mapsto> v))"
| "hash_spec (HGet x) h = (opt_val (h x), h)"
| "hash_spec (HDel xs) h = (PInt (int (card (set xs \<inter> dom h))), h |` (- set xs))"
| "hash_spec HGetAll h = (str_pairs (sorted_entries h), h)"
| "hash_spec HKeys h = (PList (map PStr (sorted_list_of_set (dom h))), h)"
| "hash_spec HLen h = (PInt (int (card (dom h))), h)"
| "hash_spec (HExists x) h = (PBool (h x \<noteq> None), h)"

fun hash_cost :: "hash_op \<Rightarrow> nat" where
  "hash_cost (HSet x v) = 2"
| "hash_cost (HDel xs) = length xs"
| "hash_cost _ = 0"

definition field_ok :: "bytes \<Rightarrow> bool" where
  "field_ok x \<longleftrightarrow> name_ok x \<and> utf8_valid x"

fun hash_op_ok :: "hash_op \<Rightarrow> bool" where
  "hash_op_ok (HSet x v) = (field_ok x \<and> text_ok v)"
| "hash_op_ok (HDel xs) = list_all field_ok xs"
| "hash_op_ok _ = True"

definition hash_inv :: "(bytes \<rightharpoonup> bytes) \<Rightarrow> bytes \<Rightarrow> (bytes \<rightharpoonup> bytes) \<Rightarrow> bool" where
  "hash_inv f key h \<longleftrightarrow> (\<forall>x. f (H_PREFIX key @ x) = h x) \<and> f (EXP_KEY key) = None \<and>
     (\<forall>x v. h x = Some v \<longrightarrow> utf8_valid x \<and> utf8_valid v)"

text \<open>Only fields of this hash and the type of its key change.\<close>

definition hash_frame :: "bytes \<Rightarrow> (bytes \<rightharpoonup> bytes) \<Rightarrow> (bytes \<rightharpoonup> bytes) \<Rightarrow> bool" where
  "hash_frame key f f' \<longleftrightarrow> (\<forall>k. \<not> startswith k (H_PREFIX key) \<longrightarrow> k \<noteq> TYPE_KEY key \<longrightarrow> f' k = f k)"

lemma hash_frame_refl [simp]: "hash_frame key f f"
  and hash_frame_trans: "hash_frame key f g \<Longrightarrow> hash_frame key g h \<Longrightarrow> hash_frame key f h"
  by (auto simp: hash_frame_def)

lemma prefix_key_ok: "name_ok key \<Longrightarrow> name_ok x \<Longrightarrow> key_ok (H_PREFIX key @ x)"
    "name_ok key \<Longrightarrow> name_ok x \<Longrightarrow> key_ok (S_PREFIX key @ x)" "name_ok key \<Longrightarrow> name_ok x \<Longrightarrow> key_ok (Z_PREFIX key @ x)"
  by (simp_all add: name_ok_def key_ok_def H_PREFIX_def S_PREFIX_def Z_PREFIX_def)

lemma rmap_decode_field:
  assumes "\<forall>(x, v) \<in> set xs. utf8_valid x \<and> utf8_valid v"
  shows "rmap (decode_field p) (map (\<lambda>(x, v). (p @ x, v)) xs) = Inr xs"
  using assms by (induction xs) (auto simp: decode_field_def py_decode_def)

lemma wp_hgetall:
  assumes r: "db_repr H K f n" and i: "hash_inv f key h" and Q: "Q (sorted_entries h) K"
  shows "wp (kv_hgetall H key) Q K"
  unfolding kv_hgetall_def wp_simps
proof (rule wp_is_not_expired [OF r], use i in \<open>simp add: hash_inv_def\<close>, simp only: if_False, unfold wp_simps,
    rule wp_db_entries [OF r])
  fix xs assume xs: "strict_keys xs" "map_of xs = (\<lambda>x. f (H_PREFIX key @ x))"
  then have h: "map_of xs = h" using i by (auto simp: hash_inv_def)
  have "h x = Some v" if "(x, v) \<in> set xs" for x v
    using that strict_keys_distinct [OF xs(1)] h by auto
  then have "rmap (decode_field (H_PREFIX key)) (map (\<lambda>(x, v). (H_PREFIX key @ x, v)) xs) = Inr xs"
    using i by (intro rmap_decode_field) (auto simp: hash_inv_def, blast+)
  then show "wp (lift_res (rmap (decode_field (H_PREFIX key)) (map (\<lambda>(x, v). (H_PREFIX key @ x, v)) xs))) Q K"
    using Q strict_sorted_entries(1) [OF xs(1) h] by simp
qed

lemma wp_hget:
  assumes r: "db_repr H K f n" and i: "hash_inv f key h" and Q: "Q (h x) K"
  shows "wp (kv_hget H key x) Q K"
  unfolding kv_hget_def wp_simps
proof (rule wp_is_not_expired [OF r], use i in \<open>simp add: hash_inv_def\<close>, simp only: if_False, unfold wp_simps,
    rule wp_db_get [OF r])
  have "decode_opt (f (H_PREFIX key @ x)) = Inr (h x)"
    using i by (auto simp: hash_inv_def decode_opt_def py_decode_def split: option.split)
  then show "wp (lift_res (decode_opt (f (H_PREFIX key @ x)))) Q K" using Q by simp
qed

lemma wp_hset:
  assumes r: "db_repr H K f (Suc (Suc n))" and e: "f (EXP_KEY key) = None" and k: "name_ok key" and x: "field_ok x" "text_ok v"
    and Q: "\<And>K'. db_repr H K' (f(H_PREFIX key @ x \<mapsto> v, TYPE_KEY key \<mapsto> ''hash'')) n \<Longrightarrow>
      Q (if f (H_PREFIX key @ x) = None then 1 else 0) K'"
  shows "wp (kv_hset H key x v) Q K"
  unfolding kv_hset_def wp_simps
proof (rule wp_is_not_expired [OF r e], rule wp_db_get [OF r], rule dbs.wp_put [OF r])
  show "key_ok (H_PREFIX key @ x)" "val_ok v" using k x by (simp_all add: prefix_key_ok field_ok_def text_ok_def)
  fix K1 :: kv assume K1: "db_repr H K1 (f(H_PREFIX key @ x \<mapsto> v)) (Suc n)"
  show "wp (db_put H (TYPE_KEY key) ''hash'') (\<lambda>_. Q (if f (H_PREFIX key @ x) = None then 1 else 0)) K1"
    by (rule dbs.wp_put [OF K1]) (use k Q in simp_all)
qed

lemma wp_hdel:
  assumes r: "db_repr H K f (n + length xs)" and i: "hash_inv f key h" and k: "name_ok key" and x: "list_all field_ok xs"
    and Q: "\<And>K'. db_repr H K' (without (H_PREFIX key) xs f) n \<Longrightarrow> Q (card (set xs \<inter> dom h)) K'"
  shows "wp (kv_hdel H key xs) Q K"
  unfolding kv_hdel_def
proof (rule wp_remove_members [OF r])
  show "\<forall>m \<in> set xs. key_ok (H_PREFIX key @ m)"
    using k x by (auto simp: list_all_iff field_ok_def intro: prefix_key_ok)
  fix K' :: kv assume K': "db_repr H K' (without (H_PREFIX key) xs f) n"
  have "{m \<in> set xs. f (H_PREFIX key @ m) \<noteq> None} = set xs \<inter> dom h" using i by (auto simp: hash_inv_def)
  then show "Q (0 + card {m \<in> set xs. f (H_PREFIX key @ m) \<noteq> None}) K'" using Q [OF K'] by simp
qed

lemma hash_inv_set:
  "hash_inv f key h \<Longrightarrow> utf8_valid x \<Longrightarrow> utf8_valid v \<Longrightarrow>
   hash_inv (f(H_PREFIX key @ x \<mapsto> v, TYPE_KEY key \<mapsto> ''hash'')) key (h(x \<mapsto> v))"
  "hash_frame key f (f(H_PREFIX key @ x \<mapsto> v, TYPE_KEY key \<mapsto> ''hash''))"
  by (auto simp: hash_inv_def hash_frame_def startswith_iff)

lemma hash_inv_del:
  "hash_inv f key h \<Longrightarrow> hash_inv (without (H_PREFIX key) xs f) key (h |` (- set xs))"
  "hash_frame key f (without (H_PREFIX key) xs f)"
  by (auto simp: hash_inv_def hash_frame_def without_def startswith_iff restrict_map_def)

lemma hash_finite: "db_repr H K f n \<Longrightarrow> hash_inv f key h \<Longrightarrow> finite (dom h)"
proof -
  assume r: "db_repr H K f n" and i: "hash_inv f key h"
  have "wp (db_prefix (H_PREFIX key)) (\<lambda>_ _. finite (dom h)) K"
  proof (rule wp_db_entries [OF r])
    fix xs assume "map_of xs = (\<lambda>x. f (H_PREFIX key @ x))"
    then have "map_of xs = h" using i by (auto simp: hash_inv_def)
    then show "finite (dom h)" by (metis finite_dom_map_of)
  qed
  then show ?thesis by (auto elim: wpE)
qed

lemma hash_step:
  assumes r: "db_repr H K f (n + hash_cost op)" and i: "hash_inv f key h" and k: "name_ok key" and ok: "hash_op_ok op"
  shows "wp (hash_call H key op) (\<lambda>r K'. r = fst (hash_spec op h) \<and> (\<exists>f'. db_repr H K' f' n \<and>
     hash_inv f' key (snd (hash_spec op h)) \<and> hash_frame key f f')) K"
proof -
  have e: "f (EXP_KEY key) = None" and fin: "finite (dom h)" using i hash_finite [OF r i] by (auto simp: hash_inv_def)
  have same: "\<exists>f'. db_repr H K f' n \<and> hash_inv f' key h \<and> hash_frame key f f'" if "hash_cost op = 0"
    using r i that by (auto intro!: exI [of _ f])
  show ?thesis
  proof (cases op)
    case (HSet x v)
    have r2: "db_repr H K f (Suc (Suc n))" and u: "field_ok x" "text_ok v" "utf8_valid x" "utf8_valid v"
      using r ok HSet by (auto simp: field_ok_def text_ok_def)
    have "f (H_PREFIX key @ x) = h x" using i by (simp add: hash_inv_def)
    then show ?thesis unfolding HSet hash_call.simps wp_simps
      by (intro wp_hset [OF r2 e k u(1,2)]) (use hash_inv_set(1) [OF i u(3,4)] hash_inv_set(2) in auto)
  next
    case (HDel xs)
    then show ?thesis unfolding HDel hash_call.simps wp_simps
      by (intro wp_hdel [OF _ i k]) (use r ok hash_inv_del(1) [OF i] hash_inv_del(2) HDel in auto)
  next
    case (HGet x)
    then show ?thesis unfolding HGet hash_call.simps wp_simps by (intro wp_hget [OF r i]) (use same HGet in simp)
  next
    case (HExists x)
    then show ?thesis unfolding HExists hash_call.simps kv_hexists_def wp_simps by (intro wp_hget [OF r i]) (use same HExists in simp)
  next
    case HGetAll
    then show ?thesis unfolding HGetAll hash_call.simps wp_simps by (intro wp_hgetall [OF r i]) (use same HGetAll in simp)
  next
    case HKeys
    then show ?thesis unfolding HKeys hash_call.simps kv_hkeys_def wp_simps
      by (intro wp_hgetall [OF r i]) (use same HKeys in \<open>simp add: sorted_entries_def comp_def\<close>)
  next
    case HLen
    then show ?thesis unfolding HLen hash_call.simps kv_hlen_def wp_simps
      by (intro wp_hgetall [OF r i]) (use same HLen length_sorted_entries [OF fin] in simp)
  qed
qed

definition hash_holds :: "bytes \<Rightarrow> (bytes \<rightharpoonup> bytes) \<Rightarrow> (bytes \<rightharpoonup> bytes) \<Rightarrow> nat \<Rightarrow> bool" where
  "hash_holds key f h n \<longleftrightarrow> hash_inv f key h \<and> name_ok key"

interpretation hashes: store_commands "db_repr H" "db_put H" "db_del H" "db_read H" db_scan "hash_call H key" hash_spec hash_cost hash_op_ok "hash_holds key" "hash_frame key" for H key
proof
  fix K :: kv and f n op h assume "db_repr H K f (n + hash_cost op)" "hash_holds key f h (n + hash_cost op)" "hash_op_ok op"
  then show "wp (hash_call H key op) (\<lambda>r K'. r = fst (hash_spec op h) \<and>
      (\<exists>f'. db_repr H K' f' n \<and> hash_holds key f' (snd (hash_spec op h)) n \<and> hash_frame key f f')) K"
    using hash_step [of H K f n op key h] by (auto simp: hash_holds_def elim!: wp_mono)
qed (auto intro: hash_frame_trans)

text \<open>Hashes of different names without colons do not share entries.\<close>

lemma hash_apart:
  "CHR '':'' \<notin> set a \<Longrightarrow> CHR '':'' \<notin> set b \<Longrightarrow> a \<noteq> b \<Longrightarrow> \<not> startswith (H_PREFIX b @ x) (H_PREFIX a)"
  using no_colon_prefix [of b a] by (auto simp: startswith_iff H_PREFIX_def)

lemma hash_frame_apart:
  assumes "hash_frame a f f'" "CHR '':'' \<notin> set a" "CHR '':'' \<notin> set b" "a \<noteq> b"
  shows "hash_inv f' b h = hash_inv f b h"
proof -
  have "f' (H_PREFIX b @ x) = f (H_PREFIX b @ x)" for x
    using assms hash_apart [of a b x] by (simp add: hash_frame_def)
  moreover have "\<not> startswith (EXP_KEY b) (H_PREFIX a)" by (auto simp: startswith_iff)
  then have "f' (EXP_KEY b) = f (EXP_KEY b)" using assms(1) by (simp add: hash_frame_def)
  ultimately show ?thesis by (simp add: hash_inv_def)
qed


definition sample_hash_ops :: "hash_op list" where
  "sample_hash_ops = [HSet ''b'' ''1'', HSet ''a'' '''', HSet ''b'' ''2'', HGetAll, HDel [''b'', ''c'', ''b''], HExists ''b'', HGet ''a'', HLen]"

lemma sample_texts: "text_ok ''1''" "text_ok ''2''" "text_ok ''''" "field_ok ''a''" "field_ok ''b''" "field_ok ''c''"
  by (auto simp: text_ok_def val_ok_def TOMBSTONE_def utf8_ascii field_ok_def name_ok_def)


end
