(* ===== verification/KVSet.thy ===== *)
theory KVSet
  imports KVHash
begin

text \<open>
  The set commands of the key-value engine against families of sets: \<open>sets_inv f s\<close> says that for
  every name \<open>k\<close> without a colon the entries of the store \<open>f\<close> under the set prefix of \<open>k\<close> are the
  members of \<open>s k\<close>. The results of the commands over several keys are compared as sets.
\<close>

section \<open>The specification\<close>

datatype set_op =
    SAdd bytes "bytes list"
  | SRem bytes "bytes list"
  | SMembers bytes
  | SIsMember bytes bytes
  | SCard bytes
  | SUnion "bytes list"
  | SInter "bytes list"
  | SDiff "bytes list"

datatype set_answer = Count nat | Truth bool | Members "bytes set"

fun set_call :: "host \<Rightarrow> set_op \<Rightarrow> (kv, set_answer) pym" where
  "set_call H (SAdd key ms) = bnd (kv_sadd H key ms) (\<lambda>n. ret (Count n))"
| "set_call H (SRem key ms) = bnd (kv_srem H key ms) (\<lambda>n. ret (Count n))"
| "set_call H (SMembers key) = bnd (kv_smembers H key) (\<lambda>ms. ret (Members (set ms)))"
| "set_call H (SIsMember key m) = bnd (kv_sismember H key m) (\<lambda>b. ret (Truth b))"
| "set_call H (SCard key) = bnd (kv_scard H key) (\<lambda>n. ret (Count n))"
| "set_call H (SUnion keys) = bnd (kv_sunion H keys) (\<lambda>ms. ret (Members (set ms)))"
| "set_call H (SInter keys) = bnd (kv_sinter H keys) (\<lambda>ms. ret (Members (set ms)))"
| "set_call H (SDiff keys) = bnd (kv_sdiff H keys) (\<lambda>ms. ret (Members (set ms)))"

fun set_spec :: "set_op \<Rightarrow> (bytes \<Rightarrow> bytes set) \<Rightarrow> set_answer \<times> (bytes \<Rightarrow> bytes set)" where
  "set_spec (SAdd key ms) s = (Count (card (set ms - s key)), s(key := s key \<union> set ms))"
| "set_spec (SRem key ms) s = (Count (card (set ms \<inter> s key)), s(key := s key - set ms))"
| "set_spec (SMembers key) s = (Members (s key), s)"
| "set_spec (SIsMember key m) s = (Truth (m \<in> s key), s)"
| "set_spec (SCard key) s = (Count (card (s key)), s)"
| "set_spec (SUnion keys) s = (Members (\<Union> (s ` set keys)), s)"
| "set_spec (SInter keys) s = (Members (if keys = [] then {} else \<Inter> (s ` set keys)), s)"
| "set_spec (SDiff keys) s = (Members (if keys = [] then {} else s (hd keys) - \<Union> (s ` set (tl keys))), s)"

fun set_cost :: "set_op \<Rightarrow> nat" where
  "set_cost (SAdd key ms) = length ms + 1"
| "set_cost (SRem key ms) = length ms"
| "set_cost _ = 0"

definition plain_name :: "bytes \<Rightarrow> bool" where
  "plain_name k \<longleftrightarrow> name_ok k \<and> CHR '':'' \<notin> set k"

fun set_op_ok :: "set_op \<Rightarrow> bool" where
  "set_op_ok (SAdd key ms) = (plain_name key \<and> list_all field_ok ms)"
| "set_op_ok (SRem key ms) = (plain_name key \<and> list_all field_ok ms)"
| "set_op_ok (SMembers key) = plain_name key"
| "set_op_ok (SIsMember key m) = plain_name key"
| "set_op_ok (SCard key) = plain_name key"
| "set_op_ok (SUnion keys) = list_all plain_name keys"
| "set_op_ok (SInter keys) = list_all plain_name keys"
| "set_op_ok (SDiff keys) = list_all plain_name keys"

definition sets_inv :: "(bytes \<rightharpoonup> bytes) \<Rightarrow> (bytes \<Rightarrow> bytes set) \<Rightarrow> bool" where
  "sets_inv f s \<longleftrightarrow> (\<forall>k. CHR '':'' \<notin> set k \<longrightarrow> f (EXP_KEY k) = None \<and>
     (\<forall>x. f (S_PREFIX k @ x) \<noteq> None \<longleftrightarrow> x \<in> s k) \<and> (\<forall>x \<in> s k. utf8_valid x))"

text \<open>Only members of sets and types of keys change.\<close>

definition set_frame :: "(bytes \<rightharpoonup> bytes) \<Rightarrow> (bytes \<rightharpoonup> bytes) \<Rightarrow> bool" where
  "set_frame f f' \<longleftrightarrow> (\<forall>k. (\<forall>key. \<not> startswith k (S_PREFIX key) \<and> k \<noteq> TYPE_KEY key) \<longrightarrow> f' k = f k)"

lemma set_frame_refl [simp]: "set_frame f f"
  and set_frame_trans: "set_frame f g \<Longrightarrow> set_frame g h \<Longrightarrow> set_frame f h"
  by (auto simp: set_frame_def)

section \<open>The commands\<close>

lemma S_PREFIX_inj: "CHR '':'' \<notin> set a \<Longrightarrow> CHR '':'' \<notin> set b \<Longrightarrow> S_PREFIX a @ x = S_PREFIX b @ y \<Longrightarrow> a = b \<and> x = y"
  using no_colon_prefix [of a b x y] by (auto simp: S_PREFIX_def)

lemma sets_invD:
  assumes "sets_inv f s" "plain_name k"
  shows "f (EXP_KEY k) = None" "f (S_PREFIX k @ x) \<noteq> None \<longleftrightarrow> x \<in> s k" "x \<in> s k \<Longrightarrow> utf8_valid x" "name_ok k"
  using assms by (auto simp: sets_inv_def plain_name_def)

lemma wp_smembers:
  assumes r: "db_repr H K f n" and i: "sets_inv f s" and k: "plain_name key"
    and Q: "\<And>ms. distinct ms \<Longrightarrow> set ms = s key \<Longrightarrow> Q ms K"
  shows "wp (kv_smembers H key) Q K"
  unfolding kv_smembers_def wp_simps
proof (rule wp_is_not_expired [OF r sets_invD(1) [OF i k]], simp only: if_False, unfold wp_simps, rule wp_db_entries [OF r])
  fix xs assume xs: "strict_keys xs" "map_of xs = (\<lambda>x. f (S_PREFIX key @ x))"
  have m: "set (map fst xs) = s key"
    using sets_invD(2) [OF i k] xs(2) by (metis (no_types, lifting) dom_map_of_conv_image_fst domIff list.set_map subsetI subset_antisym)
  have "rmap (\<lambda>(k, _). py_decode (drop (length (S_PREFIX key)) k)) (map (\<lambda>(x, v). (S_PREFIX key @ x, v)) ys) = Inr (map fst ys)"
    if "\<forall>x \<in> set (map fst ys). utf8_valid x" for ys :: "(bytes \<times> bytes) list"
    using that by (induction ys) (auto simp: py_decode_def)
  then have "rmap (\<lambda>(k, _). py_decode (drop (length (S_PREFIX key)) k)) (map (\<lambda>(x, v). (S_PREFIX key @ x, v)) xs) = Inr (map fst xs)"
    using sets_invD(3) [OF i k] m by blast
  then show "wp (lift_res (rmap (\<lambda>(k, _). py_decode (drop (length (S_PREFIX key)) k)) (map (\<lambda>(x, v). (S_PREFIX key @ x, v)) xs))) Q K"
    using Q [OF strict_keys_distinct [OF xs(1)] m] by simp
qed

lemma wp_fold_members:
  assumes r: "db_repr H K f n" and i: "sets_inv f s"
  shows "list_all plain_name keys \<Longrightarrow> (\<And>acc ms. set (g acc ms) = G (set acc) (set ms)) \<Longrightarrow>
    (\<And>ms. set ms = foldl G (set acc) (map s keys) \<Longrightarrow> Q ms K) \<Longrightarrow> wp (fold_members g H keys acc) Q K"
proof (induction keys arbitrary: acc)
  case (Cons k ks)
  show ?case unfolding fold_members.simps wp_simps
  proof (rule wp_smembers [OF r i])
    fix ms assume "set ms = s k"
    then show "wp (fold_members g H ks (g acc ms)) Q K" using Cons by (intro Cons.IH) simp_all
  qed (use Cons.prems(1) in simp)
qed simp

lemma foldl_sets:
  "foldl (\<union>) A (map s ks) = A \<union> \<Union> (s ` set ks)"
  "foldl (\<inter>) A (map s ks) = A \<inter> \<Inter> (s ` set ks)"
  "foldl (-) A (map s ks) = A - \<Union> (s ` set ks)"
  by (induction ks arbitrary: A) auto

lemma wp_add_members:
  "db_repr H K f (n + length ms) \<Longrightarrow> \<forall>m \<in> set ms. key_ok (p @ m) \<Longrightarrow>
   (\<And>K' f'. db_repr H K' f' n \<Longrightarrow> (\<forall>k. f' k = (if f k = None \<and> k \<in> (@) p ` set ms then Some ''1'' else f k)) \<Longrightarrow>
      Q (c + card {m \<in> set ms. f (p @ m) = None}) K') \<Longrightarrow>
   wp (add_members H p ms c) Q K"
proof (induction ms arbitrary: K f c)
  case Nil
  from Nil(3) [of K f] Nil(1) show ?case by simp
next
  case (Cons m ms)
  have r: "db_repr H K f (Suc (n + length ms))" using Cons.prems(1) by simp
  have ok: "key_ok (p @ m)" "\<forall>m \<in> set ms. key_ok (p @ m)" using Cons.prems(2) by simp_all
  show ?case unfolding add_members.simps wp_simps
  proof (rule wp_db_get [OF r])
    show "wp (if f (p @ m) = None then sq (db_put H (p @ m) ''1'') (add_members H p ms (c + 1)) else add_members H p ms c) Q K"
    proof (cases "f (p @ m)")
      case (Some v)
      then have s: "{x \<in> set (m # ms). f (p @ x) = None} = {x \<in> set ms. f (p @ x) = None}" by auto
      have "wp (add_members H p ms c) Q K"
      proof (rule Cons.IH [OF dbs.less_room [OF r] ok(2)])
        fix K' :: kv and f' assume "db_repr H K' f' n" "\<forall>k. f' k = (if f k = None \<and> k \<in> (@) p ` set ms then Some ''1'' else f k)"
        then show "Q (c + card {m \<in> set ms. f (p @ m) = None}) K'"
          using Some by (subst s [symmetric], intro Cons.prems(3)) auto
      qed
      then show ?thesis using Some by simp
    next
      case None
      let ?g = "f(p @ m \<mapsto> ''1'')"
      have "{x \<in> set (m # ms). f (p @ x) = None} = insert m {x \<in> set ms. ?g (p @ x) = None}" using None by auto
      moreover have "m \<notin> {x \<in> set ms. ?g (p @ x) = None}" by simp
      ultimately have card: "card {x \<in> set (m # ms). f (p @ x) = None} = Suc (card {x \<in> set ms. ?g (p @ x) = None})" by simp
      have "wp (sq (db_put H (p @ m) ''1'') (add_members H p ms (c + 1))) Q K" unfolding wp_simps
      proof (rule dbs.wp_put [OF r ok(1)])
        show "val_ok ''1''" by (simp add: val_ok_def TOMBSTONE_def)
        fix K1 :: kv assume K1: "db_repr H K1 ?g (n + length ms)"
        show "wp (add_members H p ms (c + 1)) Q K1"
        proof (rule Cons.IH [OF K1 ok(2)])
          fix K' :: kv and f' assume K': "db_repr H K' f' n" "\<forall>k. f' k = (if ?g k = None \<and> k \<in> (@) p ` set ms then Some ''1'' else ?g k)"
          have "Q (c + card {x \<in> set (m # ms). f (p @ x) = None}) K'" by (rule Cons.prems(3) [OF K'(1)]) (use K'(2) None in auto)
          then show "Q (c + 1 + card {x \<in> set ms. ?g (p @ x) = None}) K'"
            by (simp only: card add_Suc_right add_Suc One_nat_def add_0_right)
        qed
      qed
      then show ?thesis using None by simp
    qed
  qed
qed

section \<open>Every command\<close>

lemma set_key_ok: "plain_name key \<Longrightarrow> list_all field_ok ms \<Longrightarrow> \<forall>m \<in> set ms. key_ok (S_PREFIX key @ m)"
  by (auto simp: plain_name_def list_all_iff field_ok_def intro: prefix_key_ok)

lemma sets_inv_upd:
  assumes i: "sets_inv f s" and k: "plain_name key"
    and f': "\<And>x. f' (S_PREFIX key @ x) \<noteq> None \<longleftrightarrow> x \<in> S"
      "\<And>l. \<not> startswith l (S_PREFIX key) \<Longrightarrow> l \<noteq> TYPE_KEY key \<Longrightarrow> f' l = f l"
    and S: "\<And>x. x \<in> S \<Longrightarrow> utf8_valid x"
  shows "sets_inv f' (s(key := S))" "set_frame f f'"
proof -
  have "f' (EXP_KEY b) = f (EXP_KEY b)" for b
    by (rule f'(2)) (auto simp: startswith_iff)
  moreover have "f' (S_PREFIX b @ x) = f (S_PREFIX b @ x)" if "CHR '':'' \<notin> set b" "b \<noteq> key" for b x
  proof (rule f'(2))
    show "\<not> startswith (S_PREFIX b @ x) (S_PREFIX key)"
      using S_PREFIX_inj [of b key x] that k by (auto simp: startswith_iff plain_name_def)
  qed auto
  ultimately show "sets_inv f' (s(key := S))" using i f'(1) S by (simp add: sets_inv_def)
  show "set_frame f f'" using f'(2) by (auto simp: set_frame_def)
qed

lemma wp_sadd:
  assumes r: "db_repr H K f (n + (length ms + 1))" and i: "sets_inv f s" and k: "plain_name key" "list_all field_ok ms"
    and Q: "\<And>K' f'. db_repr H K' f' n \<Longrightarrow> sets_inv f' (s(key := s key \<union> set ms)) \<Longrightarrow> set_frame f f' \<Longrightarrow> Q (card (set ms - s key)) K'"
  shows "wp (kv_sadd H key ms) Q K"
  unfolding kv_sadd_def wp_simps
proof (rule wp_is_not_expired [OF r sets_invD(1) [OF i k(1)]], rule wp_add_members [OF _ set_key_ok [OF k]])
  show "db_repr H K f (Suc n + length ms)" using r by simp
  fix K1 :: kv and f1 assume K1: "db_repr H K1 f1 (Suc n)" and f1: "\<forall>l. f1 l = (if f l = None \<and> l \<in> (@) (S_PREFIX key) ` set ms then Some ''1'' else f l)"
  have c: "{m \<in> set ms. f (S_PREFIX key @ m) = None} = set ms - s key" using sets_invD(2) [OF i k(1)] by blast
  show "wp (db_put H (TYPE_KEY key) ''set'') (\<lambda>_. Q (0 + card {m \<in> set ms. f (S_PREFIX key @ m) = None})) K1"
    unfolding c add_0
  proof (rule dbs.wp_put [OF K1])
    show "key_ok (TYPE_KEY key)" using k(1) by (simp add: plain_name_def)
    show "val_ok ''set''" by (simp add: val_ok_def TOMBSTONE_def)
    fix K2 :: kv assume K2: "db_repr H K2 (f1(TYPE_KEY key \<mapsto> ''set'')) n"
    have "(f1(TYPE_KEY key \<mapsto> ''set'')) (S_PREFIX key @ x) \<noteq> None \<longleftrightarrow> x \<in> s key \<union> set ms" for x
      using f1 sets_invD(2) [OF i k(1), of x] by auto
    moreover have "(f1(TYPE_KEY key \<mapsto> ''set'')) l = f l" if "\<not> startswith l (S_PREFIX key)" "l \<noteq> TYPE_KEY key" for l
      using f1 that by auto
    moreover have "utf8_valid x" if "x \<in> s key \<union> set ms" for x
      using that k(2) sets_invD(3) [OF i k(1)] by (auto simp: list_all_iff field_ok_def)
    ultimately show "Q (card (set ms - s key)) K2" using Q [OF K2] sets_inv_upd [OF i k(1)] by blast
  qed
qed

lemma wp_srem:
  assumes r: "db_repr H K f (n + length ms)" and i: "sets_inv f s" and k: "plain_name key" "list_all field_ok ms"
    and Q: "\<And>K' f'. db_repr H K' f' n \<Longrightarrow> sets_inv f' (s(key := s key - set ms)) \<Longrightarrow> set_frame f f' \<Longrightarrow> Q (card (set ms \<inter> s key)) K'"
  shows "wp (kv_srem H key ms) Q K"
  unfolding kv_srem_def
proof (rule wp_remove_members [OF r set_key_ok [OF k]])
  fix K' :: kv assume K': "db_repr H K' (without (S_PREFIX key) ms f) n"
  have c: "{m \<in> set ms. f (S_PREFIX key @ m) \<noteq> None} = set ms \<inter> s key" using sets_invD(2) [OF i k(1)] by blast
  have "without (S_PREFIX key) ms f (S_PREFIX key @ x) \<noteq> None \<longleftrightarrow> x \<in> s key - set ms" for x
    using sets_invD(2) [OF i k(1), of x] by (auto simp: without_def)
  moreover have "without (S_PREFIX key) ms f l = f l" if "\<not> startswith l (S_PREFIX key)" "l \<noteq> TYPE_KEY key" for l
    using that by (auto simp: without_def)
  ultimately show "Q (0 + card {m \<in> set ms. f (S_PREFIX key @ m) \<noteq> None}) K'"
    unfolding c add_0 using Q [OF K'] sets_inv_upd [OF i k(1)] sets_invD(3) [OF i k(1)] by blast
qed

lemma sets_step:
  assumes r: "db_repr H K f (n + set_cost op)" and i: "sets_inv f s" and ok: "set_op_ok op"
  shows "wp (set_call H op) (\<lambda>r K'. r = fst (set_spec op s) \<and> (\<exists>f'. db_repr H K' f' n \<and>
     sets_inv f' (snd (set_spec op s)) \<and> set_frame f f')) K"
proof -
  have same: "\<exists>f'. db_repr H K f' n \<and> sets_inv f' s \<and> set_frame f f'" if "set_cost op = 0"
    using r i that by (auto intro!: exI [of _ f])
  show ?thesis
  proof (cases op)
    case (SAdd key ms)
    then show ?thesis unfolding SAdd set_call.simps wp_simps by (intro wp_sadd [OF _ i]) (use r ok SAdd in auto)
  next
    case (SRem key ms)
    then show ?thesis unfolding SRem set_call.simps wp_simps by (intro wp_srem [OF _ i]) (use r ok SRem in auto)
  next
    case (SMembers key)
    then show ?thesis unfolding SMembers set_call.simps wp_simps by (intro wp_smembers [OF r i]) (use same ok SMembers in simp_all)
  next
    case (SIsMember key m)
    then have k: "plain_name key" using ok by simp
    show ?thesis unfolding SIsMember set_call.simps kv_sismember_def wp_simps
      by (rule wp_is_not_expired [OF r sets_invD(1) [OF i k]], simp only: if_False, unfold wp_simps, rule wp_db_get [OF r])
        (use same SIsMember sets_invD(2) [OF i k, of m] in simp)
  next
    case (SCard key)
    then show ?thesis unfolding SCard set_call.simps kv_scard_def wp_simps
      by (intro wp_smembers [OF r i]) (use same ok SCard in \<open>auto simp: distinct_card [symmetric]\<close>)
  next
    case (SUnion keys)
    then show ?thesis unfolding SUnion set_call.simps kv_sunion_def wp_simps
      by (intro wp_fold_members [OF r i, where G = "(\<union>)"]) (use same ok SUnion in \<open>auto simp: foldl_sets(1)\<close>)
  next
    case (SInter keys)
    show ?thesis
    proof (cases keys)
      case Nil
      then show ?thesis using same SInter by (simp add: kv_sinter_def)
    next
      case (Cons k ks)
      show ?thesis unfolding SInter set_call.simps kv_sinter_def Cons list.case wp_simps
        by (intro wp_smembers [OF r i] wp_fold_members [OF r i, where G = "(\<inter>)"]) (use same ok SInter Cons in \<open>auto simp: foldl_sets(2)\<close>)
    qed
  next
    case (SDiff keys)
    show ?thesis
    proof (cases keys)
      case Nil
      then show ?thesis using same SDiff by (simp add: kv_sdiff_def)
    next
      case (Cons k ks)
      show ?thesis unfolding SDiff set_call.simps kv_sdiff_def Cons list.case wp_simps
        by (intro wp_smembers [OF r i] wp_fold_members [OF r i, where G = "(-)"]) (use same ok SDiff Cons in \<open>auto simp: foldl_sets(3)\<close>)
    qed
  qed
qed

interpretation sets: store_commands "db_repr H" "db_put H" "db_del H" "db_read H" db_scan "set_call H" set_spec set_cost set_op_ok "\<lambda>f s n. sets_inv f s" set_frame for H
proof
  fix K :: kv and f n op s assume "db_repr H K f (n + set_cost op)" "sets_inv f s" "set_op_ok op"
  then show "wp (set_call H op) (\<lambda>r K'. r = fst (set_spec op s) \<and>
      (\<exists>f'. db_repr H K' f' n \<and> sets_inv f' (snd (set_spec op s)) \<and> set_frame f f')) K"
    by (rule sets_step)
qed (auto intro: set_frame_trans)

text \<open>
  C22. A client that runs any sequence of set commands, on any names without a colon and an expiry,
  gets what a family of sets would give: how many members are new or gone, membership, and the
  members of a set and of the union, intersection and difference of several. Only members of
  sets and types of keys change.
\<close>

theorem kv_sets_refine:
  assumes "db_repr H K f (n + run_cost set_cost ops)" "sets_inv f s" "list_all set_op_ok ops"
  shows "\<exists>K' f'. map_m (set_call H) ops K = (Inr (fst (run_spec set_spec ops s)), K') \<and> db_repr H K' f' n \<and>
     sets_inv f' (snd (run_spec set_spec ops s)) \<and> set_frame f f'"
  by (rule sets.run [OF assms])

definition sample_set_ops :: "set_op list" where
  "sample_set_ops = [SAdd ''p'' [''b'', ''a'', ''b''], SAdd ''q'' [''b'', ''c''], SAdd ''p'' [''a'', ''c''], SInter [''p'', ''q''],
     SDiff [''p'', ''q''], SRem ''p'' [''b'', ''d''], SCard ''p'', SIsMember ''p'' ''b'', SUnion [''r'', ''q'', ''p'']]"

theorem kv_sets_refine_witness:
  "\<exists>K' f'. map_m (set_call sample_host) sample_set_ops sample_kv =
       (Inr [Count 2, Count 2, Count 1, Members {''b'', ''c''}, Members {''a''}, Count 1, Count 2, Truth False, Members {''a'', ''b'', ''c''}], K') \<and>
     db_repr sample_host K' f' 100 \<and> sets_inv f' ((\<lambda>_. {})(''p'' := {''a'', ''c''}, ''q'' := {''b'', ''c''}))"
proof -
  have c: "run_cost set_cost sample_set_ops = 12" by (simp add: run_cost_def sample_set_ops_def)
  have n: "plain_name ''p''" "plain_name ''q''" "plain_name ''r''" by (simp_all add: plain_name_def name_ok_def)
  have m: "field_ok ''a''" "field_ok ''b''" "field_ok ''c''" "field_ok ''d''" by (auto simp: field_ok_def name_ok_def utf8_ascii)
  have o: "list_all set_op_ok sample_set_ops" using n m by (simp add: sample_set_ops_def)
  have r: "run_spec set_spec sample_set_ops (\<lambda>_. {}) = ([Count 2, Count 2, Count 1, Members {''b'', ''c''}, Members {''a''}, Count 1, Count 2,
      Truth False, Members {''a'', ''b'', ''c''}], (\<lambda>_. {})(''p'' := {''a'', ''c''}, ''q'' := {''b'', ''c''}))"
    by (auto simp: sample_set_ops_def fun_eq_iff card_insert_if)
  have i: "sets_inv Map.empty (\<lambda>_. {})" by (simp add: sets_inv_def)
  show ?thesis
    using kv_sets_refine [of sample_host sample_kv Map.empty 100 sample_set_ops "\<lambda>_. {}"] i o sample_db_repr unfolding r c
    by fastforce
qed

end
