(* ===== verification/KVZset.thy ===== *)
theory KVZset
  imports KVHash
begin

text \<open>
  Sorted sets against maps from members to scores. Scores are stored as their decimal text, so
  the round trip of floats through \<open>str\<close> and \<open>float\<close> is what makes them exact.
\<close>

section \<open>Commands\<close>

datatype zset_op =
    ZAdd "(bytes \<times> f64) list"
  | ZRem "bytes list"
  | ZScore bytes
  | ZRange int int
  | ZRank bytes
  | ZCard

datatype zset_reply =
    ZCount int
  | ZScored "f64 option"
  | ZItems "(bytes \<times> f64) list"
  | ZPlace "nat option"

fun zset_call :: "host \<Rightarrow> bytes \<Rightarrow> zset_op \<Rightarrow> (kv, zset_reply) pym" where
  "zset_call H key (ZAdd ms) = bnd (kv_zadd H key ms) (\<lambda>n. ret (ZCount (int n)))"
| "zset_call H key (ZRem ms) = bnd (kv_zrem H key ms) (\<lambda>n. ret (ZCount (int n)))"
| "zset_call H key (ZScore m) = bnd (kv_zscore H key m) (\<lambda>x. ret (ZScored x))"
| "zset_call H key (ZRange a b) = bnd (kv_zrange H key a b) (\<lambda>items. ret (ZItems items))"
| "zset_call H key (ZRank m) = bnd (kv_zrank H key m) (\<lambda>i. ret (ZPlace i))"
| "zset_call H key ZCard = bnd (kv_zcard H key) (\<lambda>n. ret (ZCount (int n)))"

section \<open>The order of a sorted set\<close>

text \<open>The members by ascending score, equal scores by member.\<close>

definition by_score :: "bytes \<times> f64 \<Rightarrow> int \<times> bytes" where
  "by_score = (\<lambda>(m, x). (f64_rank x, m))"

definition zset_items :: "(bytes \<rightharpoonup> f64) \<Rightarrow> (bytes \<times> f64) list" where
  "zset_items z = sort_key by_score (sorted_entries z)"

definition item_rank :: "bytes \<Rightarrow> (bytes \<times> f64) list \<Rightarrow> nat option" where
  "item_rank m items = (let i = length (takeWhile (\<lambda>(m', _). m' \<noteq> m) items) in if i < length items then Some i else None)"

fun zset_spec :: "zset_op \<Rightarrow> (bytes \<rightharpoonup> f64) \<Rightarrow> zset_reply \<times> (bytes \<rightharpoonup> f64)" where
  "zset_spec (ZAdd ms) z = (ZCount (int (card (fst ` set ms - dom z))), z ++ map_of ms)"
| "zset_spec (ZRem ms) z = (ZCount (int (card (set ms \<inter> dom z))), z |` (- set ms))"
| "zset_spec (ZScore m) z = (ZScored (z m), z)"
| "zset_spec (ZRange a b) z = (ZItems (list_range a b (zset_items z)), z)"
| "zset_spec (ZRank m) z = (ZPlace (item_rank m (zset_items z)), z)"
| "zset_spec ZCard z = (ZCount (int (card (dom z))), z)"

fun zset_cost :: "zset_op \<Rightarrow> nat" where
  "zset_cost (ZAdd ms) = length ms + 1"
| "zset_cost (ZRem ms) = length ms"
| "zset_cost _ = 0"

text \<open>The argument of \<open>zadd\<close> is a dict, so its members are distinct.\<close>

fun zset_op_ok :: "zset_op \<Rightarrow> bool" where
  "zset_op_ok (ZAdd ms) = (distinct (map fst ms) \<and> list_all (\<lambda>(m, x). field_ok m \<and> \<not> f64_nan x) ms)"
| "zset_op_ok (ZRem ms) = list_all field_ok ms"
| "zset_op_ok _ = True"

definition zset_inv :: "(bytes \<rightharpoonup> bytes) \<Rightarrow> bytes \<Rightarrow> (bytes \<rightharpoonup> f64) \<Rightarrow> bool" where
  "zset_inv f key z \<longleftrightarrow> (\<forall>m. f (Z_PREFIX key @ m) = map_option str_float (z m)) \<and> f (EXP_KEY key) = None \<and>
     (\<forall>m x. z m = Some x \<longrightarrow> utf8_valid m \<and> \<not> f64_nan x)"

definition zset_frame :: "bytes \<Rightarrow> (bytes \<rightharpoonup> bytes) \<Rightarrow> (bytes \<rightharpoonup> bytes) \<Rightarrow> bool" where
  "zset_frame key f f' \<longleftrightarrow> (\<forall>k. \<not> startswith k (Z_PREFIX key) \<longrightarrow> k \<noteq> TYPE_KEY key \<longrightarrow> f' k = f k)"

lemma zset_frame_refl [simp]: "zset_frame key f f"
  and zset_frame_trans: "zset_frame key f g \<Longrightarrow> zset_frame key g h \<Longrightarrow> zset_frame key f h"
  by (auto simp: zset_frame_def)

section \<open>Scores as texts\<close>

lemma utf8_str_float: "utf8_valid (str_float x)"
  by (rule utf8_ascii) (use str_float_ascii in blast)

lemma decode_score_str: "\<not> f64_nan x \<Longrightarrow> decode_score (str_float x) = Inr x"
  by (simp add: decode_score_def py_decode_def utf8_str_float float_res_def py_float_str_float)

lemma score_val_ok: "\<not> f64_nan x \<Longrightarrow> val_ok (str_float x)"
proof -
  assume "\<not> f64_nan x"
  then have "py_float (str_float x) \<noteq> None" by (simp add: py_float_str_float)
  moreover have "py_float TOMBSTONE = None"
    by (simp add: TOMBSTONE_def py_float_def strip_def is_space_def read_unsigned_def lower_def lower_char_def
        read_decimal_def is_digit_def)
  ultimately have "str_float x \<noteq> TOMBSTONE" by metis
  then show ?thesis using str_float_length [of x] by (simp add: val_ok_def)
qed

lemma rmap_decode_member:
  assumes "\<forall>(m, v) \<in> set xs. utf8_valid m \<and> (\<exists>x. z m = Some x \<and> v = str_float x \<and> \<not> f64_nan x)"
  shows "rmap (decode_member p) (map (\<lambda>(m, v). (p @ m, v)) xs) = Inr (map (\<lambda>(m, v). (m, the (z m))) xs)"
  using assms by (induction xs) (auto simp: decode_member_def py_decode_def decode_score_str)

lemma map_zset_items:
  assumes "strict_keys xs" "map_of xs = (\<lambda>m. map_option str_float (z m))"
  shows "map (\<lambda>(m, v). (m, the (z m))) xs = sorted_entries z"
proof -
  have d: "dom (\<lambda>m. map_option str_float (z m)) = dom z" by (auto simp: dom_def)
  have "map fst xs = sorted_list_of_set (dom z)" using strict_sorted_entries(2) [OF assms] unfolding d .
  then have "map (\<lambda>m. (m, the (z m))) (map fst xs) = sorted_entries z" by (simp add: sorted_entries_def)
  moreover have "map (\<lambda>m. (m, the (z m))) (map fst xs) = map (\<lambda>(m, v). (m, the (z m))) xs" by (simp add: case_prod_beta)
  ultimately show ?thesis by simp
qed

lemma zrange_slice:
  "(let len = int (length (xs :: 'v list)); a = norm_start len start; b = norm_stop len stop
    in if len = 0 then [] else if a \<le> b then py_slice_int xs a (b + 1) else []) = list_range start stop xs"
proof -
  let ?n = "int (length xs)"
  have "py_slice_int xs a (b + 1) = take (nat (b - a + 1)) (drop (nat a) xs)" if "0 \<le> a" "a \<le> b" "b < ?n" for a b
  proof -
    have "nat (b - a + 1) = nat (b + 1) - nat a" using that by simp
    then show ?thesis using that by (simp add: py_slice_int_def py_slice_def clamp_def Let_def drop_take)
  qed
  moreover have "0 \<le> norm_start ?n start" "norm_stop ?n stop < ?n" if "xs \<noteq> []"
    using that by (auto simp: norm_start_def norm_stop_def)
  moreover have "list_range start stop xs = (if norm_stop ?n stop < norm_start ?n start then []
      else take (nat (norm_stop ?n stop - norm_start ?n start + 1)) (drop (nat (norm_start ?n start)) xs))"
    by (simp add: list_range_def norm_start_def norm_stop_def Let_def)
  ultimately show ?thesis by (cases "xs = []") (simp_all add: Let_def)
qed

section \<open>The commands against the specification\<close>

lemma zset_count: "{m \<in> A. map_option str_float (z m) \<noteq> None} = A \<inter> dom z"
  by auto

lemma wp_add_scores:
  "db_repr H K f (n + length ms) \<Longrightarrow> distinct (map fst ms) \<Longrightarrow> \<forall>(m, x) \<in> set ms. key_ok (p @ m) \<and> \<not> f64_nan x \<Longrightarrow>
   (\<And>K' f'. db_repr H K' f' n \<Longrightarrow> (\<forall>k. f' k = (if startswith k p \<and> drop (length p) k \<in> fst ` set ms
        then map_option str_float (map_of ms (drop (length p) k)) else f k)) \<Longrightarrow>
      Q (c + card {m \<in> fst ` set ms. f (p @ m) = None}) K') \<Longrightarrow>
   wp (add_scores H p ms c) Q K"
proof (induction ms arbitrary: K f c)
  case Nil
  from Nil(4) [of K f] Nil(1) show ?case by simp
next
  case (Cons mx ms)
  obtain m x where mx: "mx = (m, x)" by fastforce
  have m: "m \<notin> fst ` set ms" "distinct (map fst ms)" "key_ok (p @ m)" "\<not> f64_nan x" "\<forall>(m, x) \<in> set ms. key_ok (p @ m) \<and> \<not> f64_nan x"
    using Cons.prems(2,3) by (auto simp: mx)
  let ?g = "f(p @ m \<mapsto> str_float x)"
  let ?c = "if f (p @ m) = None then c + 1 else c"
  have r: "db_repr H K f (Suc (n + length ms))" using Cons.prems(1) by simp
  have same: "{k \<in> fst ` set ms. ?g (p @ k) = None} = {k \<in> fst ` set ms. f (p @ k) = None}" using m(1) by auto
  have fin: "finite {k \<in> fst ` set ms. f (p @ k) = None}" by simp
  have all: "{k \<in> fst ` set (mx # ms). f (p @ k) = None} =
      (if f (p @ m) = None then insert m {k \<in> fst ` set ms. f (p @ k) = None} else {k \<in> fst ` set ms. f (p @ k) = None})"
    by (auto simp: mx)
  have card: "c + card {k \<in> fst ` set (mx # ms). f (p @ k) = None} = ?c + card {k \<in> fst ` set ms. ?g (p @ k) = None}"
    unfolding same all using m(1) fin by simp
  show ?case unfolding mx add_scores.simps wp_simps
  proof (rule wp_db_get [OF r], rule dbs.wp_put [OF r m(3) score_val_ok [OF m(4)]])
    fix K1 :: kv assume K1: "db_repr H K1 ?g (n + length ms)"
    show "wp (add_scores H p ms ?c) Q K1"
    proof (rule Cons.IH [OF K1 m(2,5)])
      fix K' :: kv and f' assume K': "db_repr H K' f' n" "\<forall>k. f' k = (if startswith k p \<and> drop (length p) k \<in> fst ` set ms
        then map_option str_float (map_of ms (drop (length p) k)) else ?g k)"
      have "f' k = (if startswith k p \<and> drop (length p) k \<in> fst ` set (mx # ms)
        then map_option str_float (map_of (mx # ms) (drop (length p) k)) else f k)" for k
        using K'(2) m(1) by (auto simp: mx startswith_iff)
      then show "Q (?c + card {m \<in> fst ` set ms. ?g (p @ m) = None}) K'"
        using Cons.prems(4) [OF K'(1)] unfolding card by blast
    qed
  qed
qed

lemma wp_zadd:
  assumes r: "db_repr H K f (n + length ms + 1)" and i: "zset_inv f key z" and k: "name_ok key"
    and ok: "zset_op_ok (ZAdd ms)"
    and Q: "\<And>K' f'. db_repr H K' f' n \<Longrightarrow> zset_inv f' key (z ++ map_of ms) \<Longrightarrow> zset_frame key f f' \<Longrightarrow> Q (card (fst ` set ms - dom z)) K'"
  shows "wp (kv_zadd H key ms) Q K"
proof -
  have e: "f (EXP_KEY key) = None" using i by (simp add: zset_inv_def)
  have ms: "distinct (map fst ms)" "\<forall>(m, x) \<in> set ms. key_ok (Z_PREFIX key @ m) \<and> \<not> f64_nan x"
    using ok k by (auto simp: list_all_iff field_ok_def intro!: prefix_key_ok)
  have z: "utf8_valid m \<and> \<not> f64_nan x" if "(z ++ map_of ms) m = Some x" for m x
    using that ok i by (auto simp: zset_inv_def list_all_iff field_ok_def map_add_Some_iff dest!: map_of_SomeD)
  have r1: "db_repr H K f (Suc n + length ms)" using r by simp
  show ?thesis unfolding kv_zadd_def wp_simps
  proof (rule wp_is_not_expired [OF r e], rule wp_add_scores [OF r1 ms])
    fix K1 :: kv and f1 assume K1: "db_repr H K1 f1 (Suc n)" and f1: "\<forall>k. f1 k = (if startswith k (Z_PREFIX key) \<and> drop (length (Z_PREFIX key)) k \<in> fst ` set ms
        then map_option str_float (map_of ms (drop (length (Z_PREFIX key)) k)) else f k)"
    have nz: "\<not> startswith (TYPE_KEY key) (Z_PREFIX key)" "\<not> startswith (EXP_KEY key) (Z_PREFIX key)"
      by (auto simp: startswith_iff)
    have c: "{m \<in> fst ` set ms. f (Z_PREFIX key @ m) = None} = fst ` set ms - dom z"
      using i by (auto simp: zset_inv_def)
    show "wp (db_put H (TYPE_KEY key) ''zset'') (\<lambda>_. Q (0 + card {m \<in> fst ` set ms. f (Z_PREFIX key @ m) = None})) K1"
      unfolding c add_0
    proof (rule dbs.wp_put [OF K1])
      fix K2 :: kv assume K2: "db_repr H K2 (f1(TYPE_KEY key \<mapsto> ''zset'')) n"
      have "(f1(TYPE_KEY key \<mapsto> ''zset'')) (Z_PREFIX key @ m) = map_option str_float ((z ++ map_of ms) m)" for m
        using f1 i by (auto simp: zset_inv_def startswith_iff map_add_def map_of_eq_None_iff split: option.split)
          (metis (no_types, lifting) map_of_eq_None_iff option.distinct(1))
      then have "zset_inv (f1(TYPE_KEY key \<mapsto> ''zset'')) key (z ++ map_of ms)"
        using z f1 nz(2) e by (simp add: zset_inv_def)
      moreover have "zset_frame key f (f1(TYPE_KEY key \<mapsto> ''zset''))" using f1 by (simp add: zset_frame_def)
      ultimately show "Q (card (fst ` set ms - dom z)) K2" by (rule Q [OF K2])
    qed (use k in simp_all)
  qed
qed

lemma zset_inv_del:
  "zset_inv f key z \<Longrightarrow> zset_inv (without (Z_PREFIX key) ms f) key (z |` (- set ms))"
  "zset_frame key f (without (Z_PREFIX key) ms f)"
  by (auto simp: zset_inv_def zset_frame_def without_def startswith_iff restrict_map_def)

lemma wp_zrem:
  assumes r: "db_repr H K f (n + length ms)" and i: "zset_inv f key z" and k: "name_ok key" and x: "list_all field_ok ms"
    and Q: "\<And>K'. db_repr H K' (without (Z_PREFIX key) ms f) n \<Longrightarrow> Q (card (set ms \<inter> dom z)) K'"
  shows "wp (kv_zrem H key ms) Q K"
  unfolding kv_zrem_def
proof (rule wp_remove_members [OF r])
  show "\<forall>m \<in> set ms. key_ok (Z_PREFIX key @ m)"
    using k x by (auto simp: list_all_iff field_ok_def intro: prefix_key_ok)
  fix K' :: kv assume K': "db_repr H K' (without (Z_PREFIX key) ms f) n"
  have "{m \<in> set ms. f (Z_PREFIX key @ m) \<noteq> None} = set ms \<inter> dom z" using i by (auto simp: zset_inv_def)
  then show "Q (0 + card {m \<in> set ms. f (Z_PREFIX key @ m) \<noteq> None}) K'" using Q [OF K'] by simp
qed

lemma wp_zscore:
  assumes r: "db_repr H K f n" and i: "zset_inv f key z" and Q: "Q (z m) K"
  shows "wp (kv_zscore H key m) Q K"
  unfolding kv_zscore_def wp_simps
proof (rule wp_is_not_expired [OF r], use i in \<open>simp add: zset_inv_def\<close>, simp only: if_False, unfold wp_simps,
    rule wp_db_get [OF r])
  have "f (Z_PREFIX key @ m) = map_option str_float (z m)" using i by (simp add: zset_inv_def)
  then show "wp (case f (Z_PREFIX key @ m) of None \<Rightarrow> ret None
      | Some v \<Rightarrow> bnd (lift_res (decode_score v)) (\<lambda>x. ret (Some x))) Q K"
    using i Q by (cases "z m") (auto simp: zset_inv_def decode_score_str)
qed

lemma wp_zrange:
  assumes r: "db_repr H K f n" and i: "zset_inv f key z" and Q: "Q (list_range a b (zset_items z)) K"
  shows "wp (kv_zrange H key a b) Q K"
  unfolding kv_zrange_def wp_simps
proof (rule wp_is_not_expired [OF r], use i in \<open>simp add: zset_inv_def\<close>, simp only: if_False, unfold wp_simps,
    rule wp_db_entries [OF r])
  fix xs assume xs: "strict_keys xs" "map_of xs = (\<lambda>m. f (Z_PREFIX key @ m))"
  then have z: "map_of xs = (\<lambda>m. map_option str_float (z m))" using i by (auto simp: zset_inv_def)
  have "\<forall>(m, v) \<in> set xs. utf8_valid m \<and> (\<exists>x. z m = Some x \<and> v = str_float x \<and> \<not> f64_nan x)"
  proof clarify
    fix m v assume "(m, v) \<in> set xs"
    then have "map_of xs m = Some v" using strict_keys_distinct [OF xs(1)] by simp
    then obtain x where "z m = Some x" "v = str_float x" by (auto simp: z)
    with i show "utf8_valid m \<and> (\<exists>x. z m = Some x \<and> v = str_float x \<and> \<not> f64_nan x)" by (auto simp: zset_inv_def)
  qed
  note d = rmap_decode_member [OF this, of "Z_PREFIX key"] map_zset_items [OF xs(1) z]
  have "length (zset_items z) = length (sorted_entries z)" by (simp add: zset_items_def)
  note s = zrange_slice [of "zset_items z" a b, unfolded this zset_items_def by_score_def]
  show "wp (lift_res (rmap (decode_member (Z_PREFIX key)) (map (\<lambda>(m, v). (Z_PREFIX key @ m, v)) xs)))
     (\<lambda>items. wp (let sorted = sort_key (\<lambda>(m, x). (f64_rank x, m)) items; len = int (length items);
         a = norm_start len a; b = norm_stop len b
       in ret (if len = 0 then [] else if a \<le> b then py_slice_int sorted a (b + 1) else [])) Q) K"
    unfolding d wp_simps using Q s by (simp add: Let_def zset_items_def by_score_def)
qed

lemma zset_finite: "db_repr H K f n \<Longrightarrow> zset_inv f key z \<Longrightarrow> finite (dom z)"
proof -
  assume r: "db_repr H K f n" and i: "zset_inv f key z"
  have "wp (db_prefix (Z_PREFIX key)) (\<lambda>_ _. finite (dom z)) K"
  proof (rule wp_db_entries [OF r])
    fix xs assume "map_of xs = (\<lambda>x. f (Z_PREFIX key @ x))"
    then have "map_of xs = (\<lambda>m. map_option str_float (z m))" using i by (auto simp: zset_inv_def)
    then have "dom z = dom (map_of xs)" by (auto simp: dom_def)
    then show "finite (dom z)" by (simp add: finite_dom_map_of)
  qed
  then show ?thesis by (auto elim: wpE)
qed

lemma list_range_all: "list_range 0 (-1) xs = xs"
  by (auto simp: list_range_def Let_def)

lemma length_zset_items: "length (zset_items z) = card (dom z)"
  by (simp add: zset_items_def sorted_entries_def)

definition zset_holds :: "bytes \<Rightarrow> (bytes \<rightharpoonup> bytes) \<Rightarrow> (bytes \<rightharpoonup> f64) \<Rightarrow> nat \<Rightarrow> bool" where
  "zset_holds key f z n \<longleftrightarrow> zset_inv f key z \<and> name_ok key"

lemma zset_step:
  assumes r: "db_repr H K f (n + zset_cost op)" and i: "zset_inv f key z" and k: "name_ok key" and ok: "zset_op_ok op"
  shows "wp (zset_call H key op) (\<lambda>r K'. r = fst (zset_spec op z) \<and> (\<exists>f'. db_repr H K' f' n \<and>
     zset_inv f' key (snd (zset_spec op z)) \<and> zset_frame key f f')) K"
proof -
  have same: "\<exists>f'. db_repr H K f' n \<and> zset_inv f' key z \<and> zset_frame key f f'" if "zset_cost op = 0"
    using r i that by (auto intro!: exI [of _ f])
  show ?thesis
  proof (cases op)
    case (ZAdd ms)
    have "db_repr H K f (n + length ms + 1)" using r ZAdd by simp
    then show ?thesis unfolding ZAdd zset_call.simps wp_simps
      by (rule wp_zadd [OF _ i k ok [unfolded ZAdd]]) auto
  next
    case (ZRem ms)
    then show ?thesis unfolding ZRem zset_call.simps wp_simps
      by (intro wp_zrem [OF _ i k]) (use r ok zset_inv_del(1) [OF i] zset_inv_del(2) ZRem in auto)
  next
    case (ZScore m)
    then show ?thesis unfolding ZScore zset_call.simps wp_simps by (intro wp_zscore [OF r i]) (use same ZScore in simp)
  next
    case (ZRange a b)
    then show ?thesis unfolding ZRange zset_call.simps wp_simps by (intro wp_zrange [OF r i]) (use same ZRange in simp)
  next
    case (ZRank m)
    then show ?thesis unfolding ZRank zset_call.simps kv_zrank_def wp_simps
      by (intro wp_zrange [OF r i]) (use same ZRank in \<open>simp add: list_range_all item_rank_def\<close>)
  next
    case ZCard
    then show ?thesis unfolding ZCard zset_call.simps kv_zcard_def wp_simps
      by (intro wp_zrange [OF r i]) (use same ZCard in \<open>simp add: list_range_all length_zset_items\<close>)
  qed
qed

interpretation zsets: store_commands "db_repr H" "db_put H" "db_del H" "db_read H" db_scan "zset_call H key" zset_spec zset_cost zset_op_ok "zset_holds key" "zset_frame key" for H key
proof
  fix K :: kv and f n op z assume "db_repr H K f (n + zset_cost op)" "zset_holds key f z (n + zset_cost op)" "zset_op_ok op"
  then show "wp (zset_call H key op) (\<lambda>r K'. r = fst (zset_spec op z) \<and>
      (\<exists>f'. db_repr H K' f' n \<and> zset_holds key f' (snd (zset_spec op z)) n \<and> zset_frame key f f')) K"
    using zset_step [of H K f n op key z] by (auto simp: zset_holds_def elim!: wp_mono)
qed (auto intro: zset_frame_trans)


abbreviation F1 :: f64 where "F1 \<equiv> 0x3FF0000000000000"
abbreviation F2 :: f64 where "F2 \<equiv> 0x4000000000000000"

definition sample_zset_ops :: "zset_op list" where
  "sample_zset_ops = [ZAdd [(''b'', F2), (''c'', F1)], ZAdd [(''a'', F1), (''b'', F2)], ZRange 0 (-1), ZRank ''b'', ZScore ''b'',
     ZRem [''a'', ''x''], ZCard]"

lemma float_facts: "\<not> f64_nan F1" "\<not> f64_nan F2" "f64_rank F1 < f64_rank F2"
  by (simp_all add: f64_nan_def f64_exp_def f64_mant_def f64_rank_def f64_sign_def)


end
