(* ===== verification/KVFaults.thy ===== *)
theory KVFaults
  imports KVZset
begin

text \<open>
  What the key-value engine does across keys and types: expiry, deletion by prefix, and values
  of another type under the same name.
\<close>

section \<open>Removing a key\<close>

text \<open>The map without the entries under a prefix.\<close>

definition off_prefix :: "bytes \<Rightarrow> (bytes \<rightharpoonup> bytes) \<Rightarrow> (bytes \<rightharpoonup> bytes)" where
  "off_prefix p f = (\<lambda>k. if startswith k p then None else f k)"

definition under_prefix :: "bytes \<Rightarrow> (bytes \<rightharpoonup> bytes) \<Rightarrow> bytes set" where
  "under_prefix p f = {k. startswith k p \<and> f k \<noteq> None}"

lemma wp_delete_all:
  "db_repr H (K :: kv) f (n + length es) \<Longrightarrow> \<forall>(k, v) \<in> set es. key_ok k \<Longrightarrow>
   (\<And>K'. db_repr H K' (\<lambda>k. if k \<in> fst ` set es then None else f k) n \<Longrightarrow> Q () K') \<Longrightarrow>
   wp (for_each es (\<lambda>(k, _). db_del H k)) Q K"
proof (induction es arbitrary: K f)
  case Nil
  then show ?case by simp
next
  case (Cons e es)
  obtain k v where e: "e = (k, v)" by fastforce
  have r: "db_repr H K f (Suc (n + length es))" using Cons.prems(1) by simp
  show ?case unfolding for_each.simps wp_simps e case_prod_conv
  proof (rule dbs.wp_del [OF r])
    fix K1 :: kv assume K1: "db_repr H K1 (f(k := None)) (n + length es)"
    have "(\<lambda>j. if j \<in> fst ` set es then None else (f(k := None)) j) = (\<lambda>j. if j \<in> fst ` set (e # es) then None else f j)"
      by (auto simp: e)
    then show "wp (for_each es (\<lambda>(k, _). db_del H k)) Q K1"
      using Cons.prems(2,3) by (intro Cons.IH [OF K1]) auto
  qed (use Cons.prems(2) in \<open>simp add: e\<close>)
qed

lemma wp_purge_prefix:
  assumes r: "db_repr H K f (n + m)" and m: "card (under_prefix p f) \<le> m"
    and Q: "\<And>K'. db_repr H K' (off_prefix p f) n \<Longrightarrow> Q () K'"
  shows "wp (purge_prefix H p) Q K"
  unfolding purge_prefix_def wp_simps
proof (rule wp_db_prefix [OF r])
  fix es assume es: "strict_keys es" "\<And>k. map_of es k = (if startswith k p then f k else None)"
  have d: "fst ` set es = under_prefix p f"
    unfolding dom_map_of_conv_image_fst [symmetric] using es(2) by (auto simp: under_prefix_def split: if_splits)
  then have l: "length es \<le> m"
    using m strict_keys_distinct [OF es(1)] by (metis distinct_card length_map list.set_map)
  have ok: "\<forall>(k, v) \<in> set es. key_ok k"
    using db_repr_key_ok [OF r] d by (force simp: under_prefix_def)
  have "(\<lambda>k. if k \<in> fst ` set es then None else f k) = off_prefix p f"
    by (auto simp: d off_prefix_def under_prefix_def)
  then show "wp (for_each es (\<lambda>(k, _). db_del H k)) Q K"
    using Q l by (intro wp_delete_all [OF dbs.room_le [OF r] ok]) auto
qed

definition without_meta :: "bytes \<Rightarrow> (bytes \<rightharpoonup> bytes) \<Rightarrow> (bytes \<rightharpoonup> bytes)" where
  "without_meta key f = f(TYPE_KEY key := None, EXP_KEY key := None)"

lemma type_texts [simp]: "py_decode ''string'' = Inr ''string''" "py_decode ''hash'' = Inr ''hash''"
    "py_decode ''set'' = Inr ''set''" "py_decode ''zset'' = Inr ''zset''" "py_decode ''list'' = Inr ''list''"
  by (simp_all add: py_decode_def utf8_ascii)

lemma wp_purge_key:
  assumes r: "db_repr H K f (Suc (Suc n))" and k: "name_ok key" and t: "f (TYPE_KEY key) = Some t" "t \<noteq> []" "py_decode t = Inr t"
    and Q: "\<And>K'. db_repr H K' (without_meta key f) n \<Longrightarrow>
      wp (if t = ''string'' then db_del H (V_KEY key)
            else if t = ''hash'' then purge_prefix H (H_PREFIX key)
            else if t = ''list'' then purge_list H key
            else if t = ''set'' then purge_prefix H (S_PREFIX key)
            else if t = ''zset'' then purge_prefix H (Z_PREFIX key)
            else ret ()) Q K'"
  shows "wp (purge_key H key) Q K"
  unfolding purge_key_def wp_simps
proof (rule wp_db_get [OF r], unfold t(1) option.case if_not_P [OF t(2)] t(3) wp_simps, rule dbs.wp_del [OF r])
  fix K1 :: kv assume K1: "db_repr H K1 (f(TYPE_KEY key := None)) (Suc n)"
  show "wp (db_del H (EXP_KEY key)) (\<lambda>_. wp (if t = ''string'' then db_del H (V_KEY key)
            else if t = ''hash'' then purge_prefix H (H_PREFIX key)
            else if t = ''list'' then purge_list H key
            else if t = ''set'' then purge_prefix H (S_PREFIX key)
            else if t = ''zset'' then purge_prefix H (Z_PREFIX key)
            else ret ()) Q) K1"
    by (rule dbs.wp_del [OF K1]) (use k Q in \<open>simp_all add: without_meta_def\<close>)
qed (use k in simp)

lemma wp_kv_set:
  assumes r: "db_repr H K f (Suc (Suc n))" and e: "f (EXP_KEY key) = None" and k: "name_ok key" and v: "val_ok v"
    and Q: "\<And>K'. db_repr H K' (f(V_KEY key \<mapsto> v, TYPE_KEY key \<mapsto> ''string'')) n \<Longrightarrow> Q True K'"
  shows "wp (kv_set H key v None False False) Q K"
proof -
  have 1: "wp (kv_persist H key) (\<lambda>_. Q True) K'" if K': "db_repr H K' (f(V_KEY key \<mapsto> v, TYPE_KEY key \<mapsto> ''string'')) n" for K'
    unfolding kv_persist_def wp_simps by (rule wp_db_get [OF K']) (use Q [OF K'] e in simp)
  have 2: "wp (sq (db_put H (V_KEY key) v) (sq (db_put H (TYPE_KEY key) ''string'') (sq (bnd (kv_persist H key) (\<lambda>_. ret ())) (ret True)))) Q K"
    unfolding wp_simps
  proof (rule dbs.wp_put [OF r])
    fix K1 :: kv assume K1: "db_repr H K1 (f(V_KEY key \<mapsto> v)) (Suc n)"
    show "wp (db_put H (TYPE_KEY key) ''string'') (\<lambda>_. wp (kv_persist H key) (\<lambda>_. Q True)) K1"
      by (rule dbs.wp_put [OF K1]) (use k 1 in simp_all)
  qed (use k v in simp_all)
  have 3: "wp (kv_get H key) (\<lambda>_. Q') K" if "Q' K" for Q'
    unfolding kv_get_def wp_simps
    by (rule wp_is_not_expired [OF r e], simp only: if_False, rule wp_db_get [OF r], rule that)
  show ?thesis unfolding kv_set_def wp_simps
    by (rule wp_is_not_expired [OF r e], simp only: if_False simp_thms option.case, rule 3, rule 2)
qed

lemma wp_ret: "wp (ret x) Q = Q x"
  by (rule ext) simp

lemma wp_kv_delete1:
  assumes r: "db_repr H K f n" and t: "f (TYPE_KEY key) \<noteq> None" and p: "wp (purge_key H key) (\<lambda>_. Q 1) K"
  shows "wp (kv_delete H [key]) Q K"
  unfolding kv_delete_def kv_delete_from.simps wp_simps
  by (rule wp_db_get [OF r]) (use t p in \<open>simp add: wp_ret\<close>)

lemma hget_none: "db_repr H K f n \<Longrightarrow> f (EXP_KEY key) = None \<Longrightarrow> f (H_PREFIX key @ x) = None \<Longrightarrow> kv_hget H key x K = (Inr None, K)"
proof -
  assume r: "db_repr H K f n" and f: "f (EXP_KEY key) = None" "f (H_PREFIX key @ x) = None"
  have "wp (kv_hget H key x) (\<lambda>r s. r = None \<and> s = K) K" unfolding kv_hget_def wp_simps
    by (rule wp_is_not_expired [OF r f(1)], simp only: if_False, unfold wp_simps, rule wp_db_get [OF r])
      (simp add: f(2) decode_opt_def)
  then show ?thesis by (auto elim: wpE)
qed

section \<open>A colon in a name\<close>

lemma colon_prefix: "H_PREFIX (a @ '':'' @ b) @ c = H_PREFIX a @ b @ '':'' @ c"
  by (simp add: H_PREFIX_def)

text \<open>
  The names of hashes and fields are joined with colons that are not escaped, so deleting
  the hash \<open>a\<close> also deletes every field of every hash whose name begins with \<open>a:\<close>, although
  that key still has its type entry.
\<close>

theorem kv_delete_takes_colon_names:
  assumes "db_repr H K f (n + card (under_prefix (H_PREFIX a) f) + 2)" "name_ok a" "f (TYPE_KEY a) = Some ''hash''"
    "f (EXP_KEY (a @ '':'' @ b)) = None" "f (TYPE_KEY (a @ '':'' @ b)) = Some ''hash''"
  shows "\<exists>K'. kv_delete H [a] K = (Inr 1, K') \<and> (\<forall>c. kv_hget H (a @ '':'' @ b) c K' = (Inr None, K')) \<and>
     db_repr H K' (off_prefix (H_PREFIX a) (without_meta a f)) n \<and>
     off_prefix (H_PREFIX a) (without_meta a f) (TYPE_KEY (a @ '':'' @ b)) = Some ''hash''"
proof -
  let ?g = "off_prefix (H_PREFIX a) (without_meta a f)" and ?m = "card (under_prefix (H_PREFIX a) f)"
  have u: "under_prefix (H_PREFIX a) (without_meta a f) = under_prefix (H_PREFIX a) f"
    by (auto simp: under_prefix_def without_meta_def startswith_iff)
  have r: "db_repr H K f (Suc (Suc (n + ?m)))" using assms(1) by simp
  have "wp (kv_delete H [a]) (\<lambda>x K'. x = 1 \<and> db_repr H K' ?g n) K"
  proof (rule wp_kv_delete1 [OF r], simp add: assms(3), rule wp_purge_key [OF r assms(2,3)])
    fix K1 :: kv assume K1: "db_repr H K1 (without_meta a f) (n + ?m)"
    show "wp (if ''hash'' = ''string'' then db_del H (V_KEY a)
            else if ''hash'' = ''hash'' then purge_prefix H (H_PREFIX a)
            else if ''hash'' = ''list'' then purge_list H a
            else if ''hash'' = ''set'' then purge_prefix H (S_PREFIX a)
            else if ''hash'' = ''zset'' then purge_prefix H (Z_PREFIX a)
            else ret ()) (\<lambda>_ K'. 1 = 1 \<and> db_repr H K' ?g n) K1"
      by (simp, rule wp_purge_prefix [OF K1]) (simp_all add: u)
  qed simp_all
  then obtain K' where K': "kv_delete H [a] K = (Inr 1, K')" "db_repr H K' ?g n" by (auto elim!: wpE)
  have e: "?g (EXP_KEY (a @ '':'' @ b)) = None" "?g (H_PREFIX (a @ '':'' @ b) @ c) = None" for c
    using assms(4) by (auto simp: off_prefix_def without_meta_def startswith_iff H_PREFIX_def)
  have "?g (TYPE_KEY (a @ '':'' @ b)) = Some ''hash''"
    using assms(5) by (auto simp: off_prefix_def without_meta_def startswith_iff TYPE_KEY_def EXP_KEY_def H_PREFIX_def)
  with K' hget_none [OF K'(2) e] show ?thesis by blast
qed

theorem kv_delete_takes_colon_names_witness:
  "\<exists>K1 K2 K3. kv_hset sample_host ''a:b'' ''c'' ''1'' sample_kv = (Inr 1, K1) \<and> kv_hset sample_host ''a'' ''x'' ''2'' K1 = (Inr 1, K2) \<and>
     kv_hget sample_host ''a:b'' ''c'' K2 = (Inr (Some ''1''), K2) \<and> kv_delete sample_host [''a''] K2 = (Inr 1, K3) \<and>
     kv_hget sample_host ''a:b'' ''c'' K3 = (Inr None, K3)"
proof -
  let ?f1 = "[H_PREFIX ''a:b'' @ ''c'' \<mapsto> ''1'', TYPE_KEY ''a:b'' \<mapsto> ''hash'']"
  let ?f2 = "?f1(H_PREFIX ''a'' @ ''x'' \<mapsto> ''2'', TYPE_KEY ''a'' \<mapsto> ''hash'')"
  have n: "name_ok ''a:b''" "name_ok ''a''" "field_ok ''x''" by (simp_all add: name_ok_def field_ok_def utf8_ascii)
  have keys: "TYPE_KEY ''a:b'' \<noteq> TYPE_KEY ''a''" "H_PREFIX ''a'' @ ''x'' \<noteq> H_PREFIX ''a:b'' @ ''c''"
    by (simp_all add: TYPE_KEY_def H_PREFIX_def)
  have "wp (kv_hset sample_host ''a:b'' ''c'' ''1'') (\<lambda>x K. x = 1 \<and> db_repr sample_host K ?f1 (0 + 100 + 4)) sample_kv"
    by (rule wp_hset [OF sample_db_repr [of "Suc (Suc (0 + 100 + 4))"]]) (use n sample_texts in simp_all)
  then obtain K1 where K1: "kv_hset sample_host ''a:b'' ''c'' ''1'' sample_kv = (Inr 1, K1)" "db_repr sample_host K1 ?f1 104"
    by (auto elim!: wpE)
  have "wp (kv_hset sample_host ''a'' ''x'' ''2'') (\<lambda>x K. x = 1 \<and> db_repr sample_host K ?f2 102) K1"
    by (rule wp_hset [of _ _ ?f1]) (use K1(2) n keys sample_texts in simp_all)
  then obtain K2 where K2: "kv_hset sample_host ''a'' ''x'' ''2'' K1 = (Inr 1, K2)" "db_repr sample_host K2 ?f2 102"
    by (auto elim!: wpE)
  have i: "?f2 (EXP_KEY (''a'' @ '':'' @ ''b'')) = None" "?f2 (TYPE_KEY ''a'') = Some ''hash''"
    "?f2 (TYPE_KEY (''a'' @ '':'' @ ''b'')) = Some ''hash''" "?f2 (H_PREFIX ''a:b'' @ ''c'') = Some ''1''"
    using keys by simp_all
  have "wp (kv_hget sample_host ''a:b'' ''c'') (\<lambda>r K. r = Some ''1'' \<and> K = K2) K2"
    unfolding kv_hget_def wp_simps
    by (rule wp_is_not_expired [OF K2(2)], use i in simp, simp only: if_False, unfold wp_simps, rule wp_db_get [OF K2(2)])
      (simp only: i(4), simp add: decode_opt_def py_decode_def utf8_ascii)
  then have g: "kv_hget sample_host ''a:b'' ''c'' K2 = (Inr (Some ''1''), K2)" by (auto elim: wpE)
  let ?ks = "{H_PREFIX ''a:b'' @ ''c'', H_PREFIX ''a'' @ ''x''}"
  have "under_prefix (H_PREFIX ''a'') ?f2 \<subseteq> ?ks"
    by (auto simp: under_prefix_def startswith_iff split: if_splits)
  then have "card (under_prefix (H_PREFIX ''a'') ?f2) \<le> card ?ks" by (rule card_mono [rotated]) simp
  also have "card ?ks \<le> 2" by (simp add: card_insert_if)
  finally have "card (under_prefix (H_PREFIX ''a'') ?f2) \<le> 2" .
  then have r: "db_repr sample_host K2 ?f2 (0 + card (under_prefix (H_PREFIX ''a'') ?f2) + 2)"
    by (intro dbs.room_le [OF K2(2)]) simp
  from kv_delete_takes_colon_names [OF r n(2) i(2,1,3)] K1(1) K2(1) g show ?thesis by auto
qed

section \<open>A value of another type\<close>

text \<open>
  \<open>set\<close> on a key that holds a hash changes the type of the key and leaves the fields in
  the store. Deleting the key then removes only the string: \<open>exists\<close> answers 0, but every field
  of the old hash is readable again.
\<close>

theorem kv_set_leaves_hash_fields:
  assumes "db_repr H K f (n + 5)" "hash_inv f key h" "name_ok key" "val_ok v"
  shows "\<exists>K1 K2. kv_set H key v None False False K = (Inr True, K1) \<and> kv_delete H [key] K1 = (Inr 1, K2) \<and>
     kv_exists H [key] K2 = (Inr 0, K2) \<and> (\<forall>x. kv_hget H key x K2 = (Inr (h x), K2))"
proof -
  let ?f1 = "f(V_KEY key \<mapsto> v, TYPE_KEY key \<mapsto> ''string'')"
  let ?f2 = "(without_meta key ?f1)(V_KEY key := None)"
  have r: "db_repr H K f (Suc (Suc (Suc (Suc (Suc n)))))" using assms(1) by (simp add: eval_nat_numeral)
  have e: "f (EXP_KEY key) = None" using assms(2) by (simp add: hash_inv_def)
  have "wp (kv_set H key v None False False) (\<lambda>b K1. b = True \<and> db_repr H K1 ?f1 (Suc (Suc (Suc n)))) K"
    by (rule wp_kv_set [OF r e assms(3,4)]) simp
  then obtain K1 where K1: "kv_set H key v None False False K = (Inr True, K1)" "db_repr H K1 ?f1 (Suc (Suc (Suc n)))"
    by (auto elim!: wpE)
  have "wp (kv_delete H [key]) (\<lambda>x K2. x = 1 \<and> db_repr H K2 ?f2 n) K1"
  proof (rule wp_kv_delete1 [OF K1(2)], simp, rule wp_purge_key [OF K1(2) assms(3)])
    fix K' :: kv assume K': "db_repr H K' (without_meta key ?f1) (Suc n)"
    show "wp (if ''string'' = ''string'' then db_del H (V_KEY key)
            else if ''string'' = ''hash'' then purge_prefix H (H_PREFIX key)
            else if ''string'' = ''list'' then purge_list H key
            else if ''string'' = ''set'' then purge_prefix H (S_PREFIX key)
            else if ''string'' = ''zset'' then purge_prefix H (Z_PREFIX key)
            else ret ()) (\<lambda>_ K2. 1 = 1 \<and> db_repr H K2 ?f2 n) K'"
      by (simp, rule dbs.wp_del [OF K']) (use assms(3) in simp_all)
  qed simp_all
  then obtain K2 where K2: "kv_delete H [key] K1 = (Inr 1, K2)" "db_repr H K2 ?f2 n" by (auto elim!: wpE)
  have i: "hash_inv ?f2 key h" using assms(2) by (simp add: hash_inv_def without_meta_def)
  have "wp (kv_exists H [key]) (\<lambda>x K'. x = 0 \<and> K' = K2) K2"
    unfolding kv_exists_def kv_exists_from.simps wp_simps
    by (rule wp_is_not_expired [OF K2(2)], simp add: without_meta_def, simp only: if_False, unfold wp_simps,
        rule wp_db_get [OF K2(2)]) (simp add: without_meta_def)
  then have x: "kv_exists H [key] K2 = (Inr 0, K2)" by (auto elim: wpE)
  have "kv_hget H key x K2 = (Inr (h x), K2)" for x
  proof -
    have "wp (kv_hget H key x) (\<lambda>r K'. r = h x \<and> K' = K2) K2" by (rule wp_hget [OF K2(2) i]) simp
    then show ?thesis by (auto elim: wpE)
  qed
  with K1(1) K2(1) x show ?thesis by blast
qed

theorem kv_set_leaves_hash_fields_witness:
  "\<exists>K0 K1 K2. kv_hset sample_host ''k'' ''x'' ''1'' sample_kv = (Inr 1, K0) \<and> kv_set sample_host ''k'' ''v'' None False False K0 = (Inr True, K1) \<and>
     kv_delete sample_host [''k''] K1 = (Inr 1, K2) \<and> kv_exists sample_host [''k''] K2 = (Inr 0, K2) \<and>
     kv_hget sample_host ''k'' ''x'' K2 = (Inr (Some ''1''), K2)"
proof -
  let ?f = "[H_PREFIX ''k'' @ ''x'' \<mapsto> ''1'', TYPE_KEY ''k'' \<mapsto> ''hash'']"
  have n: "name_ok ''k''" "field_ok ''x''" "val_ok ''v''" by (simp_all add: name_ok_def field_ok_def utf8_ascii val_ok_def TOMBSTONE_def)
  have "wp (kv_hset sample_host ''k'' ''x'' ''1'') (\<lambda>x K. x = 1 \<and> db_repr sample_host K ?f (0 + 5)) sample_kv"
    by (rule wp_hset [OF sample_db_repr [of "Suc (Suc (0 + 5))"]]) (use n sample_texts in simp_all)
  then obtain K0 where K0: "kv_hset sample_host ''k'' ''x'' ''1'' sample_kv = (Inr 1, K0)" "db_repr sample_host K0 ?f (0 + 5)"
    by (auto elim!: wpE)
  have i: "hash_inv ?f ''k'' [''x'' \<mapsto> ''1'']" by (simp add: hash_inv_def utf8_ascii)
  from kv_set_leaves_hash_fields [OF K0(2) i n(1,3)] K0(1) show ?thesis by fastforce
qed

end
