(* ===== verification/KVString.thy ===== *)
theory KVString
  imports KVFaults
begin

text \<open>
  The string commands of the key-value engine against maps from names to values, in a store that
  holds strings only: \<open>strs_inv f m\<close> says that the values and the types of the store \<open>f\<close> are
  those of \<open>m\<close> and no key expires. Numbers grow by at most \<open>STEP\<close> in a command, which keeps
  their texts in the table format (\<open>counters_ok\<close>).
\<close>

section \<open>The specification\<close>

datatype str_op =
    SetTo bytes bytes bool bool
  | SetNx bytes bytes
  | MSet "(bytes \<times> bytes) list"
  | Get bytes
  | MGet "bytes list"
  | IncrBy bytes int
  | DecrBy bytes int
  | StrLen bytes
  | Delete "bytes list"
  | Exists "bytes list"

datatype str_answer = Done bool | Value "bytes option" | Values "bytes option list" | Number int | Failed py_error

definition rescue :: "(kv, int) pym \<Rightarrow> (kv, str_answer) pym" where
  "rescue c K = (case c K of (Inl e, K') \<Rightarrow> (Inr (Failed e), K') | (Inr n, K') \<Rightarrow> (Inr (Number n), K'))"

fun str_call :: "host \<Rightarrow> str_op \<Rightarrow> (kv, str_answer) pym" where
  "str_call H (SetTo k v nx xx) = bnd (kv_set H k v None nx xx) (\<lambda>b. ret (Done b))"
| "str_call H (SetNx k v) = bnd (kv_setnx H k v) (\<lambda>b. ret (Done b))"
| "str_call H (MSet kvs) = bnd (kv_mset H kvs) (\<lambda>b. ret (Done b))"
| "str_call H (Get k) = bnd (kv_get H k) (\<lambda>v. ret (Value v))"
| "str_call H (MGet ks) = bnd (kv_mget H ks) (\<lambda>vs. ret (Values vs))"
| "str_call H (IncrBy k a) = rescue (kv_incrby H k a)"
| "str_call H (DecrBy k a) = rescue (kv_decrby H k a)"
| "str_call H (StrLen k) = bnd (kv_strlen H k) (\<lambda>n. ret (Number (int n)))"
| "str_call H (Delete ks) = bnd (kv_delete H ks) (\<lambda>n. ret (Number (int n)))"
| "str_call H (Exists ks) = bnd (kv_exists H ks) (\<lambda>n. ret (Number (int n)))"

definition set_spec_if :: "bytes \<Rightarrow> bytes \<Rightarrow> bool \<Rightarrow> bool \<Rightarrow> (bytes \<rightharpoonup> bytes) \<Rightarrow> str_answer \<times> (bytes \<rightharpoonup> bytes)" where
  "set_spec_if k v nx xx m =
     (if nx \<and> m k \<noteq> None \<or> xx \<and> m k = None then (Done False, m) else (Done True, m(k \<mapsto> v)))"

definition incr_spec :: "bytes \<Rightarrow> int \<Rightarrow> (bytes \<rightharpoonup> bytes) \<Rightarrow> str_answer \<times> (bytes \<rightharpoonup> bytes)" where
  "incr_spec k a m = (case (case m k of None \<Rightarrow> Some 0 | Some v \<Rightarrow> py_int v) of
      None \<Rightarrow> (Failed NOT_AN_INTEGER, m) | Some n \<Rightarrow> (Number (n + a), m(k \<mapsto> str_int (n + a))))"

fun str_spec :: "str_op \<Rightarrow> (bytes \<rightharpoonup> bytes) \<Rightarrow> str_answer \<times> (bytes \<rightharpoonup> bytes)" where
  "str_spec (SetTo k v nx xx) m = set_spec_if k v nx xx m"
| "str_spec (SetNx k v) m = set_spec_if k v True False m"
| "str_spec (MSet kvs) m = (Done True, m ++ map_of (rev kvs))"
| "str_spec (Get k) m = (Value (m k), m)"
| "str_spec (MGet ks) m = (Values (map m ks), m)"
| "str_spec (IncrBy k a) m = incr_spec k a m"
| "str_spec (DecrBy k a) m = incr_spec k (- a) m"
| "str_spec (StrLen k) m = (Number (int (case m k of None \<Rightarrow> 0 | Some v \<Rightarrow> if utf8_valid v then str_len v else length v)), m)"
| "str_spec (Delete ks) m = (Number (int (card (set ks \<inter> dom m))), m |` (- set ks))"
| "str_spec (Exists ks) m = (Number (int (length (filter (\<lambda>k. m k \<noteq> None) ks))), m)"

fun str_cost :: "str_op \<Rightarrow> nat" where
  "str_cost (SetTo k v nx xx) = 2"
| "str_cost (SetNx k v) = 2"
| "str_cost (MSet kvs) = 2 * length kvs"
| "str_cost (IncrBy k a) = 2"
| "str_cost (DecrBy k a) = 2"
| "str_cost (Delete ks) = 3 * length ks"
| "str_cost _ = 0"

definition STEP :: int where
  "STEP = 10 ^ 9"

text \<open>A stored text may be long, but if it is a number it is at most \<open>10 ^ 16\<close>.\<close>

definition str_val_ok :: "bytes \<Rightarrow> bool" where
  "str_val_ok v \<longleftrightarrow> val_ok v \<and> (case py_int v of None \<Rightarrow> True | Some i \<Rightarrow> \<bar>i\<bar> \<le> 10 ^ 16)"

fun str_op_ok :: "str_op \<Rightarrow> bool" where
  "str_op_ok (SetTo k v nx xx) = (name_ok k \<and> str_val_ok v)"
| "str_op_ok (SetNx k v) = (name_ok k \<and> str_val_ok v)"
| "str_op_ok (MSet kvs) = list_all (\<lambda>(k, v). name_ok k \<and> str_val_ok v) kvs"
| "str_op_ok (IncrBy k a) = (name_ok k \<and> \<bar>a\<bar> \<le> STEP)"
| "str_op_ok (DecrBy k a) = (name_ok k \<and> \<bar>a\<bar> \<le> STEP)"
| "str_op_ok (Delete ks) = list_all name_ok ks"
| "str_op_ok _ = True"

definition strs_inv :: "(bytes \<rightharpoonup> bytes) \<Rightarrow> (bytes \<rightharpoonup> bytes) \<Rightarrow> bool" where
  "strs_inv f m \<longleftrightarrow> (\<forall>k. f (EXP_KEY k) = None \<and> f (V_KEY k) = m k \<and> f (TYPE_KEY k) = map_option (\<lambda>_. ''string'') (m k))"

definition counters_ok :: "(bytes \<rightharpoonup> bytes) \<Rightarrow> nat \<Rightarrow> bool" where
  "counters_ok m n \<longleftrightarrow> n \<le> 40000000 \<and> (\<forall>k v i. m k = Some v \<longrightarrow> py_int v = Some i \<longrightarrow> \<bar>i\<bar> \<le> 10 ^ 17 - int n * STEP)"

definition strs_hold :: "(bytes \<rightharpoonup> bytes) \<Rightarrow> (bytes \<rightharpoonup> bytes) \<Rightarrow> nat \<Rightarrow> bool" where
  "strs_hold f m n \<longleftrightarrow> strs_inv f m \<and> counters_ok m n"

text \<open>Only values and types of names change.\<close>

definition str_frame :: "(bytes \<rightharpoonup> bytes) \<Rightarrow> (bytes \<rightharpoonup> bytes) \<Rightarrow> bool" where
  "str_frame f f' \<longleftrightarrow> (\<forall>k. (\<forall>key. k \<noteq> V_KEY key \<and> k \<noteq> TYPE_KEY key) \<longrightarrow> f' k = f k)"

lemma str_frame_refl [simp]: "str_frame f f"
  and str_frame_trans: "str_frame f g \<Longrightarrow> str_frame g h \<Longrightarrow> str_frame f h"
  by (auto simp: str_frame_def)

section \<open>The commands\<close>

lemma strs_invD:
  assumes "strs_inv f m"
  shows "f (EXP_KEY k) = None" "f (V_KEY k) = m k" "f (TYPE_KEY k) = map_option (\<lambda>_. ''string'') (m k)"
  using assms by (simp_all add: strs_inv_def)

lemma strs_inv_set: "strs_inv f m \<Longrightarrow> strs_inv (f(V_KEY k \<mapsto> v, TYPE_KEY k \<mapsto> ''string'')) (m(k \<mapsto> v))"
    "str_frame f (f(V_KEY k \<mapsto> v, TYPE_KEY k \<mapsto> ''string''))"
  by (auto simp: strs_inv_def str_frame_def)

lemma counters_mono: "counters_ok m n \<Longrightarrow> n' \<le> n \<Longrightarrow> counters_ok m n'"
  unfolding counters_ok_def STEP_def by (auto simp: algebra_simps) (smt (verit) mult_right_mono of_nat_mono)

lemma counters_set: "counters_ok m n \<Longrightarrow> n' \<le> n \<Longrightarrow> str_val_ok v \<Longrightarrow> counters_ok (m(k \<mapsto> v)) n'"
  using counters_mono [of m n n'] by (auto simp: counters_ok_def str_val_ok_def STEP_def)

lemma wp_get_str: "db_repr H K f n \<Longrightarrow> strs_inv f m \<Longrightarrow> Q (m k) K \<Longrightarrow> wp (kv_get H k) Q K"
  unfolding kv_get_def wp_simps
  by (rule wp_is_not_expired, assumption, erule strs_invD, simp only: if_False, rule wp_db_get, assumption) (simp add: strs_invD)

lemma wp_set_str:
  assumes r: "db_repr H K f (Suc (Suc n))" and i: "strs_inv f m" and k: "name_ok k" "val_ok v"
    and Q: "nx \<and> m k \<noteq> None \<or> xx \<and> m k = None \<Longrightarrow> Q False K"
      "\<And>K'. \<not> (nx \<and> m k \<noteq> None \<or> xx \<and> m k = None) \<Longrightarrow> db_repr H K' (f(V_KEY k \<mapsto> v, TYPE_KEY k \<mapsto> ''string'')) n \<Longrightarrow> Q True K'"
  shows "wp (kv_set H k v None nx xx) Q K"
proof (cases "nx \<and> m k \<noteq> None \<or> xx \<and> m k = None")
  case True
  then show ?thesis unfolding kv_set_def wp_simps
    by (intro wp_is_not_expired [OF r strs_invD(1) [OF i]], simp only: if_False)
      (rule wp_get_str [OF r i], use Q(1) in auto)
next
  case False
  have "wp (kv_set H k v None False False) (\<lambda>b K'. b \<and> db_repr H K' (f(V_KEY k \<mapsto> v, TYPE_KEY k \<mapsto> ''string'')) n) K"
    by (rule wp_kv_set [OF r strs_invD(1) [OF i] k]) simp
  moreover have "kv_get H k K = (Inr (m k), K)" "is_expired H k K = (Inr False, K)"
    using wp_get_str [OF r i, of "\<lambda>v K'. v = m k \<and> K' = K" k] wp_is_not_expired [OF r strs_invD(1) [OF i], of "\<lambda>b K'. \<not> b \<and> K' = K" k]
    by (auto elim!: wpE)
  then have "kv_set H k v None nx xx K = kv_set H k v None False False K" using False by (auto simp: kv_set_def bnd_def)
  ultimately show ?thesis using Q(2) [OF False] by (auto simp: wp_def split: prod.splits sum.splits)
qed

lemma wp_mset:
  "db_repr H K f (n + 2 * length kvs) \<Longrightarrow> strs_inv f m \<Longrightarrow> list_all (\<lambda>(k, v). name_ok k \<and> str_val_ok v) kvs \<Longrightarrow>
   (\<And>K' f'. db_repr H K' f' n \<Longrightarrow> strs_inv f' (m ++ map_of (rev kvs)) \<Longrightarrow> str_frame f f' \<Longrightarrow> Q () K') \<Longrightarrow>
   wp (for_each kvs (\<lambda>(k, v). bnd (kv_set H k v None False False) (\<lambda>_. ret ()))) Q K"
proof (induction kvs arbitrary: K f m)
  case Nil
  from Nil(4) [of K f] Nil(1,2) show ?case by simp
next
  case (Cons e kvs)
  obtain k v where e: "e = (k, v)" by fastforce
  have r: "db_repr H K f (Suc (Suc (n + 2 * length kvs)))" and ok: "name_ok k" "val_ok v" using Cons.prems(1,3) by (simp_all add: e str_val_ok_def)
  show ?case unfolding for_each.simps e case_prod_conv wp_simps
  proof (rule wp_set_str [OF r Cons.prems(2) ok])
    fix K1 :: kv assume K1: "db_repr H K1 (f(V_KEY k \<mapsto> v, TYPE_KEY k \<mapsto> ''string'')) (n + 2 * length kvs)"
    show "wp (for_each kvs (\<lambda>(k, v). bnd (kv_set H k v None False False) (\<lambda>_. ret ()))) Q K1"
    proof (rule Cons.IH [OF K1 strs_inv_set(1) [OF Cons.prems(2)]])
      fix K' :: kv and f' assume "db_repr H K' f' n" "strs_inv f' (m(k \<mapsto> v) ++ map_of (rev kvs))" "str_frame (f(V_KEY k \<mapsto> v, TYPE_KEY k \<mapsto> ''string'')) f'"
      then show "Q () K'" using str_frame_trans [OF strs_inv_set(2)] by (intro Cons.prems(4)) (simp_all add: e del: fun_upd_apply)
    qed (use Cons.prems(3) in simp)
  qed simp
qed

lemma wp_mget: "db_repr H K f n \<Longrightarrow> strs_inv f m \<Longrightarrow> Q (map m ks) K \<Longrightarrow> wp (map_m (kv_get H) ks) Q K"
proof (induction ks arbitrary: Q)
  case (Cons k ks)
  then show ?case unfolding map_m.simps wp_simps by (intro wp_get_str [OF Cons.prems(1,2)] Cons.IH) simp_all
qed simp

lemma wp_exists: "db_repr H K f n \<Longrightarrow> strs_inv f m \<Longrightarrow> Q (c + length (filter (\<lambda>k. m k \<noteq> None) ks)) K \<Longrightarrow> wp (kv_exists_from H ks c) Q K"
proof (induction ks arbitrary: c)
  case (Cons k ks)
  show ?case unfolding kv_exists_from.simps wp_simps
  proof (rule wp_is_not_expired [OF Cons.prems(1) strs_invD(1) [OF Cons.prems(2)]], simp only: if_False, unfold wp_simps, rule wp_db_get [OF Cons.prems(1)])
    show "wp (kv_exists_from H ks (if f (TYPE_KEY k) \<noteq> None then c + 1 else c)) Q K"
      by (rule Cons.IH [OF Cons.prems(1,2)]) (use Cons.prems(3) strs_invD(3) [OF Cons.prems(2), of k] in \<open>auto split: if_splits\<close>)
  qed
qed simp

lemma wp_purge_str:
  assumes r: "db_repr H K f (Suc (Suc (Suc n)))" and i: "strs_inv f m" and k: "name_ok k" "m k = Some v"
    and Q: "\<And>K' f'. db_repr H K' f' n \<Longrightarrow> strs_inv f' (m(k := None)) \<Longrightarrow> str_frame f f' \<Longrightarrow> Q () K'"
  shows "wp (purge_key H k) Q K"
proof (rule wp_purge_key [OF r k(1), of "''string''"])
  fix K1 :: kv assume K1: "db_repr H K1 (without_meta k f) (Suc n)"
  have "wp (db_del H (V_KEY k)) Q K1"
  proof (rule dbs.wp_del [OF K1])
    fix K2 :: kv assume K2: "db_repr H K2 ((without_meta k f)(V_KEY k := None)) n"
    have "strs_inv ((without_meta k f)(V_KEY k := None)) (m(k := None))" "str_frame f ((without_meta k f)(V_KEY k := None))"
      using i by (auto simp: strs_inv_def without_meta_def str_frame_def)
    then show "Q () K2" by (rule Q [OF K2])
  qed (use k in simp)
  then show "wp (if ''string'' = ''string'' then db_del H (V_KEY k)
      else if ''string'' = ''hash'' then purge_prefix H (H_PREFIX k)
      else if ''string'' = ''list'' then purge_list H k
      else if ''string'' = ''set'' then purge_prefix H (S_PREFIX k)
      else if ''string'' = ''zset'' then purge_prefix H (Z_PREFIX k) else ret ()) Q K1" by simp
qed (use strs_invD(3) [OF i, of k] k in simp_all)

lemma wp_delete_strs:
  "db_repr H K f (n + 3 * length ks) \<Longrightarrow> strs_inv f m \<Longrightarrow> list_all name_ok ks \<Longrightarrow>
   (\<And>K' f'. db_repr H K' f' n \<Longrightarrow> strs_inv f' (m |` (- set ks)) \<Longrightarrow> str_frame f f' \<Longrightarrow> Q (c + card (set ks \<inter> dom m)) K') \<Longrightarrow>
   wp (kv_delete_from H ks c) Q K"
proof (induction ks arbitrary: K f m c)
  case Nil
  from Nil(4) [of K f] Nil(1,2) show ?case by simp
next
  case (Cons k ks)
  have r: "db_repr H K f (Suc (Suc (Suc (n + 3 * length ks))))" and ok: "name_ok k" "list_all name_ok ks"
    using Cons.prems(1,3) by (simp_all add: numeral_3_eq_3)
  show ?case unfolding kv_delete_from.simps wp_simps
  proof (rule wp_db_get [OF r])
    show "wp (if f (TYPE_KEY k) \<noteq> None then sq (purge_key H k) (kv_delete_from H ks (c + 1)) else kv_delete_from H ks c) Q K"
    proof (cases "m k")
      case None
      have "m |` (- set ks) = m |` (- set (k # ks))" "set ks \<inter> dom m = set (k # ks) \<inter> dom m" using None by (auto simp: restrict_map_def)
      then have "wp (kv_delete_from H ks c) Q K"
        using Cons.prems(4) dbs.room_le [OF r] by (intro Cons.IH [OF _ Cons.prems(2) ok(2)]) simp_all
      then show ?thesis using None strs_invD(3) [OF Cons.prems(2), of k] by simp
    next
      case (Some v)
      have "set (k # ks) \<inter> dom m = insert k (set ks \<inter> dom (m(k := None)))" using Some by auto
      then have card: "card (set (k # ks) \<inter> dom m) = Suc (card (set ks \<inter> dom (m(k := None))))" by simp
      have "wp (sq (purge_key H k) (kv_delete_from H ks (c + 1))) Q K" unfolding wp_simps
      proof (rule wp_purge_str [OF r Cons.prems(2) ok(1) Some])
        fix K1 :: kv and f1 assume 1: "db_repr H K1 f1 (n + 3 * length ks)" "strs_inv f1 (m(k := None))" "str_frame f f1"
        show "wp (kv_delete_from H ks (c + 1)) Q K1"
        proof (rule Cons.IH [OF 1(1,2) ok(2)])
          fix K' :: kv and f' assume 2: "db_repr H K' f' n" "strs_inv f' (m(k := None) |` (- set ks))" "str_frame f1 f'"
          have "m(k := None) |` (- set ks) = m |` (- set (k # ks))" by (auto simp: restrict_map_def)
          then have "Q (c + card (set (k # ks) \<inter> dom m)) K'" using Cons.prems(4) [OF 2(1)] 2(2) str_frame_trans [OF 1(3) 2(3)] by simp
          then show "Q (c + 1 + card (set ks \<inter> dom (m(k := None)))) K'" by (simp only: card add_Suc_right add_Suc One_nat_def add_0_right)
        qed
      qed
      then show ?thesis using Some strs_invD(3) [OF Cons.prems(2), of k] by simp
    qed
  qed
qed

lemma number_val_ok: "\<bar>i\<bar> \<le> 10 ^ 17 \<Longrightarrow> val_ok (str_int i)"
proof -
  assume "\<bar>i\<bar> \<le> 10 ^ 17"
  then have "nat \<bar>i\<bar> < 10 ^ 18" by simp
  then have "length (str_nat (nat \<bar>i\<bar>)) \<le> 18" by (rule length_str_nat) simp
  then have l: "length (str_int i) \<le> 19" by (auto simp: str_int_def)
  then have "str_int i \<noteq> TOMBSTONE" by (auto simp: TOMBSTONE_def)
  then show ?thesis using l by (simp add: val_ok_def)
qed

lemma incr_step:
  assumes r: "db_repr H K f (Suc (Suc n))" and h: "strs_hold f m (Suc (Suc n))" and ok: "name_ok k" "\<bar>a\<bar> \<le> STEP"
  shows "wp (rescue (kv_incrby H k a)) (\<lambda>r K'. r = fst (incr_spec k a m) \<and> (\<exists>f'. db_repr H K' f' n \<and>
     strs_hold f' (snd (incr_spec k a m)) n \<and> str_frame f f')) K"
proof -
  have i: "strs_inv f m" and c: "counters_ok m (Suc (Suc n))" using h by (simp_all add: strs_hold_def)
  have g: "kv_get H k K = (Inr (m k), K)" using wp_get_str [OF r i, of "\<lambda>v K'. v = m k \<and> K' = K" k] by (auto elim!: wpE)
  define old where "old = (case m k of None \<Rightarrow> Some 0 | Some v \<Rightarrow> py_int v)"
  show ?thesis
  proof (cases old)
    case None
    then have "m k \<noteq> None" "kv_incrby H k a K = (Inl NOT_AN_INTEGER, K)" "incr_spec k a m = (Failed NOT_AN_INTEGER, m)"
      using g by (auto simp: old_def kv_incrby_def bnd_def raise_def incr_spec_def split: option.splits)
    moreover have "db_repr H K f n" using r dbs.less_room by blast
    moreover have "strs_hold f m n" using i counters_mono [OF c, of n] by (simp add: strs_hold_def)
    ultimately show ?thesis by (auto simp: rescue_def wp_def intro!: exI [of _ f])
  next
    case (Some j)
    have b: "int (Suc (Suc n)) * STEP \<le> 4 * 10 ^ 16" using c by (simp add: counters_ok_def STEP_def)
    have j: "\<bar>j\<bar> \<le> 10 ^ 17 - int (Suc (Suc n)) * STEP"
      using Some c b unfolding old_def counters_ok_def by (auto split: option.splits)
    then have ja: "\<bar>j + a\<bar> \<le> 10 ^ 17 - int n * STEP" using ok(2) by (simp add: STEP_def algebra_simps)
    have v: "val_ok (str_int (j + a))" by (rule number_val_ok) (use ja b in \<open>simp add: STEP_def algebra_simps\<close>)
    have s: "incr_spec k a m = (Number (j + a), m(k \<mapsto> str_int (j + a)))" using Some by (simp add: incr_spec_def old_def)
    have e: "kv_incrby H k a K = bnd (kv_set H k (str_int (j + a)) None False False) (\<lambda>_. ret (j + a)) K"
    proof (cases "m k")
      case None
      then have "j = 0" using Some by (simp add: old_def)
      then show ?thesis using None g by (simp add: kv_incrby_def bnd_def ret_def)
    next
      case (Some v)
      then have "py_int v = Some j" using \<open>old = Some j\<close> by (simp add: old_def)
      then show ?thesis using Some g by (simp add: kv_incrby_def bnd_def ret_def)
    qed
    have "strs_hold (f(V_KEY k \<mapsto> str_int (j + a), TYPE_KEY k \<mapsto> ''string'')) (m(k \<mapsto> str_int (j + a))) n"
      using strs_inv_set(1) [OF i] counters_mono [OF c, of n] ja by (auto simp: strs_hold_def counters_ok_def)
    then have "wp (bnd (kv_set H k (str_int (j + a)) None False False) (\<lambda>_. ret (j + a))) (\<lambda>r K'. r = j + a \<and> (\<exists>f'. db_repr H K' f' n \<and>
       strs_hold f' (m(k \<mapsto> str_int (j + a))) n \<and> str_frame f f')) K"
      unfolding wp_simps by (intro wp_set_str [OF r i ok(1) v]) (use strs_inv_set(2) in auto)
    then show ?thesis by (auto simp: s rescue_def e wp_def split: prod.splits sum.splits)
  qed
qed

section \<open>Every command\<close>

definition str_post :: "host \<Rightarrow> (bytes \<rightharpoonup> bytes) \<Rightarrow> nat \<Rightarrow> str_answer \<times> (bytes \<rightharpoonup> bytes) \<Rightarrow> str_answer \<Rightarrow> kv \<Rightarrow> bool" where
  "str_post H f n s r K' \<longleftrightarrow> r = fst s \<and> (\<exists>f'. db_repr H K' f' n \<and> strs_hold f' (snd s) n \<and> str_frame f f')"

lemma set_post:
  assumes r: "db_repr H K f (n + 2)" and h: "strs_hold f m (n + 2)" and ok: "name_ok k" "str_val_ok v"
  shows "wp (kv_set H k v None nx xx) (\<lambda>b. str_post H f n (set_spec_if k v nx xx m) (Done b)) K"
proof -
  have i: "strs_inv f m" and c: "counters_ok m (n + 2)" using h by (simp_all add: strs_hold_def)
  have r2: "db_repr H K f (Suc (Suc n))" using r by simp
  have "val_ok v" using ok(2) by (simp add: str_val_ok_def)
  then show ?thesis
  proof (rule wp_set_str [OF r2 i ok(1)])
    assume "nx \<and> m k \<noteq> None \<or> xx \<and> m k = None"
    moreover have "db_repr H K f n" using dbs.room_le [OF r, of n] by simp
    ultimately show "str_post H f n (set_spec_if k v nx xx m) (Done False) K"
      using i counters_mono [OF c, of n] by (auto simp: str_post_def set_spec_if_def strs_hold_def intro!: exI [of _ f])
  next
    fix K' :: kv assume no: "\<not> (nx \<and> m k \<noteq> None \<or> xx \<and> m k = None)" and K': "db_repr H K' (f(V_KEY k \<mapsto> v, TYPE_KEY k \<mapsto> ''string'')) n"
    then show "str_post H f n (set_spec_if k v nx xx m) (Done True) K'"
      using strs_inv_set(1) [OF i] strs_inv_set(2) counters_set [OF c _ ok(2), of n k]
      by (auto simp: str_post_def set_spec_if_def strs_hold_def simp del: fun_upd_apply)
  qed
qed

lemma counters_mset: "counters_ok m n \<Longrightarrow> list_all (\<lambda>(k, v). name_ok k \<and> str_val_ok v) kvs \<Longrightarrow> counters_ok (m ++ map_of (rev kvs)) n"
proof (induction kvs arbitrary: m)
  case (Cons e kvs)
  obtain k v where e: "e = (k, v)" by fastforce
  have "counters_ok (m(k \<mapsto> v)) n" using counters_set [OF Cons.prems(1)] Cons.prems(2) by (simp add: e)
  from Cons.IH [OF this] Cons.prems(2) show ?case by (simp add: e del: fun_upd_apply)
qed simp

lemma str_step:
  assumes r: "db_repr H K f (n + str_cost op)" and h: "strs_hold f m (n + str_cost op)" and ok: "str_op_ok op"
  shows "wp (str_call H op) (str_post H f n (str_spec op m)) K"
proof -
  have i: "strs_inv f m" and c: "counters_ok m (n + str_cost op)" using h by (simp_all add: strs_hold_def)
  have same: "str_post H f n (x, m) x K" if "str_cost op = 0" for x
    using r h that by (auto simp: str_post_def intro!: exI [of _ f])
  show ?thesis
  proof (cases op)
    case (SetTo k v nx xx)
    then show ?thesis using set_post [of H K f n m k v nx xx] r h ok by (simp add: wp_ret)
  next
    case (SetNx k v)
    then show ?thesis using set_post [of H K f n m k v True False] r h ok by (simp add: kv_setnx_def wp_ret)
  next
    case (MSet kvs)
    have "counters_ok (m ++ map_of (rev kvs)) n" using counters_mset [OF counters_mono [OF c]] ok MSet by simp
    then show ?thesis unfolding MSet str_call.simps kv_mset_def wp_simps
      by (intro wp_mset [OF _ i]) (use r ok MSet in \<open>auto simp: str_post_def strs_hold_def ac_simps\<close>)
  next
    case (Get k)
    then show ?thesis unfolding Get str_call.simps wp_simps by (intro wp_get_str [OF r i]) (use same Get in simp)
  next
    case (MGet ks)
    then show ?thesis unfolding MGet str_call.simps kv_mget_def wp_simps by (intro wp_mget [OF r i]) (use same MGet in simp)
  next
    case (IncrBy k a)
    then show ?thesis using incr_step [of H K f n m k a] r h ok by (simp add: str_post_def [abs_def])
  next
    case (DecrBy k a)
    then show ?thesis using incr_step [of H K f n m k "- a"] r h ok by (simp add: str_post_def [abs_def] kv_decrby_def)
  next
    case (StrLen k)
    then show ?thesis unfolding StrLen str_call.simps kv_strlen_def wp_simps by (intro wp_get_str [OF r i]) (use same StrLen in simp)
  next
    case (Delete ks)
    have "counters_ok (m |` (- set ks)) n"
      using counters_mono [OF c, of n] by (simp add: counters_ok_def restrict_map_def)
    then show ?thesis unfolding Delete str_call.simps kv_delete_def wp_simps
      by (intro wp_delete_strs [OF _ i]) (use r ok Delete in \<open>auto simp: str_post_def strs_hold_def\<close>)
  next
    case (Exists ks)
    then show ?thesis unfolding Exists str_call.simps kv_exists_def wp_simps by (intro wp_exists [OF r i]) (use same Exists in simp)
  qed
qed

interpretation strs: store_commands "db_repr H" "db_put H" "db_del H" "db_read H" db_scan "str_call H" str_spec str_cost str_op_ok strs_hold str_frame for H
proof
  fix K :: kv and f n op m assume "db_repr H K f (n + str_cost op)" "strs_hold f m (n + str_cost op)" "str_op_ok op"
  then show "wp (str_call H op) (\<lambda>r K'. r = fst (str_spec op m) \<and>
      (\<exists>f'. db_repr H K' f' n \<and> strs_hold f' (snd (str_spec op m)) n \<and> str_frame f f')) K"
    using str_step by (auto simp: str_post_def [abs_def])
qed (auto intro: str_frame_trans)


definition sample_str_ops :: "str_op list" where
  "sample_str_ops = [SetTo ''a'' ''x'' False True, SetTo ''a'' ''5'' False False, SetNx ''a'' ''y'', IncrBy ''a'' 7, DecrBy ''n'' 1,
     MSet [(''b'', ''p''), (''b'', ''q'')], IncrBy ''b'' 1, MGet [''a'', ''b'', ''c''], Delete [''b'', ''c'', ''b''], Exists [''a'', ''b'', ''a'']]"


end
