(* ===== verification/Keeps.thy ===== *)
theory Keeps
  imports Db
begin

text \<open>
  Methods that leave a part of the state as it was, and the part that every method of the
  storage layer leaves: the sync mode and the clock of the write-ahead log.
\<close>

section \<open>Methods that keep a part of the state\<close>

definition keeps_field :: "('s \<Rightarrow> 'x) \<Rightarrow> ('s, 'a) pym \<Rightarrow> bool" where
  "keeps_field g m \<longleftrightarrow> (\<forall>s. g (snd (m s)) = g s)"

named_theorems keeps_intros \<open>rules for methods that keep a part of the state\<close>

lemma keeps_basic [keeps_intros]:
  "keeps_field g (ret x)" "keeps_field g (raise e)" "keeps_field g (gets h)" "keeps_field g (lift_res r)"
  by (simp_all add: keeps_field_def pym_simps)

lemma keeps_bnd [keeps_intros]: "keeps_field g m \<Longrightarrow> (\<And>x. keeps_field g (f x)) \<Longrightarrow> keeps_field g (bnd m f)"
proof -
  assume m: "keeps_field g m" and f: "\<And>x. keeps_field g (f x)"
  have "g (snd (bnd m f s)) = g s" for s
  proof (cases "m s")
    case (Pair r s')
    then have "g s' = g s" using m by (metis keeps_field_def snd_conv)
    with Pair f show ?thesis by (cases r) (simp_all add: bnd_def keeps_field_def)
  qed
  then show ?thesis by (simp add: keeps_field_def)
qed

lemma keeps_sq [keeps_intros]: "keeps_field g m \<Longrightarrow> keeps_field g n \<Longrightarrow> keeps_field g (sq m n)"
  unfolding sq_def by (rule keeps_bnd)

lemma keeps_if [keeps_intros]: "keeps_field g m \<Longrightarrow> keeps_field g n \<Longrightarrow> keeps_field g (if b then m else n)"
  by simp

lemma keeps_prod [keeps_intros]: "(\<And>a b. keeps_field g (f a b)) \<Longrightarrow> keeps_field g (case_prod f x)"
  by (cases x) simp

lemma keeps_option [keeps_intros]:
  "keeps_field g m \<Longrightarrow> (\<And>x. keeps_field g (f x)) \<Longrightarrow> keeps_field g (case_option m f v)"
  by (cases v) simp_all

lemma keeps_for_each [keeps_intros]: "(\<And>x. keeps_field g (f x)) \<Longrightarrow> keeps_field g (for_each xs f)"
  by (induction xs) (simp_all add: keeps_basic keeps_sq)

section \<open>The sync mode and the clock of the log\<close>

definition wal_setup :: "wal \<Rightarrow> sync_mode \<times> (nat \<Rightarrow> f64)" where
  "wal_setup w = (w_sync_mode w, w_clock w)"

lemma wal_fields [simp]:
  "w_sync_mode (wal_sync w) = w_sync_mode w" "w_sync_mode (open_append p w) = w_sync_mode w"
  "w_sync_mode (wal_rotate w) = w_sync_mode w" "w_sync_mode (wal_init_or_rotate w) = w_sync_mode w"
  "w_sync_mode (snd (wal_purge_before n w)) = w_sync_mode w"
  "w_clock (wal_sync w) = w_clock w" "w_clock (open_append p w) = w_clock w"
  "w_clock (wal_rotate w) = w_clock w" "w_clock (wal_init_or_rotate w) = w_clock w"
  "w_clock (snd (wal_purge_before n w)) = w_clock w"
  by (simp_all add: wal_sync_def open_append_def wal_rotate_def wal_init_or_rotate_def wal_purge_before_def Let_def split: prod.split)

lemma wal_setup_steps [simp]:
  "wal_setup (wal_sync w) = wal_setup w" "wal_setup (wal_rotate w) = wal_setup w"
  "wal_setup (wal_init_or_rotate w) = wal_setup w" "wal_setup (snd (wal_purge_before n w)) = wal_setup w"
  by (simp_all add: wal_setup_def)

lemma sync_policy_fields [simp]: "w_sync_mode (wal_sync_policy w) = w_sync_mode w" "w_clock (wal_sync_policy w) = w_clock w"
  by (simp_all add: wal_sync_policy_def wal_time_def Let_def split: sync_mode.split)

lemma append_setup: "wal_setup (snd (wal_append op k v ts w)) = wal_setup w"
  by (auto simp: wal_setup_def wal_append_def wal_time_def Let_def split: sum.split option.split)

definition tree_setup :: "lsm \<Rightarrow> sync_mode \<times> (nat \<Rightarrow> f64)" where
  "tree_setup L = wal_setup (l_wal L)"

lemma lsm_compact_setup: "keeps_field tree_setup (lsm_compact H)"
  by (auto simp: keeps_field_def tree_setup_def lsm_compact_def bnd_def compact_write_def replace_tables_def Let_def split: sum.splits prod.splits)

lemma lsm_put_setup: "keeps_field tree_setup (lsm_put H k v)" "keeps_field tree_setup (lsm_delete H k)"
proof -
  have a: "keeps_field tree_setup (on_wal (wal_append op k v None))" for op v
    using append_setup [of op k v None] by (auto simp: keeps_field_def tree_setup_def on_wal_def split: prod.split) (metis snd_conv)
  have m: "keeps_field tree_setup (\<lambda>L. (Inr (), L\<lparr>l_mem := h L\<rparr>))" for h
    by (simp add: keeps_field_def tree_setup_def)
  have f: "keeps_field tree_setup (flush_table H)"
    by (auto simp: keeps_field_def tree_setup_def flush_table_def Let_def split: sum.splits prod.splits)
  have r: "keeps_field tree_setup rotate_log" by (simp add: keeps_field_def tree_setup_def rotate_log_def)
  have c: "keeps_field tree_setup (maybe_compact H)"
    using lsm_compact_setup [of H] by (simp add: keeps_field_def maybe_compact_def)
  have "keeps_field tree_setup (sq (flush_table H) (sq rotate_log (maybe_compact H)))" using f r c by (intro keeps_intros)
  then have l: "keeps_field tree_setup (lsm_flush_if_full H)"
    by (simp add: keeps_field_def lsm_flush_if_full_def lsm_flush_memtable_def)
  show "keeps_field tree_setup (lsm_put H k v)" "keeps_field tree_setup (lsm_delete H k)"
    by (simp_all only: lsm_put_def lsm_delete_def keeps_sq [OF a keeps_sq [OF m l]])
qed

text \<open>The engines.\<close>

definition db_setup :: "'e db_scheme \<Rightarrow> sync_mode \<times> (nat \<Rightarrow> f64)" where
  "db_setup K = tree_setup (db_lsm K)"

lemma db_setup_calls [keeps_intros]:
  "keeps_field db_setup (db_put H k v)" "keeps_field db_setup (db_del H k)" "keeps_field db_setup (db_get H k)"
  "keeps_field db_setup (db_prefix p)" "keeps_field db_setup kv_time"
proof -
  have on: "keeps_field db_setup (on_lsm m)" if "keeps_field tree_setup m" for m :: "(lsm, unit) pym"
    using that by (auto simp: keeps_field_def db_setup_def on_lsm_def split: prod.split) (metis snd_conv)
  show "keeps_field db_setup (db_put H k v)" "keeps_field db_setup (db_del H k)"
    by (simp_all only: db_put_def db_del_def on [OF lsm_put_setup(1)] on [OF lsm_put_setup(2)])
  show "keeps_field db_setup (db_get H k)" "keeps_field db_setup (db_prefix p)" "keeps_field db_setup kv_time"
    by (simp_all add: keeps_field_def db_get_def db_prefix_def kv_time_def wal_time_def wal_setup_def db_setup_def tree_setup_def)
qed

end
