(* ===== verification/KVExpiry.thy ===== *)
theory KVExpiry
  imports KVFaults Keeps
begin

text \<open>
  Expiry: a key with an expiry entry is removed by the first read at or after that time.
\<close>

lemma wp_catch_value_error: "wp m Q K \<Longrightarrow> wp (catch_value_error x m) Q K"
  by (auto simp: wp_def catch_value_error_def split: prod.splits sum.splits)

lemma wp_if: "wp (if b then m else m') Q s = (if b then wp m Q s else wp m' Q s)"
  by simp

text \<open>Reading a key with an expiry entry.\<close>

lemma wp_is_expired:
  assumes r: "db_repr H K f n" and e: "f (EXP_KEY key) = Some (str_float e)" and nan: "\<not> f64_nan e"
    and live: "\<And>K'. db_repr H K' f n \<Longrightarrow> \<not> f64_le e (next_time K) \<Longrightarrow> Q False K'"
    and dead: "\<And>K'. db_repr H K' f n \<Longrightarrow> f64_le e (next_time K) \<Longrightarrow> wp (purge_key H key) (\<lambda>_. Q True) K'"
  shows "wp (is_expired H key) Q K"
  unfolding is_expired_def wp_simps
proof (rule wp_db_get [OF r], unfold e option.case, rule wp_catch_value_error)
  have d: "py_decode (str_float e) = Inr (str_float e)" "float_res (str_float e) = Inr e"
    using nan by (simp_all add: py_decode_def utf8_str_float float_res_def py_float_str_float)
  show "wp (bnd (lift_res (py_decode (str_float e))) (\<lambda>s. bnd (lift_res (float_res s)) (\<lambda>exp_ts.
          bnd kv_time (\<lambda>now. if f64_le exp_ts now then sq (purge_key H key) (ret True) else ret False)))) Q K"
    unfolding d wp_simps
    by (rule wp_kv_time [OF r]) (use live dead in \<open>simp add: wp_if wp_ret\<close>)
qed

lemma wp_kv_get_expiring:
  assumes r: "db_repr H K f (n + 3)" and e: "f (EXP_KEY key) = Some (str_float e)" "\<not> f64_nan e" and k: "name_ok key"
    and t: "f (TYPE_KEY key) = Some ''string''" and v: "f (V_KEY key) = Some v"
    and live: "\<And>K'. db_repr H K' f (n + 3) \<Longrightarrow> \<not> f64_le e (next_time K) \<Longrightarrow> Q (Some v) K'"
    and dead: "\<And>K'. db_repr H K' ((without_meta key f)(V_KEY key := None)) n \<Longrightarrow> f64_le e (next_time K) \<Longrightarrow> Q None K'"
  shows "wp (kv_get H key) Q K"
  unfolding kv_get_def wp_simps
proof (rule wp_is_expired [OF r e])
  fix K' :: kv assume K': "db_repr H K' f (n + 3)" "\<not> f64_le e (next_time K)"
  show "wp (if False then ret None else db_get H (V_KEY key)) Q K'"
    by (simp, rule wp_db_get [OF K'(1)]) (use live [OF K'] v in simp)
next
  fix K' :: kv assume K': "db_repr H K' f (n + 3)" "f64_le e (next_time K)"
  have r': "db_repr H K' f (Suc (Suc (Suc n)))" using K'(1) by (simp add: eval_nat_numeral)
  show "wp (purge_key H key) (\<lambda>_. wp (if True then ret None else db_get H (V_KEY key)) Q) K'"
  proof (rule wp_purge_key [OF r' k t])
    fix K1 :: kv assume K1: "db_repr H K1 (without_meta key f) (Suc n)"
    show "wp (if ''string'' = ''string'' then db_del H (V_KEY key)
            else if ''string'' = ''hash'' then purge_prefix H (H_PREFIX key)
            else if ''string'' = ''list'' then purge_list H key
            else if ''string'' = ''set'' then purge_prefix H (S_PREFIX key)
            else if ''string'' = ''zset'' then purge_prefix H (Z_PREFIX key)
            else ret ()) (\<lambda>_. wp (if True then ret None else db_get H (V_KEY key)) Q) K1"
      by (simp, rule dbs.wp_del [OF K1]) (use k dead K'(2) in \<open>simp_all add: wp_ret\<close>)
  qed simp_all
qed

lemma wp_kv_expire:
  assumes r: "db_repr H K f (Suc n)" and k: "name_ok key" and x: "f64_of_int (max 0 s) = Inr x"
    and nan: "\<not> f64_nan (f64_add (next_time K) x)"
    and Q: "\<And>K'. db_repr H K' (f(EXP_KEY key \<mapsto> str_float (f64_add (next_time K) x))) n \<Longrightarrow> Q True K'"
  shows "wp (kv_expire H key s) Q K"
  unfolding kv_expire_def wp_simps
proof (rule wp_kv_time [OF r], unfold x wp_simps Let_def)
  fix K1 :: kv assume K1: "db_repr H K1 f (Suc n)" 
  show "wp (db_put H (EXP_KEY key) (str_float (f64_add (next_time K) x)))
      (\<lambda>_. wp (\<lambda>K'. (Inr True, K'\<lparr>kv_heap := expiry_push (f64_add (next_time K) x, key) (kv_heap K')\<rparr>)) Q) K1"
  proof (rule dbs.wp_put [OF K1 _ score_val_ok [OF nan]])
    fix K2 :: kv assume K2: "db_repr H K2 (f(EXP_KEY key \<mapsto> str_float (f64_add (next_time K) x))) n"
    let ?K = "K2\<lparr>kv_heap := expiry_push (f64_add (next_time K) x, key) (kv_heap K2)\<rparr>"
    have "db_repr H ?K (f(EXP_KEY key \<mapsto> str_float (f64_add (next_time K) x))) n" using K2 by (simp add: db_repr_def)
    then show "wp (\<lambda>K'. (Inr True, K'\<lparr>kv_heap := expiry_push (f64_add (next_time K) x, key) (kv_heap K')\<rparr>)) Q K2"
      using Q by (simp add: wp_def)
  qed (use k in simp)
qed

text \<open>
  C23. \<open>expire\<close> sets the time at which a key disappears. It stores the clock plus the seconds; at
  every later moment \<open>get\<close> returns the value while the clock is before that time and changes
  nothing the store holds, and at that time and after it returns None and removes the value,
  the type and the expiry of the key from the store.
\<close>

theorem kv_expire_then_get:
  assumes "db_repr H K f (n + 4)" "name_ok key" "f (TYPE_KEY key) = Some ''string''" "f (V_KEY key) = Some v"
    "f64_of_int (max 0 s) = Inr x" "\<not> f64_nan (f64_add (next_time K) x)"
  defines "e \<equiv> f64_add (next_time K) x"
  defines "g \<equiv> f(EXP_KEY key \<mapsto> str_float e)"
  shows "\<exists>K1. kv_expire H key s K = (Inr True, K1) \<and> db_repr H K1 g (n + 3) \<and>
     (\<forall>K2. db_repr H K2 g (n + 3) \<longrightarrow> (\<exists>K3.
        kv_get H key K2 = (Inr (if f64_le e (next_time K2) then None else Some v), K3) \<and>
        db_repr H K3 (if f64_le e (next_time K2) then f(V_KEY key := None, TYPE_KEY key := None, EXP_KEY key := None) else g) n))"
proof -
  have r: "db_repr H K f (Suc (n + 3))" using assms(1) by (simp add: eval_nat_numeral)
  have "wp (kv_expire H key s) (\<lambda>b K1. b = True \<and> db_repr H K1 g (n + 3)) K"
    by (rule wp_kv_expire [OF r assms(2,5,6)]) (simp add: g_def e_def)
  then obtain K1 where K1: "kv_expire H key s K = (Inr True, K1)" "db_repr H K1 g (n + 3)" by (auto elim!: wpE)
  have d: "(without_meta key g)(V_KEY key := None) = f(V_KEY key := None, TYPE_KEY key := None, EXP_KEY key := None)"
    by (auto simp: g_def without_meta_def)
  have "\<exists>K3. kv_get H key K2 = (Inr (if f64_le e (next_time K2) then None else Some v), K3) \<and>
        db_repr H K3 (if f64_le e (next_time K2) then f(V_KEY key := None, TYPE_KEY key := None, EXP_KEY key := None) else g) n"
    if K2: "db_repr H K2 g (n + 3)" for K2
  proof (rule wp_result, rule wp_kv_get_expiring [OF K2])
    show "\<not> f64_nan e" "g (EXP_KEY key) = Some (str_float e)" using assms(6) by (simp_all add: e_def g_def)
    show "g (TYPE_KEY key) = Some ''string''" "g (V_KEY key) = Some v" using assms(3,4) by (simp_all add: g_def)
  qed (use assms(2) dbs.room_le [of H _ g "n + 3" n] in \<open>simp_all add: d\<close>)
  with K1 show ?thesis by blast
qed

lemma put_clock: "db_put H k v K = (r, K') \<Longrightarrow> w_clock (l_wal (db_lsm K')) = w_clock (l_wal (db_lsm K))"
  by (metis db_setup_calls(1) keeps_field_def db_setup_def tree_setup_def wal_setup_def prod.inject snd_conv)

lemma expire_clock: "kv_expire H key s K = (Inr True, K') \<Longrightarrow> w_clock (l_wal (db_lsm K')) = w_clock (l_wal (db_lsm K))"
proof -
  assume e: "kv_expire H key s K = (Inr True, K')"
  have t: "w_clock (l_wal (db_lsm (snd (kv_time K)))) = w_clock (l_wal (db_lsm K))" by (simp add: kv_time_def wal_time_def)
  from e t show ?thesis
    by (auto simp: kv_expire_def bnd_def sq_def lift_res_def kv_time_def wal_time_def Let_def dest!: put_clock
        split: prod.splits sum.splits)
qed

lemma sample_clock: "w_clock (l_wal sample_tree) = (\<lambda>_. 0)"
  by (simp add: sample_tree_def lsm_open_def load_existing_sstables_def recover_from_wal_def wal_new_def wal_recover_def Let_def
      split: prod.split)

lemma zero_facts: "f64_add 0 0 = 0" "f64_of_int 0 = Inr 0" "\<not> f64_nan 0" "f64_le 0 0"
proof -
  have r: "round_bits 0 (Suc 0) = 0" by (simp add: round_bits_def bit_len.simps rne_div_def)
  show "f64_of_int 0 = Inr 0" unfolding f64_of_int_def by (simp add: r f64_round_def INF_BITS_def)
  show "\<not> f64_nan 0" "f64_le 0 0" by (simp_all add: f64_nan_def f64_le_def f64_mant_def)
  show "f64_add 0 0 = 0"
    by (simp add: f64_add_def f64_nan_def f64_finite_def f64_mant_def f64_exp_def f64_sign_def f64_scaled_def)
qed

theorem kv_expire_then_get_witness:
  "\<exists>K0 K1 K2. sq (db_put sample_host (V_KEY ''k'') ''v'') (db_put sample_host (TYPE_KEY ''k'') ''string'') sample_kv = (Inr (), K0) \<and>
     kv_expire sample_host ''k'' 0 K0 = (Inr True, K1) \<and> kv_get sample_host ''k'' K1 = (Inr None, K2) \<and>
     db_repr sample_host K2 Map.empty 10"
proof -
  let ?f = "[V_KEY ''k'' \<mapsto> ''v'', TYPE_KEY ''k'' \<mapsto> ''string'']"
  have n: "name_ok ''k''" "val_ok ''v''" by (simp_all add: name_ok_def val_ok_def TOMBSTONE_def)
  obtain K where K: "db_put sample_host (V_KEY ''k'') ''v'' sample_kv = (Inr (), K)" "db_repr sample_host K [V_KEY ''k'' \<mapsto> ''v''] (Suc 14)"
    using dbs.put_law [OF sample_db_repr [of "Suc (Suc 14)"], of "V_KEY ''k''" "''v''"] n by auto
  obtain K0 where K0: "db_put sample_host (TYPE_KEY ''k'') ''string'' K = (Inr (), K0)" "db_repr sample_host K0 ?f (10 + 4)"
    using dbs.put_law [OF K(2), of "TYPE_KEY ''k''" "''string''"] n by auto
  have w: "w_clock (l_wal (db_lsm K0)) = (\<lambda>_. 0)"
    using put_clock [OF K(1)] put_clock [OF K0(1)] sample_clock by (simp add: sample_kv_def)
  then have t: "next_time K0 = 0" by (simp add: next_time_def)
  have "f64_of_int (max 0 0) = Inr 0" by (simp add: zero_facts)
  then obtain K1 where K1: "kv_expire sample_host ''k'' 0 K0 = (Inr True, K1)"
    "db_repr sample_host K1 (?f(EXP_KEY ''k'' \<mapsto> str_float 0)) (10 + 3)"
    "\<exists>K3. kv_get sample_host ''k'' K1 = (Inr (if f64_le 0 (next_time K1) then None else Some ''v''), K3) \<and>
        db_repr sample_host K3 (if f64_le 0 (next_time K1) then ?f(V_KEY ''k'' := None, TYPE_KEY ''k'' := None, EXP_KEY ''k'' := None)
          else ?f(EXP_KEY ''k'' \<mapsto> str_float 0)) 10"
    using kv_expire_then_get [OF K0(2) n(1), of "''v''" 0 0] unfolding t zero_facts(1) by (auto simp: zero_facts)
  have "next_time K1 = 0" using expire_clock [OF K1(1)] w by (simp add: next_time_def)
  then have "\<exists>K3. kv_get sample_host ''k'' K1 = (Inr None, K3) \<and>
      db_repr sample_host K3 (?f(V_KEY ''k'' := None, TYPE_KEY ''k'' := None, EXP_KEY ''k'' := None)) 10"
    using K1(3) zero_facts(4) by simp
  moreover have "?f(V_KEY ''k'' := None, TYPE_KEY ''k'' := None, EXP_KEY ''k'' := None) = Map.empty" by auto
  ultimately show ?thesis using K(1) K0(1) K1(1) by (auto simp: sq_eval(1))
qed

end
