(* ===== verification/Json.thy ===== *)
theory Json
  imports PyFloat Glob
begin

text \<open>
  Python's \<open>json.dumps\<close> and \<open>json.loads\<close> with their default settings. A \<open>str\<close> is its UTF-8
  encoding; a lone surrogate, which an escape can produce, is its three byte encoding. \<open>None\<close>
  as the result of \<open>json_loads\<close> is a \<open>JSONDecodeError\<close>; the recursion limit of the
  interpreter and its limit on the digits of an integer are not modelled.
\<close>

section \<open>Values\<close>

datatype json =
    JNull
  | JBool bool
  | JInt int
  | JFloat f64
  | JStr bytes
  | JList "json list"
  | JObj "(bytes \<times> json) list"

section \<open>Code points and bytes\<close>

definition utf8_encode :: "nat \<Rightarrow> bytes" where
  "utf8_encode n =
     (if n < 0x80 then [char_of n]
      else if n < 0x800 then [char_of (0xC0 + n div 64), char_of (0x80 + n mod 64)]
      else if n < 0x10000 then [char_of (0xE0 + n div 4096), char_of (0x80 + n div 64 mod 64), char_of (0x80 + n mod 64)]
      else [char_of (0xF0 + n div 262144), char_of (0x80 + n div 4096 mod 64), char_of (0x80 + n div 64 mod 64), char_of (0x80 + n mod 64)])"

text \<open>The first code point of a string and its number of bytes.\<close>

fun first_point :: "bytes \<Rightarrow> nat \<times> nat" where
  "first_point (a # bs) =
     (let x = of_char a; y = (\<lambda>i. if i < length bs then of_char (bs ! i) mod 64 else (0 :: nat)) in
      if x < 0xC0 then (x, 1)
      else if x < 0xE0 then (x mod 32 * 64 + y 0, 2)
      else if x < 0xF0 then (x mod 16 * 4096 + y 0 * 64 + y 1, 3)
      else (x mod 8 * 262144 + y 0 * 4096 + y 1 * 64 + y 2, 4))"
| "first_point [] = (0, 1)"

lemma first_point_pos: "0 < snd (first_point s)"
  by (cases s) (auto simp: Let_def)

lemma first_point_lt: "(p, n) = first_point s \<Longrightarrow> s \<noteq> [] \<Longrightarrow> 0 < n \<and> 0 < length s"
  using first_point_pos [of s] by (metis length_greater_0_conv snd_conv)

function str_points :: "bytes \<Rightarrow> nat list" where
  "str_points s = (if s = [] then [] else (case first_point s of (p, n) \<Rightarrow> p # str_points (drop n s)))"
  by pat_completeness auto
termination
  by (relation "measure length") (auto dest!: first_point_lt)

declare str_points.simps [simp del]

section \<open>\<open>json.dumps\<close>\<close>

definition BACKSLASH :: char where
  "BACKSLASH = CHR 0x5C"

definition QUOTE :: char where
  "QUOTE = CHR 0x22"

definition hex4 :: "nat \<Rightarrow> bytes" where
  "hex4 n = map hex_digit [n div 4096 mod 16, n div 256 mod 16, n div 16 mod 16, n mod 16]"

text \<open>One code point; beyond the basic plane as a surrogate pair.\<close>

definition escape_point :: "nat \<Rightarrow> bytes" where
  "escape_point n =
     (if n = 34 then [BACKSLASH, QUOTE]
      else if n = 92 then [BACKSLASH, BACKSLASH]
      else if n = 10 then [BACKSLASH, CHR ''n'']
      else if n = 13 then [BACKSLASH, CHR ''r'']
      else if n = 9 then [BACKSLASH, CHR ''t'']
      else if n = 12 then [BACKSLASH, CHR ''f'']
      else if n = 8 then [BACKSLASH, CHR ''b'']
      else if 32 \<le> n \<and> n < 127 then [char_of n]
      else if n < 0x10000 then BACKSLASH # CHR ''u'' # hex4 n
      else BACKSLASH # CHR ''u'' # hex4 (0xD800 + (n - 0x10000) div 1024) @
           BACKSLASH # CHR ''u'' # hex4 (0xDC00 + (n - 0x10000) mod 1024))"

definition dump_str :: "bytes \<Rightarrow> bytes" where
  "dump_str s = QUOTE # concat (map escape_point (str_points s)) @ [QUOTE]"

definition dump_float :: "f64 \<Rightarrow> bytes" where
  "dump_float w =
     (if f64_nan w then ''NaN''
      else if \<not> f64_finite w then (if f64_sign w = 1 then ''-Infinity'' else ''Infinity'')
      else str_float w)"

fun join_with :: "bytes \<Rightarrow> bytes list \<Rightarrow> bytes" where
  "join_with sep [] = []"
| "join_with sep [x] = x"
| "join_with sep (x # xs) = x @ sep @ join_with sep xs"

fun json_dumps :: "json \<Rightarrow> bytes" where
  "json_dumps JNull = ''null''"
| "json_dumps (JBool b) = (if b then ''true'' else ''false'')"
| "json_dumps (JInt i) = str_int i"
| "json_dumps (JFloat w) = dump_float w"
| "json_dumps (JStr s) = dump_str s"
| "json_dumps (JList xs) = CHR ''['' # join_with '', '' (map json_dumps xs) @ '']''"
| "json_dumps (JObj kvs) =
     CHR ''{'' # join_with '', '' (map (\<lambda>(k, v). dump_str k @ '': '' @ json_dumps v) kvs) @ ''}''"

text \<open>\<open>sort_keys=True\<close> orders the items of every dict by key.\<close>

fun sort_keys :: "json \<Rightarrow> json" where
  "sort_keys (JList xs) = JList (map sort_keys xs)"
| "sort_keys (JObj kvs) = JObj (sort_key fst (map (\<lambda>(k, v). (k, sort_keys v)) kvs))"
| "sort_keys j = j"

section \<open>\<open>json.loads\<close>\<close>

definition json_space :: "char \<Rightarrow> bool" where
  "json_space c \<longleftrightarrow> c = CHR 0x20 \<or> c = CHR 0x09 \<or> c = CHR 0x0A \<or> c = CHR 0x0D"

definition skip_space :: "bytes \<Rightarrow> bytes" where
  "skip_space s = dropWhile json_space s"

fun hex_val :: "char \<Rightarrow> nat option" where
  "hex_val c = (let n = of_char c in
     if 48 \<le> n \<and> n \<le> 57 then Some (n - 48)
     else if 97 \<le> n \<and> n \<le> 102 then Some (n - 87)
     else if 65 \<le> n \<and> n \<le> 70 then Some (n - 55) else None)"

fun read_hex4 :: "bytes \<Rightarrow> (nat \<times> bytes) option" where
  "read_hex4 (a # b # c # d # s) = (case (hex_val a, hex_val b, hex_val c, hex_val d) of
      (Some w, Some x, Some y, Some z) \<Rightarrow> Some (w * 4096 + x * 256 + y * 16 + z, s)
    | _ \<Rightarrow> None)"
| "read_hex4 _ = None"

definition high_surrogate :: "nat \<Rightarrow> bool" where
  "high_surrogate n \<longleftrightarrow> 0xD800 \<le> n \<and> n \<le> 0xDBFF"

definition low_surrogate :: "nat \<Rightarrow> bool" where
  "low_surrogate n \<longleftrightarrow> 0xDC00 \<le> n \<and> n \<le> 0xDFFF"

text \<open>The code point of an escape after its \<open>u\<close>: a pair of surrogates is one code point.\<close>

definition read_unicode :: "bytes \<Rightarrow> (nat \<times> bytes) option" where
  "read_unicode s = (case read_hex4 s of
      None \<Rightarrow> None
    | Some (n, s1) \<Rightarrow>
        if high_surrogate n then (case s1 of
            b # u # s2 \<Rightarrow>
              if b = BACKSLASH \<and> u = CHR ''u'' then (case read_hex4 s2 of
                  Some (m, s3) \<Rightarrow> if low_surrogate m
                    then Some (0x10000 + (n - 0xD800) * 1024 + (m - 0xDC00), s3) else Some (n, s1)
                | None \<Rightarrow> Some (n, s1))
              else Some (n, s1)
          | _ \<Rightarrow> Some (n, s1))
        else Some (n, s1))"

definition simple_escape :: "char \<Rightarrow> char option" where
  "simple_escape c =
     (if c = QUOTE \<or> c = BACKSLASH \<or> c = CHR ''/'' then Some c
      else if c = CHR ''b'' then Some (CHR 0x08) else if c = CHR ''f'' then Some (CHR 0x0C)
      else if c = CHR ''n'' then Some (CHR 0x0A) else if c = CHR ''r'' then Some (CHR 0x0D)
      else if c = CHR ''t'' then Some (CHR 0x09) else None)"

lemma read_hex4_length: "read_hex4 s = Some (n, r) \<Longrightarrow> length r < length s"
  by (cases s rule: read_hex4.cases) (auto split: option.splits simp del: hex_val.simps)

lemma read_unicode_length: "read_unicode s = Some (n, r) \<Longrightarrow> length r < length s"
  by (auto simp: read_unicode_def split: option.splits if_splits list.splits dest!: read_hex4_length)

text \<open>The characters of a string up to its closing quote.\<close>

function read_string :: "bytes \<Rightarrow> (bytes \<times> bytes) option" where
  "read_string s = (case s of
      [] \<Rightarrow> None
    | c # s1 \<Rightarrow>
        if c = QUOTE then Some ([], s1)
        else if of_char c < (32 :: nat) then None
        else if c \<noteq> BACKSLASH then map_option (\<lambda>(t, r). (c # t, r)) (read_string s1)
        else (case s1 of
            [] \<Rightarrow> None
          | e # s2 \<Rightarrow>
              if e = CHR ''u'' then (case read_unicode s2 of
                  None \<Rightarrow> None
                | Some (n, s3) \<Rightarrow> map_option (\<lambda>(t, r). (utf8_encode n @ t, r)) (read_string s3))
              else (case simple_escape e of
                  None \<Rightarrow> None
                | Some x \<Rightarrow> map_option (\<lambda>(t, r). (x # t, r)) (read_string s2))))"
  by pat_completeness auto
termination
  by (relation "measure length") (auto dest!: read_unicode_length)

declare read_string.simps [simp del]

lemma read_string_length: "read_string s = Some (t, r) \<Longrightarrow> length r < length s"
proof (induction s arbitrary: t r rule: length_induct)
  case (1 s)
  then have IH: "\<And>s' t r. length s' < length s \<Longrightarrow> read_string s' = Some (t, r) \<Longrightarrow> length r < length s'" by blast
  from "1.prems" show ?case
    by (subst (asm) read_string.simps)
      (fastforce split: list.splits if_splits option.splits dest: IH [rotated] read_unicode_length)
qed

text \<open>A number: the longest match of \<open>-?(0|[1-9][0-9]*)(\.[0-9]+)?([eE][-+]?[0-9]+)?\<close>.\<close>

definition read_int_part :: "bytes \<Rightarrow> (bytes \<times> bytes) option" where
  "read_int_part s = (case s of
      [] \<Rightarrow> None
    | c # r \<Rightarrow> if c = CHR ''0'' then Some (''0'', r)
        else if is_digit c then Some (takeWhile is_digit s, dropWhile is_digit s) else None)"

definition read_frac_part :: "bytes \<Rightarrow> bytes \<times> bytes" where
  "read_frac_part s = (case s of
      c # d # r \<Rightarrow> if c = CHR ''.'' \<and> is_digit d
        then (c # takeWhile is_digit (d # r), dropWhile is_digit (d # r)) else ([], s)
    | _ \<Rightarrow> ([], s))"

definition read_exp_part :: "bytes \<Rightarrow> bytes \<times> bytes" where
  "read_exp_part s = (case s of
      c # r \<Rightarrow> if c = CHR ''e'' \<or> c = CHR ''E'' then
         (let (sg, ds) = (case r of x # y \<Rightarrow> if x = CHR ''-'' \<or> x = CHR ''+'' then ([x], y) else ([], r) | [] \<Rightarrow> ([], r))
          in if ds \<noteq> [] \<and> is_digit (hd ds) then (c # sg @ takeWhile is_digit ds, dropWhile is_digit ds) else ([], s))
       else ([], s)
    | [] \<Rightarrow> ([], s))"

definition read_number :: "bytes \<Rightarrow> (json \<times> bytes) option" where
  "read_number s =
     (let (sign, s0) = (case s of c # r \<Rightarrow> if c = CHR ''-'' then (''-'', r) else ([], s) | [] \<Rightarrow> ([], s)) in
      case read_int_part s0 of
        None \<Rightarrow> None
      | Some (ip, s1) \<Rightarrow>
          (let (fp, s2) = read_frac_part s1; (ep, s3) = read_exp_part s2 in
           if fp = [] \<and> ep = [] then map_option (\<lambda>i. (JInt i, s1)) (py_int (sign @ ip))
           else map_option (\<lambda>w. (JFloat w, s3)) (py_float (sign @ ip @ fp @ ep))))"

definition json_constants :: "(bytes \<times> json) list" where
  "json_constants = [(''null'', JNull), (''true'', JBool True), (''false'', JBool False), (''NaN'', JFloat NAN),
     (''Infinity'', JFloat (of_nat INF_BITS)), (''-Infinity'', JFloat (of_nat (2 ^ 63 + INF_BITS)))]"

definition read_scalar :: "bytes \<Rightarrow> (json \<times> bytes) option" where
  "read_scalar s = (case find (\<lambda>(w, j). startswith s w) json_constants of
      Some (w, j) \<Rightarrow> Some (j, drop (length w) s)
    | None \<Rightarrow> read_number s)"

lemma skip_space_length: "length (skip_space s) \<le> length s"
  by (simp add: skip_space_def length_dropWhile_le)

text \<open>
  Values, the elements of a list after \<open>[\<close> and the members of an object after \<open>{\<close>. The tests
  that the rest is shorter always hold; they make the recursion visibly well-founded. Of equal
  keys the last value counts, at the place of the first.
\<close>

function read_value :: "bytes \<Rightarrow> (json \<times> bytes) option"
  and read_elements :: "bytes \<Rightarrow> (json list \<times> bytes) option"
  and read_members :: "bytes \<Rightarrow> ((bytes \<times> json) list \<times> bytes) option" where
  "read_value s = (case s of
      [] \<Rightarrow> None
    | c # s1 \<Rightarrow>
        if c = QUOTE then map_option (\<lambda>(t, r). (JStr t, r)) (read_string s1)
        else if c = CHR ''['' then
          (if startswith (skip_space s1) '']'' then Some (JList [], tl (skip_space s1))
           else map_option (\<lambda>(xs, r). (JList xs, r)) (read_elements (skip_space s1)))
        else if c = CHR ''{'' then
          (if startswith (skip_space s1) ''}'' then Some (JObj [], tl (skip_space s1))
           else map_option (\<lambda>(kvs, r). (JObj (dict_update kvs []), r)) (read_members (skip_space s1)))
        else read_scalar s)"
| "read_elements s = (case read_value s of
      None \<Rightarrow> None
    | Some (x, r) \<Rightarrow> (case skip_space r of
          [] \<Rightarrow> None
        | c # r1 \<Rightarrow>
            if c = CHR '']'' then Some ([x], r1)
            else if c = CHR '','' \<and> length (skip_space r1) < length s
              then map_option (\<lambda>(xs, r2). (x # xs, r2)) (read_elements (skip_space r1))
            else None))"
| "read_members s = (case s of
      [] \<Rightarrow> None
    | q # s1 \<Rightarrow> if q \<noteq> QUOTE then None else (case read_string s1 of
          None \<Rightarrow> None
        | Some (k, r) \<Rightarrow> (case skip_space r of
              [] \<Rightarrow> None
            | c # r1 \<Rightarrow> if c \<noteq> CHR '':'' \<or> \<not> length (skip_space r1) < length s then None
                else (case read_value (skip_space r1) of
                  None \<Rightarrow> None
                | Some (x, r2) \<Rightarrow> (case skip_space r2 of
                      [] \<Rightarrow> None
                    | d # r3 \<Rightarrow>
                        if d = CHR ''}'' then Some ([(k, x)], r3)
                        else if d = CHR '','' \<and> length (skip_space r3) < length s
                          then map_option (\<lambda>(kvs, r4). ((k, x) # kvs, r4)) (read_members (skip_space r3))
                        else None)))))"
  by pat_completeness auto

termination
  by (relation "measures [\<lambda>x. case x of Inl s \<Rightarrow> length s | Inr (Inl s) \<Rightarrow> length s | Inr (Inr s) \<Rightarrow> length s,
      \<lambda>x. case x of Inl s \<Rightarrow> 0 | Inr y \<Rightarrow> 1]")
    (auto simp: le_imp_less_Suc skip_space_length)

declare read_value.simps [simp del] read_elements.simps [simp del] read_members.simps [simp del]

definition json_loads :: "bytes \<Rightarrow> json option" where
  "json_loads s =
     (if startswith s [CHR 0xEF, CHR 0xBB, CHR 0xBF] then None
      else (case read_value (skip_space s) of
          None \<Rightarrow> None
        | Some (j, r) \<Rightarrow> if skip_space r = [] then Some j else None))"

end
