(* ===== verification/PyCompare.thy ===== *)
theory PyCompare
  imports Json
begin

text \<open>
  Python's comparisons on values \<open>json.loads\<close> can return, and \<open>list.sort\<close>. The NaN of
  \<open>json.loads\<close> is one object, so inside containers, where Python compares by identity first,
  it equals itself. Texts of errors are those of CPython 3.12. Where two sort keys cannot be
  compared, sorting raises when the insertion meets such a pair.
\<close>

section \<open>Python's comparisons on JSON values\<close>

datatype pynum = NegInf | Fin int | PosInf | NotANumber

text \<open>Finite numbers in units of \<open>2\<close> to the \<open>-1074\<close>, so integers and floats compare exactly.\<close>

definition float_num :: "f64 \<Rightarrow> pynum" where
  "float_num w =
     (if f64_nan w then NotANumber
      else if f64_finite w then Fin (f64_scaled w)
      else if f64_sign w = 1 then NegInf else PosInf)"

fun json_num :: "json \<Rightarrow> pynum option" where
  "json_num (JBool b) = Some (Fin (if b then 2 ^ 1074 else 0))"
| "json_num (JInt i) = Some (Fin (i * 2 ^ 1074))"
| "json_num (JFloat w) = Some (float_num w)"
| "json_num _ = None"

fun num_less :: "pynum \<Rightarrow> pynum \<Rightarrow> bool" where
  "num_less NotANumber _ = False"
| "num_less _ NotANumber = False"
| "num_less NegInf b = (b \<noteq> NegInf)"
| "num_less (Fin x) (Fin y) = (x < y)"
| "num_less (Fin x) PosInf = True"
| "num_less _ _ = False"

definition num_eq :: "pynum \<Rightarrow> pynum \<Rightarrow> bool" where
  "num_eq a b \<longleftrightarrow> a \<noteq> NotANumber \<and> a = b"

definition is_nan :: "json \<Rightarrow> bool" where
  "is_nan j \<longleftrightarrow> (case j of JFloat w \<Rightarrow> f64_nan w | _ \<Rightarrow> False)"

lemma size_zip: "(x, y) \<in> set (zip xs ys) \<Longrightarrow> size x < Suc (size_list size xs)"
  by (auto dest!: set_zip_leftD simp: size_list_estimation' less_Suc_eq_le)

lemma size_item: "(k, x) \<in> set kvs \<Longrightarrow> size x < Suc (size_list (size_prod (\<lambda>_. 0) size) kvs)"
proof -
  assume "(k, x) \<in> set kvs"
  then have "size_prod (\<lambda>_. 0) size (k, x) \<le> size_list (size_prod (\<lambda>_. 0) size) kvs" by (rule size_list_estimation') simp
  then show ?thesis by simp
qed

text \<open>\<open>a == b\<close>; elements of containers are equal when they are the same object or equal.\<close>

function json_eq :: "json \<Rightarrow> json \<Rightarrow> bool" where
  "json_eq a b = (case (json_num a, json_num b) of
      (Some x, Some y) \<Rightarrow> num_eq x y
    | _ \<Rightarrow> (case (a, b) of
        (JNull, JNull) \<Rightarrow> True
      | (JStr s, JStr t) \<Rightarrow> s = t
      | (JList xs, JList ys) \<Rightarrow> length xs = length ys \<and>
          list_all (\<lambda>(x, y). is_nan x \<and> is_nan y \<or> json_eq x y) (zip xs ys)
      | (JObj kvs, JObj lvs) \<Rightarrow> length kvs = length lvs \<and>
          list_all (\<lambda>(k, x). case map_of lvs k of None \<Rightarrow> False | Some y \<Rightarrow> is_nan x \<and> is_nan y \<or> json_eq x y) kvs
      | _ \<Rightarrow> False))"
  by pat_completeness auto

termination
  by (relation "measure (\<lambda>(a, b). size a)") (auto dest: size_zip size_item)

declare json_eq.simps [simp del]

definition same_or_eq :: "json \<Rightarrow> json \<Rightarrow> bool" where
  "same_or_eq x y \<longleftrightarrow> is_nan x \<and> is_nan y \<or> json_eq x y"

fun type_name :: "json \<Rightarrow> bytes" where
  "type_name JNull = ''NoneType''"
| "type_name (JBool _) = ''bool''"
| "type_name (JInt _) = ''int''"
| "type_name (JFloat _) = ''float''"
| "type_name (JStr _) = ''str''"
| "type_name (JList _) = ''list''"
| "type_name (JObj _) = ''dict''"

datatype cmp = Lt | Le | Gt | Ge

fun cmp_text :: "cmp \<Rightarrow> bytes" where
  "cmp_text Lt = ''<''" | "cmp_text Le = ''<=''" | "cmp_text Gt = ''>''" | "cmp_text Ge = ''>=''"

definition quoted :: "bytes \<Rightarrow> bytes" where
  "quoted s = CHR 0x27 # s @ [CHR 0x27]"

definition unorderable :: "cmp \<Rightarrow> json \<Rightarrow> json \<Rightarrow> bool res" where
  "unorderable c a b = Inl (TypeError (quoted (cmp_text c) @ '' not supported between instances of '' @
     quoted (type_name a) @ '' and '' @ quoted (type_name b)))"

definition cmp_of :: "cmp \<Rightarrow> bool \<Rightarrow> bool \<Rightarrow> bool \<Rightarrow> bool" where
  "cmp_of c lt eq gt = (case c of Lt \<Rightarrow> lt | Le \<Rightarrow> lt \<or> eq | Gt \<Rightarrow> gt | Ge \<Rightarrow> gt \<or> eq)"

text \<open>\<open>a < b\<close> and its companions; lists compare at the first place where they differ.\<close>

fun json_cmp :: "cmp \<Rightarrow> json \<Rightarrow> json \<Rightarrow> bool res"
  and list_cmp :: "cmp \<Rightarrow> json list \<Rightarrow> json list \<Rightarrow> bool res" where
  "json_cmp c (JList xs) b = (case b of JList ys \<Rightarrow> list_cmp c xs ys | _ \<Rightarrow> unorderable c (JList xs) b)"
| "json_cmp c a b = (case (json_num a, json_num b) of
      (Some x, Some y) \<Rightarrow> Inr (cmp_of c (num_less x y) (num_eq x y) (num_less y x))
    | _ \<Rightarrow> (case (a, b) of
        (JStr s, JStr t) \<Rightarrow> Inr (cmp_of c (s < t) (s = t) (t < s))
      | _ \<Rightarrow> unorderable c a b))"
| "list_cmp c [] ys = Inr (cmp_of c (ys \<noteq> []) (ys = []) False)"
| "list_cmp c (x # xs) ys = (case ys of
      [] \<Rightarrow> Inr (cmp_of c False False True)
    | y # ys' \<Rightarrow> if same_or_eq x y then list_cmp c xs ys' else json_cmp c x y)"

definition hashable :: "json \<Rightarrow> bool" where
  "hashable j \<longleftrightarrow> (case j of JList _ \<Rightarrow> False | JObj _ \<Rightarrow> False | _ \<Rightarrow> True)"

text \<open>\<open>v in target\<close>\<close>

definition json_in :: "json \<Rightarrow> json \<Rightarrow> bool res" where
  "json_in v target = (case target of
      JList xs \<Rightarrow> Inr (list_ex (same_or_eq v) xs)
    | JStr t \<Rightarrow> (case v of
          JStr s \<Rightarrow> Inr (find_sub s t \<noteq> None)
        | _ \<Rightarrow> Inl (TypeError (quoted ''in <string>'' @ '' requires string as left operand, not '' @ type_name v)))
    | JObj kvs \<Rightarrow>
        if \<not> hashable v then Inl (TypeError (''unhashable type: '' @ quoted (type_name v)))
        else Inr (case v of JStr s \<Rightarrow> map_of kvs s \<noteq> None | _ \<Rightarrow> False)
    | _ \<Rightarrow> Inl (TypeError (''argument of type '' @ quoted (type_name target) @ '' is not iterable'')))"

fun truthy :: "json \<Rightarrow> bool" where
  "truthy JNull = False"
| "truthy (JBool b) = b"
| "truthy (JInt i) = (i \<noteq> 0)"
| "truthy (JFloat w) = (\<not> f64_eq w 0)"
| "truthy (JStr s) = (s \<noteq> [])"
| "truthy (JList xs) = (xs \<noteq> [])"
| "truthy (JObj kvs) = (kvs \<noteq> [])"

section \<open>Access to values\<close>

definition no_attribute :: "json \<Rightarrow> bytes \<Rightarrow> 'a res" where
  "no_attribute j name = Inl (AttributeError (quoted (type_name j) @ '' object has no attribute '' @ quoted name))"

text \<open>\<open>j.items()\<close>, \<open>j.get(k, d)\<close> and \<open>j[k]\<close> with a \<open>str\<close> key\<close>

definition json_items :: "json \<Rightarrow> (bytes \<times> json) list res" where
  "json_items j = (case j of JObj kvs \<Rightarrow> Inr kvs | _ \<Rightarrow> no_attribute j ''items'')"

definition json_get :: "json \<Rightarrow> bytes \<Rightarrow> json \<Rightarrow> json res" where
  "json_get j k d = (case j of
      JObj kvs \<Rightarrow> Inr (case map_of kvs k of None \<Rightarrow> d | Some v \<Rightarrow> v)
    | _ \<Rightarrow> no_attribute j ''get'')"

definition json_item :: "json \<Rightarrow> bytes \<Rightarrow> json res" where
  "json_item j k = (case j of
      JObj kvs \<Rightarrow> (case map_of kvs k of Some v \<Rightarrow> Inr v | None \<Rightarrow> Inl KeyError)
    | JStr _ \<Rightarrow> Inl (TypeError (''string indices must be integers, not '' @ quoted ''str''))
    | JList _ \<Rightarrow> Inl (TypeError ''list indices must be integers or slices, not str'')
    | _ \<Rightarrow> Inl (TypeError (quoted (type_name j) @ '' object is not subscriptable'')))"

text \<open>\<open>json.loads(b.decode("utf-8"))\<close>\<close>

definition decode_json :: "bytes \<Rightarrow> json res" where
  "decode_json b = rbind (py_decode b) (\<lambda>s. case json_loads s of None \<Rightarrow> Inl JSONDecodeError | Some j \<Rightarrow> Inr j)"

section \<open>Sorting\<close>

text \<open>A stable sort by insertion from the left.\<close>

fun insert_by :: "('a \<Rightarrow> 'a \<Rightarrow> bool res) \<Rightarrow> 'a \<Rightarrow> 'a list \<Rightarrow> 'a list res" where
  "insert_by lt x [] = Inr [x]"
| "insert_by lt x (y # ys) =
     rbind (lt x y) (\<lambda>b. if b then Inr (x # y # ys) else rbind (insert_by lt x ys) (\<lambda>zs. Inr (y # zs)))"

definition py_sort :: "('a \<Rightarrow> 'a \<Rightarrow> bool res) \<Rightarrow> bool \<Rightarrow> 'a list \<Rightarrow> 'a list res" where
  "py_sort lt reverse xs =
     (if reverse then rbind (rfold (insert_by lt) (rev xs) []) (\<lambda>ys. Inr (rev ys))
      else rfold (insert_by lt) xs [])"

end
