(* ===== verification/Doc.thy ===== *)
theory Doc
  imports Db PyCompare
begin

text \<open>
  \<open>zenith/engine/doc.py\<close>: collections of JSON documents over an LSM tree, with secondary index
  entries and filtered queries. \<open>None\<close> is \<open>JNull\<close>; documents and filters are values
  \<open>json.loads\<close> can return. \<open>re.search\<close> is a parameter. The set of the indexed fields of a
  collection is a list without repetitions; its order decides only the order of index writes.
\<close>

section \<open>Nested fields\<close>

fun nested_field :: "json \<Rightarrow> bytes list \<Rightarrow> json" where
  "nested_field cur [] = cur"
| "nested_field cur (token # tokens) =
     (let next = (case cur of
          JObj kvs \<Rightarrow> (case map_of kvs token of None \<Rightarrow> JNull | Some v \<Rightarrow> v)
        | JList xs \<Rightarrow> (case py_int token of
              None \<Rightarrow> JNull
            | Some i \<Rightarrow> (case py_index xs i of None \<Rightarrow> JNull | Some v \<Rightarrow> v))
        | _ \<Rightarrow> JNull)
      in if next = JNull then JNull else nested_field next tokens)"

definition get_nested_field :: "json \<Rightarrow> bytes \<Rightarrow> json" where
  "get_nested_field doc path = nested_field doc (split_char (CHR ''.'') path)"

section \<open>The store\<close>

record docs = db +
  d_indexes :: "(bytes \<times> bytes list) list"

definition doc_key :: "bytes \<Rightarrow> bytes \<Rightarrow> bytes" where
  "doc_key collection doc_id = ''__DOC__:'' @ collection @ '':'' @ doc_id"

definition idx_key :: "bytes \<Rightarrow> bytes \<Rightarrow> json \<Rightarrow> bytes \<Rightarrow> bytes" where
  "idx_key collection field_path field_val doc_id =
     ''__DIDX__:'' @ collection @ '':'' @ field_path @ '':'' @ json_dumps (sort_keys field_val) @ '':'' @ doc_id"

definition indexed_fields :: "bytes \<Rightarrow> (docs, bytes list) pym" where
  "indexed_fields collection D = (Inr (case map_of (d_indexes D) collection of None \<Rightarrow> [] | Some fs \<Rightarrow> fs), D)"

definition index_doc :: "host \<Rightarrow> bytes \<Rightarrow> bytes \<Rightarrow> json \<Rightarrow> (docs, unit) pym" where
  "index_doc H collection doc_id doc = bnd (indexed_fields collection) (\<lambda>fs. for_each fs (\<lambda>field.
     let val = get_nested_field doc field
     in if val \<noteq> JNull then db_put H (idx_key collection field val doc_id) ''1'' else ret ()))"

definition unindex_doc :: "host \<Rightarrow> bytes \<Rightarrow> bytes \<Rightarrow> json \<Rightarrow> (docs, unit) pym" where
  "unindex_doc H collection doc_id doc = bnd (indexed_fields collection) (\<lambda>fs. for_each fs (\<lambda>field.
     let val = get_nested_field doc field
     in if val \<noteq> JNull then db_del H (idx_key collection field val doc_id) else ret ()))"

text \<open>The value of stored bytes: \<open>None\<close> when they are not JSON.\<close>

definition load_doc :: "bytes \<Rightarrow> json" where
  "load_doc raw = (case decode_json raw of Inl _ \<Rightarrow> JNull | Inr j \<Rightarrow> j)"

definition doc_get :: "host \<Rightarrow> bytes \<Rightarrow> bytes \<Rightarrow> (docs, json) pym" where
  "doc_get H collection doc_id = bnd (db_get H (doc_key collection doc_id)) (\<lambda>raw.
     ret (case raw of None \<Rightarrow> JNull | Some b \<Rightarrow> load_doc b))"

text \<open>
  \<open>insert\<close> with the id as it is formatted into keys and as it is stored: callers are meant to
  pass a string, but nothing stops another value.
\<close>

definition doc_insert_as :: "host \<Rightarrow> bytes \<Rightarrow> bytes \<Rightarrow> json \<Rightarrow> json \<Rightarrow> (docs, json) pym" where
  "doc_insert_as H collection doc_id id_value document = (case document of
      JObj kvs \<Rightarrow>
        let doc = JObj (AList.update ''_id'' id_value kvs) in
        bnd (doc_get H collection doc_id) (\<lambda>old_doc.
        sq (if truthy old_doc then unindex_doc H collection doc_id old_doc else ret ())
       (sq (db_put H (doc_key collection doc_id) (json_dumps doc))
       (sq (index_doc H collection doc_id doc) (ret doc))))
    | _ \<Rightarrow> raise (TypeError ''Document must be a dict''))"

definition doc_insert :: "host \<Rightarrow> bytes \<Rightarrow> bytes \<Rightarrow> json \<Rightarrow> (docs, json) pym" where
  "doc_insert H collection doc_id document = doc_insert_as H collection doc_id (JStr doc_id) document"

text \<open>The patch of \<open>update\<close> is a dict.\<close>

definition doc_update :: "host \<Rightarrow> bytes \<Rightarrow> bytes \<Rightarrow> (bytes \<times> json) list \<Rightarrow> (docs, json) pym" where
  "doc_update H collection doc_id patch = bnd (doc_get H collection doc_id) (\<lambda>doc. case doc of
      JNull \<Rightarrow> ret JNull
    | JObj kvs \<Rightarrow> doc_insert H collection doc_id (JObj (dict_update patch kvs))
    | _ \<Rightarrow> lift_res (no_attribute doc ''update''))"

definition doc_delete :: "host \<Rightarrow> bytes \<Rightarrow> bytes \<Rightarrow> (docs, bool) pym" where
  "doc_delete H collection doc_id = bnd (doc_get H collection doc_id) (\<lambda>old_doc.
     if old_doc = JNull then ret False
     else sq (unindex_doc H collection doc_id old_doc)
         (sq (db_del H (doc_key collection doc_id)) (ret True)))"

section \<open>Queries\<close>

text \<open>One operator of a condition: False when the document does not match.\<close>

definition match_op :: "(json \<Rightarrow> bytes \<Rightarrow> bool res) \<Rightarrow> json \<Rightarrow> bytes \<Rightarrow> json \<Rightarrow> bool res" where
  "match_op search val op target =
     (if op = ''$eq'' then Inr (json_eq val target)
      else if op = ''$ne'' then Inr (\<not> json_eq val target)
      else if op = ''$gt'' then (if val = JNull then Inr False else rbind (json_cmp Le val target) (\<lambda>b. Inr (\<not> b)))
      else if op = ''$gte'' then (if val = JNull then Inr False else rbind (json_cmp Lt val target) (\<lambda>b. Inr (\<not> b)))
      else if op = ''$lt'' then (if val = JNull then Inr False else rbind (json_cmp Ge val target) (\<lambda>b. Inr (\<not> b)))
      else if op = ''$lte'' then (if val = JNull then Inr False else rbind (json_cmp Gt val target) (\<lambda>b. Inr (\<not> b)))
      else if op = ''$in'' then json_in val target
      else if op = ''$nin'' then rbind (json_in val target) (\<lambda>b. Inr (\<not> b))
      else if op = ''$contains'' then (case val of
          JList _ \<Rightarrow> json_in target val
        | JStr _ \<Rightarrow> json_in target val
        | _ \<Rightarrow> Inr False)
      else if op = ''$regex'' then (case val of JStr s \<Rightarrow> search target s | _ \<Rightarrow> Inr False)
      else Inr True)"

fun match_ops :: "(json \<Rightarrow> bytes \<Rightarrow> bool res) \<Rightarrow> json \<Rightarrow> (bytes \<times> json) list \<Rightarrow> bool res" where
  "match_ops search val [] = Inr True"
| "match_ops search val ((op, target) # ops) =
     rbind (match_op search val op target) (\<lambda>b. if b then match_ops search val ops else Inr False)"

fun match_paths :: "(json \<Rightarrow> bytes \<Rightarrow> bool res) \<Rightarrow> json \<Rightarrow> (bytes \<times> json) list \<Rightarrow> bool res" where
  "match_paths search doc [] = Inr True"
| "match_paths search doc ((path, condition) # items) =
     (let val = get_nested_field doc path in
      rbind (case condition of JObj ops \<Rightarrow> match_ops search val ops | _ \<Rightarrow> Inr (json_eq val condition))
        (\<lambda>b. if b then match_paths search doc items else Inr False))"

definition matches_filter :: "(json \<Rightarrow> bytes \<Rightarrow> bool res) \<Rightarrow> json \<Rightarrow> json \<Rightarrow> bool res" where
  "matches_filter search doc filter_dict = rbind (json_items filter_dict) (match_paths search doc)"

text \<open>The arguments of \<open>query\<close> with their default values.\<close>

record query_args =
  q_filter :: json
  q_fn :: "(json \<Rightarrow> bool res) option"
  q_sort_by :: "bytes option"
  q_reverse :: bool
  q_limit :: int
  q_offset :: int

definition query_defaults :: query_args where
  "query_defaults = \<lparr>q_filter = JNull, q_fn = None, q_sort_by = None, q_reverse = False, q_limit = 100, q_offset = 0\<rparr>"

fun select_docs :: "(json \<Rightarrow> bytes \<Rightarrow> bool res) \<Rightarrow> query_args \<Rightarrow> (bytes \<times> bytes) list \<Rightarrow> json list res" where
  "select_docs search q [] = Inr []"
| "select_docs search q ((k, v) # es) = (case decode_json v of
      Inl _ \<Rightarrow> select_docs search q es
    | Inr doc \<Rightarrow>
        rbind (if truthy (q_filter q) then matches_filter search doc (q_filter q) else Inr True) (\<lambda>b.
        rbind (if b then (case q_fn q of None \<Rightarrow> Inr True | Some f \<Rightarrow> f doc) else Inr False) (\<lambda>c.
        rbind (select_docs search q es) (\<lambda>ds. Inr (if c then doc # ds else ds)))))"

text \<open>The order of \<open>sort_by\<close>: documents without the field come last.\<close>

definition sort_less :: "bytes \<Rightarrow> json \<Rightarrow> json \<Rightarrow> bool res" where
  "sort_less path d e =
     (let x = get_nested_field d path; y = get_nested_field e path in
      if (x = JNull) \<noteq> (y = JNull) then Inr (y = JNull)
      else if same_or_eq x y then Inr False
      else json_cmp Lt x y)"

definition doc_prefix :: "bytes \<Rightarrow> bytes" where
  "doc_prefix collection = ''__DOC__:'' @ collection @ '':''"

definition doc_query :: "(json \<Rightarrow> bytes \<Rightarrow> bool res) \<Rightarrow> bytes \<Rightarrow> query_args \<Rightarrow> (docs, json list) pym" where
  "doc_query search collection q = bnd (db_prefix (doc_prefix collection)) (\<lambda>es.
     bnd (lift_res (select_docs search q es)) (\<lambda>results.
     bnd (lift_res (case q_sort_by q of
         None \<Rightarrow> Inr results
       | Some path \<Rightarrow> if path = [] then Inr results else py_sort (sort_less path) (q_reverse q) results)) (\<lambda>sorted.
     ret (py_slice_int sorted (q_offset q) (q_offset q + q_limit q)))))"

definition doc_count :: "bytes \<Rightarrow> (docs, nat) pym" where
  "doc_count collection = bnd (db_prefix (doc_prefix collection)) (\<lambda>es. ret (length es))"

text \<open>
  \<open>doc["_id"]\<close> formatted into a key: a string, or a scalar as Python formats it. A list or a
  dict, which \<open>insert\<close> was not meant to be given, is formatted as JSON here.
\<close>

fun scalar_text :: "json \<Rightarrow> bytes" where
  "scalar_text (JStr s) = s"
| "scalar_text (JBool b) = (if b then ''True'' else ''False'')"
| "scalar_text JNull = ''None''"
| "scalar_text (JFloat w) = str_float w"
| "scalar_text j = json_dumps j"

definition doc_id_text :: "json \<Rightarrow> bytes res" where
  "doc_id_text doc = rbind (json_item doc ''_id'') (\<lambda>j. Inr (scalar_text j))"

definition doc_create_index :: "host \<Rightarrow> (json \<Rightarrow> bytes \<Rightarrow> bool res) \<Rightarrow> bytes \<Rightarrow> bytes \<Rightarrow> (docs, unit) pym" where
  "doc_create_index H search collection field_path =
     sq (\<lambda>D. (Inr (), D\<lparr>d_indexes := AList.update collection
              (List.insert field_path (case map_of (d_indexes D) collection of None \<Rightarrow> [] | Some fs \<Rightarrow> fs)) (d_indexes D)\<rparr>))
        (bnd (doc_query search collection (query_defaults\<lparr>q_limit := 1000000\<rparr>)) (\<lambda>ds. for_each ds (\<lambda>doc.
           let val = get_nested_field doc field_path
           in if val \<noteq> JNull then bnd (lift_res (doc_id_text doc)) (\<lambda>i. db_put H (idx_key collection field_path val i) ''1'')
              else ret ())))"

end
