(* ===== verification/JsonLaws.thy ===== *)
theory JsonLaws
  imports Json
begin

text \<open>
  Reading what \<open>json.dumps\<close> wrote gives the value back: strings through their escapes, floats
  through their shortest decimal text, lists and dicts with distinct keys.
\<close>

section \<open>Strings\<close>

definition scalar_point :: "nat \<Rightarrow> bool" where
  "scalar_point p \<longleftrightarrow> p < 0x110000 \<and> \<not> (0xD800 \<le> p \<and> p \<le> 0xDFFF)"

lemma lead_mod:
  "u < 32 \<Longrightarrow> (192 + u) mod 32 = u" "u < 16 \<Longrightarrow> (224 + u) mod 16 = u" "u < 8 \<Longrightarrow> (240 + u) mod 8 = u"
  "v < 64 \<Longrightarrow> (128 + v) mod 64 = v" for u v :: nat
  using mod_mult_self3 [of 6 32 u] mod_mult_self3 [of 14 16 u] mod_mult_self3 [of 30 8 u] mod_mult_self3 [of 2 64 v] by simp_all

lemma digits64: "w < 64 \<Longrightarrow> (a * 64 + w) div 64 = a" "w < 64 \<Longrightarrow> (a * 64 + w) mod 64 = w" for a w :: nat
  by simp_all

lemma div64: "n div 4096 = n div 64 div 64" "n div 262144 = n div 64 div 64 div 64" for n :: nat
  by (simp_all add: div_mult2_eq [symmetric])

lemma div4096_64: "n div 262144 = n div 4096 div 64" for n :: nat
  by (simp add: div_mult2_eq [symmetric])

lemma utf8_encode_4: "0x10000 \<le> n \<Longrightarrow> utf8_encode n =
    [char_of (0xF0 + n div 262144), char_of (0x80 + n div 4096 mod 64), char_of (0x80 + n div 64 mod 64), char_of (0x80 + n mod 64)]"
  by (simp add: utf8_encode_def)

lemma scalar_point_4: "0x10000 \<le> n \<Longrightarrow> n < 0x110000 \<Longrightarrow> scalar_point n"
  by (simp add: scalar_point_def)

lemma first_point_valid:
  assumes "utf8_head s \<noteq> 0"
  shows "snd (first_point s) = utf8_head s \<and> utf8_encode (fst (first_point s)) = take (utf8_head s) s \<and> scalar_point (fst (first_point s))"
proof -
  obtain a bs where s: "s = a # bs" using assms by (cases s) auto
  define x where "x = (of_char a :: nat)"
  consider (1) "in_range 0x00 0x7F a" "utf8_head s = 1" | (2) "in_range 0xC2 0xDF a" "tail2 bs" "utf8_head s = 2"
    | (3) "in_range 0xE0 0xEF a" "tail3 a bs" "utf8_head s = 3" | (4) "in_range 0xF0 0xF4 a" "tail4 a bs" "utf8_head s = 4"
    using assms by (auto simp: s split: if_splits)
  then show ?thesis
  proof cases
    case 1
    then have "x < 0x80" by (simp add: in_range_def x_def)
    then show ?thesis using 1(2) by (simp add: s utf8_encode_def scalar_point_def flip: x_def) (simp add: x_def)
  next
    case 2
    then obtain b cs where b: "bs = b # cs" by (cases bs) auto
    define y where "y = (of_char b :: nat)"
    have r: "0xC2 \<le> x" "x \<le> 0xDF" "0x80 \<le> y" "y \<le> 0xBF" using 2 by (auto simp: b in_range_def cont_def x_def y_def)
    define u where "u = x - 0xC0" define v where "v = y - 0x80"
    have uv: "x = 0xC0 + u" "y = 0x80 + v" "u < 32" "2 \<le> u" "v < 64" using r by (auto simp: u_def v_def)
    have "first_point s = (u * 64 + v, 2)" using uv by (simp add: s b lead_mod flip: x_def y_def)
    moreover have "utf8_encode (u * 64 + v) = [char_of x, char_of y]" using uv by (simp add: utf8_encode_def)
    ultimately show ?thesis using 2(3) uv by (simp add: s b scalar_point_def numeral_2_eq_2 x_def y_def)
  next
    case 3
    then obtain b c cs where b: "bs = b # c # cs" by (cases "(a, bs)" rule: tail3.cases) auto
    define y where "y = (of_char b :: nat)" define z where "z = (of_char c :: nat)"
    have r: "0xE0 \<le> x" "x \<le> 0xEF" "0x80 \<le> y" "y \<le> 0xBF" "0x80 \<le> z" "z \<le> 0xBF" "x = 0xE0 \<longrightarrow> 0xA0 \<le> y" "x = 0xED \<longrightarrow> y \<le> 0x9F"
      using 3 by (auto simp: b in_range_def cont_def x_def y_def z_def)
    define u where "u = x - 0xE0" define v where "v = y - 0x80" define w where "w = z - 0x80"
    have uv: "x = 0xE0 + u" "y = 0x80 + v" "z = 0x80 + w" "u < 16" "v < 64" "w < 64" "u = 0 \<longrightarrow> 32 \<le> v" "u = 13 \<longrightarrow> v < 32"
      using r by (auto simp: u_def v_def w_def)
    let ?p = "u * 4096 + v * 64 + w"
    have f: "first_point s = (?p, 3)" using uv by (simp add: s b lead_mod flip: x_def y_def z_def)
    have e: "?p = (u * 64 + v) * 64 + w" by simp
    have d: "?p div 64 = u * 64 + v" "?p mod 64 = w" unfolding e using digits64 uv(6) by blast+
    have d2: "?p div 4096 = u" "(u * 64 + v) mod 64 = v" unfolding div64 d(1) using digits64 uv(5) by blast+
    have p: "0x800 \<le> ?p" "?p < 0x10000" using uv by (cases "u = 0"; simp)+
    have "utf8_encode ?p = [char_of x, char_of y, char_of z]"
      using p uv(4-6) by (simp add: utf8_encode_def d d2 uv(1-3))
    moreover have "u \<le> 12 \<or> u = 13 \<or> 14 \<le> u" by linarith
    then have "scalar_point ?p" using uv(4-8) p(2) unfolding scalar_point_def by auto
    ultimately show ?thesis using 3(3) f by (simp add: s b numeral_3_eq_3 x_def y_def z_def)
  next
    case 4
    then obtain b c d cs where b: "bs = b # c # d # cs" by (cases "(a, bs)" rule: tail4.cases) auto
    define y where "y = (of_char b :: nat)" define z where "z = (of_char c :: nat)" define k where "k = (of_char d :: nat)"
    have r: "0xF0 \<le> x" "x \<le> 0xF4" "0x80 \<le> y" "y \<le> 0xBF" "0x80 \<le> z" "z \<le> 0xBF" "0x80 \<le> k" "k \<le> 0xBF"
      "x = 0xF0 \<longrightarrow> 0x90 \<le> y" "x = 0xF4 \<longrightarrow> y \<le> 0x8F"
      using 4 by (auto simp: b in_range_def cont_def x_def y_def z_def k_def)
    define u where "u = x - 0xF0" define v where "v = y - 0x80" define w where "w = z - 0x80" define q where "q = k - 0x80"
    have uv: "x = 0xF0 + u" "y = 0x80 + v" "z = 0x80 + w" "k = 0x80 + q" "u < 5" "v < 64" "w < 64" "q < 64" "u = 0 \<longrightarrow> 16 \<le> v" "u = 4 \<longrightarrow> v < 16"
      using r by (auto simp: u_def v_def w_def q_def)
    let ?p = "u * 262144 + v * 4096 + w * 64 + q"
    have f: "first_point s = (?p, 4)" using uv by (simp add: s b lead_mod flip: x_def y_def z_def k_def)
    have e: "?p = ((u * 64 + v) * 64 + w) * 64 + q" by simp
    have d: "?p div 64 = (u * 64 + v) * 64 + w" "?p mod 64 = q" unfolding e using digits64 uv(8) by blast+
    have d2: "?p div 4096 = u * 64 + v" unfolding div64 d(1) using digits64 uv(7) by blast
    have d3: "?p div 64 mod 64 = w" "?p div 4096 mod 64 = v" unfolding d(1) d2 using digits64 uv(6,7) by blast+
    have d4: "?p div 262144 = u" unfolding div4096_64 d2 by (rule digits64(1) [OF uv(6)])
    have "u = 0 \<or> 1 \<le> u" "u = 4 \<or> u \<le> 3" using uv(5) by linarith+
    then have p: "0x10000 \<le> ?p" "?p < 0x110000" using uv(5-10) by auto
    have "utf8_encode ?p = [char_of x, char_of y, char_of z, char_of k]"
      by (simp only: utf8_encode_4 [OF p(1)] d4 d3 d(2) uv(1-4))
    moreover have "scalar_point ?p" by (rule scalar_point_4 [OF p])
    moreover have "take 4 s = [a, b, c, d]" by (simp add: s b)
    ultimately show ?thesis unfolding f fst_conv snd_conv 4(3) by (simp add: x_def y_def z_def k_def)
  qed
qed

lemma str_points_valid:
  "utf8_valid s \<Longrightarrow> concat (map utf8_encode (str_points s)) = s \<and> list_all scalar_point (str_points s)"
proof (induction s rule: utf8_valid.induct)
  case (1 s)
  show ?case
  proof (cases "s = []")
    case True
    then show ?thesis by (simp add: str_points.simps)
  next
    case False
    then have h: "utf8_head s \<noteq> 0" "utf8_valid (drop (utf8_head s) s)"
      using "1.prems" by (auto simp: utf8_valid.simps [of s] Let_def split: if_splits)
    obtain p n where p: "first_point s = (p, n)" by fastforce
    have f: "n = utf8_head s" "utf8_encode p = take n s" "scalar_point p" using first_point_valid [OF h(1)] p by auto
    have "str_points s = p # str_points (drop n s)" using False by (subst str_points.simps) (simp add: p)
    moreover have "concat (map utf8_encode (str_points (drop n s))) = drop n s \<and> list_all scalar_point (str_points (drop n s))"
      using "1.IH" [OF False refl h] f(1) by simp
    ultimately show ?thesis using f(2,3) by simp
  qed
qed

lemma hex_digit_val: "d < 16 \<Longrightarrow> hex_val (hex_digit d) = Some d"
  by (cases "d < 10") (simp_all add: hex_digit_def Let_def)

lemma read_hex4_hex4: "n < 65536 \<Longrightarrow> read_hex4 (hex4 n @ r) = Some (n, r)"
proof -
  assume n: "n < 65536"
  have "n div 4096 mod 16 * 4096 + n div 256 mod 16 * 256 + n div 16 mod 16 * 16 + n mod 16 = n"
  proof -
    have "n div 4096 mod 16 = n div 4096" using n by simp
    moreover have "n div 4096 = n div 256 div 16" "n div 256 = n div 16 div 16" by (simp_all add: div_mult2_eq [symmetric])
    ultimately show ?thesis
      using div_mult_mod_eq [of "n div 256" 16] div_mult_mod_eq [of "n div 16" 16] div_mult_mod_eq [of n 16] by linarith
  qed
  moreover have "n div 4096 mod 16 = n div 4096" "n div 4096 < 16" using n by simp_all
  ultimately show ?thesis by (simp add: hex4_def hex_digit_val del: hex_val.simps)
qed

lemma read_string_escape:
  assumes "scalar_point p"
  shows "read_string (escape_point p @ t) = map_option (\<lambda>(u, r). (utf8_encode p @ u, r)) (read_string t)"
proof -
  have bs: "BACKSLASH \<noteq> QUOTE" "\<not> of_char BACKSLASH < (32 :: nat)" by (simp_all add: BACKSLASH_def QUOTE_def)
  have read_simple: "read_string (BACKSLASH # e # t) = map_option (\<lambda>(u, r). (x # u, r)) (read_string t)"
    if "e \<noteq> CHR ''u''" "simple_escape e = Some x" for e x
    using that bs by (subst read_string.simps) simp
  have unicode: "read_string (BACKSLASH # CHR ''u'' # s) = map_option (\<lambda>(u, r). (utf8_encode n @ u, r)) (read_string t)"
    if "read_unicode s = Some (n, t)" for s n
    using that bs by (subst read_string.simps) simp
  have read_plain: "read_string (c # t) = map_option (\<lambda>(u, r). (c # u, r)) (read_string t)"
    if "c \<noteq> QUOTE" "c \<noteq> BACKSLASH" "32 \<le> (of_char c :: nat)" for c
    using that by (subst read_string.simps) auto
  consider (simple) "p \<in> {34, 92, 10, 13, 9, 12, 8}" | (plain) "32 \<le> p" "p < 127" "p \<noteq> 34" "p \<noteq> 92"
    | (low) "p \<notin> {34, 92, 10, 13, 9, 12, 8}" "\<not> (32 \<le> p \<and> p < 127)" "p < 0x10000" | (high) "0x10000 \<le> p" by force
  then show ?thesis
  proof cases
    case simple
    have c: "char_of (34 :: nat) = QUOTE" "char_of (92 :: nat) = BACKSLASH" "char_of (10 :: nat) = CHR 0x0A" "char_of (13 :: nat) = CHR 0x0D"
      "char_of (9 :: nat) = CHR 0x09" "char_of (12 :: nat) = CHR 0x0C" "char_of (8 :: nat) = CHR 0x08"
      by (simp_all add: char_of_eq_iff QUOTE_def BACKSLASH_def)
    have e: "simple_escape QUOTE = Some QUOTE" "simple_escape BACKSLASH = Some BACKSLASH" "simple_escape (CHR ''n'') = Some (CHR 0x0A)"
      "simple_escape (CHR ''r'') = Some (CHR 0x0D)" "simple_escape (CHR ''t'') = Some (CHR 0x09)"
      "simple_escape (CHR ''f'') = Some (CHR 0x0C)" "simple_escape (CHR ''b'') = Some (CHR 0x08)"
      "QUOTE \<noteq> CHR ''u''" "BACKSLASH \<noteq> CHR ''u''"
      by (simp_all add: simple_escape_def QUOTE_def BACKSLASH_def)
    from simple show ?thesis by (auto simp: escape_point_def utf8_encode_def c e read_simple)
  next
    case plain
    have p: "of_char (char_of p :: char) = p" using plain by simp
    then have "char_of p \<noteq> c" if "p \<noteq> of_char c" for c using that by auto
    then have "char_of p \<noteq> QUOTE" "char_of p \<noteq> BACKSLASH" "32 \<le> (of_char (char_of p :: char) :: nat)"
      using plain p by (simp_all add: QUOTE_def BACKSLASH_def)
    then show ?thesis using plain read_plain by (simp add: escape_point_def utf8_encode_def)
  next
    case low
    have "read_unicode (hex4 p @ t) = Some (p, t)"
      using assms low(3) by (auto simp: read_unicode_def read_hex4_hex4 scalar_point_def high_surrogate_def)
    moreover have "escape_point p = BACKSLASH # CHR ''u'' # hex4 p" using low by (simp only: escape_point_def insert_iff de_Morgan_disj if_False simp_thms if_True)
    ultimately show ?thesis using unicode by simp
  next
    case high
    let ?h = "0xD800 + (p - 0x10000) div 1024" and ?l = "0xDC00 + (p - 0x10000) mod 1024"
    have p: "p < 0x110000" using assms by (simp add: scalar_point_def)
    then have h: "high_surrogate ?h" "low_surrogate ?l" "?h < 65536" "?l < 65536"
      by (auto simp: high_surrogate_def low_surrogate_def)
    have "0x10000 + (?h - 0xD800) * 1024 + (?l - 0xDC00) = p" using high by (simp add: div_mult_mod_eq)
    then have "read_unicode (hex4 ?h @ BACKSLASH # CHR ''u'' # hex4 ?l @ t) = Some (p, t)"
      using h by (simp add: read_unicode_def read_hex4_hex4)
    then show ?thesis using high unicode by (simp add: escape_point_def)
  qed
qed

lemma read_string_points:
  "list_all scalar_point ps \<Longrightarrow>
   read_string (concat (map escape_point ps) @ QUOTE # r) = Some (concat (map utf8_encode ps), r)"
proof (induction ps)
  case Nil
  then show ?case by (subst read_string.simps) simp
next
  case (Cons p ps)
  then show ?case by (simp add: read_string_escape)
qed

lemma read_dump_str: "utf8_valid s \<Longrightarrow> read_string (tl (dump_str s) @ r) = Some (s, r)"
  using read_string_points [of "str_points s" r] str_points_valid [of s] by (simp add: dump_str_def)

section \<open>Numbers\<close>

definition number_shape :: "bytes \<Rightarrow> bytes \<Rightarrow> bytes \<Rightarrow> bool" where
  "number_shape ip fp ep \<longleftrightarrow>
     (ip = ''0'' \<or> ip \<noteq> [] \<and> list_all is_digit ip \<and> hd ip \<noteq> CHR ''0'') \<and>
     (fp = [] \<or> (\<exists>ds. fp = CHR ''.'' # ds \<and> ds \<noteq> [] \<and> list_all is_digit ds)) \<and>
     (ep = [] \<or> (\<exists>sg ds. ep = CHR ''e'' # sg @ ds \<and> (sg = ''-'' \<or> sg = ''+'') \<and> ds \<noteq> [] \<and> list_all is_digit ds))"

text \<open>What may follow a number.\<close>

definition closed :: "bytes \<Rightarrow> bool" where
  "closed r \<longleftrightarrow> (case r of [] \<Rightarrow> True | c # _ \<Rightarrow> \<not> is_digit c \<and> c \<noteq> CHR ''.'' \<and> c \<noteq> CHR ''e'' \<and> c \<noteq> CHR ''E'')"

lemma digits_stop: "list_all is_digit ds \<Longrightarrow> closed r \<Longrightarrow> takeWhile is_digit (ds @ r) = ds \<and> dropWhile is_digit (ds @ r) = r"
  by (induction ds) (auto simp: closed_def split: list.splits)

lemma not_digit: "\<not> is_digit (CHR ''.'')" "\<not> is_digit (CHR ''e'')" "\<not> is_digit (CHR ''-'')" "\<not> is_digit (CHR ''+'')" "is_digit (CHR ''0'')"
  by (simp_all add: is_digit_def)

lemma digits_stop2:
  "list_all is_digit ds \<Longrightarrow> r = [] \<or> \<not> is_digit (hd r) \<Longrightarrow> takeWhile is_digit (ds @ r) = ds \<and> dropWhile is_digit (ds @ r) = r"
  by (induction ds) (cases r; auto)+

lemma tail_stop: "number_shape ip fp ep \<Longrightarrow> closed r \<Longrightarrow> fp @ ep @ r = [] \<or> \<not> is_digit (hd (fp @ ep @ r))"
  "number_shape ip fp ep \<Longrightarrow> closed r \<Longrightarrow> ep @ r = [] \<or> \<not> is_digit (hd (ep @ r))"
  by (auto simp: number_shape_def closed_def not_digit split: list.splits)

lemma read_int_part_shape:
  assumes "number_shape ip fp ep" "closed r"
  shows "read_int_part (ip @ fp @ ep @ r) = Some (ip, fp @ ep @ r)"
proof (cases "ip = ''0''")
  case True
  then show ?thesis by (simp add: read_int_part_def)
next
  case False
  then obtain c ds where ip: "ip = c # ds" "list_all is_digit ip" "c \<noteq> CHR ''0''"
    using assms(1) by (cases ip) (auto simp: number_shape_def)
  with digits_stop2 [OF ip(2) tail_stop(1) [OF assms]] show ?thesis by (simp add: read_int_part_def)
qed

lemma read_frac_part_shape:
  assumes "number_shape ip fp ep" "closed r"
  shows "read_frac_part (fp @ ep @ r) = (fp, ep @ r)"
proof (cases "fp = []")
  case True
  have "(case ep @ r of [] \<Rightarrow> True | c # _ \<Rightarrow> c \<noteq> CHR ''.'')"
    using assms by (auto simp: number_shape_def closed_def split: list.splits)
  then show ?thesis using True by (auto simp: read_frac_part_def split: list.splits)
next
  case False
  then obtain d ds where fp: "fp = CHR ''.'' # d # ds" "list_all is_digit (d # ds)"
    using assms(1) by (auto simp: number_shape_def neq_Nil_conv)
  with digits_stop2 [OF fp(2) tail_stop(2) [OF assms]] show ?thesis by (simp add: read_frac_part_def)
qed

lemma read_exp_part_shape:
  assumes "number_shape ip fp ep" "closed r"
  shows "read_exp_part (ep @ r) = (ep, r)"
proof (cases "ep = []")
  case True
  then show ?thesis using assms(2) by (auto simp: read_exp_part_def closed_def split: list.splits)
next
  case False
  then obtain s d ds where ep: "ep = CHR ''e'' # s # d # ds" "s = CHR ''-'' \<or> s = CHR ''+''" "list_all is_digit (d # ds)"
    using assms(1) by (auto simp: number_shape_def neq_Nil_conv)
  have "r = [] \<or> \<not> is_digit (hd r)" using assms(2) by (auto simp: closed_def split: list.splits)
  with digits_stop2 [OF ep(3) this] ep show ?thesis by (auto simp: read_exp_part_def)
qed

lemma read_number_shape:
  assumes "number_shape ip fp ep" "closed r"
  shows "read_number ((if neg then ''-'' else []) @ ip @ fp @ ep @ r) =
     (if fp = [] \<and> ep = [] then map_option (\<lambda>i. (JInt i, r)) (py_int ((if neg then ''-'' else []) @ ip))
      else map_option (\<lambda>w. (JFloat w, r)) (py_float ((if neg then ''-'' else []) @ ip @ fp @ ep)))"
proof -
  have "ip \<noteq> [] \<and> hd ip \<noteq> CHR ''-''" using assms(1) not_digit by (cases ip) (auto simp: number_shape_def)
  then obtain c cs where "ip = c # cs" "c \<noteq> CHR ''-''" by (cases ip) auto
  then have "(case (if neg then ''-'' else []) @ ip @ fp @ ep @ r of c # r' \<Rightarrow> if c = CHR ''-'' then (''-'', r') else ([], (if neg then ''-'' else []) @ ip @ fp @ ep @ r)
      | [] \<Rightarrow> ([], (if neg then ''-'' else []) @ ip @ fp @ ep @ r)) = (if neg then ''-'' else [], ip @ fp @ ep @ r)"
    by simp
  then show ?thesis
    unfolding read_number_def Let_def
    by (simp only: case_prod_conv read_int_part_shape [OF assms] read_frac_part_shape [OF assms] read_exp_part_shape [OF assms] option.case)
      (auto simp: Let_def)
qed

lemma read_value_number:
  assumes "number_shape ip fp ep"
  shows "read_value ((if neg then ''-'' else []) @ ip @ s) = read_number ((if neg then ''-'' else []) @ ip @ s)"
proof -
  obtain c cs where c: "ip = c # cs" "is_digit c" using assms by (cases ip) (auto simp: number_shape_def not_digit)
  obtain b bs where b: "(if neg then ''-'' else []) @ ip @ s = b # bs" "b = CHR ''-'' \<or> is_digit b" using c by (cases neg) auto
  have ne: "b \<noteq> QUOTE" "b \<noteq> CHR ''[''" "b \<noteq> CHR ''{''" using b(2) by (auto simp: QUOTE_def is_digit_def)
  have "find (\<lambda>(w, j). startswith ((if neg then ''-'' else []) @ ip @ s) w) json_constants = None"
  proof -
    have "c \<noteq> CHR ''n''" "c \<noteq> CHR ''t''" "c \<noteq> CHR ''f''" "c \<noteq> CHR ''N''" "c \<noteq> CHR ''I''" "c \<noteq> CHR ''-''"
      using c(2) by (auto simp: is_digit_def)
    then show ?thesis by (cases neg) (simp_all add: json_constants_def startswith_def c(1))
  qed
  then have "read_scalar ((if neg then ''-'' else []) @ ip @ s) = read_number ((if neg then ''-'' else []) @ ip @ s)"
    by (simp add: read_scalar_def)
  then show ?thesis using ne unfolding b(1) by (subst read_value.simps) simp
qed

lemma hd_str_nat: "0 < n \<Longrightarrow> hd (str_nat n) \<noteq> CHR ''0''"
proof (induction n rule: str_nat.induct)
  case (1 n)
  show ?case
  proof (cases "n < 10")
    case True
    then have "str_nat n = [digit_char n]" by (simp add: str_nat.simps)
    moreover have "digit_val (digit_char n) \<noteq> digit_val (CHR ''0'')" using True "1.prems" by (simp add: digit_val_def digit_char_def)
    then have "digit_char n \<noteq> CHR ''0''" by metis
    ultimately show ?thesis by simp
  next
    case False
    then show ?thesis using "1.IH" by (subst str_nat.simps) (simp add: hd_append)
  qed
qed

lemma digits_str_nat: "list_all is_digit (str_nat n)"
  using str_nat_digits [of n] by (simp add: list_all_iff)

lemma shape_int: "number_shape (str_nat n) [] []"
  using hd_str_nat [of n] digits_str_nat [of n] by (cases "n = 0") (auto simp: number_shape_def str_nat.simps [of 0] digit_char_def char_of_eq_iff)

lemma strip_zeros_prefix: "\<exists>k. ds = strip_zeros ds @ replicate k (CHR ''0'')"
proof -
  let ?z = "takeWhile (\<lambda>c. c = CHR ''0'') (rev ds)"
  have "rev ds = ?z @ dropWhile (\<lambda>c. c = CHR ''0'') (rev ds)" by simp
  then have "ds = strip_zeros ds @ rev ?z" unfolding strip_zeros_def by (metis rev_append rev_rev_ident)
  moreover have "?z = replicate (length ?z) (CHR ''0'')" by (rule replicate_eqI) (auto dest: set_takeWhileD)
  ultimately show ?thesis by (metis rev_replicate)
qed

lemma strip_zeros_digits:
  assumes "0 < n"
  obtains c cs where "strip_zeros (str_nat n) = c # cs" "c \<noteq> CHR ''0''" "list_all is_digit (c # cs)"
proof -
  obtain k where k: "str_nat n = strip_zeros (str_nat n) @ replicate k (CHR ''0'')" using strip_zeros_prefix by blast
  have h: "hd (str_nat n) \<noteq> CHR ''0''" by (rule hd_str_nat [OF assms])
  have "strip_zeros (str_nat n) \<noteq> []"
  proof
    assume "strip_zeros (str_nat n) = []"
    then have "str_nat n = replicate k (CHR ''0'')" using k by simp
    then show False using h str_nat_nonempty [of n] by (cases k) auto
  qed
  then obtain c cs where c: "strip_zeros (str_nat n) = c # cs" by (cases "strip_zeros (str_nat n)") auto
  moreover have "c \<noteq> CHR ''0''" using h k unfolding c by (metis append_Cons list.sel(1))
  moreover have "list_all is_digit (c # cs)" using digits_str_nat [of n] k unfolding c by (metis list_all_append)
  ultimately show ?thesis by (rule that)
qed

lemma list_all_replicate: "list_all P (replicate k x) \<longleftrightarrow> k = 0 \<or> P x"
  by (induction k) auto

lemma shape_exI: "t = ip @ fp @ ep \<Longrightarrow> number_shape ip fp ep \<Longrightarrow> fp \<noteq> [] \<or> ep \<noteq> [] \<Longrightarrow>
    \<exists>ip fp ep. t = ip @ fp @ ep \<and> number_shape ip fp ep \<and> (fp \<noteq> [] \<or> ep \<noteq> [])"
  by blast

lemma shape_format_decimal:
  assumes "0 < n"
  shows "\<exists>ip fp ep. format_decimal (n, e) = ip @ fp @ ep \<and> number_shape ip fp ep \<and> (fp \<noteq> [] \<or> ep \<noteq> [])"
proof -
  obtain c cs where ds: "strip_zeros (str_nat n) = c # cs" "c \<noteq> CHR ''0''" "list_all is_digit (c # cs)"
    by (rule strip_zeros_digits [OF assms])
  let ?dp = "int (length (str_nat n)) + e"
  consider (a) "-4 < ?dp" "?dp \<le> 0" | (b) "0 < ?dp" "?dp \<le> 16" "int (length (c # cs)) \<le> ?dp"
    | (c) "0 < ?dp" "?dp \<le> 16" "?dp < int (length (c # cs))" | (d) "\<not> (-4 < ?dp \<and> ?dp \<le> 16)" by linarith
  then show ?thesis
  proof cases
    case a
    let ?fp = "CHR ''.'' # replicate (nat (- ?dp)) (CHR ''0'') @ c # cs"
    have "format_decimal (n, e) = ''0'' @ ?fp @ []" using a ds(1) by (simp add: format_decimal_def Let_def)
    moreover have "number_shape ''0'' ?fp []" using ds(3) not_digit by (auto simp: number_shape_def list_all_replicate)
    ultimately show ?thesis by (rule shape_exI) simp
  next
    case b
    let ?ip = "c # cs @ replicate (nat ?dp - length (c # cs)) (CHR ''0'')"
    have "format_decimal (n, e) = ?ip @ ''.0'' @ []" using b ds(1) by (simp add: format_decimal_def Let_def)
    moreover have "number_shape ?ip ''.0'' []" using ds not_digit by (auto simp: number_shape_def list_all_replicate)
    ultimately show ?thesis by (rule shape_exI) simp
  next
    case c
    let ?k = "nat ?dp"
    have k: "0 < ?k" "?k < length (c # cs)" using c by auto
    have f1: "format_decimal (n, e) = take ?k (c # cs) @ (CHR ''.'' # drop ?k (c # cs)) @ []"
      using c ds(1) by (simp add: format_decimal_def Let_def)
    have hd: "hd (take ?k (c # cs)) = c" "take ?k (c # cs) \<noteq> []" "drop ?k (c # cs) \<noteq> []" using k by (auto simp: take_Cons')
    have dg: "list_all is_digit (take ?k (c # cs))" "list_all is_digit (drop ?k (c # cs))"
      using ds(3) by (auto simp only: list_all_iff dest: in_set_takeD in_set_dropD)
    have "number_shape (take ?k (c # cs)) (CHR ''.'' # drop ?k (c # cs)) []"
      unfolding number_shape_def using ds(2) hd dg by simp
    then show ?thesis by (rule shape_exI [OF f1]) simp
  next
    case d
    let ?x = "str_nat (nat \<bar>?dp - 1\<bar>)"
    let ?fp = "if cs = [] then [] else CHR ''.'' # cs" and ?xs = "if length ?x < 2 then ''0'' @ ?x else ?x"
    let ?ep = "CHR ''e'' # (if ?dp - 1 < 0 then ''-'' else ''+'') @ ?xs"
    have "format_decimal (n, e) = [c] @ ?fp @ ?ep"
      unfolding format_decimal_def case_prod_conv Let_def if_not_P [OF d] ds(1) by simp
    moreover have x: "?xs \<noteq> []" "list_all is_digit ?xs" using digits_str_nat not_digit by auto
    have "number_shape [c] ?fp ?ep" unfolding number_shape_def
    proof (intro conjI)
      show "[c] = ''0'' \<or> [c] \<noteq> [] \<and> list_all is_digit [c] \<and> hd [c] \<noteq> CHR ''0''" using ds(2,3) by simp
      show "?fp = [] \<or> (\<exists>ds. ?fp = CHR ''.'' # ds \<and> ds \<noteq> [] \<and> list_all is_digit ds)" using ds(3) by simp
      have "(if ?dp - 1 < 0 then ''-'' else ''+'') = ''-'' \<or> (if ?dp - 1 < 0 then ''-'' else ''+'') = ''+''" by simp
      with x show "?ep = [] \<or> (\<exists>sg ds. ?ep = CHR ''e'' # sg @ ds \<and> (sg = ''-'' \<or> sg = ''+'') \<and> ds \<noteq> [] \<and> list_all is_digit ds)"
        by blast
    qed
    ultimately show ?thesis by (rule shape_exI) simp
  qed
qed

lemma shape_str_float:
  assumes "f64_finite w"
  shows "\<exists>ip fp ep. str_float w = (if f64_sign w = 1 then ''-'' else []) @ ip @ fp @ ep \<and> number_shape ip fp ep \<and> (fp \<noteq> [] \<or> ep \<noteq> [])"
proof (cases w rule: str_float_cases)
  case (1 s)
  then have "str_float w = (if f64_sign w = 1 then ''-'' else []) @ ''0'' @ ''.0'' @ []" using assms by simp
  moreover have "number_shape ''0'' ''.0'' []" using not_digit by (simp add: number_shape_def)
  ultimately show ?thesis by blast
next
  case (2 s d k)
  obtain ip fp ep where "format_decimal d = ip @ fp @ ep" "number_shape ip fp ep" "fp \<noteq> [] \<or> ep \<noteq> []"
    using shape_format_decimal [OF 2(4), of "snd d"] unfolding prod.collapse by blast
  moreover from this(1) have "str_float w = (if f64_sign w = 1 then ''-'' else []) @ ip @ fp @ ep"
    unfolding 2(1) 2(5) by simp
  ultimately show ?thesis by blast
next
  case (3 s)
  define m where "m = nat \<bar>f64_scaled w\<bar> * 5 ^ 1074"
  have "0 < nat \<bar>f64_scaled w\<bar>" using 3(2) by simp
  then have "0 < m" unfolding m_def by (intro mult_pos_pos zero_less_power) simp_all
  note m = this hd_str_nat [OF this]
  have "number_shape (str_nat m) [] ''e-1074''"
    unfolding number_shape_def
    by (rule conjI, simp add: m digits_str_nat, rule conjI, simp, rule disjI2, rule exI [of _ "''-''"], rule exI [of _ "''1074''"], simp add: is_digit_def)
  moreover have "str_float w = (if f64_sign w = 1 then ''-'' else []) @ str_nat m @ [] @ ''e-1074''" using 3(1) unfolding 3(3) m_def append_Nil .
  ultimately show ?thesis by blast
qed

section \<open>Values\<close>

text \<open>
  The values that survive the round trip: well-formed texts, distinct keys, and floats that are
  not NaN (which differs from itself).
\<close>

fun json_ok :: "json \<Rightarrow> bool" where
  "json_ok (JFloat w) = (\<not> f64_nan w)"
| "json_ok (JStr s) = utf8_valid s"
| "json_ok (JList xs) = list_all json_ok xs"
| "json_ok (JObj kvs) = (distinct (map fst kvs) \<and> list_all (\<lambda>(k, v). utf8_valid k \<and> json_ok v) kvs)"
| "json_ok _ = True"

definition ender :: "bytes \<Rightarrow> bool" where
  "ender r \<longleftrightarrow> (case r of [] \<Rightarrow> True | c # _ \<Rightarrow> c = CHR '','' \<or> c = CHR '']'' \<or> c = CHR ''}'' \<or> c = CHR '':'')"

lemma ender_closed: "ender r \<Longrightarrow> closed r"
  by (auto simp: ender_def closed_def is_digit_def split: list.splits)

lemma ender_simps [simp]: "ender []" "ender (CHR '','' # r)" "ender (CHR '']'' # r)" "ender (CHR ''}'' # r)"
  "ender (CHR '':'' # r)"
  by (simp_all add: ender_def)

lemma read_int: "closed r \<Longrightarrow> read_value (str_int i @ r) = Some (JInt i, r)"
proof -
  assume r: "closed r"
  let ?n = "str_nat (nat \<bar>i\<bar>)"
  have s: "str_int i = (if i < 0 then ''-'' else []) @ ?n" by (simp add: str_int_def)
  have "read_value (((if i < 0 then ''-'' else []) @ ?n) @ r) = map_option (\<lambda>j. (JInt j, r)) (py_int (str_int i))"
    using read_value_number [OF shape_int, of "i < 0" "nat \<bar>i\<bar>" r] read_number_shape [OF shape_int r, of "i < 0" "nat \<bar>i\<bar>"]
    by (simp add: s)
  then show ?thesis unfolding s by (simp flip: s)
qed

lemma inf_bits: "\<not> f64_finite w \<Longrightarrow> \<not> f64_nan w \<Longrightarrow> w = of_nat ((if f64_sign w = 1 then 2 ^ 63 else 0) + INF_BITS)"
proof -
  assume "\<not> f64_finite w" "\<not> f64_nan w"
  then have "f64_exp w = 2047" "f64_mant w = 0" by (auto simp: f64_finite_def f64_nan_def)
  then have "unat w mod 2 ^ 63 = INF_BITS" using f64_parts(2) [of w] by (simp add: INF_BITS_def)
  then show ?thesis using f64_bits [of w] by simp
qed

lemma read_float: "\<not> f64_nan w \<Longrightarrow> closed r \<Longrightarrow> read_value (dump_float w @ r) = Some (JFloat w, r)"
proof -
  assume n: "\<not> f64_nan w" and r: "closed r"
  show ?thesis
  proof (cases "f64_finite w")
    case True
    obtain ip fp ep where sh: "str_float w = (if f64_sign w = 1 then ''-'' else []) @ ip @ fp @ ep" "number_shape ip fp ep" "fp \<noteq> [] \<or> ep \<noteq> []"
      using shape_str_float [OF True] by blast
    have c: "(fp = [] \<and> ep = []) = False" using sh(3) by auto
    have "read_value (str_float w @ r) = map_option (\<lambda>w. (JFloat w, r)) (py_float (str_float w))"
      by (simp only: sh(1) append_assoc read_value_number [OF sh(2)] read_number_shape [OF sh(2) r] c if_False)
    then show ?thesis using n True by (simp add: dump_float_def py_float_str_float)
  next
    case False
    have "read_value (''Infinity'' @ r) = Some (JFloat (of_nat INF_BITS), r)"
      "read_value (''-Infinity'' @ r) = Some (JFloat (of_nat (2 ^ 63 + INF_BITS)), r)"
      by (subst read_value.simps, simp add: read_scalar_def json_constants_def startswith_def QUOTE_def)+
    then show ?thesis using n False inf_bits [OF False n] by (cases "f64_sign w = 1") (simp_all add: dump_float_def)
  qed
qed

lemma dump_str_body:
  assumes "utf8_valid s"
  obtains b where "dump_str s = QUOTE # b" "\<And>r. read_string (b @ r) = Some (s, r)"
  using that [of "tl (dump_str s)"] read_dump_str [OF assms] by (simp add: dump_str_def)

lemma json_dumps_head: "json_dumps j \<noteq> [] \<and> \<not> json_space (hd (json_dumps j)) \<and> hd (json_dumps j) \<noteq> CHR '']'' \<and>
    of_char (hd (json_dumps j)) < (128 :: nat)"
proof -
  have num: "\<not> json_space c \<and> c \<noteq> CHR '']'' \<and> of_char c < (128 :: nat)" if "is_digit c \<or> c = CHR ''-''" for c
    using that by (auto simp: json_space_def is_digit_def)
  have int: "str_int i \<noteq> [] \<and> (is_digit (hd (str_int i)) \<or> hd (str_int i) = CHR ''-'')" for i
    using str_nat_digits [of "nat i"] by (cases "str_nat (nat i)") (auto simp: str_int_def)
  have flt: "dump_float w \<noteq> [] \<and> \<not> json_space (hd (dump_float w)) \<and> hd (dump_float w) \<noteq> CHR '']'' \<and>
      of_char (hd (dump_float w)) < (128 :: nat)" for w
  proof (cases "f64_finite w \<and> \<not> f64_nan w")
    case True
    obtain ip fp ep where sh: "str_float w = (if f64_sign w = 1 then ''-'' else []) @ ip @ fp @ ep" "number_shape ip fp ep"
      using shape_str_float True by blast
    obtain c cs where "ip = c # cs" "is_digit c" using sh(2) by (cases ip) (auto simp: number_shape_def not_digit)
    then show ?thesis using True num by (auto simp: dump_float_def sh(1))
  next
    case False
    then show ?thesis by (auto simp: dump_float_def json_space_def)
  qed
  show ?thesis using num int flt by (cases j) (auto simp: json_space_def dump_str_def QUOTE_def split: if_splits)
qed

lemma skip_space_dumps: "skip_space (json_dumps j @ r) = json_dumps j @ r"
  using json_dumps_head [of j] by (cases "json_dumps j") (simp_all add: skip_space_def)

lemma skip_space_char: "\<not> json_space c \<Longrightarrow> skip_space (c # r) = c # r"
  by (simp add: skip_space_def)

lemma skip_space_space: "skip_space (CHR '' '' # r) = skip_space r"
  by (simp add: skip_space_def json_space_def)

lemma not_space: "\<not> json_space (CHR '','')" "\<not> json_space (CHR '']'')" "\<not> json_space (CHR ''}'')" "\<not> json_space (CHR '':'')"
    "\<not> json_space QUOTE"
  by (simp_all add: json_space_def QUOTE_def)

lemmas skip_simps = skip_space_dumps skip_space_char skip_space_space not_space

definition reads_back :: "json \<Rightarrow> bool" where
  "reads_back j \<longleftrightarrow> (\<forall>r. ender r \<longrightarrow> read_value (json_dumps j @ r) = Some (j, r))"

lemma read_elements_dumps:
  "\<forall>x \<in> set xs. reads_back x \<Longrightarrow> xs \<noteq> [] \<Longrightarrow>
   read_elements (join_with '', '' (map json_dumps xs) @ CHR '']'' # r) = Some (xs, r)"
proof (induction xs rule: induct_list012)
  case (2 x)
  then have "read_value (json_dumps x @ CHR '']'' # r) = Some (x, CHR '']'' # r)" by (simp add: reads_back_def)
  then show ?case by (subst read_elements.simps) (simp add: skip_simps)
next
  case (3 x y ys)
  let ?s = "join_with '', '' (map json_dumps (y # ys)) @ CHR '']'' # r"
  have "read_value (json_dumps x @ CHR '','' # CHR '' '' # ?s) = Some (x, CHR '','' # CHR '' '' # ?s)"
    using "3.prems" by (simp add: reads_back_def)
  moreover have "skip_space (CHR '' '' # ?s) = ?s"
    by (cases ys) (simp_all add: skip_simps)
  moreover have "read_elements ?s = Some (y # ys, r)" using "3.IH"(2) "3.prems" by simp
  ultimately show ?case by (subst read_elements.simps) (simp add: skip_space_char not_space)
qed simp

lemma read_members_dumps:
  "\<forall>(k, x) \<in> set kvs. utf8_valid k \<and> reads_back x \<Longrightarrow> kvs \<noteq> [] \<Longrightarrow>
   read_members (join_with '', '' (map (\<lambda>(k, v). dump_str k @ '': '' @ json_dumps v) kvs) @ CHR ''}'' # r) = Some (kvs, r)"
proof (induction kvs rule: induct_list012)
  case (2 kx)
  obtain k x where kx: "kx = (k, x)" by fastforce
  let ?t = "json_dumps x @ CHR ''}'' # r"
  have "utf8_valid k" using "2.prems" by (simp add: kx)
  obtain b where b: "dump_str k = QUOTE # b" "\<And>r. read_string (b @ r) = Some (k, r)"
    by (rule dump_str_body [OF \<open>utf8_valid k\<close>]) blast
  have "read_value ?t = Some (x, CHR ''}'' # r)" using "2.prems" by (simp add: kx reads_back_def)
  then show ?case
    by (subst read_members.simps) (simp add: kx b skip_simps)
next
  case (3 kx ky kvs)
  obtain k x where kx: "kx = (k, x)" by fastforce
  obtain k' x' where ky: "ky = (k', x')" by fastforce
  let ?s = "join_with '', '' (map (\<lambda>(k, v). dump_str k @ '': '' @ json_dumps v) (ky # kvs)) @ CHR ''}'' # r"
  let ?t = "json_dumps x @ CHR '','' # CHR '' '' # ?s"
  have "utf8_valid k" using "3.prems" by (simp add: kx)
  obtain b where b: "dump_str k = QUOTE # b" "\<And>r. read_string (b @ r) = Some (k, r)"
    by (rule dump_str_body [OF \<open>utf8_valid k\<close>]) blast
  obtain b' where b': "dump_str k' = QUOTE # b'" by (simp add: dump_str_def)
  have "read_value ?t = Some (x, CHR '','' # CHR '' '' # ?s)" using "3.prems" by (simp add: kx reads_back_def)
  moreover have "skip_space (CHR '' '' # ?s) = ?s"
    by (cases kvs) (simp_all add: ky b' skip_simps)
  moreover have "read_members ?s = Some (ky # kvs, r)" using "3.IH"(2) "3.prems" by simp
  ultimately show ?case
    by (subst read_members.simps) (simp add: kx b skip_simps)
qed simp

lemma dict_update_distinct: "distinct (map fst (d @ kvs)) \<Longrightarrow> dict_update kvs d = d @ kvs"
proof (induction kvs arbitrary: d)
  case (Cons e kvs)
  obtain k v where e: "e = (k, v)" by fastforce
  have "AList.update k v d = d @ [(k, v)]" using Cons.prems by (induction d) (auto simp: e)
  then show ?case using Cons.IH [of "d @ [(k, v)]"] Cons.prems by (simp add: e)
qed simp

lemma json_reads_back: "json_ok j \<Longrightarrow> reads_back j"
proof (induction j)
  case (JList xs)
  then have i: "\<forall>x \<in> set xs. reads_back x" by (auto simp: list_all_iff)
  show ?case unfolding reads_back_def
  proof (intro allI impI)
    fix r
    show "read_value (json_dumps (JList xs) @ r) = Some (JList xs, r)"
    proof (cases xs)
      case Nil
      then show ?thesis by (subst read_value.simps) (simp add: skip_simps QUOTE_def startswith_def)
    next
      case (Cons x ys)
      let ?s = "join_with '', '' (map json_dumps xs) @ CHR '']'' # r"
      have "skip_space ?s = ?s" "\<not> startswith ?s '']''"
        using json_dumps_head [of x] by (cases ys; cases "json_dumps x"; simp add: Cons skip_space_char startswith_def)+
      moreover have "read_elements ?s = Some (xs, r)" by (rule read_elements_dumps [OF i]) (simp add: Cons)
      ultimately show ?thesis by (subst read_value.simps) (simp add: QUOTE_def)
    qed
  qed
next
  case (JObj kvs)
  then have i: "\<forall>(k, x) \<in> set kvs. utf8_valid k \<and> reads_back x" and d: "distinct (map fst kvs)"
    by (auto simp: list_all_iff)
  show ?case unfolding reads_back_def
  proof (intro allI impI)
    fix r
    show "read_value (json_dumps (JObj kvs) @ r) = Some (JObj kvs, r)"
    proof (cases kvs)
      case Nil
      then show ?thesis by (subst read_value.simps) (simp add: skip_simps QUOTE_def startswith_def)
    next
      case (Cons kx ys)
      obtain k x where kx: "kx = (k, x)" by fastforce
      let ?s = "join_with '', '' (map (\<lambda>(k, v). dump_str k @ '': '' @ json_dumps v) kvs) @ CHR ''}'' # r"
      obtain b where b: "dump_str k = QUOTE # b" by (simp add: dump_str_def)
      have "skip_space ?s = ?s" "\<not> startswith ?s ''}''"
        by (cases ys; simp add: Cons kx b skip_simps; simp add: startswith_def QUOTE_def)+
      moreover have "read_members ?s = Some (kvs, r)" by (rule read_members_dumps [OF i]) (simp add: Cons)
      moreover have "dict_update kvs [] = kvs" using dict_update_distinct [of "[]" kvs] d by simp
      ultimately show ?thesis by (subst read_value.simps) (simp add: QUOTE_def)
    qed
  qed
next
  case (JStr s)
  then obtain b where "dump_str s = QUOTE # b" "\<And>r. read_string (b @ r) = Some (s, r)" by (auto elim: dump_str_body)
  then show ?case unfolding reads_back_def by (subst read_value.simps) simp
next
  case (JInt i)
  then show ?case by (simp add: reads_back_def read_int ender_closed)
next
  case (JFloat w)
  then show ?case by (simp add: reads_back_def read_float ender_closed)
next
  case (JBool b)
  then show ?case unfolding reads_back_def
    by (cases b; subst read_value.simps; simp add: read_scalar_def json_constants_def startswith_def QUOTE_def)
next
  case JNull
  then show ?case unfolding reads_back_def
    by (subst read_value.simps) (simp add: read_scalar_def json_constants_def startswith_def QUOTE_def)
qed

lemma json_roundtrip: "json_ok j \<Longrightarrow> json_loads (json_dumps j) = Some j"
proof -
  assume "json_ok j"
  then have "read_value (json_dumps j) = Some (j, [])" using json_reads_back [of j] unfolding reads_back_def by (metis append_Nil2 ender_simps(1))
  moreover have "\<not> startswith (json_dumps j) [CHR 0xEF, CHR 0xBB, CHR 0xBF]"
    using json_dumps_head [of j] by (cases "json_dumps j") (auto simp: startswith_def)
  ultimately show ?thesis using skip_space_dumps [of j "[]"] by (simp add: json_loads_def skip_space_def)
qed

end
