(* ===== verification/SortLaws.thy ===== *)
theory SortLaws
  imports Doc "HOL-Library.Multiset" "HOL-Library.Product_Lexorder"
begin

text \<open>
  \<open>list.sort\<close> as modelled in theory PyCompare is the library's stable sort whenever the
  comparison is the strict order of keys; the numbers of JSON values as a linear order.
\<close>

section \<open>The order of numbers\<close>

text \<open>Between numbers the order is Python's; \<open>NotANumber\<close>, which Python does not order, comes last.\<close>

fun num_key :: "pynum \<Rightarrow> int \<times> int" where
  "num_key NegInf = (0, 0)"
| "num_key (Fin x) = (1, x)"
| "num_key PosInf = (2, 0)"
| "num_key NotANumber = (3, 0)"

lemma num_key_inject [simp]: "num_key a = num_key b \<longleftrightarrow> a = b"
  by (cases a; cases b) auto

instantiation pynum :: linorder
begin

definition less_eq_pynum :: "pynum \<Rightarrow> pynum \<Rightarrow> bool" where
  "less_eq_pynum a b \<longleftrightarrow> num_key a \<le> num_key b"

definition less_pynum :: "pynum \<Rightarrow> pynum \<Rightarrow> bool" where
  "less_pynum a b \<longleftrightarrow> num_key a < num_key b"

instance
  by standard (auto simp only: less_eq_pynum_def less_pynum_def less_le_not_le order_refl num_key_inject intro: order_trans order_antisym linear dest: antisym)

end

lemma num_less_order: "a \<noteq> NotANumber \<Longrightarrow> b \<noteq> NotANumber \<Longrightarrow> num_less a b \<longleftrightarrow> a < b"
  by (cases a; cases b) (auto simp: less_pynum_def)

section \<open>Stable sorting\<close>

definition put_after :: "('a \<Rightarrow> 'k :: linorder) \<Rightarrow> 'a \<Rightarrow> 'a list \<Rightarrow> 'a list" where
  "put_after key x ys = takeWhile (\<lambda>y. key y \<le> key x) ys @ x # dropWhile (\<lambda>y. key y \<le> key x) ys"

lemma mset_put_after [simp]: "mset (put_after key x ys) = add_mset x (mset ys)"
proof -
  have "mset ys = mset (takeWhile (\<lambda>y. key y \<le> key x) ys) + mset (dropWhile (\<lambda>y. key y \<le> key x) ys)"
    by (metis mset_append takeWhile_dropWhile_id)
  then show ?thesis by (simp add: put_after_def)
qed

lemma set_put_after [simp]: "set (put_after key x ys) = insert x (set ys)"
  by (metis mset_put_after set_mset_add_mset_insert set_mset_mset)

lemma above_dropWhile: "sorted (map key ys) \<Longrightarrow> y \<in> set (dropWhile (\<lambda>y. key y \<le> k) ys) \<Longrightarrow> k < key y"
proof (induction ys)
  case (Cons a ys)
  then show ?case by (cases "key a \<le> k") (auto simp: not_le dest: less_le_trans)
qed simp

lemma sorted_put_after: "sorted (map key ys) \<Longrightarrow> sorted (map key (put_after key x ys))"
proof -
  assume s: "sorted (map key ys)"
  let ?a = "takeWhile (\<lambda>y. key y \<le> key x) ys" and ?b = "dropWhile (\<lambda>y. key y \<le> key x) ys"
  have ab: "sorted (map key ?a)" "sorted (map key ?b)"
    using s by (metis map_append sorted_append takeWhile_dropWhile_id)+
  have a: "\<forall>y \<in> set ?a. key y \<le> key x" by (auto dest: set_takeWhileD)
  have b: "\<forall>y \<in> set ?b. key x < key y" using above_dropWhile [OF s] by blast
  have ba: "key y \<le> key z" if "y \<in> set ?a" "z \<in> set ?b" for y z using a b that by (meson less_imp_le order_trans)
  have "sorted (key x # map key ?b)" using ab(2) b by (auto intro: less_imp_le)
  moreover have "\<forall>u \<in> set (map key ?a). \<forall>v \<in> set (key x # map key ?b). u \<le> v" using a by (auto intro: ba)
  ultimately show ?thesis using ab(1) by (simp only: put_after_def map_append list.map sorted_append)
qed

lemma filter_put_after:
  assumes "sorted (map key ys)"
  shows "filter (\<lambda>y. k = key y) (put_after key x ys) = filter (\<lambda>y. k = key y) ys @ (if k = key x then [x] else [])"
proof -
  let ?a = "takeWhile (\<lambda>y. key y \<le> key x) ys" and ?b = "dropWhile (\<lambda>y. key y \<le> key x) ys"
  have "filter (\<lambda>y. key x = key y) ?b = []" using above_dropWhile [OF assms, of _ "key x"] by (fastforce simp: filter_empty_conv)
  moreover have "filter (\<lambda>y. k = key y) ?a @ filter (\<lambda>y. k = key y) ?b = filter (\<lambda>y. k = key y) ys"
    by (metis filter_append takeWhile_dropWhile_id)
  ultimately show ?thesis by (auto simp: put_after_def)
qed

lemma fold_put_after:
  "sorted (map key acc) \<Longrightarrow> sorted (map key (fold (put_after key) xs acc)) \<and>
   mset (fold (put_after key) xs acc) = mset acc + mset xs \<and>
   filter (\<lambda>y. k = key y) (fold (put_after key) xs acc) = filter (\<lambda>y. k = key y) acc @ filter (\<lambda>y. k = key y) xs"
proof (induction xs arbitrary: acc)
  case (Cons x xs)
  from Cons.IH [OF sorted_put_after [OF Cons.prems]] show ?case by (simp add: filter_put_after [OF Cons.prems])
qed simp

lemma fold_put_after_sort: "fold (put_after key) xs [] = sort_key key xs"
  using fold_put_after [of key "[]" xs]
  by (intro properties_for_sort_key [symmetric]) auto

text \<open>A comparison that is the strict order of keys on a set of values.\<close>

locale key_order =
  fixes lt :: "'a \<Rightarrow> 'a \<Rightarrow> bool res" and key :: "'a \<Rightarrow> 'k :: linorder" and A :: "'a set"
  assumes compares: "x \<in> A \<Longrightarrow> y \<in> A \<Longrightarrow> lt x y = Inr (key x < key y)"
begin

lemma insert_by_key: "x \<in> A \<Longrightarrow> set ys \<subseteq> A \<Longrightarrow> insert_by lt x ys = Inr (put_after key x ys)"
  by (induction ys) (auto simp: compares put_after_def not_less not_le)

lemma insertion: "set xs \<subseteq> A \<Longrightarrow> set acc \<subseteq> A \<Longrightarrow> rfold (insert_by lt) xs acc = Inr (fold (put_after key) xs acc)"
  by (induction xs arbitrary: acc) (simp_all add: insert_by_key)

lemma sorts: "set xs \<subseteq> A \<Longrightarrow>
    py_sort lt reverse xs = Inr (if reverse then rev (sort_key key (rev xs)) else sort_key key xs)"
  by (simp add: py_sort_def insertion fold_put_after_sort)

end

section \<open>Scores and sort keys\<close>

definition numeric :: "json \<Rightarrow> bool" where
  "numeric j \<longleftrightarrow> (case json_num j of None \<Rightarrow> False | Some n \<Rightarrow> n \<noteq> NotANumber)"

definition num_of :: "json \<Rightarrow> pynum" where
  "num_of j = (case json_num j of None \<Rightarrow> NotANumber | Some n \<Rightarrow> n)"

lemma numeric_cmp:
  assumes "numeric x" "numeric y"
  shows "json_cmp Lt x y = Inr (num_of x < num_of y)" "same_or_eq x y \<longleftrightarrow> num_of x = num_of y"
proof -
  obtain a b where a: "json_num x = Some a" "a \<noteq> NotANumber" and b: "json_num y = Some b" "b \<noteq> NotANumber"
    using assms by (auto simp: numeric_def split: option.splits)
  show "json_cmp Lt x y = Inr (num_of x < num_of y)"
    using a b by (cases x; cases y) (auto simp: num_of_def cmp_of_def num_less_order)
  have "\<not> (is_nan x \<and> is_nan y)" using a by (auto simp: is_nan_def float_num_def split: json.splits)
  then show "same_or_eq x y \<longleftrightarrow> num_of x = num_of y"
    using a b by (auto simp: same_or_eq_def json_eq.simps [of x y] num_eq_def num_of_def)
qed

text \<open>The keys of documents under \<open>sort_by\<close>: missing fields come last.\<close>

definition field_key :: "bytes \<Rightarrow> json \<Rightarrow> bool \<times> pynum" where
  "field_key path d = (let x = get_nested_field d path in (x = JNull, num_of x))"

definition sortable :: "bytes \<Rightarrow> json \<Rightarrow> bool" where
  "sortable path d \<longleftrightarrow> (let x = get_nested_field d path in x = JNull \<or> numeric x)"

interpretation by_field: key_order "sort_less path" "field_key path" "{d. sortable path d}" for path
proof
  fix d e assume "d \<in> {d. sortable path d}" "e \<in> {d. sortable path d}"
  then have s: "sortable path d" "sortable path e" by simp_all
  show "sort_less path d e = Inr (field_key path d < field_key path e)"
  proof (cases "get_nested_field d path = JNull \<or> get_nested_field e path = JNull")
    case True
    then show ?thesis by (auto simp: sort_less_def field_key_def Let_def same_or_eq_def json_eq.simps [of JNull])
  next
    case False
    then have "numeric (get_nested_field d path)" "numeric (get_nested_field e path)"
      using s by (simp_all add: sortable_def Let_def)
    then show ?thesis using False by (simp add: sort_less_def field_key_def Let_def numeric_cmp)
  qed
qed

end
