(* ===== verification/DocLaws.thy ===== *)
theory DocLaws
  imports Doc JsonLaws SortLaws Txn
begin

text \<open>
  The document store against maps from ids to documents. \<open>doc_inv f c fs m\<close> says that the
  entries of the store \<open>f\<close> for the collection \<open>c\<close> are the dumped documents of \<open>m\<close>, and that its
  entries under the index prefix are exactly those of the fields \<open>fs\<close> of these documents.
\<close>

section \<open>Dumped documents\<close>

definition ascii :: "bytes \<Rightarrow> bool" where
  "ascii s \<longleftrightarrow> (\<forall>c \<in> set s. of_char c < (128 :: nat))"

lemma ascii_simps [simp]:
  "ascii []" "ascii (c # s) \<longleftrightarrow> of_char c < (128 :: nat) \<and> ascii s" "ascii (s @ t) \<longleftrightarrow> ascii s \<and> ascii t"
  by (auto simp: ascii_def)

lemma ascii_concat: "\<forall>s \<in> set ss. ascii s \<Longrightarrow> ascii (concat ss)"
  by (auto simp: ascii_def)

lemma ascii_join: "ascii sep \<Longrightarrow> \<forall>s \<in> set ss. ascii s \<Longrightarrow> ascii (join_with sep ss)"
  by (induction sep ss rule: join_with.induct) auto

lemma ascii_hex4: "ascii (hex4 n)"
proof -
  have "of_char (hex_digit d) < (128 :: nat)" if "d < 16" for d
    using that by (simp add: hex_digit_def)
  then show ?thesis by (simp add: hex4_def)
qed

lemma ascii_escape: "ascii (escape_point n)"
  by (auto simp: escape_point_def BACKSLASH_def QUOTE_def ascii_hex4)

lemma ascii_dump_str: "ascii (dump_str s)"
  using ascii_concat [of "map escape_point (str_points s)"]
  by (auto simp: dump_str_def QUOTE_def ascii_escape)

lemma ascii_str_int: "ascii (str_int i)"
  using str_int_chars [of _ i] by (fastforce simp: ascii_def is_digit_def)

lemma ascii_dump_float: "ascii (dump_float w)"
proof -
  have "ascii (str_float w)" using str_float_ascii [of _ w] by (simp add: ascii_def)
  then show ?thesis by (simp add: dump_float_def)
qed

lemma ascii_dumps: "ascii (json_dumps j)"
proof (induction j)
  case (JList xs)
  then have "ascii (join_with '', '' (map json_dumps xs))" by (intro ascii_join) auto
  then show ?case by simp
next
  case (JObj kvs)
  have "ascii (dump_str k @ '': '' @ json_dumps v)" if "(k, v) \<in> set kvs" for k v
    using JObj.IH [OF that, of v] by (simp add: ascii_dump_str)
  then have "ascii (join_with '', '' (map (\<lambda>(k, v). dump_str k @ '': '' @ json_dumps v) kvs))"
    by (intro ascii_join) auto
  then show ?case by simp
qed (simp_all add: ascii_str_int ascii_dump_float ascii_dump_str)

lemma dumps_valid [simp]: "utf8_valid (json_dumps j)"
  using ascii_dumps [of j] by (intro utf8_ascii) (auto simp: ascii_def)

lemma load_dumps: "json_ok d \<Longrightarrow> decode_json (json_dumps d) = Inr d" "json_ok d \<Longrightarrow> load_doc (json_dumps d) = d"
  by (simp_all add: load_doc_def json_roundtrip decode_json_def py_decode_def)

lemma dumps_val_ok: "length (json_dumps (JObj d)) < 2 ^ 32 \<Longrightarrow> val_ok (json_dumps (JObj d))"
  by (simp add: val_ok_def TOMBSTONE_def)

section \<open>Fields of documents\<close>

lemma json_ok_sort_keys: "json_ok j \<Longrightarrow> json_ok (sort_keys j)"
proof (induction j)
  case (JObj kvs)
  have k: "mset (map fst (sort_key fst (map (\<lambda>(k, v). (k, sort_keys v)) kvs))) = mset (map fst kvs)"
  proof -
    have "map fst (map (\<lambda>(k, v). (k, sort_keys v)) kvs) = map fst kvs" by auto
    then show ?thesis by (metis mset_map mset_sort)
  qed
  have "distinct (map fst (sort_key fst (map (\<lambda>(k, v). (k, sort_keys v)) kvs)))"
    using JObj.prems mset_eq_imp_distinct_iff [OF k] by simp
  moreover have "utf8_valid k \<and> json_ok (sort_keys v)" if "(k, v) \<in> set kvs" for k v
    using JObj.IH [OF that, of v] JObj.prems that by (auto simp: list_all_iff)
  ultimately show ?case by (auto simp: list_all_iff)
qed (auto simp: list_all_iff)

lemma py_index_in_set: "py_index xs i = Some v \<Longrightarrow> v \<in> set xs"
  by (auto simp: py_index_def Let_def split: if_splits)

lemma json_ok_nested: "json_ok j \<Longrightarrow> json_ok (nested_field j ts)"
proof (induction j ts rule: nested_field.induct)
  case (2 cur t ts)
  let ?next = "case cur of JObj kvs \<Rightarrow> (case map_of kvs t of None \<Rightarrow> JNull | Some v \<Rightarrow> v)
        | JList xs \<Rightarrow> (case py_int t of None \<Rightarrow> JNull
            | Some i \<Rightarrow> (case py_index xs i of None \<Rightarrow> JNull | Some v \<Rightarrow> v)) | _ \<Rightarrow> JNull"
  have "json_ok ?next"
    using 2(2) by (auto split: json.split option.split simp: list_all_iff dest!: map_of_SomeD py_index_in_set)
  then show ?case using 2(1) [of ?next] by (simp add: Let_def)
qed simp

lemma split_char_not_Nil: "split_char c s \<noteq> []"
  by (induction s) (auto simp: split_char.simps split: list.split)

text \<open>A nested field of a dict is that of the value under the first name of the path.\<close>

lemma nested_field_top:
  assumes "map_of d (hd (split_char (CHR ''.'') p)) = map_of d' (hd (split_char (CHR ''.'') p))"
  shows "get_nested_field (JObj d) p = get_nested_field (JObj d') p"
  using assms split_char_not_Nil [of "CHR ''.''" p]
  by (cases "split_char (CHR ''.'') p") (simp_all add: get_nested_field_def)


text \<open>Storing items in a dict, the id last.\<close>

definition with_id :: "bytes \<Rightarrow> (bytes \<times> json) list \<Rightarrow> (bytes \<times> json) list" where
  "with_id i d = AList.update ''_id'' (JStr i) d"

definition dict_size :: "(bytes \<times> json) list \<Rightarrow> nat" where
  "dict_size d = (\<Sum>(k, v) \<leftarrow> d. length (dump_str k) + length (json_dumps v) + 4)"

lemma dict_size_simps [simp]:
  "dict_size [] = 0" "dict_size ((k, v) # d) = length (dump_str k) + length (json_dumps v) + 4 + dict_size d"
  by (simp_all add: dict_size_def)

lemma length_join: "length (join_with '', '' ss) \<le> (\<Sum>s \<leftarrow> ss. length s + 2)"
  by (induction "'', ''" ss rule: join_with.induct) auto

lemma dumps_length: "length (json_dumps (JObj d)) \<le> dict_size d + 2"
proof -
  have "(\<Sum>s \<leftarrow> map (\<lambda>(k, v). dump_str k @ '': '' @ json_dumps v) d. length s + 2) = dict_size d"
    by (induction d) auto
  then show ?thesis using length_join [of "map (\<lambda>(k, v). dump_str k @ '': '' @ json_dumps v) d"] by simp
qed

lemma dict_size_update: "dict_size (AList.update k v d) \<le> dict_size ((k, v) # d)"
  by (induction d) auto

lemma dict_size_dict_update: "dict_size (dict_update es d) \<le> dict_size es + dict_size d"
proof (induction es arbitrary: d)
  case (Cons e es)
  obtain k v where "e = (k, v)" by fastforce
  then show ?case using Cons.IH [of "AList.update k v d"] dict_size_update [of k v d] by simp
qed simp

lemma dict_size_with_id: "dict_size (with_id i d) \<le> dict_size ((''_id'', JStr i) # d)"
  unfolding with_id_def by (rule dict_size_update)

lemma json_ok_update: "json_ok (JObj d) \<Longrightarrow> utf8_valid k \<Longrightarrow> json_ok v \<Longrightarrow> json_ok (JObj (AList.update k v d))"
proof -
  have "list_all P (AList.update k v d)" if "list_all P d" "P (k, v)" for P
    using that by (induction d) auto
  then show "json_ok (JObj d) \<Longrightarrow> utf8_valid k \<Longrightarrow> json_ok v \<Longrightarrow> json_ok (JObj (AList.update k v d))"
    by (auto simp: distinct_update)
qed

lemma json_ok_dict_update: "json_ok (JObj es) \<Longrightarrow> json_ok (JObj d) \<Longrightarrow> json_ok (JObj (dict_update es d))"
proof (induction es arbitrary: d)
  case (Cons e es)
  obtain k v where e: "e = (k, v)" by fastforce
  show ?case using Cons.IH [of "AList.update k v d"] json_ok_update [of d k v] Cons.prems by (simp add: e del: json_ok.simps(4)) (simp add: e)
qed simp

lemma json_ok_with_id: "json_ok (JObj d) \<Longrightarrow> utf8_valid i \<Longrightarrow> json_ok (JObj (with_id i d))"
proof -
  have "utf8_valid ''_id''" by (rule utf8_ascii) simp
  then show "json_ok (JObj d) \<Longrightarrow> utf8_valid i \<Longrightarrow> json_ok (JObj (with_id i d))"
    unfolding with_id_def by (simp only: json_ok_update json_ok.simps(2))
qed

section \<open>Index entries\<close>

definition index_entry :: "bytes \<Rightarrow> json \<Rightarrow> bytes \<Rightarrow> bytes" where
  "index_entry field v i = field @ '':'' @ json_dumps (sort_keys v) @ '':'' @ i"

definition index_prefix :: "bytes \<Rightarrow> bytes" where
  "index_prefix c = ''__DIDX__:'' @ c @ '':''"

lemma idx_key_entry: "idx_key c field v i = index_prefix c @ index_entry field v i"
  by (simp add: idx_key_def index_prefix_def index_entry_def)

lemma doc_key_prefix: "doc_key c i = doc_prefix c @ i"
  by (simp add: doc_key_def doc_prefix_def)

text \<open>A value delimits itself, so an entry tells its field and its document.\<close>

lemma index_entry_inj:
  assumes e: "index_entry a v i = index_entry b w j" and ok: "json_ok v" "json_ok w"
    and colon: "CHR '':'' \<notin> set a" "CHR '':'' \<notin> set b"
  shows "a = b \<and> i = j"
proof -
  have "a @ CHR '':'' # json_dumps (sort_keys v) @ CHR '':'' # i = b @ CHR '':'' # json_dumps (sort_keys w) @ CHR '':'' # j"
    using e by (simp add: index_entry_def)
  then have ab: "a = b" and vw: "json_dumps (sort_keys v) @ CHR '':'' # i = json_dumps (sort_keys w) @ CHR '':'' # j"
    using no_colon_prefix [OF colon] by auto
  have R: "read_value (json_dumps (sort_keys x) @ CHR '':'' # r) = Some (sort_keys x, CHR '':'' # r)" if "json_ok x" for x r
    using json_reads_back [OF json_ok_sort_keys [OF that]] by (simp add: reads_back_def)
  have "Some (sort_keys v, CHR '':'' # i) = Some (sort_keys w, CHR '':'' # j)"
    unfolding R [OF ok(1), symmetric] R [OF ok(2), symmetric] by (simp only: vw)
  then show ?thesis using ab by simp
qed


definition doc_entries :: "bytes list \<Rightarrow> bytes \<Rightarrow> (bytes \<times> json) list \<Rightarrow> bytes set" where
  "doc_entries fs i d = {index_entry field (get_nested_field (JObj d) field) i |field.
     field \<in> set fs \<and> get_nested_field (JObj d) field \<noteq> JNull}"

lemma entries_apart:
  assumes "\<forall>x \<in> set fs. CHR '':'' \<notin> set x" "json_ok (JObj d)" "json_ok (JObj e)" "i \<noteq> j"
  shows "doc_entries fs i d \<inter> doc_entries fs j e = {}"
proof -
  have "json_ok (get_nested_field (JObj d) p)" "json_ok (get_nested_field (JObj e) p)" for p
    using assms(2,3) unfolding get_nested_field_def by (intro json_ok_nested; simp)+
  then show ?thesis using assms(1,4) index_entry_inj unfolding doc_entries_def by blast
qed

definition small_entries :: "bytes \<Rightarrow> bytes list \<Rightarrow> bytes \<Rightarrow> (bytes \<times> json) list \<Rightarrow> bool" where
  "small_entries c fs i d \<longleftrightarrow> (\<forall>x \<in> doc_entries fs i d. length (index_prefix c @ x) \<le> 65535)"

lemma small_entries_update:
  assumes "distinct (map fst p)" "small_entries c fs i (with_id i d)" "small_entries c fs i (with_id i p)"
  shows "small_entries c fs i (with_id i (dict_update p d))"
proof -
  have f: "get_nested_field (JObj (with_id i (dict_update p d))) f = get_nested_field (JObj (with_id i p)) f \<or>
      get_nested_field (JObj (with_id i (dict_update p d))) f = get_nested_field (JObj (with_id i d)) f" for f
  proof -
    let ?t = "hd (split_char (CHR ''.'') f)"
    have "map_of (with_id i (dict_update p d)) ?t = map_of (with_id i p) ?t \<or>
        map_of (with_id i (dict_update p d)) ?t = map_of (with_id i d) ?t"
      using assms(1) by (auto simp: with_id_def update_conv' map_of_dict_update map_add_def split: option.split)
    then show ?thesis using nested_field_top by blast
  qed
  have "doc_entries fs i (with_id i (dict_update p d)) \<subseteq> doc_entries fs i (with_id i p) \<union> doc_entries fs i (with_id i d)"
  proof
    fix x assume "x \<in> doc_entries fs i (with_id i (dict_update p d))"
    then obtain g where "g \<in> set fs" "get_nested_field (JObj (with_id i (dict_update p d))) g \<noteq> JNull"
      "x = index_entry g (get_nested_field (JObj (with_id i (dict_update p d))) g) i" unfolding doc_entries_def by blast
    then show "x \<in> doc_entries fs i (with_id i p) \<union> doc_entries fs i (with_id i d)"
      using f [of g] unfolding doc_entries_def by auto
  qed
  then show ?thesis using assms(2,3) unfolding small_entries_def by blast
qed

section \<open>The store against a map\<close>

definition doc_inv :: "(bytes \<rightharpoonup> bytes) \<Rightarrow> bytes \<Rightarrow> bytes list \<Rightarrow> (bytes \<rightharpoonup> (bytes \<times> json) list) \<Rightarrow> bool" where
  "doc_inv f c fs m \<longleftrightarrow>
     (\<forall>i. f (doc_prefix c @ i) = map_option (\<lambda>d. json_dumps (JObj d)) (m i)) \<and>
     (\<forall>x. f (index_prefix c @ x) = (if \<exists>i d. m i = Some d \<and> x \<in> doc_entries fs i d then Some ''1'' else None))"

definition doc_frame :: "bytes \<Rightarrow> (bytes \<rightharpoonup> bytes) \<Rightarrow> (bytes \<rightharpoonup> bytes) \<Rightarrow> bool" where
  "doc_frame c f f' \<longleftrightarrow> (\<forall>k. \<not> startswith k (doc_prefix c) \<longrightarrow> \<not> startswith k (index_prefix c) \<longrightarrow> f' k = f k)"

lemma doc_frame_refl [simp]: "doc_frame c f f"
  and doc_frame_trans: "doc_frame c f g \<Longrightarrow> doc_frame c g h \<Longrightarrow> doc_frame c f h"
  by (auto simp: doc_frame_def)

text \<open>Storing \<open>v\<close> at, or with \<open>None\<close> removing, a set of index entries.\<close>

definition set_entries :: "bytes \<Rightarrow> bytes set \<Rightarrow> bytes option \<Rightarrow> (bytes \<rightharpoonup> bytes) \<Rightarrow> (bytes \<rightharpoonup> bytes)" where
  "set_entries c X v f = (\<lambda>k. if k \<in> (@) (index_prefix c) ` X then v else f k)"

lemma prefixes_apart [simp]:
  "index_prefix c @ x \<noteq> doc_prefix c' @ y" "doc_prefix c' @ y \<noteq> index_prefix c @ x"
  by (simp_all add: index_prefix_def doc_prefix_def)

lemma set_entries_simps [simp]:
  "set_entries c X v f (doc_prefix c @ i) = f (doc_prefix c @ i)"
  "set_entries c X v f (index_prefix c @ x) = (if x \<in> X then v else f (index_prefix c @ x))"
  "set_entries c {} v f = f"
  "set_entries c X v (f(index_prefix c @ x := v)) = set_entries c (insert x X) v f"
  by (auto simp: set_entries_def fun_eq_iff)

lemma entries_frame: "doc_frame c f (set_entries c X v f)" "doc_frame c f (f(doc_prefix c @ i := v))"
  by (auto simp: doc_frame_def set_entries_def)

lemma doc_inv_remove:
  assumes "doc_inv f c fs m" "m i = Some d" and ok: "\<forall>x \<in> set fs. CHR '':'' \<notin> set x" "\<forall>i d. m i = Some d \<longrightarrow> json_ok (JObj d)"
  shows "doc_inv ((set_entries c (doc_entries fs i d) None f)(doc_prefix c @ i := None)) c fs (m(i := None))"
proof -
  have "x \<notin> doc_entries fs i d" if "m j = Some e" "j \<noteq> i" "x \<in> doc_entries fs j e" for j e x
    using entries_apart [OF ok(1), of d e i j] ok(2) assms(2) that by blast
  then have "(\<exists>j e. (m(i := None)) j = Some e \<and> x \<in> doc_entries fs j e) \<longleftrightarrow>
      x \<notin> doc_entries fs i d \<and> (\<exists>j e. m j = Some e \<and> x \<in> doc_entries fs j e)" for x
    using assms(2) by (metis fun_upd_apply option.distinct(1) option.inject)
  then show ?thesis using assms(1) by (simp add: doc_inv_def del: json_dumps.simps)
qed

lemma doc_inv_add:
  assumes "doc_inv f c fs m" "m i = None"
  shows "doc_inv (set_entries c (doc_entries fs i d) (Some ''1'') (f(doc_prefix c @ i \<mapsto> json_dumps (JObj d)))) c fs (m(i \<mapsto> d))"
proof -
  have "(\<exists>j e. (m(i \<mapsto> d)) j = Some e \<and> x \<in> doc_entries fs j e) \<longleftrightarrow>
      x \<in> doc_entries fs i d \<or> (\<exists>j e. m j = Some e \<and> x \<in> doc_entries fs j e)" for x
    using assms(2) by (metis fun_upd_apply option.distinct(1) option.inject)
  then show ?thesis using assms(1) by (simp add: doc_inv_def del: json_dumps.simps)
qed


section \<open>Operations\<close>

definition fields_of :: "'e docs_scheme \<Rightarrow> bytes \<Rightarrow> bytes list" where
  "fields_of D c = (case map_of (d_indexes D) c of None \<Rightarrow> [] | Some fs \<Rightarrow> fs)"

lemma rest_fields: "rest_repr H (D0 :: docs) D f n \<Longrightarrow> fields_of D c = fields_of D0 c"
  by (cases D; cases D0) (simp add: rest_repr_def fields_of_def db.defs docs.defs)

lemma entry_key_ok: "length (index_prefix c @ x) \<le> 65535 \<Longrightarrow> key_ok (index_prefix c @ x)"
  by (simp add: key_ok_def index_prefix_def)

lemma doc_entries_simps [simp]:
  "doc_entries [] i d = {}"
  "doc_entries (p # fs) i d = (let v = get_nested_field (JObj d) p
     in if v = JNull then doc_entries fs i d else insert (index_entry p v i) (doc_entries fs i d))"
  by (auto simp: doc_entries_def Let_def)

text \<open>The loop over the fields of a document, deleting or writing its entries.\<close>

lemma small_entries_Cons:
  assumes "small_entries c (p # fs) i d"
  shows "small_entries c fs i d"
    "get_nested_field (JObj d) p \<noteq> JNull \<Longrightarrow> key_ok (index_prefix c @ index_entry p (get_nested_field (JObj d) p) i)"
  using assms by (auto simp: small_entries_def Let_def split: if_splits intro!: entry_key_ok)

lemma wp_entry_loop:
  assumes "rest_repr H D0 D f (n + length fs)" "small_entries c fs i d"
    "\<And>D'. rest_repr H D0 D' (set_entries c (doc_entries fs i d) v f) n \<Longrightarrow> Q () D'"
    and call: "\<And>D f n k. rest_repr H D0 D f (Suc n) \<Longrightarrow> key_ok k \<Longrightarrow> \<exists>D'. call k D = (Inr (), D') \<and> rest_repr H D0 D' (f(k := v)) n"
  shows "wp (for_each fs (\<lambda>p. let x = get_nested_field (JObj d) p
     in if x \<noteq> JNull then call (idx_key c p x i) else ret ())) Q D"
  using assms(1-3)
proof (induction fs arbitrary: D f)
  case (Cons p fs)
  let ?x = "get_nested_field (JObj d) p"
  note small = small_entries_Cons [OF Cons.prems(2)]
  have r: "rest_repr H D0 D f (Suc (n + length fs))" using Cons.prems(1) by simp
  show ?case
  proof (cases "?x = JNull")
    case True
    with Cons.IH [OF rest.less_room [OF r] small(1)] Cons.prems(3) show ?thesis by (simp add: Let_def)
  next
    case False
    obtain D1 where D1: "call (idx_key c p ?x i) D = (Inr (), D1)"
      "rest_repr H D0 D1 (f(index_prefix c @ index_entry p ?x i := v)) (n + length fs)"
      using call [OF r small(2) [OF False]] by (auto simp: idx_key_entry)
    have "wp (for_each fs (\<lambda>p. let x = get_nested_field (JObj d) p
         in if x \<noteq> JNull then call (idx_key c p x i) else ret ())) Q D1"
      by (rule Cons.IH [OF D1(2) small(1)]) (use Cons.prems(3) False in \<open>simp add: Let_def del: fun_upd_apply\<close>)
    then show ?thesis using D1(1) False by (auto simp: Let_def intro: wpI)
  qed
qed simp

lemma wp_unindex:
  assumes "rest_repr H D0 D f (n + length (fields_of D0 c))" "small_entries c (fields_of D0 c) i d"
    "\<And>D'. rest_repr H D0 D' (set_entries c (doc_entries (fields_of D0 c) i d) None f) n \<Longrightarrow> Q () D'"
  shows "wp (unindex_doc H c i (JObj d)) Q D"
proof -
  have "wp (for_each (fields_of D0 c) (\<lambda>p. let x = get_nested_field (JObj d) p
      in if x \<noteq> JNull then db_del H (idx_key c p x i) else ret ())) Q D"
    by (rule wp_entry_loop [where call = "db_del H" and v = None, OF assms(1,2)]) (fact assms(3) rest.del_law)+
  then show ?thesis using rest_fields [OF assms(1), of c]
    by (simp add: unindex_doc_def indexed_fields_def wp_def bnd_def fields_of_def)
qed

lemma wp_index:
  assumes "rest_repr H D0 D f (n + length (fields_of D0 c))" "small_entries c (fields_of D0 c) i d"
    "\<And>D'. rest_repr H D0 D' (set_entries c (doc_entries (fields_of D0 c) i d) (Some ''1'') f) n \<Longrightarrow> Q () D'"
  shows "wp (index_doc H c i (JObj d)) Q D"
proof -
  have v: "val_ok ''1''" by (simp add: val_ok_def TOMBSTONE_def)
  have "wp (for_each (fields_of D0 c) (\<lambda>p. let x = get_nested_field (JObj d) p
      in if x \<noteq> JNull then db_put H (idx_key c p x i) ''1'' else ret ())) Q D"
    by (rule wp_entry_loop [where call = "\<lambda>k. db_put H k ''1''" and v = "Some ''1''", OF assms(1,2)])
      (fact assms(3), rule rest.put_law [OF _ _ v])
  then show ?thesis using rest_fields [OF assms(1), of c]
    by (simp add: index_doc_def indexed_fields_def wp_def bnd_def fields_of_def)
qed

section \<open>Commands\<close>

datatype doc_op =
    DInsert bytes "(bytes \<times> json) list"
  | DUpdate bytes "(bytes \<times> json) list"
  | DGet bytes
  | DDelete bytes
  | DCount

fun doc_call :: "host \<Rightarrow> bytes \<Rightarrow> doc_op \<Rightarrow> (docs, json) pym" where
  "doc_call H c (DInsert i d) = doc_insert H c i (JObj d)"
| "doc_call H c (DUpdate i p) = doc_update H c i p"
| "doc_call H c (DGet i) = doc_get H c i"
| "doc_call H c (DDelete i) = bnd (doc_delete H c i) (\<lambda>b. ret (JBool b))"
| "doc_call H c DCount = bnd (doc_count c) (\<lambda>n. ret (JInt (int n)))"

definition opt_doc :: "(bytes \<times> json) list option \<Rightarrow> json" where
  "opt_doc d = (case d of None \<Rightarrow> JNull | Some kvs \<Rightarrow> JObj kvs)"

fun doc_spec :: "doc_op \<Rightarrow> (bytes \<rightharpoonup> (bytes \<times> json) list) \<Rightarrow> json \<times> (bytes \<rightharpoonup> (bytes \<times> json) list)" where
  "doc_spec (DInsert i d) m = (JObj (with_id i d), m(i \<mapsto> with_id i d))"
| "doc_spec (DUpdate i p) m = (case m i of
      None \<Rightarrow> (JNull, m)
    | Some d \<Rightarrow> (JObj (with_id i (dict_update p d)), m(i \<mapsto> with_id i (dict_update p d))))"
| "doc_spec (DGet i) m = (opt_doc (m i), m)"
| "doc_spec (DDelete i) m = (JBool (m i \<noteq> None), m(i := None))"
| "doc_spec DCount m = (JInt (int (card (dom m))), m)"


text \<open>A stored document, and a store with room for \<open>n\<close> more writes of documents of size \<open>B\<close>.\<close>

definition doc_fits :: "bytes \<Rightarrow> bytes list \<Rightarrow> bytes \<Rightarrow> (bytes \<times> json) list \<Rightarrow> bool" where
  "doc_fits c fs i d \<longleftrightarrow> json_ok (JObj d) \<and> map_of d ''_id'' = Some (JStr i) \<and> small_entries c fs i d \<and>
     length (doc_prefix c @ i) \<le> 65535"

definition docs_fit :: "bytes \<Rightarrow> bytes list \<Rightarrow> (bytes \<rightharpoonup> (bytes \<times> json) list) \<Rightarrow> bool" where
  "docs_fit c fs m \<longleftrightarrow> (\<forall>x \<in> set fs. CHR '':'' \<notin> set x) \<and> (\<forall>i d. m i = Some d \<longrightarrow> doc_fits c fs i d)"

lemma with_id_same: "map_of d ''_id'' = Some (JStr i) \<Longrightarrow> with_id i d = d"
  unfolding with_id_def by (induction d) auto

lemma with_id_lookup [simp]: "map_of (with_id i d) ''_id'' = Some (JStr i)"
  by (simp add: with_id_def update_conv')

lemma doc_prefix_key_ok: "length (doc_prefix c @ i) \<le> 65535 \<Longrightarrow> key_ok (doc_prefix c @ i)"
  by (simp add: key_ok_def doc_prefix_def)

lemma truthy_doc: "doc_fits c fs i d \<Longrightarrow> truthy (JObj d)"
  by (cases d) (auto simp: doc_fits_def)

lemma wp_doc_get:
  assumes "rest_repr H D0 D f n" "doc_inv f c fs m" "docs_fit c fs m" "Q (opt_doc (m i)) D"
  shows "wp (doc_get H c i) Q D"
  unfolding doc_get_def wp_simps doc_key_prefix
proof (rule rest_get [OF assms(1)])
  have "(case f (doc_prefix c @ i) of None \<Rightarrow> JNull | Some b \<Rightarrow> load_doc b) = opt_doc (m i)"
    using assms(2,3) load_dumps(2)
    by (auto simp: doc_inv_def opt_doc_def docs_fit_def doc_fits_def simp del: json_dumps.simps json_ok.simps split: option.split)
  then show "Q (case f (doc_prefix c @ i) of None \<Rightarrow> JNull | Some b \<Rightarrow> load_doc b) D" using assms(4) by simp
qed

lemma wp_unindex_old:
  assumes "rest_repr H D0 D f (n + length (fields_of D0 c))" "doc_inv f c (fields_of D0 c) m" "docs_fit c (fields_of D0 c) m"
    and Q: "\<And>D' g. rest_repr H D0 D' g n \<Longrightarrow> doc_inv (g(doc_prefix c @ i := None)) c (fields_of D0 c) (m(i := None)) \<Longrightarrow>
      doc_frame c f g \<Longrightarrow> Q () D'"
  shows "wp (if m i \<noteq> None then unindex_doc H c i (opt_doc (m i)) else ret ()) Q D"
proof (cases "m i")
  case None
  then have "f(doc_prefix c @ i := None) = f" "m(i := None) = m" using assms(2) by (auto simp: doc_inv_def)
  then show ?thesis using None Q [of D f] rest.room_le [OF assms(1)] assms(2) by simp
next
  case (Some d)
  have s: "small_entries c (fields_of D0 c) i d" using assms(3) Some by (auto simp: docs_fit_def doc_fits_def)
  have "doc_inv ((set_entries c (doc_entries (fields_of D0 c) i d) None f)(doc_prefix c @ i := None)) c (fields_of D0 c) (m(i := None))"
    using assms(3) by (intro doc_inv_remove [OF assms(2) Some]) (auto simp: docs_fit_def doc_fits_def)
  then show ?thesis using Some wp_unindex [OF assms(1) s] Q entries_frame(1) by (simp add: opt_doc_def)
qed

lemma wp_doc_insert:
  assumes r: "rest_repr H D0 D f (n + (2 * length (fields_of D0 c) + 1))" and i: "doc_inv f c (fields_of D0 c) m"
    and fit: "docs_fit c (fields_of D0 c) m" "doc_fits c (fields_of D0 c) i (with_id i d)" "dict_size (with_id i d) + 2 < 2 ^ 32"
    and Q: "\<And>D' f'. rest_repr H D0 D' f' n \<Longrightarrow> doc_inv f' c (fields_of D0 c) (m(i \<mapsto> with_id i d)) \<Longrightarrow>
      doc_frame c f f' \<Longrightarrow> Q (JObj (with_id i d)) D'"
  shows "wp (doc_insert H c i (JObj d)) Q D"
proof -
  let ?fs = "fields_of D0 c" and ?v = "json_dumps (JObj (with_id i d))"
  have r1: "rest_repr H D0 D f (Suc (n + length ?fs) + length ?fs)" using r by (simp add: mult_2 ac_simps)
  have k: "key_ok (doc_prefix c @ i)" "val_ok ?v" "small_entries c ?fs i (with_id i d)"
    using fit(2) doc_prefix_key_ok fit(3) dumps_length [of "with_id i d"] by (auto simp: doc_fits_def intro!: dumps_val_ok simp del: json_dumps.simps)
  have t: "truthy (opt_doc (m i)) \<longleftrightarrow> m i \<noteq> None"
  proof (cases "m i")
    case (Some e)
    then have "truthy (JObj e)" using fit(1) by (intro truthy_doc) (auto simp: docs_fit_def)
    then show ?thesis using Some by (simp add: opt_doc_def del: truthy.simps)
  qed (simp add: opt_doc_def)
  have "wp (if m i \<noteq> None then unindex_doc H c i (opt_doc (m i)) else ret ())
      (\<lambda>_. wp (db_put H (doc_prefix c @ i) ?v) (\<lambda>_. wp (index_doc H c i (JObj (with_id i d))) (\<lambda>_. Q (JObj (with_id i d))))) D"
  proof (rule wp_unindex_old [OF r1 i fit(1)])
    fix D1 g assume g: "rest_repr H D0 D1 g (Suc (n + length ?fs))"
      "doc_inv (g(doc_prefix c @ i := None)) c ?fs (m(i := None))" "doc_frame c f g"
    let ?f = "set_entries c (doc_entries ?fs i (with_id i d)) (Some ''1'') (g(doc_prefix c @ i \<mapsto> ?v))"
    have "doc_inv ?f c ?fs (m(i \<mapsto> with_id i d))"
      using doc_inv_add [OF g(2), of i "with_id i d"] by (simp del: json_dumps.simps)
    moreover have "doc_frame c f ?f" using g(3) entries_frame doc_frame_trans by metis
    ultimately show "wp (db_put H (doc_prefix c @ i) ?v) (\<lambda>_. wp (index_doc H c i (JObj (with_id i d))) (\<lambda>_. Q (JObj (with_id i d)))) D1"
      by (intro rest.wp_put [OF g(1) k(1,2)] wp_index [OF _ k(3)] Q)
  qed
  then show ?thesis unfolding doc_insert_def doc_insert_as_def doc_key_prefix Let_def json.case wp_simps with_id_def [symmetric]
    by (intro wp_doc_get [OF r i fit(1)]) (simp only: t)
qed


lemma wp_doc_delete:
  assumes r: "rest_repr H D0 D f (n + (length (fields_of D0 c) + 1))" and i: "doc_inv f c (fields_of D0 c) m"
    and fit: "docs_fit c (fields_of D0 c) m"
    and Q: "\<And>D' f'. rest_repr H D0 D' f' n \<Longrightarrow> doc_inv f' c (fields_of D0 c) (m(i := None)) \<Longrightarrow>
      doc_frame c f f' \<Longrightarrow> Q (m i \<noteq> None) D'"
  shows "wp (doc_delete H c i) Q D"
proof -
  let ?fs = "fields_of D0 c"
  have r1: "rest_repr H D0 D f (Suc n + length ?fs)" using r by (simp add: ac_simps)
  show ?thesis unfolding doc_delete_def wp_simps
  proof (rule wp_doc_get [OF r i fit])
    show "wp (if opt_doc (m i) = JNull then ret False
       else sq (unindex_doc H c i (opt_doc (m i))) (sq (db_del H (doc_key c i)) (ret True))) Q D"
    proof (cases "m i")
      case None
      then have "m(i := None) = m" by auto
      then show ?thesis using None Q [of D f] rest.room_le [OF r] i by (simp add: opt_doc_def)
    next
      case (Some d)
      then have k: "key_ok (doc_prefix c @ i)" using fit doc_prefix_key_ok by (auto simp: docs_fit_def doc_fits_def)
      have "wp (if m i \<noteq> None then unindex_doc H c i (opt_doc (m i)) else ret ())
          (\<lambda>_. wp (sq (db_del H (doc_prefix c @ i)) (ret True)) Q) D"
      proof (rule wp_unindex_old [OF r1 i fit])
        fix D1 g assume g: "rest_repr H D0 D1 g (Suc n)" "doc_inv (g(doc_prefix c @ i := None)) c ?fs (m(i := None))" "doc_frame c f g"
        then have "doc_frame c f (g(doc_prefix c @ i := None))" using entries_frame(2) doc_frame_trans by metis
        then show "wp (sq (db_del H (doc_prefix c @ i)) (ret True)) Q D1"
          using Some Q g(2) unfolding wp_simps by (intro rest.wp_del [OF g(1) k]) auto
      qed
      then show ?thesis using Some by (simp add: opt_doc_def doc_key_prefix)
    qed
  qed
qed

lemma wp_doc_entries:
  assumes "rest_repr H D0 D f n" "doc_inv f c fs m"
    and "finite (dom m) \<Longrightarrow> Q (map (\<lambda>(i, d). (doc_prefix c @ i, json_dumps (JObj d))) (sorted_entries m)) D"
  shows "wp (db_prefix (doc_prefix c)) Q D"
proof (rule rest_entries [OF assms(1)])
  fix xs assume xs: "strict_keys xs" "map_of xs = (\<lambda>x. f (doc_prefix c @ x))"
  let ?m = "\<lambda>i. map_option (\<lambda>d. json_dumps (JObj d)) (m i)"
  have m: "map_of xs = ?m" using xs(2) assms(2) by (simp add: doc_inv_def del: json_dumps.simps)
  have d: "dom ?m = dom m" by auto
  then have fin: "finite (dom m)" using finite_dom_map_of [of xs] by (simp only: m d)
  have "xs = map (\<lambda>(i, d). (i, json_dumps (JObj d))) (sorted_entries m)"
    using strict_sorted_entries(1) [OF xs(1) m] fin by (auto simp: sorted_entries_def d simp del: json_dumps.simps)
  then have "map (\<lambda>(x, v). (doc_prefix c @ x, v)) xs =
      map (\<lambda>(i, d). (doc_prefix c @ i, json_dumps (JObj d))) (sorted_entries m)"
    by (simp add: comp_def case_prod_beta del: json_dumps.simps)
  then show "Q (map (\<lambda>(x, v). (doc_prefix c @ x, v)) xs) D" using assms(3) [OF fin] by (simp only:)
qed

text \<open>The arguments of a command, and the states it may meet.\<close>

definition doc_arg_ok :: "bytes \<Rightarrow> bytes list \<Rightarrow> nat \<Rightarrow> bytes \<Rightarrow> (bytes \<times> json) list \<Rightarrow> bool" where
  "doc_arg_ok c fs B i d \<longleftrightarrow> json_ok (JObj d) \<and> utf8_valid i \<and> length (doc_prefix c @ i) \<le> 65535 \<and>
     small_entries c fs i (with_id i d) \<and> dict_size ((''_id'', JStr i) # d) \<le> B"

fun doc_op_ok :: "bytes \<Rightarrow> bytes list \<Rightarrow> nat \<Rightarrow> doc_op \<Rightarrow> bool" where
  "doc_op_ok c fs B (DInsert i d) = doc_arg_ok c fs B i d"
| "doc_op_ok c fs B (DUpdate i d) = doc_arg_ok c fs B i d"
| "doc_op_ok c fs B _ = True"

fun doc_cost :: "bytes list \<Rightarrow> doc_op \<Rightarrow> nat" where
  "doc_cost fs (DInsert i d) = 2 * length fs + 1"
| "doc_cost fs (DUpdate i d) = 2 * length fs + 1"
| "doc_cost fs (DDelete i) = length fs + 1"
| "doc_cost fs _ = 0"

definition doc_holds :: "bytes \<Rightarrow> bytes list \<Rightarrow> nat \<Rightarrow> (bytes \<rightharpoonup> bytes) \<Rightarrow> (bytes \<rightharpoonup> (bytes \<times> json) list) \<Rightarrow> nat \<Rightarrow> bool" where
  "doc_holds c fs B f m n \<longleftrightarrow> doc_inv f c fs m \<and> docs_fit c fs m \<and> Suc n * B + 2 < 2 ^ 32 \<and>
     (\<forall>i d. m i = Some d \<longrightarrow> dict_size d + n * B + 2 < 2 ^ 32)"

lemma doc_arg_fits: "doc_arg_ok c fs B i d \<Longrightarrow> doc_fits c fs i (with_id i d) \<and> dict_size (with_id i d) \<le> B"
  using dict_size_with_id [of i d] json_ok_with_id [of d i] by (auto simp: doc_arg_ok_def doc_fits_def simp del: json_ok.simps dict_size_simps)

lemma doc_patch_fits:
  assumes "doc_arg_ok c fs B i p" "doc_fits c fs i d"
  shows "doc_fits c fs i (with_id i (dict_update p d)) \<and> dict_size (with_id i (dict_update p d)) \<le> B + dict_size d"
proof -
  have "distinct (map fst p)" "small_entries c fs i (with_id i d)" "json_ok (JObj (dict_update p d))"
    using assms with_id_same [of d i] json_ok_dict_update [of p d] by (auto simp: doc_arg_ok_def doc_fits_def)
  moreover have "dict_size (with_id i (dict_update p d)) \<le> dict_size ((''_id'', JStr i) # p) + dict_size d"
    using dict_size_with_id [of i "dict_update p d"] dict_size_dict_update [of p d] by simp
  ultimately show ?thesis
    using assms json_ok_with_id [of "dict_update p d" i] small_entries_update [of p c fs i d]
    by (auto simp: doc_arg_ok_def doc_fits_def simp del: json_ok.simps dict_size_simps)
qed


lemma doc_step:
  assumes r: "rest_repr H D0 D f (n + doc_cost (fields_of D0 c) op)"
    and h: "doc_holds c (fields_of D0 c) B f m (n + doc_cost (fields_of D0 c) op)" and ok: "doc_op_ok c (fields_of D0 c) B op"
  shows "wp (doc_call H c op) (\<lambda>x D'. x = fst (doc_spec op m) \<and> (\<exists>f'. rest_repr H D0 D' f' n \<and>
     doc_holds c (fields_of D0 c) B f' (snd (doc_spec op m)) n \<and> doc_frame c f f')) D"
proof -
  let ?fs = "fields_of D0 c"
  have i: "doc_inv f c ?fs m" and fit: "docs_fit c ?fs m" using h by (simp_all add: doc_holds_def)
  have room: "Suc n * B + 2 < 2 ^ 32" "\<And>i d. m i = Some d \<Longrightarrow> dict_size d + (n + doc_cost ?fs op) * B + 2 < 2 ^ 32"
    using h by (auto simp: doc_holds_def algebra_simps)
  have "Q \<Longrightarrow> dict_size d + n * B + 2 < 2 ^ 32" if "m i = Some d" for Q i d
    using room(2) [OF that] by (simp add: algebra_simps)
  then have same: "doc_holds c ?fs B f m n" using i fit room(1) by (auto simp: doc_holds_def)
  have put: "wp (doc_insert H c k (JObj e)) (\<lambda>x D'. x = JObj (with_id k e) \<and> (\<exists>f'. rest_repr H D0 D' f' n \<and>
       doc_holds c ?fs B f' (m(k \<mapsto> with_id k e)) n \<and> doc_frame c f f')) D"
    if c: "doc_cost ?fs op = 2 * length ?fs + 1" and e: "doc_fits c ?fs k (with_id k e)" "dict_size (with_id k e) + n * B + 2 < 2 ^ 32" for k e
  proof (rule wp_doc_insert [OF _ i fit e(1)])
    fix D' f' assume f': "rest_repr H D0 D' f' n" "doc_inv f' c ?fs (m(k \<mapsto> with_id k e))" "doc_frame c f f'"
    moreover from f'(2) have "doc_holds c ?fs B f' (m(k \<mapsto> with_id k e)) n"
      using same e by (auto simp: doc_holds_def docs_fit_def)
    ultimately show "JObj (with_id k e) = JObj (with_id k e) \<and> (\<exists>f'. rest_repr H D0 D' f' n \<and>
       doc_holds c ?fs B f' (m(k \<mapsto> with_id k e)) n \<and> doc_frame c f f')" by blast
  qed (use r c e(2) in auto)
  have none: "\<exists>f'. rest_repr H D0 D f' n \<and> doc_holds c ?fs B f' m n \<and> doc_frame c f f'"
    using rest.room_le [OF r] same by (intro exI [of _ f]) simp
  show ?thesis
  proof (cases op)
    case (DInsert k e)
    then show ?thesis using put [of k e] doc_arg_fits [of c ?fs B k e] ok room(1) by simp
  next
    case (DUpdate k p)
    show ?thesis unfolding DUpdate doc_call.simps doc_update_def wp_simps
    proof (rule wp_doc_get [OF r i fit])
      show "wp (case opt_doc (m k) of JNull \<Rightarrow> ret JNull | JObj kvs \<Rightarrow> doc_insert H c k (JObj (dict_update p kvs))
          | _ \<Rightarrow> lift_res (no_attribute (opt_doc (m k)) ''update''))
        (\<lambda>x D'. x = fst (doc_spec (DUpdate k p) m) \<and> (\<exists>f'. rest_repr H D0 D' f' n \<and>
           doc_holds c ?fs B f' (snd (doc_spec (DUpdate k p) m)) n \<and> doc_frame c f f')) D"
      proof (cases "m k")
        case None
        then show ?thesis using none by (simp add: opt_doc_def)
      next
        case (Some d)
        then have d: "doc_fits c ?fs k d" "dict_size d + (n + 1) * B + 2 < 2 ^ 32"
          using fit room(2) [OF Some] by (auto simp: docs_fit_def DUpdate algebra_simps)
        have "doc_arg_ok c ?fs B k p" using ok DUpdate by simp
        from doc_patch_fits [OF this d(1)] d(2) have "doc_fits c ?fs k (with_id k (dict_update p d))"
          "dict_size (with_id k (dict_update p d)) + n * B + 2 < 2 ^ 32" by auto
        then show ?thesis using Some put [of k "dict_update p d"] DUpdate by (simp add: opt_doc_def)
      qed
    qed
  next
    case (DGet k)
    show ?thesis unfolding DGet doc_call.simps by (rule wp_doc_get [OF r i fit]) (use none in simp)
  next
    case (DDelete k)
    show ?thesis unfolding DDelete doc_call.simps wp_simps
    proof (rule wp_doc_delete [OF _ i fit])
      fix D' f' assume f': "rest_repr H D0 D' f' n" "doc_inv f' c ?fs (m(k := None))" "doc_frame c f f'"
      moreover from f'(2) have "doc_holds c ?fs B f' (m(k := None)) n" using same by (auto simp: doc_holds_def docs_fit_def)
      ultimately show "JBool (m k \<noteq> None) = fst (doc_spec (DDelete k) m) \<and> (\<exists>f'. rest_repr H D0 D' f' n \<and>
         doc_holds c ?fs B f' (snd (doc_spec (DDelete k) m)) n \<and> doc_frame c f f')" by auto
    qed (use r DDelete in simp)
  next
    case DCount
    show ?thesis unfolding DCount doc_call.simps doc_count_def wp_simps
      by (rule wp_doc_entries [OF r i]) (use none length_sorted_entries [of m] in simp)
  qed
qed

interpretation doc_commands: store_commands "rest_repr H D0" "db_put H" "db_del H" "db_read H" db_scan "doc_call H c" doc_spec
    "doc_cost (fields_of D0 c)" "doc_op_ok c (fields_of D0 c) B" "doc_holds c (fields_of D0 c) B" "doc_frame c" for H D0 c B
  by standard (use doc_step doc_frame_trans in \<open>auto simp only: doc_frame_refl\<close>)


text \<open>
  C8. A client that inserts, updates, reads, deletes and counts documents of one collection,
  in any order, gets what a map from ids to documents would give, where an update merges the
  patch into the stored document. The entries under the index prefix of the collection are
  after every sequence exactly those of the indexed fields of the stored documents: no entry
  is stale or missing. Nothing outside the collection and its indexes changes.
\<close>

theorem doc_refines:
  assumes "rest_repr H D0 D f (n + run_cost (doc_cost (fields_of D0 c)) ops)"
    "doc_holds c (fields_of D0 c) B f m (n + run_cost (doc_cost (fields_of D0 c)) ops)"
    "list_all (doc_op_ok c (fields_of D0 c) B) ops"
  shows "\<exists>D' f'. map_m (doc_call H c) ops D = (Inr (fst (run_spec doc_spec ops m)), D') \<and> rest_repr H D0 D' f' n \<and>
     doc_holds c (fields_of D0 c) B f' (snd (run_spec doc_spec ops m)) n \<and> doc_frame c f f'"
  by (rule doc_commands.run [OF assms])

section \<open>Queries\<close>

text \<open>The test of a query on one document.\<close>

definition doc_passes :: "(json \<Rightarrow> bytes \<Rightarrow> bool res) \<Rightarrow> query_args \<Rightarrow> json \<Rightarrow> bool res" where
  "doc_passes search q doc =
     rbind (if truthy (q_filter q) then matches_filter search doc (q_filter q) else Inr True) (\<lambda>b.
     if b then (case q_fn q of None \<Rightarrow> Inr True | Some f \<Rightarrow> f doc) else Inr False)"

definition all_docs :: "(bytes \<rightharpoonup> (bytes \<times> json) list) \<Rightarrow> json list" where
  "all_docs m = map (\<lambda>(i, d). JObj d) (sorted_entries m)"

definition sorted_docs :: "query_args \<Rightarrow> json list \<Rightarrow> json list" where
  "sorted_docs q ds = (case q_sort_by q of
      None \<Rightarrow> ds
    | Some path \<Rightarrow> if path = [] then ds
        else if q_reverse q then rev (sort_key (field_key path) (rev ds)) else sort_key (field_key path) ds)"

lemma select_docs_filter:
  assumes "\<forall>(i, d) \<in> set es. json_ok (JObj d) \<and> doc_passes search q (JObj d) = Inr (P (JObj d))"
  shows "select_docs search q (map (\<lambda>(i, d). (p @ i, json_dumps (JObj d))) es) = Inr (filter P (map (\<lambda>(i, d). JObj d) es))"
  using assms
proof (induction es)
  case (Cons e es)
  obtain i d where e: "e = (i, d)" by fastforce
  let ?b = "if truthy (q_filter q) then matches_filter search (JObj d) (q_filter q) else Inr True"
  have "doc_passes search q (JObj d) = Inr (P (JObj d))" and ok: "json_ok (JObj d)" using Cons.prems by (auto simp: e)
  then obtain b where b: "?b = Inr b" "(if b then (case q_fn q of None \<Rightarrow> Inr True | Some f \<Rightarrow> f (JObj d)) else Inr False) = Inr (P (JObj d))"
    unfolding doc_passes_def rbind_Inr_iff by blast
  have IH: "select_docs search q (map (\<lambda>(i, d). (p @ i, json_dumps (JObj d))) es) = Inr (filter P (map (\<lambda>(i, d). JObj d) es))"
    by (rule Cons.IH) (use Cons.prems in auto)
  show ?case
    by (simp only: e list.map prod.case select_docs.simps load_dumps(1) [OF ok] sum.case b rbind_simps IH filter.simps)
qed simp

lemma set_sorted_entries: "finite (dom m) \<Longrightarrow> (i, d) \<in> set (sorted_entries m) \<longleftrightarrow> m i = Some d"
  by (auto simp: sorted_entries_def)

lemma doc_query_result:
  assumes "rest_repr H D0 D f n" "doc_inv f c fs m" "docs_fit c fs m"
    and passes: "\<And>i d. m i = Some d \<Longrightarrow> doc_passes search q (JObj d) = Inr (P (JObj d))"
    and sortable: "\<And>i d path. m i = Some d \<Longrightarrow> P (JObj d) \<Longrightarrow> q_sort_by q = Some path \<Longrightarrow> sortable path (JObj d)"
  shows "doc_query search c q D =
     (Inr (py_slice_int (sorted_docs q (filter P (all_docs m))) (q_offset q) (q_offset q + q_limit q)), D)"
proof -
  have "wp (doc_query search c q) (\<lambda>ds D'. ds = py_slice_int (sorted_docs q (filter P (all_docs m))) (q_offset q) (q_offset q + q_limit q) \<and> D' = D) D"
    unfolding doc_query_def wp_simps
  proof (rule wp_doc_entries [OF assms(1,2)])
    assume fin: "finite (dom m)"
    have "json_ok (JObj d) \<and> doc_passes search q (JObj d) = Inr (P (JObj d))" if "(i, d) \<in> set (sorted_entries m)" for i d
      using that passes assms(3) set_sorted_entries [OF fin] unfolding docs_fit_def doc_fits_def by blast
    then have sel: "select_docs search q (map (\<lambda>(i, d). (doc_prefix c @ i, json_dumps (JObj d))) (sorted_entries m)) =
        Inr (filter P (all_docs m))" unfolding all_docs_def by (intro select_docs_filter) blast
    have "set (filter P (all_docs m)) \<subseteq> {d. sortable path d}" if "q_sort_by q = Some path" for path
      using sortable that set_sorted_entries [OF fin] by (auto simp: all_docs_def)
    then have "(case q_sort_by q of None \<Rightarrow> Inr (filter P (all_docs m))
        | Some path \<Rightarrow> if path = [] then Inr (filter P (all_docs m)) else py_sort (sort_less path) (q_reverse q) (filter P (all_docs m))) =
      Inr (sorted_docs q (filter P (all_docs m)))"
      using by_field.sorts by (auto simp: sorted_docs_def split: option.split)
    then show "wp (lift_res (select_docs search q (map (\<lambda>(i, d). (doc_prefix c @ i, json_dumps (JObj d))) (sorted_entries m))))
       (\<lambda>results. wp (lift_res (case q_sort_by q of None \<Rightarrow> Inr results
           | Some path \<Rightarrow> if path = [] then Inr results else py_sort (sort_less path) (q_reverse q) results))
         (\<lambda>sorted D'. py_slice_int sorted (q_offset q) (q_offset q + q_limit q) =
            py_slice_int (sorted_docs q (filter P (all_docs m))) (q_offset q) (q_offset q + q_limit q) \<and> D' = D)) D"
      by (simp only: sel wp_simps)
  qed
  then show ?thesis by (auto elim!: wpE)
qed


lemma doc_query_all:
  assumes "rest_repr H D0 D f n" "doc_inv f c fs m" "docs_fit c fs m"
  shows "doc_query search c (query_defaults\<lparr>q_limit := l\<rparr>) D = (Inr (py_slice_int (all_docs m) 0 l), D)"
  using doc_query_result [OF assms, of search "query_defaults\<lparr>q_limit := l\<rparr>" "\<lambda>_. True"]
  by (simp add: doc_passes_def query_defaults_def sorted_docs_def)

text \<open>
  C9. A query returns a page of the documents that pass its filter and its function: without
  \<open>sort_by\<close> in the order of their ids, and with it in a stable sort by the field, documents
  without the field last (first with \<open>reverse\<close>).
\<close>

theorem doc_query_selects:
  assumes "rest_repr H D0 D f n" "doc_inv f c fs m" "docs_fit c fs m"
    and passes: "\<And>i d. m i = Some d \<Longrightarrow> doc_passes search q (JObj d) = Inr (P (JObj d))"
    and sortable: "\<And>i d path. m i = Some d \<Longrightarrow> P (JObj d) \<Longrightarrow> q_sort_by q = Some path \<Longrightarrow> sortable path (JObj d)"
  shows "doc_query search c q D =
     (Inr (py_slice_int (sorted_docs q (filter P (all_docs m))) (q_offset q) (q_offset q + q_limit q)), D)"
  using assms by (rule doc_query_result)

section \<open>Creating an index\<close>

lemma wp_create_loop:
  assumes "rest_repr H D0 D f (n + length es)"
    "\<forall>(i, d) \<in> set es. map_of d ''_id'' = Some (JStr i) \<and> small_entries c [p] i d"
    "\<And>D'. rest_repr H D0 D' (set_entries c (\<Union>(i, d) \<in> set es. doc_entries [p] i d) (Some ''1'') f) n \<Longrightarrow> Q () D'"
  shows "wp (for_each (map (\<lambda>(i, d). JObj d) es) (\<lambda>doc. let val = get_nested_field doc p
     in if val \<noteq> JNull then bnd (lift_res (doc_id_text doc)) (\<lambda>i. db_put H (idx_key c p val i) ''1'') else ret ())) Q D"
  using assms
proof (induction es arbitrary: D f)
  case (Cons e es)
  obtain i d where e: "e = (i, d)" by fastforce
  let ?x = "get_nested_field (JObj d) p"
  have r: "rest_repr H D0 D f (Suc (n + length es))" using Cons.prems(1) by simp
  have id: "doc_id_text (JObj d) = Inr i" using Cons.prems(2) by (auto simp: e doc_id_text_def json_item_def)
  note small = small_entries_Cons [of c p "[]" i d]
  show ?case
  proof (cases "?x = JNull")
    case True
    with Cons.IH [OF rest.less_room [OF r]] Cons.prems(2,3) show ?thesis by (simp add: e Let_def)
  next
    case False
    have k: "key_ok (index_prefix c @ index_entry p ?x i)" using small(2) False Cons.prems(2) by (simp add: e)
    have v: "val_ok ''1''" by (simp add: val_ok_def TOMBSTONE_def)
    obtain D1 where D1: "db_put H (idx_key c p ?x i) ''1'' D = (Inr (), D1)"
      "rest_repr H D0 D1 (f(index_prefix c @ index_entry p ?x i \<mapsto> ''1'')) (n + length es)"
      using rest.put_law [OF r k v] by (auto simp: idx_key_entry)
    have "wp (for_each (map (\<lambda>(i, d). JObj d) es) (\<lambda>doc. let val = get_nested_field doc p
       in if val \<noteq> JNull then bnd (lift_res (doc_id_text doc)) (\<lambda>i. db_put H (idx_key c p val i) ''1'') else ret ())) Q D1"
      by (rule Cons.IH [OF D1(2)]) (use Cons.prems(2,3) False in \<open>simp_all add: e Let_def del: fun_upd_apply\<close>)
    then show ?thesis using D1(1) False by (auto simp: e Let_def id intro: wpI)
  qed
qed simp

lemma doc_entries_insert: "doc_entries (List.insert p fs) i d = doc_entries fs i d \<union> doc_entries [p] i d"
  unfolding doc_entries_def by auto

lemma doc_inv_index:
  assumes "doc_inv f c fs m" "finite (dom m)"
  shows "doc_inv (set_entries c (\<Union>(i, d) \<in> set (sorted_entries m). doc_entries [p] i d) (Some ''1'') f) c (List.insert p fs) m"
proof -
  have union: "doc_inv (set_entries c X (Some ''1'') f) c fs' m"
    if "\<And>x. (\<exists>i d. m i = Some d \<and> x \<in> doc_entries fs' i d) \<longleftrightarrow> x \<in> X \<or> (\<exists>i d. m i = Some d \<and> x \<in> doc_entries fs i d)" for X fs'
    using assms(1) by (simp add: doc_inv_def that del: json_dumps.simps)
  show ?thesis
    by (rule union) (auto simp: set_sorted_entries [OF assms(2)] doc_entries_insert simp del: doc_entries_simps, blast)
qed

text \<open>
  Creating an index writes an entry for every stored document that has the field, so that
  afterwards the entries under the index prefix are exactly those of the old fields and the
  new one, and the indexed fields of the collection have grown by it. The collection may hold
  up to a million documents.
\<close>

theorem doc_create_index_builds:
  assumes r: "rest_repr H D D f (n + card (dom m))" and i: "doc_inv f c (fields_of D c) m" and fit: "docs_fit c (fields_of D c) m"
    and small: "\<And>i d. m i = Some d \<Longrightarrow> small_entries c [p] i d" and p: "CHR '':'' \<notin> set p" and size: "card (dom m) \<le> 1000000"
  shows "\<exists>D' f'. doc_create_index H search c p D = (Inr (), D') \<and> rest_repr H D' D' f' n \<and>
     fields_of D' c = List.insert p (fields_of D c) \<and> doc_inv f' c (fields_of D' c) m \<and> docs_fit c (fields_of D' c) m \<and> doc_frame c f f'"
proof -
  let ?D = "D\<lparr>d_indexes := AList.update c (List.insert p (fields_of D c)) (d_indexes D)\<rparr>"
  let ?f = "set_entries c (\<Union>(i, d) \<in> set (sorted_entries m). doc_entries [p] i d) (Some ''1'') f"
  let ?loop = "\<lambda>doc. let val = get_nested_field doc p
     in if val \<noteq> JNull then bnd (lift_res (doc_id_text doc)) (\<lambda>i. db_put H (idx_key c p val i) ''1'') else ret ()"
  have fields: "fields_of ?D c = List.insert p (fields_of D c)" by (simp add: fields_of_def update_conv')
  have r': "rest_repr H ?D ?D f (n + card (dom m))" using r by (simp add: rest_repr_def db_repr_def)
  have fin: "finite (dom m)" using wp_doc_entries [OF r i, of "\<lambda>_ _. finite (dom m)"] by (auto elim: wpE)
  have len: "length (sorted_entries m) = card (dom m)" by (rule length_sorted_entries [OF fin])
  have "doc_query search c (query_defaults\<lparr>q_limit := 1000000\<rparr>) ?D = (Inr (py_slice_int (all_docs m) 0 1000000), ?D)"
    using doc_query_all [OF r' i fit] by simp
  moreover have "py_slice_int (all_docs m) 0 1000000 = all_docs m"
    using size len by (simp add: py_slice_int_def py_slice_def clamp_def all_docs_def)
  ultimately have q: "doc_query search c (query_defaults\<lparr>q_limit := 1000000\<rparr>) ?D = (Inr (all_docs m), ?D)" by simp
  have "wp (for_each (all_docs m) ?loop) (\<lambda>_ D'. rest_repr H ?D D' ?f n) ?D"
    unfolding all_docs_def
  proof (rule wp_create_loop)
    show "rest_repr H ?D ?D f (n + length (sorted_entries m))" using r' by (simp only: len)
    show "\<forall>(i, d) \<in> set (sorted_entries m). map_of d ''_id'' = Some (JStr i) \<and> small_entries c [p] i d"
      using fit small by (auto simp: set_sorted_entries [OF fin] docs_fit_def doc_fits_def)
  qed
  then obtain D' where D': "for_each (all_docs m) ?loop ?D = (Inr (), D')" "rest_repr H ?D D' ?f n" by (auto elim: wpE)
  have "doc_create_index H search c p D = (Inr (), D')"
    using q D'(1) by (simp add: doc_create_index_def sq_def bnd_def fields_of_def)
  moreover have "rest_repr H D' D' ?f n" using D'(2) by (simp add: rest_repr_def)
  moreover have "fields_of D' c = List.insert p (fields_of D c)" using rest_fields [OF D'(2), of c] fields by simp
  moreover have "doc_frame c f ?f" by (rule entries_frame)
  moreover have "docs_fit c (List.insert p (fields_of D c)) m"
    using fit small p by (auto simp: docs_fit_def doc_fits_def small_entries_def doc_entries_insert)
  ultimately show ?thesis using doc_inv_index [OF i fin, of p] by metis
qed


section \<open>Concrete stores\<close>

definition sample_docs :: docs where
  "sample_docs = \<lparr>db_lsm = sample_tree, d_indexes = [(''c'', [''a''])]\<rparr>"

definition sample_doc :: "int \<Rightarrow> bytes \<Rightarrow> (bytes \<times> json) list" where
  "sample_doc n i = [(''a'', JInt n), (''_id'', JStr i)]"

lemma sample_docs_repr: "n \<le> 40000000 \<Longrightarrow> rest_repr sample_host sample_docs sample_docs Map.empty n"
  by (simp add: rest_repr_def db_repr_def sample_docs_def sample_repr)

lemma sample_fields: "fields_of sample_docs ''c'' = [''a'']"
  by (simp add: fields_of_def sample_docs_def)

lemma sample_docs_holds: "n \<le> 1000 \<Longrightarrow> doc_holds ''c'' fs 1000 Map.empty Map.empty n" if "fs = [''a'']" for fs
  using that by (simp add: doc_holds_def doc_inv_def docs_fit_def)

lemma get_top_field: "CHR ''.'' \<notin> set p \<Longrightarrow> get_nested_field (JObj d) p = (case map_of d p of None \<Rightarrow> JNull | Some v \<Rightarrow> v)"
proof -
  assume "CHR ''.'' \<notin> set p"
  then have "split_char (CHR ''.'') p = [p]" by (induction p) auto
  then show ?thesis by (simp add: get_nested_field_def Let_def split: option.split)
qed

lemma dump_names:
  "dump_str ''_id'' = QUOTE # ''_id'' @ [QUOTE]" "dump_str ''a'' = [QUOTE, CHR ''a'', QUOTE]"
  "dump_str ''b'' = [QUOTE, CHR ''b'', QUOTE]" "dump_str ''x'' = [QUOTE, CHR ''x'', QUOTE]" "dump_str ''y'' = [QUOTE, CHR ''y'', QUOTE]"
  by (simp_all add: dump_str_def str_points.simps escape_point_def char_of_eq_iff)

lemma str_int_digits: "str_int 1 = ''1''" "str_int 2 = ''2''"
  by (simp_all add: str_int_def str_nat.simps digit_char_def char_of_eq_iff)

lemma sample_args:
  "doc_arg_ok ''c'' [''a''] 1000 ''x'' [(''a'', JInt 2)]" "doc_arg_ok ''c'' [''a''] 1000 ''y'' [(''a'', JInt 1)]"
  "doc_arg_ok ''c'' [''a''] 1000 ''x'' [(''b'', JBool True)]"
proof -
  have u: "utf8_valid ''a''" "utf8_valid ''b''" "utf8_valid ''x''" "utf8_valid ''y''" by (simp_all add: utf8_ascii)
  show "doc_arg_ok ''c'' [''a''] 1000 ''x'' [(''a'', JInt 2)]" "doc_arg_ok ''c'' [''a''] 1000 ''y'' [(''a'', JInt 1)]"
    "doc_arg_ok ''c'' [''a''] 1000 ''x'' [(''b'', JBool True)]"
    by (simp_all add: doc_arg_ok_def u dump_names str_int_digits doc_prefix_def small_entries_def get_top_field with_id_def
        Let_def index_entry_def index_prefix_def)
qed

text \<open>A store with two documents.\<close>

lemma sample_store:
  "\<exists>D f. rest_repr sample_host sample_docs D f 100 \<and>
     doc_holds ''c'' [''a''] 1000 f [''x'' \<mapsto> [(''a'', JInt 2), (''_id'', JStr ''x'')], ''y'' \<mapsto> [(''a'', JInt 1), (''_id'', JStr ''y'')]] 100"
  using doc_commands.run [of sample_host sample_docs sample_docs Map.empty 100 "''c''"
      "[DInsert ''x'' [(''a'', JInt 2)], DInsert ''y'' [(''a'', JInt 1)]]" 1000 Map.empty]
    sample_docs_repr [of 106] sample_docs_holds [of "[''a'']" 106] sample_args
  by (auto simp: sample_fields run_cost_def with_id_def)

theorem doc_refines_witness:
  "\<exists>D f. map_m (doc_call sample_host ''c'') [DInsert ''x'' [(''a'', JInt 2)], DUpdate ''x'' [(''b'', JBool True)], DGet ''x'', DDelete ''y'', DCount] sample_docs =
       (Inr [JObj [(''a'', JInt 2), (''_id'', JStr ''x'')], JObj [(''a'', JInt 2), (''_id'', JStr ''x''), (''b'', JBool True)],
          JObj [(''a'', JInt 2), (''_id'', JStr ''x''), (''b'', JBool True)], JBool False, JInt 1], D) \<and>
     rest_repr sample_host sample_docs D f 100 \<and>
     doc_inv f ''c'' [''a''] [''x'' \<mapsto> [(''a'', JInt 2), (''_id'', JStr ''x''), (''b'', JBool True)]]"
proof -
  let ?ops = "[DInsert ''x'' [(''a'', JInt 2)], DUpdate ''x'' [(''b'', JBool True)], DGet ''x'', DDelete ''y'', DCount]"
  have c: "run_cost (doc_cost [''a'']) ?ops = 8" by (simp add: run_cost_def)
  have s: "run_spec doc_spec ?ops Map.empty = ([JObj [(''a'', JInt 2), (''_id'', JStr ''x'')], JObj [(''a'', JInt 2), (''_id'', JStr ''x''), (''b'', JBool True)],
      JObj [(''a'', JInt 2), (''_id'', JStr ''x''), (''b'', JBool True)], JBool False, JInt 1],
      [''x'' \<mapsto> [(''a'', JInt 2), (''_id'', JStr ''x''), (''b'', JBool True)]])"
    by (auto simp: with_id_def opt_doc_def fun_eq_iff)
  show ?thesis
    using doc_refines [of sample_host sample_docs sample_docs Map.empty 100 "''c''" ?ops 1000 Map.empty]
      sample_docs_repr [of 108] sample_docs_holds [of "[''a'']" 108] sample_args
    unfolding sample_fields c s fst_conv snd_conv by (auto simp: doc_holds_def)
qed


theorem doc_query_selects_witness:
  "\<exists>D. doc_count ''c'' D = (Inr 2, D) \<and>
     doc_query (\<lambda>_ _. Inr False) ''c'' (query_defaults\<lparr>q_filter := JObj [(''a'', JObj [(''$gt'', JInt 0)])], q_sort_by := Some ''a'', q_limit := 1\<rparr>) D =
       (Inr [JObj [(''a'', JInt 1), (''_id'', JStr ''y'')]], D)"
proof -
  let ?m = "[''x'' \<mapsto> [(''a'', JInt 2), (''_id'', JStr ''x'')], ''y'' \<mapsto> [(''a'', JInt 1), (''_id'', JStr ''y'')]]"
  let ?q = "query_defaults\<lparr>q_filter := JObj [(''a'', JObj [(''$gt'', JInt 0)])], q_sort_by := Some ''a'', q_limit := 1\<rparr>"
  obtain D f where D: "rest_repr sample_host sample_docs D f 100" "doc_holds ''c'' [''a''] 1000 f ?m 100"
    using sample_store by blast
  then have i: "doc_inv f ''c'' [''a''] ?m" "docs_fit ''c'' [''a''] ?m" by (simp_all add: doc_holds_def)
  have dom: "dom ?m = {''x'', ''y''}" by auto
  have s: "sorted_entries ?m = [(''x'', [(''a'', JInt 2), (''_id'', JStr ''x'')]), (''y'', [(''a'', JInt 1), (''_id'', JStr ''y'')])]"
    unfolding sorted_entries_def dom by simp
  have a: "split_char (CHR ''.'') ''a'' = [''a'']" by simp
  have "doc_passes (\<lambda>_ _. Inr False) ?q (JObj d) = Inr True" if "?m i = Some d" for i d
    using that by (auto simp: doc_passes_def query_defaults_def matches_filter_def json_items_def match_op_def get_top_field cmp_of_def num_eq_def Let_def split: if_splits)
  moreover have "sortable path (JObj d)" if "?m i = Some d" "q_sort_by ?q = Some path" for i d path
    using that by (auto simp: sortable_def get_top_field numeric_def query_defaults_def split: if_splits)
  ultimately have "doc_query (\<lambda>_ _. Inr False) ''c'' ?q D =
      (Inr (py_slice_int (sorted_docs ?q (filter (\<lambda>_. True) (all_docs ?m))) (q_offset ?q) (q_offset ?q + q_limit ?q)), D)"
    by (intro doc_query_selects [OF D(1) i])
  moreover have "sorted_docs ?q (filter (\<lambda>_. True) (all_docs ?m)) =
      [JObj [(''a'', JInt 1), (''_id'', JStr ''y'')], JObj [(''a'', JInt 2), (''_id'', JStr ''x'')]]"
    by (simp add: sorted_docs_def all_docs_def s query_defaults_def field_key_def get_top_field Let_def num_of_def less_eq_prod_def less_eq_pynum_def)
  moreover have "doc_count ''c'' D = (Inr 2, D)"
  proof -
    have "wp (doc_count ''c'') (\<lambda>n D'. n = 2 \<and> D' = D) D" unfolding doc_count_def wp_simps
      by (rule wp_doc_entries [OF D(1) i(1)]) (simp add: s)
    then show ?thesis by (auto elim: wpE)
  qed
  ultimately show ?thesis by (intro exI [of _ D]) (simp add: query_defaults_def py_slice_int_def py_slice_def clamp_def)
qed

theorem doc_create_index_builds_witness:
  "\<exists>D D' f'. doc_create_index sample_host (\<lambda>_ _. Inr False) ''c'' ''_id'' D = (Inr (), D') \<and>
     fields_of D' ''c'' = [''_id'', ''a''] \<and> f' (index_prefix ''c'' @ index_entry ''_id'' (JStr ''x'') ''x'') = Some ''1'' \<and>
     rest_repr sample_host D' D' f' 50"
proof -
  let ?m = "[''x'' \<mapsto> [(''a'', JInt 2), (''_id'', JStr ''x'')], ''y'' \<mapsto> [(''a'', JInt 1), (''_id'', JStr ''y'')]]"
  obtain D f where D: "rest_repr sample_host sample_docs D f 100" "doc_holds ''c'' [''a''] 1000 f ?m 100"
    using sample_store by blast
  have dom: "dom ?m = {''x'', ''y''}" by auto
  have card: "card (dom ?m) = 2" unfolding dom by simp
  have r: "rest_repr sample_host D D f (50 + card (dom ?m))"
    using rest.room_le [OF D(1), of 52] by (simp add: card rest_repr_def)
  have fs: "fields_of D ''c'' = [''a'']" using rest_fields [OF D(1)] sample_fields by simp
  have i: "doc_inv f ''c'' (fields_of D ''c'') ?m" "docs_fit ''c'' (fields_of D ''c'') ?m" using D(2) by (simp_all add: doc_holds_def fs)
  have "small_entries ''c'' [''_id''] i d" if "?m i = Some d" for i d
    using that by (auto simp: small_entries_def get_top_field Let_def index_entry_def index_prefix_def dump_names QUOTE_def split: if_splits)
  from doc_create_index_builds [where search = "\<lambda>_ _. Inr False", OF r i this] obtain D' f' where D': "doc_create_index sample_host (\<lambda>_ _. Inr False) ''c'' ''_id'' D = (Inr (), D')"
    "rest_repr sample_host D' D' f' 50" "fields_of D' ''c'' = [''_id'', ''a'']" "doc_inv f' ''c'' [''_id'', ''a''] ?m"
    by (auto simp: card fs)
  have "index_entry ''_id'' (JStr ''x'') ''x'' \<in> doc_entries [''_id'', ''a''] ''x'' [(''a'', JInt 2), (''_id'', JStr ''x'')]"
    by (simp add: get_top_field Let_def)
  then have "f' (index_prefix ''c'' @ index_entry ''_id'' (JStr ''x'') ''x'') = Some ''1''"
    using D'(4) by (auto simp: doc_inv_def)
  with D' show ?thesis by blast
qed

end
