(* ===== verification/FloatOps.thy ===== *)
theory FloatOps
  imports PyCompare
begin

text \<open>
  The float operations of the search engines: product, quotient, square root, and \<open>round\<close> to a
  number of decimals, on binary64 values as words. What neither IEEE 754 nor the language fixes
  is a parameter, \<open>pymath\<close>: \<open>sum\<close> of a list of floats, which is plain before CPython 3.12 and
  compensated since, the natural logarithm \<open>math.log\<close>, the power \<open>x ** 2\<close>, and the random choice
  of \<open>random.sample\<close>, given as indices.
\<close>

record pymath =
  pm_sum :: "f64 list \<Rightarrow> f64"
  pm_log :: "f64 \<Rightarrow> f64 res"
  pm_square :: "f64 \<Rightarrow> f64 res"
  pm_sample :: "nat \<Rightarrow> nat \<Rightarrow> nat list"

section \<open>Arithmetic\<close>

definition signed_bits :: "bool \<Rightarrow> nat \<Rightarrow> f64" where
  "signed_bits neg bits = of_nat ((if neg then 2 ^ 63 else 0) + bits)"

definition magnitude :: "f64 \<Rightarrow> nat" where
  "magnitude w = nat \<bar>f64_scaled w\<bar>"

definition f64_mul :: "f64 \<Rightarrow> f64 \<Rightarrow> f64" where
  "f64_mul a b =
     (let neg = (f64_sign a \<noteq> f64_sign b) in
      if f64_nan a then a
      else if f64_nan b then b
      else if f64_finite a \<and> f64_finite b then f64_round neg (magnitude a * magnitude b) (2 ^ 1074)
      else if f64_eq a 0 \<or> f64_eq b 0 then NAN
      else signed_bits neg INF_BITS)"

definition f64_div :: "f64 \<Rightarrow> f64 \<Rightarrow> f64 res" where
  "f64_div a b =
     (let neg = (f64_sign a \<noteq> f64_sign b) in
      if f64_eq b 0 then Inl ZeroDivisionError
      else if f64_nan a then Inr a
      else if f64_nan b then Inr b
      else if f64_finite b then
        Inr (if f64_finite a then f64_round neg (magnitude a * 2 ^ 1074) (magnitude b) else signed_bits neg INF_BITS)
      else Inr (if f64_finite a then signed_bits neg 0 else NAN))"

text \<open>The integer square root, two bits at a time.\<close>

fun isqrt :: "nat \<Rightarrow> nat" where
  "isqrt n = (if n = 0 then 0 else let r = 2 * isqrt (n div 4) in if (r + 1) * (r + 1) \<le> n then r + 1 else r)"

declare isqrt.simps [simp del]

lemma isqrt_bounds: "isqrt n * isqrt n \<le> n \<and> n < Suc (isqrt n) * Suc (isqrt n)"
proof (induction n rule: isqrt.induct)
  case (1 n)
  show ?case
  proof (cases "n = 0")
    case True
    then show ?thesis by (simp add: isqrt.simps)
  next
    case False
    define s where "s = isqrt (n div 4)"
    have s: "s * s \<le> n div 4" "n div 4 < Suc s * Suc s" using 1 [OF False] by (simp_all add: s_def)
    have lo: "(2 * s) * (2 * s) \<le> n" using s(1) by simp
    have "n div 4 + 1 \<le> Suc s * Suc s" using s(2) by simp
    then have hi: "n < (2 * s + 2) * (2 * s + 2)" by (simp add: algebra_simps)
    have "isqrt n = (if (2 * s + 1) * (2 * s + 1) \<le> n then 2 * s + 1 else 2 * s)"
      using False by (subst isqrt.simps) (simp add: s_def Let_def)
    then show ?thesis using lo hi by (auto simp: not_le)
  qed
qed

text \<open>
  The root of \<open>n\<close> units of \<open>2 ^ (- 1074)\<close> is the root of \<open>n * 2 ^ 1074\<close> units. It has over 500
  bits, so a last bit that tells whether the integer root is exact is enough to round it.
\<close>

definition f64_sqrt :: "f64 \<Rightarrow> f64 res" where
  "f64_sqrt w =
     (if f64_nan w \<or> f64_eq w 0 then Inr w
      else if f64_sign w = 1 then Inl (ValueError ''math domain error'')
      else if \<not> f64_finite w then Inr w
      else let n = magnitude w * 2 ^ 1074; q = isqrt n
           in Inr (f64_round False (2 * q + (if q * q = n then 0 else 1)) 2))"

section \<open>\<open>sum\<close>\<close>

definition f64_abs :: "f64 \<Rightarrow> f64" where
  "f64_abs w = (if f64_sign w = 0 then w else f64_neg w)"

definition sum_plain :: "f64 list \<Rightarrow> f64" where
  "sum_plain xs = foldl f64_add 0 xs"

text \<open>The running sum and its compensation.\<close>

fun sum_floats :: "f64 \<times> f64 \<Rightarrow> f64 list \<Rightarrow> f64 \<times> f64" where
  "sum_floats (f, c) [] = (f, c)"
| "sum_floats (f, c) (x # xs) =
     (let t = f64_add f x;
          d = (if f64_le (f64_abs x) (f64_abs f) then f64_add (f64_sub f t) x else f64_add (f64_sub x t) f)
      in sum_floats (t, f64_add c d) xs)"

definition sum_compensated :: "f64 list \<Rightarrow> f64" where
  "sum_compensated xs = (case xs of
      [] \<Rightarrow> 0
    | x # ys \<Rightarrow> (case sum_floats (f64_add 0 x, 0) ys of
        (f, c) \<Rightarrow> if \<not> f64_eq c 0 \<and> f64_finite c then f64_add f c else f))"

text \<open>An empty sum is the integer 0.\<close>

definition py_sum :: "pymath \<Rightarrow> f64 list \<Rightarrow> json" where
  "py_sum PM xs = (if xs = [] then JInt 0 else JFloat (pm_sum PM xs))"

text \<open>A number where Python needs a float.\<close>

definition to_float :: "json \<Rightarrow> f64 res" where
  "to_float j = (case j of JFloat w \<Rightarrow> Inr w | JInt i \<Rightarrow> f64_of_int i | JBool b \<Rightarrow> f64_of_int (if b then 1 else 0)
     | _ \<Rightarrow> Inl (TypeError (''must be real number, not '' @ type_name j)))"

section \<open>\<open>round(x, n)\<close>\<close>

definition round_to :: "nat \<Rightarrow> f64 \<Rightarrow> f64" where
  "round_to n w =
     (if \<not> f64_finite w then w
      else f64_round (f64_sign w = 1) (rne_div (magnitude w * 10 ^ n) (2 ^ 1074) * 2 ^ 1074) (10 ^ n))"

fun round_num :: "nat \<Rightarrow> json \<Rightarrow> json" where
  "round_num n (JFloat w) = JFloat (round_to n w)"
| "round_num n j = j"

text \<open>Division of integers: the quotient correctly rounded.\<close>

definition int_div :: "int \<Rightarrow> int \<Rightarrow> f64 res" where
  "int_div a b =
     (if b = 0 then Inl ZeroDivisionError
      else if INF_BITS \<le> round_bits (nat \<bar>a\<bar> * 2 ^ 1074) (nat \<bar>b\<bar>) then Inl OverflowError
      else Inr (f64_round ((a < 0) \<noteq> (b < 0) \<and> a \<noteq> 0) (nat \<bar>a\<bar> * 2 ^ 1074) (nat \<bar>b\<bar>)))"

section \<open>Arithmetic on numbers of JSON\<close>

definition as_int :: "json \<Rightarrow> int option" where
  "as_int j = (case j of JInt i \<Rightarrow> Some i | JBool b \<Rightarrow> Some (if b then 1 else 0) | _ \<Rightarrow> None)"

definition json_arith :: "bytes \<Rightarrow> (int \<Rightarrow> int \<Rightarrow> json res) \<Rightarrow> (f64 \<Rightarrow> f64 \<Rightarrow> json res) \<Rightarrow> json \<Rightarrow> json \<Rightarrow> json res" where
  "json_arith op int_op float_op a b = (case (as_int a, as_int b) of
      (Some i, Some j) \<Rightarrow> int_op i j
    | _ \<Rightarrow> if json_num a \<noteq> None \<and> json_num b \<noteq> None then rbind (to_float a) (\<lambda>x. rbind (to_float b) (float_op x))
        else Inl (TypeError (''unsupported operand type(s) for '' @ op @ '': '' @ quoted (type_name a) @ '' and '' @ quoted (type_name b))))"

definition json_sub :: "json \<Rightarrow> json \<Rightarrow> json res" where
  "json_sub = json_arith ''-'' (\<lambda>i j. Inr (JInt (i - j))) (\<lambda>x y. Inr (JFloat (f64_sub x y)))"

definition json_div :: "json \<Rightarrow> json \<Rightarrow> json res" where
  "json_div = json_arith ''/'' (\<lambda>i j. rbind (int_div i j) (\<lambda>x. Inr (JFloat x))) (\<lambda>x y. rbind (f64_div x y) (\<lambda>z. Inr (JFloat z)))"

text \<open>\<open>a += n\<close> with an integer \<open>n\<close>\<close>

definition json_incr :: "json \<Rightarrow> int \<Rightarrow> json res" where
  "json_incr a n = (case a of
      JStr _ \<Rightarrow> Inl (TypeError (''can only concatenate str (not '' @ [QUOTE] @ ''int'' @ [QUOTE] @ '') to str''))
    | JList _ \<Rightarrow> Inl (TypeError (quoted ''int'' @ '' object is not iterable''))
    | _ \<Rightarrow> json_arith ''+='' (\<lambda>i j. Inr (JInt (i + j))) (\<lambda>x y. Inr (JFloat (f64_add x y))) a (JInt n))"

text \<open>\<open>max(n, j)\<close>\<close>

definition json_max :: "int \<Rightarrow> json \<Rightarrow> json res" where
  "json_max n j = rbind (json_cmp Gt j (JInt n)) (\<lambda>b. Inr (if b then j else JInt n))"

text \<open>\<open>scores.sort(key=lambda x: x[0], reverse=...)\<close>\<close>

definition score_less :: "json \<Rightarrow> json \<Rightarrow> bool" where
  "score_less x y = (case (json_num x, json_num y) of (Some a, Some b) \<Rightarrow> num_less a b | _ \<Rightarrow> False)"

definition sort_scores :: "bool \<Rightarrow> (json \<times> 'a) list \<Rightarrow> (json \<times> 'a) list res" where
  "sort_scores reverse cs = py_sort (\<lambda>x y. Inr (score_less (fst x) (fst y))) reverse cs"

end
