(* ===== verification/Vector.thy ===== *)
theory Vector
  imports Db FloatOps
begin

text \<open>
  \<open>zenith/engine/vector.py\<close>: vectors stored as big-endian singles over an LSM tree, exact and
  IVF-partitioned search. A \<open>List[float]\<close> is a list of binary64 words. A set of ids is a list
  without repetitions; its order decides only the order of equal scores. Sorting scores among
  which is a NaN is insertion.
\<close>

section \<open>Vectors\<close>

definition vector_dot :: "pymath \<Rightarrow> f64 list \<Rightarrow> f64 list \<Rightarrow> json" where
  "vector_dot PM u v = py_sum PM (map (\<lambda>(a, b). f64_mul a b) (zip u v))"

definition vector_norm :: "pymath \<Rightarrow> f64 list \<Rightarrow> f64 res" where
  "vector_norm PM u = rbind (to_float (py_sum PM (map (\<lambda>a. f64_mul a a) u))) f64_sqrt"

definition cosine_similarity :: "pymath \<Rightarrow> f64 list \<Rightarrow> f64 list \<Rightarrow> f64 res" where
  "cosine_similarity PM u v =
     rbind (vector_norm PM u) (\<lambda>norm_u. rbind (vector_norm PM v) (\<lambda>norm_v.
       if f64_eq norm_u 0 \<or> f64_eq norm_v 0 then Inr 0
       else rbind (to_float (vector_dot PM u v)) (\<lambda>d. f64_div d (f64_mul norm_u norm_v))))"

definition euclidean_distance :: "pymath \<Rightarrow> f64 list \<Rightarrow> f64 list \<Rightarrow> f64 res" where
  "euclidean_distance PM u v =
     rbind (rmap (\<lambda>(a, b). pm_square PM (f64_sub a b)) (zip u v)) (\<lambda>xs. rbind (to_float (py_sum PM xs)) f64_sqrt)"

text \<open>\<open>struct.pack(">nf", *v)\<close> and \<open>struct.unpack\<close>\<close>

definition pack_floats :: "f64 list \<Rightarrow> bytes res" where
  "pack_floats v = rbind (rmap f64_to_f32 v) (\<lambda>ws. Inr (concat (map (\<lambda>w. be_bytes 4 (unat w)) ws)))"

fun read_floats :: "nat \<Rightarrow> bytes \<Rightarrow> f64 list" where
  "read_floats 0 b = []"
| "read_floats (Suc n) b = f32_to_f64 (of_nat (be_val (take 4 b))) # read_floats n (drop 4 b)"

definition unpack_floats :: "bytes \<Rightarrow> f64 list res" where
  "unpack_floats b = (let dim = length b div 4 in if length b = 4 * dim then Inr (read_floats dim b) else Inl StructError)"

section \<open>The index\<close>

record vecs = db +
  v_namespace :: bytes
  v_dimension :: "nat option"
  v_centroids :: "f64 list list"
  v_clusters :: "(nat \<times> bytes list) list"

definition vec_prefix :: "bytes \<Rightarrow> bytes" where
  "vec_prefix ns = ''__VEC__:'' @ ns @ '':''"

definition vec_key :: "bytes \<Rightarrow> bytes \<Rightarrow> bytes" where
  "vec_key ns vec_id = ''__VEC__:'' @ ns @ '':'' @ vec_id"

definition meta_key :: "bytes \<Rightarrow> bytes \<Rightarrow> bytes" where
  "meta_key ns vec_id = ''__VMETA__:'' @ ns @ '':'' @ vec_id"

definition vec_insert :: "host \<Rightarrow> bytes \<Rightarrow> f64 list \<Rightarrow> json \<Rightarrow> (vecs, unit) pym" where
  "vec_insert H vector_id vector metadata = bnd (gets v_dimension) (\<lambda>dim.
     sq (case dim of
           None \<Rightarrow> (\<lambda>V. (Inr (), V\<lparr>v_dimension := Some (length vector)\<rparr>))
         | Some d \<Rightarrow> if length vector = d then ret ()
             else raise (ValueError (''Vector dimension mismatch: expected '' @ str_nat d @ '', got '' @ str_nat (length vector))))
       (bnd (lift_res (pack_floats vector)) (\<lambda>vec_bytes. bnd (gets v_namespace) (\<lambda>ns.
        sq (db_put H (vec_key ns vector_id) vec_bytes)
           (if truthy metadata then db_put H (meta_key ns vector_id) (json_dumps metadata) else ret ())))))"

text \<open>\<open>json.loads(raw.decode("utf-8")) if raw else {}\<close>\<close>

definition load_meta :: "bytes option \<Rightarrow> json res" where
  "load_meta raw = (case raw of
      None \<Rightarrow> Inr (JObj [])
    | Some b \<Rightarrow> if b = [] then Inr (JObj []) else decode_json b)"

definition vec_get :: "host \<Rightarrow> bytes \<Rightarrow> (vecs, (f64 list \<times> json) option) pym" where
  "vec_get H vector_id = bnd (gets v_namespace) (\<lambda>ns. bnd (db_get H (vec_key ns vector_id)) (\<lambda>vec_raw.
     case vec_raw of
       None \<Rightarrow> ret None
     | Some b \<Rightarrow> bnd (lift_res (unpack_floats b)) (\<lambda>vector.
         bnd (db_get H (meta_key ns vector_id)) (\<lambda>meta_raw.
         bnd (lift_res (load_meta meta_raw)) (\<lambda>metadata. ret (Some (vector, metadata)))))))"

definition vec_delete :: "host \<Rightarrow> bytes \<Rightarrow> (vecs, bool) pym" where
  "vec_delete H vector_id = bnd (gets v_namespace) (\<lambda>ns. bnd (db_get H (vec_key ns vector_id)) (\<lambda>v.
     if v = None then ret False
     else sq (db_del H (vec_key ns vector_id)) (sq (db_del H (meta_key ns vector_id)) (ret True))))"

section \<open>Training\<close>

text \<open>One stored vector: its id and its floats.\<close>

definition decode_vec :: "bytes \<Rightarrow> bytes \<times> bytes \<Rightarrow> (bytes \<times> f64 list) res" where
  "decode_vec p = (\<lambda>(k, v). rbind (py_decode (drop (length p) k)) (\<lambda>i. rbind (unpack_floats v) (\<lambda>x. Inr (i, x))))"

text \<open>\<open>max(range(n), key=...)\<close>: the first index of a greatest score.\<close>

fun best_from :: "pymath \<Rightarrow> f64 list \<Rightarrow> nat \<Rightarrow> f64 list list \<Rightarrow> nat \<times> f64 \<Rightarrow> nat res" where
  "best_from PM v i [] best = Inr (fst best)"
| "best_from PM v i (c # cs) best = rbind (cosine_similarity PM v c) (\<lambda>s.
     best_from PM v (Suc i) cs (if f64_less (snd best) s then (i, s) else best))"

definition nearest_centroid :: "pymath \<Rightarrow> f64 list list \<Rightarrow> f64 list \<Rightarrow> nat res" where
  "nearest_centroid PM centroids v = (case centroids of
      [] \<Rightarrow> Inl (ValueError ''max() iterable argument is empty'')
    | c # cs \<Rightarrow> rbind (cosine_similarity PM v c) (\<lambda>s. best_from PM v 1 cs (0, s)))"

text \<open>\<open>clusters[best_c].append(v)\<close> for all vectors; the clusters as a list by index.\<close>

fun assign_clusters :: "pymath \<Rightarrow> f64 list list \<Rightarrow> ('a \<Rightarrow> f64 list) \<Rightarrow> 'a list \<Rightarrow> 'a list list \<Rightarrow> 'a list list res" where
  "assign_clusters PM centroids vec [] clusters = Inr clusters"
| "assign_clusters PM centroids vec (x # xs) clusters = rbind (nearest_centroid PM centroids (vec x)) (\<lambda>b.
     assign_clusters PM centroids vec xs (clusters[b := clusters ! b @ [x]]))"

definition coordinate :: "nat \<Rightarrow> f64 list \<Rightarrow> f64 res" where
  "coordinate d p = (if d < length p then Inr (p ! d) else Inl IndexError)"

text \<open>The mean of the points in each of the first \<open>dim\<close> coordinates.\<close>

definition mean_point :: "pymath \<Rightarrow> nat \<Rightarrow> f64 list list \<Rightarrow> f64 list res" where
  "mean_point PM dim pts = rmap (\<lambda>d. rbind (rmap (coordinate d) pts) (\<lambda>xs.
     rbind (to_float (py_sum PM xs)) (\<lambda>s. rbind (f64_of_int (int (length pts))) (f64_div s)))) [0..<dim]"

definition update_centroids :: "pymath \<Rightarrow> nat \<Rightarrow> f64 list list list \<Rightarrow> f64 list list \<Rightarrow> f64 list list res" where
  "update_centroids PM dim clusters centroids =
     rmap (\<lambda>(c, pts). if pts = [] then Inr c else mean_point PM dim pts) (zip centroids clusters)"

fun train_loop :: "pymath \<Rightarrow> nat \<Rightarrow> f64 list list \<Rightarrow> nat \<Rightarrow> f64 list list \<Rightarrow> f64 list list res" where
  "train_loop PM 0 vectors dim centroids = Inr centroids"
| "train_loop PM (Suc n) vectors dim centroids =
     rbind (assign_clusters PM centroids id vectors (replicate (length centroids) [])) (\<lambda>clusters.
     rbind (update_centroids PM dim clusters centroids) (train_loop PM n vectors dim))"

text \<open>The centroids and the clusters of ids that training computes, \<open>None\<close> when there are too few vectors.\<close>

definition train_result ::
  "pymath \<Rightarrow> int \<Rightarrow> int \<Rightarrow> (bytes \<times> f64 list) list \<Rightarrow> (f64 list list \<times> bytes list list) option res" where
  "train_result PM n_clusters max_iters vectors =
     (if int (length vectors) < n_clusters then Inr None
      else if n_clusters < 0 then Inl (ValueError ''Sample larger than population or is negative'')
      else let k = nat n_clusters;
               start = map (\<lambda>i. map snd vectors ! i) (pm_sample PM (length vectors) k)
        in case start of
             [] \<Rightarrow> Inl IndexError
           | c # _ \<Rightarrow> rbind (train_loop PM (nat max_iters) (map snd vectors) (length c) start) (\<lambda>centroids.
               rbind (assign_clusters PM centroids snd vectors (replicate k [])) (\<lambda>clusters.
                 Inr (Some (centroids, map (map fst) clusters)))))"

definition train_ivf :: "pymath \<Rightarrow> int \<Rightarrow> int \<Rightarrow> (vecs, unit) pym" where
  "train_ivf PM n_clusters max_iters = bnd (gets v_namespace) (\<lambda>ns.
     bnd (db_prefix (vec_prefix ns)) (\<lambda>es.
     bnd (lift_res (rmap (decode_vec (vec_prefix ns)) es)) (\<lambda>vectors.
     bnd (lift_res (train_result PM n_clusters max_iters vectors)) (\<lambda>r. case r of
         None \<Rightarrow> ret ()
       | Some (centroids, clusters) \<Rightarrow>
           (\<lambda>V. (Inr (), V\<lparr>v_centroids := centroids, v_clusters := zip [0..<length clusters] clusters\<rparr>))))))"

section \<open>Search\<close>

definition calc_score :: "pymath \<Rightarrow> f64 list \<Rightarrow> f64 list \<Rightarrow> bytes \<Rightarrow> json res" where
  "calc_score PM u v metric =
     (if metric = ''cosine'' then rbind (cosine_similarity PM u v) (\<lambda>s. Inr (JFloat s))
      else if metric = ''euclidean'' then rbind (euclidean_distance PM u v) (\<lambda>s. Inr (JFloat s))
      else if metric = ''dot'' then Inr (vector_dot PM u v)
      else Inl (ValueError (''Unknown metric: '' @ metric)))"

text \<open>\<open>meta.get(k) != v\<close>\<close>

fun meta_items :: "json \<Rightarrow> (bytes \<times> json) list \<Rightarrow> bool res" where
  "meta_items meta [] = Inr True"
| "meta_items meta ((k, v) # items) =
     rbind (json_get meta k JNull) (\<lambda>x. if json_eq x v then meta_items meta items else Inr False)"

definition matches_meta :: "json \<Rightarrow> json \<Rightarrow> bool res" where
  "matches_meta meta filter_dict = rbind (json_items filter_dict) (meta_items meta)"

record vec_query =
  vq_vector :: "f64 list"
  vq_top_k :: int
  vq_metric :: bytes
  vq_filter :: json
  vq_n_probe :: int

definition vec_query_defaults :: "f64 list \<Rightarrow> vec_query" where
  "vec_query_defaults u = \<lparr>vq_vector = u, vq_top_k = 10, vq_metric = ''cosine'', vq_filter = JNull, vq_n_probe = 4\<rparr>"

text \<open>A candidate: score, id and metadata.\<close>

type_synonym candidate = "json \<times> bytes \<times> json"

definition score_candidate :: "pymath \<Rightarrow> vec_query \<Rightarrow> bytes \<Rightarrow> f64 list \<Rightarrow> json \<Rightarrow> candidate option res" where
  "score_candidate PM q vec_id v meta =
     rbind (if truthy (vq_filter q) then matches_meta meta (vq_filter q) else Inr True) (\<lambda>b.
       if b then rbind (calc_score PM (vq_vector q) v (vq_metric q)) (\<lambda>s. Inr (Some (s, vec_id, meta))) else Inr None)"

definition add_candidate :: "candidate option \<Rightarrow> candidate list \<Rightarrow> candidate list" where
  "add_candidate c cs = (case c of None \<Rightarrow> cs | Some x \<Rightarrow> x # cs)"

fun search_ids :: "host \<Rightarrow> pymath \<Rightarrow> vec_query \<Rightarrow> bytes list \<Rightarrow> (vecs, candidate list) pym" where
  "search_ids H PM q [] = ret []"
| "search_ids H PM q (i # ids) = bnd (vec_get H i) (\<lambda>r. case r of
      None \<Rightarrow> search_ids H PM q ids
    | Some (v, meta) \<Rightarrow> bnd (lift_res (score_candidate PM q i v meta)) (\<lambda>c.
        bnd (search_ids H PM q ids) (\<lambda>cs. ret (add_candidate c cs))))"

fun search_entries :: "host \<Rightarrow> pymath \<Rightarrow> vec_query \<Rightarrow> bytes \<Rightarrow> (bytes \<times> bytes) list \<Rightarrow> (vecs, candidate list) pym" where
  "search_entries H PM q ns [] = ret []"
| "search_entries H PM q ns (e # es) = bnd (lift_res (decode_vec (vec_prefix ns) e)) (\<lambda>(i, v).
     bnd (db_get H (meta_key ns i)) (\<lambda>raw. bnd (lift_res (load_meta raw)) (\<lambda>meta.
     bnd (lift_res (score_candidate PM q i v meta)) (\<lambda>c.
     bnd (search_entries H PM q ns es) (\<lambda>cs. ret (add_candidate c cs))))))"

definition probe_ids :: "pymath \<Rightarrow> vec_query \<Rightarrow> f64 list list \<Rightarrow> (nat \<times> bytes list) list \<Rightarrow> bytes list res" where
  "probe_ids PM q centroids clusters =
     rbind (rmap (\<lambda>(i, c). rbind (cosine_similarity PM (vq_vector q) c) (\<lambda>s. Inr (JFloat s, i)))
       (zip [0..<length centroids] centroids)) (\<lambda>scored.
     rbind (sort_scores True scored) (\<lambda>sorted.
       Inr (remdups (concat (map (\<lambda>(_, i). case map_of clusters i of None \<Rightarrow> [] | Some ids \<Rightarrow> ids)
         (py_slice_int sorted 0 (vq_n_probe q)))))))"

definition vec_candidates :: "host \<Rightarrow> pymath \<Rightarrow> vec_query \<Rightarrow> (vecs, candidate list) pym" where
  "vec_candidates H PM q = bnd (gets v_centroids) (\<lambda>centroids.
     if centroids \<noteq> [] \<and> vq_n_probe q \<le> int (length centroids) then
       bnd (gets v_clusters) (\<lambda>clusters. bnd (lift_res (probe_ids PM q centroids clusters)) (search_ids H PM q))
     else bnd (gets v_namespace) (\<lambda>ns. bnd (db_prefix (vec_prefix ns)) (search_entries H PM q ns)))"

definition vec_result :: "candidate \<Rightarrow> json" where
  "vec_result = (\<lambda>(score, vec_id, meta).
     JObj [(''vector_id'', JStr vec_id), (''score'', round_num 6 score), (''metadata'', meta)])"

definition vec_search :: "host \<Rightarrow> pymath \<Rightarrow> vec_query \<Rightarrow> (vecs, json list) pym" where
  "vec_search H PM q = bnd (vec_candidates H PM q) (\<lambda>cs.
     bnd (lift_res (sort_scores (vq_metric q = ''cosine'' \<or> vq_metric q = ''dot'') cs)) (\<lambda>sorted.
       ret (map vec_result (py_slice_int sorted 0 (vq_top_k q)))))"

end
