(* ===== verification/PyUnicode.thy ===== *)
theory PyUnicode
  imports Json
begin

text \<open>
  Strings as lists of code points, for the operations that look at characters, and the texts
  \<open>repr\<close> gives. The tables of the Unicode database are a parameter: \<open>str.lower\<close>, NFKD
  normalisation, the characters \<open>\w\<close> of \<open>re\<close> matches, the pairs it identifies under
  \<open>IGNORECASE\<close>, and the characters \<open>repr\<close> prints as they are.
\<close>

type_synonym ustr = "nat list"

record unicode =
  u_lower :: "ustr \<Rightarrow> ustr"
  u_nfkd :: "ustr \<Rightarrow> ustr"
  u_word :: "nat \<Rightarrow> bool"
  u_same :: "nat \<Rightarrow> nat \<Rightarrow> bool"
  u_printable :: "nat \<Rightarrow> bool"

text \<open>
  What the laws rely on: the characters of words are code points other than the colon, and
  \<open>lower\<close> makes only such code points of such code points.
\<close>

definition plain_point :: "nat \<Rightarrow> bool" where
  "plain_point c \<longleftrightarrow> c < 0x110000 \<and> c \<noteq> 58"

definition unicode_ok :: "unicode \<Rightarrow> bool" where
  "unicode_ok U \<longleftrightarrow> (\<forall>c. u_word U c \<longrightarrow> plain_point c) \<and>
     (\<forall>s. list_all plain_point s \<longrightarrow> list_all plain_point (u_lower U s))"

text \<open>The code points of an ASCII literal, and the UTF-8 bytes of code points.\<close>

definition ascii_points :: "string \<Rightarrow> ustr" where
  "ascii_points s = map of_char s"

definition point_bytes :: "ustr \<Rightarrow> bytes" where
  "point_bytes ps = concat (map utf8_encode ps)"

definition unicode_space :: "nat \<Rightarrow> bool" where
  "unicode_space n \<longleftrightarrow> 9 \<le> n \<and> n \<le> 13 \<or> 28 \<le> n \<and> n \<le> 32 \<or> 0x2000 \<le> n \<and> n \<le> 0x200A \<or>
     n \<in> {0x85, 0xA0, 0x1680, 0x2028, 0x2029, 0x202F, 0x205F, 0x3000}"

definition point_strip :: "ustr \<Rightarrow> ustr" where
  "point_strip s = rev (dropWhile unicode_space (rev (dropWhile unicode_space s)))"

text \<open>\<open>s.strip()\<close> of a string that is well-formed\<close>

definition str_strip :: "bytes \<Rightarrow> bytes" where
  "str_strip s = point_bytes (point_strip (str_points s))"

lemma point_bytes_ascii: "\<forall>c \<in> set s. of_char c < (128 :: nat) \<Longrightarrow> point_bytes (ascii_points s) = s"
  by (induction s) (simp_all add: point_bytes_def ascii_points_def utf8_encode_def)

lemma str_points_ascii: "\<forall>c \<in> set s. of_char c < (128 :: nat) \<Longrightarrow> str_points s = ascii_points s"
proof (induction s)
  case (Cons c s)
  then show ?case by (subst str_points.simps) (simp add: ascii_points_def Let_def)
qed (simp add: str_points.simps ascii_points_def)

lemma ascii_space: "of_char c < (128 :: nat) \<Longrightarrow> unicode_space (of_char c) = is_space c"
  by (auto simp: unicode_space_def is_space_def Let_def)

lemma dropWhile_ascii:
  "\<forall>c \<in> set s. of_char c < (128 :: nat) \<Longrightarrow> dropWhile unicode_space (map of_char s) = map of_char (dropWhile is_space s)"
  by (induction s) (simp_all add: ascii_space)

lemma str_strip_ascii: "\<forall>c \<in> set s. of_char c < (128 :: nat) \<Longrightarrow> str_strip s = strip s"
proof -
  assume a: "\<forall>c \<in> set s. of_char c < (128 :: nat)"
  then have b: "\<forall>c \<in> set (rev (dropWhile is_space s)). of_char c < (128 :: nat)" by (auto dest: set_dropWhileD)
  have "point_strip (str_points s) = ascii_points (strip s)"
    using dropWhile_ascii [OF a] dropWhile_ascii [OF b]
    by (simp add: str_points_ascii [OF a] point_strip_def strip_def ascii_points_def rev_map)
  moreover have "\<forall>c \<in> set (strip s). of_char c < (128 :: nat)" using a by (auto simp: strip_def dest!: set_dropWhileD)
  ultimately show ?thesis by (simp add: str_strip_def point_bytes_ascii)
qed

section \<open>Words\<close>

text \<open>The matches of the pattern for whole words: the maximal runs of word characters, with their positions.\<close>

function word_spans :: "(nat \<Rightarrow> bool) \<Rightarrow> nat \<Rightarrow> ustr \<Rightarrow> (nat \<times> ustr) list" where
  "word_spans P i [] = []"
| "word_spans P i (c # cs) =
     (if P c then (i, c # takeWhile P cs) # word_spans P (i + length (c # takeWhile P cs)) (dropWhile P cs)
      else word_spans P (i + 1) cs)"
  by pat_completeness auto
termination
  by (relation "measure (\<lambda>(_, _, s). length s)") (auto simp: le_imp_less_Suc length_dropWhile_le)

definition find_words :: "(nat \<Rightarrow> bool) \<Rightarrow> ustr \<Rightarrow> ustr list" where
  "find_words P s = map snd (word_spans P 0 s)"

section \<open>\<open>repr\<close>\<close>

definition hex_text :: "nat \<Rightarrow> nat \<Rightarrow> bytes" where
  "hex_text k n = map (\<lambda>i. hex_digit (n div 16 ^ (k - 1 - i) mod 16)) [0..<k]"

definition repr_point :: "unicode \<Rightarrow> char \<Rightarrow> nat \<Rightarrow> bytes" where
  "repr_point U q n =
     (if n = of_char q \<or> n = 92 then [BACKSLASH, char_of n]
      else if n = 9 then [BACKSLASH, CHR ''t'']
      else if n = 10 then [BACKSLASH, CHR ''n'']
      else if n = 13 then [BACKSLASH, CHR ''r'']
      else if n < 32 \<or> n = 127 then BACKSLASH # CHR ''x'' # hex_text 2 n
      else if n < 127 then [char_of n]
      else if u_printable U n then utf8_encode n
      else if n < 0x100 then BACKSLASH # CHR ''x'' # hex_text 2 n
      else if n < 0x10000 then BACKSLASH # CHR ''u'' # hex_text 4 n
      else BACKSLASH # CHR ''U'' # hex_text 8 n)"

definition repr_str :: "unicode \<Rightarrow> bytes \<Rightarrow> bytes" where
  "repr_str U s =
     (let q = (if CHR 0x27 \<in> set s \<and> CHR 0x22 \<notin> set s then CHR 0x22 else CHR 0x27)
      in q # concat (map (repr_point U q) (str_points s)) @ [q])"

section \<open>Numbers in arguments\<close>

definition int_arg :: "unicode \<Rightarrow> bytes \<Rightarrow> int res" where
  "int_arg U s = (case py_int s of
      None \<Rightarrow> Inl (ValueError (''invalid literal for int() with base 10: '' @ repr_str U s))
    | Some i \<Rightarrow> Inr i)"

definition float_arg :: "unicode \<Rightarrow> bytes \<Rightarrow> f64 res" where
  "float_arg U s = (case py_float s of
      None \<Rightarrow> Inl (ValueError (''could not convert string to float: '' @ repr_str U s))
    | Some x \<Rightarrow> Inr x)"

end
