(* ===== verification/Stemmer.thy ===== *)
theory Stemmer
  imports PyUnicode
begin

text \<open>
  The class \<open>PorterStemmer\<close> of \<open>zenith/engine/text.py\<close> on words as lists of code points.
\<close>

definition is_vowel_char :: "nat \<Rightarrow> bool" where
  "is_vowel_char c \<longleftrightarrow> c \<in> set (ascii_points ''aeiou'')"

fun is_consonant :: "ustr \<Rightarrow> nat \<Rightarrow> bool" where
  "is_consonant word i =
     (if is_vowel_char (word ! i) then False
      else if word ! i = of_char (CHR ''y'') then (if i = 0 then True else \<not> is_consonant word (i - 1))
      else True)"

declare is_consonant.simps [simp del]

text \<open>The pattern of consonants (\<open>True\<close>) and vowels without repetitions.\<close>

definition cv_pattern :: "ustr \<Rightarrow> bool list" where
  "cv_pattern stem = fold (\<lambda>i pattern. let val = is_consonant stem i
     in if pattern = [] \<or> List.last pattern \<noteq> val then pattern @ [val] else pattern) [0..<length stem] []"

text \<open>\<open>pat_str.count("VC")\<close>\<close>

fun count_vc :: "bool list \<Rightarrow> nat" where
  "count_vc (v # c # pat) = (if \<not> v \<and> c then Suc (count_vc pat) else count_vc (c # pat))"
| "count_vc pat = 0"

definition stem_measure :: "ustr \<Rightarrow> nat" where
  "stem_measure stem = (if stem = [] then 0 else count_vc (cv_pattern stem))"

definition has_vowel :: "ustr \<Rightarrow> bool" where
  "has_vowel stem \<longleftrightarrow> list_ex (\<lambda>j. \<not> is_consonant stem j) [0..<length stem]"

definition ends_in :: "ustr \<Rightarrow> string \<Rightarrow> bool" where
  "ends_in word s \<longleftrightarrow> endswith word (ascii_points s)"

text \<open>\<open>word[:-n]\<close>\<close>

definition cut :: "nat \<Rightarrow> ustr \<Rightarrow> ustr" where
  "cut n word = take (length word - n) word"

definition step_1a :: "ustr \<Rightarrow> ustr" where
  "step_1a word =
     (if ends_in word ''sses'' then cut 2 word
      else if ends_in word ''ies'' then cut 2 word
      else if ends_in word ''ss'' then word
      else if ends_in word ''s'' then cut 1 word
      else word)"

text \<open>After the removal of \<open>-ed\<close> or \<open>-ing\<close>.\<close>

definition tidy :: "ustr \<Rightarrow> ustr" where
  "tidy word =
     (if ends_in word ''at'' \<or> ends_in word ''bl'' \<or> ends_in word ''iz'' then word @ ascii_points ''e''
      else if 2 \<le> length word \<and> word ! (length word - 1) = word ! (length word - 2) \<and>
          word ! (length word - 1) \<notin> set (ascii_points ''lsz'') then cut 1 word
      else word)"

definition step_1b :: "ustr \<Rightarrow> ustr" where
  "step_1b word =
     (if ends_in word ''eed'' then (if 0 < stem_measure (cut 3 word) then cut 3 word @ ascii_points ''ee'' else word)
      else if ends_in word ''ed'' then (if has_vowel (cut 2 word) then tidy (cut 2 word) else word)
      else if ends_in word ''ing'' then (if has_vowel (cut 3 word) then tidy (cut 3 word) else word)
      else word)"

definition step_1c :: "ustr \<Rightarrow> ustr" where
  "step_1c word = (if ends_in word ''y'' \<and> has_vowel (cut 1 word) then cut 1 word @ ascii_points ''i'' else word)"

definition suffixes_2 :: "(string \<times> string) list" where
  "suffixes_2 =
     [(''ational'', ''ate''), (''tional'', ''tion''), (''enci'', ''ence''), (''anci'', ''ance''),
      (''izer'', ''ize''), (''abli'', ''able''), (''alli'', ''al''), (''entli'', ''ent''),
      (''eli'', ''e''), (''ousli'', ''ous''), (''ization'', ''ize''), (''ation'', ''ate''),
      (''ator'', ''ate''), (''alism'', ''al''), (''iveness'', ''ive''), (''fulness'', ''ful''),
      (''ousness'', ''ous''), (''aliti'', ''al''), (''iviti'', ''ive''), (''biliti'', ''ble'')]"

text \<open>The first suffix of the list that matches decides.\<close>

fun step_2 :: "(string \<times> string) list \<Rightarrow> ustr \<Rightarrow> ustr" where
  "step_2 [] word = word"
| "step_2 ((sfx, rep) # rest) word =
     (if ends_in word sfx then
        (if 0 < stem_measure (cut (length sfx) word) then cut (length sfx) word @ ascii_points rep else word)
      else step_2 rest word)"

definition suffixes_4 :: "string list" where
  "suffixes_4 =
     [''al'', ''ance'', ''ence'', ''er'', ''ic'', ''able'', ''ible'', ''ant'', ''ement'',
      ''ment'', ''ent'', ''ou'', ''ism'', ''ate'', ''iti'', ''ous'', ''ive'', ''ize'']"

fun step_4 :: "string list \<Rightarrow> ustr \<Rightarrow> ustr" where
  "step_4 [] word = word"
| "step_4 (sfx # rest) word =
     (if ends_in word sfx then (if 1 < stem_measure (cut (length sfx) word) then cut (length sfx) word else word)
      else step_4 rest word)"

definition porter_stem :: "unicode \<Rightarrow> ustr \<Rightarrow> ustr" where
  "porter_stem U w =
     (let word = u_lower U w in
      if length word \<le> 2 then word
      else step_4 suffixes_4 (step_2 suffixes_2 (step_1c (step_1b (step_1a word)))))"

end
