(* ===== verification/TextIndex.thy ===== *)
theory TextIndex
  imports Db FloatOps Stemmer
begin

text \<open>
  The class \<open>FullTextIndex\<close> of \<open>zenith/engine/text.py\<close>: an inverted index over an LSM tree with
  BM25 ranking and snippets. A \<open>str\<close> is its UTF-8 encoding; positions in texts are positions
  of code points. A set of terms is a list without repetitions; its order decides only the
  order of equal scores and of overlapping highlights.
\<close>

section \<open>Tokens\<close>

definition APOS :: char where
  "APOS = CHR 0x27"

definition STOP_WORDS :: "string list" where
  "STOP_WORDS =
    [''a'', ''about'', ''above'', ''after'', ''again'', ''against'', ''all'', ''am'', ''an'', ''and'',
     ''any'', ''are'', ''aren'' @ APOS # ''t'', ''as'', ''at'', ''be'', ''because'', ''been'', ''before'', ''being'',
     ''below'', ''between'', ''both'', ''but'', ''by'', ''can'' @ APOS # ''t'', ''cannot'', ''could'', ''couldn'' @ APOS # ''t'',
     ''did'', ''didn'' @ APOS # ''t'', ''do'', ''does'', ''doesn'' @ APOS # ''t'', ''doing'', ''don'' @ APOS # ''t'', ''down'', ''during'',
     ''each'', ''few'', ''for'', ''from'', ''further'', ''had'', ''hadn'' @ APOS # ''t'', ''has'', ''hasn'' @ APOS # ''t'',
     ''have'', ''haven'' @ APOS # ''t'', ''having'', ''he'', ''he'' @ APOS # ''d'', ''he'' @ APOS # ''ll'', ''he'' @ APOS # ''s'', ''her'', ''here'',
     ''here'' @ APOS # ''s'', ''hers'', ''herself'', ''him'', ''himself'', ''his'', ''how'', ''how'' @ APOS # ''s'', ''i'',
     ''i'' @ APOS # ''d'', ''i'' @ APOS # ''ll'', ''i'' @ APOS # ''m'', ''i'' @ APOS # ''ve'', ''if'', ''in'', ''into'', ''is'', ''isn'' @ APOS # ''t'', ''it'', ''it'' @ APOS # ''s'',
     ''its'', ''itself'', ''let'' @ APOS # ''s'', ''me'', ''more'', ''most'', ''mustn'' @ APOS # ''t'', ''my'', ''myself'',
     ''no'', ''nor'', ''not'', ''of'', ''off'', ''on'', ''once'', ''only'', ''or'', ''other'', ''ought'',
     ''our'', ''ours'', ''ourselves'', ''out'', ''over'', ''own'', ''same'', ''shan'' @ APOS # ''t'', ''she'',
     ''she'' @ APOS # ''d'', ''she'' @ APOS # ''ll'', ''she'' @ APOS # ''s'', ''should'', ''shouldn'' @ APOS # ''t'', ''so'', ''some'', ''such'',
     ''than'', ''that'', ''that'' @ APOS # ''s'', ''the'', ''their'', ''theirs'', ''them'', ''themselves'',
     ''then'', ''there'', ''there'' @ APOS # ''s'', ''these'', ''they'', ''they'' @ APOS # ''d'', ''they'' @ APOS # ''ll'', ''they'' @ APOS # ''re'',
     ''they'' @ APOS # ''ve'', ''this'', ''those'', ''through'', ''to'', ''too'', ''under'', ''until'', ''up'',
     ''very'', ''was'', ''wasn'' @ APOS # ''t'', ''we'', ''we'' @ APOS # ''d'', ''we'' @ APOS # ''ll'', ''we'' @ APOS # ''re'', ''we'' @ APOS # ''ve'', ''were'',
     ''weren'' @ APOS # ''t'', ''what'', ''what'' @ APOS # ''s'', ''when'', ''when'' @ APOS # ''s'', ''where'', ''where'' @ APOS # ''s'', ''which'',
     ''while'', ''who'', ''who'' @ APOS # ''s'', ''whom'', ''why'', ''why'' @ APOS # ''s'', ''with'', ''won'' @ APOS # ''t'', ''would'',
     ''wouldn'' @ APOS # ''t'', ''you'', ''you'' @ APOS # ''d'', ''you'' @ APOS # ''ll'', ''you'' @ APOS # ''re'', ''you'' @ APOS # ''ve'', ''your'', ''yours'',
     ''yourself'', ''yourselves'']"

record texts = db +
  t_namespace :: bytes
  t_k1 :: f64
  t_b :: f64
  t_stemming :: bool

definition tokenize :: "unicode \<Rightarrow> bool \<Rightarrow> bytes \<Rightarrow> bytes list" where
  "tokenize U stemming text =
     map (\<lambda>w. point_bytes (if stemming then porter_stem U w else w))
       (filter (\<lambda>w. w \<notin> ascii_points ` set STOP_WORDS \<and> 2 \<le> length w)
         (find_words (u_word U) (u_lower U (u_nfkd U (str_points text)))))"

definition tokens_of :: "unicode \<Rightarrow> bytes \<Rightarrow> (texts, bytes list) pym" where
  "tokens_of U text = gets (\<lambda>T. tokenize U (t_stemming T) text)"

text \<open>\<open>Counter(tokens)\<close>: terms in order of first occurrence with their counts.\<close>

definition counter :: "'a list \<Rightarrow> ('a \<times> nat) list" where
  "counter ts = fold (\<lambda>t d. AList.update t (case map_of d t of None \<Rightarrow> 1 | Some n \<Rightarrow> n + 1) d) ts []"

section \<open>Keys and statistics\<close>

definition stats_key :: "bytes \<Rightarrow> bytes" where
  "stats_key ns = ''__FT_STATS__:'' @ ns"

definition ft_doc_key :: "bytes \<Rightarrow> bytes \<Rightarrow> bytes" where
  "ft_doc_key ns doc_id = ''__FT_DOC__:'' @ ns @ '':'' @ doc_id"

definition post_prefix :: "bytes \<Rightarrow> bytes \<Rightarrow> bytes" where
  "post_prefix ns term = ''__FT_POST__:'' @ ns @ '':'' @ term @ '':''"

definition post_key :: "bytes \<Rightarrow> bytes \<Rightarrow> bytes \<Rightarrow> bytes" where
  "post_key ns term doc_id = ''__FT_POST__:'' @ ns @ '':'' @ term @ '':'' @ doc_id"

definition no_stats :: json where
  "no_stats = JObj [(''total_docs'', JInt 0), (''total_terms'', JInt 0)]"

definition get_stats :: "host \<Rightarrow> (texts, json) pym" where
  "get_stats H = bnd (gets t_namespace) (\<lambda>ns. bnd (db_get H (stats_key ns)) (\<lambda>raw. ret (case raw of
      None \<Rightarrow> no_stats
    | Some b \<Rightarrow> if b = [] then no_stats else (case decode_json b of Inl _ \<Rightarrow> no_stats | Inr j \<Rightarrow> j))))"

definition save_stats :: "host \<Rightarrow> json \<Rightarrow> (texts, unit) pym" where
  "save_stats H stats = bnd (gets t_namespace) (\<lambda>ns. db_put H (stats_key ns) (json_dumps stats))"

text \<open>\<open>stats[k] = f(stats[k])\<close>; only a dict gets as far as the assignment.\<close>

definition change_item :: "bytes \<Rightarrow> (json \<Rightarrow> json res) \<Rightarrow> json \<Rightarrow> json res" where
  "change_item k f stats = rbind (json_item stats k) (\<lambda>v. rbind (f v) (\<lambda>w. case stats of
      JObj kvs \<Rightarrow> Inr (JObj (AList.update k w kvs)) | _ \<Rightarrow> Inr stats))"

definition change_stats :: "host \<Rightarrow> (json \<Rightarrow> json res) \<Rightarrow> (json \<Rightarrow> json res) \<Rightarrow> (texts, unit) pym" where
  "change_stats H f g = bnd (get_stats H) (\<lambda>stats.
     bnd (lift_res (rbind (change_item ''total_docs'' f stats) (change_item ''total_terms'' g))) (save_stats H))"

section \<open>Indexing\<close>

definition catch_all :: "'a \<Rightarrow> ('s, 'a) pym \<Rightarrow> ('s, 'a) pym" where
  "catch_all x m s = (case m s of (Inl _, s') \<Rightarrow> (Inr x, s') | r \<Rightarrow> r)"

definition as_text :: "json \<Rightarrow> bytes res" where
  "as_text j = (case j of JStr s \<Rightarrow> Inr s
     | _ \<Rightarrow> Inl (TypeError (''normalize() argument 2 must be str, not '' @ type_name j)))"

definition ft_delete :: "host \<Rightarrow> unicode \<Rightarrow> bytes \<Rightarrow> (texts, bool) pym" where
  "ft_delete H U doc_id = bnd (gets t_namespace) (\<lambda>ns. bnd (db_get H (ft_doc_key ns doc_id)) (\<lambda>raw. case raw of
      None \<Rightarrow> ret False
    | Some b \<Rightarrow> catch_all False
        (bnd (lift_res (decode_json b)) (\<lambda>doc_data.
         bnd (lift_res (rbind (json_get doc_data ''text'' (JStr [])) as_text)) (\<lambda>text.
         bnd (tokens_of U text) (\<lambda>tokens.
         bnd (lift_res (json_get doc_data ''length'' (JInt (int (length tokens))))) (\<lambda>doc_len.
         sq (for_each (map fst (counter tokens)) (\<lambda>term. db_del H (post_key ns term doc_id)))
        (sq (db_del H (ft_doc_key ns doc_id))
        (sq (change_stats H (\<lambda>n. rbind (json_sub n (JInt 1)) (json_max 0)) (\<lambda>n. rbind (json_sub n doc_len) (json_max 0)))
            (ret True))))))))))"

definition doc_payload :: "bytes \<Rightarrow> json \<Rightarrow> nat \<Rightarrow> json" where
  "doc_payload text metadata doc_len =
     JObj [(''text'', JStr text), (''metadata'', if truthy metadata then metadata else JObj []), (''length'', JInt (int doc_len))]"

definition index_document :: "host \<Rightarrow> unicode \<Rightarrow> bytes \<Rightarrow> bytes \<Rightarrow> json \<Rightarrow> (texts, unit) pym" where
  "index_document H U doc_id text metadata = bnd (ft_delete H U doc_id) (\<lambda>_.
     bnd (tokens_of U text) (\<lambda>tokens.
     if tokens = [] then ret ()
     else bnd (gets t_namespace) (\<lambda>ns.
       sq (db_put H (ft_doc_key ns doc_id) (json_dumps (doc_payload text metadata (length tokens))))
      (sq (for_each (counter tokens) (\<lambda>(term, tf). db_put H (post_key ns term doc_id) (str_nat tf)))
          (change_stats H (\<lambda>n. json_incr n 1) (\<lambda>n. json_incr n (int (length tokens))))))))"

section \<open>Snippets\<close>

text \<open>\<open>w in window_text\<close>\<close>

definition count_matches :: "ustr list \<Rightarrow> ustr \<Rightarrow> nat" where
  "count_matches query_words window = length (filter (\<lambda>w. find_sub w window \<noteq> None) query_words)"

text \<open>The start of the first window with the most query words, and that number.\<close>

definition best_window :: "ustr list \<Rightarrow> ustr \<Rightarrow> nat \<Rightarrow> nat \<Rightarrow> nat list \<Rightarrow> nat \<times> nat" where
  "best_window query_words lower_text text_len max_length starts =
     fold (\<lambda>start (best_pos, max_matches).
       let matches = count_matches query_words (py_slice lower_text start (min text_len (start + max_length)))
       in if max_matches < matches then (start, matches) else (best_pos, max_matches)) starts (0, 0)"

text \<open>\<open>pattern.sub(r"<b>\g<0></b>", s)\<close> for one word, ignoring case.\<close>

definition match_here :: "unicode \<Rightarrow> ustr \<Rightarrow> ustr \<Rightarrow> bool" where
  "match_here U w s \<longleftrightarrow> length w \<le> length s \<and> list_all2 (u_same U) w (take (length w) s)"

function highlight :: "unicode \<Rightarrow> ustr \<Rightarrow> ustr \<Rightarrow> ustr" where
  "highlight U w s = (case s of
      [] \<Rightarrow> []
    | c # cs \<Rightarrow> if w \<noteq> [] \<and> match_here U w s
        then ascii_points ''<b>'' @ take (length w) s @ ascii_points ''</b>'' @ highlight U w (drop (length w) s)
        else c # highlight U w cs)"
  by pat_completeness auto
termination
  by (relation "measure (\<lambda>(_, _, s). length s)") auto

declare highlight.simps [simp del]

definition generate_snippet :: "unicode \<Rightarrow> bytes \<Rightarrow> bytes \<Rightarrow> nat \<Rightarrow> bytes" where
  "generate_snippet U text query max_length =
     (let cs = str_points text; n = length cs;
          query_words = remdups (find_words (u_word U) (u_lower U (str_points query)));
          lower_text = u_lower U cs;
          starts = map fst (word_spans (u_word U) 0 lower_text);
          start = fst (best_window query_words lower_text n max_length starts) - 20;
          end_pos = min n (start + max_length);
          raw = point_strip (py_slice cs start end_pos)
      in (if 0 < start then ''...'' else []) @ point_bytes (fold (highlight U) query_words raw) @
         (if end_pos < n then ''...'' else []))"

section \<open>Search\<close>

definition ONE :: f64 where "ONE = 0x3FF0000000000000"
definition HALF :: f64 where "HALF = 0x3FE0000000000000"

text \<open>The candidates: ids with the counts of the query terms in them, in order of discovery.\<close>

type_synonym candidates = "(bytes \<times> (bytes \<times> int) list) list"

definition add_posting :: "bytes \<Rightarrow> bytes \<Rightarrow> int \<Rightarrow> candidates \<Rightarrow> candidates" where
  "add_posting doc_id term tf cs =
     AList.update doc_id (AList.update term tf (case map_of cs doc_id of None \<Rightarrow> [] | Some d \<Rightarrow> d)) cs"

fun read_postings :: "unicode \<Rightarrow> bytes \<Rightarrow> bytes \<Rightarrow> (bytes \<times> bytes) list \<Rightarrow> candidates \<Rightarrow> candidates res" where
  "read_postings U p term [] cs = Inr cs"
| "read_postings U p term ((k, v) # es) cs =
     rbind (py_decode (drop (length p) k)) (\<lambda>doc_id. rbind (rbind (py_decode v) (int_arg U)) (\<lambda>tf.
       read_postings U p term es (add_posting doc_id term tf cs)))"

fun collect_candidates ::
  "unicode \<Rightarrow> bytes \<Rightarrow> bytes list \<Rightarrow> candidates \<Rightarrow> (bytes \<times> nat) list \<Rightarrow> (texts, candidates \<times> (bytes \<times> nat) list) pym" where
  "collect_candidates U ns [] cs dfs = ret (cs, dfs)"
| "collect_candidates U ns (term # terms) cs dfs = bnd (db_prefix (post_prefix ns term)) (\<lambda>es.
     bnd (lift_res (read_postings U (post_prefix ns term) term es cs)) (\<lambda>cs'.
       collect_candidates U ns terms cs' (AList.update term (length es) dfs)))"

definition bm25_idf :: "pymath \<Rightarrow> json \<Rightarrow> nat \<Rightarrow> f64 res" where
  "bm25_idf PM N n_q =
     rbind (json_sub N (JInt (int n_q))) (\<lambda>d. rbind (to_float d) (\<lambda>x. rbind (f64_of_int (int n_q)) (\<lambda>y.
     rbind (f64_div (f64_add x HALF) (f64_add y HALF)) (\<lambda>q. pm_log PM (f64_add ONE q)))))"

definition bm25_weight :: "f64 \<Rightarrow> f64 \<Rightarrow> int \<Rightarrow> json \<Rightarrow> json \<Rightarrow> f64 res" where
  "bm25_weight k1 b tf D_len avgdl =
     rbind (f64_of_int tf) (\<lambda>t. rbind (json_div D_len avgdl) (\<lambda>r. rbind (to_float r) (\<lambda>x.
       f64_div (f64_mul t (f64_add k1 ONE))
         (f64_add t (f64_mul k1 (f64_add (f64_sub ONE b) (f64_mul b x)))))))"

definition term_score :: "pymath \<Rightarrow> texts \<Rightarrow> json \<Rightarrow> json \<Rightarrow> (bytes \<times> nat) list \<Rightarrow> (bytes \<times> int) list \<Rightarrow> json \<Rightarrow> bytes \<Rightarrow> f64 \<Rightarrow> f64 res" where
  "term_score PM T N avgdl dfs tfs D_len term score = (case map_of tfs term of
      None \<Rightarrow> Inr score
    | Some tf \<Rightarrow>
        rbind (bm25_idf PM N (case map_of dfs term of None \<Rightarrow> 0 | Some n \<Rightarrow> n)) (\<lambda>idf.
        rbind (bm25_weight (t_k1 T) (t_b T) tf D_len avgdl) (\<lambda>w. Inr (f64_add score (f64_mul idf w)))))"

fun score_docs ::
  "host \<Rightarrow> pymath \<Rightarrow> bytes \<Rightarrow> bytes list \<Rightarrow> json \<Rightarrow> json \<Rightarrow> (bytes \<times> nat) list \<Rightarrow> candidates \<Rightarrow> (texts, (json \<times> bytes) list) pym" where
  "score_docs H PM ns query_terms N avgdl dfs [] = ret []"
| "score_docs H PM ns query_terms N avgdl dfs ((doc_id, tfs) # cs) =
     bnd (db_get H (ft_doc_key ns doc_id)) (\<lambda>doc_raw.
       if doc_raw = None \<or> doc_raw = Some [] then score_docs H PM ns query_terms N avgdl dfs cs
       else bnd (lift_res (decode_json (the doc_raw))) (\<lambda>doc_data.
         bnd (lift_res (json_get doc_data ''length'' avgdl)) (\<lambda>D_len.
         bnd (gets (\<lambda>T. rfold (term_score PM T N avgdl dfs tfs D_len) query_terms 0)) (\<lambda>r.
         bnd (lift_res r) (\<lambda>score.
         bnd (score_docs H PM ns query_terms N avgdl dfs cs) (\<lambda>rest. ret ((JFloat score, doc_id) # rest)))))))"

definition search_result :: "host \<Rightarrow> unicode \<Rightarrow> bytes \<Rightarrow> bytes \<Rightarrow> nat \<Rightarrow> json \<times> bytes \<Rightarrow> (texts, json) pym" where
  "search_result H U ns query snippet_length = (\<lambda>(score, doc_id).
     bnd (db_get H (ft_doc_key ns doc_id)) (\<lambda>doc_raw. case doc_raw of
         None \<Rightarrow> raise (AttributeError (quoted ''NoneType'' @ '' object has no attribute '' @ quoted ''decode''))
       | Some b \<Rightarrow> bnd (lift_res (decode_json b)) (\<lambda>doc_data.
           bnd (lift_res (json_get doc_data ''text'' (JStr []))) (\<lambda>text.
           bnd (lift_res (case text of JStr t \<Rightarrow> Inr (generate_snippet U t query snippet_length) | _ \<Rightarrow> no_attribute text ''lower'')) (\<lambda>snippet.
           bnd (lift_res (json_get doc_data ''metadata'' (JObj []))) (\<lambda>metadata.
           ret (JObj [(''doc_id'', JStr doc_id), (''score'', round_num 4 score), (''snippet'', JStr snippet), (''metadata'', metadata)])))))))"

definition rank_candidates :: "host \<Rightarrow> unicode \<Rightarrow> pymath \<Rightarrow> bytes list \<Rightarrow> json \<Rightarrow> json \<Rightarrow> (texts, (json \<times> bytes) list) pym" where
  "rank_candidates H U PM query_terms N avgdl = bnd (gets t_namespace) (\<lambda>ns.
     bnd (collect_candidates U ns (remdups query_terms) [] []) (\<lambda>(cs, dfs).
     bnd (score_docs H PM ns query_terms N avgdl dfs cs) (\<lambda>scores.
       lift_res (sort_scores True scores))))"

definition ft_search :: "host \<Rightarrow> unicode \<Rightarrow> pymath \<Rightarrow> bytes \<Rightarrow> int \<Rightarrow> nat \<Rightarrow> (texts, json list) pym" where
  "ft_search H U PM query limit snippet_length = bnd (tokens_of U query) (\<lambda>query_terms.
     if query_terms = [] then ret []
     else bnd (get_stats H) (\<lambda>stats.
       bnd (lift_res (json_get stats ''total_docs'' (JInt 0))) (\<lambda>N.
       if json_eq N (JInt 0) then ret []
       else bnd (lift_res (json_get stats ''total_terms'' (JInt 0))) (\<lambda>terms.
         bnd (lift_res (rbind (json_max 1 N) (json_div terms))) (\<lambda>avgdl.
         bnd (rank_candidates H U PM query_terms N avgdl) (\<lambda>scores.
         bnd (gets t_namespace) (\<lambda>ns.
           map_m (search_result H U ns query snippet_length) (py_slice_int scores 0 limit))))))))"

end
