(* ===== verification/Tcp.thy ===== *)
theory Tcp
  imports KV Doc Vector TextIndex Resp
begin

text \<open>
  \<open>zenith/server/tcp.py\<close>: the commands of the RESP server over the four engines, and the loop
  that serves a connection. The elements of a command become texts by \<open>str\<close>. What the sources
  do not contain is a parameter, \<open>site\<close>: the host of the storage layer, the Unicode tables, the
  float functions, \<open>re.search\<close>, the interpreter's recursion limit, and the texts of exceptions
  the interpreter itself raises. Names are upper-cased as ASCII.
\<close>

record site =
  st_host :: host
  st_unicode :: unicode
  st_math :: pymath
  st_search :: "json \<Rightarrow> bytes \<Rightarrow> bool res"
  st_depth :: nat
  st_error :: "py_error \<Rightarrow> bytes"

text \<open>\<open>str(e)\<close>\<close>

definition error_text :: "site \<Rightarrow> py_error \<Rightarrow> bytes" where
  "error_text E e = (case e of
      ValueError t \<Rightarrow> t | TypeError t \<Rightarrow> t | RuntimeError t \<Rightarrow> t | AttributeError t \<Rightarrow> t
    | IndexError \<Rightarrow> ''list index out of range'' | _ \<Rightarrow> st_error E e)"

section \<open>The server\<close>

text \<open>The engines share the tree; an index is kept with its own attributes under its namespace.\<close>

record server = db +
  s_heap :: "(f64 \<times> bytes) list"
  s_indexes :: "(bytes \<times> bytes list) list"
  s_texts :: "(bytes \<times> f64 \<times> f64 \<times> bool) list"
  s_vectors :: "(bytes \<times> nat option \<times> f64 list list \<times> (nat \<times> bytes list) list) list"
  s_start :: f64
  s_ops :: nat

definition on_kv :: "(kv, 'a) pym \<Rightarrow> (server, 'a) pym" where
  "on_kv m S = (case m \<lparr>db_lsm = db_lsm S, kv_heap = s_heap S\<rparr> of
     (r, K) \<Rightarrow> (r, S\<lparr>db_lsm := db_lsm K, s_heap := kv_heap K\<rparr>))"

definition on_doc :: "(docs, 'a) pym \<Rightarrow> (server, 'a) pym" where
  "on_doc m S = (case m \<lparr>db_lsm = db_lsm S, d_indexes = s_indexes S\<rparr> of
     (r, D) \<Rightarrow> (r, S\<lparr>db_lsm := db_lsm D, s_indexes := d_indexes D\<rparr>))"

text \<open>\<open>_get_text_index\<close> and \<open>_get_vector_index\<close>, followed by a call of the index.\<close>

definition K1_DEFAULT :: f64 where "K1_DEFAULT = 0x3FF8000000000000"
definition B_DEFAULT :: f64 where "B_DEFAULT = 0x3FE8000000000000"

definition on_text :: "bytes \<Rightarrow> (texts, 'a) pym \<Rightarrow> (server, 'a) pym" where
  "on_text ns m S =
     (let (k1, b, stemming) = (case map_of (s_texts S) ns of None \<Rightarrow> (K1_DEFAULT, B_DEFAULT, True) | Some x \<Rightarrow> x) in
      case m \<lparr>db_lsm = db_lsm S, t_namespace = ns, t_k1 = k1, t_b = b, t_stemming = stemming\<rparr> of
        (r, T) \<Rightarrow> (r, S\<lparr>db_lsm := db_lsm T, s_texts := AList.update ns (t_k1 T, t_b T, t_stemming T) (s_texts S)\<rparr>))"

definition on_vector :: "bytes \<Rightarrow> (vecs, 'a) pym \<Rightarrow> (server, 'a) pym" where
  "on_vector ns m S =
     (let (dim, centroids, clusters) = (case map_of (s_vectors S) ns of None \<Rightarrow> (None, [], []) | Some x \<Rightarrow> x) in
      case m \<lparr>db_lsm = db_lsm S, v_namespace = ns, v_dimension = dim, v_centroids = centroids, v_clusters = clusters\<rparr> of
        (r, V) \<Rightarrow> (r, S\<lparr>db_lsm := db_lsm V,
          s_vectors := AList.update ns (v_dimension V, v_centroids V, v_clusters V) (s_vectors S)\<rparr>))"

section \<open>Arguments and replies\<close>

definition arg :: "bytes list \<Rightarrow> nat \<Rightarrow> ('s, bytes) pym" where
  "arg args i = lift_res (if i < length args then Inr (args ! i) else Inl IndexError)"

definition arg_int :: "site \<Rightarrow> bytes list \<Rightarrow> nat \<Rightarrow> ('s, int) pym" where
  "arg_int E args i = bnd (arg args i) (\<lambda>s. lift_res (int_arg (st_unicode E) s))"

definition arg_float :: "site \<Rightarrow> bytes list \<Rightarrow> nat \<Rightarrow> ('s, f64) pym" where
  "arg_float E args i = bnd (arg args i) (\<lambda>s. lift_res (float_arg (st_unicode E) s))"

text \<open>\<open>int(args[i]) if len(args) > i else d\<close>\<close>

definition arg_int_or :: "site \<Rightarrow> bytes list \<Rightarrow> nat \<Rightarrow> int \<Rightarrow> ('s, int) pym" where
  "arg_int_or E args i d = (if i < length args then arg_int E args i else ret d)"

text \<open>\<open>json.loads(s)\<close> of a \<open>str\<close>\<close>

definition loads :: "bytes \<Rightarrow> ('s, json) pym" where
  "loads s = lift_res (case json_loads s of None \<Rightarrow> Inl JSONDecodeError | Some j \<Rightarrow> Inr j)"

definition wrong_args :: "bytes \<Rightarrow> bytes" where
  "wrong_args name = resp_error (''wrong number of arguments for '' @ quoted name)"

definition strs :: "bytes list \<Rightarrow> bytes" where
  "strs xs = resp_array (Some (map PStr xs))"

definition opt_strs :: "bytes option list \<Rightarrow> bytes" where
  "opt_strs xs = resp_array (Some (map (\<lambda>v. case v of None \<Rightarrow> PNone | Some s \<Rightarrow> PStr s) xs))"

definition flag01 :: "bool \<Rightarrow> bytes" where
  "flag01 b = resp_integer (if b then 1 else 0)"

definition nat_reply :: "nat \<Rightarrow> bytes" where
  "nat_reply n = resp_integer (int n)"

definition reply :: "('a \<Rightarrow> bytes) \<Rightarrow> ('s, 'a) pym \<Rightarrow> ('s, bytes) pym" where
  "reply f m = bnd m (\<lambda>x. ret (f x))"

section \<open>Connection and server commands\<close>

text \<open>
  One function per family of commands: \<open>None\<close> when the name is not of the family. The order of
  the calls is the order in which the source evaluates its expressions.
\<close>

definition info_text :: "int \<Rightarrow> nat \<Rightarrow> nat \<Rightarrow> bytes" where
  "info_text uptime ops dbsize =
     ''# Server'' @ CRLF @ ''zenith_version:1.0.0'' @ CRLF @ ''os:windows'' @ CRLF @
     ''uptime_in_seconds:'' @ str_int uptime @ CRLF @ ''total_ops_processed:'' @ str_nat ops @ CRLF @
     ''dbsize:'' @ str_nat dbsize @ CRLF"

definition exec_server :: "site \<Rightarrow> bytes \<Rightarrow> bytes list \<Rightarrow> (server, bytes) pym option" where
  "exec_server E cmd args =
     (if cmd = ''PING'' then Some (ret (resp_simple (if args \<noteq> [] then hd args else ''PONG'')))
      else if cmd = ''ECHO'' then Some (ret (resp_bulk (Some (if args \<noteq> [] then hd args else []))))
      else if cmd = ''COMMAND'' then Some (ret (resp_array (Some [])))
      else if cmd = ''INFO'' then Some (bnd kv_time (\<lambda>now. bnd (gets s_start) (\<lambda>t0.
        bnd (lift_res (f64_to_int (f64_sub now t0))) (\<lambda>uptime. bnd (gets s_ops) (\<lambda>ops.
        bnd (on_kv (kv_dbsize (st_host E))) (\<lambda>n. ret (resp_bulk (Some (info_text uptime ops n)))))))))
      else if cmd = ''DBSIZE'' then Some (reply nat_reply (on_kv (kv_dbsize (st_host E))))
      else if cmd = ''FLUSHDB'' \<or> cmd = ''FLUSHALL'' then Some (sq (on_kv (kv_flushdb (st_host E))) (ret resp_ok))
      else if cmd = ''COMPACT'' then Some (sq (on_lsm (lsm_compact (st_host E))) (ret resp_ok))
      else None)"

section \<open>String commands\<close>

text \<open>The flags of \<open>SET\<close>; an unknown flag is skipped.\<close>

fun set_flags :: "site \<Rightarrow> bytes list \<Rightarrow> int option \<times> bool \<times> bool \<Rightarrow> (int option \<times> bool \<times> bool) res" where
  "set_flags E [] opts = Inr opts"
| "set_flags E (f # rest) (ex, nx, xx) =
     (let flag = upper f in
      if flag = ''EX'' \<and> rest \<noteq> []
      then rbind (int_arg (st_unicode E) (hd rest)) (\<lambda>n. set_flags E (tl rest) (Some n, nx, xx))
      else if flag = ''NX'' then set_flags E rest (ex, True, xx)
      else if flag = ''XX'' then set_flags E rest (ex, nx, True)
      else set_flags E rest (ex, nx, xx))"

fun pair_up :: "bytes list \<Rightarrow> (bytes \<times> bytes) list" where
  "pair_up (k # v # rest) = (k, v) # pair_up rest"
| "pair_up _ = []"

definition exec_set :: "site \<Rightarrow> bytes list \<Rightarrow> (server, bytes) pym" where
  "exec_set E args = bnd (lift_res (set_flags E (drop 2 args) (None, False, False))) (\<lambda>(ex, nx, xx).
     reply (\<lambda>ok. if ok then resp_ok else resp_bulk None) (on_kv (kv_set (st_host E) (args ! 0) (args ! 1) ex nx xx)))"

definition exec_strings :: "site \<Rightarrow> bytes \<Rightarrow> bytes list \<Rightarrow> (server, bytes) pym option" where
  "exec_strings E cmd args = (let H = st_host E in
      if cmd = ''GET'' then Some (if args = [] then ret (wrong_args ''get'') else reply resp_bulk (on_kv (kv_get H (args ! 0))))
      else if cmd = ''SET'' then Some (if length args < 2 then ret (wrong_args ''set'') else exec_set E args)
      else if cmd = ''SETNX'' then Some (if length args < 2 then ret (wrong_args ''setnx'')
        else reply flag01 (on_kv (kv_setnx H (args ! 0) (args ! 1))))
      else if cmd = ''SETEX'' then Some (if length args < 3 then ret (wrong_args ''setex'')
        else bnd (arg_int E args 1) (\<lambda>ex. sq (on_kv (kv_set H (args ! 0) (args ! 2) (Some ex) False False)) (ret resp_ok)))
      else if cmd = ''MGET'' then Some (reply opt_strs (on_kv (kv_mget H args)))
      else if cmd = ''MSET'' then Some (if odd (length args) then ret (wrong_args ''mset'')
        else sq (on_kv (kv_mset H (dict_update (pair_up args) []))) (ret resp_ok))
      else if cmd = ''INCR'' then Some (bnd (arg args 0) (\<lambda>k. reply resp_integer (on_kv (kv_incrby H k 1))))
      else if cmd = ''INCRBY'' then Some (bnd (arg args 0) (\<lambda>k. bnd (arg_int E args 1) (\<lambda>n. reply resp_integer (on_kv (kv_incrby H k n)))))
      else if cmd = ''DECR'' then Some (bnd (arg args 0) (\<lambda>k. reply resp_integer (on_kv (kv_decrby H k 1))))
      else if cmd = ''DECRBY'' then Some (bnd (arg args 0) (\<lambda>k. bnd (arg_int E args 1) (\<lambda>n. reply resp_integer (on_kv (kv_decrby H k n)))))
      else if cmd = ''APPEND'' then Some (if length args < 2 then ret (wrong_args ''append'')
        else reply nat_reply (on_kv (kv_append H (args ! 0) (args ! 1))))
      else if cmd = ''STRLEN'' then Some (if args = [] then ret (wrong_args ''strlen'')
        else reply nat_reply (on_kv (kv_strlen H (args ! 0))))
      else None)"

section \<open>Keys\<close>

definition exec_keys :: "site \<Rightarrow> bytes \<Rightarrow> bytes list \<Rightarrow> (server, bytes) pym option" where
  "exec_keys E cmd args = (let H = st_host E in
      if cmd = ''DEL'' then Some (reply nat_reply (on_kv (kv_delete H args)))
      else if cmd = ''EXISTS'' then Some (reply nat_reply (on_kv (kv_exists H args)))
      else if cmd = ''EXPIRE'' then Some (bnd (arg args 0) (\<lambda>k. bnd (arg_int E args 1) (\<lambda>s. reply flag01 (on_kv (kv_expire H k s)))))
      else if cmd = ''TTL'' then Some (bnd (arg args 0) (\<lambda>k. reply resp_integer (on_kv (kv_ttl H k))))
      else if cmd = ''PERSIST'' then Some (bnd (arg args 0) (\<lambda>k. reply flag01 (on_kv (kv_persist H k))))
      else if cmd = ''TYPE'' then Some (bnd (arg args 0) (\<lambda>k. reply resp_simple (on_kv (kv_type H k))))
      else if cmd = ''KEYS'' then Some (reply strs (on_kv (kv_keys H (if args \<noteq> [] then hd args else ''*''))))
      else None)"

section \<open>Hashes\<close>

text \<open>The loop of \<open>HSET\<close>: one call per pair.\<close>

fun hset_pairs :: "site \<Rightarrow> bytes \<Rightarrow> (bytes \<times> bytes) list \<Rightarrow> nat \<Rightarrow> (server, nat) pym" where
  "hset_pairs E key [] added = ret added"
| "hset_pairs E key ((x, v) # ps) added = bnd (on_kv (kv_hset (st_host E) key x v)) (\<lambda>n. hset_pairs E key ps (added + n))"

definition exec_hashes :: "site \<Rightarrow> bytes \<Rightarrow> bytes list \<Rightarrow> (server, bytes) pym option" where
  "exec_hashes E cmd args = (let H = st_host E in
      if cmd = ''HSET'' then Some (bnd (arg args 0) (\<lambda>key.
        if odd (length args - 1) then ret (wrong_args ''hset'') else reply nat_reply (hset_pairs E key (pair_up (tl args)) 0)))
      else if cmd = ''HGET'' then Some (bnd (arg args 0) (\<lambda>k. bnd (arg args 1) (\<lambda>x. reply resp_bulk (on_kv (kv_hget H k x)))))
      else if cmd = ''HDEL'' then Some (bnd (arg args 0) (\<lambda>k. reply nat_reply (on_kv (kv_hdel H k (tl args)))))
      else if cmd = ''HGETALL'' then Some (bnd (arg args 0) (\<lambda>k. reply (\<lambda>d. strs (map fst d)) (on_kv (kv_hgetall H k))))
      else if cmd = ''HKEYS'' then Some (bnd (arg args 0) (\<lambda>k. reply strs (on_kv (kv_hkeys H k))))
      else if cmd = ''HVALS'' then Some (bnd (arg args 0) (\<lambda>k. reply strs (on_kv (kv_hvals H k))))
      else if cmd = ''HEXISTS'' then Some (bnd (arg args 0) (\<lambda>k. bnd (arg args 1) (\<lambda>x. reply flag01 (on_kv (kv_hexists H k x)))))
      else if cmd = ''HLEN'' then Some (bnd (arg args 0) (\<lambda>k. reply nat_reply (on_kv (kv_hlen H k))))
      else if cmd = ''HINCRBY'' then Some (bnd (arg_int_or E args 2 1) (\<lambda>amt.
        bnd (arg args 0) (\<lambda>k. bnd (arg args 1) (\<lambda>x. reply resp_integer (on_kv (kv_hincrby H k x amt))))))
      else None)"

section \<open>Lists\<close>

definition exec_lists :: "site \<Rightarrow> bytes \<Rightarrow> bytes list \<Rightarrow> (server, bytes) pym option" where
  "exec_lists E cmd args = (let H = st_host E in
      if cmd = ''LPUSH'' then Some (bnd (arg args 0) (\<lambda>k. reply resp_integer (on_kv (kv_lpush H k (tl args)))))
      else if cmd = ''RPUSH'' then Some (bnd (arg args 0) (\<lambda>k. reply resp_integer (on_kv (kv_rpush H k (tl args)))))
      else if cmd = ''LPOP'' then Some (bnd (arg args 0) (\<lambda>k. reply resp_bulk (on_kv (kv_lpop H k))))
      else if cmd = ''RPOP'' then Some (bnd (arg args 0) (\<lambda>k. reply resp_bulk (on_kv (kv_rpop H k))))
      else if cmd = ''LRANGE'' then Some (bnd (arg args 0) (\<lambda>k. bnd (arg_int E args 1) (\<lambda>a. bnd (arg_int E args 2) (\<lambda>b.
        reply strs (on_kv (kv_lrange H k a b))))))
      else if cmd = ''LLEN'' then Some (bnd (arg args 0) (\<lambda>k. reply resp_integer (on_kv (kv_llen H k))))
      else if cmd = ''LINDEX'' then Some (bnd (arg args 0) (\<lambda>k. bnd (arg_int E args 1) (\<lambda>i. reply resp_bulk (on_kv (kv_lindex H k i)))))
      else if cmd = ''LSET'' then Some (bnd (arg args 0) (\<lambda>k. bnd (arg_int E args 1) (\<lambda>i. bnd (arg args 2) (\<lambda>v.
        reply (\<lambda>ok. if ok then resp_ok else resp_error ''index out of range'') (on_kv (kv_lset H k i v))))))
      else if cmd = ''LTRIM'' then Some (bnd (arg args 0) (\<lambda>k. bnd (arg_int E args 1) (\<lambda>a. bnd (arg_int E args 2) (\<lambda>b.
        sq (on_kv (kv_ltrim H k a b)) (ret resp_ok)))))
      else None)"

section \<open>Sets\<close>

definition exec_sets :: "site \<Rightarrow> bytes \<Rightarrow> bytes list \<Rightarrow> (server, bytes) pym option" where
  "exec_sets E cmd args = (let H = st_host E in
      if cmd = ''SADD'' then Some (bnd (arg args 0) (\<lambda>k. reply nat_reply (on_kv (kv_sadd H k (tl args)))))
      else if cmd = ''SREM'' then Some (bnd (arg args 0) (\<lambda>k. reply nat_reply (on_kv (kv_srem H k (tl args)))))
      else if cmd = ''SMEMBERS'' then Some (bnd (arg args 0) (\<lambda>k. reply strs (on_kv (kv_smembers H k))))
      else if cmd = ''SISMEMBER'' then Some (bnd (arg args 0) (\<lambda>k. bnd (arg args 1) (\<lambda>x. reply flag01 (on_kv (kv_sismember H k x)))))
      else if cmd = ''SCARD'' then Some (bnd (arg args 0) (\<lambda>k. reply nat_reply (on_kv (kv_scard H k))))
      else if cmd = ''SUNION'' then Some (reply strs (on_kv (kv_sunion H args)))
      else if cmd = ''SINTER'' then Some (reply strs (on_kv (kv_sinter H args)))
      else if cmd = ''SDIFF'' then Some (reply strs (on_kv (kv_sdiff H args)))
      else None)"

section \<open>Sorted sets\<close>

text \<open>The dict of \<open>ZADD\<close>; a score without a member raises.\<close>

fun zadd_mapping :: "site \<Rightarrow> bytes list \<Rightarrow> (bytes \<times> f64) list \<Rightarrow> (bytes \<times> f64) list res" where
  "zadd_mapping E [] mapping = Inr mapping"
| "zadd_mapping E [s] mapping = rbind (float_arg (st_unicode E) s) (\<lambda>_. Inl IndexError)"
| "zadd_mapping E (s # member # rest) mapping =
     rbind (float_arg (st_unicode E) s) (\<lambda>score. zadd_mapping E rest (AList.update member score mapping))"

definition with_scores :: "(bytes \<times> f64) list \<Rightarrow> bytes list" where
  "with_scores items = concat (map (\<lambda>(m, s). [m, str_float s]) items)"

definition exec_zsets :: "site \<Rightarrow> bytes \<Rightarrow> bytes list \<Rightarrow> (server, bytes) pym option" where
  "exec_zsets E cmd args = (let H = st_host E in
      if cmd = ''ZADD'' then Some (bnd (arg args 0) (\<lambda>k. bnd (lift_res (zadd_mapping E (tl args) [])) (\<lambda>mapping.
        reply nat_reply (on_kv (kv_zadd H k mapping)))))
      else if cmd = ''ZREM'' then Some (bnd (arg args 0) (\<lambda>k. reply nat_reply (on_kv (kv_zrem H k (tl args)))))
      else if cmd = ''ZSCORE'' then Some (bnd (arg args 0) (\<lambda>k. bnd (arg args 1) (\<lambda>x.
        reply (\<lambda>s. resp_bulk (map_option str_float s)) (on_kv (kv_zscore H k x)))))
      else if cmd = ''ZINCRBY'' then Some (bnd (arg args 0) (\<lambda>k. bnd (arg_float E args 1) (\<lambda>a. bnd (arg args 2) (\<lambda>x.
        reply (\<lambda>s. resp_bulk (Some (str_float s))) (on_kv (kv_zincrby H k a x))))))
      else if cmd = ''ZRANK'' then Some (bnd (arg args 0) (\<lambda>k. bnd (arg args 1) (\<lambda>x.
        reply (\<lambda>r. case r of Some n \<Rightarrow> nat_reply n | None \<Rightarrow> resp_bulk None) (on_kv (kv_zrank H k x)))))
      else if cmd = ''ZRANGE'' then Some (bnd (arg args 0) (\<lambda>k. bnd (arg_int E args 1) (\<lambda>a. bnd (arg_int E args 2) (\<lambda>b.
        reply (\<lambda>items. if 3 < length args \<and> upper (args ! 3) = ''WITHSCORES'' then strs (with_scores items) else strs (map fst items))
          (on_kv (kv_zrange H k a b))))))
      else if cmd = ''ZCARD'' then Some (bnd (arg args 0) (\<lambda>k. reply nat_reply (on_kv (kv_zcard H k))))
      else None)"

section \<open>Search and documents\<close>

definition json_reply :: "json \<Rightarrow> bytes" where
  "json_reply j = resp_bulk (Some (json_dumps j))"

definition exec_extended :: "site \<Rightarrow> bytes \<Rightarrow> bytes list \<Rightarrow> (server, bytes) pym option" where
  "exec_extended E cmd args = (let H = st_host E in
      if cmd = ''SEARCH.BM25'' then Some (bnd (arg args 0) (\<lambda>ns. bnd (arg args 1) (\<lambda>query. bnd (arg_int_or E args 2 10) (\<lambda>limit.
        reply (\<lambda>rs. json_reply (JList rs)) (on_text ns (ft_search H (st_unicode E) (st_math E) query limit 160))))))
      else if cmd = ''VECTOR.SEARCH'' then Some (bnd (arg args 0) (\<lambda>ns. bnd (arg args 1) (\<lambda>v.
        bnd (lift_res (rmap (float_arg (st_unicode E)) (split_char (CHR '','') v))) (\<lambda>floats.
        bnd (arg_int_or E args 2 10) (\<lambda>top_k.
        let metric = (if 3 < length args then args ! 3 else ''cosine'') in
        reply (\<lambda>rs. json_reply (JList rs)) (on_vector ns (vec_search H (st_math E)
          ((vec_query_defaults floats)\<lparr>vq_top_k := top_k, vq_metric := metric\<rparr>)))))))) 
      else if cmd = ''DOC.INSERT'' then Some (bnd (arg args 0) (\<lambda>coll. bnd (arg args 1) (\<lambda>doc_id. bnd (arg args 2) (\<lambda>doc_json.
        bnd (loads doc_json) (\<lambda>doc. reply json_reply (on_doc (doc_insert H coll doc_id doc)))))))
      else if cmd = ''DOC.GET'' then Some (bnd (arg args 0) (\<lambda>coll. bnd (arg args 1) (\<lambda>doc_id.
        reply (\<lambda>doc. if truthy doc then json_reply doc else resp_bulk None) (on_doc (doc_get H coll doc_id)))))
      else if cmd = ''DOC.QUERY'' then Some (bnd (arg args 0) (\<lambda>coll.
        bnd (if 1 < length args then loads (args ! 1) else ret JNull) (\<lambda>filter_json.
        reply (\<lambda>docs. json_reply (JList docs)) (on_doc (doc_query (st_search E) coll (query_defaults\<lparr>q_filter := filter_json\<rparr>))))))
      else if cmd = ''DOC.DELETE'' then Some (bnd (arg args 0) (\<lambda>coll. bnd (arg args 1) (\<lambda>doc_id.
        reply flag01 (on_doc (doc_delete H coll doc_id)))))
      else None)"

section \<open>A command\<close>

text \<open>\<open>str(p)\<close> of a parsed value; inside lists \<open>repr\<close>.\<close>

fun py_repr :: "unicode \<Rightarrow> pyval \<Rightarrow> bytes" where
  "py_repr U PNone = ''None''"
| "py_repr U (PBool b) = (if b then ''True'' else ''False'')"
| "py_repr U (PInt i) = str_int i"
| "py_repr U (PStr s) = repr_str U s"
| "py_repr U (PBytes s) = bytes_repr s"
| "py_repr U (PList xs) = ''['' @ join_with '', '' (map (py_repr U) xs) @ '']''"
| "py_repr U (PDict d) = ''{'' @ join_with '', '' (map (\<lambda>(k, v). py_repr U k @ '': '' @ py_repr U v) d) @ ''}''"
| "py_repr U (PExc msg) = ''Exception('' @ repr_str U msg @ '')''"
| "py_repr U (POther s) = s"

definition py_str :: "unicode \<Rightarrow> pyval \<Rightarrow> bytes" where
  "py_str U v = (case v of PStr s \<Rightarrow> s | PExc msg \<Rightarrow> msg | _ \<Rightarrow> py_repr U v)"

definition find_family :: "site \<Rightarrow> bytes \<Rightarrow> bytes list \<Rightarrow> (server, bytes) pym option" where
  "find_family E cmd args =
     List.find (\<lambda>_. True) (List.map_filter (\<lambda>family. family E cmd args)
       [exec_server, exec_strings, exec_keys, exec_hashes, exec_lists, exec_sets, exec_zsets, exec_extended])"

definition dispatch :: "site \<Rightarrow> bytes \<Rightarrow> bytes list \<Rightarrow> (server, bytes) pym" where
  "dispatch E cmd args = (case find_family E cmd args of
      Some m \<Rightarrow> m
    | None \<Rightarrow> ret (resp_error (''unknown command '' @ quoted cmd)))"

text \<open>\<open>except Exception as e\<close>\<close>

definition catch_reply :: "site \<Rightarrow> ('s, bytes) pym \<Rightarrow> 's \<Rightarrow> bytes \<times> 's" where
  "catch_reply E m s = (case m s of (Inr b, s') \<Rightarrow> (b, s') | (Inl e, s') \<Rightarrow> (resp_error (error_text E e), s'))"

definition run_parts :: "site \<Rightarrow> bytes list \<Rightarrow> server \<Rightarrow> bytes \<times> server" where
  "run_parts E parts S = (case parts of
      [] \<Rightarrow> (resp_error ''empty command'', S)
    | name # args \<Rightarrow> catch_reply E (dispatch E (upper name) args) S)"

definition execute_command :: "site \<Rightarrow> pyval \<Rightarrow> server \<Rightarrow> bytes \<times> server" where
  "execute_command E cmd_obj S0 =
     (let S = S0\<lparr>s_ops := s_ops S0 + 1\<rparr> in
      case cmd_obj of
        PList xs \<Rightarrow> (if xs = [] then (resp_error ''empty command'', S) else run_parts E (map (py_str (st_unicode E)) xs) S)
      | PStr s \<Rightarrow> (if s = [] then (resp_error ''empty command'', S) else run_parts E (py_split s) S)
      | PNone \<Rightarrow> (resp_error ''empty command'', S)
      | PBool b \<Rightarrow> (resp_error (if b then ''invalid command format'' else ''empty command''), S)
      | PInt i \<Rightarrow> (resp_error (if i \<noteq> 0 then ''invalid command format'' else ''empty command''), S)
      | PBytes b \<Rightarrow> (resp_error (if b \<noteq> [] then ''invalid command format'' else ''empty command''), S)
      | PDict d \<Rightarrow> (resp_error (if d \<noteq> [] then ''invalid command format'' else ''empty command''), S)
      | _ \<Rightarrow> (resp_error ''invalid command format'', S))"

section \<open>A connection\<close>

text \<open>
  The inner loop of \<open>handle_client\<close>: the replies to all complete commands of the buffer, how
  the loop ended, the buffer and the server after it; the outer loop takes one block of data
  at a time. The blocks are what the calls of \<open>reader.read\<close> return before the connection ends. A
  read returns no bytes only at that end, where the source leaves the loop: that last result
  is the end of the list, and an empty block in the list, which would change nothing here, does
  not occur. An exception of the parser is not caught: it ends the connection.
\<close>

function serve_buffer :: "site \<Rightarrow> bytes \<Rightarrow> server \<Rightarrow> bytes list \<times> unit res \<times> bytes \<times> server" where
  "serve_buffer E buf S = (case get_next (st_depth E) buf of
      (Inl e, b) \<Rightarrow> ([], Inl e, b, S)
    | (Inr v, b) \<Rightarrow>
        if v = PNone then ([], Inr (), b, S)
        else (case execute_command E v S of (r, S') \<Rightarrow>
          (case serve_buffer E b S' of (rs, st, b', S'') \<Rightarrow> (r # rs, st, b', S''))))"
  by pat_completeness auto
termination
  by (relation "measure (\<lambda>(_, buf, _). length buf)") (auto dest!: get_next_shrinks [OF sym])

declare serve_buffer.simps [simp del]

fun handle_client :: "site \<Rightarrow> bytes \<Rightarrow> bytes list \<Rightarrow> server \<Rightarrow> bytes list \<times> unit res \<times> bytes \<times> server" where
  "handle_client E buf [] S = ([], Inr (), buf, S)"
| "handle_client E buf (data # blocks) S =
     (case serve_buffer E (resp_feed data buf) S of
        (rs, Inl e, b, S') \<Rightarrow> (rs, Inl e, b, S')
      | (rs, Inr u, b, S') \<Rightarrow> (case handle_client E b blocks S' of (rs', st, b', S'') \<Rightarrow> (rs @ rs', st, b', S'')))"

end
