(* ===== verification/PyUrl.thy ===== *)
theory PyUrl
  imports PyText Json
begin

text \<open>
  What the HTTP handlers use of \<open>urllib.parse\<close>: \<open>urlparse\<close> on a request target in origin form
  (it begins with one slash and has no white space, as \<open>http.server\<close> hands it over, so there
  is no scheme and no authority), and \<open>parse_qs\<close> with its defaults. A text is its UTF-8
  encoding.
\<close>

section \<open>\<open>urlparse\<close>\<close>

text \<open>The parameters of the last segment, from its first semicolon, are not part of the path.\<close>

definition cut_params :: "bytes \<Rightarrow> bytes" where
  "cut_params p =
     (let segment = rev (takeWhile (\<lambda>c. c \<noteq> CHR ''/'') (rev p))
      in take (length p - length segment) p @ takeWhile (\<lambda>c. c \<noteq> CHR '';'') segment)"

text \<open>The path and the query.\<close>

definition urlparse :: "bytes \<Rightarrow> bytes \<times> bytes" where
  "urlparse target =
     (let url = takeWhile (\<lambda>c. c \<noteq> CHR ''#'') target; path = takeWhile (\<lambda>c. c \<noteq> CHR ''?'') url
      in (cut_params path, drop (Suc (length path)) url))"

text \<open>\<open>s.rstrip("/")\<close>\<close>

definition rstrip_slash :: "bytes \<Rightarrow> bytes" where
  "rstrip_slash s = rev (dropWhile (\<lambda>c. c = CHR ''/'') (rev s))"

section \<open>\<open>parse_qs\<close>\<close>

fun unquote_bytes :: "bytes \<Rightarrow> bytes" where
  "unquote_bytes [] = []"
| "unquote_bytes (c # s) =
     (if c \<noteq> CHR ''%'' then c # unquote_bytes s
      else (case s of
          a # b # r \<Rightarrow> (case (hex_val a, hex_val b) of
              (Some x, Some y) \<Rightarrow> char_of (16 * x + y) # unquote_bytes r
            | _ \<Rightarrow> c # unquote_bytes s)
        | _ \<Rightarrow> c # unquote_bytes s))"

definition is_ascii :: "char \<Rightarrow> bool" where
  "is_ascii c \<longleftrightarrow> of_char c < (128 :: nat)"

text \<open>Runs of ASCII characters are decoded one by one, the characters between them are kept.\<close>

function unquote_runs :: "bytes \<Rightarrow> bytes" where
  "unquote_runs s =
     (if s = [] then []
      else let r = dropWhile (\<lambda>c. \<not> is_ascii c) s
           in takeWhile (\<lambda>c. \<not> is_ascii c) s @ utf8_replace (unquote_bytes (takeWhile is_ascii r)) @ unquote_runs (dropWhile is_ascii r))"
  by pat_completeness auto
termination
proof (relation "measure length", simp)
  fix s r :: bytes assume s: "s \<noteq> []" "r = dropWhile (\<lambda>c. \<not> is_ascii c) s"
  have "length (dropWhile is_ascii r) \<le> length r" "length r \<le> length s" by (simp_all add: s length_dropWhile_le)
  moreover have "length (dropWhile is_ascii r) < length r \<or> length r < length s"
  proof (cases "is_ascii (hd s)")
    case True
    then have "r = s" using s by (cases s) simp_all
    then have "length (dropWhile is_ascii r) < length r"
      using s True length_dropWhile_le [of is_ascii "tl s"] by (cases s) (simp_all add: less_Suc_eq_le)
    then show ?thesis ..
  next
    case False
    then have "length r < length s"
      using s length_dropWhile_le [of "\<lambda>c. \<not> is_ascii c" "tl s"] by (cases s) (simp_all add: less_Suc_eq_le)
    then show ?thesis ..
  qed
  ultimately show "(dropWhile is_ascii r, s) \<in> measure length" by auto
qed

declare unquote_runs.simps [simp del]

definition unquote :: "bytes \<Rightarrow> bytes" where
  "unquote s = (if CHR ''%'' \<in> set s then unquote_runs s else s)"

text \<open>One field \<open>name=value\<close>; fields without a value are dropped.\<close>

definition parse_field :: "bytes \<Rightarrow> (bytes \<times> bytes) option" where
  "parse_field s =
     (let name = takeWhile (\<lambda>c. c \<noteq> CHR ''='') s; val = drop (Suc (length name)) s;
          plus = map (\<lambda>c. if c = CHR ''+'' then CHR '' '' else c)
      in if val = [] then None else Some (unquote (plus name), unquote (plus val)))"

definition parse_qsl :: "bytes \<Rightarrow> (bytes \<times> bytes) list" where
  "parse_qsl qs = List.map_filter parse_field (split_char (CHR ''&'') qs)"

text \<open>\<open>parse_qs(qs).get(name, [default])[0]\<close>\<close>

definition query_field :: "bytes \<Rightarrow> bytes \<Rightarrow> bytes \<Rightarrow> bytes" where
  "query_field qs name d = (case map_of (parse_qsl qs) name of None \<Rightarrow> d | Some v \<Rightarrow> v)"

end
