(* ===== verification/JsonPretty.thy ===== *)
theory JsonPretty
  imports JsonLaws
begin

text \<open>
  \<open>json.dumps(data, indent=2)\<close>: one item per line, and the law that the text reads back.
\<close>

text \<open>A new line at a level of nesting.\<close>

definition new_line :: "nat \<Rightarrow> bytes" where
  "new_line n = CHR 0x0A # replicate (2 * n) (CHR '' '')"

fun json_indent :: "nat \<Rightarrow> json \<Rightarrow> bytes" where
  "json_indent n (JList xs) =
     (if xs = [] then ''[]''
      else CHR ''['' # new_line (Suc n) @ join_with (CHR '','' # new_line (Suc n)) (map (json_indent (Suc n)) xs) @
        new_line n @ '']'')"
| "json_indent n (JObj kvs) =
     (if kvs = [] then ''{}''
      else CHR ''{'' # new_line (Suc n) @
        join_with (CHR '','' # new_line (Suc n)) (map (\<lambda>(k, v). dump_str k @ '': '' @ json_indent (Suc n) v) kvs) @
        new_line n @ ''}'')"
| "json_indent n j = json_dumps j"

section \<open>Reading it back\<close>

lemma closed_simps [simp]: "closed []" "closed (CHR '','' # r)" "closed (CHR '']'' # r)" "closed (CHR ''}'' # r)" "closed (new_line n @ r)"
  by (simp_all add: closed_def new_line_def is_digit_def)

lemma skip_new_line: "skip_space (new_line n @ r) = skip_space r"
proof -
  have "skip_space (replicate k (CHR '' '') @ r) = skip_space r" for k
    by (induction k) (simp_all add: skip_space_space)
  then show ?thesis by (simp add: new_line_def skip_space_def json_space_def)
qed

lemma json_indent_head: "json_indent n j \<noteq> [] \<and> \<not> json_space (hd (json_indent n j)) \<and> hd (json_indent n j) \<noteq> CHR '']'' \<and>
    of_char (hd (json_indent n j)) < (128 :: nat)"
  using json_dumps_head [of j] by (cases j) (simp_all add: json_space_def)

lemma skip_indent: "skip_space (json_indent n j @ r) = json_indent n j @ r"
  using json_indent_head [of n j] by (cases "json_indent n j") (simp_all add: skip_space_def)

definition pretty_back :: "json \<Rightarrow> bool" where
  "pretty_back j \<longleftrightarrow> (\<forall>n r. closed r \<longrightarrow> read_value (json_indent n j @ r) = Some (j, r))"

lemma read_elements_indent:
  "\<forall>x \<in> set xs. pretty_back x \<Longrightarrow> xs \<noteq> [] \<Longrightarrow>
   read_elements (join_with (CHR '','' # new_line n) (map (json_indent n) xs) @ new_line k @ CHR '']'' # r) = Some (xs, r)"
proof (induction xs rule: induct_list012)
  case (2 x)
  then have "read_value (json_indent n x @ new_line k @ CHR '']'' # r) = Some (x, new_line k @ CHR '']'' # r)"
    by (simp add: pretty_back_def)
  then show ?case by (subst read_elements.simps) (simp add: skip_new_line skip_simps)
next
  case (3 x y ys)
  let ?s = "join_with (CHR '','' # new_line n) (map (json_indent n) (y # ys)) @ new_line k @ CHR '']'' # r"
  have "read_value (json_indent n x @ CHR '','' # new_line n @ ?s) = Some (x, CHR '','' # new_line n @ ?s)"
    using "3.prems" by (simp add: pretty_back_def)
  moreover have "skip_space (new_line n @ ?s) = ?s"
    by (cases ys) (simp_all add: skip_new_line skip_indent)
  moreover have "read_elements ?s = Some (y # ys, r)" using "3.IH"(2) "3.prems" by simp
  ultimately show ?case by (subst read_elements.simps) (simp add: skip_space_char not_space)
qed simp

lemma read_members_indent:
  "\<forall>(k, x) \<in> set kvs. utf8_valid k \<and> pretty_back x \<Longrightarrow> kvs \<noteq> [] \<Longrightarrow>
   read_members (join_with (CHR '','' # new_line n) (map (\<lambda>(k, v). dump_str k @ '': '' @ json_indent n v) kvs) @
     new_line m @ CHR ''}'' # r) = Some (kvs, r)"
proof (induction kvs rule: induct_list012)
  case (2 kx)
  obtain k x where kx: "kx = (k, x)" by fastforce
  have "utf8_valid k" using "2.prems" by (simp add: kx)
  obtain b where b: "dump_str k = QUOTE # b" "\<And>r. read_string (b @ r) = Some (k, r)"
    by (rule dump_str_body [OF \<open>utf8_valid k\<close>]) blast
  have "read_value (json_indent n x @ new_line m @ CHR ''}'' # r) = Some (x, new_line m @ CHR ''}'' # r)"
    using "2.prems" by (simp add: kx pretty_back_def)
  then show ?case
    by (subst read_members.simps) (simp add: kx b skip_simps skip_indent skip_new_line)
next
  case (3 kx ky kvs)
  obtain k x where kx: "kx = (k, x)" by fastforce
  obtain k' x' where ky: "ky = (k', x')" by fastforce
  let ?s = "join_with (CHR '','' # new_line n) (map (\<lambda>(k, v). dump_str k @ '': '' @ json_indent n v) (ky # kvs)) @ new_line m @ CHR ''}'' # r"
  let ?t = "json_indent n x @ CHR '','' # new_line n @ ?s"
  have "utf8_valid k" using "3.prems" by (simp add: kx)
  obtain b where b: "dump_str k = QUOTE # b" "\<And>r. read_string (b @ r) = Some (k, r)"
    by (rule dump_str_body [OF \<open>utf8_valid k\<close>]) blast
  obtain b' where b': "dump_str k' = QUOTE # b'" by (simp add: dump_str_def)
  have "read_value ?t = Some (x, CHR '','' # new_line n @ ?s)" using "3.prems" by (simp add: kx pretty_back_def)
  moreover have "skip_space (new_line n @ ?s) = ?s"
    by (cases kvs) (simp_all add: ky b' skip_new_line skip_simps)
  moreover have "read_members ?s = Some (ky # kvs, r)" using "3.IH"(2) "3.prems" by simp
  ultimately show ?case
    by (subst read_members.simps) (simp add: kx b skip_simps skip_indent)
qed simp

lemma read_scalar_back: "json_ok j \<Longrightarrow> closed r \<Longrightarrow> \<forall>xs. j \<noteq> JList xs \<Longrightarrow> \<forall>kvs. j \<noteq> JObj kvs \<Longrightarrow>
    read_value (json_dumps j @ r) = Some (j, r)"
proof (cases j)
  case (JStr s)
  assume "json_ok j"
  then obtain b where "dump_str s = QUOTE # b" "\<And>r. read_string (b @ r) = Some (s, r)" using JStr by (auto elim: dump_str_body)
  then show ?thesis by (subst read_value.simps) (simp add: JStr)
next
  case (JBool b)
  then show ?thesis by (cases b; subst read_value.simps; simp add: read_scalar_def json_constants_def startswith_def QUOTE_def)
next
  case JNull
  then show ?thesis by (subst read_value.simps) (simp add: read_scalar_def json_constants_def startswith_def QUOTE_def)
qed (simp_all add: read_int read_float)

lemma json_pretty_back: "json_ok j \<Longrightarrow> pretty_back j"
proof (induction j)
  case (JList xs)
  then have i: "\<forall>x \<in> set xs. pretty_back x" by (auto simp: list_all_iff)
  show ?case unfolding pretty_back_def
  proof (intro allI impI)
    fix n r
    show "read_value (json_indent n (JList xs) @ r) = Some (JList xs, r)"
    proof (cases xs)
      case Nil
      then show ?thesis by (subst read_value.simps) (simp add: skip_simps QUOTE_def startswith_def)
    next
      case (Cons x ys)
      let ?s = "join_with (CHR '','' # new_line (Suc n)) (map (json_indent (Suc n)) xs) @ new_line n @ CHR '']'' # r"
      have "skip_space ?s = ?s" "\<not> startswith ?s '']''"
        using json_indent_head [of "Suc n" x] by (cases ys; cases "json_indent (Suc n) x"; simp add: Cons skip_space_char startswith_def)+
      then have "skip_space (new_line (Suc n) @ ?s) = ?s" "\<not> startswith (skip_space (new_line (Suc n) @ ?s)) '']''"
        by (simp_all only: skip_new_line simp_thms)
      moreover have "read_elements ?s = Some (xs, r)" by (rule read_elements_indent [OF i]) (simp add: Cons)
      ultimately show ?thesis by (subst read_value.simps) (simp add: QUOTE_def Cons)
    qed
  qed
next
  case (JObj kvs)
  then have i: "\<forall>(k, x) \<in> set kvs. utf8_valid k \<and> pretty_back x" and d: "distinct (map fst kvs)"
    by (auto simp: list_all_iff)
  show ?case unfolding pretty_back_def
  proof (intro allI impI)
    fix n r
    show "read_value (json_indent n (JObj kvs) @ r) = Some (JObj kvs, r)"
    proof (cases kvs)
      case Nil
      then show ?thesis by (subst read_value.simps) (simp add: skip_simps QUOTE_def startswith_def)
    next
      case (Cons kx ys)
      obtain k x where kx: "kx = (k, x)" by fastforce
      let ?s = "join_with (CHR '','' # new_line (Suc n)) (map (\<lambda>(k, v). dump_str k @ '': '' @ json_indent (Suc n) v) kvs) @ new_line n @ CHR ''}'' # r"
      obtain b where b: "dump_str k = QUOTE # b" by (simp add: dump_str_def)
      have "skip_space ?s = ?s" "\<not> startswith ?s ''}''"
        by (cases ys; simp add: Cons kx b skip_simps; simp add: startswith_def QUOTE_def)+
      then have "skip_space (new_line (Suc n) @ ?s) = ?s" "\<not> startswith (skip_space (new_line (Suc n) @ ?s)) ''}''"
        by (simp_all only: skip_new_line simp_thms)
      moreover have "read_members ?s = Some (kvs, r)" by (rule read_members_indent [OF i]) (simp add: Cons)
      moreover have "dict_update kvs [] = kvs" using dict_update_distinct [of "[]" kvs] d by simp
      ultimately show ?thesis by (subst read_value.simps) (simp add: QUOTE_def Cons)
    qed
  qed
qed (use read_scalar_back in \<open>auto simp: pretty_back_def simp del: json_dumps.simps\<close>)

lemma json_indent_roundtrip: "json_ok j \<Longrightarrow> json_loads (json_indent n j) = Some j"
proof -
  assume "json_ok j"
  then have "read_value (json_indent n j) = Some (j, [])"
    using json_pretty_back [of j] unfolding pretty_back_def by (metis append_Nil2 closed_simps(1))
  moreover have "\<not> startswith (json_indent n j) [CHR 0xEF, CHR 0xBB, CHR 0xBF]"
    using json_indent_head [of n j] by (cases "json_indent n j") (auto simp: startswith_def)
  ultimately show ?thesis using skip_indent [of n j "[]"] by (simp add: json_loads_def skip_space_def)
qed

end
