(* ===== verification/Http.thy ===== *)
theory Http
  imports Tcp PyUrl JsonPretty
begin

text \<open>
  \<open>zenith/server/http.py\<close>: the REST handlers over the four engines. A request is what
  \<open>http.server\<close> hands to a handler: the method, the target in origin form, the value of the
  Content-Length header if there is one, and the bytes that follow the headers. A response is
  its status, the headers the handler sends and the body; an exception no handler catches
  closes the connection without a response. Requests are handled one at a time here. The text of the
  dashboard page is a parameter. Outside the model: strings of a body with lone surrogates,
  which \<open>encode\<close> rejects; a vector is a list of numbers, whose integers are taken as floats.
\<close>

datatype http_method = GET | POST | DELETE | OPTIONS

record http_request =
  rq_method :: http_method
  rq_target :: bytes
  rq_length :: "bytes option"
  rq_body :: bytes

record http_response =
  rs_status :: nat
  rs_headers :: "(bytes \<times> bytes) list"
  rs_body :: bytes

record http_site =
  hs_site :: site
  hs_dashboard :: bytes

section \<open>The server\<close>

text \<open>
  The handlers have engines of their own over the tree of the RESP server. The dicts of indexes
  have the namespaces as they came as keys: equal keys, such as 1 and true, are one index. The
  attributes of a full-text index never change.
\<close>

record httpd = db +
  h_heap :: "(f64 \<times> bytes) list"
  h_indexes :: "(bytes \<times> bytes list) list"
  h_texts :: "json list"
  h_vectors :: "(json \<times> nat option \<times> f64 list list \<times> (nat \<times> bytes list) list) list"
  h_start :: f64
  h_ops :: nat

definition with_kv :: "(kv, 'a) pym \<Rightarrow> (httpd, 'a) pym" where
  "with_kv m S = (case m \<lparr>db_lsm = db_lsm S, kv_heap = h_heap S\<rparr> of
     (r, K) \<Rightarrow> (r, S\<lparr>db_lsm := db_lsm K, h_heap := kv_heap K\<rparr>))"

definition with_docs :: "(docs, 'a) pym \<Rightarrow> (httpd, 'a) pym" where
  "with_docs m S = (case m \<lparr>db_lsm = db_lsm S, d_indexes = h_indexes S\<rparr> of
     (r, D) \<Rightarrow> (r, S\<lparr>db_lsm := db_lsm D, h_indexes := d_indexes D\<rparr>))"

text \<open>A JSON value in an f-string.\<close>

fun json_val :: "json \<Rightarrow> pyval" where
  "json_val JNull = PNone"
| "json_val (JBool b) = PBool b"
| "json_val (JInt i) = PInt i"
| "json_val (JFloat w) = POther (str_float w)"
| "json_val (JStr s) = PStr s"
| "json_val (JList xs) = PList (map json_val xs)"
| "json_val (JObj kvs) = PDict (map (\<lambda>(k, v). (PStr k, json_val v)) kvs)"

definition json_text :: "unicode \<Rightarrow> json \<Rightarrow> bytes" where
  "json_text U j = py_str U (json_val j)"

text \<open>\<open>_get_text_index\<close> and \<open>_get_vector_index\<close>, followed by a call of the index.\<close>

definition check_hashable :: "json \<Rightarrow> (httpd, unit) pym" where
  "check_hashable j = (if hashable j then ret () else raise (TypeError (''unhashable type: '' @ quoted (type_name j))))"

definition with_text :: "http_site \<Rightarrow> json \<Rightarrow> (texts, 'a) pym \<Rightarrow> (httpd, 'a) pym" where
  "with_text E ns m = sq (check_hashable ns) (\<lambda>S.
     let (key, texts) = (case find (json_eq ns) (h_texts S) of Some k \<Rightarrow> (k, h_texts S) | None \<Rightarrow> (ns, h_texts S @ [ns])) in
     case m \<lparr>db_lsm = db_lsm S, t_namespace = json_text (st_unicode (hs_site E)) key, t_k1 = K1_DEFAULT, t_b = B_DEFAULT, t_stemming = True\<rparr> of
       (r, T) \<Rightarrow> (r, S\<lparr>db_lsm := db_lsm T, h_texts := texts\<rparr>))"

definition with_vector :: "http_site \<Rightarrow> json \<Rightarrow> (vecs, 'a) pym \<Rightarrow> (httpd, 'a) pym" where
  "with_vector E ns m = sq (check_hashable ns) (\<lambda>S.
     let (key, dim, centroids, clusters) =
           (case find (\<lambda>(k, _). json_eq ns k) (h_vectors S) of Some x \<Rightarrow> x | None \<Rightarrow> (ns, None, [], [])) in
     case m \<lparr>db_lsm = db_lsm S, v_namespace = json_text (st_unicode (hs_site E)) key, v_dimension = dim,
         v_centroids = centroids, v_clusters = clusters\<rparr> of
       (r, V) \<Rightarrow> (r, S\<lparr>db_lsm := db_lsm V,
         h_vectors := filter (\<lambda>(k, _). \<not> json_eq ns k) (h_vectors S) @ [(key, v_dimension V, v_centroids V, v_clusters V)]\<rparr>))"

section \<open>Responses\<close>

definition OK :: nat where "OK = 200"
definition CREATED :: nat where "CREATED = 201"
definition NO_CONTENT :: nat where "NO_CONTENT = 204"
definition BAD_REQUEST :: nat where "BAD_REQUEST = 400"
definition NOT_FOUND :: nat where "NOT_FOUND = 404"

definition cors_headers :: "(bytes \<times> bytes) list" where
  "cors_headers = [(''Access-Control-Allow-Origin'', ''*''), (''Access-Control-Allow-Methods'', ''GET, POST, DELETE, OPTIONS''),
     (''Access-Control-Allow-Headers'', ''Content-Type'')]"

definition json_response :: "nat \<Rightarrow> json \<Rightarrow> http_response" where
  "json_response status data = (let payload = json_indent 0 data in
     \<lparr>rs_status = status,
      rs_headers = [(''Content-Type'', ''application/json; charset=utf-8''), (''Content-Length'', str_nat (length payload))] @ cors_headers,
      rs_body = payload\<rparr>)"

definition send_json :: "nat \<Rightarrow> json \<Rightarrow> ('s, http_response) pym" where
  "send_json status data = ret (json_response status data)"

definition html_response :: "bytes \<Rightarrow> http_response" where
  "html_response payload =
     \<lparr>rs_status = OK,
      rs_headers = [(''Content-Type'', ''text/html; charset=utf-8''), (''Content-Length'', str_nat (length payload))],
      rs_body = payload\<rparr>"

definition do_OPTIONS :: "(httpd, http_response) pym" where
  "do_OPTIONS = ret \<lparr>rs_status = NO_CONTENT, rs_headers = cors_headers, rs_body = []\<rparr>"

definition error_json :: "nat \<Rightarrow> bytes \<Rightarrow> ('s, http_response) pym" where
  "error_json status msg = send_json status (JObj [(''error'', JStr msg)])"

text \<open>A value \<open>get\<close> returns: \<open>json.dumps\<close> rejects the bytes that are not UTF-8.\<close>

definition text_json :: "bytes \<Rightarrow> json res" where
  "text_json v = (if utf8_valid v then Inr (JStr v) else Inl (TypeError ''Object of type bytes is not JSON serializable''))"

definition results_json :: "json list \<Rightarrow> json" where
  "results_json xs = JObj [(''results'', JList xs), (''count'', JInt (int (length xs)))]"

section \<open>GET\<close>

definition API_KV :: bytes where "API_KV = ''/api/v1/kv/''"
definition API_DOC :: bytes where "API_DOC = ''/api/v1/doc/''"

definition path_after :: "bytes \<Rightarrow> bytes \<Rightarrow> bytes" where
  "path_after p path = drop (length p) path"

definition get_metrics :: "http_site \<Rightarrow> (httpd, http_response) pym" where
  "get_metrics E = bnd kv_time (\<lambda>now. bnd (gets h_start) (\<lambda>t0.
     bnd (lift_res (f64_to_int (f64_sub now t0))) (\<lambda>uptime.
     bnd (with_kv (kv_dbsize (st_host (hs_site E)))) (\<lambda>n.
     bnd (gets h_ops) (\<lambda>ops. bnd (gets (\<lambda>S. length (l_readers (db_lsm S)))) (\<lambda>tables.
     bnd (gets (\<lambda>S. mt_size (l_mem (db_lsm S)))) (\<lambda>size.
       send_json OK (JObj [(''keys'', JInt (int n)), (''total_ops'', JInt (int ops)), (''sstables'', JInt (int tables)),
         (''memtable_size_bytes'', JInt size), (''uptime'', JInt uptime)]))))))))"

definition get_key :: "http_site \<Rightarrow> bytes \<Rightarrow> (httpd, http_response) pym" where
  "get_key E key = (let H = st_host (hs_site E) in
     bnd (with_kv (kv_get H key)) (\<lambda>val. case val of
       None \<Rightarrow> error_json NOT_FOUND ''Key not found''
     | Some v \<Rightarrow> bnd (with_kv (kv_type H key)) (\<lambda>t. bnd (with_kv (kv_ttl H key)) (\<lambda>ttl. bnd (lift_res (text_json v)) (\<lambda>j.
         send_json OK (JObj [(''key'', JStr key), (''value'', j), (''type'', JStr t), (''ttl'', JInt ttl)]))))))"

definition do_GET :: "http_site \<Rightarrow> bytes \<Rightarrow> (httpd, http_response) pym" where
  "do_GET E target = (let H = st_host (hs_site E); (raw_path, query) = urlparse target; path = rstrip_slash raw_path in
     if path = [] \<or> path = ''/dashboard'' then ret (html_response (hs_dashboard E))
     else if path = ''/health'' then
       send_json OK (JObj [(''status'', JStr ''ok''), (''version'', JStr ''1.0.0''), (''engine'', JStr ''ZenithDB'')])
     else if path = ''/metrics'' then get_metrics E
     else if path = ''/api/v1/keys'' then
       bnd (with_kv (kv_keys H (query_field query ''pattern'' ''*''))) (\<lambda>keys.
         send_json OK (JObj [(''keys'', JList (map JStr keys)), (''count'', JInt (int (length keys)))]))
     else if startswith path API_KV then get_key E (path_after API_KV path)
     else if startswith path API_DOC then (case split_char (CHR ''/'') (path_after API_DOC path) of
         [coll, doc_id] \<Rightarrow> bnd (with_docs (doc_get H coll doc_id)) (\<lambda>doc.
           if doc = JNull then error_json NOT_FOUND ''Document not found'' else send_json OK doc)
       | _ \<Rightarrow> error_json NOT_FOUND ''Endpoint not found'')
     else error_json NOT_FOUND ''Endpoint not found'')"

section \<open>POST\<close>

text \<open>\<open>int(j)\<close>\<close>

definition json_int :: "unicode \<Rightarrow> json \<Rightarrow> int res" where
  "json_int U j = (case j of
      JInt i \<Rightarrow> Inr i
    | JBool b \<Rightarrow> Inr (if b then 1 else 0)
    | JFloat w \<Rightarrow> f64_to_int w
    | JStr s \<Rightarrow> int_arg U s
    | _ \<Rightarrow> Inl (TypeError (''int() argument must be a string, a bytes-like object or a real number, not '' @ quoted (type_name j))))"

text \<open>The headers and the body: \<open>Inl\<close> leaves the handler, \<open>None\<close> is a body that is not JSON.\<close>

definition read_length :: "http_site \<Rightarrow> http_request \<Rightarrow> int res" where
  "read_length E rq = (case rq_length rq of None \<Rightarrow> Inr 0 | Some s \<Rightarrow> int_arg (st_unicode (hs_site E)) s)"

definition read_body :: "http_site \<Rightarrow> http_request \<Rightarrow> json option res" where
  "read_body E rq = rbind (read_length E rq) (\<lambda>n.
     if 2 ^ 63 \<le> n then Inl OverflowError
     else let body_bytes = (if 0 < n then take (nat n) (rq_body rq) else []) in
       if body_bytes = [] then Inr (Some (JObj []))
       else (case decode_json body_bytes of
           Inl e \<Rightarrow> if e = JSONDecodeError then Inr None else Inl e
         | Inr j \<Rightarrow> Inr (Some j)))"

definition field :: "json \<Rightarrow> bytes \<Rightarrow> json \<Rightarrow> ('s, json) pym" where
  "field body name d = lift_res (json_get body name d)"

definition int_field :: "http_site \<Rightarrow> json \<Rightarrow> bytes \<Rightarrow> int \<Rightarrow> ('s, int) pym" where
  "int_field E body name d = bnd (field body name (JInt d)) (\<lambda>j. lift_res (json_int (st_unicode (hs_site E)) j))"

text \<open>
  \<open>kv.set(key, val, ex=ex)\<close>: a value that is not a string is stored as JSON, and \<open>ex\<close> can be any
  value. \<open>ex > 0\<close> is only reached after the value is stored.
\<close>

definition payload_of :: "json \<Rightarrow> bytes" where
  "payload_of j = (case j of JStr s \<Rightarrow> s | _ \<Rightarrow> json_dumps j)"

definition expire_float :: "host \<Rightarrow> bytes \<Rightarrow> f64 \<Rightarrow> (kv, unit) pym" where
  "expire_float H key seconds = bnd kv_time (\<lambda>now. let exp_ts = f64_add now seconds in
     sq (db_put H (EXP_KEY key) (str_float exp_ts))
        (\<lambda>K. (Inr (), K\<lparr>kv_heap := expiry_push (exp_ts, key) (kv_heap K)\<rparr>)))"

definition set_value :: "host \<Rightarrow> bytes \<Rightarrow> bytes \<Rightarrow> json \<Rightarrow> (kv, unit) pym" where
  "set_value H key payload ex = (case ex of
      JNull \<Rightarrow> bnd (kv_set H key payload None False False) (\<lambda>_. ret ())
    | JInt i \<Rightarrow> bnd (kv_set H key payload (Some i) False False) (\<lambda>_. ret ())
    | JBool b \<Rightarrow> bnd (kv_set H key payload (Some (if b then 1 else 0)) False False) (\<lambda>_. ret ())
    | _ \<Rightarrow> bnd (is_expired H key) (\<lambda>is_exp. bnd (if is_exp then ret None else kv_get H key) (\<lambda>existing.
        sq (db_put H (V_KEY key) payload) (sq (db_put H (TYPE_KEY key) ''string'')
       (bnd (lift_res (json_cmp Gt ex (JInt 0))) (\<lambda>positive. case ex of
           JFloat w \<Rightarrow> if positive then expire_float H key w else bnd (kv_persist H key) (\<lambda>_. ret ())
         | _ \<Rightarrow> ret ()))))))"

definition post_kv :: "http_site \<Rightarrow> json \<Rightarrow> (httpd, http_response) pym" where
  "post_kv E body = bnd (field body ''key'' JNull) (\<lambda>key. bnd (field body ''value'' JNull) (\<lambda>val. bnd (field body ''ex'' JNull) (\<lambda>ex.
     if \<not> truthy key \<or> val = JNull
     then error_json BAD_REQUEST (''Missing '' @ quoted ''key'' @ '' or '' @ quoted ''value'')
     else sq (with_kv (set_value (st_host (hs_site E)) (json_text (st_unicode (hs_site E)) key) (payload_of val) ex))
             (send_json OK (JObj [(''status'', JStr ''ok''), (''key'', key)])))))"

definition post_search :: "http_site \<Rightarrow> json \<Rightarrow> (httpd, http_response) pym" where
  "post_search E body = (let T = hs_site E in
     bnd (field body ''namespace'' (JStr ''default'')) (\<lambda>ns. bnd (field body ''query'' (JStr [])) (\<lambda>query.
     bnd (int_field E body ''limit'' 10) (\<lambda>limit.
     bnd (with_text E ns (bnd (lift_res (as_text query)) (\<lambda>q. ft_search (st_host T) (st_unicode T) (st_math T) q limit 160)))
       (\<lambda>results. send_json OK (results_json results))))))"

definition vec_arg :: "json \<Rightarrow> f64 list res" where
  "vec_arg j = (case j of JList xs \<Rightarrow> rmap to_float xs | _ \<Rightarrow> Inl (TypeError (''object of type '' @ quoted (type_name j) @ '' is not a vector'')))"

definition post_vector_search :: "http_site \<Rightarrow> json \<Rightarrow> (httpd, http_response) pym" where
  "post_vector_search E body = (let T = hs_site E in
     bnd (field body ''namespace'' (JStr ''default'')) (\<lambda>ns. bnd (field body ''vector'' (JList [])) (\<lambda>vec.
     bnd (int_field E body ''top_k'' 10) (\<lambda>top_k. bnd (field body ''metric'' (JStr ''cosine'')) (\<lambda>metric.
     bnd (with_vector E ns (bnd (lift_res (vec_arg vec)) (\<lambda>v. vec_search (st_host T) (st_math T)
           ((vec_query_defaults v)\<lparr>vq_top_k := top_k, vq_metric := json_text (st_unicode T) metric\<rparr>))))
       (\<lambda>results. send_json OK (results_json results)))))))"

definition post_vector :: "http_site \<Rightarrow> json \<Rightarrow> (httpd, http_response) pym" where
  "post_vector E body =
     bnd (field body ''namespace'' (JStr ''default'')) (\<lambda>ns. bnd (field body ''id'' JNull) (\<lambda>vec_id.
     bnd (field body ''vector'' (JList [])) (\<lambda>vec. bnd (field body ''metadata'' (JObj [])) (\<lambda>metadata.
     if \<not> truthy vec_id \<or> \<not> truthy vec
     then error_json BAD_REQUEST (''Missing '' @ quoted ''id'' @ '' or '' @ quoted ''vector'')
     else sq (with_vector E ns (bnd (lift_res (vec_arg vec)) (\<lambda>v.
            vec_insert (st_host (hs_site E)) (json_text (st_unicode (hs_site E)) vec_id) v metadata)))
          (send_json OK (JObj [(''status'', JStr ''ok''), (''id'', vec_id)]))))))"

text \<open>A sort field that is not a string fails on the first document.\<close>

definition query_docs :: "http_site \<Rightarrow> bytes \<Rightarrow> json \<Rightarrow> json \<Rightarrow> int \<Rightarrow> int \<Rightarrow> (docs, json list) pym" where
  "query_docs E coll filter_dict sort_by limit offset =
     (let search = st_search (hs_site E); q = query_defaults\<lparr>q_filter := filter_dict, q_limit := limit, q_offset := offset\<rparr> in
      case sort_by of
        JStr s \<Rightarrow> doc_query search coll (q\<lparr>q_sort_by := Some s\<rparr>)
      | _ \<Rightarrow> if \<not> truthy sort_by then doc_query search coll q
          else bnd (db_prefix (doc_prefix coll)) (\<lambda>es. bnd (lift_res (select_docs search q es)) (\<lambda>results.
            if results = [] then ret [] else lift_res (no_attribute sort_by ''split''))))"

definition post_query :: "http_site \<Rightarrow> bytes \<Rightarrow> json \<Rightarrow> (httpd, http_response) pym" where
  "post_query E coll body = bnd (field body ''filter'' JNull) (\<lambda>filter_dict. bnd (field body ''sort_by'' JNull) (\<lambda>sort_by.
     bnd (int_field E body ''limit'' 100) (\<lambda>limit. bnd (int_field E body ''offset'' 0) (\<lambda>offset.
     bnd (with_docs (query_docs E coll filter_dict sort_by limit offset)) (\<lambda>docs. send_json OK (results_json docs))))))"

text \<open>\<open>body.get("_id") or f"doc_{int(time.time() * 1000)}"\<close>\<close>

definition new_doc_id :: "json \<Rightarrow> (httpd, json) pym" where
  "new_doc_id given = (if truthy given then ret given else bnd kv_time (\<lambda>now.
     bnd (lift_res (rbind (f64_of_int 1000) (\<lambda>k. f64_to_int (f64_mul now k)))) (\<lambda>ms. ret (JStr (''doc_'' @ str_int ms)))))"

definition post_doc :: "http_site \<Rightarrow> bytes \<Rightarrow> json \<Rightarrow> (httpd, http_response) pym" where
  "post_doc E coll body = bnd (field body ''_id'' JNull) (\<lambda>given. bnd (new_doc_id given) (\<lambda>doc_id.
     bnd (with_docs (doc_insert_as (st_host (hs_site E)) coll (json_text (st_unicode (hs_site E)) doc_id) doc_id body))
       (send_json CREATED)))"

definition do_POST :: "http_site \<Rightarrow> http_request \<Rightarrow> (httpd, http_response) pym" where
  "do_POST E rq = (let path = rstrip_slash (fst (urlparse (rq_target rq))) in
     bnd (lift_res (read_body E rq)) (\<lambda>parsed. case parsed of
       None \<Rightarrow> error_json BAD_REQUEST ''Invalid JSON body''
     | Some body \<Rightarrow>
         if path = ''/api/v1/kv'' then post_kv E body
         else if path = ''/api/v1/search'' then post_search E body
         else if path = ''/api/v1/vector/search'' then post_vector_search E body
         else if path = ''/api/v1/vector/insert'' then post_vector E body
         else if startswith path API_DOC \<and> endswith path ''/query''
           then post_query E (py_slice_int path (int (length API_DOC)) (- int (length ''/query''))) body
         else if startswith path API_DOC then post_doc E (path_after API_DOC path) body
         else if path = ''/api/v1/compact'' then sq (on_lsm (lsm_compact (st_host (hs_site E))))
           (send_json OK (JObj [(''status'', JStr ''Compaction completed'')]))
         else error_json NOT_FOUND ''Endpoint not found''))"

section \<open>DELETE\<close>

definition do_DELETE :: "http_site \<Rightarrow> bytes \<Rightarrow> (httpd, http_response) pym" where
  "do_DELETE E target = (let H = st_host (hs_site E); path = rstrip_slash (fst (urlparse target)) in
     if startswith path API_KV then (let key = path_after API_KV path in
       bnd (with_kv (kv_delete H [key])) (\<lambda>deleted. send_json OK (JObj [(''deleted'', JBool (0 < deleted)), (''key'', JStr key)])))
     else if startswith path API_DOC then (case split_char (CHR ''/'') (path_after API_DOC path) of
         [coll, doc_id] \<Rightarrow> bnd (with_docs (doc_delete H coll doc_id)) (\<lambda>deleted.
           send_json OK (JObj [(''deleted'', JBool deleted), (''collection'', JStr coll), (''id'', JStr doc_id)]))
       | _ \<Rightarrow> error_json NOT_FOUND ''Endpoint not found'')
     else error_json NOT_FOUND ''Endpoint not found'')"

section \<open>A request\<close>

definition count_op :: "(httpd, unit) pym" where
  "count_op S = (Inr (), S\<lparr>h_ops := h_ops S + 1\<rparr>)"

definition http_handle :: "http_site \<Rightarrow> http_request \<Rightarrow> (httpd, http_response) pym" where
  "http_handle E rq = (case rq_method rq of
      GET \<Rightarrow> sq count_op (do_GET E (rq_target rq))
    | POST \<Rightarrow> sq count_op (do_POST E rq)
    | DELETE \<Rightarrow> sq count_op (do_DELETE E (rq_target rq))
    | OPTIONS \<Rightarrow> do_OPTIONS)"

end
