(* ===== verification/StemmerLaws.thy ===== *)
theory StemmerLaws
  imports Stemmer
begin

text \<open>
  What the stemmer does to a word: the measure it computes is Porter's, and a stem is never
  empty, never longer than the word and made of its letters and ASCII letters only.
\<close>

section \<open>The measure\<close>

text \<open>The number of places where a consonant follows a vowel.\<close>

fun vc_changes :: "bool list \<Rightarrow> nat" where
  "vc_changes (v # c # xs) = (if \<not> v \<and> c then 1 else 0) + vc_changes (c # xs)"
| "vc_changes _ = 0"

definition squeeze :: "bool list \<Rightarrow> bool list" where
  "squeeze xs = fold (\<lambda>v pat. if pat = [] \<or> List.last pat \<noteq> v then pat @ [v] else pat) xs []"

lemma count_vc_changes: "count_vc xs = vc_changes xs"
proof (induction xs rule: count_vc.induct)
  case (1 v c pat)
  have "vc_changes (c # pat) = vc_changes pat" if c
    using that by (cases pat) auto
  with 1 show ?case by auto
qed auto

lemma vc_changes_snoc: "xs \<noteq> [] \<Longrightarrow> vc_changes (xs @ [v]) = vc_changes xs + (if \<not> List.last xs \<and> v then 1 else 0)"
  by (induction xs rule: vc_changes.induct) auto

lemma squeeze_snoc: "squeeze (xs @ [v]) = (if squeeze xs = [] \<or> List.last (squeeze xs) \<noteq> v then squeeze xs @ [v] else squeeze xs)"
  by (simp add: squeeze_def)

lemma squeeze_facts: "(squeeze xs = [] \<longleftrightarrow> xs = []) \<and> (xs \<noteq> [] \<longrightarrow> List.last (squeeze xs) = List.last xs) \<and>
    vc_changes (squeeze xs) = vc_changes xs"
proof (induction xs rule: rev_induct)
  case (snoc v xs)
  have "squeeze [v] = [v]" by (simp add: squeeze_def)
  with snoc show ?case by (cases "xs = []") (auto simp: squeeze_snoc vc_changes_snoc)
qed (simp add: squeeze_def)

lemma changes_card: "vc_changes (map f [a..<b]) = card {i. a \<le> i \<and> Suc i < b \<and> \<not> f i \<and> f (Suc i)}"
proof (induction "b - a" arbitrary: a)
  case 0
  then have e: "{i. a \<le> i \<and> Suc i < b \<and> \<not> f i \<and> f (Suc i)} = {}" by auto
  show ?case using 0 unfolding e by simp
next
  case (Suc n)
  let ?S = "\<lambda>a. {i. a \<le> i \<and> Suc i < b \<and> \<not> f i \<and> f (Suc i)}"
  have fin: "finite (?S a)" for a by (rule finite_subset [of _ "{..<b}"]) auto
  have ab: "a < b" using Suc(2) by simp
  show ?case
  proof (cases "Suc a < b")
    case False
    then have e: "[a..<b] = [a]" "?S a = {}" using ab by (auto simp: upt_rec)
    show ?thesis unfolding e by simp
  next
    case True
    then have u: "[a..<b] = a # Suc a # [Suc (Suc a)..<b]" "[Suc a..<b] = Suc a # [Suc (Suc a)..<b]" by (simp_all add: upt_rec)
    have IH: "vc_changes (map f [Suc a..<b]) = card (?S (Suc a))" using Suc by simp
    have "?S a = (if \<not> f a \<and> f (Suc a) then insert a (?S (Suc a)) else ?S (Suc a))"
      using True by (auto simp: Suc_le_eq le_eq_less_or_eq)
    then have "card (?S a) = (if \<not> f a \<and> f (Suc a) then 1 else 0) + card (?S (Suc a))"
      using fin [of "Suc a"] by simp
    then show ?thesis using IH by (simp add: u)
  qed
qed

text \<open>
  The measure the stemmer computes from the pattern of a word without repeated letters is
  Porter's: the number of positions where a consonant follows a vowel.
\<close>

theorem stem_measure_counts:
  "stem_measure stem = card {i. Suc i < length stem \<and> \<not> is_consonant stem i \<and> is_consonant stem (Suc i)}"
proof (cases "stem = []")
  case False
  have "cv_pattern stem = squeeze (map (is_consonant stem) [0..<length stem])"
    unfolding cv_pattern_def squeeze_def Let_def by (simp add: fold_map comp_def)
  then have "stem_measure stem = vc_changes (map (is_consonant stem) [0..<length stem])"
    using False squeeze_facts by (simp add: stem_measure_def count_vc_changes)
  then show ?thesis using changes_card [of "is_consonant stem" 0 "length stem"] by simp
qed (simp add: stem_measure_def)

section \<open>Stems\<close>

definition letters :: "ustr" where
  "letters = ascii_points ''abcdefghijklmnopqrstuvwxyz''"

lemma set_cut: "set (cut n w) \<subseteq> set w"
  unfolding cut_def by (rule set_take_subset)

lemma length_cut: "length (cut n w) = length w - n"
  by (simp add: cut_def)

lemma ends_in_length: "ends_in w s \<Longrightarrow> length s \<le> length w"
  by (simp add: ends_in_def endswith_def ascii_points_def)

text \<open>A step of the stemmer: letters added, length, and no empty stem.\<close>

definition stem_step :: "ustr \<Rightarrow> ustr \<Rightarrow> bool" where
  "stem_step w w' \<longleftrightarrow> set w' \<subseteq> set w \<union> set letters \<and> length w' \<le> length w \<and> (w \<noteq> [] \<longrightarrow> w' \<noteq> [])"

lemma stem_step_refl [simp]: "stem_step w w"
  by (simp add: stem_step_def)

lemma stem_step_trans: "stem_step u v \<Longrightarrow> stem_step v w \<Longrightarrow> stem_step u w"
  unfolding stem_step_def by auto

lemma stem_step_cut: "n < length w \<Longrightarrow> stem_step w (cut n w)"
  using set_cut by (force simp: stem_step_def length_cut simp flip: length_greater_0_conv)

lemma stem_step_replace:
  assumes "length r \<le> n" "n < length w" "set (ascii_points r) \<subseteq> set letters"
  shows "stem_step w (cut n w @ ascii_points r)"
proof -
  have "length (ascii_points r) = length r" by (simp add: ascii_points_def)
  moreover have "cut n w \<noteq> []" using assms(2) length_cut [of n w] by auto
  ultimately show ?thesis using assms set_cut [of n w] length_cut [of n w] by (auto simp: stem_step_def)
qed


lemma measure_pos: "0 < stem_measure (cut n w) \<Longrightarrow> n < length w"
  by (rule ccontr) (simp add: cut_def stem_measure_def)

lemma vowel_pos: "has_vowel (cut n w) \<Longrightarrow> n < length w"
  by (rule ccontr) (simp add: cut_def has_vowel_def)

lemma step_1a_stem: "2 < length w \<Longrightarrow> stem_step w (step_1a w)"
  by (auto simp: step_1a_def intro!: stem_step_cut)

lemma tidy_length: "length (tidy w) \<le> Suc (length w)" "set (tidy w) \<subseteq> set w \<union> set letters" "w \<noteq> [] \<Longrightarrow> tidy w \<noteq> []"
proof -
  show "length (tidy w) \<le> Suc (length w)" "set (tidy w) \<subseteq> set w \<union> set letters"
    using set_cut [of 1 w] by (auto simp: tidy_def length_cut ascii_points_def letters_def)
  have "cut 1 w \<noteq> []" if "2 \<le> length w" using that length_cut [of 1 w] by auto
  then show "w \<noteq> [] \<Longrightarrow> tidy w \<noteq> []" by (auto simp: tidy_def ascii_points_def)
qed

lemma tidy_stem: "has_vowel (cut n w) \<Longrightarrow> 1 \<le> n \<Longrightarrow> stem_step w (tidy (cut n w))"
proof -
  assume v: "has_vowel (cut n w)" and n: "1 \<le> n"
  have l: "n < length w" by (rule vowel_pos [OF v])
  then have "cut n w \<noteq> []" using length_cut [of n w] by auto
  with l n show ?thesis using tidy_length [of "cut n w"] length_cut [of n w] set_cut [of n w] by (auto simp: stem_step_def)
qed

lemma added_letters: "set (ascii_points ''ee'') \<subseteq> set letters" "set (ascii_points ''i'') \<subseteq> set letters"
  by (simp_all add: letters_def ascii_points_def)

lemma step_1b_stem: "stem_step w (step_1b w)"
  by (simp add: step_1b_def stem_step_replace tidy_stem measure_pos added_letters)

lemma step_1c_stem: "stem_step w (step_1c w)"
  by (simp add: step_1c_def stem_step_replace vowel_pos added_letters)

lemma step_2_stem:
  "\<forall>(s, r) \<in> set rules. length r \<le> length s \<and> set (ascii_points r) \<subseteq> set letters \<Longrightarrow> stem_step w (step_2 rules w)"
  by (induction rules w rule: step_2.induct) (auto intro!: stem_step_replace measure_pos)

lemma step_4_stem: "stem_step w (step_4 sfxs w)"
  by (induction sfxs w rule: step_4.induct) (auto intro!: stem_step_cut measure_pos)

lemma suffixes_letters: "\<forall>(s, r) \<in> set suffixes_2. length r \<le> length s \<and> set (ascii_points r) \<subseteq> set letters"
  by (simp add: suffixes_2_def ascii_points_def letters_def)

lemma porter_stem_step: "stem_step (u_lower U w) (porter_stem U w)"
  unfolding porter_stem_def Let_def
  by (auto intro!: stem_step_trans [OF _ step_4_stem] stem_step_trans [OF _ step_2_stem [OF suffixes_letters]]
      stem_step_trans [OF _ step_1c_stem] stem_step_trans [OF _ step_1b_stem] step_1a_stem)

text \<open>
  C34. The stem of a word is not longer than the word in lower case, is not empty unless the word
  is, and consists of code points of the word and ASCII letters.
\<close>

theorem porter_stem_bounds:
  "length (porter_stem U w) \<le> length (u_lower U w) \<and> (porter_stem U w = [] \<longleftrightarrow> u_lower U w = []) \<and>
   set (porter_stem U w) \<subseteq> set (u_lower U w) \<union> {97..<123}"
proof -
  have "letters = [97..<123]" by (simp add: letters_def ascii_points_def upt_rec)
  then have "set letters = {97..<123}" by (metis set_upt)
  then show ?thesis using porter_stem_step [of U w] by (auto simp: stem_step_def)
qed

end
