(* ===== verification/TextLaws.thy ===== *)
theory TextLaws
  imports TextIndex StemmerLaws DocLaws
begin

text \<open>
  The full-text index against maps from ids to texts: postings, stored documents and statistics
  are after every sequence of calls exactly those of the documents indexed last, and a search
  collects exactly the documents with a query term, with their term and document frequencies.
\<close>

section \<open>Terms\<close>

lemma words_in: "w \<in> snd ` set (word_spans P i s) \<Longrightarrow> list_all P w"
proof (induction P i s rule: word_spans.induct)
  case (2 P i c cs)
  have "list_all P (takeWhile P cs)" by (auto simp: list_all_iff dest: set_takeWhileD)
  with 2 show ?case by (cases "P c") auto
qed simp

lemma find_words_in: "w \<in> set (find_words P s) \<Longrightarrow> list_all P w"
  using words_in [of w P 0 s] by (auto simp: find_words_def)

lemma encode_no_colon: "plain_point c \<Longrightarrow> CHR '':'' \<notin> set (utf8_encode c)"
proof -
  assume p: "plain_point c"
  have colon: "CHR '':'' \<noteq> char_of n" if "n \<noteq> 58" "n < 256" for n :: nat
  proof
    assume "CHR '':'' = char_of n"
    then have "of_char (CHR '':'') = (of_char (char_of n :: char) :: nat)" by simp
    then show False using that by (simp add: of_char_of)
  qed
  consider "c < 0x80" | "0x80 \<le> c" "c < 0x800" | "0x800 \<le> c" "c < 0x10000" | "0x10000 \<le> c" by linarith
  then show ?thesis
  proof cases
    case 1
    then show ?thesis using p colon [of c] by (simp add: utf8_encode_def plain_point_def)
  next
    case 2
    then have "c div 64 < 32" by auto
    then show ?thesis using 2 colon [of "0xC0 + c div 64"] colon [of "0x80 + c mod 64"] by (simp add: utf8_encode_def)
  next
    case 3
    then have "c div 4096 < 16" by auto
    then show ?thesis using 3 colon [of "0xE0 + c div 4096"] colon [of "0x80 + c div 64 mod 64"] colon [of "0x80 + c mod 64"]
      by (simp add: utf8_encode_def)
  next
    case 4
    then have "c div 262144 < 5" using p by (auto simp: plain_point_def)
    then show ?thesis using 4 colon [of "0xF0 + c div 262144"] colon [of "0x80 + c div 4096 mod 64"]
        colon [of "0x80 + c div 64 mod 64"] colon [of "0x80 + c mod 64"] by (simp add: utf8_encode_def)
  qed
qed

lemma bytes_no_colon: "list_all plain_point w \<Longrightarrow> CHR '':'' \<notin> set (point_bytes w)"
  using encode_no_colon by (auto simp: point_bytes_def list_all_iff)

lemma stem_plain: "unicode_ok U \<Longrightarrow> list_all plain_point w \<Longrightarrow> list_all plain_point (porter_stem U w)"
proof -
  assume u: "unicode_ok U" "list_all plain_point w"
  then have "list_all plain_point (u_lower U w)" by (simp add: unicode_ok_def)
  moreover have "list_all plain_point letters" by (simp add: letters_def ascii_points_def plain_point_def)
  ultimately show ?thesis using porter_stem_step [of U w] by (auto simp: stem_step_def list_all_iff)
qed

lemma token_no_colon: "unicode_ok U \<Longrightarrow> w \<in> set (tokenize U st text) \<Longrightarrow> CHR '':'' \<notin> set w"
proof -
  assume u: "unicode_ok U" and w: "w \<in> set (tokenize U st text)"
  then obtain v where v: "w = point_bytes (if st then porter_stem U v else v)"
    "v \<in> set (find_words (u_word U) (u_lower U (u_nfkd U (str_points text))))"
    by (auto simp: tokenize_def)
  then have "list_all plain_point v" using u find_words_in [OF v(2)] by (auto simp: unicode_ok_def list_all_iff)
  then show ?thesis using stem_plain [OF u] by (cases st) (simp_all add: v(1) bytes_no_colon)
qed

text \<open>The counts of terms.\<close>

lemma counter_snoc: "counter (ts @ [t]) = AList.update t (case map_of (counter ts) t of None \<Rightarrow> 1 | Some n \<Rightarrow> n + 1) (counter ts)"
  by (simp add: counter_def)

lemma counter_facts: "distinct (map fst (counter ts)) \<and>
    map_of (counter ts) w = (if w \<in> set ts then Some (count_list ts w) else None)"
proof (induction ts arbitrary: w rule: rev_induct)
  case (snoc t ts)
  have "distinct (map fst (counter ts))" and m: "\<And>w. map_of (counter ts) w = (if w \<in> set ts then Some (count_list ts w) else None)"
    using snoc.IH by blast+
  moreover have "count_list ts w = 0" if "w \<notin> set ts" for w using that by (simp add: count_list_0_iff)
  ultimately show ?case by (auto simp: counter_snoc distinct_update update_conv')
qed (simp add: counter_def)

lemma counter_keys: "set (map fst (counter ts)) = set ts"
proof -
  have "w \<in> set (map fst (counter ts)) \<longleftrightarrow> w \<in> set ts" for w
    using counter_facts [of ts w] by (metis map_of_eq_None_iff list.set_map option.distinct(1))
  then show ?thesis by blast
qed

section \<open>Loops of writes\<close>

lemma wp_put_all:
  assumes "rest_repr H D0 D f (n + length es)" "\<forall>(k, v) \<in> set es. key_ok k \<and> val_ok v"
    "\<And>D'. rest_repr H D0 D' (f ++ map_of (rev es)) n \<Longrightarrow> Q () D'"
  shows "wp (for_each es (\<lambda>(k, v). db_put H k v)) Q D"
  using assms
proof (induction es arbitrary: D f)
  case (Cons e es)
  obtain k v where e: "e = (k, v)" by fastforce
  have r: "rest_repr H D0 D f (Suc (n + length es))" using Cons.prems(1) by simp
  have "wp (db_put H k v) (\<lambda>_. wp (for_each es (\<lambda>(k, v). db_put H k v)) Q) D"
  proof (rule rest.wp_put [OF r])
    show "key_ok k" "val_ok v" using Cons.prems(2) by (auto simp: e)
    fix D1 assume D1: "rest_repr H D0 D1 (f(k \<mapsto> v)) (n + length es)"
    show "wp (for_each es (\<lambda>(k, v). db_put H k v)) Q D1"
      by (rule Cons.IH [OF D1]) (use Cons.prems(2,3) e in \<open>auto simp del: fun_upd_apply\<close>)
  qed
  then show ?case by (simp add: e)
qed simp

lemma wp_del_all:
  assumes "rest_repr H D0 D f (n + length ks)" "\<forall>k \<in> set ks. key_ok k"
    "\<And>D'. rest_repr H D0 D' (f |` (- set ks)) n \<Longrightarrow> Q () D'"
  shows "wp (for_each ks (db_del H)) Q D"
  using assms
proof (induction ks arbitrary: D f)
  case (Cons k ks)
  have r: "rest_repr H D0 D f (Suc (n + length ks))" using Cons.prems(1) by simp
  have "wp (db_del H k) (\<lambda>_. wp (for_each ks (db_del H)) Q) D"
  proof (rule rest.wp_del [OF r])
    show "key_ok k" using Cons.prems(2) by simp
    fix D1 assume D1: "rest_repr H D0 D1 (f(k := None)) (n + length ks)"
    have s: "(f(k := None)) |` (- set ks) = f |` (- set (k # ks))" by (auto simp: restrict_map_def fun_eq_iff)
    show "wp (for_each ks (db_del H)) Q D1"
      by (rule Cons.IH [OF D1]) (use Cons.prems(2,3) in \<open>simp_all only: s, simp\<close>)
  qed
  then show ?case by simp
qed (simp add: restrict_map_def)

lemma for_each_map: "for_each xs (\<lambda>x. f (g x)) = for_each (map g xs) f"
  by (induction xs) simp_all


section \<open>The index against a map\<close>

type_synonym text_map = "bytes \<rightharpoonup> bytes \<times> json"

definition post_root :: "bytes \<Rightarrow> bytes" where
  "post_root ns = ''__FT_POST__:'' @ ns @ '':''"

definition ft_doc_root :: "bytes \<Rightarrow> bytes" where
  "ft_doc_root ns = ''__FT_DOC__:'' @ ns @ '':''"

lemma ft_keys:
  "ft_doc_key ns i = ft_doc_root ns @ i" "post_key ns w i = post_root ns @ w @ CHR '':'' # i"
  "post_prefix ns w = post_root ns @ w @ '':''"
  by (simp_all add: ft_doc_key_def ft_doc_root_def post_key_def post_root_def post_prefix_def)

lemma ft_apart [simp]:
  "ft_doc_root ns @ x \<noteq> post_root ms @ y" "post_root ms @ y \<noteq> ft_doc_root ns @ x"
  "stats_key ns \<noteq> ft_doc_root ms @ x" "ft_doc_root ms @ x \<noteq> stats_key ns"
  "stats_key ns \<noteq> post_root ms @ x" "post_root ms @ x \<noteq> stats_key ns"
  by (simp_all add: ft_doc_root_def post_root_def stats_key_def)

lemma post_key_inject: "CHR '':'' \<notin> set i \<Longrightarrow> CHR '':'' \<notin> set j \<Longrightarrow>
    w @ CHR '':'' # i = v @ CHR '':'' # j \<longleftrightarrow> w = v \<and> i = j"
  using no_colon_suffix [of i j w v] by auto

text \<open>The count of a term in a text, as a posting.\<close>

definition posting :: "bytes list \<Rightarrow> bytes \<Rightarrow> bytes option" where
  "posting ts w = (if w \<in> set ts then Some (str_nat (count_list ts w)) else None)"

definition total_terms :: "(bytes \<Rightarrow> bytes list) \<Rightarrow> text_map \<Rightarrow> nat" where
  "total_terms tok m = (\<Sum>i \<in> dom m. length (tok (fst (the (m i)))))"

definition stats_doc :: "int \<Rightarrow> int \<Rightarrow> json" where
  "stats_doc n t = JObj [(''total_docs'', JInt n), (''total_terms'', JInt t)]"

definition ft_inv :: "(bytes \<Rightarrow> bytes list) \<Rightarrow> bytes \<Rightarrow> (bytes \<rightharpoonup> bytes) \<Rightarrow> text_map \<Rightarrow> bool" where
  "ft_inv tok ns f m \<longleftrightarrow> finite (dom m) \<and>
     (\<forall>i. f (ft_doc_root ns @ i) = (case m i of None \<Rightarrow> None
        | Some (t, md) \<Rightarrow> Some (json_dumps (doc_payload t md (length (tok t)))))) \<and>
     (\<forall>w i. CHR '':'' \<notin> set i \<longrightarrow> f (post_root ns @ w @ CHR '':'' # i) = (case m i of None \<Rightarrow> None | Some (t, md) \<Rightarrow> posting (tok t) w)) \<and>
     (\<forall>x. f (post_root ns @ x) \<noteq> None \<longrightarrow> (\<exists>w i. x = w @ CHR '':'' # i \<and> CHR '':'' \<notin> set i)) \<and>
     (f (stats_key ns) = Some (json_dumps (stats_doc (int (card (dom m))) (int (total_terms tok m)))) \<or>
      dom m = {} \<and> f (stats_key ns) = None)"

text \<open>Indexable documents: at most \<open>W\<close> different terms, keys and values in the bounds of the store.\<close>

definition ft_ok :: "(bytes \<Rightarrow> bytes list) \<Rightarrow> bytes \<Rightarrow> nat \<Rightarrow> bytes \<Rightarrow> bytes \<Rightarrow> json \<Rightarrow> bool" where
  "ft_ok tok ns W i t md \<longleftrightarrow> CHR '':'' \<notin> set i \<and> utf8_valid i \<and> utf8_valid t \<and> json_ok md \<and>
     length (counter (tok t)) \<le> W \<and> length (tok t) < 2 ^ 32 \<and> length (ft_doc_root ns @ i) \<le> 65535 \<and>
     (\<forall>w \<in> set (tok t). length (post_root ns @ w @ CHR '':'' # i) \<le> 65535) \<and>
     length (json_dumps (doc_payload t md (length (tok t)))) < 2 ^ 32"

definition ft_holds :: "(bytes \<Rightarrow> bytes list) \<Rightarrow> bytes \<Rightarrow> nat \<Rightarrow> (bytes \<rightharpoonup> bytes) \<Rightarrow> text_map \<Rightarrow> nat \<Rightarrow> bool" where
  "ft_holds tok ns W f m n \<longleftrightarrow> ft_inv tok ns f m \<and> length (stats_key ns) \<le> 65535 \<and>
     (\<forall>i t md. m i = Some (t, md) \<longrightarrow> ft_ok tok ns W i t md \<and> tok t \<noteq> []) \<and>
     total_terms tok m + n * 2 ^ 32 < 2 ^ 63 \<and> card (dom m) + n < 2 ^ 63"


section \<open>Statistics\<close>

lemma rest_texts: "rest_repr H (T0 :: texts) T f n \<Longrightarrow> t_namespace T = t_namespace T0 \<and> t_stemming T = t_stemming T0"
  by (cases T; cases T0) (simp add: rest_repr_def db.defs texts.defs)

lemma payload_names: "utf8_valid ''total_docs''" "utf8_valid ''total_terms''" "utf8_valid ''text''" "utf8_valid ''metadata''" "utf8_valid ''length''"
  by (rule utf8_ascii, simp)+

lemma stats_json_ok: "json_ok (stats_doc n t)"
  by (simp add: stats_doc_def payload_names)

lemma stats_names: "length (dump_str ''total_docs'') = 12" "length (dump_str ''total_terms'') = 13"
  by (simp_all add: dump_str_def str_points.simps escape_point_def)

lemma stats_val_ok:
  assumes "0 \<le> n" "n < 2 ^ 63" "0 \<le> t" "t < 2 ^ 63"
  shows "val_ok (json_dumps (stats_doc n t))"
proof -
  have s: "length (str_int i) \<le> 21" if "0 \<le> i" "i < 2 ^ 63" for i
    using str_nat_pow8 [of "nat i" 21] that by (simp add: str_int_def nat_less_iff)
  have "length (json_dumps (stats_doc n t)) \<le> dict_size [(''total_docs'', JInt n), (''total_terms'', JInt t)] + 2"
    unfolding stats_doc_def by (rule dumps_length)
  also have "\<dots> < 2 ^ 32" using s [OF assms(1,2)] s [OF assms(3,4)] by (simp add: stats_names)
  finally show ?thesis unfolding stats_doc_def by (rule dumps_val_ok)
qed

lemma wp_change_stats:
  assumes r: "rest_repr H T0 T f (Suc n)" and ns: "ns = t_namespace T0"
    and f: "f (stats_key ns) = Some (json_dumps (stats_doc a b)) \<or> a = 0 \<and> b = 0 \<and> f (stats_key ns) = None"
    and F: "F (JInt a) = Inr (JInt a')" and G: "G (JInt b) = Inr (JInt b')"
    and ok: "length (stats_key ns) \<le> 65535" "0 \<le> a'" "a' < 2 ^ 63" "0 \<le> b'" "b' < 2 ^ 63"
    and Q: "\<And>T'. rest_repr H T0 T' (f(stats_key ns \<mapsto> json_dumps (stats_doc a' b'))) n \<Longrightarrow> Q () T'"
  shows "wp (change_stats H F G) Q T"
proof -
  have n: "t_namespace T = ns" using rest_texts [OF r] ns by simp
  have k: "key_ok (stats_key ns)" using ok(1) by (simp add: key_ok_def stats_key_def)
  have st: "(case f (stats_key ns) of None \<Rightarrow> no_stats
      | Some b \<Rightarrow> if b = [] then no_stats else (case decode_json b of Inl _ \<Rightarrow> no_stats | Inr j \<Rightarrow> j)) = stats_doc a b"
    using f json_dumps_head [of "stats_doc a b"]
    by (auto simp: load_dumps(1) [OF stats_json_ok] no_stats_def stats_doc_def [of 0 0] simp del: json_dumps.simps)
  have ch: "rbind (change_item ''total_docs'' F (stats_doc a b)) (change_item ''total_terms'' G) = Inr (stats_doc a' b')"
    by (simp add: change_item_def json_item_def stats_doc_def F G)
  have "wp (save_stats H (stats_doc a' b')) Q T"
    unfolding save_stats_def wp_simps n
    by (rule rest.wp_put [OF r k stats_val_ok [OF ok(2-5)]]) (rule Q)
  then show ?thesis unfolding change_stats_def get_stats_def wp_simps n
    by (intro rest_get [OF r]) (simp only: st ch wp_simps)
qed


section \<open>Changing the entries of a document\<close>

definition posts :: "bytes \<Rightarrow> bytes \<Rightarrow> bytes list \<Rightarrow> (bytes \<times> bytes) list" where
  "posts ns i ts = map (\<lambda>(w, c). (post_root ns @ w @ CHR '':'' # i, str_nat c)) (counter ts)"

lemma map_of_inj_keys: "inj g \<Longrightarrow> map_of (map (\<lambda>(w, c). (g w, h c)) es) (g w) = map_option h (map_of es w)"
  by (induction es) (auto simp: inj_eq)

lemma posts_keys: "set (map fst (posts ns i ts)) = (\<lambda>w. post_root ns @ w @ CHR '':'' # i) ` set ts"
proof -
  have "map fst (posts ns i ts) = map (\<lambda>w. post_root ns @ w @ CHR '':'' # i) (map fst (counter ts))"
    by (simp add: posts_def case_prod_beta)
  then show ?thesis by (simp only: set_map [of _ "map fst (counter ts)"] counter_keys)
qed

lemma posts_lookup:
  "map_of (rev (posts ns i ts)) (post_root ns @ w @ CHR '':'' # i) = posting ts w"
  "k \<notin> (\<lambda>w. post_root ns @ w @ CHR '':'' # i) ` set ts \<Longrightarrow> map_of (rev (posts ns i ts)) k = None"
proof -
  have inj: "inj (\<lambda>w. post_root ns @ w @ CHR '':'' # i)" by (auto simp: inj_def)
  have m: "map_of (posts ns i ts) (post_root ns @ w @ CHR '':'' # i) = posting ts w"
    using map_of_inj_keys [OF inj, of str_nat "counter ts" w] counter_facts [of ts w] by (simp add: posts_def posting_def)
  have "inj_on (\<lambda>w. post_root ns @ w @ CHR '':'' # i) (set (map fst (counter ts)))" by (auto simp: inj_on_def)
  then have "distinct (map (\<lambda>w. post_root ns @ w @ CHR '':'' # i) (map fst (counter ts)))"
    using counter_facts [of ts] by (simp only: distinct_map)
  then have "distinct (map fst (posts ns i ts))" by (simp add: posts_def comp_def case_prod_beta)
  then have "map_of (rev (posts ns i ts)) = map_of (posts ns i ts)"
    by (subst map_of_inject_set) (simp_all flip: rev_map)
  with m show "map_of (rev (posts ns i ts)) (post_root ns @ w @ CHR '':'' # i) = posting ts w" by simp
  show "k \<notin> (\<lambda>w. post_root ns @ w @ CHR '':'' # i) ` set ts \<Longrightarrow> map_of (rev (posts ns i ts)) k = None"
    using posts_keys [of ns i ts] by (auto simp: map_of_eq_None_iff)
qed


text \<open>The entries after removing document \<open>i\<close> with terms \<open>ts\<close>, and after adding it.\<close>

definition without_doc :: "bytes \<Rightarrow> bytes \<Rightarrow> bytes list \<Rightarrow> (bytes \<rightharpoonup> bytes) \<Rightarrow> (bytes \<rightharpoonup> bytes)" where
  "without_doc ns i ts f = (f |` (- set (map fst (posts ns i ts))))(ft_doc_root ns @ i := None)"

definition with_doc :: "bytes \<Rightarrow> bytes \<Rightarrow> bytes list \<Rightarrow> bytes \<Rightarrow> (bytes \<rightharpoonup> bytes) \<Rightarrow> (bytes \<rightharpoonup> bytes)" where
  "with_doc ns i ts v f = f(ft_doc_root ns @ i \<mapsto> v) ++ map_of (rev (posts ns i ts))"

lemma without_doc_lookup [simp]:
  "without_doc ns i ts f (ft_doc_root ns @ j) = (if j = i then None else f (ft_doc_root ns @ j))"
  "CHR '':'' \<notin> set i \<Longrightarrow> CHR '':'' \<notin> set j \<Longrightarrow> without_doc ns i ts f (post_root ns @ w @ CHR '':'' # j) =
     (if j = i \<and> w \<in> set ts then None else f (post_root ns @ w @ CHR '':'' # j))"
  "without_doc ns i ts f (stats_key ns) = f (stats_key ns)"
  by (auto simp: without_doc_def posts_keys restrict_map_def post_key_inject simp del: set_map)

lemma without_doc_le: "without_doc ns i ts f k = Some y \<Longrightarrow> f k = Some y"
  by (auto simp: without_doc_def restrict_map_def split: if_splits)

lemma with_doc_lookup:
  "with_doc ns i ts v f (ft_doc_root ns @ j) = (if j = i then Some v else f (ft_doc_root ns @ j))"
  "CHR '':'' \<notin> set i \<Longrightarrow> CHR '':'' \<notin> set j \<Longrightarrow> with_doc ns i ts v f (post_root ns @ w @ CHR '':'' # j) =
     (if j = i \<and> w \<in> set ts then posting ts w else f (post_root ns @ w @ CHR '':'' # j))"
  "with_doc ns i ts v f (stats_key ns) = f (stats_key ns)"
  "with_doc ns i ts v f (post_root ns @ x) \<noteq> None \<Longrightarrow> f (post_root ns @ x) \<noteq> None \<or> (\<exists>w. x = w @ CHR '':'' # i)"
proof -
  have none: "k \<notin> (\<lambda>w. post_root ns @ w @ CHR '':'' # i) ` set ts \<Longrightarrow>
      with_doc ns i ts v f k = (f(ft_doc_root ns @ i \<mapsto> v)) k" for k
    using posts_lookup(2) by (simp add: with_doc_def map_add_def)
  show "with_doc ns i ts v f (ft_doc_root ns @ j) = (if j = i then Some v else f (ft_doc_root ns @ j))"
    "with_doc ns i ts v f (stats_key ns) = f (stats_key ns)"
    by (subst none; auto)+
  show "with_doc ns i ts v f (post_root ns @ w @ CHR '':'' # j) =
     (if j = i \<and> w \<in> set ts then posting ts w else f (post_root ns @ w @ CHR '':'' # j))"
    if "CHR '':'' \<notin> set i" "CHR '':'' \<notin> set j"
  proof (cases "j = i \<and> w \<in> set ts")
    case True
    then show ?thesis using posts_lookup(1) [of ns i ts w] by (simp add: with_doc_def map_add_def posting_def)
  next
    case False
    then have "post_root ns @ w @ CHR '':'' # j \<notin> (\<lambda>w. post_root ns @ w @ CHR '':'' # i) ` set ts"
      using that by (auto simp: post_key_inject)
    then show ?thesis using none False by auto
  qed
  show "f (post_root ns @ x) \<noteq> None \<or> (\<exists>w. x = w @ CHR '':'' # i)" if "with_doc ns i ts v f (post_root ns @ x) \<noteq> None"
  proof (cases "post_root ns @ x \<in> (\<lambda>w. post_root ns @ w @ CHR '':'' # i) ` set ts")
    case False
    then show ?thesis using that none by (metis ft_apart(2) fun_upd_other)
  qed auto
qed

lemma with_doc_root:
  "with_doc ns i ts v f (post_root ns @ x) = Some y \<Longrightarrow> f (post_root ns @ x) \<noteq> None \<or> (\<exists>w. x = w @ CHR '':'' # i)"
  using with_doc_lookup(4) by blast

lemma total_terms_remove:
  assumes "finite (dom m)" "m i = Some (t, md)"
  shows "total_terms tok (m(i := None)) + length (tok t) = total_terms tok m" "card (dom (m(i := None))) + 1 = card (dom m)"
proof -
  have i: "i \<in> dom m" using assms(2) by auto
  have "total_terms tok (m(i := None)) = (\<Sum>j \<in> dom m - {i}. length (tok (fst (the (m j)))))"
    by (auto simp: total_terms_def intro!: sum.cong)
  then show "total_terms tok (m(i := None)) + length (tok t) = total_terms tok m"
    using sum.remove [OF assms(1) i, of "\<lambda>j. length (tok (fst (the (m j))))"] assms(2) by (simp add: total_terms_def)
  show "card (dom (m(i := None))) + 1 = card (dom m)"
    using assms(1) i card_Suc_Diff1 [of "dom m" i] by simp
qed

lemma total_terms_add:
  assumes "finite (dom m)" "m i = None"
  shows "total_terms tok (m(i \<mapsto> (t, md))) = total_terms tok m + length (tok t)" "card (dom (m(i \<mapsto> (t, md)))) = card (dom m) + 1"
proof -
  have f: "finite (dom (m(i \<mapsto> (t, md))))" "(m(i \<mapsto> (t, md))) i = Some (t, md)" "(m(i \<mapsto> (t, md)))(i := None) = m"
    using assms by auto
  show "total_terms tok (m(i \<mapsto> (t, md))) = total_terms tok m + length (tok t)" "card (dom (m(i \<mapsto> (t, md)))) = card (dom m) + 1"
    using total_terms_remove [OF f(1,2)] by (simp_all only: f(3))
qed

lemma ft_inv_remove:
  assumes inv: "ft_inv tok ns f m" and i: "m i = Some (t, md)" "CHR '':'' \<notin> set i"
  shows "ft_inv tok ns ((without_doc ns i (tok t) f)(stats_key ns \<mapsto>
     json_dumps (stats_doc (int (card (dom m)) - 1) (int (total_terms tok m) - int (length (tok t)))))) (m(i := None))"
proof -
  have fin: "finite (dom m)" using inv by (simp add: ft_inv_def)
  note t = total_terms_remove(1) [where tok = tok, OF fin i(1)] total_terms_remove(2) [OF fin i(1)]
  have "int (card (dom (m(i := None)))) = int (card (dom m)) - 1"
    "int (total_terms tok (m(i := None))) = int (total_terms tok m) - int (length (tok t))" using t by linarith+
  moreover have "finite (dom (m(i := None)))" using fin by simp
  ultimately show ?thesis using inv i
    by (auto simp: ft_inv_def posting_def dest!: without_doc_le simp del: json_dumps.simps dom_fun_upd)
qed

lemma ft_inv_add:
  assumes inv: "ft_inv tok ns f m" and i: "m i = None" "CHR '':'' \<notin> set i"
  shows "ft_inv tok ns ((with_doc ns i (tok t) (json_dumps (doc_payload t md (length (tok t)))) f)(stats_key ns \<mapsto>
     json_dumps (stats_doc (int (card (dom m)) + 1) (int (total_terms tok m) + int (length (tok t)))))) (m(i \<mapsto> (t, md)))"
proof -
  have fin: "finite (dom m)" using inv by (simp add: ft_inv_def)
  note t = total_terms_add(1) [where tok = tok and t = t and md = md, OF fin i(1)]
    total_terms_add(2) [where t = t and md = md, OF fin i(1)]
  have "int (card (dom (m(i \<mapsto> (t, md))))) = int (card (dom m)) + 1"
    "int (total_terms tok (m(i \<mapsto> (t, md)))) = int (total_terms tok m) + int (length (tok t))" using t by linarith+
  moreover have "finite (dom (m(i \<mapsto> (t, md))))" using fin by simp
  ultimately show ?thesis using inv i
    by (auto simp: ft_inv_def posting_def with_doc_lookup(1-3) dest!: with_doc_root simp del: json_dumps.simps dom_fun_upd)
qed


section \<open>Operations\<close>

definition ft_frame :: "bytes \<Rightarrow> (bytes \<rightharpoonup> bytes) \<Rightarrow> (bytes \<rightharpoonup> bytes) \<Rightarrow> bool" where
  "ft_frame ns f f' \<longleftrightarrow> (\<forall>k. \<not> startswith k (post_root ns) \<longrightarrow> \<not> startswith k (ft_doc_root ns) \<longrightarrow> k \<noteq> stats_key ns \<longrightarrow> f' k = f k)"

lemma ft_frame_refl [simp]: "ft_frame ns f f"
  and ft_frame_trans: "ft_frame ns f g \<Longrightarrow> ft_frame ns g h \<Longrightarrow> ft_frame ns f h"
  by (auto simp: ft_frame_def)

lemma doc_frames:
  "ft_frame ns f ((without_doc ns i ts f)(stats_key ns \<mapsto> v))"
  "ft_frame ns f ((with_doc ns i ts v f)(stats_key ns \<mapsto> v'))"
proof -
  show "ft_frame ns f ((without_doc ns i ts f)(stats_key ns \<mapsto> v))"
    by (auto simp: ft_frame_def without_doc_def restrict_map_def posts_keys simp del: set_map)
  have "map_of (rev (posts ns i ts)) k = None" if "\<not> startswith k (post_root ns)" for k
    by (rule posts_lookup(2)) (use that in auto)
  then show "ft_frame ns f ((with_doc ns i ts v f)(stats_key ns \<mapsto> v'))"
    by (auto simp: ft_frame_def with_doc_def map_add_def)
qed

lemma wp_catch_all: "wp m Q s \<Longrightarrow> wp (catch_all x m) Q s"
  by (auto simp: wp_def catch_all_def split: sum.splits prod.splits)

lemma posts_loops:
  "for_each (map fst (counter ts)) (\<lambda>w. db_del H (post_key ns w i)) = for_each (map fst (posts ns i ts)) (db_del H)"
  "for_each (counter ts) (\<lambda>(w, c). db_put H (post_key ns w i) (str_nat c)) = for_each (posts ns i ts) (\<lambda>(k, v). db_put H k v)"
proof -
  have m: "map (\<lambda>w. post_key ns w i) (map fst (counter ts)) = map fst (posts ns i ts)"
    by (simp add: posts_def ft_keys case_prod_beta)
  show "for_each (map fst (counter ts)) (\<lambda>w. db_del H (post_key ns w i)) = for_each (map fst (posts ns i ts)) (db_del H)"
    unfolding m [symmetric] by (rule for_each_map [where f = "db_del H" and g = "\<lambda>w. post_key ns w i"])
  have e: "(\<lambda>(w, c). db_put H (post_key ns w i) (str_nat c)) =
      (\<lambda>e. case (case e of (w, c) \<Rightarrow> (post_root ns @ w @ CHR '':'' # i, str_nat c)) of (k, v) \<Rightarrow> db_put H k v)"
    by (auto simp: ft_keys)
  show "for_each (counter ts) (\<lambda>(w, c). db_put H (post_key ns w i) (str_nat c)) = for_each (posts ns i ts) (\<lambda>(k, v). db_put H k v)"
    unfolding posts_def e
    by (rule for_each_map [where f = "\<lambda>(k, v). db_put H k v" and g = "\<lambda>(w, c). (post_root ns @ w @ CHR '':'' # i, str_nat c)"])
qed

lemma ft_key_ok:
  assumes "ft_ok tok ns W i t md"
  shows "key_ok (ft_doc_root ns @ i)" "\<forall>k \<in> set (map fst (posts ns i (tok t))). key_ok k"
proof -
  show "key_ok (ft_doc_root ns @ i)" using assms by (simp add: ft_ok_def key_ok_def ft_doc_root_def)
  have "key_ok (post_root ns @ w @ CHR '':'' # i)" if "w \<in> set (tok t)" for w
    using assms that by (simp add: ft_ok_def key_ok_def)
  then show "\<forall>k \<in> set (map fst (posts ns i (tok t))). key_ok k" by (auto simp: posts_keys simp del: set_map)
qed

lemma payload_ok: "utf8_valid t \<Longrightarrow> json_ok md \<Longrightarrow> json_ok (doc_payload t md n)"
  by (simp add: doc_payload_def payload_names)

lemma wp_ft_delete:
  assumes r: "rest_repr H T0 T f (n + (W + 2))" and tok: "tok = tokenize U (t_stemming T0)" and ns: "ns = t_namespace T0"
    and inv: "ft_inv tok ns f m" and ok: "\<And>t md. m i = Some (t, md) \<Longrightarrow> ft_ok tok ns W i t md"
    and small: "length (stats_key ns) \<le> 65535" "total_terms tok m < 2 ^ 63" "card (dom m) < 2 ^ 63"
    and Q: "\<And>T' f'. rest_repr H T0 T' f' n \<Longrightarrow> ft_inv tok ns f' (m(i := None)) \<Longrightarrow> ft_frame ns f f' \<Longrightarrow> Q (m i \<noteq> None) T'"
  shows "wp (ft_delete H U i) Q T"
proof (cases "m i")
  case None
  then have m: "m(i := None) = m" by auto
  have "f (ft_doc_root ns @ i) = None" using inv None by (simp add: ft_inv_def)
  moreover have "Q False T" using Q [of T f] None inv rest.room_le [OF r] by (simp add: m)
  ultimately show ?thesis unfolding ft_delete_def wp_simps ft_keys
    using rest_texts [OF r] ns by (intro rest_get [OF r]) simp
next
  case (Some tm)
  then obtain t md where i: "m i = Some (t, md)" by (cases tm) auto
  note o = ok [OF i]
  let ?ts = "tok t" and ?b = "json_dumps (doc_payload t md (length (tok t)))"
  have fin: "finite (dom m)" and f: "f (ft_doc_root ns @ i) = Some ?b" using inv i by (auto simp: ft_inv_def)
  have st: "f (stats_key ns) = Some (json_dumps (stats_doc (int (card (dom m))) (int (total_terms tok m)))) \<or>
      int (card (dom m)) = 0 \<and> int (total_terms tok m) = 0 \<and> f (stats_key ns) = None"
    using inv i by (auto simp: ft_inv_def simp del: json_dumps.simps)
  have load: "decode_json ?b = Inr (doc_payload t md (length ?ts))"
    using o by (intro load_dumps(1) payload_ok) (simp_all add: ft_ok_def)
  have le: "length ?ts \<le> total_terms tok m" "1 \<le> card (dom m)"
    using total_terms_remove(1) [OF fin i, of tok] total_terms_remove(2) [OF fin i] by linarith+
  have l: "length (map fst (posts ns i ?ts)) \<le> W" using o by (simp add: ft_ok_def posts_def)
  have r1: "rest_repr H T0 T f (Suc (Suc n) + length (map fst (posts ns i ?ts)))"
    using rest.room_le [OF r] l by simp
  have sub: "rbind (json_sub (JInt a) (JInt b)) (json_max 0) = Inr (JInt (a - b))" if "b \<le> a" for a b
    using that by (auto simp: json_sub_def json_arith_def as_int_def json_max_def cmp_of_def)
  have del: "wp (sq (for_each (map fst (posts ns i ?ts)) (db_del H)) (sq (db_del H (ft_doc_root ns @ i))
      (sq (change_stats H (\<lambda>n. rbind (json_sub n (JInt 1)) (json_max 0)) (\<lambda>n. rbind (json_sub n (JInt (int (length ?ts)))) (json_max 0)))
        (ret True)))) Q T"
    unfolding wp_simps
  proof (rule wp_del_all [OF r1 ft_key_ok(2) [OF o]], rule rest.wp_del [OF _ ft_key_ok(1) [OF o]], assumption)
    fix T1 T2 assume "rest_repr H T0 T2 ((f |` (- set (map fst (posts ns i ?ts))))(ft_doc_root ns @ i := None)) (Suc n)"
    then have r2: "rest_repr H T0 T2 (without_doc ns i ?ts f) (Suc n)" by (simp only: without_doc_def)
    have st2: "without_doc ns i ?ts f (stats_key ns) = Some (json_dumps (stats_doc (int (card (dom m))) (int (total_terms tok m)))) \<or>
      int (card (dom m)) = 0 \<and> int (total_terms tok m) = 0 \<and> without_doc ns i ?ts f (stats_key ns) = None"
      using st by simp
    show "wp (change_stats H (\<lambda>n. rbind (json_sub n (JInt 1)) (json_max 0)) (\<lambda>n. rbind (json_sub n (JInt (int (length ?ts)))) (json_max 0)))
        (\<lambda>_. Q True) T2"
      by (rule wp_change_stats [OF r2 ns st2, where a' = "int (card (dom m)) - 1" and b' = "int (total_terms tok m) - int (length ?ts)"])
        (use small le sub Q ft_inv_remove [OF inv i] o doc_frames(1) i in \<open>auto simp: ft_ok_def\<close>)
  qed
  have n: "t_namespace T = ns" "t_stemming T = t_stemming T0" using rest_texts [OF r] ns by simp_all
  have pay: "rbind (json_get (doc_payload t md (length ?ts)) ''text'' (JStr [])) as_text = Inr t"
    "json_get (doc_payload t md (length ?ts)) ''length'' d = Inr (JInt (int (length ?ts)))" for d
    by (simp_all add: doc_payload_def json_get_def as_text_def)
  show ?thesis unfolding ft_delete_def wp_simps tokens_of_def n ft_keys(1)
  proof (rule rest_get [OF r])
    show "wp (case f (ft_doc_root ns @ i) of None \<Rightarrow> ret False
      | Some b \<Rightarrow> catch_all False (bnd (lift_res (decode_json b)) (\<lambda>doc_data.
         bnd (lift_res (rbind (json_get doc_data ''text'' (JStr [])) as_text)) (\<lambda>text.
         bnd (gets (\<lambda>T. tokenize U (t_stemming T) text)) (\<lambda>tokens.
         bnd (lift_res (json_get doc_data ''length'' (JInt (int (length tokens))))) (\<lambda>doc_len.
         sq (for_each (map fst (counter tokens)) (\<lambda>term. db_del H (post_key ns term i)))
        (sq (db_del H (ft_doc_root ns @ i))
        (sq (change_stats H (\<lambda>n. rbind (json_sub n (JInt 1)) (json_max 0)) (\<lambda>n. rbind (json_sub n doc_len) (json_max 0)))
            (ret True))))))))) Q T"
      unfolding f option.case
      by (rule wp_catch_all) (use del in \<open>simp only: wp_simps load pay n posts_loops tok [symmetric]\<close>)
  qed
qed


lemma posts_val_ok: "length ts < 2 ^ 32 \<Longrightarrow> (k, v) \<in> set (posts ns i ts) \<Longrightarrow> val_ok v"
proof -
  assume l: "length ts < 2 ^ 32" and "(k, v) \<in> set (posts ns i ts)"
  then obtain w c where w: "(w, c) \<in> set (counter ts)" "v = str_nat c" by (auto simp: posts_def)
  then have "map_of (counter ts) w = Some c" using counter_facts [of ts w] by (metis map_of_is_SomeI)
  then have "c = count_list ts w" using counter_facts [of ts w] by (auto split: if_splits)
  then have "c < 2 ^ (3 * 11)" using l count_le_length [of ts w] by simp
  then have "length (str_nat c) \<le> 11" by (rule str_nat_pow8) simp
  moreover have "str_nat c \<noteq> TOMBSTONE" using str_nat_digits [of c] by (auto simp: TOMBSTONE_def is_digit_def)
  ultimately show ?thesis by (simp add: val_ok_def w(2))
qed

text \<open>Storing a document that is not in the index.\<close>

lemma wp_store_document:
  assumes r: "rest_repr H T0 T f (n + W + 2)" and ns: "ns = t_namespace T0"
    and inv: "ft_inv tok ns f m" and i: "m i = None" and o: "ft_ok tok ns W i t md"
    and small: "length (stats_key ns) \<le> 65535" "total_terms tok m + length (tok t) < 2 ^ 63" "card (dom m) + 1 < 2 ^ 63"
    and Q: "\<And>T' f'. rest_repr H T0 T' f' n \<Longrightarrow> ft_inv tok ns f' (m(i \<mapsto> (t, md))) \<Longrightarrow> ft_frame ns f f' \<Longrightarrow> Q () T'"
  shows "wp (sq (db_put H (ft_doc_root ns @ i) (json_dumps (doc_payload t md (length (tok t)))))
      (sq (for_each (posts ns i (tok t)) (\<lambda>(k, v). db_put H k v))
        (change_stats H (\<lambda>n. json_incr n 1) (\<lambda>n. json_incr n (int (length (tok t))))))) Q T"
proof -
  let ?ts = "tok t" and ?b = "json_dumps (doc_payload t md (length (tok t)))"
  let ?g = "(with_doc ns i ?ts ?b f)(stats_key ns \<mapsto> json_dumps (stats_doc (int (card (dom m)) + 1) (int (total_terms tok m) + int (length ?ts))))"
  have st: "with_doc ns i ?ts ?b f (stats_key ns) = Some (json_dumps (stats_doc (int (card (dom m))) (int (total_terms tok m)))) \<or>
      int (card (dom m)) = 0 \<and> int (total_terms tok m) = 0 \<and> with_doc ns i ?ts ?b f (stats_key ns) = None"
    using inv by (auto simp: ft_inv_def with_doc_lookup(3) total_terms_def simp del: json_dumps.simps)
  have v: "val_ok ?b" using o by (auto simp: ft_ok_def doc_payload_def intro!: dumps_val_ok simp del: json_dumps.simps)
  have incr: "json_incr (JInt (int (card (dom m)))) 1 = Inr (JInt (int (card (dom m)) + 1))"
    "json_incr (JInt (int (total_terms tok m))) (int (length ?ts)) = Inr (JInt (int (total_terms tok m) + int (length ?ts)))"
    by (simp_all add: json_incr_def json_arith_def as_int_def)
  have "length (posts ns i ?ts) \<le> W" using o by (simp add: ft_ok_def posts_def)
  then have r2: "rest_repr H T0 T f (Suc (Suc n + length (posts ns i ?ts)))" using rest.room_le [OF r] by simp
  have inv': "ft_inv tok ns ?g (m(i \<mapsto> (t, md)))" using ft_inv_add [OF inv i] o by (simp add: ft_ok_def)
  show ?thesis unfolding wp_simps
  proof (rule rest.wp_put [OF r2 ft_key_ok(1) [OF o] v], rule wp_put_all, assumption)
    show "\<forall>(k, v) \<in> set (posts ns i ?ts). key_ok k \<and> val_ok v"
      using ft_key_ok(2) [OF o] posts_val_ok [of ?ts] o by (fastforce simp: ft_ok_def)
    fix T1 T2 assume "rest_repr H T0 T2 (f(ft_doc_root ns @ i \<mapsto> ?b) ++ map_of (rev (posts ns i ?ts))) (Suc n)"
    then have r3: "rest_repr H T0 T2 (with_doc ns i ?ts ?b f) (Suc n)" by (simp only: with_doc_def)
    show "wp (change_stats H (\<lambda>n. json_incr n 1) (\<lambda>n. json_incr n (int (length ?ts)))) Q T2"
    proof (rule wp_change_stats [where F = "\<lambda>n. json_incr n 1" and G = "\<lambda>n. json_incr n (int (length ?ts))", OF r3 ns st incr small(1)])
      fix T' assume "rest_repr H T0 T' ?g n"
      then show "Q () T'" using inv' by (rule Q) (rule doc_frames(2))
    qed (use small in auto)
  qed
qed

lemma wp_index_document:
  assumes r: "rest_repr H T0 T f (n + (2 * W + 4))" and tok: "tok = tokenize U (t_stemming T0)" and ns: "ns = t_namespace T0"
    and inv: "ft_inv tok ns f m" and ok: "\<And>t md. m i = Some (t, md) \<Longrightarrow> ft_ok tok ns W i t md"
    and small: "length (stats_key ns) \<le> 65535" "total_terms tok m + length (tok t) < 2 ^ 63" "card (dom m) + 1 < 2 ^ 63"
    and o: "ft_ok tok ns W i t md"
    and Q: "\<And>T' f'. rest_repr H T0 T' f' n \<Longrightarrow>
        ft_inv tok ns f' (if tok t = [] then m(i := None) else m(i \<mapsto> (t, md))) \<Longrightarrow> ft_frame ns f f' \<Longrightarrow> Q () T'"
  shows "wp (index_document H U i t md) Q T"
  unfolding index_document_def wp_simps tokens_of_def
proof (rule wp_ft_delete [where n = "n + W + 2", OF _ tok ns inv ok], use rest.room_le [OF r] in simp, assumption)
  fix T1 g b assume g: "rest_repr H T0 T1 g (n + W + 2)" "ft_inv tok ns g (m(i := None))" "ft_frame ns f g"
  have n: "t_namespace T1 = ns" "t_stemming T1 = t_stemming T0" using rest_texts [OF g(1)] ns by simp_all
  have fin: "finite (dom m)" using inv by (simp add: ft_inv_def)
  have "m i = None \<or> (\<exists>t md. m i = Some (t, md))" by (cases "m i") auto
  then have le: "total_terms tok (m(i := None)) \<le> total_terms tok m" "card (dom (m(i := None))) \<le> card (dom m)"
    using total_terms_remove(1) [OF fin, of i _ _ tok] total_terms_remove(2) [OF fin, of i]
    by (metis fun_upd_idem le_add1 order_refl)+
  show "wp (if tokenize U (t_stemming T1) t = [] then ret () else bnd (gets t_namespace) (\<lambda>ns.
       sq (db_put H (ft_doc_key ns i) (json_dumps (doc_payload t md (length (tokenize U (t_stemming T1) t)))))
      (sq (for_each (counter (tokenize U (t_stemming T1) t)) (\<lambda>(term, tf). db_put H (post_key ns term i) (str_nat tf)))
          (change_stats H (\<lambda>n. json_incr n 1) (\<lambda>n. json_incr n (int (length (tokenize U (t_stemming T1) t)))))))) Q T1"
  proof (cases "tok t = []")
    case True
    then show ?thesis using Q [of T1 g] rest.room_le [OF g(1)] g(2,3) by (simp add: n tok)
  next
    case False
    have "wp (sq (db_put H (ft_doc_root ns @ i) (json_dumps (doc_payload t md (length (tok t)))))
      (sq (for_each (posts ns i (tok t)) (\<lambda>(k, v). db_put H k v))
        (change_stats H (\<lambda>n. json_incr n 1) (\<lambda>n. json_incr n (int (length (tok t))))))) Q T1"
      by (rule wp_store_document [OF g(1) ns g(2) _ o small(1)])
        (use le small(2,3) False Q ft_frame_trans [OF g(3)] in auto)
    then show ?thesis using False by (simp only: n wp_simps tok [symmetric] if_False posts_loops(2) ft_keys(1))
  qed
qed (use small in auto)


section \<open>Commands\<close>

datatype text_op = TIndex bytes bytes json | TDelete bytes

fun text_call :: "host \<Rightarrow> unicode \<Rightarrow> text_op \<Rightarrow> (texts, bool) pym" where
  "text_call H U (TIndex i t md) = sq (index_document H U i t md) (ret True)"
| "text_call H U (TDelete i) = ft_delete H U i"

fun text_spec :: "(bytes \<Rightarrow> bytes list) \<Rightarrow> text_op \<Rightarrow> text_map \<Rightarrow> bool \<times> text_map" where
  "text_spec tok (TIndex i t md) m = (True, if tok t = [] then m(i := None) else m(i \<mapsto> (t, md)))"
| "text_spec tok (TDelete i) m = (m i \<noteq> None, m(i := None))"

fun text_cost :: "nat \<Rightarrow> text_op \<Rightarrow> nat" where
  "text_cost W (TIndex i t md) = 2 * W + 4"
| "text_cost W (TDelete i) = W + 2"

fun text_op_ok :: "(bytes \<Rightarrow> bytes list) \<Rightarrow> bytes \<Rightarrow> nat \<Rightarrow> text_op \<Rightarrow> bool" where
  "text_op_ok tok ns W (TIndex i t md) = ft_ok tok ns W i t md"
| "text_op_ok tok ns W (TDelete i) = True"

lemma totals_fall: "finite (dom m) \<Longrightarrow> total_terms tok (m(i := None)) \<le> total_terms tok m \<and> card (dom (m(i := None))) \<le> card (dom m)"
  by (auto simp: total_terms_def intro!: sum_mono2 card_mono sum.mono_neutral_left)

lemma ft_holds_remove:
  assumes "ft_holds tok ns W f m (n + k)" "ft_inv tok ns f' (m(i := None))"
  shows "ft_holds tok ns W f' (m(i := None)) n"
proof -
  have "finite (dom m)" using assms(1) by (simp add: ft_holds_def ft_inv_def)
  then have "total_terms tok (m(i := None)) \<le> total_terms tok m" "card (dom (m(i := None))) \<le> card (dom m)"
    using totals_fall by blast+
  then show ?thesis using assms by (auto simp: ft_holds_def algebra_simps simp del: dom_fun_upd split: if_splits)
qed

lemma ft_holds_add:
  assumes "ft_holds tok ns W f m (n + k)" "ft_inv tok ns f' (m(i \<mapsto> (t, md)))" "ft_ok tok ns W i t md" "tok t \<noteq> []" "1 \<le> k"
  shows "ft_holds tok ns W f' (m(i \<mapsto> (t, md))) n"
proof -
  have fm: "finite (dom m)" and fin: "finite (dom (m(i := None)))" using assms(1) by (simp_all add: ft_holds_def ft_inv_def)
  have m: "(m(i := None))(i \<mapsto> (t, md)) = m(i \<mapsto> (t, md))" "(m(i := None)) i = None" by simp_all
  have "total_terms tok (m(i \<mapsto> (t, md))) \<le> total_terms tok m + length (tok t)" "card (dom (m(i \<mapsto> (t, md)))) \<le> card (dom m) + 1"
    using total_terms_add(1) [OF fin m(2), of tok t md] total_terms_add(2) [OF fin m(2), of t md] totals_fall [OF fm, of tok i]
    unfolding m(1) by linarith+
  moreover have "n * 2 ^ 32 + 2 ^ 32 \<le> (n + k) * 2 ^ 32" using assms(5) by (simp add: algebra_simps)
  ultimately show ?thesis using assms by (auto simp: ft_holds_def ft_ok_def simp del: dom_fun_upd split: if_splits)
qed

lemma text_step:
  assumes r: "rest_repr H T0 T f (n + text_cost W op)" and h: "ft_holds tok ns W f m (n + text_cost W op)" and ok: "text_op_ok tok ns W op"
    and tok: "tok = tokenize U (t_stemming T0)" and ns: "ns = t_namespace T0"
  shows "wp (text_call H U op) (\<lambda>x T'. x = fst (text_spec tok op m) \<and> (\<exists>f'. rest_repr H T0 T' f' n \<and>
     ft_holds tok ns W f' (snd (text_spec tok op m)) n \<and> ft_frame ns f f')) T"
proof -
  have inv: "ft_inv tok ns f m" and small: "length (stats_key ns) \<le> 65535" "total_terms tok m < 2 ^ 63" "card (dom m) < 2 ^ 63"
    and docs: "\<And>i t md. m i = Some (t, md) \<Longrightarrow> ft_ok tok ns W i t md" using h by (auto simp: ft_holds_def)
  show ?thesis
  proof (cases op)
    case (TIndex i t md)
    have o: "ft_ok tok ns W i t md" using ok TIndex by simp
    have "total_terms tok m + length (tok t) < 2 ^ 63" "card (dom m) + 1 < 2 ^ 63"
      using h o by (auto simp: ft_holds_def ft_ok_def TIndex)
    then show ?thesis unfolding TIndex text_call.simps wp_simps
      by (intro wp_index_document [OF r [unfolded TIndex text_cost.simps] tok ns inv docs small(1) _ _ o])
        (use h ft_holds_remove [OF h] ft_holds_add [OF h _ o] TIndex in auto)
  next
    case (TDelete i)
    show ?thesis unfolding TDelete text_call.simps
      by (rule wp_ft_delete [OF r [unfolded TDelete text_cost.simps] tok ns inv docs small])
        (use ft_holds_remove [OF h] in auto)
  qed
qed

interpretation texts: store_commands "rest_repr H T0" "db_put H" "db_del H" "db_read H" db_scan "text_call H U"
    "text_spec (tokenize U (t_stemming T0))" "text_cost W" "text_op_ok (tokenize U (t_stemming T0)) (t_namespace T0) W"
    "ft_holds (tokenize U (t_stemming T0)) (t_namespace T0) W" "ft_frame (t_namespace T0)" for H T0 U W
  by standard (use text_step ft_frame_trans in \<open>auto simp only: ft_frame_refl\<close>)

text \<open>
  C27. After any sequence of calls that index or delete documents, the entries of the index are
  exactly those of a map from ids to texts: a stored document for every id, a posting with the
  count of every term of its text and no other posting, and statistics with the number of
  documents and of their terms. A document whose text has no terms is not in the index, and
  indexing it removes what was there. Nothing outside the namespace changes.
\<close>

theorem text_refines:
  assumes "rest_repr H T0 T f (n + run_cost (text_cost W) ops)"
    "ft_holds (tokenize U (t_stemming T0)) (t_namespace T0) W f m (n + run_cost (text_cost W) ops)"
    "list_all (text_op_ok (tokenize U (t_stemming T0)) (t_namespace T0) W) ops"
  shows "\<exists>T' f'. map_m (text_call H U) ops T = (Inr (fst (run_spec (text_spec (tokenize U (t_stemming T0))) ops m)), T') \<and>
     rest_repr H T0 T' f' n \<and>
     ft_holds (tokenize U (t_stemming T0)) (t_namespace T0) W f' (snd (run_spec (text_spec (tokenize U (t_stemming T0))) ops m)) n \<and>
     ft_frame (t_namespace T0) f f'"
  by (rule texts.run [OF assms])


section \<open>A concrete index\<close>

definition sample_texts :: texts where
  "sample_texts = \<lparr>db_lsm = sample_tree, t_namespace = ''n'', t_k1 = ONE, t_b = HALF, t_stemming = False\<rparr>"

definition sample_unicode :: unicode where
  "sample_unicode = \<lparr>u_lower = id, u_nfkd = id, u_word = (\<lambda>c. 97 \<le> c \<and> c \<le> 122), u_same = (=), u_printable = (\<lambda>_. True)\<rparr>"

lemma sample_unicode_ok: "unicode_ok sample_unicode"
  by (simp add: unicode_ok_def sample_unicode_def plain_point_def)

definition sample_tok :: "bytes \<Rightarrow> bytes list" where
  "sample_tok = tokenize sample_unicode False"

lemma sample_words:
  "find_words (\<lambda>c. 97 \<le> c \<and> c \<le> 122) (str_points ''red fox'') = map ascii_points [''red'', ''fox'']"
  "find_words (\<lambda>c. 97 \<le> c \<and> c \<le> 122) (str_points ''fox fox'') = map ascii_points [''fox'', ''fox'']"
  "find_words (\<lambda>c. 97 \<le> c \<and> c \<le> 122) (str_points ''the'') = map ascii_points [''the'']"
  "find_words (\<lambda>c. 97 \<le> c \<and> c \<le> 122) (str_points ''fox'') = map ascii_points [''fox'']"
  by (simp_all add: find_words_def str_points.simps ascii_points_def)

lemma stop_word_iff: "ascii_points s \<in> ascii_points ` set STOP_WORDS \<longleftrightarrow> s \<in> set STOP_WORDS"
  by (rule inj_image_mem_iff) (simp add: inj_def ascii_points_def inj_map_eq_map)

lemma sample_tokens:
  "sample_tok ''red fox'' = [''red'', ''fox'']" "sample_tok ''fox fox'' = [''fox'', ''fox'']" "sample_tok ''the'' = []" "sample_tok ''fox'' = [''fox'']"
proof -
  have stop: "''the'' \<in> set STOP_WORDS" "''red'' \<notin> set STOP_WORDS" "''fox'' \<notin> set STOP_WORDS"
    by (simp_all add: STOP_WORDS_def APOS_def)
  have len: "length (ascii_points s) = length s" for s by (simp add: ascii_points_def)
  show "sample_tok ''red fox'' = [''red'', ''fox'']" "sample_tok ''fox fox'' = [''fox'', ''fox'']" "sample_tok ''the'' = []" "sample_tok ''fox'' = [''fox'']"
    by (simp_all add: sample_tok_def tokenize_def sample_unicode_def sample_words stop_word_iff stop len point_bytes_ascii)
qed

lemma length_escape: "length (escape_point n) \<le> 12"
  by (simp add: escape_point_def hex4_def)

lemma length_points: "length (str_points s) \<le> length s"
proof (induction s rule: str_points.induct)
  case (1 s)
  obtain p n where f: "first_point s = (p, n)" by fastforce
  show ?case
  proof (cases "s = []")
    case False
    have "0 < n" using first_point_pos [of s] by (simp add: f)
    then have "length (drop n s) < length s" using False by simp
    moreover have "length (str_points (drop n s)) \<le> length (drop n s)" using "1.IH" [OF False f [symmetric]] .
    ultimately show ?thesis using False by (subst str_points.simps) (simp add: f)
  qed (simp add: str_points.simps [of "[]"])
qed

lemma length_dump_str: "length (dump_str s) \<le> 12 * length s + 2"
proof -
  have "length (concat (map escape_point ps)) \<le> 12 * length ps" for ps
    using length_escape by (induction ps) (auto intro: add_mono)
  from this [of "str_points s"] show ?thesis using length_points [of s] by (simp add: dump_str_def)
qed

lemma small_doc_ok:
  assumes "length t \<le> 1000" "length (tok t) \<le> 1000" "length (counter (tok t)) \<le> W" "CHR '':'' \<notin> set i" "utf8_valid i" "utf8_valid t"
    "length i \<le> 100" "length ns \<le> 100" "\<forall>w \<in> set (tok t). length w \<le> 1000"
  shows "ft_ok tok ns W i t JNull"
proof -
  have s: "length (str_int (int (length (tok t)))) \<le> 11"
    using str_nat_pow8 [of "length (tok t)" 11] assms(2) by (simp add: str_int_def)
  have "length (json_dumps (doc_payload t JNull (length (tok t)))) \<le>
      dict_size [(''text'', JStr t), (''metadata'', JObj []), (''length'', JInt (int (length (tok t))))] + 2"
    unfolding doc_payload_def truthy.simps if_False by (rule dumps_length)
  also have "\<dots> < 2 ^ 32"
    using s length_dump_str [of t] length_dump_str [of "''text''"] length_dump_str [of "''metadata''"] length_dump_str [of "''length''"] assms(1)
    by simp
  finally show ?thesis using assms by (auto simp: ft_ok_def ft_doc_root_def post_root_def simp del: json_dumps.simps)
qed

lemma sample_ok:
  "ft_ok sample_tok ''n'' 2 ''x'' ''red fox'' JNull" "ft_ok sample_tok ''n'' 2 ''y'' ''fox fox'' JNull" "ft_ok sample_tok ''n'' 2 ''x'' ''the'' JNull"
  by (rule small_doc_ok; simp add: sample_tokens counter_def utf8_ascii)+

lemma sample_texts_repr: "n \<le> 40000000 \<Longrightarrow> rest_repr sample_host sample_texts sample_texts Map.empty n"
  by (simp add: rest_repr_def db_repr_def sample_texts_def sample_repr)

lemma sample_texts_holds: "n \<le> 1000 \<Longrightarrow> ft_holds sample_tok ''n'' 2 Map.empty Map.empty n"
  by (simp add: ft_holds_def ft_inv_def total_terms_def stats_key_def)

lemma sample_texts_tok: "tokenize sample_unicode (t_stemming sample_texts) = sample_tok" "t_namespace sample_texts = ''n''"
  by (simp_all add: sample_tok_def sample_texts_def)

theorem text_refines_witness:
  "\<exists>T f. map_m (text_call sample_host sample_unicode)
        [TIndex ''x'' ''red fox'' JNull, TIndex ''y'' ''fox fox'' JNull, TIndex ''x'' ''the'' JNull, TDelete ''x''] sample_texts =
      (Inr [True, True, True, False], T) \<and> rest_repr sample_host sample_texts T f 100 \<and>
     ft_inv sample_tok ''n'' f [''y'' \<mapsto> (''fox fox'', JNull)]"
proof -
  let ?ops = "[TIndex ''x'' ''red fox'' JNull, TIndex ''y'' ''fox fox'' JNull, TIndex ''x'' ''the'' JNull, TDelete ''x'']"
  have c: "run_cost (text_cost 2) ?ops = 28" by (simp add: run_cost_def)
  have s: "run_spec (text_spec sample_tok) ?ops Map.empty = ([True, True, True, False], [''y'' \<mapsto> (''fox fox'', JNull)])"
    by (auto simp: sample_tokens fun_eq_iff)
  have "list_all (text_op_ok sample_tok ''n'' 2) ?ops" using sample_ok by simp
  then show ?thesis
    using text_refines [of sample_host sample_texts sample_texts Map.empty 100 2 ?ops sample_unicode Map.empty]
      sample_texts_repr [of 128] sample_texts_holds [of 128]
    unfolding sample_texts_tok c s fst_conv snd_conv by (auto simp: ft_holds_def)
qed

end
