(* ===== verification/TextSearch.thy ===== *)
theory TextSearch
  imports TextLaws
begin

text \<open>
  The candidates of a full-text search, over the index of theory TextLaws.
\<close>

section \<open>Candidates of a search\<close>

text \<open>The count of a term in a stored document.\<close>

definition term_count :: "(bytes \<Rightarrow> bytes list) \<Rightarrow> text_map \<Rightarrow> bytes \<Rightarrow> bytes \<Rightarrow> int option" where
  "term_count tok m i w = (case m i of None \<Rightarrow> None
     | Some (t, md) \<Rightarrow> if w \<in> set (tok t) then Some (int (count_list (tok t) w)) else None)"

text \<open>Candidates \<open>cs\<close> that hold exactly the counts of the terms in \<open>S\<close>.\<close>

definition counts_in :: "(bytes \<Rightarrow> bytes \<Rightarrow> int option) \<Rightarrow> bytes set \<Rightarrow> candidates \<Rightarrow> bool" where
  "counts_in tc S cs \<longleftrightarrow> distinct (map fst cs) \<and> (\<forall>i. case map_of cs i of
      None \<Rightarrow> \<forall>w \<in> S. tc i w = None
    | Some d \<Rightarrow> (\<exists>w \<in> S. tc i w \<noteq> None) \<and> (\<forall>w. map_of d w = (if w \<in> S then tc i w else None)))"

lemma int_arg_str_nat: "rbind (py_decode (str_nat n)) (int_arg U) = Inr (int n)"
proof -
  have "str_nat n = str_int (int n)" by (simp add: str_int_def)
  then show ?thesis using utf8_str_int [of "int n"] py_int_str_int [of "int n"] by (simp add: py_decode_def int_arg_def)
qed

lemma read_postings_fold:
  assumes "\<forall>(i, v) \<in> set xs. utf8_valid i \<and> v = str_nat (c i)"
  shows "read_postings U p w (map (\<lambda>(x, v). (p @ x, v)) xs) cs = Inr (fold (\<lambda>i. add_posting i w (int (c i))) (map fst xs) cs)"
  using assms
proof (induction xs arbitrary: cs)
  case (Cons e xs)
  obtain i v where e: "e = (i, v)" by fastforce
  have "utf8_valid i" "v = str_nat (c i)" using Cons.prems by (auto simp: e)
  then show ?case using Cons.IH [of "add_posting i w (int (c i)) cs"] Cons.prems int_arg_str_nat
    by (simp add: e py_decode_def [of i])
qed simp

lemma add_postings:
  assumes "distinct is"
  shows "distinct (map fst cs) \<Longrightarrow> distinct (map fst (fold (\<lambda>i. add_posting i w (k i)) is cs))"
    and "map_of (fold (\<lambda>i. add_posting i w (k i)) is cs) j =
      (if j \<in> set is then Some (AList.update w (k j) (case map_of cs j of None \<Rightarrow> [] | Some d \<Rightarrow> d)) else map_of cs j)"
  using assms
proof (induction "is" arbitrary: cs)
  case (Cons i js)
  { case 1
    then show ?case using Cons.IH(1) [of "add_posting i w (k i) cs"] by (simp add: add_posting_def distinct_update)
  next
    case 2
    then show ?case using Cons.IH(2) [of "add_posting i w (k i) cs"] by (auto simp: add_posting_def update_conv')
  }
qed simp_all

lemma counts_in_add:
  assumes "counts_in tc S cs" "w \<notin> S" "distinct is" "set is = {i. tc i w \<noteq> None}" "\<And>i. i \<in> set is \<Longrightarrow> tc i w = Some (k i)"
  shows "counts_in tc (insert w S) (fold (\<lambda>i. add_posting i w (k i)) is cs)"
  unfolding counts_in_def
proof (intro conjI allI)
  show "distinct (map fst (fold (\<lambda>i. add_posting i w (k i)) is cs))"
    using assms(1) add_postings(1) [OF assms(3)] by (simp add: counts_in_def)
  fix j
  have c: "case map_of cs j of None \<Rightarrow> \<forall>w \<in> S. tc j w = None
    | Some d \<Rightarrow> (\<exists>w \<in> S. tc j w \<noteq> None) \<and> (\<forall>w. map_of d w = (if w \<in> S then tc j w else None))"
    using assms(1) by (simp add: counts_in_def)
  show "case map_of (fold (\<lambda>i. add_posting i w (k i)) is cs) j of None \<Rightarrow> \<forall>w \<in> insert w S. tc j w = None
    | Some d \<Rightarrow> (\<exists>w \<in> insert w S. tc j w \<noteq> None) \<and> (\<forall>v. map_of d v = (if v \<in> insert w S then tc j v else None))"
  proof (cases "j \<in> set is")
    case True
    then show ?thesis using c assms(2,5) by (auto simp: add_postings(2) [OF assms(3)] update_conv' split: option.splits)
  next
    case False
    then have "tc j w = None" using assms(4) by auto
    then show ?thesis using c False by (auto simp: add_postings(2) [OF assms(3)] split: option.splits)
  qed
qed

lemma wp_postings:
  assumes r: "rest_repr H T0 T f n" and inv: "ft_inv tok ns f m"
    and docs: "\<And>i t md. m i = Some (t, md) \<Longrightarrow> CHR '':'' \<notin> set i \<and> utf8_valid i \<and> (\<forall>v \<in> set (tok t). CHR '':'' \<notin> set v)"
    and w: "CHR '':'' \<notin> set w"
    and Q: "\<And>xs. distinct (map fst xs) \<Longrightarrow> set (map fst xs) = {i. term_count tok m i w \<noteq> None} \<Longrightarrow>
      \<forall>(i, v) \<in> set xs. utf8_valid i \<and> v = str_nat (nat (the (term_count tok m i w))) \<Longrightarrow>
      Q (map (\<lambda>(x, v). (post_prefix ns w @ x, v)) xs) T"
  shows "wp (db_prefix (post_prefix ns w)) Q T"
proof (rule rest_entries [OF r])
  fix xs assume xs: "strict_keys xs" "map_of xs = (\<lambda>x. f (post_prefix ns w @ x))"
  have m: "map_of xs x = (case m x of None \<Rightarrow> None | Some (t, md) \<Rightarrow> posting (tok t) w)" for x
  proof (cases "CHR '':'' \<in> set x")
    case False
    then show ?thesis using inv by (simp add: xs(2) ft_keys(3) ft_inv_def)
  next
    case True
    then have mx: "m x = None" using docs by (cases "m x") auto
    have "f (post_root ns @ w @ CHR '':'' # x) = None"
    proof (rule ccontr)
      assume n: "f (post_root ns @ w @ CHR '':'' # x) \<noteq> None"
      then obtain v i where v: "w @ CHR '':'' # x = v @ CHR '':'' # i" "CHR '':'' \<notin> set i"
        using inv unfolding ft_inv_def by blast
      moreover have "f (post_root ns @ v @ CHR '':'' # i) = (case m i of None \<Rightarrow> None | Some (t, md) \<Rightarrow> posting (tok t) v)"
        using inv v(2) unfolding ft_inv_def by blast
      ultimately have "(case m i of None \<Rightarrow> None | Some (t, md) \<Rightarrow> posting (tok t) v) \<noteq> None"
        using n by (simp only: v(1) not_False_eq_True)
      then obtain t md where mi: "m i = Some (t, md)" "posting (tok t) v \<noteq> None" by (cases "m i") auto
      then have "v \<in> set (tok t)" by (simp add: posting_def split: if_splits)
      then have "CHR '':'' \<notin> set v" using docs [OF mi(1)] by blast
      then have "w = v" using no_colon_prefix [OF w _ v(1)] by simp
      then show False using v True by simp
    qed
    then show ?thesis by (simp add: xs(2) ft_keys(3) mx)
  qed
  have d: "distinct (map fst xs)" by (rule strict_keys_distinct [OF xs(1)])
  have "i \<in> set (map fst xs) \<longleftrightarrow> term_count tok m i w \<noteq> None" for i
    using m [of i] map_of_eq_None_iff [of xs i] by (auto simp: term_count_def posting_def split: option.splits)
  then have k: "set (map fst xs) = {i. term_count tok m i w \<noteq> None}" by blast
  have "utf8_valid i \<and> v = str_nat (nat (the (term_count tok m i w)))" if "(i, v) \<in> set xs" for i v
  proof -
    have "map_of xs i = Some v" using d that by simp
    then obtain t md where i: "m i = Some (t, md)" "posting (tok t) w = Some v" using m [of i] by (cases "m i") auto
    moreover have "utf8_valid i" using docs [OF i(1)] by blast
    ultimately show ?thesis by (auto simp: term_count_def posting_def split: if_splits)
  qed
  then show "Q (map (\<lambda>(x, v). (post_prefix ns w @ x, v)) xs) T" by (intro Q [OF d k]) blast
qed


lemma wp_collect:
  assumes r: "rest_repr H T0 T f n" and inv: "ft_inv tok ns f m"
    and docs: "\<And>i t md. m i = Some (t, md) \<Longrightarrow> CHR '':'' \<notin> set i \<and> utf8_valid i \<and> (\<forall>v \<in> set (tok t). CHR '':'' \<notin> set v)"
  shows "distinct ws \<Longrightarrow> \<forall>w \<in> set ws. CHR '':'' \<notin> set w \<Longrightarrow> S \<inter> set ws = {} \<Longrightarrow> counts_in (term_count tok m) S cs \<Longrightarrow>
    \<forall>w. map_of dfs w = (if w \<in> S then Some (card {i. term_count tok m i w \<noteq> None}) else None) \<Longrightarrow>
    wp (collect_candidates U ns ws cs dfs) (\<lambda>(cs', dfs') T'. T' = T \<and> counts_in (term_count tok m) (S \<union> set ws) cs' \<and>
      (\<forall>w. map_of dfs' w = (if w \<in> S \<union> set ws then Some (card {i. term_count tok m i w \<noteq> None}) else None))) T"
proof (induction ws arbitrary: S cs dfs)
  case (Cons w ws)
  show ?case unfolding collect_candidates.simps wp_simps
  proof (rule wp_postings [OF r inv docs], assumption)
    show "CHR '':'' \<notin> set w" using Cons.prems(2) by simp
    fix xs :: "(bytes \<times> bytes) list"
    assume d: "distinct (map fst xs)" and k: "set (map fst xs) = {i. term_count tok m i w \<noteq> None}"
      and v: "\<forall>(i, v) \<in> set xs. utf8_valid i \<and> v = str_nat (nat (the (term_count tok m i w)))"
    let ?cs = "fold (\<lambda>i. add_posting i w (int (nat (the (term_count tok m i w))))) (map fst xs) cs"
    let ?dfs = "AList.update w (length (map (\<lambda>(x, v). (post_prefix ns w @ x, v)) xs)) dfs"
    have c: "counts_in (term_count tok m) (insert w S) ?cs"
    proof (rule counts_in_add [OF Cons.prems(4) _ d k])
      fix i assume "i \<in> set (map fst xs)"
      then show "term_count tok m i w = Some (int (nat (the (term_count tok m i w))))"
        using k by (auto simp: term_count_def split: option.splits if_splits)
    qed (use Cons.prems(3) in auto)
    have "length xs = card {i. term_count tok m i w \<noteq> None}" unfolding k [symmetric] using d by (metis distinct_card length_map)
    then have f: "\<forall>v. map_of ?dfs v = (if v \<in> insert w S then Some (card {i. term_count tok m i v \<noteq> None}) else None)"
      using Cons.prems(5) by (auto simp: update_conv')
    have "wp (collect_candidates U ns ws ?cs ?dfs) (\<lambda>(cs', dfs') T'. T' = T \<and> counts_in (term_count tok m) (insert w S \<union> set ws) cs' \<and>
      (\<forall>v. map_of dfs' v = (if v \<in> insert w S \<union> set ws then Some (card {i. term_count tok m i v \<noteq> None}) else None))) T"
      by (rule Cons.IH [OF _ _ _ c f]) (use Cons.prems(1-3) in auto)
    then show "wp (lift_res (read_postings U (post_prefix ns w) w (map (\<lambda>(x, v). (post_prefix ns w @ x, v)) xs) cs))
       (\<lambda>cs'. wp (collect_candidates U ns ws cs' ?dfs) (\<lambda>(cs', dfs') T'. T' = T \<and> counts_in (term_count tok m) (S \<union> set (w # ws)) cs' \<and>
      (\<forall>v. map_of dfs' v = (if v \<in> S \<union> set (w # ws) then Some (card {i. term_count tok m i v \<noteq> None}) else None)))) T"
      by (simp add: read_postings_fold [OF v])
  qed
qed simp

text \<open>
  C28. The candidates a search ranks are exactly the documents that contain a term of the query,
  each once, with the number of times each of these terms occurs in it; the document frequency
  of a term is the number of documents that contain it.
\<close>

theorem text_candidates_exact:
  assumes "rest_repr H T0 T f n" "unicode_ok U" "tok = tokenize U (t_stemming T0)" "ft_holds tok ns W f m k"
  shows "\<exists>cs dfs. collect_candidates U ns (remdups (tok query)) [] [] T = (Inr (cs, dfs), T) \<and> distinct (map fst cs) \<and>
     set (map fst cs) = {i. \<exists>w \<in> set (tok query). term_count tok m i w \<noteq> None} \<and>
     (\<forall>(i, d) \<in> set cs. \<forall>w. map_of d w = (if w \<in> set (tok query) then term_count tok m i w else None)) \<and>
     (\<forall>w \<in> set (tok query). map_of dfs w = Some (card {i. term_count tok m i w \<noteq> None}))"
proof -
  have inv: "ft_inv tok ns f m" and docs: "\<And>i t md. m i = Some (t, md) \<Longrightarrow> CHR '':'' \<notin> set i \<and> utf8_valid i \<and> (\<forall>v \<in> set (tok t). CHR '':'' \<notin> set v)"
    using assms(3,4) token_no_colon [OF assms(2)] by (auto simp: ft_holds_def ft_ok_def)
  have "wp (collect_candidates U ns (remdups (tok query)) [] []) (\<lambda>(cs, dfs) T'. T' = T \<and> counts_in (term_count tok m) ({} \<union> set (remdups (tok query))) cs \<and>
      (\<forall>w. map_of dfs w = (if w \<in> {} \<union> set (remdups (tok query)) then Some (card {i. term_count tok m i w \<noteq> None}) else None))) T"
    by (rule wp_collect [OF assms(1) inv docs], assumption) (use assms(3) token_no_colon [OF assms(2)] in \<open>auto simp: counts_in_def\<close>)
  then obtain cs dfs where c: "collect_candidates U ns (remdups (tok query)) [] [] T = (Inr (cs, dfs), T)"
    "counts_in (term_count tok m) (set (tok query)) cs"
    "\<forall>w. map_of dfs w = (if w \<in> set (tok query) then Some (card {i. term_count tok m i w \<noteq> None}) else None)"
    by (auto elim!: wpE)
  have k: "i \<in> set (map fst cs) \<longleftrightarrow> (\<exists>w \<in> set (tok query). term_count tok m i w \<noteq> None)" for i
  proof -
    have e: "case map_of cs i of None \<Rightarrow> \<forall>w \<in> set (tok query). term_count tok m i w = None
      | Some d \<Rightarrow> (\<exists>w \<in> set (tok query). term_count tok m i w \<noteq> None) \<and> (\<forall>w. map_of d w = (if w \<in> set (tok query) then term_count tok m i w else None))"
      using c(2) unfolding counts_in_def by blast
    show ?thesis
    proof (cases "map_of cs i")
      case None
      then show ?thesis using e map_of_eq_None_iff [of cs i] by simp
    next
      case (Some d)
      then have "i \<in> set (map fst cs)" using map_of_eq_None_iff [of cs i] by auto
      then show ?thesis using e Some by simp
    qed
  qed
  have "map_of d w = (if w \<in> set (tok query) then term_count tok m i w else None)" if "(i, d) \<in> set cs" for i d w
  proof -
    have i: "map_of cs i = Some d" using c(2) that by (simp add: counts_in_def)
    have "case map_of cs i of None \<Rightarrow> \<forall>w \<in> set (tok query). term_count tok m i w = None
      | Some d \<Rightarrow> (\<exists>w \<in> set (tok query). term_count tok m i w \<noteq> None) \<and> (\<forall>w. map_of d w = (if w \<in> set (tok query) then term_count tok m i w else None))"
      using c(2) unfolding counts_in_def by blast
    then show ?thesis unfolding i option.case by blast
  qed
  then have "\<forall>(i, d) \<in> set cs. \<forall>w. map_of d w = (if w \<in> set (tok query) then term_count tok m i w else None)" by blast
  moreover have "set (map fst cs) = {i. \<exists>w \<in> set (tok query). term_count tok m i w \<noteq> None}" using k by blast
  moreover have "distinct (map fst cs)" using c(2) by (simp add: counts_in_def)
  moreover have "\<forall>w \<in> set (tok query). map_of dfs w = Some (card {i. term_count tok m i w \<noteq> None})" using c(3) by simp
  ultimately show ?thesis using c(1) by (intro exI conjI)
qed

theorem text_candidates_exact_witness:
  "\<exists>T cs dfs. collect_candidates sample_unicode ''n'' [''fox''] [] [] T = (Inr (cs, dfs), T) \<and>
     set (map fst cs) = {''x'', ''y''} \<and> map_of dfs ''fox'' = Some 2"
proof -
  let ?m = "[''x'' \<mapsto> (''red fox'', JNull), ''y'' \<mapsto> (''fox fox'', JNull)]"
  obtain T f where T: "rest_repr sample_host sample_texts T f 100" "ft_holds sample_tok ''n'' 2 f ?m 100"
    using texts.run [of sample_host sample_texts sample_texts Map.empty 100 2 "[TIndex ''x'' ''red fox'' JNull, TIndex ''y'' ''fox fox'' JNull]"
        sample_unicode Map.empty]
      sample_texts_repr [of 116] sample_texts_holds [of 116] sample_ok
    unfolding sample_texts_tok by (auto simp: run_cost_def sample_tokens)
  have k: "{i. \<exists>w \<in> set (sample_tok ''fox''). term_count sample_tok ?m i w \<noteq> None} = {''x'', ''y''}"
    "{i. term_count sample_tok ?m i ''fox'' \<noteq> None} = {''x'', ''y''}"
    by (auto simp: term_count_def sample_tokens)
  from text_candidates_exact [OF T(1) sample_unicode_ok sample_texts_tok(1) [symmetric] T(2), of "''fox''"] show ?thesis
  proof (elim exE conjE)
    fix cs dfs assume c: "collect_candidates sample_unicode ''n'' (remdups (sample_tok ''fox'')) [] [] T = (Inr (cs, dfs), T)"
      "set (map fst cs) = {i. \<exists>w \<in> set (sample_tok ''fox''). term_count sample_tok ?m i w \<noteq> None}"
      "\<forall>w \<in> set (sample_tok ''fox''). map_of dfs w = Some (card {i. term_count sample_tok ?m i w \<noteq> None})"
    have "''fox'' \<in> set (sample_tok ''fox'')" by (simp add: sample_tokens)
    then have "map_of dfs ''fox'' = Some 2" using c(3) by (simp only: k(2)) simp
    moreover have "remdups (sample_tok ''fox'') = [''fox'']" by (simp add: sample_tokens)
    ultimately show ?thesis using c(1,2) unfolding k(1) by metis
  qed
qed

end
