(* ===== verification/VectorLaws.thy ===== *)
theory VectorLaws
  imports Vector DocLaws
begin

text \<open>
  The vector index: stored vectors come back rounded to singles, an exact search ranks all of
  them, training puts every vector in the cluster of its nearest centroid, and a search through
  the clusters sees no vector that training did not see.
\<close>

section \<open>Training\<close>

lemma best_from_index: "best_from PM v i cs b = Inr j \<Longrightarrow> j = fst b \<or> i \<le> j \<and> j < i + length cs"
proof (induction cs arbitrary: i b)
  case (Cons c cs)
  then obtain s where s: "cosine_similarity PM v c = Inr s"
    "best_from PM v (Suc i) cs (if f64_less (snd b) s then (i, s) else b) = Inr j"
    by (auto simp: rbind_Inr_iff)
  from Cons.IH [OF s(2)] show ?case by (auto split: if_splits)
qed simp

lemma nearest_index: "nearest_centroid PM cs v = Inr j \<Longrightarrow> j < length cs"
  using best_from_index [of PM v 1 "tl cs" _ j] by (fastforce simp: nearest_centroid_def rbind_Inr_iff split: list.splits)

text \<open>
  What \<open>max(range(n), key=...)\<close> returns, stated of the list of scores: the first index of a
  greatest score. No score is greater than the chosen one, and every score before it is
  smaller. A score that is not-a-number is neither, except that at the front it is chosen.
\<close>

definition first_best :: "f64 list \<Rightarrow> nat \<Rightarrow> bool" where
  "first_best ss j \<longleftrightarrow> j < length ss \<and> (\<forall>i < length ss. \<not> f64_less (ss ! j) (ss ! i)) \<and>
     (\<forall>i < j. f64_nan (ss ! i) \<or> f64_less (ss ! i) (ss ! j)) \<and> (f64_nan (ss ! 0) \<longrightarrow> j = 0)"

definition nearest_to :: "pymath \<Rightarrow> f64 list list \<Rightarrow> f64 list \<Rightarrow> nat \<Rightarrow> bool" where
  "nearest_to PM cs v j \<longleftrightarrow>
     (case rmap (cosine_similarity PM v) cs of Inl e \<Rightarrow> False | Inr ss \<Rightarrow> first_best ss j)"

lemma first_best_unique: "first_best ss j \<Longrightarrow> first_best ss j' \<Longrightarrow> j = j'"
proof (induction j j' rule: linorder_wlog)
  case (le j j')
  show ?case
  proof (rule ccontr)
    assume "j \<noteq> j'"
    then have l: "j < j'" using le by simp
    then have "f64_nan (ss ! j)" using le.prems by (auto simp: first_best_def)
    then have "\<forall>i < j. f64_nan (ss ! i)" using le.prems by (auto simp: first_best_def f64_less_def)
    then have "f64_nan (ss ! 0)" using \<open>f64_nan (ss ! j)\<close> by (cases j) auto
    then show False using l le.prems by (simp add: first_best_def)
  qed
qed simp

lemma first_best_snoc:
  assumes "first_best ss j"
  shows "first_best (ss @ [s]) (if f64_less (ss ! j) s then length ss else j)"
proof (cases "f64_less (ss ! j) s")
  case True
  have j: "j < length ss" "\<not> f64_less (ss ! j) (ss ! i)" if "i < length ss" for i
    using assms that by (auto simp: first_best_def)
  have "\<not> f64_nan (ss ! 0)" using assms True by (auto simp: first_best_def f64_less_def)
  moreover have "f64_nan (ss ! i) \<or> f64_less (ss ! i) s" "\<not> f64_less s (ss ! i)" if "i < length ss" for i
    using j [OF that] True by (auto simp: f64_less_def)
  ultimately show ?thesis using True assms
    by (auto simp: first_best_def nth_append less_Suc_eq f64_less_def)
next
  case False
  with assms show ?thesis by (auto simp: first_best_def nth_append less_Suc_eq)
qed

lemma best_from_first:
  assumes "first_best ss j"
  shows "best_from PM v (length ss) cs (j, ss ! j) = Inr r \<longleftrightarrow>
    (\<exists>ss'. rmap (cosine_similarity PM v) cs = Inr ss' \<and> first_best (ss @ ss') r)"
  using assms
proof (induction cs arbitrary: ss j)
  case Nil
  then show ?case using first_best_unique by auto
next
  case (Cons c cs)
  show ?case
  proof (cases "cosine_similarity PM v c")
    case (Inr s)
    let ?j = "if f64_less (ss ! j) s then length ss else j"
    have "j < length ss" using Cons.prems by (simp add: first_best_def)
    then have e: "(if f64_less (ss ! j) s then (length ss, s) else (j, ss ! j)) = (?j, (ss @ [s]) ! ?j)"
      by (simp add: nth_append)
    from Cons.IH [OF first_best_snoc [OF Cons.prems, of s]] Inr show ?thesis
      by (auto simp: e rbind_Inr_iff)
  qed simp
qed

lemma nearest_iff: "nearest_centroid PM cs v = Inr j \<longleftrightarrow> nearest_to PM cs v j"
proof (cases cs)
  case (Cons c cs')
  show ?thesis
  proof (cases "cosine_similarity PM v c")
    case (Inr s)
    have "first_best [s] 0" by (simp add: first_best_def f64_less_def)
    from best_from_first [OF this, of PM v cs' j] Inr show ?thesis
      by (auto simp: Cons nearest_centroid_def nearest_to_def rbind_Inr_iff split: sum.splits)
  qed (simp add: Cons nearest_centroid_def nearest_to_def)
qed (simp add: nearest_centroid_def nearest_to_def first_best_def)

lemma assign_clusters_spec:
  assumes "assign_clusters PM cs vec xs cl = Inr cl'" "length cs \<le> length cl"
  shows "length cl' = length cl \<and>
    (\<forall>j < length cl. cl' ! j = cl ! j @ filter (\<lambda>x. nearest_centroid PM cs (vec x) = Inr j) xs) \<and>
    (\<forall>x \<in> set xs. \<exists>j < length cs. nearest_centroid PM cs (vec x) = Inr j)"
  using assms
proof (induction xs arbitrary: cl)
  case (Cons x xs)
  then obtain b where b: "nearest_centroid PM cs (vec x) = Inr b"
    "assign_clusters PM cs vec xs (cl[b := cl ! b @ [x]]) = Inr cl'" by (auto simp: rbind_Inr_iff)
  have "b < length cs" by (rule nearest_index [OF b(1)])
  with Cons.IH [OF b(2)] Cons.prems(2) b(1) show ?case by (auto simp: nth_list_update)
qed simp

lemma rmap_length: "rmap f xs = Inr ys \<Longrightarrow> length ys = length xs"
  by (induction xs arbitrary: ys) (auto simp: rbind_Inr_iff)

lemma train_loop_length: "train_loop PM n vs dim cs = Inr cs' \<Longrightarrow> length cs' = length cs"
proof (induction n arbitrary: cs)
  case (Suc n)
  then obtain cl cs1 where c: "assign_clusters PM cs id vs (replicate (length cs) []) = Inr cl"
    "update_centroids PM dim cl cs = Inr cs1" "train_loop PM n vs dim cs1 = Inr cs'" by (auto simp: rbind_Inr_iff)
  have "length cl = length cs" using assign_clusters_spec [OF c(1)] by simp
  then have "length cs1 = length cs" using rmap_length c(2) by (fastforce simp: update_centroids_def)
  then show ?case using Suc.IH [OF c(3)] by simp
qed simp

lemma train_result_spec:
  assumes "train_result PM n it vectors = Inr (Some (cs, cl))" "length (pm_sample PM (length vectors) (nat n)) = nat n"
  shows "length cs = nat n \<and> length cl = nat n \<and>
    (\<forall>j < nat n. cl ! j = map fst (filter (\<lambda>(i, v). nearest_centroid PM cs v = Inr j) vectors)) \<and>
    (\<forall>(i, v) \<in> set vectors. \<exists>j < nat n. nearest_centroid PM cs v = Inr j)"
proof -
  let ?start = "map (\<lambda>i. map snd vectors ! i) (pm_sample PM (length vectors) (nat n))"
  obtain c rest ids where r: "?start = c # rest" "train_loop PM (nat it) (map snd vectors) (length c) ?start = Inr cs"
    "assign_clusters PM cs snd vectors (replicate (nat n) []) = Inr ids" "cl = map (map fst) ids"
    using assms(1) by (auto simp: train_result_def Let_def rbind_Inr_iff split: if_splits list.splits)
  have l: "length cs = nat n" using train_loop_length [OF r(2)] assms(2) by simp
  from assign_clusters_spec [OF r(3)] l r(4) show ?thesis by (auto simp: split_def)
qed

text \<open>Every vector is in one cluster, so the clusters hold every id once.\<close>

lemma partition_mset:
  assumes "\<forall>x \<in> set xs. \<exists>j < k. g x = Inr j"
  shows "mset (concat (map (\<lambda>j. filter (\<lambda>x. g x = Inr j) xs) [0..<k])) = mset xs"
  using assms
proof (induction xs)
  case Nil
  have "concat (map (\<lambda>j. []) [0..<k]) = []" by simp
  then show ?case by simp
next
  case (Cons x xs)
  obtain j where j: "j < k" "g x = Inr j" using Cons.prems by auto
  have "mset (concat (map (\<lambda>i. filter (\<lambda>x. g x = Inr i) (x # xs)) [0..<m])) =
      mset (concat (map (\<lambda>i. filter (\<lambda>x. g x = Inr i) xs) [0..<m])) + (if j < m then {#x#} else {#})" for m
    by (induction m) (auto simp: j(2) less_Suc_eq)
  from this [of k] show ?case using Cons j(1) by simp
qed


section \<open>Stored vectors\<close>

text \<open>The vector of the singles next to its coordinates.\<close>

definition single_vec :: "f64 list \<Rightarrow> f64 list" where
  "single_vec v = map (\<lambda>w. case f64_to_f32 w of Inl e \<Rightarrow> 0 | Inr s \<Rightarrow> f32_to_f64 s) v"

lemma read_floats_concat: "read_floats (length ws) (concat (map (\<lambda>w. be_bytes 4 (unat w)) ws)) = map f32_to_f64 ws"
proof (induction ws)
  case (Cons w ws)
  have "unat w < 256 ^ 4" using unsigned_less [of w] by simp
  then have "be_val (be_bytes 4 (unat w)) = unat w" by (rule be_val_be_bytes)
  with Cons show ?case by simp
qed simp

lemma unpack_pack: "pack_floats v = Inr b \<Longrightarrow> unpack_floats b = Inr (single_vec v)"
proof -
  assume "pack_floats v = Inr b"
  then obtain ws where ws: "rmap f64_to_f32 v = Inr ws" "b = concat (map (\<lambda>w. be_bytes 4 (unat w)) ws)"
    by (auto simp: pack_floats_def rbind_Inr_iff)
  have l: "length b = 4 * length ws" unfolding ws(2) by (induction ws) simp_all
  have "map f32_to_f64 ws = single_vec v" using ws(1)
    by (induction v arbitrary: ws) (auto simp: single_vec_def rbind_Inr_iff)
  then show ?thesis using read_floats_concat [of ws] by (simp add: unpack_floats_def l flip: ws(2))
qed

type_synonym vec_map = "bytes \<rightharpoonup> f64 list \<times> json"

definition meta_root :: "bytes \<Rightarrow> bytes" where
  "meta_root ns = ''__VMETA__:'' @ ns @ '':''"

lemma vec_keys: "vec_key ns i = vec_prefix ns @ i" "meta_key ns i = meta_root ns @ i"
  by (simp_all add: vec_key_def vec_prefix_def meta_key_def meta_root_def)

lemma vec_apart [simp]: "vec_prefix ns @ x \<noteq> meta_root ms @ y" "meta_root ms @ y \<noteq> vec_prefix ns @ x"
  "vec_prefix ns \<noteq> meta_root ms" "meta_root ms \<noteq> vec_prefix ns"
  by (simp_all add: vec_prefix_def meta_root_def)

text \<open>The entry of an id: the bytes of the vector and of the metadata.\<close>

definition vec_entry :: "bytes option \<Rightarrow> bytes option \<Rightarrow> (f64 list \<times> json) option \<Rightarrow> bool" where
  "vec_entry raw meta x \<longleftrightarrow> (case x of
      None \<Rightarrow> raw = None \<and> meta = None
    | Some (v, md) \<Rightarrow> (\<exists>b. raw = Some b \<and> unpack_floats b = Inr v) \<and> load_meta meta = Inr md)"

definition vec_inv :: "(bytes \<rightharpoonup> bytes) \<Rightarrow> bytes \<Rightarrow> vec_map \<Rightarrow> bool" where
  "vec_inv f ns m \<longleftrightarrow> (\<forall>i. vec_entry (f (vec_prefix ns @ i)) (f (meta_root ns @ i)) (m i))"

lemma vec_inv_update:
  "vec_inv f ns m \<Longrightarrow> vec_entry (f' (vec_prefix ns @ i)) (f' (meta_root ns @ i)) x \<Longrightarrow>
   (\<And>j. j \<noteq> i \<Longrightarrow> f' (vec_prefix ns @ j) = f (vec_prefix ns @ j) \<and> f' (meta_root ns @ j) = f (meta_root ns @ j)) \<Longrightarrow>
   vec_inv f' ns (m(i := x))"
  by (simp add: vec_inv_def)

definition vec_frame :: "bytes \<Rightarrow> (bytes \<rightharpoonup> bytes) \<Rightarrow> (bytes \<rightharpoonup> bytes) \<Rightarrow> bool" where
  "vec_frame ns f f' \<longleftrightarrow> (\<forall>k. \<not> startswith k (vec_prefix ns) \<longrightarrow> \<not> startswith k (meta_root ns) \<longrightarrow> f' k = f k)"

lemma vec_frame_refl [simp]: "vec_frame ns f f"
  and vec_frame_trans: "vec_frame ns f g \<Longrightarrow> vec_frame ns g h \<Longrightarrow> vec_frame ns f h"
  by (auto simp: vec_frame_def)

lemma vec_frame_keys [simp]: "vec_frame ns f (f(vec_prefix ns @ i := a))" "vec_frame ns f (f(vec_prefix ns @ i := a, meta_root ns @ i := b))"
  by (auto simp: vec_frame_def)

lemma rest_vecs: "rest_repr H (V0 :: vecs) V f n \<Longrightarrow> v_namespace V = v_namespace V0 \<and> v_dimension V = v_dimension V0 \<and>
    v_centroids V = v_centroids V0 \<and> v_clusters V = v_clusters V0"
  by (cases V; cases V0) (simp add: rest_repr_def db.defs vecs.defs)

datatype vec_op = VInsert bytes "f64 list" json | VGet bytes | VDelete bytes

datatype vec_reply = VDone | VBool bool | VFound "(f64 list \<times> json) option"

fun vec_call :: "host \<Rightarrow> vec_op \<Rightarrow> (vecs, vec_reply) pym" where
  "vec_call H (VInsert i v md) = sq (vec_insert H i v md) (ret VDone)"
| "vec_call H (VGet i) = bnd (vec_get H i) (\<lambda>r. ret (VFound r))"
| "vec_call H (VDelete i) = bnd (vec_delete H i) (\<lambda>b. ret (VBool b))"

definition new_meta :: "json \<Rightarrow> (f64 list \<times> json) option \<Rightarrow> json" where
  "new_meta md old = (if truthy md then md else case old of None \<Rightarrow> JObj [] | Some (v, md0) \<Rightarrow> md0)"

fun vec_spec :: "vec_op \<Rightarrow> vec_map \<Rightarrow> vec_reply \<times> vec_map" where
  "vec_spec (VInsert i v md) m = (VDone, m(i \<mapsto> (single_vec v, new_meta md (m i))))"
| "vec_spec (VGet i) m = (VFound (m i), m)"
| "vec_spec (VDelete i) m = (VBool (m i \<noteq> None), m(i := None))"

fun vec_cost :: "vec_op \<Rightarrow> nat" where
  "vec_cost (VGet i) = 0"
| "vec_cost _ = 2"

fun vec_op_ok :: "bytes \<Rightarrow> nat \<Rightarrow> vec_op \<Rightarrow> bool" where
  "vec_op_ok ns dim (VInsert i v md) = (length v = dim \<and> (\<exists>b. pack_floats v = Inr b \<and> val_ok b) \<and> json_ok md \<and>
     val_ok (json_dumps md) \<and> length (meta_root ns @ i) \<le> 65535)"
| "vec_op_ok ns dim (VGet i) = True"
| "vec_op_ok ns dim (VDelete i) = (length (meta_root ns @ i) \<le> 65535)"

lemma vec_key_ok: "length (meta_root ns @ i) \<le> 65535 \<Longrightarrow> key_ok (vec_prefix ns @ i) \<and> key_ok (meta_root ns @ i)"
  by (simp add: key_ok_def vec_prefix_def meta_root_def)

lemma wp_vec_get:
  assumes r: "rest_repr H V0 V f n" and inv: "vec_inv f (v_namespace V0) m" and Q: "Q (m i) V"
  shows "wp (vec_get H i) Q V"
proof -
  have ns: "v_namespace V = v_namespace V0" using rest_vecs [OF r] by simp
  let ?f = "\<lambda>k. f (k @ i)"
  have e: "vec_entry (f (vec_prefix (v_namespace V0) @ i)) (f (meta_root (v_namespace V0) @ i)) (m i)" using inv by (simp add: vec_inv_def)
  show ?thesis unfolding vec_get_def wp_simps ns vec_keys
  proof (rule rest_get [OF r], cases "m i")
    case None
    with e Q show "wp (case f (vec_prefix (v_namespace V0) @ i) of None \<Rightarrow> ret None
      | Some b \<Rightarrow> bnd (lift_res (unpack_floats b)) (\<lambda>vector. bnd (db_get H (meta_root (v_namespace V0) @ i)) (\<lambda>meta_raw.
         bnd (lift_res (load_meta meta_raw)) (\<lambda>metadata. ret (Some (vector, metadata)))))) Q V"
      by (simp add: vec_entry_def)
  next
    case (Some x)
    then obtain v md where x: "m i = Some (v, md)" by (cases x) auto
    with e obtain b where b: "f (vec_prefix (v_namespace V0) @ i) = Some b" "unpack_floats b = Inr v"
      "load_meta (f (meta_root (v_namespace V0) @ i)) = Inr md" by (auto simp: vec_entry_def)
    have "wp (db_get H (meta_root (v_namespace V0) @ i)) (\<lambda>raw. wp (bnd (lift_res (load_meta raw)) (\<lambda>metadata. ret (Some (v, metadata)))) Q) V"
      by (rule rest_get [OF r]) (use Q b(3) x in simp)
    then show "wp (case f (vec_prefix (v_namespace V0) @ i) of None \<Rightarrow> ret None
      | Some b \<Rightarrow> bnd (lift_res (unpack_floats b)) (\<lambda>vector. bnd (db_get H (meta_root (v_namespace V0) @ i)) (\<lambda>meta_raw.
         bnd (lift_res (load_meta meta_raw)) (\<lambda>metadata. ret (Some (vector, metadata)))))) Q V"
      by (simp add: b(1,2))
  qed
qed


lemma load_dumped: "json_ok md \<Longrightarrow> load_meta (Some (json_dumps md)) = Inr md"
  using json_dumps_head [of md] json_roundtrip [of md] dumps_valid [of md]
  by (simp add: load_meta_def decode_json_def py_decode_def)

lemma wp_vec_insert:
  assumes r: "rest_repr H V0 V f (n + 2)" and inv: "vec_inv f (v_namespace V0) m" and dim: "v_dimension V0 = Some (length v)"
    and ok: "pack_floats v = Inr b" "val_ok b" "json_ok md" "val_ok (json_dumps md)" "length (meta_root (v_namespace V0) @ i) \<le> 65535"
    and Q: "\<And>V' f'. rest_repr H V0 V' f' n \<Longrightarrow> vec_inv f' (v_namespace V0) (m(i \<mapsto> (single_vec v, new_meta md (m i)))) \<Longrightarrow>
      vec_frame (v_namespace V0) f f' \<Longrightarrow> Q () V'"
  shows "wp (vec_insert H i v md) Q V"
proof -
  let ?ns = "v_namespace V0"
  have st: "v_namespace V = ?ns" "v_dimension V = Some (length v)" using rest_vecs [OF r] dim by simp_all
  have r2: "rest_repr H V0 V f (Suc (Suc n))" using r by simp
  note k = vec_key_ok [OF ok(5)]
  note u = unpack_pack [OF ok(1)]
  have old: "vec_entry (f (vec_prefix ?ns @ i)) (f (meta_root ?ns @ i)) (m i)" using inv by (simp add: vec_inv_def)
  have "wp (db_put H (vec_prefix ?ns @ i) b) (\<lambda>_. wp (if truthy md then db_put H (meta_root ?ns @ i) (json_dumps md) else ret ()) Q) V"
  proof (rule rest.wp_put [OF r2 _ ok(2)])
    show "key_ok (vec_prefix ?ns @ i)" using k by simp
    fix V1 assume V1: "rest_repr H V0 V1 (f(vec_prefix ?ns @ i \<mapsto> b)) (Suc n)"
    show "wp (if truthy md then db_put H (meta_root ?ns @ i) (json_dumps md) else ret ()) Q V1"
    proof (cases "truthy md")
      case True
      have "vec_inv (f(vec_prefix ?ns @ i \<mapsto> b, meta_root ?ns @ i \<mapsto> json_dumps md)) ?ns (m(i \<mapsto> (single_vec v, new_meta md (m i))))"
        using u load_dumped [OF ok(3)] True by (intro vec_inv_update [OF inv]) (simp_all add: vec_entry_def new_meta_def)
      then have "wp (db_put H (meta_root ?ns @ i) (json_dumps md)) Q V1"
        using k Q by (intro rest.wp_put [OF V1 _ ok(4)]) auto
      then show ?thesis using True by simp
    next
      case False
      have "load_meta (f (meta_root ?ns @ i)) = Inr (new_meta md (m i))"
        using old False by (auto simp: vec_entry_def new_meta_def load_meta_def split: option.splits)
      then have "vec_inv (f(vec_prefix ?ns @ i \<mapsto> b)) ?ns (m(i \<mapsto> (single_vec v, new_meta md (m i))))"
        using u by (intro vec_inv_update [OF inv]) (simp_all add: vec_entry_def)
      then show ?thesis using False Q [of V1] rest.less_room [OF V1] by simp
    qed
  qed
  then show ?thesis by (simp add: vec_insert_def st ok(1) vec_keys del: wp_simps(6)) (simp add: st vec_keys split: if_splits)
qed

lemma wp_vec_delete:
  assumes r: "rest_repr H V0 V f (n + 2)" and inv: "vec_inv f (v_namespace V0) m" and ok: "length (meta_root (v_namespace V0) @ i) \<le> 65535"
    and Q: "\<And>V' f'. rest_repr H V0 V' f' n \<Longrightarrow> vec_inv f' (v_namespace V0) (m(i := None)) \<Longrightarrow>
      vec_frame (v_namespace V0) f f' \<Longrightarrow> Q (m i \<noteq> None) V'"
  shows "wp (vec_delete H i) Q V"
proof -
  let ?ns = "v_namespace V0"
  have ns: "v_namespace V = ?ns" using rest_vecs [OF r] by simp
  have r2: "rest_repr H V0 V f (Suc (Suc n))" using r by simp
  have e: "vec_entry (f (vec_prefix ?ns @ i)) (f (meta_root ?ns @ i)) (m i)" using inv by (simp add: vec_inv_def)
  show ?thesis unfolding vec_delete_def wp_simps ns vec_keys
  proof (rule rest_get [OF r], cases "m i")
    case None
    then have "m(i := None) = m" by auto
    then show "wp (if f (vec_prefix ?ns @ i) = None then ret False
        else sq (db_del H (vec_prefix ?ns @ i)) (sq (db_del H (meta_root ?ns @ i)) (ret True))) Q V"
      using None e Q [of V f] inv rest.room_le [OF r] by (simp add: vec_entry_def)
  next
    case (Some x)
    then obtain b where f: "f (vec_prefix ?ns @ i) = Some b" using e by (auto simp: vec_entry_def)
    have inv': "vec_inv (f(vec_prefix ?ns @ i := None, meta_root ?ns @ i := None)) ?ns (m(i := None))"
      by (intro vec_inv_update [OF inv]) (simp_all add: vec_entry_def)
    have "wp (sq (db_del H (vec_prefix ?ns @ i)) (sq (db_del H (meta_root ?ns @ i)) (ret True))) Q V"
      unfolding wp_simps
      by (rule rest.wp_del [OF r2], use vec_key_ok [OF ok] in simp, rule rest.wp_del, assumption)
        (use vec_key_ok [OF ok] inv' Q Some in auto)
    then show "wp (if f (vec_prefix ?ns @ i) = None then ret False
        else sq (db_del H (vec_prefix ?ns @ i)) (sq (db_del H (meta_root ?ns @ i)) (ret True))) Q V"
      by (simp add: f)
  qed
qed


definition vec_holds :: "bytes \<Rightarrow> (bytes \<rightharpoonup> bytes) \<Rightarrow> vec_map \<Rightarrow> nat \<Rightarrow> bool" where
  "vec_holds ns f m n \<longleftrightarrow> vec_inv f ns m"

lemma vec_step:
  assumes r: "rest_repr H V0 V f (n + vec_cost op)" and inv: "vec_holds (v_namespace V0) f m (n + vec_cost op)"
    and ok: "vec_op_ok (v_namespace V0) dim op \<and> v_dimension V0 = Some dim"
  shows "wp (vec_call H op) (\<lambda>x V'. x = fst (vec_spec op m) \<and> (\<exists>f'. rest_repr H V0 V' f' n \<and>
     vec_holds (v_namespace V0) f' (snd (vec_spec op m)) n \<and> vec_frame (v_namespace V0) f f')) V"
proof (cases op)
  case (VInsert i v md)
  then obtain b where b: "pack_floats v = Inr b" "val_ok b" "json_ok md" "val_ok (json_dumps md)" "length (meta_root (v_namespace V0) @ i) \<le> 65535"
    "v_dimension V0 = Some (length v)" using ok by auto
  show ?thesis unfolding VInsert vec_call.simps wp_simps
    by (rule wp_vec_insert [OF r [unfolded VInsert vec_cost.simps] inv [unfolded vec_holds_def] b(6,1-5)]) (auto simp: vec_holds_def)
next
  case (VGet i)
  show ?thesis unfolding VGet vec_call.simps wp_simps
    by (rule wp_vec_get [OF r inv [unfolded vec_holds_def]]) (use r inv VGet in \<open>auto simp: vec_holds_def intro!: exI [of _ f]\<close>)
next
  case (VDelete i)
  then have "length (meta_root (v_namespace V0) @ i) \<le> 65535" using ok by simp
  then show ?thesis unfolding VDelete vec_call.simps wp_simps
    by (rule wp_vec_delete [OF r [unfolded VDelete vec_cost.simps] inv [unfolded vec_holds_def]]) (auto simp: vec_holds_def)
qed

interpretation vectors: store_commands "rest_repr H V0" "db_put H" "db_del H" "db_read H" db_scan "vec_call H" vec_spec vec_cost
    "\<lambda>op. vec_op_ok (v_namespace V0) dim op \<and> v_dimension V0 = Some dim" "vec_holds (v_namespace V0)" "vec_frame (v_namespace V0)" for H V0 dim
  by standard (use vec_step vec_frame_trans in \<open>auto simp only: vec_frame_refl\<close>)

text \<open>
  C29. A client that inserts, reads and deletes vectors of the dimension of the index, in any order,
  gets what a map from ids to vectors and metadata would give, where a stored vector is rounded
  to singles, and an insert without metadata keeps the metadata the id had. Nothing outside the
  namespace changes.
\<close>

theorem vec_refines:
  assumes "rest_repr H V0 V f (n + run_cost vec_cost ops)" "vec_inv f (v_namespace V0) m" "v_dimension V0 = Some dim"
    "list_all (vec_op_ok (v_namespace V0) dim) ops"
  shows "\<exists>V' f'. map_m (vec_call H) ops V = (Inr (fst (run_spec vec_spec ops m)), V') \<and> rest_repr H V0 V' f' n \<and>
     vec_inv f' (v_namespace V0) (snd (run_spec vec_spec ops m)) \<and> vec_frame (v_namespace V0) f f'"
  using vectors.run [of H V0 V f n ops m dim] assms by (simp add: vec_holds_def list_all_iff)


section \<open>Reading all vectors\<close>

lemma vec_inv_dom: "vec_inv f ns m \<Longrightarrow> f (vec_prefix ns @ i) = None \<longleftrightarrow> m i = None"
proof -
  assume "vec_inv f ns m"
  then have "vec_entry (f (vec_prefix ns @ i)) (f (meta_root ns @ i)) (m i)" by (simp add: vec_inv_def)
  then show ?thesis by (cases "m i") (auto simp: vec_entry_def)
qed

lemma vec_entries:
  assumes r: "rest_repr H V0 V f n" and inv: "vec_inv f ns m"
    and Q: "\<And>xs. map fst xs = sorted_list_of_set (dom m) \<Longrightarrow>
      \<forall>(i, b) \<in> set xs. \<exists>v md. m i = Some (v, md) \<and> unpack_floats b = Inr v \<and> load_meta (f (meta_root ns @ i)) = Inr md \<Longrightarrow>
      Q (map (\<lambda>(i, b). (vec_prefix ns @ i, b)) xs) V"
  shows "wp (db_prefix (vec_prefix ns)) Q V"
proof (rule rest_entries [OF r])
  fix xs assume xs: "strict_keys xs" "map_of xs = (\<lambda>x. f (vec_prefix ns @ x))"
  have e: "vec_entry (map_of xs i) (f (meta_root ns @ i)) (m i)" for i using inv by (simp add: vec_inv_def xs(2))
  have d: "dom (map_of xs) = dom m" using vec_inv_dom [OF inv] by (simp add: dom_def xs(2))
  have "\<exists>v md. m i = Some (v, md) \<and> unpack_floats b = Inr v \<and> load_meta (f (meta_root ns @ i)) = Inr md" if "(i, b) \<in> set xs" for i b
  proof -
    have "map_of xs i = Some b" using strict_keys_distinct [OF xs(1)] that by simp
    then show ?thesis using e [of i] by (auto simp: vec_entry_def split: option.splits)
  qed
  moreover have "map fst xs = sorted_list_of_set (dom m)" using strict_sorted_entries(2) [OF xs(1) refl] d by simp
  ultimately show "Q (map (\<lambda>(x, v). (vec_prefix ns @ x, v)) xs) V" by (intro Q) blast+
qed

lemma vec_dom_finite: "rest_repr H V0 V f n \<Longrightarrow> vec_inv f ns m \<Longrightarrow> finite (dom m)"
proof -
  assume r: "rest_repr H V0 V f n" "vec_inv f ns m"
  have "wp (db_prefix (vec_prefix ns)) (\<lambda>_ _. finite (dom m)) V"
  proof (rule rest_entries [OF r(1)])
    fix xs assume xs: "map_of xs = (\<lambda>x. f (vec_prefix ns @ x))"
    then have "dom m = dom (map_of xs)" using vec_inv_dom [OF r(2)] by (simp add: dom_def)
    then show "finite (dom m)" by (simp add: finite_dom_map_of)
  qed
  then show ?thesis by (auto elim: wpE)
qed

section \<open>Exact search\<close>

interpretation by_score: key_order "\<lambda>x y. Inr (score_less (fst x) (fst y))" "\<lambda>x. num_of (fst x)" "{x. numeric (fst x)}"
proof
  fix x y :: "json \<times> 'a" assume "x \<in> {x. numeric (fst x)}" "y \<in> {x. numeric (fst x)}"
  then show "Inr (score_less (fst x) (fst y)) = Inr (num_of (fst x) < num_of (fst y))"
    by (auto simp: numeric_def num_of_def score_less_def num_less_order split: option.splits)
qed

definition ranked :: "bytes \<Rightarrow> candidate list \<Rightarrow> candidate list" where
  "ranked metric cs = (if metric = ''cosine'' \<or> metric = ''dot'' then rev (sort_key (\<lambda>c. num_of (fst c)) (rev cs))
     else sort_key (\<lambda>c. num_of (fst c)) cs)"

lemma wp_search_entries:
  assumes r: "rest_repr H V0 V f n"
  shows "\<forall>(i, b) \<in> set xs. utf8_valid i \<and> (\<exists>v md. unpack_floats b = Inr v \<and> load_meta (f (meta_root ns @ i)) = Inr md \<and>
      score_candidate PM q i v md = Inr (sc i)) \<Longrightarrow>
    wp (search_entries H PM q ns (map (\<lambda>(i, b). (vec_prefix ns @ i, b)) xs)) (\<lambda>cs V'. V' = V \<and> cs = List.map_filter sc (map fst xs)) V"
proof (induction xs)
  case (Cons e xs)
  obtain i b where e: "e = (i, b)" by fastforce
  obtain v md where v: "utf8_valid i" "unpack_floats b = Inr v" "load_meta (f (meta_root ns @ i)) = Inr md" "score_candidate PM q i v md = Inr (sc i)"
    using Cons.prems by (auto simp: e)
  have "wp (search_entries H PM q ns (map (\<lambda>(i, b). (vec_prefix ns @ i, b)) xs)) (\<lambda>cs V'. V' = V \<and> cs = List.map_filter sc (map fst xs)) V"
    using Cons by simp
  then have s: "wp (bnd (search_entries H PM q ns (map (\<lambda>(i, b). (vec_prefix ns @ i, b)) xs)) (\<lambda>cs. ret (add_candidate (sc i) cs)))
      (\<lambda>cs V'. V' = V \<and> cs = List.map_filter sc (map fst (e # xs))) V"
    unfolding wp_simps by (rule wp_mono) (auto simp: e add_candidate_def List.map_filter_simps split: option.split)
  have "wp (db_get H (meta_root ns @ i)) (\<lambda>raw. wp (bnd (lift_res (load_meta raw)) (\<lambda>meta. bnd (lift_res (score_candidate PM q i v meta)) (\<lambda>c.
      bnd (search_entries H PM q ns (map (\<lambda>(i, b). (vec_prefix ns @ i, b)) xs)) (\<lambda>cs. ret (add_candidate c cs)))))
      (\<lambda>cs V'. V' = V \<and> cs = List.map_filter sc (map fst (e # xs)))) V"
    by (intro rest_get [OF r]) (use s in \<open>simp only: wp_simps(4,5) v\<close>)
  then show ?case by (simp add: e decode_vec_def py_decode_def v vec_keys)
qed (simp add: List.map_filter_simps)

text \<open>
  C30. A search that does not go through trained clusters is exact: its results are the first
  \<open>top_k\<close> of all stored vectors that pass the metadata filter, in a stable sort by score, highest
  first for cosine and dot product and lowest first for the euclidean distance.
\<close>

theorem vec_search_exact:
  assumes "rest_repr H V0 V f n" "vec_inv f (v_namespace V0) m"
    and "v_centroids V = [] \<or> int (length (v_centroids V)) < vq_n_probe q"
    and scores: "\<And>i v md. m i = Some (v, md) \<Longrightarrow> utf8_valid i \<and> score_candidate PM q i v md = Inr (sc i)"
    and numeric: "\<And>i c. m i \<noteq> None \<Longrightarrow> sc i = Some c \<Longrightarrow> numeric (fst c)"
  shows "vec_search H PM q V =
     (Inr (map vec_result (py_slice_int (ranked (vq_metric q) (List.map_filter sc (sorted_list_of_set (dom m)))) 0 (vq_top_k q))), V)"
proof -
  let ?ns = "v_namespace V0" and ?cs = "List.map_filter sc (sorted_list_of_set (dom m))"
  have ns: "v_namespace V = ?ns" using rest_vecs [OF assms(1)] by simp
  have "wp (db_prefix (vec_prefix ?ns)) (\<lambda>es. wp (search_entries H PM q ?ns es) (\<lambda>cs V'. V' = V \<and> cs = ?cs \<and> finite (dom m))) V"
  proof (rule vec_entries [OF assms(1,2)])
    fix xs assume k: "map fst xs = sorted_list_of_set (dom m)"
      and xs: "\<forall>(i, b) \<in> set xs. \<exists>v md. m i = Some (v, md) \<and> unpack_floats b = Inr v \<and> load_meta (f (meta_root ?ns @ i)) = Inr md"
    have "\<forall>(i, b) \<in> set xs. utf8_valid i \<and> (\<exists>v md. unpack_floats b = Inr v \<and> load_meta (f (meta_root ?ns @ i)) = Inr md \<and>
      score_candidate PM q i v md = Inr (sc i))" using xs scores by fastforce
    from wp_search_entries [OF assms(1) this] show "wp (search_entries H PM q ?ns (map (\<lambda>(i, b). (vec_prefix ?ns @ i, b)) xs))
        (\<lambda>cs V'. V' = V \<and> cs = ?cs \<and> finite (dom m)) V"
      unfolding k using vec_dom_finite [OF assms(1,2)] by (auto elim!: wp_mono)
  qed
  then have c: "vec_candidates H PM q V = (Inr ?cs, V)" and fin: "finite (dom m)"
    using assms(3) ns by (auto simp: vec_candidates_def wp_def bnd_def gets_def split: prod.splits sum.splits)
  have "set ?cs \<subseteq> {x. numeric (fst x)}"
  proof
    fix c assume "c \<in> set ?cs"
    then obtain i where "i \<in> dom m" "sc i = Some c" using fin by (force simp: List.map_filter_def)
    with numeric [of i c] show "c \<in> {x. numeric (fst x)}" by auto
  qed
  from by_score.sorts [OF this] have "sort_scores (vq_metric q = ''cosine'' \<or> vq_metric q = ''dot'') ?cs = Inr (ranked (vq_metric q) ?cs)"
    unfolding sort_scores_def ranked_def by simp
  then show ?thesis by (simp add: vec_search_def bnd_def c pym_simps)
qed

section \<open>Trained clusters\<close>

lemma decode_vecs:
  "\<forall>(i, b) \<in> set xs. utf8_valid i \<and> (\<exists>v. unpack_floats b = Inr v \<and> vec i = v) \<Longrightarrow>
   rmap (decode_vec p) (map (\<lambda>(i, b). (p @ i, b)) xs) = Inr (map (\<lambda>i. (i, vec i)) (map fst xs))"
  by (induction xs) (auto simp: decode_vec_def py_decode_def)

lemma filter_map_pairs: "map fst (filter (\<lambda>(i, v). P i v) (map (\<lambda>i. (i, g i)) xs)) = filter (\<lambda>i. P i (g i)) xs"
  by (induction xs) auto

lemma stored_vectors:
  assumes "rest_repr H V0 V f n" "vec_inv f ns m" and ids: "\<And>i. m i \<noteq> None \<Longrightarrow> utf8_valid i"
  shows "\<exists>es. db_prefix (vec_prefix ns) V = (Inr es, V) \<and>
    rmap (decode_vec (vec_prefix ns)) es = Inr (map (\<lambda>i. (i, fst (the (m i)))) (sorted_list_of_set (dom m)))"
proof -
  let ?ids = "sorted_list_of_set (dom m)"
  let ?vs = "map (\<lambda>i. (i, fst (the (m i)))) ?ids"
  have "wp (db_prefix (vec_prefix ns)) (\<lambda>es W. W = V \<and> rmap (decode_vec (vec_prefix ns)) es = Inr ?vs) V"
  proof (rule vec_entries [OF assms(1,2)])
    fix xs assume x: "map fst xs = ?ids" "\<forall>(i, b) \<in> set xs. \<exists>v md. m i = Some (v, md) \<and> unpack_floats b = Inr v \<and> load_meta (f (meta_root ns @ i)) = Inr md"
    have "\<forall>(i, b) \<in> set xs. utf8_valid i \<and> (\<exists>v. unpack_floats b = Inr v \<and> fst (the (m i)) = v)"
      using x(2) ids by fastforce
    from decode_vecs [OF this, of "vec_prefix ns"] x(1)
    show "V = V \<and> rmap (decode_vec (vec_prefix ns)) (map (\<lambda>(i, b). (vec_prefix ns @ i, b)) xs) = Inr ?vs" by simp
  qed
  then show ?thesis by (auto elim: wpE)
qed

text \<open>
  C31. After a training that returns, every stored id is in exactly one cluster, the one of the
  first centroid with the greatest cosine similarity to its vector (\<open>nearest_to\<close>, stated of the
  list of all similarities), the clusters list their ids in key order, and there are as many
  centroids and clusters as were asked for, which is no more than there are vectors.
\<close>

theorem vec_train_partitions:
  assumes "rest_repr H V0 V f n" "vec_inv f (v_namespace V0) m"
    and ids: "\<And>i. m i \<noteq> None \<Longrightarrow> utf8_valid i"
    and sample: "length (pm_sample PM (card (dom m)) (nat k)) = nat k" "k \<le> int (card (dom m))"
    and run: "train_ivf PM k iters V = (Inr (), V')"
  shows "length (v_centroids V') = nat k \<and>
    v_clusters V' = map (\<lambda>j. (j, filter (\<lambda>i. nearest_to PM (v_centroids V') (fst (the (m i))) j)
      (sorted_list_of_set (dom m)))) [0..<nat k] \<and>
    mset (concat (map snd (v_clusters V'))) = mset_set (dom m)"
proof -
  let ?ns = "v_namespace V0" and ?ids = "sorted_list_of_set (dom m)"
  let ?vs = "map (\<lambda>i. (i, fst (the (m i)))) ?ids"
  have ns: "v_namespace V = ?ns" using rest_vecs [OF assms(1)] by simp
  have fin: "finite (dom m)" by (rule vec_dom_finite [OF assms(1,2)])
  obtain es where es: "db_prefix (vec_prefix ?ns) V = (Inr es, V)" "rmap (decode_vec (vec_prefix ?ns)) es = Inr ?vs"
    using stored_vectors [OF assms(1,2) ids] by blast
  have len: "length ?vs = card (dom m)" by simp
  obtain cs cl where r: "train_result PM k iters ?vs = Inr (Some (cs, cl))"
      "V' = V\<lparr>v_centroids := cs, v_clusters := zip [0..<length cl] cl\<rparr>"
    using run sample(2) ns es len
    by (auto simp: train_ivf_def bnd_def gets_def lift_res_def ret_def train_result_def Let_def rbind_Inr_iff
        split: sum.splits option.splits if_splits list.splits)
  note t = train_result_spec [OF r(1)]
  have t: "length cs = nat k" "length cl = nat k"
      "\<forall>j < nat k. cl ! j = filter (\<lambda>i. nearest_centroid PM cs (fst (the (m i))) = Inr j) ?ids"
      "\<forall>i \<in> set ?ids. \<exists>j < nat k. nearest_centroid PM cs (fst (the (m i))) = Inr j"
    using t sample(1) by (auto simp: filter_map_pairs)
  have cl: "cl = map (\<lambda>j. filter (\<lambda>i. nearest_centroid PM cs (fst (the (m i))) = Inr j) ?ids) [0..<nat k]"
    by (rule nth_equalityI) (simp_all add: t)
  have z: "zip [0..<length cl] cl = map (\<lambda>j. (j, filter (\<lambda>i. nearest_centroid PM cs (fst (the (m i))) = Inr j) ?ids)) [0..<nat k]"
    by (rule nth_equalityI) (simp_all add: t)
  have "mset (concat cl) = mset_set (dom m)"
    unfolding cl partition_mset [OF t(4)] using fin mset_set_set [of ?ids] by simp
  then show ?thesis using t(1,2) z by (simp add: r(2) flip: cl nearest_iff) (simp add: cl comp_def)
qed

lemma insert_by_mset: "insert_by lt x xs = Inr ys \<Longrightarrow> mset ys = add_mset x (mset xs)"
  by (induction xs arbitrary: ys) (auto simp: rbind_Inr_iff split: if_splits)

lemma insertions_mset: "rfold (insert_by lt) xs acc = Inr ys \<Longrightarrow> mset ys = mset xs + mset acc"
  by (induction xs arbitrary: acc) (auto simp: rbind_Inr_iff insert_by_mset)

lemma py_sort_mset: "py_sort lt reverse xs = Inr ys \<Longrightarrow> mset ys = mset xs"
  by (auto simp: py_sort_def rbind_Inr_iff dest!: insertions_mset split: if_splits)

lemma set_slice_subset: "set (py_slice_int xs a b) \<subseteq> set xs"
  using set_take_subset set_drop_subset by (fastforce simp: py_slice_int_def py_slice_def)

lemma search_ids_in:
  "search_ids H PM q ids V = (Inr cs, V') \<Longrightarrow> set (map (fst \<circ> snd) cs) \<subseteq> set ids"
proof (induction ids arbitrary: V cs)
  case (Cons i ids)
  obtain r V1 where g: "vec_get H i V = (Inr r, V1)"
    using Cons.prems by (auto simp: bnd_def split: prod.splits sum.splits)
  show ?case
  proof (cases r)
    case None
    then show ?thesis using Cons.IH [of V1 cs] Cons.prems g by (auto simp: bnd_def)
  next
    case (Some x)
    obtain v md where x: "x = (v, md)" by fastforce
    obtain c cs1 where c: "score_candidate PM q i v md = Inr c" "search_ids H PM q ids V1 = (Inr cs1, V')" "cs = add_candidate c cs1"
      using Cons.prems g by (auto simp: Some x bnd_def lift_res_def ret_def split: prod.splits sum.splits)
    have "c = Some y \<Longrightarrow> fst (snd y) = i" for y
      using c(1) by (auto simp: score_candidate_def rbind_Inr_iff split: if_splits)
    then show ?thesis using Cons.IH [OF c(2)] by (auto simp: c(3) add_candidate_def split: option.splits)
  qed
qed (simp add: ret_def)

lemma probe_ids_in:
  assumes "probe_ids PM q cs cl = Inr ids" shows "set ids \<subseteq> set (concat (map snd cl))"
proof -
  have "map_of cl i = Some js \<Longrightarrow> x \<in> set js \<Longrightarrow> \<exists>c \<in> set cl. x \<in> set (snd c)" for i js x
    by (drule map_of_SomeD) force
  then show ?thesis using assms by (fastforce simp: probe_ids_def rbind_Inr_iff eq_commute [of "Some _"] split: option.splits)
qed

text \<open>
  A search through trained clusters only returns ids that are in some cluster: a vector inserted
  after training is not found until the index is trained again.
\<close>

theorem vec_ivf_sees_only_trained:
  assumes "v_centroids V \<noteq> []" "vq_n_probe q \<le> int (length (v_centroids V))"
    and "vec_search H PM q V = (Inr js, V')" "j \<in> set js"
  shows "\<exists>i s md. j = JObj [(''vector_id'', JStr i), (''score'', s), (''metadata'', md)] \<and>
    (\<exists>(c, ids) \<in> set (v_clusters V). i \<in> set ids)"
proof -
  obtain cs V1 ys where c: "vec_candidates H PM q V = (Inr cs, V1)"
      "sort_scores (vq_metric q = ''cosine'' \<or> vq_metric q = ''dot'') cs = Inr ys"
      "js = map vec_result (py_slice_int ys 0 (vq_top_k q))"
    using assms(3) by (auto simp: vec_search_def bnd_def lift_res_def ret_def split: prod.splits sum.splits)
  obtain y where y: "y \<in> set ys" "j = vec_result y"
    using assms(4) c(3) set_slice_subset [of ys 0 "vq_top_k q"] by auto
  have "y \<in> set cs" using y(1) mset_eq_setD [OF py_sort_mset [OF c(2) [unfolded sort_scores_def]]] by simp
  moreover obtain ids where i: "probe_ids PM q (v_centroids V) (v_clusters V) = Inr ids" "search_ids H PM q ids V = (Inr cs, V1)"
    using c(1) assms(1,2) by (auto simp: vec_candidates_def bnd_def gets_def lift_res_def split: sum.splits)
  ultimately have "fst (snd y) \<in> set ids" using search_ids_in [OF i(2)] by auto
  then have "fst (snd y) \<in> set (concat (map snd (v_clusters V)))" using probe_ids_in [OF i(1)] by blast
  then show ?thesis using y(2) by (force simp: vec_result_def split_def)
qed

section \<open>A concrete index\<close>

definition sample_math :: pymath where
  "sample_math = \<lparr>pm_sum = sum_plain, pm_log = (\<lambda>x. Inr x), pm_square = (\<lambda>x. Inr (f64_mul x x)), pm_sample = (\<lambda>n k. [0..<k])\<rparr>"

definition sample_vecs :: vecs where
  "sample_vecs = \<lparr>db_lsm = sample_tree, v_namespace = ''n'', v_dimension = Some 2, v_centroids = [], v_clusters = []\<rparr>"

lemma sample_vecs_repr: "n \<le> 40000000 \<Longrightarrow> rest_repr sample_host sample_vecs sample_vecs Map.empty n"
  by (simp add: rest_repr_def db_repr_def sample_vecs_def sample_repr)

lemma sample_vecs_empty: "vec_inv Map.empty (v_namespace sample_vecs) Map.empty" "v_dimension sample_vecs = Some 2"
  by (simp_all add: vec_inv_def vec_entry_def sample_vecs_def)

text \<open>The float 1, and what the operations give on it and on 0.\<close>

definition UNIT :: f64 where
  "UNIT = 4607182418800017408"

lemma unat_unit: "unat UNIT = 4607182418800017408"
  by (simp add: UNIT_def)

lemma unit_scaled: "f64_scaled UNIT = 2 ^ 1074" "f64_sign UNIT = 0" "f64_finite UNIT" "\<not> f64_nan UNIT" "f64_rank UNIT = 4607182418800017408"
proof -
  note u = unat_unit
  show "f64_sign UNIT = 0" "f64_finite UNIT" "\<not> f64_nan UNIT" "f64_rank UNIT = 4607182418800017408"
    by (simp_all add: f64_sign_def f64_exp_def f64_finite_def f64_nan_def f64_mant_def f64_rank_def u)
  have "f64_exp UNIT - 1 = 1022" "f64_mant UNIT = 0" "f64_exp UNIT \<noteq> 0" "f64_sign UNIT = 0"
    by (simp_all add: f64_sign_def f64_exp_def f64_mant_def u)
  then show "f64_scaled UNIT = 2 ^ 1074" unfolding f64_scaled_def by (simp only: if_True if_False) (simp flip: power_add)
qed

lemma zero_scaled: "f64_scaled 0 = 0" "f64_sign 0 = 0" "f64_finite 0" "\<not> f64_nan 0" "f64_rank 0 = 0"
  by (simp_all add: f64_scaled_def f64_sign_def f64_exp_def f64_mant_def f64_finite_def f64_nan_def f64_rank_def)

lemma round_unit: "0 < d \<Longrightarrow> f64_round False (2 ^ 1074 * d) d = UNIT"
  using f64_round_exact [of UNIT d] by (simp add: unit_scaled nat_power_eq)

lemma round_zero: "f64_round False 0 d = 0"
  by (simp add: f64_round_def round_bits_def bit_len.simps rne_div_def)

lemma unit_eq: "f64_eq UNIT 0 = False" "f64_eq 0 0 = True" "f64_less 0 UNIT = True" "f64_less UNIT 0 = False" "f64_less 0 0 = False"
   "f64_less UNIT UNIT = False"
  by (simp_all add: f64_eq_def f64_less_def unit_scaled zero_scaled)

lemma unit_mul: "f64_mul UNIT UNIT = UNIT" "f64_mul UNIT 0 = 0" "f64_mul 0 UNIT = 0" "f64_mul 0 0 = 0"
proof -
  have m: "magnitude UNIT = 2 ^ 1074" "magnitude 0 = 0" unfolding magnitude_def unit_scaled zero_scaled by (simp_all add: nat_power_eq del: power_numeral)
  have p: "f64_round False (2 ^ 1074 * 2 ^ 1074) (2 ^ 1074) = UNIT" by (rule round_unit) (rule zero_less_power, simp)
  show "f64_mul UNIT UNIT = UNIT" "f64_mul UNIT 0 = 0" "f64_mul 0 UNIT = 0" "f64_mul 0 0 = 0"
    unfolding f64_mul_def Let_def m unit_scaled(2) zero_scaled(2)
    by (simp_all only: unit_scaled zero_scaled if_True if_False simp_thms p mult_zero_left mult_zero_right round_zero)
qed

lemma unit_add: "f64_add UNIT 0 = UNIT" "f64_add 0 UNIT = UNIT" "f64_add 0 0 = 0"
proof -
  have p: "f64_of_scaled (2 ^ 1074) = UNIT" using f64_round_exact [of UNIT 1] unfolding f64_of_scaled_def unit_scaled(1,2) by (simp del: power_numeral add: unit_scaled)
  have z: "(2 :: int) ^ 1074 \<noteq> 0" by (rule power_not_zero) simp
  show "f64_add UNIT 0 = UNIT" "f64_add 0 UNIT = UNIT" "f64_add 0 0 = 0"
    unfolding f64_add_def Let_def unit_scaled(1) zero_scaled(1)
    by (simp_all only: unit_scaled zero_scaled if_True if_False simp_thms p add_0_left add_0_right z zero_neq_one)
qed

lemma isqrt_unique: "isqrt (n * n) = n"
proof -
  have b: "isqrt (n * n) * isqrt (n * n) \<le> n * n" "n * n < Suc (isqrt (n * n)) * Suc (isqrt (n * n))"
    using isqrt_bounds [of "n * n"] by simp_all
  have "isqrt (n * n) \<le> n" using b(1) by (metis mult_le_mono not_less_eq_eq le_trans not_less b(2) leI mult_strict_mono' nat_le_linear order_less_le_trans zero_le power2_nat_le_eq_le power2_eq_square)
  moreover have "n < Suc (isqrt (n * n))" using b(2) by (metis power2_eq_square power_less_imp_less_base zero_le)
  ultimately show ?thesis by simp
qed

lemma unit_sqrt: "f64_sqrt UNIT = Inr UNIT" "f64_sqrt 0 = Inr 0"
proof -
  have m: "magnitude UNIT = 2 ^ 1074" unfolding magnitude_def unit_scaled by (simp add: nat_power_eq del: power_numeral)
  have p: "f64_round False (2 * 2 ^ 1074 + 0) 2 = UNIT"
    using round_unit [of 2] unfolding mult.commute [of "2 ^ 1074"] add_0_right by (simp only: zero_less_numeral)
  show "f64_sqrt UNIT = Inr UNIT" "f64_sqrt 0 = Inr 0"
    unfolding f64_sqrt_def Let_def m isqrt_unique
    by (simp_all only: unit_scaled zero_scaled unit_eq if_True if_False simp_thms p zero_neq_one)
qed

lemma unit_div: "f64_div UNIT UNIT = Inr UNIT" "f64_div 0 UNIT = Inr 0"
proof -
  have m: "magnitude UNIT = 2 ^ 1074" "magnitude 0 = 0" unfolding magnitude_def unit_scaled zero_scaled by (simp_all add: nat_power_eq del: power_numeral)
  have p: "f64_round False (2 ^ 1074 * 2 ^ 1074) (2 ^ 1074) = UNIT" by (rule round_unit) (rule zero_less_power, simp)
  show "f64_div UNIT UNIT = Inr UNIT" "f64_div 0 UNIT = Inr 0"
    unfolding f64_div_def Let_def m unit_scaled(2) zero_scaled(2)
    by (simp_all only: unit_scaled zero_scaled unit_eq if_True if_False simp_thms p mult_zero_left mult_zero_right round_zero)
qed

lemma unit_of_int: "f64_of_int 1 = Inr UNIT"
proof -
  have r: "round_bits (nat \<bar>1\<bar> * 2 ^ 1074) 1 = 4607182418800017408"
  proof -
    have "(4607182418800017408 :: nat) mod 2 ^ 63 = 4607182418800017408" by simp
    then show ?thesis
      using round_bits_exact [OF unit_scaled(3), of 1] unfolding unit_scaled(1) unat_unit by (simp add: nat_power_eq del: power_numeral)
  qed
  show ?thesis using round_unit [of 1] unfolding f64_of_int_def r by (simp add: INF_BITS_def)
qed

lemma unit_cosine:
  "cosine_similarity sample_math [UNIT, 0] [UNIT, 0] = Inr UNIT" "cosine_similarity sample_math [UNIT, 0] [0, UNIT] = Inr 0"
  "cosine_similarity sample_math [0, UNIT] [0, UNIT] = Inr UNIT" "cosine_similarity sample_math [0, UNIT] [UNIT, 0] = Inr 0"
  by (simp_all add: cosine_similarity_def vector_norm_def vector_dot_def py_sum_def sample_math_def sum_plain_def to_float_def
     unit_mul unit_add unit_sqrt unit_div unit_eq)

lemma unit_pack: "pack_floats [UNIT, 0] = Inr (map char_of [63::nat,128,0,0,0,0,0,0])" "single_vec [UNIT,0] = [UNIT,0]"
   "pack_floats [0,UNIT] = Inr (map char_of [0::nat,0,0,0,63,128,0,0])" "single_vec [0,UNIT] = [0,UNIT]"
proof -
  have "f64_to_f32 UNIT = Inr 1065353216" "f64_to_f32 0 = Inr 0"
    by (simp_all add: f64_to_f32_def f64_sign_def f64_exp_def f64_mant_def UNIT_def rne_div_def)
  moreover have "f32_to_f64 1065353216 = UNIT" "f32_to_f64 0 = 0"
    by (simp_all add: f32_to_f64_def UNIT_def Let_def)
  ultimately show "pack_floats [UNIT, 0] = Inr (map char_of [63::nat,128,0,0,0,0,0,0])" "single_vec [UNIT,0] = [UNIT,0]"
   "pack_floats [0,UNIT] = Inr (map char_of [0::nat,0,0,0,63,128,0,0])" "single_vec [0,UNIT] = [0,UNIT]"
    by (simp_all add: pack_floats_def single_vec_def be_bytes_def)
qed

text \<open>Two vectors of the plane.\<close>

definition sample_inserts :: "vec_op list" where
  "sample_inserts = [VInsert ''x'' [UNIT, 0] (JObj []), VInsert ''y'' [0, UNIT] (JObj [])]"

definition sample_map :: vec_map where
  "sample_map = [''x'' \<mapsto> ([UNIT, 0], JObj []), ''y'' \<mapsto> ([0, UNIT], JObj [])]"

lemma sample_inserts_ok: "list_all (vec_op_ok ''n'' 2) sample_inserts"
  by (simp add: sample_inserts_def unit_pack meta_root_def val_ok_def TOMBSTONE_def)

theorem vec_refines_witness:
  "\<exists>V f. map_m (vec_call sample_host) [VInsert ''x'' [UNIT, 0] (JObj []), VGet ''x'', VDelete ''y'', VDelete ''x'', VGet ''x''] sample_vecs =
      (Inr [VDone, VFound (Some ([UNIT, 0], JObj [])), VBool False, VBool True, VFound None], V) \<and>
    rest_repr sample_host sample_vecs V f 100 \<and> vec_inv f ''n'' Map.empty"
proof -
  let ?ops = "[VInsert ''x'' [UNIT, 0] (JObj []), VGet ''x'', VDelete ''y'', VDelete ''x'', VGet ''x'']"
  have "vec_inv f ''n'' (Map.empty(''x'' := None)) = vec_inv f ''n'' Map.empty" for f by (rule arg_cong [of _ _ "vec_inv f ''n''"]) auto
  then show ?thesis
    using vec_refines [of sample_host sample_vecs sample_vecs Map.empty 100 ?ops Map.empty 2] sample_inserts_ok
      sample_vecs_repr [of 106] sample_vecs_empty
    by (auto simp: run_cost_def sample_inserts_def sample_vecs_def unit_pack new_meta_def meta_root_def)
qed

lemma sample_vectors:
  "\<exists>V f. rest_repr sample_host sample_vecs V f 100 \<and> vec_inv f ''n'' sample_map"
  using vectors.run [of sample_host sample_vecs sample_vecs Map.empty 100 sample_inserts Map.empty 2]
    sample_inserts_ok sample_vecs_repr [of 104] sample_vecs_empty
  by (auto simp: run_cost_def sample_inserts_def sample_vecs_def unit_pack new_meta_def sample_map_def vec_holds_def list_all_iff)

lemma sample_map_dom: "sorted_list_of_set (dom sample_map) = [''x'', ''y'']" "card (dom sample_map) = 2"
    "sample_map i \<noteq> None \<Longrightarrow> utf8_valid i"
proof -
  have d: "dom sample_map = {''x'', ''y''}" by (auto simp: sample_map_def)
  have "sorted_list_of_set {''x'', ''y''} = sort (remdups [''x'', ''y''])"
    using sorted_list_of_set_sort_remdups [of "[''x'', ''y'']"] by simp
  then show "sorted_list_of_set (dom sample_map) = [''x'', ''y'']" unfolding d by (simp add: less_char_def)
  show "card (dom sample_map) = 2" by (simp add: d)
  have u: "utf8_valid ''x''" "utf8_valid ''y''" by (simp_all add: utf8_ascii)
  show "utf8_valid i" if "sample_map i \<noteq> None"
  proof -
    have "i \<in> {''x'', ''y''}" using that unfolding d [symmetric] by blast
    then show ?thesis using u by blast
  qed
qed

theorem vec_search_exact_witness:
  "\<exists>V. vec_search sample_host sample_math (vec_query_defaults [0, UNIT]) V =
     (Inr [JObj [(''vector_id'', JStr ''y''), (''score'', round_num 6 (JFloat UNIT)), (''metadata'', JObj [])],
           JObj [(''vector_id'', JStr ''x''), (''score'', round_num 6 (JFloat 0)), (''metadata'', JObj [])]], V)"
proof -
  let ?q = "vec_query_defaults [0, UNIT]"
  let ?sc = "\<lambda>i. if i = ''x'' then Some (JFloat 0, i, JObj []) else Some (JFloat UNIT, i, JObj [])"
  obtain V f where V: "rest_repr sample_host sample_vecs V f 100" "vec_inv f ''n'' sample_map" using sample_vectors by blast
  have c: "v_centroids V = []" "v_namespace sample_vecs = ''n''" using rest_vecs [OF V(1)] by (simp_all add: sample_vecs_def)
  have s: "utf8_valid i \<and> score_candidate sample_math ?q i v md = Inr (?sc i)" if "sample_map i = Some (v, md)" for i v md
    using that sample_map_dom(3) [of i] unit_cosine
    by (auto simp: sample_map_def score_candidate_def vec_query_defaults_def calc_score_def split: if_splits)
  have n: "numeric (JFloat UNIT)" "numeric (JFloat 0)"
    by (simp_all add: numeric_def float_num_def unit_scaled zero_scaled)
  have lt: "num_of (JFloat 0) < num_of (JFloat UNIT)"
    using num_less_order [of "float_num 0" "float_num UNIT"] by (simp add: num_of_def float_num_def unit_scaled zero_scaled)
  have r: "ranked ''cosine'' [(JFloat 0, ''x'', JObj []), (JFloat UNIT, ''y'', JObj [])] = [(JFloat UNIT, ''y'', JObj []), (JFloat 0, ''x'', JObj [])]"
    using lt by (simp add: ranked_def)
  have "vec_search sample_host sample_math ?q V =
      (Inr (map vec_result (py_slice_int (ranked (vq_metric ?q) (List.map_filter ?sc (sorted_list_of_set (dom sample_map)))) 0 (vq_top_k ?q))), V)"
    by (rule vec_search_exact [OF V(1) _ _ s]) (use V(2) c n in \<open>auto split: if_splits\<close>)
  then show ?thesis unfolding sample_map_dom(1)
    by (intro exI [of _ V]) (simp add: r List.map_filter_simps vec_query_defaults_def vec_result_def py_slice_int_def clamp_def py_slice_def)
qed

lemma sample_trained:
  assumes V: "rest_repr sample_host sample_vecs V f 100" "vec_inv f ''n'' sample_map"
  shows "train_ivf sample_math 2 1 V = (Inr (), V\<lparr>v_centroids := [[UNIT, 0], [0, UNIT]], v_clusters := [(0, [''x'']), (1, [''y''])]\<rparr>)"
proof -
  have ns: "v_namespace V = ''n''" using rest_vecs [OF V(1)] by (simp add: sample_vecs_def)
  obtain es where es: "db_prefix (vec_prefix ''n'') V = (Inr es, V)"
      "rmap (decode_vec (vec_prefix ''n'')) es = Inr [(''x'', [UNIT, 0]), (''y'', [0, UNIT])]"
    using stored_vectors [OF V sample_map_dom(3)] unfolding sample_map_dom(1) by (auto simp: sample_map_def)
  have a: "nearest_centroid sample_math [[UNIT, 0], [0, UNIT]] [UNIT, 0] = Inr 0"
    "nearest_centroid sample_math [[UNIT, 0], [0, UNIT]] [0, UNIT] = Inr 1"
    by (simp_all add: nearest_centroid_def unit_cosine unit_eq)
  have "mean_point sample_math 2 [[UNIT, 0]] = Inr [UNIT, 0]" "mean_point sample_math 2 [[0, UNIT]] = Inr [0, UNIT]"
    by (simp_all add: mean_point_def coordinate_def upt_rec py_sum_def sample_math_def sum_plain_def to_float_def unit_add unit_of_int unit_div)
  then have t: "train_result sample_math 2 1 [(''x'', [UNIT, 0]), (''y'', [0, UNIT])] =
      Inr (Some ([[UNIT, 0], [0, UNIT]], [[''x''], [''y'']]))"
    using a by (simp add: train_result_def update_centroids_def sample_math_def upt_rec numeral_2_eq_2)
  show ?thesis by (simp add: train_ivf_def bnd_def gets_def ns es t lift_res_def ret_def upt_rec)
qed

theorem vec_train_partitions_witness:
  "\<exists>V. train_ivf sample_math 2 1 V = (Inr (), V\<lparr>v_centroids := [[UNIT, 0], [0, UNIT]], v_clusters := [(0, [''x'']), (1, [''y''])]\<rparr>) \<and>
    mset (concat (map snd [(0 :: nat, [''x'']), (1, [''y''])])) = mset_set (dom sample_map)"
proof -
  obtain V f where V: "rest_repr sample_host sample_vecs V f 100" "vec_inv f ''n'' sample_map" using sample_vectors by blast
  let ?V = "V\<lparr>v_centroids := [[UNIT, 0], [0, UNIT]], v_clusters := [(0, [''x'']), (1, [''y''])]\<rparr>"
  note t = sample_trained [OF V]
  have "v_namespace sample_vecs = ''n''" "length (pm_sample sample_math 2 2) = 2" by (simp_all add: sample_vecs_def sample_math_def)
  then have "length (v_centroids ?V) = nat 2 \<and>
      v_clusters ?V = map (\<lambda>j. (j, filter (\<lambda>i. nearest_to sample_math (v_centroids ?V) (fst (the (sample_map i))) j)
        (sorted_list_of_set (dom sample_map)))) [0..<nat 2] \<and>
      mset (concat (map snd (v_clusters ?V))) = mset_set (dom sample_map)"
    by (intro vec_train_partitions [OF V(1) _ _ _ _ t]) (use V(2) sample_map_dom(2,3) in simp_all)
  then have "mset (concat (map snd (v_clusters ?V))) = mset_set (dom sample_map)" by blast
  then show ?thesis using t by (intro exI [of _ V]) simp
qed

theorem vec_ivf_sees_only_trained_witness:
  "\<exists>V. v_clusters V = [(0, [''x'']), (1, [''y''])] \<and>
     vec_search sample_host sample_math ((vec_query_defaults [0, UNIT])\<lparr>vq_n_probe := 1\<rparr>) V =
       (Inr [JObj [(''vector_id'', JStr ''y''), (''score'', round_num 6 (JFloat UNIT)), (''metadata'', JObj [])]], V) \<and>
     (\<exists>(c, ids) \<in> set (v_clusters V). ''y'' \<in> set ids)"
proof -
  let ?q = "(vec_query_defaults [0, UNIT])\<lparr>vq_n_probe := 1\<rparr>"
  let ?r = "JObj [(''vector_id'', JStr ''y''), (''score'', round_num 6 (JFloat UNIT)), (''metadata'', JObj [])]"
  obtain V f where V: "rest_repr sample_host sample_vecs V f 100" "vec_inv f ''n'' sample_map" using sample_vectors by blast
  have ns: "v_namespace V = ''n''" using rest_vecs [OF V(1)] by (simp add: sample_vecs_def)
  let ?V = "V\<lparr>v_centroids := [[UNIT, 0], [0, UNIT]], v_clusters := [(0, [''x'']), (1, [''y''])]\<rparr>"
  have "score_less (JFloat 0) (JFloat UNIT)"
    by (simp add: score_less_def float_num_def unit_scaled zero_scaled)
  then have p: "probe_ids sample_math ?q (v_centroids ?V) (v_clusters ?V) = Inr [''y'']"
    by (simp add: probe_ids_def upt_rec vec_query_defaults_def unit_cosine sort_scores_def py_sort_def py_slice_int_def clamp_def py_slice_def)
  have V0: "rest_repr sample_host (sample_vecs\<lparr>v_centroids := [[UNIT, 0], [0, UNIT]], v_clusters := [(0, [''x'']), (1, [''y''])]\<rparr>) ?V f 100"
    using V(1) unfolding rest_repr_def by (cases V) (simp add: sample_vecs_def db.defs vecs.defs db_repr_def)
  have "wp (vec_get sample_host ''y'') (\<lambda>r W. r = Some ([0, UNIT], JObj []) \<and> W = ?V) ?V"
    by (rule wp_vec_get [OF V0, of sample_map]) (use V(2) in \<open>simp_all add: sample_vecs_def sample_map_def\<close>)
  then have g: "vec_get sample_host ''y'' ?V = (Inr (Some ([0, UNIT], JObj [])), ?V)" by (auto elim: wpE)
  have s: "vec_search sample_host sample_math ?q ?V = (Inr [?r], ?V)"
    using p g by (simp add: vec_search_def vec_candidates_def bnd_def gets_def lift_res_def ret_def score_candidate_def calc_score_def
        unit_cosine vec_query_defaults_def add_candidate_def sort_scores_def py_sort_def py_slice_int_def clamp_def py_slice_def vec_result_def)
  have "\<exists>i sc md. ?r = JObj [(''vector_id'', JStr i), (''score'', sc), (''metadata'', md)] \<and> (\<exists>(c, ids) \<in> set (v_clusters ?V). i \<in> set ids)"
    by (rule vec_ivf_sees_only_trained [OF _ _ s]) (simp_all add: vec_query_defaults_def)
  then have "\<exists>(c, ids) \<in> set (v_clusters ?V). ''y'' \<in> set ids" by simp
  with s show ?thesis by (intro exI [of _ ?V]) simp
qed

end
