(* ===== verification/TcpLaws.thy ===== *)
theory TcpLaws
  imports Tcp TextSearch VectorLaws StemmerLaws
begin

text \<open>
  The connection loop: whatever the blocks in which the commands of a client arrive, they are
  executed one by one in order. Every reply is one serialised value, a simple string or an error
  message, and one message to the peer when no text in it has a carriage return.
\<close>

section \<open>Replies\<close>

text \<open>
  A reply is the serialised form of a value, or a simple string or an error message whose text
  has a property \<open>P\<close>. A text without a carriage return cannot end its message early.
\<close>

definition no_break :: "bytes \<Rightarrow> bool" where
  "no_break s \<longleftrightarrow> CHR 0x0D \<notin> set s"

definition is_line :: "(bytes \<Rightarrow> bool) \<Rightarrow> bytes \<Rightarrow> bool" where
  "is_line P b \<longleftrightarrow> (\<exists>s. P s \<and> (b = resp_simple s \<or> b = resp_error s))"

definition is_value :: "bytes \<Rightarrow> bool" where
  "is_value b \<longleftrightarrow> (\<exists>v. resp_wf v \<and> resp_depth v \<le> 2 \<and> b = resp_encode v)"

definition is_reply :: "(bytes \<Rightarrow> bool) \<Rightarrow> bytes \<Rightarrow> bool" where
  "is_reply P b \<longleftrightarrow> is_line P b \<or> is_value b"

lemma no_break_simps [simp]:
  "no_break []" "no_break (c # s) \<longleftrightarrow> c \<noteq> CHR 0x0D \<and> no_break s" "no_break (s @ t) \<longleftrightarrow> no_break s \<and> no_break t"
  "no_break (quoted s) \<longleftrightarrow> no_break s"
  by (auto simp: no_break_def quoted_def)

lemma no_break_upper [simp]: "no_break (upper s) \<longleftrightarrow> no_break s"
proof -
  have "CHR 0x0D = upper_char c \<longleftrightarrow> CHR 0x0D = c" for c
  proof (cases "97 \<le> (of_char c :: nat) \<and> (of_char c :: nat) \<le> 122")
    case True
    then have "(of_char c - 32 :: nat) < 256" by linarith
    with True have "(of_char (upper_char c) :: nat) = of_char c - 32" by (simp add: upper_char_def)
    with True have "(of_char (upper_char c) :: nat) \<noteq> of_char (CHR 0x0D)" "(of_char c :: nat) \<noteq> of_char (CHR 0x0D)"
      by (simp_all, arith)
    then have "CHR 0x0D \<noteq> upper_char c" "CHR 0x0D \<noteq> c" by metis+
    then show ?thesis by simp
  next
    case False
    then have "upper_char c = c" unfolding upper_char_def by (rule if_not_P)
    then show ?thesis by simp
  qed
  then show ?thesis by (simp add: no_break_def upper_def image_iff)
qed

lemma is_reply_line [simp]: "P s \<Longrightarrow> is_reply P (resp_simple s)" "P s \<Longrightarrow> is_reply P (resp_error s)"
  unfolding is_reply_def is_line_def by blast+

lemma is_reply_ok [simp]:
  assumes "P ''OK''" shows "is_reply P resp_ok"
proof -
  have "resp_ok = resp_simple ''OK''" by (simp add: resp_ok_def resp_simple_def)
  with assms show ?thesis by (metis is_reply_line(1))
qed

lemma is_reply_value: "resp_wf v \<Longrightarrow> resp_depth v \<le> 2 \<Longrightarrow> resp_encode v = b \<Longrightarrow> is_reply P b"
  unfolding is_reply_def is_value_def by blast

lemma is_reply_integer [simp]: "is_reply P (resp_integer i)"
  by (rule is_reply_value [of "PInt i"]) simp_all

lemma is_reply_bulk [simp]: "is_reply P (resp_bulk v)"
  by (rule is_reply_value [of "case v of None \<Rightarrow> PNone | Some s \<Rightarrow> PBytes s"]) (simp_all split: option.split)

definition raw :: "bytes option \<Rightarrow> pyval" where
  "raw v = (case v of None \<Rightarrow> PNone | Some s \<Rightarrow> PBytes s)"

lemma raw_facts: "resp_wf (raw v)" "resp_depth (raw v) = 1"
  "resp_encode (raw v) = resp_encode (case v of None \<Rightarrow> PNone | Some s \<Rightarrow> PStr s)"
  by (simp_all add: raw_def split: option.split)

lemma raw_list: "resp_wf (PList (map raw xs))" "resp_depth (PList (map raw xs)) \<le> 2"
  by (induction xs) (simp_all add: raw_facts list_all_iff)

lemma is_reply_strs [simp]: "is_reply P (opt_strs xs)" "is_reply P (strs ys)"
proof -
  show "is_reply P (opt_strs xs)"
    by (rule is_reply_value [of "PList (map raw xs)"])
      (use raw_list raw_facts(3) in \<open>auto simp: opt_strs_def resp_array_def comp_def\<close>)
  show "is_reply P (strs ys)"
    by (rule is_reply_value [of "PList (map raw (map Some ys))"])
      (use raw_list [of "map Some ys"] in \<open>auto simp: strs_def resp_array_def comp_def raw_facts(3)\<close>)
qed

lemma is_reply_others [simp]: "is_reply P (flag01 b)" "is_reply P (nat_reply n)" "is_reply P (json_reply j)"
    "is_reply P (resp_array (Some []))"
  using is_reply_strs(2) [of P "[]"] by (simp_all add: flag01_def nat_reply_def json_reply_def strs_def)

text \<open>A method all of whose results are replies.\<close>

definition replies :: "(bytes \<Rightarrow> bool) \<Rightarrow> ('s, bytes) pym \<Rightarrow> bool" where
  "replies P m \<longleftrightarrow> (\<forall>s b s'. m s = (Inr b, s') \<longrightarrow> is_reply P b)"

named_theorems reply_intros \<open>rules for methods whose results are replies\<close>

lemma replies_ret [reply_intros]: "is_reply P b \<Longrightarrow> replies P (ret b)"
  by (simp add: replies_def ret_def)

lemma replies_bnd [reply_intros]: "(\<And>x. replies P (f x)) \<Longrightarrow> replies P (bnd m f)"
  by (fastforce simp: replies_def bnd_def split: prod.splits sum.splits)

lemma replies_sq [reply_intros]: "replies P n \<Longrightarrow> replies P (sq m n)"
  unfolding sq_def by (rule replies_bnd)

lemma replies_reply [reply_intros]: "(\<And>x. is_reply P (f x)) \<Longrightarrow> replies P (reply f m)"
  unfolding reply_def by (intro replies_bnd replies_ret)

lemma replies_if [reply_intros]: "(b \<Longrightarrow> replies P m) \<Longrightarrow> (\<not> b \<Longrightarrow> replies P n) \<Longrightarrow> replies P (if b then m else n)"
  by simp

lemma replies_family [reply_intros]:
  "(b \<Longrightarrow> pred_option (replies P) x) \<Longrightarrow> (\<not> b \<Longrightarrow> pred_option (replies P) y) \<Longrightarrow> pred_option (replies P) (if b then x else y)"
  "replies P m \<Longrightarrow> pred_option (replies P) (Some m)"
  by simp_all

lemma replies_case [reply_intros]: "(\<And>a b. replies P (f a b)) \<Longrightarrow> replies P (case_prod f x)"
  by (cases x) simp

lemma families_reply:
  assumes P: "\<And>s. no_break s \<Longrightarrow> P s" and a: "\<And>x. x \<in> set args \<Longrightarrow> P x"
  shows "pred_option (replies P) (exec_server E cmd args)" "pred_option (replies P) (exec_strings E cmd args)"
    "cmd \<noteq> ''TYPE'' \<Longrightarrow> pred_option (replies P) (exec_keys E cmd args)" "pred_option (replies P) (exec_hashes E cmd args)"
    "pred_option (replies P) (exec_lists E cmd args)" "pred_option (replies P) (exec_sets E cmd args)"
    "pred_option (replies P) (exec_zsets E cmd args)" "pred_option (replies P) (exec_extended E cmd args)"
  unfolding exec_server_def exec_strings_def exec_set_def exec_keys_def exec_hashes_def exec_lists_def exec_sets_def
    exec_zsets_def exec_extended_def Let_def wrong_args_def
  by (intro reply_intros; simp add: P a split: option.split)+

lemma find_family_replies:
  assumes "\<And>s. no_break s \<Longrightarrow> P s" "\<And>x. x \<in> set args \<Longrightarrow> P x" "cmd \<noteq> ''TYPE''" "find_family E cmd args = Some m"
  shows "replies P m"
proof -
  have "m \<in> set (List.map_filter (\<lambda>family. family E cmd args)
      [exec_server, exec_strings, exec_keys, exec_hashes, exec_lists, exec_sets, exec_zsets, exec_extended])"
    using assms(4) unfolding find_family_def by (meson find_SomeI)
  then show ?thesis using families_reply [where P = P and args = args and E = E and cmd = cmd, OF assms(1,2)] assms(3)
    by (auto simp: List.map_filter_simps split: option.splits)
qed

lemma dispatch_replies:
  assumes "\<And>s. no_break s \<Longrightarrow> P s" "\<And>x. x \<in> set args \<Longrightarrow> P x" "cmd \<noteq> ''TYPE''" "P (''unknown command '' @ quoted cmd)"
  shows "replies P (dispatch E cmd args)"
  using find_family_replies [where P = P and args = args and cmd = cmd and E = E, OF assms(1-3)] assms(4)
  by (auto simp: dispatch_def intro: replies_ret split: option.split)

lemma dispatch_type: "dispatch E ''TYPE'' args = bnd (arg args 0) (\<lambda>k. reply resp_simple (on_kv (kv_type (st_host E) k)))"
  by (simp add: dispatch_def find_family_def exec_server_def exec_strings_def exec_keys_def List.map_filter_simps Let_def)

text \<open>The parts of a command, as \<open>execute_command\<close> makes them, and the texts that reach a line.\<close>

definition command_parts :: "site \<Rightarrow> pyval \<Rightarrow> bytes list" where
  "command_parts E cmd = (case cmd of PList xs \<Rightarrow> map (py_str (st_unicode E)) xs | PStr s \<Rightarrow> py_split s | _ \<Rightarrow> [])"

definition clean_texts :: "(bytes \<Rightarrow> bool) \<Rightarrow> site \<Rightarrow> bytes list \<Rightarrow> server \<Rightarrow> bool" where
  "clean_texts P E parts S \<longleftrightarrow> (\<forall>p \<in> set parts. P p) \<and>
     (case parts of [] \<Rightarrow> True | name # args \<Rightarrow>
        (case fst (dispatch E (upper name) args S) of Inl e \<Rightarrow> P (error_text E e) | Inr r \<Rightarrow> True) \<and>
        (upper name = ''TYPE'' \<longrightarrow> (\<forall>k \<in> set args.
           case fst (on_kv (kv_type (st_host E) k) S) of Inl e \<Rightarrow> True | Inr t \<Rightarrow> P t)))"

lemma run_parts_reply:
  assumes P: "\<And>s. no_break s \<Longrightarrow> P s" and u: "\<And>p. P p \<Longrightarrow> P (''unknown command '' @ quoted (upper p))"
    and t: "clean_texts P E parts S"
  shows "is_reply P (fst (run_parts E parts S))"
proof (cases parts)
  case (Cons name args)
  have d: "is_reply P b" if run: "dispatch E (upper name) args S = (Inr b, S')" for b S'
  proof (cases "upper name = ''TYPE''")
    case True
    obtain ty where ty: "args \<noteq> []" "on_kv (kv_type (st_host E) (args ! 0)) S = (Inr ty, S')" "b = resp_simple ty"
      using run unfolding True dispatch_type
      by (cases "on_kv (kv_type (st_host E) (args ! 0)) S", cases "fst (on_kv (kv_type (st_host E) (args ! 0)) S)", cases args)
        (auto simp: reply_def bnd_def arg_def lift_res_def ret_def split: if_splits)
    have "\<forall>k \<in> set args. case fst (on_kv (kv_type (st_host E) k) S) of Inl e \<Rightarrow> True | Inr t \<Rightarrow> P t"
      using t True by (simp add: clean_texts_def Cons)
    then have "case fst (on_kv (kv_type (st_host E) (args ! 0)) S) of Inl e \<Rightarrow> True | Inr t \<Rightarrow> P t"
      by (rule bspec) (use ty(1) in simp)
    then have "P ty" by (simp add: ty(2))
    then show ?thesis by (simp add: ty(3))
  next
    case False
    have "replies P (dispatch E (upper name) args)"
      by (rule dispatch_replies [OF P _ False]) (use t u in \<open>auto simp: clean_texts_def Cons\<close>)
    then show ?thesis using run by (auto simp: replies_def)
  qed
  show ?thesis
    using d t by (auto simp: Cons run_parts_def catch_reply_def clean_texts_def split: sum.split prod.split)
qed (simp add: run_parts_def P)

lemma execute_command_reply:
  assumes P: "\<And>s. no_break s \<Longrightarrow> P s" and u: "\<And>p. P p \<Longrightarrow> P (''unknown command '' @ quoted (upper p))"
    and t: "clean_texts P E (command_parts E cmd) (S\<lparr>s_ops := s_ops S + 1\<rparr>)"
  shows "is_reply P (fst (execute_command E cmd S))"
  using run_parts_reply [OF P u t]
  by (auto simp: execute_command_def Let_def command_parts_def P split: pyval.split)

lemma value_read: "resp_wf v \<Longrightarrow> resp_depth v \<le> 2 \<Longrightarrow>
   get_next (Suc (Suc d)) (resp_encode v @ rest) = (Inr (resp_norm v), rest)"
  using parse_encoded [of v "Suc (Suc d)" "resp_encode v @ rest" "[]" rest] encode_nonempty [of v]
  by (simp add: get_next_def)

lemma line_read:
  assumes "no_break s"
  shows "get_next (Suc d) (resp_simple s @ rest) = (Inr (PStr (utf8_replace s)), rest)"
    "get_next (Suc d) (resp_error s @ rest) = (Inr (PExc (utf8_replace (''ERR '' @ s))), rest)"
proof -
  have b1: "resp_simple s @ rest = [] @ CHR ''+'' # s @ CRLF @ rest" by (simp add: resp_simple_def)
  have b2: "resp_error s @ rest = [] @ CHR ''-'' # (''ERR '' @ s) @ CRLF @ rest" by (simp add: resp_error_def)
  have n1: "find_sub CRLF s = None" using assms by (intro find_CRLF_None) (auto simp: no_break_def)
  then have n: "find_sub CRLF s = None" "find_sub CRLF (''ERR '' @ s) = None" by (simp_all add: startswith_CRLF)
  show "get_next (Suc d) (resp_simple s @ rest) = (Inr (PStr (utf8_replace s)), rest)"
    "get_next (Suc d) (resp_error s @ rest) = (Inr (PExc (utf8_replace (''ERR '' @ s))), rest)"
    using parse_from_line [OF b1 n(1) prefix_not_cr(5), of d] parse_from_line [OF b2 n(2) prefix_not_cr(4), of d]
      drop_line [of s "CHR ''+''" rest] drop_line [of "''ERR '' @ s" "CHR ''-''" rest]
    unfolding get_next_def resp_simple_def resp_error_def by (simp_all add: parse_header_def del: parse_from.simps)
qed

text \<open>
  C7. Every command, whatever its name, arguments and the state of the server, is answered by a
  simple string, an error message or the serialised form of one value. The reply is exactly
  one message, of which a client's parser consumes exactly the bytes, whatever follows it, if
  no part of the command contains a carriage return, and neither does the text of the exception the command
  raises, if it raises one, nor a type that \<open>TYPE\<close> returns. (Texts are not escaped: \<open>PING\<close> with a line
  break in its argument is answered by two lines, as \<open>resp_line_injection\<close> shows.)
\<close>

theorem tcp_reply_type:
  "((\<exists>s. fst (execute_command E cmd S) = resp_simple s \<or> fst (execute_command E cmd S) = resp_error s) \<or>
      (\<exists>v. resp_wf v \<and> fst (execute_command E cmd S) = resp_encode v)) \<and>
   (clean_texts no_break E (command_parts E cmd) (S\<lparr>s_ops := s_ops S + 1\<rparr>) \<longrightarrow>
      (\<exists>v. \<forall>d rest. get_next (Suc (Suc d)) (fst (execute_command E cmd S) @ rest) = (Inr v, rest)))"
proof (intro conjI impI)
  have "clean_texts (\<lambda>_. True) E (command_parts E cmd) (S\<lparr>s_ops := s_ops S + 1\<rparr>)"
    by (simp add: clean_texts_def split: list.split sum.split)
  from execute_command_reply [OF _ _ this]
  show "(\<exists>s. fst (execute_command E cmd S) = resp_simple s \<or> fst (execute_command E cmd S) = resp_error s) \<or>
      (\<exists>v. resp_wf v \<and> fst (execute_command E cmd S) = resp_encode v)"
    unfolding is_reply_def is_line_def is_value_def by blast
next
  assume "clean_texts no_break E (command_parts E cmd) (S\<lparr>s_ops := s_ops S + 1\<rparr>)"
  from execute_command_reply [OF _ _ this] have "is_reply no_break (fst (execute_command E cmd S))" by simp
  then show "\<exists>v. \<forall>d rest. get_next (Suc (Suc d)) (fst (execute_command E cmd S) @ rest) = (Inr v, rest)"
    unfolding is_reply_def is_line_def is_value_def using line_read value_read by metis
qed

theorem tcp_reply_type_witness:
  "\<forall>E S. \<exists>v. \<forall>d rest. get_next (Suc (Suc d)) (fst (execute_command E (PList [PStr ''nope'', PStr ''x'']) S) @ rest) = (Inr v, rest)"
proof (intro allI)
  fix E S
  have d: "dispatch E ''NOPE'' [''x''] = ret (resp_error (''unknown command '' @ quoted ''NOPE''))"
    by (simp add: dispatch_def find_family_def exec_server_def exec_strings_def exec_keys_def exec_hashes_def exec_lists_def
        exec_sets_def exec_zsets_def exec_extended_def List.map_filter_simps Let_def)
  have "upper ''nope'' = ''NOPE''" by code_simp
  then have "clean_texts no_break E (command_parts E (PList [PStr ''nope'', PStr ''x''])) (S\<lparr>s_ops := s_ops S + 1\<rparr>)"
    by (simp add: clean_texts_def command_parts_def py_str_def d ret_def)
  then show "\<exists>v. \<forall>d rest.
      get_next (Suc (Suc d)) (fst (execute_command E (PList [PStr ''nope'', PStr ''x'']) S) @ rest) = (Inr v, rest)"
     using tcp_reply_type [of E "PList [PStr ''nope'', PStr ''x'']" S] by blast
qed

section \<open>The order of execution\<close>

text \<open>Commands one after the other.\<close>

fun run_values :: "site \<Rightarrow> pyval list \<Rightarrow> server \<Rightarrow> bytes list \<times> server" where
  "run_values E [] S = ([], S)"
| "run_values E (v # vs) S = (case execute_command E v S of (r, S') \<Rightarrow>
     (case run_values E vs S' of (rs, S'') \<Rightarrow> (r # rs, S'')))"

lemma run_values_append:
  "run_values E (vs @ ws) S = (case run_values E vs S of (rs, S') \<Rightarrow> (case run_values E ws S' of (rs', S'') \<Rightarrow> (rs @ rs', S'')))"
  by (induction vs arbitrary: S) (simp_all split: prod.split)

lemma serve_buffer_drain:
  "serve_buffer E buf S = (case drain (st_depth E) buf of (vs, st, b) \<Rightarrow>
     (case run_values E vs S of (rs, S') \<Rightarrow> (rs, st, b, S')))"
proof (induction E buf S rule: serve_buffer.induct)
  case (1 E buf S)
  then show ?case
    by (subst serve_buffer.simps, subst drain.simps) (auto split: prod.split sum.split)
qed

lemma handle_client_stream:
  "handle_client E buf blocks S = (case read_stream (st_depth E) buf blocks of (vs, st, b) \<Rightarrow>
     (case run_values E vs S of (rs, S') \<Rightarrow> (rs, st, b, S')))"
  by (induction E buf blocks S rule: handle_client.induct)
    (auto simp: serve_buffer_drain run_values_append split: prod.splits sum.splits)

section \<open>Commands of a client\<close>

text \<open>A client sends a command as an array of bulk strings.\<close>

definition command_bytes :: "bytes list \<Rightarrow> bytes" where
  "command_bytes parts = resp_encode (PList (map PStr parts))"

definition command_ok :: "bytes list \<Rightarrow> bool" where
  "command_ok parts \<longleftrightarrow> parts \<noteq> [] \<and> list_all utf8_valid parts"

fun run_commands :: "site \<Rightarrow> bytes list list \<Rightarrow> server \<Rightarrow> bytes list \<times> server" where
  "run_commands E [] S = ([], S)"
| "run_commands E (parts # cmds) S = (case run_parts E parts (S\<lparr>s_ops := s_ops S + 1\<rparr>) of (r, S') \<Rightarrow>
     (case run_commands E cmds S' of (rs, S'') \<Rightarrow> (r # rs, S'')))"

lemma command_stream_ok: "command_ok parts \<Longrightarrow> 2 \<le> depth \<Longrightarrow> stream_ok depth (PList (map PStr parts))"
proof -
  assume c: "command_ok parts" "2 \<le> depth"
  have "foldr max (map resp_depth (map PStr parts)) 0 \<le> 1" by (induction parts) simp_all
  with c show ?thesis by (auto simp: stream_ok_def command_ok_def list_all_iff)
qed

lemma run_values_commands:
  "list_all command_ok cmds \<Longrightarrow> run_values E (map (\<lambda>parts. resp_norm (PList (map PStr parts))) cmds) S = run_commands E cmds S"
proof (induction cmds arbitrary: S)
  case (Cons parts cmds)
  have "map (py_str (st_unicode E)) (map resp_norm (map PStr parts)) = parts" by (induction parts) (simp_all add: py_str_def)
  then have "execute_command E (resp_norm (PList (map PStr parts))) S = run_parts E parts (S\<lparr>s_ops := s_ops S + 1\<rparr>)"
    using Cons.prems by (simp add: execute_command_def command_ok_def Let_def)
  with Cons show ?case by simp
qed simp

lemma handle_client_commands:
  assumes "list_all command_ok cmds" "2 \<le> st_depth E" "concat blocks = concat (map command_bytes cmds)"
  shows "handle_client E [] blocks S = (case run_commands E cmds S of (rs, S') \<Rightarrow> (rs, Inr (), [], S'))"
proof -
  let ?vs = "map (\<lambda>parts. PList (map PStr parts)) cmds"
  have "list_all (stream_ok (st_depth E)) ?vs"
    using assms(1,2) command_stream_ok by (auto simp: list_all_iff)
  moreover have "concat blocks = concat (map resp_encode ?vs)" using assms(3) unfolding command_bytes_def map_map comp_def .
  ultimately have "read_stream (st_depth E) [] blocks = (map resp_norm ?vs, Inr (), [])" by (rule resp_fragmentation)
  moreover have "run_values E (map resp_norm ?vs) S = run_commands E cmds S"
    using run_values_commands [OF assms(1), of E S] by (simp only: map_map comp_def)
  ultimately show ?thesis by (simp add: handle_client_stream)
qed

text \<open>
  C6. A connection is equivalent to its commands run one by one. However the bytes of a
  client's commands are cut into blocks on their way, the replies, the final state of the
  server and the empty buffer are those of executing the commands in order; no command waits
  for a later one.
\<close>

theorem tcp_serves_commands:
  assumes "list_all command_ok cmds" "2 \<le> st_depth E" "concat blocks = concat (map command_bytes cmds)"
  shows "handle_client E [] blocks S = (case run_commands E cmds S of (rs, S') \<Rightarrow> (rs, Inr (), [], S'))"
  using assms by (rule handle_client_commands)

section \<open>Progress\<close>

text \<open>
  Reading values whose bytes have all arrived and a last one whose bytes have not: \<open>buf\<close> is what
  the loop left of earlier blocks, too short for the next value.
\<close>

lemma read_stream_partial:
  assumes "stream_ok depth v" "n < length (resp_encode v)"
  shows "list_all (stream_ok depth) vs \<Longrightarrow> buf @ concat blocks = concat (map resp_encode vs) @ take n (resp_encode v) \<Longrightarrow>
    (vs \<noteq> [] \<longrightarrow> length buf < length (resp_encode (hd vs))) \<Longrightarrow>
    read_stream depth buf blocks = (map resp_norm vs, Inr (), take n (resp_encode v))"
proof (induction blocks arbitrary: buf vs)
  case Nil
  have "vs = []"
  proof (rule ccontr)
    assume "vs \<noteq> []"
    then have "length (resp_encode (hd vs)) \<le> length buf" using Nil.prems(2) by (cases vs) auto
    with Nil.prems(3) \<open>vs \<noteq> []\<close> show False by simp
  qed
  with Nil show ?case by simp
next
  case (Cons c blocks)
  let ?rest = "concat blocks @ drop n (resp_encode v)"
  have "(buf @ c) @ ?rest = (buf @ concat (c # blocks)) @ drop n (resp_encode v)" by simp
  also have "\<dots> = concat (map resp_encode (vs @ [v]))" unfolding Cons.prems(2) by simp
  finally have "(buf @ c) @ ?rest = concat (map resp_encode (vs @ [v]))" .
  moreover have "list_all (stream_ok depth) (vs @ [v])" using Cons.prems(1) assms(1) by simp
  ultimately obtain k b where k: "k \<le> length (vs @ [v])" "drain depth (buf @ c) = (map resp_norm (take k (vs @ [v])), Inr (), b)"
    "b @ ?rest = concat (map resp_encode (drop k (vs @ [v])))"
    "k < length (vs @ [v]) \<longrightarrow> length b < length (resp_encode ((vs @ [v]) ! k))"
    using drain_prefix by blast
  have "k \<noteq> length (vs @ [v])" using k(3) assms(2) by auto
  then have kl: "k \<le> length vs" using k(1) by simp
  have split: "b @ concat blocks @ drop n (resp_encode v) = concat (map resp_encode (drop k vs)) @ take n (resp_encode v) @ drop n (resp_encode v)"
    using k(3) kl by simp
  then have rest: "b @ concat blocks = concat (map resp_encode (drop k vs)) @ take n (resp_encode v)" by (metis append.assoc append_same_eq)
  have "drop k vs \<noteq> [] \<longrightarrow> length b < length (resp_encode (hd (drop k vs)))"
    using k(4) by (auto simp: hd_drop_conv_nth nth_append)
  moreover have "list_all (stream_ok depth) (drop k vs)" using Cons.prems(1) by (auto simp: list_all_iff dest: in_set_dropD)
  ultimately have "read_stream depth b blocks = (map resp_norm (drop k vs), Inr (), take n (resp_encode v))"
    using Cons.IH rest by blast
  moreover have "map resp_norm (take k vs) @ map resp_norm (drop k vs) = map resp_norm vs" by (simp flip: map_append)
  ultimately show ?case using k(2) kl by (simp add: resp_feed_def)
qed

text \<open>
  C32. Liveness of a connection. At every moment the commands whose last byte has arrived have
  been answered, in order, and the handler waits with exactly the bytes of the next command
  that are there: no complete command is left in the buffer and none is answered early.
\<close>

theorem tcp_answers_complete_commands:
  assumes "list_all command_ok cmds" "command_ok next" "2 \<le> st_depth E" "n < length (command_bytes next)"
    "concat blocks = concat (map command_bytes cmds) @ take n (command_bytes next)"
  shows "handle_client E [] blocks S = (case run_commands E cmds S of (rs, S') \<Rightarrow> (rs, Inr (), take n (command_bytes next), S'))"
proof -
  let ?vs = "map (\<lambda>parts. PList (map PStr parts)) cmds"
  have vs: "list_all (stream_ok (st_depth E)) ?vs" using assms(1,3) command_stream_ok by (auto simp: list_all_iff)
  have "[] @ concat blocks = concat (map resp_encode ?vs) @ take n (resp_encode (PList (map PStr next)))"
    using assms(5) unfolding command_bytes_def map_map comp_def by simp
  then have "read_stream (st_depth E) [] blocks = (map resp_norm ?vs, Inr (), take n (resp_encode (PList (map PStr next))))"
    by (rule read_stream_partial [OF command_stream_ok [OF assms(2,3)] assms(4) [unfolded command_bytes_def] vs])
      (simp add: encode_nonempty)
  moreover have "run_values E (map resp_norm ?vs) S = run_commands E cmds S"
    using run_values_commands [OF assms(1), of E S] by (simp only: map_map comp_def)
  ultimately show ?thesis by (simp add: handle_client_stream command_bytes_def)
qed


text \<open>A new server on a tree, and tables for concrete inputs.\<close>

definition fresh_server :: "lsm \<Rightarrow> f64 \<Rightarrow> server" where
  "fresh_server L t = \<lparr>db_lsm = L, s_heap = [], s_indexes = [], s_texts = [], s_vectors = [], s_start = t, s_ops = 0\<rparr>"

definition sample_site :: site where
  "sample_site = \<lparr>st_host = sample_host, st_unicode = sample_unicode, st_math = sample_math,
     st_search = (\<lambda>_ _. Inr False), st_depth = 2, st_error = (\<lambda>_. [])\<rparr>"

theorem tcp_serves_commands_witness:
  "handle_client sample_site [] [command_bytes [''PING''] @ take 5 (command_bytes [''echo'', ''x'']), drop 5 (command_bytes [''echo'', ''x''])]
     (fresh_server sample_tree 0) = ([resp_simple ''PONG'', resp_bulk (Some ''x'')], Inr (), [], (fresh_server sample_tree 0)\<lparr>s_ops := 2\<rparr>)"
proof -
  let ?cmds = "[[''PING''], [''echo'', ''x'']]"
  have ok: "list_all command_ok ?cmds" by (simp add: command_ok_def utf8_ascii)
  have u: "upper ''PING'' = ''PING''" "upper ''echo'' = ''ECHO''" by (simp_all add: upper_def upper_char_def char_of_eq_iff)
  have "run_commands sample_site ?cmds (fresh_server sample_tree 0) =
      ([resp_simple ''PONG'', resp_bulk (Some ''x'')], (fresh_server sample_tree 0)\<lparr>s_ops := 2\<rparr>)"
    by (simp add: run_parts_def u dispatch_def find_family_def List.map_filter_simps exec_server_def catch_reply_def
        ret_def fresh_server_def)
  with tcp_serves_commands [OF ok, of sample_site "[command_bytes [''PING''] @ take 5 (command_bytes [''echo'', ''x'']), drop 5 (command_bytes [''echo'', ''x''])]"
      "fresh_server sample_tree 0"]
  show ?thesis by (simp add: sample_site_def flip: append.assoc)
qed

lemma run_ping: "run_commands sample_site [[''PING'']] (fresh_server sample_tree 0) =
    ([resp_simple ''PONG''], (fresh_server sample_tree 0)\<lparr>s_ops := 1\<rparr>)"
proof -
  have u: "upper ''PING'' = ''PING''" by (simp add: upper_def upper_char_def)
  show ?thesis
    by (simp add: run_parts_def u dispatch_def find_family_def List.map_filter_simps exec_server_def catch_reply_def
        ret_def fresh_server_def)
qed

lemma sample_commands: "command_ok [''PING'']" "command_ok [''ECHO'', ''x'']" "2 \<le> st_depth sample_site" "4 < length (command_bytes [''ECHO'', ''x''])"
proof -
  show "command_ok [''PING'']" "command_ok [''ECHO'', ''x'']" "2 \<le> st_depth sample_site"
    by (simp_all add: command_ok_def utf8_ascii sample_site_def)
  show "4 < length (command_bytes [''ECHO'', ''x''])"
    using encode_nonempty [of "PStr ''ECHO''"] encode_nonempty [of "PStr ''x''"] by (simp add: command_bytes_def CRLF_def resp_bulk_def)
qed

theorem tcp_answers_complete_commands_witness:
  "handle_client sample_site [] [command_bytes [''PING''] @ take 3 (command_bytes [''ECHO'', ''x'']), take 1 (drop 3 (command_bytes [''ECHO'', ''x'']))]
     (fresh_server sample_tree 0) =
   ([resp_simple ''PONG''], Inr (), take 4 (command_bytes [''ECHO'', ''x'']), (fresh_server sample_tree 0)\<lparr>s_ops := 1\<rparr>)"
proof -
  have "take 3 b @ take 1 (drop 3 b) = take 4 b" for b :: bytes by (simp flip: take_add)
  then have "concat [command_bytes [''PING''] @ take 3 (command_bytes [''ECHO'', ''x'']), take 1 (drop 3 (command_bytes [''ECHO'', ''x'']))] =
      concat (map command_bytes [[''PING'']]) @ take 4 (command_bytes [''ECHO'', ''x''])" by simp
  from tcp_answers_complete_commands [OF _ sample_commands(2-4) this, of "fresh_server sample_tree 0"] run_ping sample_commands(1)
  show ?thesis by simp
qed


end
