(* ===== verification/TcpDurable.thy ===== *)
theory TcpDurable
  imports TcpLaws KVFaults Keeps
begin

text \<open>
  From the bytes of a connection to the disk and back: strings set by a client are served
  again after a crash of a server that syncs every record.
\<close>

lemma keeps_catch [keeps_intros]: "keeps_field g m \<Longrightarrow> keeps_field g (catch_value_error x m)"
  by (auto simp: keeps_field_def catch_value_error_def split: prod.splits sum.splits py_error.splits) (metis snd_conv)+

lemma kv_setup:
  "keeps_field db_setup (is_expired H key)" "keeps_field db_setup (kv_get H key)"
  "keeps_field db_setup (kv_set H key v None False False)"
proof -
  have p: "keeps_field db_setup (purge_key H key)"
    unfolding purge_key_def purge_prefix_def purge_list_def get_list_meta_def by (intro keeps_intros)
  show e: "keeps_field db_setup (is_expired H key)"
    unfolding is_expired_def by (intro keeps_intros p)
  show g: "keeps_field db_setup (kv_get H key)"
    unfolding kv_get_def by (intro keeps_intros e)
  show "keeps_field db_setup (kv_set H key v None False False)"
    unfolding kv_set_def kv_persist_def by (simp, intro keeps_intros e g)
qed

section \<open>Strings over a connection\<close>

text \<open>The store \<open>f\<close> holds exactly the strings \<open>m\<close>, and no expiry.\<close>

definition strings_inv :: "(bytes \<rightharpoonup> bytes) \<Rightarrow> (bytes \<rightharpoonup> bytes) \<Rightarrow> bool" where
  "strings_inv f m \<longleftrightarrow> (\<forall>k. f (EXP_KEY k) = None \<and> f (V_KEY k) = m k)"

definition pair_ok :: "bytes \<times> bytes \<Rightarrow> bool" where
  "pair_ok = (\<lambda>(k, v). name_ok k \<and> utf8_valid k \<and> val_ok v \<and> utf8_valid v)"

definition set_command :: "bytes \<times> bytes \<Rightarrow> bytes list" where
  "set_command = (\<lambda>(k, v). [''SET'', k, v])"

lemma upper_names: "upper ''SET'' = ''SET''" "upper ''GET'' = ''GET''"
  by (simp_all add: upper_def upper_char_def)

lemma dispatch_set: "dispatch E ''SET'' [k, v] =
    reply (\<lambda>ok. if ok then resp_ok else resp_bulk None) (on_kv (kv_set (st_host E) k v None False False))"
  by (simp add: dispatch_def find_family_def List.map_filter_simps exec_server_def exec_strings_def exec_set_def
      Let_def bnd_def lift_res_def)

lemma dispatch_get: "dispatch E ''GET'' [k] = reply resp_bulk (on_kv (kv_get (st_host E) k))"
  by (simp add: dispatch_def find_family_def List.map_filter_simps exec_server_def exec_strings_def Let_def)

lemma run_set:
  assumes r: "db_repr (st_host E) S f (Suc (Suc n))" and e: "f (EXP_KEY k) = None" and k: "name_ok k" and v: "val_ok v"
  shows "\<exists>S'. run_parts E (set_command (k, v)) S = (resp_ok, S') \<and>
    db_repr (st_host E) S' (f(V_KEY k \<mapsto> v, TYPE_KEY k \<mapsto> ''string'')) n \<and> db_setup S' = db_setup S"
proof -
  let ?K = "\<lparr>db_lsm = db_lsm S, kv_heap = s_heap S\<rparr>" and ?f = "f(V_KEY k \<mapsto> v, TYPE_KEY k \<mapsto> ''string'')"
  have "wp (kv_set (st_host E) k v None False False) (\<lambda>b K. b \<and> db_repr (st_host E) K ?f n) ?K"
    by (rule wp_kv_set [where f = f and n = n]) (use r e k v in \<open>simp_all add: db_repr_def\<close>)
  then obtain K where K: "kv_set (st_host E) k v None False False ?K = (Inr True, K)" "db_repr (st_host E) K ?f n"
    by (auto elim: wpE)
  let ?S = "S\<lparr>db_lsm := db_lsm K, s_heap := kv_heap K\<rparr>"
  have "run_parts E (set_command (k, v)) S = (resp_ok, ?S)"
    using K(1) by (simp add: run_parts_def set_command_def upper_names dispatch_set catch_reply_def reply_def bnd_def
        on_kv_def ret_def)
  moreover have "db_repr (st_host E) ?S ?f n" using K(2) by (simp add: db_repr_def)
  moreover have "db_setup K = db_setup ?K" using kv_setup(3) [of "st_host E" k v] K(1) by (metis keeps_field_def snd_conv)
  then have "db_setup ?S = db_setup S" by (simp add: db_setup_def)
  ultimately show ?thesis by blast
qed

lemma set_step:
  assumes r: "db_repr (st_host E) S f (Suc (Suc n))" and i: "strings_inv f m" and ok: "pair_ok (k, v)"
  shows "\<exists>S' f'. run_parts E (set_command (k, v)) S = (resp_ok, S') \<and> db_repr (st_host E) S' f' n \<and>
    strings_inv f' (m(k \<mapsto> v)) \<and> db_setup S' = db_setup S"
proof -
  have "strings_inv (f(V_KEY k \<mapsto> v, TYPE_KEY k \<mapsto> ''string'')) (m(k \<mapsto> v))" using i by (auto simp: strings_inv_def)
  then show ?thesis using run_set [OF r, of k v] i ok by (fastforce simp: strings_inv_def pair_ok_def)
qed

lemma set_steps:
  "db_repr (st_host E) S f (2 * length cs) \<Longrightarrow> strings_inv f m \<Longrightarrow> list_all pair_ok cs \<Longrightarrow>
   \<exists>S' f'. run_commands E (map set_command cs) S = (replicate (length cs) resp_ok, S') \<and> db_repr (st_host E) S' f' 0 \<and>
     strings_inv f' (m ++ map_of (rev cs)) \<and> db_setup S' = db_setup S"
proof (induction cs arbitrary: S f m)
  case Nil
  then show ?case by auto
next
  case (Cons c cs)
  obtain k v where c: "c = (k, v)" by fastforce
  let ?S = "S\<lparr>s_ops := s_ops S + 1\<rparr>"
  have "db_repr (st_host E) ?S f (Suc (Suc (2 * length cs)))" using Cons.prems(1) by (simp add: db_repr_def)
  from set_step [OF this Cons.prems(2)] Cons.prems(3) obtain S1 f1 where
    1: "run_parts E (set_command (k, v)) ?S = (resp_ok, S1)" "db_repr (st_host E) S1 f1 (2 * length cs)"
      "strings_inv f1 (m(k \<mapsto> v))" "db_setup S1 = db_setup S"
    by (fastforce simp: c db_setup_def)
  obtain S2 f2 where 2: "run_commands E (map set_command cs) S1 = (replicate (length cs) resp_ok, S2)"
      "db_repr (st_host E) S2 f2 0" "strings_inv f2 (m(k \<mapsto> v) ++ map_of (rev cs))" "db_setup S2 = db_setup S1"
    using Cons.IH [OF 1(2,3)] Cons.prems(3) by (auto simp del: fun_upd_apply)
  have "run_commands E (map set_command (c # cs)) S = (replicate (length (c # cs)) resp_ok, S2)"
    using 1(1) 2(1) by (simp add: c)
  moreover have "m(k \<mapsto> v) ++ map_of (rev cs) = m ++ map_of (rev (c # cs))" by (simp add: c del: fun_upd_apply)
  ultimately show ?case using 2(2-4) 1(4) by (intro exI [of _ S2] exI [of _ f2]) simp
qed

lemma get_after_crash:
  assumes "db_repr (st_host E) S f 0" "strings_inv f m" "fst (db_setup S) = Always"
  shows "fst (execute_command E (PList [PStr ''GET'', PStr k])
     (fresh_server (lsm_open (st_host E) (fst (lsm_crash c (db_lsm S))) (snd (lsm_crash c (db_lsm S))) mb mode clk t) t0)) =
     resp_bulk (m k)"
proof -
  let ?L = "lsm_open (st_host E) (fst (lsm_crash c (db_lsm S))) (snd (lsm_crash c (db_lsm S))) mb mode clk t"
  have "lsm_get (st_host E) x ?L = Inr (f x)" for x
    using assms(1,3) by (intro lsm_repr_crash) (simp_all add: db_repr_def db_setup_def tree_setup_def wal_setup_def)
  then have "kv_get (st_host E) k \<lparr>db_lsm = ?L, kv_heap = []\<rparr> = (Inr (m k), \<lparr>db_lsm = ?L, kv_heap = []\<rparr>)"
    using assms(2) by (simp add: kv_get_def is_expired_def bnd_def db_get_def ret_def strings_inv_def)
  then show ?thesis
    by (simp add: execute_command_def run_parts_def py_str_def upper_names dispatch_get catch_reply_def reply_def bnd_def
        on_kv_def ret_def fresh_server_def Let_def)
qed

text \<open>
  C5. End to end. A server that syncs every record answers each of any number of SET commands,
  however their bytes arrive, with OK; when it crashes after that, at whatever state of its
  buffers, a new server on the files answers GET for every key with the last value that was
  set, or null.
\<close>

theorem tcp_set_durable:
  assumes "host_ok (st_host E)" "2 \<le> st_depth E" "list_all pair_ok cs" "2 * length cs \<le> 40000000"
    "concat blocks = concat (map (\<lambda>c. command_bytes (set_command c)) cs)"
  shows "\<exists>S. handle_client E [] blocks (fresh_server (lsm_open (st_host E) [] [] mb Always clk t) t0) =
       (replicate (length cs) resp_ok, Inr (), [], S) \<and>
     (\<forall>c mb' mode' clk' t' t1 k. fst (execute_command E (PList [PStr ''GET'', PStr k])
        (fresh_server (lsm_open (st_host E) (fst (lsm_crash c (db_lsm S))) (snd (lsm_crash c (db_lsm S))) mb' mode' clk' t') t1)) =
        resp_bulk (map_of (rev cs) k))"
proof -
  let ?L = "lsm_open (st_host E) [] [] mb Always clk t" and ?cmds = "map set_command cs"
  have r: "db_repr (st_host E) (fresh_server ?L t0) Map.empty (2 * length cs)"
    using lsm_repr_fresh [OF assms(1,4)] by (simp add: db_repr_def fresh_server_def)
  have i: "strings_inv Map.empty Map.empty" by (simp add: strings_inv_def)
  obtain S f where S: "run_commands E ?cmds (fresh_server ?L t0) = (replicate (length cs) resp_ok, S)"
    "db_repr (st_host E) S f 0" "strings_inv f (Map.empty ++ map_of (rev cs))" "db_setup S = db_setup (fresh_server ?L t0)"
    using set_steps [OF r i assms(3)] by blast
  have "list_all command_ok ?cmds" using assms(3) by (auto simp: list_all_iff command_ok_def set_command_def pair_ok_def utf8_ascii)
  moreover have "concat blocks = concat (map command_bytes ?cmds)" using assms(5) by (simp only: map_map comp_def)
  ultimately have "handle_client E [] blocks (fresh_server ?L t0) = (replicate (length cs) resp_ok, Inr (), [], S)"
    using handle_client_commands [OF _ assms(2)] S(1) by simp
  moreover have "fst (db_setup S) = Always" using S(4) fresh_tree(4) by (simp add: db_setup_def tree_setup_def wal_setup_def fresh_server_def)
  ultimately show ?thesis using get_after_crash [OF S(2,3)] by (metis empty_map_add)
qed

theorem tcp_set_durable_witness:
  "\<exists>S. handle_client sample_site [] [take 9 (command_bytes [''SET'', ''k'', ''1'']),
         drop 9 (command_bytes [''SET'', ''k'', ''1'']) @ command_bytes [''SET'', ''k'', ''2'']]
       (fresh_server (lsm_open sample_host [] [] 100 Always (\<lambda>_. 0) 0) 0) = ([resp_ok, resp_ok], Inr (), [], S) \<and>
     fst (execute_command sample_site (PList [PStr ''GET'', PStr ''k''])
        (fresh_server (lsm_open sample_host (fst (lsm_crash 5 (db_lsm S))) (snd (lsm_crash 5 (db_lsm S))) 7 NoSync (\<lambda>_. 1) 3) 1)) =
        resp_bulk (Some ''2'')"
proof -
  let ?cs = "[(''k'', ''1''), (''k'', ''2'')]"
  have "list_all pair_ok ?cs" by (simp add: pair_ok_def name_ok_def val_ok_def TOMBSTONE_def utf8_ascii)
  moreover have "concat [take 9 (command_bytes [''SET'', ''k'', ''1'']),
         drop 9 (command_bytes [''SET'', ''k'', ''1'']) @ command_bytes [''SET'', ''k'', ''2'']] =
      concat (map (\<lambda>c. command_bytes (set_command c)) ?cs)"
    by (simp add: set_command_def flip: append.assoc)
  ultimately show ?thesis
    using tcp_set_durable [of sample_site ?cs _ 100 "\<lambda>_. 0" 0 0] sample_run_ok(2)
    by (fastforce simp: sample_site_def)
qed

end
