(* ===== verification/HttpLaws.thy ===== *)
theory HttpLaws
  imports Http TcpDurable
begin

text \<open>
  The REST handlers: every response is complete, a refused request changes nothing, the strings
  of the two servers are the same strings, and the dashboard does not find keys whose names it
  has to encode.
\<close>

section \<open>What a handler sends\<close>

definition sends :: "(http_response \<Rightarrow> bool) \<Rightarrow> ('s, http_response) pym \<Rightarrow> bool" where
  "sends A m \<longleftrightarrow> (\<forall>S r S'. m S = (Inr r, S') \<longrightarrow> A r)"

named_theorems sends_intros \<open>rules for sends\<close>

lemma sends_rules [sends_intros]:
  "A r \<Longrightarrow> sends A (ret r)"
  "sends A (raise e)"
  "(\<And>x. sends A (f x)) \<Longrightarrow> sends A (bnd k f)"
  "sends A n \<Longrightarrow> sends A (sq j n)"
  "(b \<Longrightarrow> sends A m) \<Longrightarrow> (\<not> b \<Longrightarrow> sends A n) \<Longrightarrow> sends A (if b then m else n)"
  by (auto simp: sends_def ret_def raise_def bnd_def sq_def split: prod.splits sum.splits)

lemma sends_cases [sends_intros]:
  "sends A n \<Longrightarrow> (\<And>y. sends A (g y)) \<Longrightarrow> sends A (case x of None \<Rightarrow> n | Some y \<Rightarrow> g y)"
  "(\<And>a b. sends A (h a b)) \<Longrightarrow> sends A n \<Longrightarrow> sends A (case xs of [a, b] \<Rightarrow> h a b | _ \<Rightarrow> n)"
  by (auto split: option.split list.split)

definition statuses :: "nat set" where
  "statuses = {OK, CREATED, BAD_REQUEST, NOT_FOUND}"

text \<open>A complete response: its length is announced, and a JSON body reads back as the data.\<close>

definition complete :: "http_site \<Rightarrow> http_response \<Rightarrow> bool" where
  "complete E r \<longleftrightarrow> map_of (rs_headers r) ''Content-Length'' = Some (str_nat (length (rs_body r))) \<and>
     (r = html_response (hs_dashboard E) \<or>
      (\<exists>j. r = json_response (rs_status r) j \<and> rs_status r \<in> statuses \<and> (json_ok j \<longrightarrow> json_loads (rs_body r) = Some j)))"

lemma complete_json: "status \<in> statuses \<Longrightarrow> complete E (json_response status j)"
  by (auto simp: complete_def json_response_def Let_def json_indent_roundtrip)

lemma complete_html: "complete E (html_response (hs_dashboard E))"
  by (simp add: complete_def html_response_def)

lemma sends_json [sends_intros]: "A (json_response status j) \<Longrightarrow> sends A (send_json status j)"
  by (simp add: send_json_def sends_rules(1))

lemma sends_error [sends_intros]: "A (json_response status (JObj [(''error'', JStr msg)])) \<Longrightarrow> sends A (error_json status msg)"
  by (simp add: error_json_def sends_json)

lemma sends_created [sends_intros]: "(\<And>j. A (json_response status j)) \<Longrightarrow> sends A (send_json status j)"
  by (rule sends_json)

definition answers :: "http_site \<Rightarrow> http_response \<Rightarrow> bool" where
  "answers E r \<longleftrightarrow> complete E r \<and> rs_status r \<noteq> BAD_REQUEST"

lemma answers_json: "status \<in> statuses - {BAD_REQUEST} \<Longrightarrow> answers E (json_response status j)"
  using complete_json [of status E j] by (auto simp: answers_def json_response_def Let_def)

lemma answers_html: "answers E (html_response (hs_dashboard E))"
  using complete_html [of E] by (simp add: answers_def html_response_def OK_def BAD_REQUEST_def)

lemma status_codes: "OK \<in> statuses - {BAD_REQUEST}" "CREATED \<in> statuses - {BAD_REQUEST}" "NOT_FOUND \<in> statuses - {BAD_REQUEST}"
  "BAD_REQUEST \<in> statuses"
  by (simp_all add: statuses_def OK_def CREATED_def NOT_FOUND_def BAD_REQUEST_def)

lemmas answers_intros = sends_intros answers_json answers_html status_codes(1-3)

lemma get_answers: "sends (answers E) (do_GET E target)"
  unfolding do_GET_def Let_def get_metrics_def get_key_def split_beta by (intro answers_intros)

lemma delete_answers: "sends (answers E) (do_DELETE E target)"
  unfolding do_DELETE_def Let_def by (intro answers_intros)

lemma sends_weaken: "sends A m \<Longrightarrow> (\<And>r. A r \<Longrightarrow> B r) \<Longrightarrow> sends B m"
  by (auto simp: sends_def)

text \<open>What follows the decoding of fields: the state is the one the fields were read in.\<close>

definition refusing :: "http_site \<Rightarrow> ('s, http_response) pym \<Rightarrow> bool" where
  "refusing E m \<longleftrightarrow> (\<forall>S r S'. m S = (Inr r, S') \<longrightarrow> complete E r \<and> (rs_status r = BAD_REQUEST \<longrightarrow> S' = S))"

lemma refusing_answers: "sends (answers E) m \<Longrightarrow> refusing E m"
  by (auto simp: sends_def refusing_def answers_def)

lemma refusing_field: "(\<And>x. refusing E (f x)) \<Longrightarrow> refusing E (bnd (lift_res v) f)"
  by (auto simp: refusing_def bnd_def lift_res_def split: sum.splits)

lemma refusing_error: "refusing E (error_json BAD_REQUEST msg)"
  using complete_json [OF status_codes(4)] by (auto simp: refusing_def error_json_def send_json_def ret_def)

lemma refusing_if: "(b \<Longrightarrow> refusing E m) \<Longrightarrow> (\<not> b \<Longrightarrow> refusing E n) \<Longrightarrow> refusing E (if b then m else n)"
  by simp

lemma post_refusing: "refusing E (post_kv E body)" "refusing E (post_vector E body)"
  unfolding post_kv_def post_vector_def field_def Let_def
  by (intro refusing_field refusing_if refusing_error refusing_answers answers_intros)+

lemma post_answers: "sends (answers E) (post_search E body)" "sends (answers E) (post_vector_search E body)"
  "sends (answers E) (post_query E coll body)" "sends (answers E) (post_doc E coll body)"
  unfolding post_search_def post_vector_search_def post_query_def post_doc_def Let_def
  by (intro answers_intros)+

lemma post_all: "refusing E (do_POST E rq)"
proof -
  have c: "sends (answers E) (sq (on_lsm (lsm_compact (st_host (hs_site E)))) (send_json OK j))" for j
    by (intro answers_intros)
  have n: "refusing E (error_json NOT_FOUND msg)" for msg by (intro refusing_answers answers_intros)
  show ?thesis unfolding do_POST_def Let_def
    by (intro refusing_field, split option.split, intro conjI allI impI refusing_error refusing_if post_refusing n
      refusing_answers [OF post_answers(1)] refusing_answers [OF post_answers(2)] refusing_answers [OF post_answers(3)]
      refusing_answers [OF post_answers(4)] refusing_answers [OF c])
qed

lemma handle_shape:
  "http_handle E rq S = (Inr r, S') \<Longrightarrow>
   rq_method rq = OPTIONS \<and> rs_status r = NO_CONTENT \<and> rs_body r = [] \<and> S' = S \<or>
   complete E r \<and> (rs_status r = BAD_REQUEST \<longrightarrow> rq_method rq = POST \<and> S' = S\<lparr>h_ops := h_ops S + 1\<rparr>)"
proof -
  assume h: "http_handle E rq S = (Inr r, S')"
  let ?S = "S\<lparr>h_ops := h_ops S + 1\<rparr>"
  have plain: "complete E r \<and> rs_status r \<noteq> BAD_REQUEST" if "sends (answers E) m" "m ?S = (Inr r, S')" for m
    using that by (auto simp: sends_def answers_def)
  show ?thesis
  proof (cases "rq_method rq")
    case GET
    then have "do_GET E (rq_target rq) ?S = (Inr r, S')" using h by (simp add: http_handle_def count_op_def sq_def bnd_def)
    then show ?thesis using plain [OF get_answers] by blast
  next
    case POST
    then have "do_POST E rq ?S = (Inr r, S')" using h by (simp add: http_handle_def count_op_def sq_def bnd_def)
    then show ?thesis using post_all [of E rq] POST by (auto simp: refusing_def)
  next
    case DELETE
    then have "do_DELETE E (rq_target rq) ?S = (Inr r, S')" using h by (simp add: http_handle_def count_op_def sq_def bnd_def)
    then show ?thesis using plain [OF delete_answers] by blast
  next
    case OPTIONS
    then show ?thesis using h by (auto simp: http_handle_def do_OPTIONS_def ret_def)
  qed
qed

text \<open>
  C35. The responses of a handler that does not raise. A GET, POST or DELETE request is answered
  with a complete response: its status is one of 200, 201, 400 and 404, its Content-Length is
  the length of its body, and the body is the dashboard or the indented JSON of some data,
  which reads back as that data if it has no not-a-number (\<open>json_ok\<close>). An OPTIONS request is answered
  with status 204, the three headers for cross-origin requests and no others (no
  Content-Length), and no body, and changes nothing.
\<close>

theorem http_responses_complete:
  assumes "http_handle E rq S = (Inr r, S')"
  shows "if rq_method rq = OPTIONS
    then r = \<lparr>rs_status = 204, rs_headers = [(''Access-Control-Allow-Origin'', ''*''),
          (''Access-Control-Allow-Methods'', ''GET, POST, DELETE, OPTIONS''),
          (''Access-Control-Allow-Headers'', ''Content-Type'')], rs_body = []\<rparr> \<and> S' = S
    else map_of (rs_headers r) ''Content-Length'' = Some (str_nat (length (rs_body r))) \<and>
      (r = html_response (hs_dashboard E) \<or>
       (\<exists>j. r = json_response (rs_status r) j \<and> rs_status r \<in> {200, 201, 400, 404} \<and> (json_ok j \<longrightarrow> json_loads (rs_body r) = Some j)))"
proof (cases "rq_method rq = OPTIONS")
  case True
  then show ?thesis using assms by (auto simp: http_handle_def do_OPTIONS_def ret_def NO_CONTENT_def cors_headers_def)
next
  case False
  have "statuses = {200, 201, 400, 404}" by (simp add: statuses_def OK_def CREATED_def BAD_REQUEST_def NOT_FOUND_def)
  then show ?thesis using handle_shape [OF assms(1)] False by (simp add: complete_def)
qed

text \<open>
  C36. A request that is refused with 400, because its body is not JSON or a field is missing,
  has changed nothing but the count of requests.
\<close>

theorem http_refusal_changes_nothing:
  assumes "http_handle E rq S = (Inr r, S')" "rs_status r = 400"
  shows "rq_method rq = POST \<and> S' = S\<lparr>h_ops := h_ops S + 1\<rparr>"
  using handle_shape [OF assms(1)] assms(2) by (auto simp: BAD_REQUEST_def NO_CONTENT_def)

section \<open>Strings\<close>

lemma wp_with_kv: "wp m (\<lambda>x K. Q x (S\<lparr>db_lsm := db_lsm K, h_heap := kv_heap K\<rparr>)) \<lparr>db_lsm = db_lsm S, kv_heap = h_heap S\<rparr> \<Longrightarrow> wp (with_kv m) Q S"
  by (auto simp: wp_def with_kv_def split: prod.splits sum.splits)

definition string_entry :: "(bytes \<rightharpoonup> bytes) \<Rightarrow> bytes \<Rightarrow> bytes \<Rightarrow> bool" where
  "string_entry f k v \<longleftrightarrow> f (EXP_KEY k) = None \<and> f (TYPE_KEY k) = Some ''string'' \<and> f (V_KEY k) = Some v"

lemma wp_string:
  assumes r: "db_repr H K f n" and e: "string_entry f k v"
  shows "Q (Some v) K \<Longrightarrow> wp (kv_get H k) Q K" "P ''string'' K \<Longrightarrow> wp (kv_type H k) P K" "R (-1) K \<Longrightarrow> wp (kv_ttl H k) R K"
proof -
  have e: "f (EXP_KEY k) = None" "f (TYPE_KEY k) = Some ''string''" "f (V_KEY k) = Some v" using e by (simp_all add: string_entry_def)
  note x = wp_is_not_expired [OF r e(1)]
  show "wp (kv_get H k) Q K" if "Q (Some v) K"
    unfolding kv_get_def wp_simps by (rule x, simp only: if_False, rule wp_db_get [OF r], simp only: e that)
  show "wp (kv_type H k) P K" if "P ''string'' K"
    unfolding kv_type_def wp_simps by (rule x, simp only: if_False, simp only: wp_simps, rule wp_db_get [OF r]) (simp add: e that)
  show "wp (kv_ttl H k) R K" if "R (-1) K"
    unfolding kv_ttl_def wp_simps
    by (rule x, simp only: if_False, simp only: wp_simps, rule wp_db_get [OF r], simp only: e option.distinct if_False,
        simp only: wp_simps, rule wp_db_get [OF r]) (simp add: e that)
qed

text \<open>Names that reach a handler unchanged in a path.\<close>

definition path_key :: "bytes \<Rightarrow> bool" where
  "path_key k \<longleftrightarrow> k \<noteq> [] \<and> last k \<noteq> CHR ''/'' \<and> CHR ''#'' \<notin> set k \<and> CHR ''?'' \<notin> set k \<and> CHR '';'' \<notin> set k"

lemma cut_params_id: "CHR '';'' \<notin> set p \<Longrightarrow> cut_params p = p"
proof -
  assume p: "CHR '';'' \<notin> set p"
  let ?s = "rev (takeWhile (\<lambda>c. c \<noteq> CHR ''/'') (rev p))"
  have d: "rev p = takeWhile (\<lambda>c. c \<noteq> CHR ''/'') (rev p) @ dropWhile (\<lambda>c. c \<noteq> CHR ''/'') (rev p)" by simp
  have "p = rev (dropWhile (\<lambda>c. c \<noteq> CHR ''/'') (rev p)) @ ?s" by (metis d rev_append rev_rev_ident)
  moreover have "takeWhile (\<lambda>c. c \<noteq> CHR '';'') ?s = ?s" using p by (auto simp: takeWhile_eq_all_conv dest: set_takeWhileD)
  ultimately show ?thesis unfolding cut_params_def Let_def
    by (metis append_eq_conv_conj diff_diff_cancel length_append le_add2 add_diff_cancel_right')
qed

lemma path_of_key: "path_key k \<Longrightarrow> rstrip_slash (fst (urlparse (API_KV @ k))) = API_KV @ k"
proof -
  assume k: "path_key k"
  have "takeWhile (\<lambda>c. c \<noteq> x) (API_KV @ k) = API_KV @ k" if "x = CHR ''#'' \<or> x = CHR ''?''" for x
    using that k by (auto simp: takeWhile_eq_all_conv path_key_def API_KV_def)
  then have "takeWhile (\<lambda>c. c \<noteq> CHR ''#'') (API_KV @ k) = API_KV @ k" "takeWhile (\<lambda>c. c \<noteq> CHR ''?'') (API_KV @ k) = API_KV @ k"
    by blast+
  then have "fst (urlparse (API_KV @ k)) = cut_params (API_KV @ k)" unfolding urlparse_def Let_def by (simp only: fst_conv)
  also have "\<dots> = API_KV @ k" by (rule cut_params_id) (use k in \<open>simp add: path_key_def API_KV_def\<close>)
  finally show ?thesis using k by (cases k rule: rev_cases) (simp_all add: rstrip_slash_def path_key_def)
qed

definition http_get :: "bytes \<Rightarrow> http_request" where
  "http_get target = \<lparr>rq_method = GET, rq_target = target, rq_length = None, rq_body = []\<rparr>"

definition http_post :: "bytes \<Rightarrow> bytes \<Rightarrow> http_request" where
  "http_post target body = \<lparr>rq_method = POST, rq_target = target, rq_length = Some (str_nat (length body)), rq_body = body\<rparr>"

definition key_json :: "bytes \<Rightarrow> bytes \<Rightarrow> json" where
  "key_json k v = JObj [(''key'', JStr k), (''value'', JStr v), (''type'', JStr ''string''), (''ttl'', JInt (-1))]"

lemma handle_get_key:
  "path_key k \<Longrightarrow> http_handle E (http_get (API_KV @ k)) S = get_key E k (S\<lparr>h_ops := h_ops S + 1\<rparr>)"
proof -
  assume k: "path_key k"
  have "do_GET E (API_KV @ k) = get_key E k"
    unfolding do_GET_def Let_def split_beta path_of_key [OF k] by (simp add: API_KV_def path_after_def startswith_def)
  then show ?thesis by (simp add: http_handle_def http_get_def sq_def bnd_def count_op_def)
qed

lemma http_get_string:
  assumes r: "db_repr (st_host (hs_site E)) S f n" and e: "string_entry f k v" and k: "path_key k" and v: "utf8_valid v"
  shows "http_handle E (http_get (API_KV @ k)) S = (Inr (json_response OK (key_json k v)), S\<lparr>h_ops := h_ops S + 1\<rparr>)"
proof -
  let ?S = "S\<lparr>h_ops := h_ops S + 1\<rparr>"
  let ?K = "\<lparr>db_lsm = db_lsm S, kv_heap = h_heap S\<rparr>"
  have r': "db_repr (st_host (hs_site E)) ?K f n" using r by (simp add: db_repr_def)
  note w = wp_string [OF r' e]
  have "wp (get_key E k) (\<lambda>x S'. x = json_response OK (key_json k v) \<and> S' = ?S) ?S"
    unfolding get_key_def Let_def wp_simps
    by (rule wp_with_kv, simp, rule w(1), simp, rule wp_with_kv, simp, rule w(2), simp, rule wp_with_kv, simp, rule w(3))
      (simp add: text_json_def v send_json_def key_json_def)
  then show ?thesis unfolding handle_get_key [OF k] by (auto elim: wpE)
qed

lemma json_loads_nonempty: "json_loads [] = None"
  by (simp add: json_loads_def skip_space_def read_value.simps startswith_def)

lemma read_body_json:
  assumes "json_loads body = Some j" "utf8_valid body" "length body < 2 ^ 63"
  shows "read_body E (http_post target body) = Inr (Some j)"
proof -
  have "body \<noteq> []" using assms(1) json_loads_nonempty by auto
  moreover have "int (length body) < 2 ^ 63" using assms(3) by simp
  ultimately show ?thesis
    using assms(1,2) by (simp add: read_body_def read_length_def http_post_def int_arg_def str_nat_no_cr(3) decode_json_def py_decode_def Let_def)
qed

definition string_body :: "bytes \<Rightarrow> json \<Rightarrow> bytes \<Rightarrow> bool" where
  "string_body k v body \<longleftrightarrow> json_loads body = Some (JObj [(''key'', JStr k), (''value'', v)]) \<and> v \<noteq> JNull \<and>
     utf8_valid body \<and> length body < 2 ^ 63"

lemma http_post_string:
  assumes r: "db_repr (st_host (hs_site E)) S f (Suc (Suc n))" and e: "f (EXP_KEY k) = None" and k: "k \<noteq> []" "name_ok k"
    and v: "val_ok (payload_of v)" and b: "string_body k v body"
  shows "\<exists>S1. http_handle E (http_post ''/api/v1/kv'' body) S =
      (Inr (json_response OK (JObj [(''status'', JStr ''ok''), (''key'', JStr k)])), S1) \<and>
    db_repr (st_host (hs_site E)) S1 (f(V_KEY k \<mapsto> payload_of v, TYPE_KEY k \<mapsto> ''string'')) n"
proof -
  let ?H = "st_host (hs_site E)" and ?S = "S\<lparr>h_ops := h_ops S + 1\<rparr>" and ?body = "JObj [(''key'', JStr k), (''value'', v)]"
  let ?K = "\<lparr>db_lsm = db_lsm S, kv_heap = h_heap S\<rparr>" and ?f = "f(V_KEY k \<mapsto> payload_of v, TYPE_KEY k \<mapsto> ''string'')"
  have "read_body E (http_post ''/api/v1/kv'' body) = Inr (Some ?body)"
    using b by (intro read_body_json) (simp_all add: string_body_def)
  moreover have "rstrip_slash (fst (urlparse ''/api/v1/kv'')) = ''/api/v1/kv''"
    by (simp add: urlparse_def cut_params_def rstrip_slash_def)
  ultimately have p: "do_POST E (http_post ''/api/v1/kv'' body) ?S = post_kv E ?body ?S"
    by (simp add: do_POST_def http_post_def bnd_def lift_res_def)
  have "wp (kv_set ?H k (payload_of v) None False False) (\<lambda>b K. b \<and> db_repr ?H K ?f n) ?K"
    by (rule wp_kv_set [where f = f and n = n]) (use r e k v in \<open>simp_all add: db_repr_def\<close>)
  then obtain K where K: "kv_set ?H k (payload_of v) None False False ?K = (Inr True, K)" "db_repr ?H K ?f n"
    by (auto elim: wpE)
  let ?S1 = "?S\<lparr>db_lsm := db_lsm K, h_heap := kv_heap K\<rparr>"
  have "v \<noteq> JNull" using b by (simp add: string_body_def)
  then have "post_kv E ?body ?S = (Inr (json_response OK (JObj [(''status'', JStr ''ok''), (''key'', JStr k)])), ?S1)"
    using K(1) k(1) by (simp add: post_kv_def field_def json_get_def bnd_def sq_def lift_res_def with_kv_def set_value_def
        json_text_def py_str_def ret_def send_json_def)
  then have "http_handle E (http_post ''/api/v1/kv'' body) S =
      (Inr (json_response OK (JObj [(''status'', JStr ''ok''), (''key'', JStr k)])), ?S1)"
    using p by (simp add: http_handle_def http_post_def sq_def bnd_def count_op_def)
  moreover have "db_repr ?H ?S1 ?f n" using K(2) by (simp add: db_repr_def)
  ultimately show ?thesis by blast
qed

lemma tcp_get_string:
  assumes "db_repr (st_host E) T f n" "string_entry f k v"
  shows "fst (run_parts E [''GET'', k] T) = resp_bulk (Some v)"
proof -
  have "db_repr (st_host E) \<lparr>db_lsm = db_lsm T, kv_heap = s_heap T\<rparr> f n" using assms(1) by (simp add: db_repr_def)
  from wp_string(1) [OF this assms(2), of "\<lambda>x _. x = Some v"] show ?thesis
    by (auto elim!: wpE simp: run_parts_def upper_names dispatch_get catch_reply_def reply_def bnd_def on_kv_def ret_def)
qed

text \<open>
  C37. The strings of the REST interface and of the RESP server are the same, for a key without
  an expiry whose name stands unencoded in a path: not empty, no slash at its end, and no
  \<open>#\<close>, \<open>?\<close> or \<open>;\<close> in it (the names with spaces or other characters that a client has to encode
  are not found, see \<open>http_dashboard_misses_key\<close>). A value stored by a
  POST is returned by a GET of its path, with its type and without a lifetime, and by the GET
  command of a server on the same tree; a value stored by the SET command is returned by a GET
  of its path. A value that is not a string is returned as its JSON text.
\<close>

theorem http_tcp_share_strings:
  assumes "db_repr (st_host (hs_site E)) S f (Suc (Suc n))" "f (EXP_KEY k) = None" "path_key k" "name_ok k" "utf8_valid k"
    and "val_ok (payload_of v)" "json_ok v" "string_body k v body"
    and "val_ok w" "utf8_valid w"
  shows "(\<exists>S1. http_handle E (http_post ''/api/v1/kv'' body) S =
       (Inr (json_response OK (JObj [(''status'', JStr ''ok''), (''key'', JStr k)])), S1) \<and>
     fst (http_handle E (http_get (API_KV @ k)) S1) = Inr (json_response OK (key_json k (payload_of v))) \<and>
     (\<forall>T. db_lsm T = db_lsm S1 \<longrightarrow> fst (run_parts (hs_site E) [''GET'', k] T) = resp_bulk (Some (payload_of v)))) \<and>
   (\<forall>T. db_lsm T = db_lsm S \<longrightarrow> (\<exists>T1. run_parts (hs_site E) [''SET'', k, w] T = (resp_ok, T1) \<and>
     (\<forall>S1. db_lsm S1 = db_lsm T1 \<longrightarrow> fst (http_handle E (http_get (API_KV @ k)) S1) = Inr (json_response OK (key_json k w)))))"
proof (intro conjI allI impI)
  let ?H = "st_host (hs_site E)"
  have entry: "string_entry (f(V_KEY k \<mapsto> x, TYPE_KEY k \<mapsto> ''string'')) k x" for x using assms(2) by (simp add: string_entry_def)
  have p: "utf8_valid (payload_of v)" using assms(7) by (cases v) (simp_all add: payload_of_def del: json_dumps.simps)
  have "k \<noteq> []" using assms(3) by (simp add: path_key_def)
  then obtain S1 where S1: "http_handle E (http_post ''/api/v1/kv'' body) S =
      (Inr (json_response OK (JObj [(''status'', JStr ''ok''), (''key'', JStr k)])), S1)"
      "db_repr ?H S1 (f(V_KEY k \<mapsto> payload_of v, TYPE_KEY k \<mapsto> ''string'')) n"
    using http_post_string [OF assms(1,2) _ assms(4,6,8)] by blast
  have "fst (run_parts (hs_site E) [''GET'', k] T) = resp_bulk (Some (payload_of v))" if "db_lsm T = db_lsm S1" for T
    using that S1(2) by (intro tcp_get_string [OF _ entry]) (simp add: db_repr_def)
  then show "\<exists>S1. http_handle E (http_post ''/api/v1/kv'' body) S =
       (Inr (json_response OK (JObj [(''status'', JStr ''ok''), (''key'', JStr k)])), S1) \<and>
     fst (http_handle E (http_get (API_KV @ k)) S1) = Inr (json_response OK (key_json k (payload_of v))) \<and>
     (\<forall>T. db_lsm T = db_lsm S1 \<longrightarrow> fst (run_parts (hs_site E) [''GET'', k] T) = resp_bulk (Some (payload_of v)))"
    using S1(1) http_get_string [OF S1(2) entry assms(3) p] by auto
  fix T :: server assume "db_lsm T = db_lsm S"
  then have "db_repr ?H T f (Suc (Suc n))" using assms(1) by (simp add: db_repr_def)
  from run_set [OF this assms(2,4,9)] obtain T1 where T1: "run_parts (hs_site E) [''SET'', k, w] T = (resp_ok, T1)"
      "db_repr ?H T1 (f(V_KEY k \<mapsto> w, TYPE_KEY k \<mapsto> ''string'')) n" by (auto simp: set_command_def simp del: fun_upd_apply)
  have "fst (http_handle E (http_get (API_KV @ k)) S1) = Inr (json_response OK (key_json k w))" if "db_lsm S1 = db_lsm T1" for S1
    using http_get_string [OF _ entry assms(3,10)] that T1(2) by (simp add: db_repr_def)
  then show "\<exists>T1. run_parts (hs_site E) [''SET'', k, w] T = (resp_ok, T1) \<and>
     (\<forall>S1. db_lsm S1 = db_lsm T1 \<longrightarrow> fst (http_handle E (http_get (API_KV @ k)) S1) = Inr (json_response OK (key_json k w)))"
    using T1(1) by blast
qed

section \<open>The dashboard\<close>

text \<open>
  The page asks for the path of \<open>encodeURIComponent(key)\<close>: letters, digits and a few marks are kept,
  every other byte of the UTF-8 text becomes an escape.
\<close>

definition uri_char :: "char \<Rightarrow> bool" where
  "uri_char c \<longleftrightarrow> (let n = of_char c :: nat in 48 \<le> n \<and> n \<le> 57 \<or> 65 \<le> n \<and> n \<le> 90 \<or> 97 \<le> n \<and> n \<le> 122) \<or>
     c \<in> set ''-_.!~*()'' \<or> c = CHR 0x27"

definition hex_upper :: "nat \<Rightarrow> char" where
  "hex_upper d = char_of (if d < 10 then 48 + d else 55 + d)"

definition encode_uri_component :: "bytes \<Rightarrow> bytes" where
  "encode_uri_component s = concat (map (\<lambda>c. if uri_char c then [c]
     else [CHR ''%'', hex_upper (of_char c div 16), hex_upper (of_char c mod 16)]) s)"

definition execute_get :: "bytes \<Rightarrow> http_request" where
  "execute_get key = http_get (''/api/v1/kv/'' @ encode_uri_component key)"

lemma length_encode: "length s \<le> length (encode_uri_component s)"
  and encode_grows: "\<exists>c \<in> set s. \<not> uri_char c \<Longrightarrow> length s < length (encode_uri_component s)"
proof -
  show l: "length s \<le> length (encode_uri_component s)" for s by (induction s) (auto simp: encode_uri_component_def)
  show "\<exists>c \<in> set s. \<not> uri_char c \<Longrightarrow> length s < length (encode_uri_component s)"
  proof (induction s)
    case (Cons a s)
    have e: "encode_uri_component (a # s) = (if uri_char a then [a]
       else [CHR ''%'', hex_upper (of_char a div 16), hex_upper (of_char a mod 16)]) @ encode_uri_component s"
      by (simp add: encode_uri_component_def)
    show ?case using Cons l [of s] by (auto simp: e)
  qed simp
qed

lemma hex_upper_plain: "d < 16 \<Longrightarrow> hex_upper d \<noteq> CHR ''/'' \<and> hex_upper d \<noteq> CHR ''#'' \<and> hex_upper d \<noteq> CHR ''?'' \<and> hex_upper d \<noteq> CHR '';''"
  by (auto simp: hex_upper_def char_of_eq_iff take_bit_eq_mod)

lemma uri_char_plain: "uri_char c \<Longrightarrow> c \<noteq> CHR ''/'' \<and> c \<noteq> CHR ''#'' \<and> c \<noteq> CHR ''?'' \<and> c \<noteq> CHR '';''"
  by (auto simp: uri_char_def Let_def)

lemma encode_path_key: "s \<noteq> [] \<Longrightarrow> path_key (encode_uri_component s)"
proof -
  assume s: "s \<noteq> []"
  have p: "c \<noteq> CHR ''/'' \<and> c \<noteq> CHR ''#'' \<and> c \<noteq> CHR ''?'' \<and> c \<noteq> CHR '';''" if "c \<in> set (encode_uri_component s)" for c
  proof -
    from that obtain a where "c \<in> set (if uri_char a then [a]
        else [CHR ''%'', hex_upper (of_char a div 16), hex_upper (of_char a mod 16)])"
      unfolding encode_uri_component_def set_concat set_map by blast
    moreover have "of_char a div 16 < (16 :: nat)" using nat_of_char_less_256 [of a] by (simp add: less_mult_imp_div_less)
    ultimately show ?thesis using uri_char_plain [of a] hex_upper_plain by (auto split: if_splits)
  qed
  have "encode_uri_component s \<noteq> []" using s length_encode [of s] by auto
  then show ?thesis using p last_in_set unfolding path_key_def by blast
qed

text \<open>
  The dashboard cannot show a key whose name needs an escape, such as a colon or a space: the
  handler does not decode the path, looks for the escaped name, and answers 404 although the
  key is stored.
\<close>

theorem http_dashboard_misses_key:
  assumes "db_repr (st_host (hs_site E)) S f n" "string_entry f k v" "\<exists>c \<in> set k. \<not> uri_char c"
    and "f (EXP_KEY (encode_uri_component k)) = None" "f (V_KEY (encode_uri_component k)) = None"
  shows "encode_uri_component k \<noteq> k \<and>
    http_handle E (execute_get k) S =
      (Inr (json_response NOT_FOUND (JObj [(''error'', JStr ''Key not found'')])), S\<lparr>h_ops := h_ops S + 1\<rparr>)"
proof
  let ?e = "encode_uri_component k" and ?S = "S\<lparr>h_ops := h_ops S + 1\<rparr>"
  show "?e \<noteq> k" using encode_grows [OF assms(3)] by auto
  have "k \<noteq> []" using assms(3) by auto
  then have p: "path_key ?e" by (rule encode_path_key)
  have r: "db_repr (st_host (hs_site E)) \<lparr>db_lsm = db_lsm S, kv_heap = h_heap S\<rparr> f n" using assms(1) by (simp add: db_repr_def)
  have "wp (kv_get (st_host (hs_site E)) ?e) (\<lambda>x K. x = None \<and> K = \<lparr>db_lsm = db_lsm S, kv_heap = h_heap S\<rparr>) \<lparr>db_lsm = db_lsm S, kv_heap = h_heap S\<rparr>"
    unfolding kv_get_def wp_simps
    by (rule wp_is_not_expired [OF r assms(4)], simp only: if_False, rule wp_db_get [OF r], simp only: assms(5) simp_thms)
  then have "get_key E ?e ?S = (Inr (json_response NOT_FOUND (JObj [(''error'', JStr ''Key not found'')])), ?S)"
    by (auto elim!: wpE simp: get_key_def Let_def bnd_def with_kv_def error_json_def send_json_def ret_def)
  then show "http_handle E (execute_get k) S =
      (Inr (json_response NOT_FOUND (JObj [(''error'', JStr ''Key not found'')])), ?S)"
    using handle_get_key [OF p, of E S] by (simp add: execute_get_def API_KV_def)
qed

section \<open>A concrete server\<close>

definition sample_http :: http_site where
  "sample_http = \<lparr>hs_site = sample_site, hs_dashboard = ''<html></html>''\<rparr>"

definition fresh_httpd :: "lsm \<Rightarrow> f64 \<Rightarrow> httpd" where
  "fresh_httpd L t = \<lparr>db_lsm = L, h_heap = [], h_indexes = [], h_texts = [], h_vectors = [], h_start = t, h_ops = 0\<rparr>"

lemma sample_httpd: "n \<le> 40000000 \<Longrightarrow> db_repr (st_host (hs_site sample_http)) (fresh_httpd sample_tree 0) Map.empty n"
  using sample_repr [of n] by (simp add: db_repr_def fresh_httpd_def sample_http_def sample_site_def)

theorem http_responses_complete_witness:
  "\<exists>r. http_handle sample_http (http_get ''/health'') (fresh_httpd sample_tree 0) = (Inr r, (fresh_httpd sample_tree 0)\<lparr>h_ops := 1\<rparr>) \<and>
     map_of (rs_headers r) ''Content-Length'' = Some (str_nat (length (rs_body r)))"
proof -
  let ?r = "json_response OK (JObj [(''status'', JStr ''ok''), (''version'', JStr ''1.0.0''), (''engine'', JStr ''ZenithDB'')])"
  have h: "http_handle sample_http (http_get ''/health'') (fresh_httpd sample_tree 0) = (Inr ?r, (fresh_httpd sample_tree 0)\<lparr>h_ops := 1\<rparr>)"
    by (simp add: http_handle_def http_get_def sq_def bnd_def count_op_def do_GET_def urlparse_def cut_params_def rstrip_slash_def
        send_json_def ret_def fresh_httpd_def)
  from http_responses_complete [OF h] have "map_of (rs_headers ?r) ''Content-Length'' = Some (str_nat (length (rs_body ?r)))"
    by (simp only: http_get_def http_request.simps http_method.distinct if_False)
  with h show ?thesis by blast
qed

theorem http_refusal_changes_nothing_witness:
  "\<exists>r. http_handle sample_http \<lparr>rq_method = POST, rq_target = ''/api/v1/kv'', rq_length = None, rq_body = []\<rparr> (fresh_httpd sample_tree 0) =
     (Inr r, (fresh_httpd sample_tree 0)\<lparr>h_ops := 1\<rparr>)"
proof -
  let ?rq = "\<lparr>rq_method = POST, rq_target = ''/api/v1/kv'', rq_length = None, rq_body = []\<rparr>"
  let ?r = "json_response BAD_REQUEST (JObj [(''error'', JStr (''Missing '' @ quoted ''key'' @ '' or '' @ quoted ''value''))])"
  obtain S where h: "http_handle sample_http ?rq (fresh_httpd sample_tree 0) = (Inr ?r, S)"
    by (simp add: http_handle_def sq_def bnd_def count_op_def do_POST_def read_body_def read_length_def lift_res_def urlparse_def
        cut_params_def rstrip_slash_def post_kv_def field_def json_get_def error_json_def send_json_def ret_def)
  have "rs_status ?r = 400" by (simp add: json_response_def Let_def BAD_REQUEST_def)
  from http_refusal_changes_nothing [OF h this] have "S = (fresh_httpd sample_tree 0)\<lparr>h_ops := 1\<rparr>" by (simp add: fresh_httpd_def)
  with h show ?thesis by blast
qed

lemma sample_body: "string_body ''k'' (JStr ''1'') (json_dumps (JObj [(''key'', JStr ''k''), (''value'', JStr ''1'')]))"
proof -
  let ?j = "JObj [(''key'', JStr ''k''), (''value'', JStr ''1'')]"
  have u: "utf8_valid ''key''" "utf8_valid ''value''" "utf8_valid ''k''" "utf8_valid ''1''" by (simp_all add: utf8_ascii)
  have "json_loads (json_dumps ?j) = Some ?j" by (rule json_roundtrip) (simp add: u)
  moreover have "length (json_dumps ?j) \<le> dict_size [(''key'', JStr ''k''), (''value'', JStr ''1'')] + 2" by (rule dumps_length)
  then have "length (json_dumps ?j) < 2 ^ 63"
    using length_dump_str [of "''key''"] length_dump_str [of "''value''"] length_dump_str [of "''k''"] length_dump_str [of "''1''"] by simp
  ultimately show ?thesis unfolding string_body_def by (simp only: dumps_valid json.distinct simp_thms)
qed

theorem http_tcp_share_strings_witness:
  "\<exists>S T. fst (http_handle sample_http (http_get ''/api/v1/kv/k'') S) = Inr (json_response OK (key_json ''k'' ''1'')) \<and>
     fst (run_parts sample_site [''GET'', ''k''] T) = resp_bulk (Some ''1'') \<and> db_lsm T = db_lsm S"
proof -
  have k: "path_key ''k''" "name_ok ''k''" "utf8_valid ''k''" "utf8_valid ''1''" "utf8_valid ''2''" "val_ok ''1''" "val_ok ''2''"
    by (simp_all add: path_key_def name_ok_def utf8_ascii val_ok_def TOMBSTONE_def)
  have r: "db_repr (st_host (hs_site sample_http)) (fresh_httpd sample_tree 0) Map.empty (Suc (Suc 0))" by (rule sample_httpd) simp
  have "val_ok (payload_of (JStr ''1''))" "json_ok (JStr ''1'')" using k by (simp_all add: payload_of_def)
  from http_tcp_share_strings [OF r _ k(1-3) this sample_body k(7,5)]
  obtain S where S: "fst (http_handle sample_http (http_get (API_KV @ ''k'')) S) = Inr (json_response OK (key_json ''k'' (payload_of (JStr ''1''))))"
    "\<forall>T. db_lsm T = db_lsm S \<longrightarrow> fst (run_parts (hs_site sample_http) [''GET'', ''k''] T) = resp_bulk (Some (payload_of (JStr ''1'')))" by blast
  then show ?thesis
    by (intro exI [of _ S] exI [of _ "fresh_server (db_lsm S) 0"]) (simp add: API_KV_def payload_of_def sample_http_def fresh_server_def)
qed

theorem http_dashboard_misses_key_witness:
  "\<exists>S. fst (http_handle sample_http (http_get ''/api/v1/kv/user:1'') S) = Inr (json_response OK (key_json ''user:1'' ''x'')) \<and>
     fst (http_handle sample_http (execute_get ''user:1'') S) = Inr (json_response NOT_FOUND (JObj [(''error'', JStr ''Key not found'')]))"
proof -
  let ?k = "''user:1''" and ?S0 = "fresh_httpd sample_tree 0"
  have r: "db_repr (st_host sample_site) (fresh_server sample_tree 0) Map.empty (Suc (Suc 0))"
    using sample_repr [of 2] by (simp add: db_repr_def fresh_server_def sample_site_def numeral_2_eq_2)
  obtain T :: server where T: "db_repr (st_host sample_site) T (Map.empty(V_KEY ?k \<mapsto> ''x'', TYPE_KEY ?k \<mapsto> ''string'')) 0"
    using run_set [OF r, of ?k "''x''"] by (auto simp: name_ok_def val_ok_def TOMBSTONE_def simp del: fun_upd_apply)
  let ?S = "fresh_httpd (db_lsm T) 0" and ?f = "Map.empty(V_KEY ?k \<mapsto> ''x'', TYPE_KEY ?k \<mapsto> ''string'')"
  have S: "db_repr (st_host (hs_site sample_http)) ?S ?f 0" using T by (simp add: db_repr_def fresh_httpd_def sample_http_def)
  have e: "string_entry ?f ?k ''x''" by (simp add: string_entry_def)
  have c: "\<not> uri_char (CHR '':'')" by (simp add: uri_char_def)
  have n: "encode_uri_component ?k \<noteq> ?k" using encode_grows [of ?k] c by auto
  have "http_handle sample_http (execute_get ?k) ?S =
      (Inr (json_response NOT_FOUND (JObj [(''error'', JStr ''Key not found'')])), ?S\<lparr>h_ops := h_ops ?S + 1\<rparr>)"
    using http_dashboard_misses_key [OF S e] c n by auto
  moreover have "path_key ?k" "utf8_valid ''x''" by (simp_all add: path_key_def utf8_ascii)
  ultimately show ?thesis using http_get_string [OF S e] by (intro exI [of _ ?S]) (simp add: API_KV_def)
qed

end
