(* ===== verification/Terminal.thy ===== *)
theory Terminal
  imports Json
begin

text \<open>
  \<open>zenith/cli/terminal.py\<close>: the colour codes and \<open>format_table\<close>. A text is its UTF-8 encoding, and
  its length in characters is the number of bytes that do not continue one.
\<close>

section \<open>Colours\<close>

definition ESC :: char where
  "ESC = CHR 0x1B"

definition color :: "bytes \<Rightarrow> bytes" where
  "color code = ESC # CHR ''['' # code @ ''m''"

definition RESET :: bytes where "RESET = color ''0''"
definition BOLD :: bytes where "BOLD = color ''1''"
definition DIM :: bytes where "DIM = color ''2''"
definition RED :: bytes where "RED = color ''31''"
definition GREEN :: bytes where "GREEN = color ''32''"
definition YELLOW :: bytes where "YELLOW = color ''33''"
definition CYAN :: bytes where "CYAN = color ''36''"
definition BRIGHT_RED :: bytes where "BRIGHT_RED = color ''91''"
definition BRIGHT_GREEN :: bytes where "BRIGHT_GREEN = color ''92''"
definition BRIGHT_YELLOW :: bytes where "BRIGHT_YELLOW = color ''93''"
definition BRIGHT_CYAN :: bytes where "BRIGHT_CYAN = color ''96''"

definition colorize :: "bytes \<Rightarrow> bytes \<Rightarrow> bytes" where
  "colorize text color_code = color_code @ text @ RESET"

text \<open>The codes a cell is stripped of before its length is taken, in this order.\<close>

definition cell_codes :: "bytes list" where
  "cell_codes = [RESET, BOLD, DIM, GREEN, RED, YELLOW, CYAN, BRIGHT_CYAN, BRIGHT_GREEN, BRIGHT_RED, BRIGHT_YELLOW]"

section \<open>Texts\<close>

text \<open>\<open>s.replace(p, "")\<close> with a pattern that is not empty\<close>

function remove_sub :: "bytes \<Rightarrow> bytes \<Rightarrow> bytes" where
  "remove_sub p s = (case s of
      [] \<Rightarrow> []
    | c # r \<Rightarrow> if p \<noteq> [] \<and> startswith s p then remove_sub p (drop (length p) s) else c # remove_sub p r)"
  by pat_completeness auto
termination
  by (relation "measure (length \<circ> snd)") auto

declare remove_sub.simps [simp del]

definition clean_cell :: "bytes \<Rightarrow> bytes" where
  "clean_cell cell = fold remove_sub cell_codes cell"

definition ljust :: "nat \<Rightarrow> bytes \<Rightarrow> bytes" where
  "ljust w s = s @ replicate (w - str_len s) (CHR '' '')"

section \<open>Tables\<close>

definition col_count :: "bytes list \<Rightarrow> bytes list list \<Rightarrow> nat" where
  "col_count headers rows = max (length headers) (foldr max (map length rows) 0)"

definition pad_row :: "nat \<Rightarrow> bytes list \<Rightarrow> bytes list" where
  "pad_row n r = r @ replicate (n - length r) []"

definition col_widths :: "bytes list \<Rightarrow> bytes list list \<Rightarrow> nat list" where
  "col_widths headers rows = foldl (\<lambda>ws r. map2 max ws (map (\<lambda>c. str_len (clean_cell c)) r)) (map str_len headers) rows"

definition border_line :: "nat list \<Rightarrow> bytes" where
  "border_line ws = ''+'' @ join_with ''+'' (map (\<lambda>w. replicate (w + 2) (CHR ''-'')) ws) @ ''+''"

definition cell_line :: "bytes list \<Rightarrow> bytes" where
  "cell_line cells = ''|'' @ join_with ''|'' cells @ ''|''"

definition header_cell :: "nat \<Rightarrow> bytes \<Rightarrow> bytes" where
  "header_cell w h = '' '' @ ljust w h @ '' ''"

definition row_cell :: "nat \<Rightarrow> bytes \<Rightarrow> bytes" where
  "row_cell w cell = '' '' @ cell @ replicate (w - str_len (clean_cell cell)) (CHR '' '') @ '' ''"

definition table_lines :: "bytes list \<Rightarrow> bytes list list \<Rightarrow> bytes list" where
  "table_lines headers rows =
     (let n = col_count headers rows; hs = pad_row n headers; rs = map (pad_row n) rows; ws = col_widths hs rs in
      [border_line ws] @
      (if headers = [] then [] else [cell_line (map2 header_cell ws hs), border_line ws]) @
      map (\<lambda>r. cell_line (map2 row_cell ws r)) rs @
      [border_line ws])"

definition format_table :: "bytes list \<Rightarrow> bytes list list \<Rightarrow> bytes" where
  "format_table headers rows =
     (if headers = [] \<and> rows = [] then [] else join_with [CHR 0x0A] (table_lines headers rows))"

section \<open>Alignment\<close>

lemma str_len_append [simp]: "str_len (a @ b) = str_len a + str_len b"
  and str_len_Nil [simp]: "str_len [] = 0"
  by (simp_all add: str_len_def cont_def in_range_def)

lemma str_len_marks [simp]: "str_len (replicate n (CHR '' '')) = n" "str_len (replicate n (CHR ''-'')) = n"
  "str_len (CHR '' '' # s) = Suc (str_len s)" "str_len (CHR ''+'' # s) = Suc (str_len s)" "str_len (CHR ''|'' # s) = Suc (str_len s)"
  "str_len (CHR ''-'' # s) = Suc (str_len s)"
  by (simp_all add: str_len_def cont_def in_range_def)

lemma str_len_join: "str_len (join_with sep xs) = sum_list (map str_len xs) + (length xs - 1) * str_len sep"
  by (induction sep xs rule: join_with.induct) simp_all

text \<open>
  A cell is written as pieces: a colour code, by its number, or a text without an escape
  character. \<open>cell_text\<close> is the cell, \<open>cell_plain\<close> what a terminal shows of it, and \<open>hidden\<close>
  the number of characters it does not show.
\<close>

datatype piece = Code bytes | Plain bytes

fun piece_text :: "piece \<Rightarrow> bytes" where
  "piece_text (Code a) = color a"
| "piece_text (Plain t) = t"

definition cell_text :: "piece list \<Rightarrow> bytes" where
  "cell_text ps = concat (map piece_text ps)"

definition cell_plain :: "piece list \<Rightarrow> bytes" where
  "cell_plain ps = concat (map (\<lambda>x. case x of Code a \<Rightarrow> [] | Plain t \<Rightarrow> t) ps)"

definition hidden :: "piece list \<Rightarrow> nat" where
  "hidden ps = sum_list (map (\<lambda>x. case x of Code a \<Rightarrow> str_len (color a) | Plain t \<Rightarrow> 0) ps)"

text \<open>The numbers of the codes that \<open>format_table\<close> knows.\<close>

definition code_numbers :: "bytes list" where
  "code_numbers = [''0'', ''1'', ''2'', ''32'', ''31'', ''33'', ''36'', ''96'', ''92'', ''91'', ''93'']"

fun piece_ok :: "piece \<Rightarrow> bool" where
  "piece_ok (Code a) = (a \<in> set code_numbers)"
| "piece_ok (Plain t) = (ESC \<notin> set t)"

lemma cell_codes_numbers: "cell_codes = map color code_numbers"
  by (simp add: cell_codes_def code_numbers_def RESET_def BOLD_def DIM_def GREEN_def RED_def YELLOW_def
      CYAN_def BRIGHT_CYAN_def BRIGHT_GREEN_def BRIGHT_RED_def BRIGHT_YELLOW_def)

lemma number_chars: "a \<in> set code_numbers \<Longrightarrow> c \<in> set a \<Longrightarrow> c \<noteq> CHR ''m'' \<and> c \<noteq> ESC"
  by (auto simp: code_numbers_def ESC_def)

lemma cell_simps [simp]:
  "cell_text [] = []" "cell_text (Code a # ps) = color a @ cell_text ps" "cell_text (Plain t # ps) = t @ cell_text ps"
  "cell_plain [] = []" "cell_plain (Code a # ps) = cell_plain ps" "cell_plain (Plain t # ps) = t @ cell_plain ps"
  "hidden [] = 0" "hidden (Code a # ps) = str_len (color a) + hidden ps" "hidden (Plain t # ps) = hidden ps"
  by (simp_all add: cell_text_def cell_plain_def hidden_def)

lemma cell_len: "str_len (cell_text ps) = str_len (cell_plain ps) + hidden ps"
proof (induction ps)
  case (Cons x ps)
  then show ?case by (cases x) simp_all
qed simp

lemma until_m:
  "CHR ''m'' \<notin> set a \<Longrightarrow> CHR ''m'' \<notin> set b \<Longrightarrow> startswith (a @ CHR ''m'' # r) (b @ [CHR ''m'']) \<longleftrightarrow> a = b"
proof (induction a arbitrary: b)
  case Nil
  then show ?case by (cases b) (auto simp: startswith_def)
next
  case (Cons x a)
  show ?case
  proof (cases b)
    case Nil
    then show ?thesis using Cons.prems by (auto simp: startswith_def)
  next
    case (Cons y b')
    have "startswith (x # s) (y # t) \<longleftrightarrow> x = y \<and> startswith s t" for s t :: bytes
      by (auto simp: startswith_def)
    then show ?thesis using Cons.prems Cons.IH [of b'] Cons by simp
  qed
qed

text \<open>Removing one code from a cell takes that code's pieces out and leaves the others alone.\<close>

lemma remove_from_text: "ESC \<notin> set t \<Longrightarrow> remove_sub (color b) (t @ s) = t @ remove_sub (color b) s"
proof (induction t)
  case (Cons c t)
  then have "\<not> startswith (c # t @ s) (color b)" by (auto simp: startswith_def color_def)
  then show ?case using Cons by (subst remove_sub.simps) simp
qed simp

lemma remove_from_code:
  assumes "a \<in> set code_numbers" "b \<in> set code_numbers"
  shows "remove_sub (color b) (color a @ s) = (if a = b then [] else color a) @ remove_sub (color b) s"
proof -
  have st: "startswith (color a @ s) (color b) \<longleftrightarrow> a = b"
    using until_m [of a b s] number_chars assms by (force simp: color_def startswith_def)
  have e: "color a @ s = ESC # CHR ''['' # a @ CHR ''m'' # s" by (simp add: color_def)
  show ?thesis
  proof (cases "a = b")
    case True
    have "drop (length (color b)) (color b @ s) = s" by simp
    then show ?thesis using st True by (subst remove_sub.simps) (simp add: color_def)
  next
    case False
    have "ESC \<notin> set (CHR ''['' # a @ [CHR ''m''])" using number_chars [OF assms(1)] by (auto simp: ESC_def)
    from remove_from_text [OF this, of b s]
    have "remove_sub (color b) (CHR ''['' # a @ CHR ''m'' # s) = CHR ''['' # a @ CHR ''m'' # remove_sub (color b) s" by simp
    moreover have "remove_sub (color b) (ESC # CHR ''['' # a @ CHR ''m'' # s)
        = ESC # remove_sub (color b) (CHR ''['' # a @ CHR ''m'' # s)"
      using st False unfolding e by (subst remove_sub.simps) simp
    ultimately show ?thesis using False by (simp add: e color_def)
  qed
qed

lemma remove_code:
  assumes "list_all piece_ok ps" "b \<in> set code_numbers"
  shows "remove_sub (color b) (cell_text ps) = cell_text (filter (\<lambda>x. x \<noteq> Code b) ps)"
  using assms(1)
proof (induction ps)
  case (Cons x ps)
  then show ?case using assms(2) by (cases x) (simp_all add: remove_from_text remove_from_code)
qed (simp add: remove_sub.simps)

lemma remove_codes:
  assumes "list_all piece_ok ps" "set bs \<subseteq> set code_numbers"
  shows "fold remove_sub (map color bs) (cell_text ps) = cell_text (filter (\<lambda>x. \<forall>b \<in> set bs. x \<noteq> Code b) ps)"
  using assms
proof (induction bs arbitrary: ps)
  case (Cons b bs)
  have "list_all piece_ok (filter (\<lambda>x. x \<noteq> Code b) ps)" using Cons.prems(1) by (auto simp: list_all_iff)
  from Cons.IH [OF this] Cons.prems show ?case by (simp add: remove_code conj_commute)
qed simp

lemma clean_cell_text: "list_all piece_ok ps \<Longrightarrow> clean_cell (cell_text ps) = cell_plain ps"
proof -
  assume ok: "list_all piece_ok ps"
  have "cell_text (filter (\<lambda>x. \<forall>b \<in> set code_numbers. x \<noteq> Code b) ps) = cell_plain ps"
    using ok
  proof (induction ps)
    case (Cons x ps)
    then show ?case by (cases x) auto
  qed simp
  with remove_codes [OF ok order_refl] show ?thesis by (simp add: clean_cell_def cell_codes_numbers)
qed

text \<open>
  The width of a column, read off the header and what is shown of the rows; a missing cell is
  empty. The number of characters of a line over columns of these widths.
\<close>

definition column_width :: "bytes list \<Rightarrow> piece list list list \<Rightarrow> nat \<Rightarrow> nat" where
  "column_width headers rows i =
     foldr max (map (\<lambda>r. if i < length r then str_len (cell_plain (r ! i)) else 0) rows)
       (if i < length headers then str_len (headers ! i) else 0)"

definition line_width :: "nat list \<Rightarrow> nat" where
  "line_width ws = sum_list (map (\<lambda>w. w + 2) ws) + (length ws - 1) + 2"

definition columns :: "bytes list \<Rightarrow> piece list list list \<Rightarrow> nat" where
  "columns headers rows = foldr max (map length rows) (length headers)"

definition table_width :: "bytes list \<Rightarrow> piece list list list \<Rightarrow> nat" where
  "table_width headers rows = line_width (map (column_width headers rows) [0..<columns headers rows])"

lemma foldr_max_in: "foldr max xs (max a b) = max a (foldr max xs b)" for a b :: nat
  by (induction xs) simp_all

lemma foldr_max_bounds:
  fixes a x :: nat
  shows "a \<le> foldr max xs a" "x \<in> set xs \<Longrightarrow> x \<le> foldr max xs a"
  by (induction xs) auto

lemma widths_fold:
  fixes ws :: "nat list"
  assumes "\<forall>r \<in> set rows. length r = length ws"
  shows "foldl (\<lambda>ws r. map2 max ws (map g r)) ws rows
     = map (\<lambda>i. foldr max (map (\<lambda>r. g (r ! i)) rows) (ws ! i)) [0..<length ws]"
  using assms
proof (induction rows arbitrary: ws)
  case Nil
  then show ?case by (simp add: map_nth)
next
  case (Cons r rows)
  let ?w = "map2 max ws (map g r)"
  have l: "length ?w = length ws" using Cons.prems by simp
  have "foldl (\<lambda>ws r. map2 max ws (map g r)) ws (r # rows)
      = map (\<lambda>i. foldr max (map (\<lambda>r. g (r ! i)) rows) (?w ! i)) [0..<length ws]"
    using Cons.IH [of ?w] Cons.prems l by simp
  also have "\<dots> = map (\<lambda>i. foldr max (map (\<lambda>r. g (r ! i)) (r # rows)) (ws ! i)) [0..<length ws]"
    by (rule map_cong [OF refl]) (use Cons.prems in \<open>simp add: max.commute [of "ws ! _"] foldr_max_in\<close>)
  finally show ?case .
qed

lemma border_width: "str_len (border_line ws) = line_width ws"
  by (simp add: border_line_def line_width_def str_len_join comp_def)

lemma cells_width:
  assumes "length cs = length ws" "\<And>i. i < length ws \<Longrightarrow> str_len (g (ws ! i) (cs ! i)) = ws ! i + 2 + x i"
  shows "str_len (cell_line (map2 g ws cs)) = line_width ws + sum x {0..<length ws}"
proof -
  have "map str_len (map2 g ws cs) = map (\<lambda>i. (ws ! i + 2) + x i) [0..<length ws]"
    using assms by (intro nth_equalityI) simp_all
  then have "sum_list (map str_len (map2 g ws cs)) = (\<Sum>i = 0..<length ws. ws ! i + 2) + sum x {0..<length ws}"
    by (simp only: interv_sum_list_conv_sum_set_nat set_upt sum.distrib)
  moreover have "(\<Sum>i = 0..<length ws. ws ! i + 2) = sum_list (map (\<lambda>w. w + 2) ws)"
    by (simp add: sum_list_sum_nth)
  ultimately show ?thesis using assms(1) by (simp add: cell_line_def line_width_def str_len_join)
qed

lemma columns_facts:
  "r \<in> set rows \<Longrightarrow> length r \<le> columns headers rows" "length headers \<le> columns headers rows"
  "col_count headers (map (map f) rows) = columns headers rows"
proof -
  show "col_count headers (map (map f) rows) = columns headers rows"
    using foldr_max_in [of "map length rows" "length headers" 0] by (simp add: col_count_def columns_def comp_def)
qed (auto simp: columns_def foldr_max_bounds)

lemma pad_nth: "length r \<le> n \<Longrightarrow> i < n \<Longrightarrow> pad_row n (map f r) ! i = (if i < length r then f (r ! i) else [])"
  by (simp add: pad_row_def nth_append)

text \<open>
  What the two padding loops and the width loop of \<^verbatim>\<open>format_table\<close> see of a table of coloured cells: the
  cell at a position, the widths of the columns, the width of the header line and of a row.
\<close>

lemma header_nth:
  "i < columns headers rows \<Longrightarrow>
     pad_row (columns headers rows) headers ! i = (if i < length headers then headers ! i else [])"
  using pad_nth [of headers "columns headers rows" i "\<lambda>x. x"] columns_facts(2) [of headers rows] by simp

lemma clean_cell_nth:
  assumes "\<forall>r \<in> set rows. \<forall>c \<in> set r. list_all piece_ok c" and "r \<in> set rows" and "i < columns headers rows"
  shows "clean_cell (pad_row (columns headers rows) (map cell_text r) ! i) = (if i < length r then cell_plain (r ! i) else [])"
  using assms columns_facts(1) [OF assms(2), of headers]
  by (auto simp: pad_nth clean_cell_text clean_cell_text [of "[]", simplified])

lemma col_widths_columns:
  fixes headers rows
  assumes ok: "\<forall>r \<in> set rows. \<forall>c \<in> set r. list_all piece_ok c"
  defines "n \<equiv> columns headers rows"
  shows "col_widths (pad_row n headers) (map (\<lambda>r. pad_row n (map cell_text r)) rows) = map (column_width headers rows) [0..<n]"
proof -
  let ?hs = "pad_row n headers" and ?rs = "map (\<lambda>r. pad_row n (map cell_text r)) rows"
  have hl: "length ?hs = n" and rl: "\<forall>r \<in> set ?rs. length r = length (map str_len ?hs)"
    using columns_facts(1) [of _ rows headers] columns_facts(2) [of headers rows] by (auto simp: pad_row_def n_def)
  have "col_widths ?hs ?rs = map (\<lambda>i. foldr max (map (\<lambda>r. str_len (clean_cell (r ! i))) ?rs) (map str_len ?hs ! i)) [0..<n]"
    unfolding col_widths_def using widths_fold [OF rl, of "\<lambda>c. str_len (clean_cell c)"] hl by simp
  also have "\<dots> = map (column_width headers rows) [0..<n]"
  proof (rule map_cong [OF refl])
    fix i assume "i \<in> set [0..<n]"
    then have i: "i < n" by simp
    have "map (\<lambda>r. str_len (clean_cell (r ! i))) ?rs = map (\<lambda>r. if i < length r then str_len (cell_plain (r ! i)) else 0) rows"
      using clean_cell_nth [OF ok] i by (simp add: n_def)
    moreover have "map str_len ?hs ! i = (if i < length headers then str_len (headers ! i) else 0)"
      using header_nth [of i headers rows] hl i by (simp add: n_def)
    ultimately show "foldr max (map (\<lambda>r. str_len (clean_cell (r ! i))) ?rs) (map str_len ?hs ! i) = column_width headers rows i"
      by (simp only: column_width_def)
  qed
  finally show ?thesis .
qed

lemma header_line_width:
  fixes headers rows
  defines "n \<equiv> columns headers rows"
  shows "str_len (cell_line (map2 header_cell (map (column_width headers rows) [0..<n]) (pad_row n headers))) = table_width headers rows"
proof -
  let ?ws = "map (column_width headers rows) [0..<n]" and ?hs = "pad_row n headers"
  have "str_len (cell_line (map2 header_cell ?ws ?hs)) = line_width ?ws + sum (\<lambda>_. 0) {0..<length ?ws}"
  proof (rule cells_width)
    fix i assume i: "i < length ?ws"
    then have "str_len (?hs ! i) \<le> ?ws ! i"
      using foldr_max_bounds(1) header_nth [of i headers rows] by (auto simp: column_width_def n_def)
    then show "str_len (header_cell (?ws ! i) (?hs ! i)) = ?ws ! i + 2 + 0" by (simp add: header_cell_def ljust_def)
  qed (use columns_facts(2) [of headers rows] in \<open>simp add: pad_row_def n_def\<close>)
  then show ?thesis by (simp add: table_width_def n_def)
qed

lemma row_line_width:
  fixes headers rows
  assumes ok: "\<forall>r \<in> set rows. \<forall>c \<in> set r. list_all piece_ok c" and r: "r \<in> set rows"
  defines "n \<equiv> columns headers rows"
  shows "str_len (cell_line (map2 row_cell (map (column_width headers rows) [0..<n]) (pad_row n (map cell_text r)))) =
     table_width headers rows + sum_list (map hidden r)"
proof -
  let ?ws = "map (column_width headers rows) [0..<n]"
  let ?p = "pad_row n (map cell_text r)" and ?x = "\<lambda>i. if i < length r then hidden (r ! i) else 0"
  have n: "length r \<le> n" unfolding n_def by (rule columns_facts(1) [OF r])
  have "str_len (cell_line (map2 row_cell ?ws ?p)) = line_width ?ws + sum ?x {0..<length ?ws}"
  proof (rule cells_width)
    show "length ?p = length ?ws" using n by (simp add: pad_row_def)
    fix i assume "i < length ?ws"
    then have i: "i < n" by simp
    note cell = clean_cell_nth [OF ok r, of i headers, folded n_def, OF i]
    have "(if i < length r then str_len (cell_plain (r ! i)) else 0) \<le> column_width headers rows i"
      unfolding column_width_def using r by (intro foldr_max_bounds(2)) auto
    then have "str_len (clean_cell (?p ! i)) \<le> ?ws ! i" using cell i by (simp split: if_splits)
    moreover have "str_len (?p ! i) = str_len (clean_cell (?p ! i)) + ?x i"
      using cell pad_nth [OF n i, of cell_text] by (simp add: cell_len)
    ultimately show "str_len (row_cell (?ws ! i) (?p ! i)) = ?ws ! i + 2 + ?x i" by (simp add: row_cell_def)
  qed
  moreover have "sum ?x {0..<n} = sum ?x {0..<length r}" using n by (intro sum.mono_neutral_right) auto
  ultimately show ?thesis by (simp add: table_width_def n_def sum_list_sum_nth)
qed

text \<open>
  C38. The lines of a table line up. For any headers and any rows, of any numbers of cells, whose
  cells are built of texts without an escape character and of the eleven colour codes the
  function knows: the columns are as wide as the widest header or visible cell text, every
  border and the header line have the width of these columns, and so has every row, counting
  only the characters that are shown.
\<close>

theorem table_lines_align:
  assumes "\<forall>r \<in> set rows. \<forall>c \<in> set r. list_all piece_ok c"
  shows "map str_len (table_lines headers (map (map cell_text) rows)) =
     (let w = table_width headers rows in
      [w] @ (if headers = [] then [] else [w, w]) @ map (\<lambda>r. w + sum_list (map hidden r)) rows @ [w])"
  using header_line_width [of headers rows] row_line_width [OF assms, of _ headers] col_widths_columns [OF assms, of headers]
  by (simp add: table_lines_def Let_def columns_facts(3) border_width table_width_def comp_def)

theorem table_lines_align_witness:
  "map str_len (table_lines [''a'', ''bc''] [[colorize ''xyz'' GREEN], [''1'', ''2'', ''3'']]) = [16, 16, 16, 25, 16, 16]"
proof -
  let ?rows = "[[[Code ''32'', Plain ''xyz'', Code ''0'']], [[Plain ''1''], [Plain ''2''], [Plain ''3'']]]"
  have "\<forall>r \<in> set ?rows. \<forall>c \<in> set r. list_all piece_ok c" by (simp add: ESC_def code_numbers_def)
  moreover have "map (map cell_text) ?rows = [[colorize ''xyz'' GREEN], [''1'', ''2'', ''3'']]"
    by (simp add: colorize_def GREEN_def RESET_def)
  moreover have "table_width [''a'', ''bc''] ?rows = 16"
    by (simp add: table_width_def columns_def column_width_def upt_rec str_len_def cont_def in_range_def line_width_def)
  moreover have "sum_list (map hidden [[Code ''32'', Plain ''xyz'', Code ''0'']]) = 9"
    by (simp add: color_def ESC_def str_len_def cont_def in_range_def)
  ultimately show ?thesis using table_lines_align [of ?rows "[''a'', ''bc'']"] by simp
qed

end
