(* ===== verification/Repl.thy ===== *)
theory Repl
  imports Http Terminal
begin

text \<open>
  \<open>cmd_repl\<close> of \<open>zenith/cli/main.py\<close>: the interactive shell over a tree, as a function of the lines
  that are typed until the end of the input. Output is the list of the printed texts, without
  the banner and the prompts. A line is stripped of ASCII white space and its words are compared
  as ASCII.
\<close>

definition NEWLINE :: bytes where
  "NEWLINE = [CHR 0x0A]"

definition REPL_HELP :: bytes where
  "REPL_HELP = join_with NEWLINE
     [[],
      ''Available REPL Commands:'',
      ''  SET <key> <val> [EX seconds]   - Set string value'',
      ''  GET <key>                      - Get string value'',
      ''  DEL <key...>                   - Delete keys'',
      ''  KEYS [pattern]                 - List matching keys'',
      ''  HSET <key> <field> <val>       - Set hash field'',
      ''  HGETALL <key>                  - Get all hash fields'',
      ''  LPUSH/RPUSH <key> <val...>     - Push to list'',
      ''  LRANGE <key> <start> <stop>    - Get list elements'',
      ''  SADD <key> <member...>         - Add to set'',
      ''  SMEMBERS <key>                 - Get set members'',
      ''  ZADD <key> <score> <member>    - Add to sorted set'',
      ''  ZRANGE <key> <start> <stop>    - Get sorted set range'',
      ''  SEARCH <ns> <query>            - BM25 full-text search'',
      ''  STATS                          - Display engine metrics'',
      ''  COMPACT                        - Trigger LSM compaction'',
      ''  EXIT                           - Exit REPL'',
      ''                '']"

text \<open>\<open>f"{n:,}"\<close>\<close>

fun group_digits :: "bytes \<Rightarrow> bytes" where
  "group_digits (a # b # c # d # ds) = a # b # c # CHR '','' # group_digits (d # ds)"
| "group_digits ds = ds"

definition with_commas :: "int \<Rightarrow> bytes" where
  "with_commas i = (if i < 0 then ''-'' else []) @ rev (group_digits (rev (str_nat (nat \<bar>i\<bar>))))"

text \<open>A result of \<open>get\<close> in an f-string: \<open>str\<close>, or \<open>bytes\<close> when it is not UTF-8.\<close>

definition shown :: "bytes \<Rightarrow> bytes" where
  "shown v = (if utf8_valid v then v else bytes_repr v)"

section \<open>Commands\<close>

definition repl_on_text :: "bytes \<Rightarrow> (texts, 'a) pym \<Rightarrow> (kv, 'a) pym" where
  "repl_on_text ns m K =
     (case m \<lparr>db_lsm = db_lsm K, t_namespace = ns, t_k1 = K1_DEFAULT, t_b = B_DEFAULT, t_stemming = True\<rparr> of
        (r, T) \<Rightarrow> (r, K\<lparr>db_lsm := db_lsm T\<rparr>))"

definition repl_get :: "site \<Rightarrow> bytes \<Rightarrow> (kv, bytes list) pym" where
  "repl_get E key = bnd (kv_get (st_host E) key) (\<lambda>val. ret [case val of
     None \<Rightarrow> ''(nil)'' | Some v \<Rightarrow> colorize (shown v) GREEN])"

definition repl_set :: "site \<Rightarrow> bytes list \<Rightarrow> (kv, bytes list) pym" where
  "repl_set E tokens =
     bnd (if 4 < length tokens \<and> upper (tokens ! 3) = ''EX''
       then bnd (lift_res (int_arg (st_unicode E) (tokens ! 4))) (\<lambda>n. ret (Some n)) else ret None) (\<lambda>ex.
     bnd (kv_set (st_host E) (tokens ! 1) (tokens ! 2) ex False False) (\<lambda>_. ret [colorize ''OK'' GREEN]))"

definition repl_del :: "site \<Rightarrow> bytes list \<Rightarrow> (kv, bytes list) pym" where
  "repl_del E keys = bnd (kv_delete (st_host E) keys) (\<lambda>count. ret [''(integer) '' @ str_nat count])"

definition repl_keys :: "site \<Rightarrow> bytes \<Rightarrow> (kv, bytes list) pym" where
  "repl_keys E pattern = bnd (kv_keys (st_host E) pattern) (\<lambda>keys.
     ret (map (\<lambda>(i, k). str_nat i @ '') '' @ k) (zip [1..<Suc (length keys)] keys)))"

definition repl_stats :: "site \<Rightarrow> (kv, bytes list) pym" where
  "repl_stats E = bnd (kv_dbsize (st_host E)) (\<lambda>n. bnd (gets (\<lambda>K. length (l_readers (db_lsm K)))) (\<lambda>tables.
     bnd (gets (\<lambda>K. mt_size (l_mem (db_lsm K)))) (\<lambda>size.
       ret [format_table [''Metric'', ''Value''] [[''Live Keys'', str_nat n], [''SSTable Count'', str_nat tables],
         [''MemTable Size'', with_commas size @ '' bytes'']]])))"

definition search_row :: "site \<Rightarrow> json \<Rightarrow> bytes list res" where
  "search_row E r = rmap (\<lambda>name. rbind (json_item r name) (\<lambda>j. Inr (json_text (st_unicode E) j))) [''doc_id'', ''score'', ''snippet'']"

definition repl_search :: "site \<Rightarrow> bytes \<Rightarrow> bytes \<Rightarrow> (kv, bytes list) pym" where
  "repl_search E ns query =
     bnd (repl_on_text ns (ft_search (st_host E) (st_unicode E) (st_math E) query 10 160)) (\<lambda>res.
     bnd (lift_res (rmap (search_row E) res)) (\<lambda>rows. ret [format_table [''Doc ID'', ''Score'', ''Snippet''] rows]))"

definition repl_command :: "site \<Rightarrow> bytes list \<Rightarrow> (kv, bytes list) pym" where
  "repl_command E tokens = (let cmd = upper (hd tokens) in
     if cmd = ''GET'' \<and> 1 < length tokens then repl_get E (tokens ! 1)
     else if cmd = ''SET'' \<and> 3 \<le> length tokens then repl_set E tokens
     else if cmd = ''DEL'' \<and> 1 < length tokens then repl_del E (tl tokens)
     else if cmd = ''KEYS'' then repl_keys E (if 1 < length tokens then tokens ! 1 else ''*'')
     else if cmd = ''STATS'' then repl_stats E
     else if cmd = ''COMPACT'' then sq (on_lsm (lsm_compact (st_host E))) (ret [colorize ''Compaction finished.'' GREEN])
     else if cmd = ''SEARCH'' \<and> 3 \<le> length tokens then repl_search E (tokens ! 1) (join_with '' '' (drop 2 tokens))
     else ret [colorize (''Unknown command or bad arguments. Type '' @ quoted ''help'' @ ''.'') RED])"

section \<open>The loop\<close>

text \<open>One line: \<open>None\<close> leaves the loop. An exception is printed.\<close>

definition repl_line :: "site \<Rightarrow> bytes \<Rightarrow> kv \<Rightarrow> bytes list option \<times> kv" where
  "repl_line E raw K = (let line = str_strip raw in
     if line = [] then (Some [], K)
     else if lower line = ''exit'' \<or> lower line = ''quit'' then (None, K)
     else if lower line = ''help'' then (Some [REPL_HELP], K)
     else (case repl_command E (py_split line) K of
         (Inr out, K') \<Rightarrow> (Some out, K')
       | (Inl e, K') \<Rightarrow> (Some [colorize (''Error: '' @ error_text E e) RED], K')))"

fun repl_loop :: "site \<Rightarrow> bytes list \<Rightarrow> kv \<Rightarrow> bytes list \<times> kv" where
  "repl_loop E [] K = ([], K)"
| "repl_loop E (line # lines) K = (case repl_line E line K of
      (None, K') \<Rightarrow> ([], K')
    | (Some out, K') \<Rightarrow> (case repl_loop E lines K' of (outs, K'') \<Rightarrow> (out @ outs, K'')))"

text \<open>The shell on an open tree, which it closes.\<close>

definition cmd_repl :: "site \<Rightarrow> bytes list \<Rightarrow> lsm \<Rightarrow> bytes list \<times> unit res \<times> lsm" where
  "cmd_repl E lines L = (case repl_loop E lines \<lparr>db_lsm = L, kv_heap = []\<rparr> of
     (outs, K) \<Rightarrow> (case lsm_close (st_host E) (db_lsm K) of
         (Inl e, L') \<Rightarrow> (outs, Inl e, L')
       | (Inr _, L') \<Rightarrow> (outs @ [NEWLINE @ colorize ''Bye!'' DIM], Inr (), L')))"

end
