(* ===== verification/ReplLaws.thy ===== *)
theory ReplLaws
  imports Repl TcpDurable
begin

text \<open>
  The shell against the RESP server: a command both know does the same to the tree and shows
  what the server would reply.
\<close>

text \<open>What the shell prints for a reply of the server.\<close>

inductive same_answer :: "bytes \<Rightarrow> bytes list \<Rightarrow> bytes \<Rightarrow> bool" where
  failed: "same_answer cmd [colorize (''Error: '' @ t) RED] (resp_error t)"
| found: "same_answer ''GET'' [colorize (shown v) GREEN] (resp_bulk (Some v))"
| missing: "same_answer ''GET'' [''(nil)''] (resp_bulk None)"
| stored: "same_answer ''SET'' [colorize ''OK'' GREEN] resp_ok"
| deleted: "same_answer ''DEL'' [''(integer) '' @ str_nat n] (nat_reply n)"
| listed: "same_answer ''KEYS'' (map (\<lambda>(i, k). str_nat i @ '') '' @ k) (zip [1..<Suc (length keys)] keys)) (strs keys)"

inductive shared_command :: "bytes list \<Rightarrow> bool" where
  "upper name = ''GET'' \<Longrightarrow> shared_command [name, k]"
| "upper name = ''SET'' \<Longrightarrow> shared_command [name, k, v]"
| "upper name = ''SET'' \<Longrightarrow> upper flag = ''EX'' \<Longrightarrow> shared_command [name, k, v, flag, seconds]"
| "upper name = ''DEL'' \<Longrightarrow> shared_command (name # k # ks)"
| "upper name = ''KEYS'' \<Longrightarrow> shared_command [name]"
| "upper name = ''KEYS'' \<Longrightarrow> shared_command [name, pattern]"

definition same_engine :: "kv \<Rightarrow> server \<Rightarrow> bool" where
  "same_engine K T \<longleftrightarrow> db_lsm T = db_lsm K \<and> s_heap T = kv_heap K"

lemma kv_set_stores: "kv_set H k v ex False False K = (Inr b, K') \<Longrightarrow> b"
  by (auto simp: kv_set_def bnd_def sq_def ret_def split: prod.splits sum.splits)

text \<open>One call of the engine behind both front ends.\<close>

lemma both_call:
  assumes "repl_command E (name # args) = bnd m (\<lambda>x. ret (show_it x))" "dispatch E (upper name) args = reply f (on_kv m)"
    and "same_engine K T" "\<And>x K'. m K = (Inr x, K') \<Longrightarrow> same_answer (upper name) (show_it x) (f x)"
  shows "\<exists>out K' r T'. (case repl_command E (name # args) K of (Inr out, K') \<Rightarrow> (out, K')
      | (Inl e, K') \<Rightarrow> ([colorize (''Error: '' @ error_text E e) RED], K')) = (out, K') \<and>
    run_parts E (name # args) T = (r, T') \<and> same_engine K' T' \<and> same_answer (upper name) out r"
proof -
  obtain y K' where m: "m K = (y, K')" by fastforce
  have K: "\<lparr>db_lsm = db_lsm T, kv_heap = s_heap T\<rparr> = K" using assms(3) by (cases K) (simp add: same_engine_def db.defs kv.defs)
  show ?thesis
  proof (cases y)
    case (Inl e)
    then show ?thesis using m K assms(1,2)
      by (simp add: run_parts_def catch_reply_def reply_def bnd_def on_kv_def same_engine_def same_answer.failed [simplified])
  next
    case (Inr x)
    then show ?thesis using m K assms(1,2) assms(4) [of x K']
      by (simp add: run_parts_def catch_reply_def reply_def bnd_def on_kv_def same_engine_def ret_def)
  qed
qed

lemma shared_call:
  assumes "shared_command toks" "same_engine K T"
  shows "\<exists>out K' r T'. (case repl_command E toks K of (Inr out, K') \<Rightarrow> (out, K')
      | (Inl e, K') \<Rightarrow> ([colorize (''Error: '' @ error_text E e) RED], K')) = (out, K') \<and>
    run_parts E toks T = (r, T') \<and> same_engine K' T' \<and> same_answer (upper (hd toks)) out r"
  using assms(1)
proof cases
  case (1 name k)
  show ?thesis unfolding 1(1) list.sel
    by (rule both_call [OF _ _ assms(2), of E name "[k]" "kv_get (st_host E) k" "\<lambda>v. [case v of None \<Rightarrow> ''(nil)'' | Some v \<Rightarrow> colorize (shown v) GREEN]" resp_bulk])
      (auto simp: 1(2) repl_command_def repl_get_def Let_def dispatch_def find_family_def List.map_filter_simps exec_server_def
        exec_strings_def intro: same_answer.intros [simplified] split: option.split)
next
  case (2 name k v)
  show ?thesis unfolding 2(1) list.sel
    by (rule both_call [OF _ _ assms(2), of E name "[k, v]" "kv_set (st_host E) k v None False False" "\<lambda>_. [colorize ''OK'' GREEN]"
          "\<lambda>ok. if ok then resp_ok else resp_bulk None"])
      (auto simp: 2(2) repl_command_def repl_set_def Let_def dispatch_def find_family_def List.map_filter_simps exec_server_def
        exec_strings_def exec_set_def bnd_def lift_res_def ret_def reply_def dest: kv_set_stores intro: same_answer.intros [simplified] split: sum.splits prod.splits)
next
  case (4 name k ks)
  show ?thesis unfolding 4(1) list.sel
    by (rule both_call [OF _ _ assms(2), of E name "k # ks" "kv_delete (st_host E) (k # ks)" "\<lambda>n. [''(integer) '' @ str_nat n]" nat_reply])
      (auto simp: 4(2) repl_command_def repl_del_def Let_def dispatch_def find_family_def List.map_filter_simps exec_server_def
        exec_strings_def exec_keys_def intro: same_answer.intros [simplified])
next
  case (5 name)
  show ?thesis unfolding 5(1) list.sel
    by (rule both_call [OF _ _ assms(2), of E name "[]" "kv_keys (st_host E) ''*''"
          "\<lambda>keys. map (\<lambda>(i, k). str_nat i @ '') '' @ k) (zip [1..<Suc (length keys)] keys)" strs])
      (auto simp: 5(2) repl_command_def repl_keys_def Let_def dispatch_def find_family_def List.map_filter_simps exec_server_def
        exec_strings_def exec_keys_def simp del: upt_Suc intro: same_answer.intros [simplified])
next
  case (6 name pattern)
  show ?thesis unfolding 6(1) list.sel
    by (rule both_call [OF _ _ assms(2), of E name "[pattern]" "kv_keys (st_host E) pattern"
          "\<lambda>keys. map (\<lambda>(i, k). str_nat i @ '') '' @ k) (zip [1..<Suc (length keys)] keys)" strs])
      (auto simp: 6(2) repl_command_def repl_keys_def Let_def dispatch_def find_family_def List.map_filter_simps exec_server_def
        exec_strings_def exec_keys_def simp del: upt_Suc intro: same_answer.intros [simplified])
next
  case (3 name flag k v seconds)
  show ?thesis
  proof (cases "int_arg (st_unicode E) seconds")
    case (Inl e)
    then show ?thesis using assms(2) unfolding 3(1) list.sel
      by (auto simp: 3(2,3) repl_command_def repl_set_def Let_def dispatch_def find_family_def List.map_filter_simps exec_server_def
          exec_strings_def exec_set_def bnd_def lift_res_def run_parts_def catch_reply_def intro: same_answer.intros [simplified])
  next
    case (Inr n)
    show ?thesis unfolding 3(1) list.sel
      by (rule both_call [OF _ _ assms(2), of E name "[k, v, flag, seconds]" "kv_set (st_host E) k v (Some n) False False" "\<lambda>_. [colorize ''OK'' GREEN]"
            "\<lambda>ok. if ok then resp_ok else resp_bulk None"])
        (auto simp: 3(2,3) Inr repl_command_def repl_set_def Let_def dispatch_def find_family_def List.map_filter_simps exec_server_def
          exec_strings_def exec_set_def bnd_def lift_res_def ret_def reply_def dest: kv_set_stores intro: same_answer.intros [simplified] split: sum.splits prod.splits)
  qed
qed

text \<open>
  C39. A line of one of the forms \<open>GET key\<close>, \<open>SET key value\<close>, \<open>SET key value EX seconds\<close>,
  \<open>DEL key ...\<close>, \<open>KEYS\<close> and \<open>KEYS pattern\<close> (\<open>shared_command\<close>, the words being those between white
  space, with quotes taken as they are) typed into the shell does to the tree what the command
  of the same words does when it is sent to the RESP server, errors included, and the shell prints
  the reply the server sends. Other forms are not covered and do differ: the shell ignores \<open>NX\<close>,
  \<open>XX\<close> and every word behind the value that is not \<open>EX\<close> and a number in its place.
\<close>

theorem repl_matches_server:
  assumes "shared_command (py_split (str_strip line))" "lower (str_strip line) \<notin> {''exit'', ''quit'', ''help''}" "same_engine K T"
  shows "\<exists>out K' r T'. repl_line E line K = (Some out, K') \<and> run_parts E (py_split (str_strip line)) T = (r, T') \<and>
    same_engine K' T' \<and> same_answer (upper (hd (py_split (str_strip line)))) out r"
proof -
  have "str_strip line \<noteq> []" using assms(1) by (auto simp: py_split_def split_from.simps elim: shared_command.cases)
  then have "repl_line E line K = (case (case repl_command E (py_split (str_strip line)) K of (Inr out, K') \<Rightarrow> (out, K')
      | (Inl e, K') \<Rightarrow> ([colorize (''Error: '' @ error_text E e) RED], K')) of (out, K') \<Rightarrow> (Some out, K'))"
    using assms(2) by (auto simp: repl_line_def Let_def split: prod.split sum.split)
  then show ?thesis using shared_call [OF assms(1,3), of E] by fastforce
qed

theorem repl_matches_server_witness:
  "\<exists>out K' r T'. repl_line sample_site '' SET k 1 '' \<lparr>db_lsm = sample_tree, kv_heap = []\<rparr> = (Some out, K') \<and>
     run_parts sample_site [''SET'', ''k'', ''1''] (fresh_server sample_tree 0) = (r, T') \<and> same_engine K' T' \<and> same_answer ''SET'' out r"
proof -
  have "str_strip '' SET k 1 '' = strip '' SET k 1 ''" by (rule str_strip_ascii) simp
  moreover have "strip '' SET k 1 '' = ''SET k 1''" by code_simp
  ultimately have l: "str_strip '' SET k 1 '' = ''SET k 1''" by simp
  have p: "py_split ''SET k 1'' = [''SET'', ''k'', ''1'']" by code_simp
  have s: "shared_command [''SET'', ''k'', ''1'']" by (rule shared_command.intros(2)) code_simp
  have e: "lower ''SET k 1'' \<notin> {''exit'', ''quit'', ''help''}" by code_simp
  have u: "upper ''SET'' = ''SET''" by code_simp
  have q: "same_engine \<lparr>db_lsm = sample_tree, kv_heap = []\<rparr> (fresh_server sample_tree 0)"
    by (simp add: same_engine_def fresh_server_def)
  show ?thesis
    using repl_matches_server [of "'' SET k 1 ''", unfolded l p list.sel u, OF s e q, of sample_site] .
qed

end
