(* ===== verification/Bundle.thy ===== *)
theory Bundle
  imports PyUnicode
begin

text \<open>
  \<open>tools/bundle.py\<close>: the program in one file, built from the modules without their imports. A
  directory is a map from paths to contents; \<open>ast.parse\<close> and the checksum are not part of the
  text. Files are read in text mode, so line breaks are those of \<open>universal\<close>.
\<close>

section \<open>Lines\<close>

definition LF :: bytes where
  "LF = [CHR 0x0A]"

text \<open>The length of the line boundary of \<open>str.splitlines\<close> at the head of a text, 0 for none.\<close>

fun line_end :: "bytes \<Rightarrow> nat" where
  "line_end [] = 0"
| "line_end (c # s) =
     (let n = (of_char c :: nat) in
      if n = 13 \<and> startswith s LF then 2
      else if 10 \<le> n \<and> n \<le> 13 \<or> 28 \<le> n \<and> n \<le> 30 then 1
      else if startswith (c # s) [CHR 0xC2, CHR 0x85] then 2
      else if startswith (c # s) [CHR 0xE2, CHR 0x80, CHR 0xA8] \<or> startswith (c # s) [CHR 0xE2, CHR 0x80, CHR 0xA9] then 3
      else 0)"

function lines_from :: "bytes \<Rightarrow> bytes \<Rightarrow> bytes list" where
  "lines_from line s =
     (if s = [] then (if line = [] then [] else [line])
      else let n = line_end s in
        if n = 0 then lines_from (line @ [hd s]) (tl s) else line # lines_from [] (drop n s))"
  by pat_completeness auto
termination
  by (relation "measure (\<lambda>(_, s). length s)") auto

declare lines_from.simps [simp del]

definition splitlines :: "bytes \<Rightarrow> bytes list" where
  "splitlines s = lines_from [] s"

fun universal :: "bytes \<Rightarrow> bytes" where
  "universal [] = []"
| "universal (c # s) =
     (if c = CHR 0x0D then (if startswith s LF then universal s else CHR 0x0A # universal s) else c # universal s)"

section \<open>The modules\<close>

definition HEADER_LINES :: "bytes list" where
  \<open>HEADER_LINES =
    [''#!/usr/bin/env python3'',
     ''"""'',
     ''ZenithDB - Zero-Dependency Multi-Model Storage Engine (Single-File Standalone Edition)'',
     ''Track D: Data & Storage '' @ [CHR 0xC2, CHR 0xB7] @ '' Zero-Dependency Hackathon 2026'',
     ''100% Python Standard Library '' @ [CHR 0xC2, CHR 0xB7] @ '' 0 Third-Party Dependencies'',
     [],
     ''Features:'',
     ''- LSM-Tree with Write-Ahead Log (WAL) & SSTables'',
     ''- Inverted Full-Text Search with Okapi BM25 Ranking & Porter Stemmer'',
     ''- Vector Similarity Index with Cosine/Euclidean Distance & IVF Partitioning'',
     ''- JSON Document Store with Secondary Indexing & Filtering'',
     ''- ACID Transactions with Snapshot Isolation'',
     ''- RESP2 Redis-Compatible TCP Server'',
     ''- HTTP REST API & Real-time Web Control Plane'',
     ''- ANSI Terminal UI (Tables, Progress Bars, REPL, Benchmarks)'',
     ''"""'',
     [],
     ''import argparse'',
     ''import array'',
     ''import ast'',
     ''import asyncio'',
     ''import bisect'',
     ''import fnmatch'',
     ''import glob'',
     ''import hashlib'',
     ''import heapq'',
     ''import json'',
     ''import logging'',
     ''import math'',
     ''import os'',
     ''import random'',
     ''import re'',
     ''import shutil'',
     ''import string'',
     ''import struct'',
     ''import sys'',
     ''import tempfile'',
     ''import threading'',
     ''import time'',
     ''import unicodedata'',
     ''import unittest'',
     ''import zlib'',
     ''from collections import Counter'',
     ''from enum import IntEnum'',
     ''from http import HTTPStatus'',
     ''from http.server import BaseHTTPRequestHandler, HTTPServer'',
     ''from socketserver import ThreadingMixIn'',
     ''from typing import Any, BinaryIO, Callable, Dict, Generator, List, Optional, Sequence, Set, Tuple, Union'',
     ''from urllib.parse import parse_qs, urlparse'',
     [],
     ''# Attempt to configure stdout to UTF-8'',
     ''if hasattr(sys.stdout, "reconfigure"):'',
     ''    try:'',
     ''        sys.stdout.reconfigure(encoding="utf-8", errors="replace")'',
     ''    except Exception:'',
     ''        pass'',
     [],
     ''__version__ = "1.0.0"'',
     ''__license__ = "MIT"'',
     []]\<close>

definition HEADER :: bytes where
  "HEADER = join_with LF HEADER_LINES"

definition MODULE_FILES :: "(bytes \<times> bytes list) list" where
  "MODULE_FILES =
    [(''zenith/storage/bloom.py'', [''from zenith.storage.bloom import'']),
     (''zenith/storage/wal.py'', []),
     (''zenith/storage/sstable.py'', [''from zenith.storage.bloom import'']),
     (''zenith/storage/lsm.py'', [''from zenith.storage.sstable import'', ''from zenith.storage.wal import'']),
     (''zenith/engine/kv.py'', [''from zenith.storage.lsm import'']),
     (''zenith/engine/doc.py'', [''from zenith.storage.lsm import'']),
     (''zenith/engine/text.py'', [''from zenith.storage.lsm import'']),
     (''zenith/engine/vector.py'', [''from zenith.storage.lsm import'']),
     (''zenith/engine/txn.py'', [''from zenith.storage.lsm import'', ''from zenith.storage.wal import'']),
     (''zenith/protocol/resp.py'', []),
     (''zenith/server/tcp.py'', [''from zenith.engine.doc import'', ''from zenith.engine.kv import'', ''from zenith.engine.text import'', ''from zenith.engine.vector import'', ''from zenith.protocol.resp import'', ''from zenith.storage.lsm import'']),
     (''zenith/server/http.py'', [''from zenith.engine.doc import'', ''from zenith.engine.kv import'', ''from zenith.engine.text import'', ''from zenith.engine.vector import'', ''from zenith.storage.lsm import'']),
     (''zenith/cli/terminal.py'', []),
     (''zenith/cli/bench.py'', [''from zenith.cli.terminal import'', ''from zenith.engine.kv import'', ''from zenith.engine.text import'', ''from zenith.engine.vector import'', ''from zenith.storage.lsm import'']),
     (''zenith/cli/main.py'', [''from zenith.cli.bench import'', ''from zenith.cli.terminal import'', ''from zenith.engine.doc import'', ''from zenith.engine.kv import'', ''from zenith.engine.text import'', ''from zenith.engine.vector import'', ''from zenith.server.http import'', ''from zenith.server.tcp import'', ''from zenith.storage.lsm import''])]"

definition SELF_TEST_LINES :: "bytes list" where
  \<open>SELF_TEST_LINES =
    [[],
     ''def run_self_tests() -> bool:'',
     ''    print_banner()'',
     ''    print(f"{Colors.BOLD}'' @ [CHR 0xE2, CHR 0x9A, CHR 0xA1] @ '' Running Self-Contained Built-in Test Suite{Colors.RESET}'' @ [CHR 0x5C] @ ''n")'',
     ''    loader = unittest.TestLoader()'',
     ''    suite = unittest.TestSuite()'',
     ''    # Discover all TestCase classes defined in this module'',
     ''    curr_module = sys.modules[__name__]'',
     ''    for attr_name in dir(curr_module):'',
     ''        attr = getattr(curr_module, attr_name)'',
     ''        if isinstance(attr, type) and issubclass(attr, unittest.TestCase) and attr is not unittest.TestCase:'',
     ''            suite.addTests(loader.loadTestsFromTestCase(attr))'',
     ''            '',
     ''    runner = unittest.TextTestRunner(verbosity=2)'',
     ''    res = runner.run(suite)'',
     ''    return res.wasSuccessful()'',
     []]\<close>

definition SELF_TESTS :: bytes where
  "SELF_TESTS = join_with LF SELF_TEST_LINES"

section \<open>The build\<close>

definition skipped :: "bytes list \<Rightarrow> bytes \<Rightarrow> bool" where
  "skipped prefixes_to_strip line = (let stripped = str_strip line in
     list_ex (startswith stripped) prefixes_to_strip \<or>
     startswith stripped ''from zenith'' \<or> startswith stripped ''import zenith'' \<or>
     startswith stripped ''import '' \<or> startswith stripped ''from typing'')"

definition clean_source :: "bytes \<Rightarrow> bytes list \<Rightarrow> bytes" where
  "clean_source code prefixes_to_strip = join_with LF (filter (\<lambda>l. \<not> skipped prefixes_to_strip l) (splitlines code))"

definition module_banner :: "bytes \<Rightarrow> bytes" where
  "module_banner rel_path = LF @ ''# '' @ replicate 70 (CHR ''='') @ LF @ ''# MODULE: '' @ rel_path @ LF @
     ''# '' @ replicate 70 (CHR ''='') @ LF"

type_synonym sources = "bytes \<rightharpoonup> bytes"

text \<open>\<open>open(path, "r", encoding="utf-8").read()\<close>\<close>

definition read_source :: "sources \<Rightarrow> bytes \<Rightarrow> bytes res" where
  "read_source files path = (case files path of
      None \<Rightarrow> Inl OSError
    | Some raw \<Rightarrow> rbind (py_decode raw) (\<lambda>s. Inr (universal s)))"

definition module_parts :: "sources \<Rightarrow> bytes \<times> bytes list \<Rightarrow> bytes list res" where
  "module_parts files = (\<lambda>(rel_path, strip_prefixes).
     rbind (read_source files rel_path) (\<lambda>code. Inr [module_banner rel_path, clean_source code strip_prefixes]))"

definition bundle_source :: "sources \<Rightarrow> bytes res" where
  "bundle_source files = rbind (rmap (module_parts files) MODULE_FILES) (\<lambda>modules.
     Inr (join_with LF (HEADER # concat modules @ [SELF_TESTS]) @ LF))"

text \<open>
  \<open>main\<close>: the result is whether the two builds have the same digest; the program exits with an
  error when they have not. The text of the file is the built text.
\<close>

definition bundle_main :: "(bytes \<Rightarrow> bytes) \<Rightarrow> sources \<Rightarrow> bool res \<times> sources" where
  "bundle_main sha256 files = (case bundle_source files of
      Inl e \<Rightarrow> (Inl e, files)
    | Inr content1 \<Rightarrow>
        let files' = files(''zenith.py'' \<mapsto> content1) in
        (rbind (bundle_source files') (\<lambda>content2. Inr (sha256 content1 = sha256 content2)), files'))"

end
