(* ===== verification/BundleLaws.thy ===== *)
theory BundleLaws
  imports Bundle
begin

text \<open>
  The lines of the built file: the header, and every module between a banner and the next one,
  without the lines that import; no line imports a module of the program.
\<close>

section \<open>Splitting joined lines\<close>

definition unbroken :: "bytes \<Rightarrow> bool" where
  "unbroken l \<longleftrightarrow> (\<forall>i < length l. line_end (drop i l) = 0)"

lemma line_end_append: "line_end x \<noteq> 0 \<Longrightarrow> line_end (x @ s) \<noteq> 0"
  by (cases x) (auto simp: Let_def startswith_iff split: if_splits)

lemma line_end_LF: "x \<noteq> [] \<Longrightarrow> line_end x = 0 \<Longrightarrow> line_end (x @ LF @ s) = 0"
  by (cases x) (auto simp: Let_def startswith_iff LF_def Cons_eq_append_conv append_eq_Cons_conv split: if_splits)

lemma lines_from_LF:
  "unbroken l \<Longrightarrow> lines_from acc (l @ LF @ s) = (acc @ l) # lines_from [] s"
proof (induction l arbitrary: acc)
  case Nil
  have "line_end (LF @ s) = 1" "LF \<noteq> []" "drop (Suc 0) LF = []" "length LF = 1" by (simp_all add: LF_def startswith_iff)
  then show ?case by (simp add: lines_from.simps [of acc "LF @ s"] Let_def del: line_end.simps)
next
  case (Cons c l)
  have "line_end (c # l) = 0" using spec [OF Cons.prems [unfolded unbroken_def], of 0] by (simp del: line_end.simps)
  then have "line_end ((c # l) @ LF @ s) = 0" by (intro line_end_LF) simp_all
  moreover have "unbroken l" unfolding unbroken_def
  proof (intro allI impI)
    fix i assume "i < length l"
    then show "line_end (drop i l) = 0" using spec [OF Cons.prems [unfolded unbroken_def], of "Suc i"] by simp
  qed
  ultimately show ?case using Cons.IH [of "acc @ [c]"] by (simp add: lines_from.simps [of acc "c # l @ LF @ s"] Let_def del: line_end.simps)
qed

lemma splitlines_join: "ls \<noteq> [] \<Longrightarrow> \<forall>l \<in> set ls. unbroken l \<Longrightarrow> splitlines (join_with LF ls @ LF) = ls"
proof (induction ls rule: induct_list012)
  case (2 l)
  then show ?case using lines_from_LF [of l "[]" "[]"] by (simp add: splitlines_def lines_from.simps [of "[]" "[]"])
next
  case (3 l m ls)
  then show ?case using lines_from_LF [of l "[]" "join_with LF (m # ls) @ LF"] by (simp add: splitlines_def)
qed simp

lemma join_join: "\<forall>ls \<in> set lss. ls \<noteq> [] \<Longrightarrow> join_with sep (map (join_with sep) lss) = join_with sep (concat lss)"
proof (induction lss rule: induct_list012)
  case (3 ls ms lss)
  have "join_with sep (xs @ ys) = join_with sep xs @ sep @ join_with sep ys" if "xs \<noteq> []" "ys \<noteq> []" for xs ys
    using that
  proof (induction xs rule: induct_list012)
    case (2 x)
    then show ?case by (cases ys) simp_all
  qed simp_all
  with 3 show ?case by simp
qed simp_all

lemma lines_unbroken:
  "\<forall>i < length line. line_end (drop i line @ s) = 0 \<Longrightarrow> \<forall>l \<in> set (lines_from line s). unbroken l"
proof (induction line s rule: lines_from.induct)
  case (1 line s)
  have u: "unbroken line" using "1.prems" line_end_append unfolding unbroken_def by blast
  show ?case
  proof (cases "s = []")
    case True
    then show ?thesis using u by (simp add: lines_from.simps [of line "[]"])
  next
    case False
    show ?thesis
    proof (cases "line_end s = 0")
      case True
      have "line_end (drop i (line @ [hd s]) @ tl s) = 0" if "i < length (line @ [hd s])" for i
        using that "1.prems" True False by (cases "i < length line") (simp_all add: not_less less_Suc_eq)
      with 1(1) [OF False refl True] False True show ?thesis by (simp add: lines_from.simps [of line s])
    next
      case e: False
      with 1(2) [OF False refl e] False u show ?thesis by (simp add: lines_from.simps [of line s] Let_def)
    qed
  qed
qed

lemma splitlines_unbroken: "\<forall>l \<in> set (splitlines s). unbroken l"
  unfolding splitlines_def by (rule lines_unbroken) simp

section \<open>The lines the builder adds\<close>

definition plain_line :: "bytes \<Rightarrow> bool" where
  "plain_line l \<longleftrightarrow> list_all (\<lambda>c. 32 \<le> (of_char c :: nat) \<and> c \<noteq> CHR 0x80 \<and> c \<noteq> CHR 0x85) l"

lemma plain_unbroken: "plain_line l \<Longrightarrow> unbroken l"
  unfolding unbroken_def
proof (intro allI impI)
  fix i assume p: "plain_line l" and i: "i < length l"
  then obtain c s where d: "drop i l = c # s" by (metis Cons_nth_drop_Suc)
  have "32 \<le> (of_char c :: nat)" "\<forall>x \<in> set s. x \<noteq> CHR 0x80 \<and> x \<noteq> CHR 0x85"
    using p set_drop_subset [of i l] unfolding plain_line_def d by (auto simp: list_all_iff)
  then show "line_end (drop i l) = 0" by (cases s) (auto simp: d Let_def startswith_iff)
qed

definition imports_zenith :: "bytes \<Rightarrow> bool" where
  "imports_zenith l \<longleftrightarrow> startswith (str_strip l) ''from zenith'' \<or> startswith (str_strip l) ''import zenith''"

lemma str_strip_space: "of_char c < (128 :: nat) \<Longrightarrow> is_space c \<Longrightarrow> str_strip (c # s) = str_strip s"
  by (simp add: str_strip_def point_strip_def str_points.simps [of "c # s"] Let_def ascii_space)

lemma str_strip_head:
  assumes "of_char c < (128 :: nat)" "\<not> is_space c"
  shows "\<exists>t. str_strip (c # s) = c # t"
proof -
  have "dropWhile unicode_space (xs @ [of_char c]) = dropWhile unicode_space xs @ [of_char c]" for xs
    using assms by (intro dropWhile_append3) (simp add: ascii_space)
  then show ?thesis using assms
    by (simp add: str_strip_def point_strip_def str_points.simps [of "c # s"] Let_def ascii_space point_bytes_def utf8_encode_def)
qed

fun harmless :: "bytes \<Rightarrow> bool" where
  "harmless [] = True"
| "harmless (c # s) =
     (of_char c < (128 :: nat) \<and>
      (if is_space c then harmless s
       else c \<notin> {CHR ''f'', CHR ''i''} \<or>
         list_all (\<lambda>c. of_char c < (128 :: nat)) s \<and> \<not> startswith (c # s) ''from zenith'' \<and> \<not> startswith (c # s) ''import zenith''))"

lemma harmless_imports: "harmless l \<Longrightarrow> \<not> imports_zenith l"
proof (induction l)
  case Nil
  show ?case by (simp add: imports_zenith_def str_strip_ascii strip_def startswith_def)
next
  case (Cons c s)
  show ?case
  proof (cases "is_space c")
    case True
    then show ?thesis using Cons by (simp add: imports_zenith_def str_strip_space)
  next
    case f: False
    obtain t where t: "str_strip (c # s) = c # t" using str_strip_head f Cons.prems by auto
    show ?thesis
    proof (cases "c \<in> {CHR ''f'', CHR ''i''}")
      case False
      then show ?thesis by (simp add: imports_zenith_def t startswith_def)
    next
      case True
      then have a: "\<forall>x \<in> set (c # s). of_char x < (128 :: nat)" and n: "\<not> startswith (c # s) ''from zenith''" "\<not> startswith (c # s) ''import zenith''"
        using Cons.prems f by (auto simp: list_all_iff)
      have "c # s = strip (c # s) @ rev (takeWhile is_space (rev (c # s)))"
        using f by (simp add: strip_def del: rev.simps flip: rev_append)
      then show ?thesis using n unfolding imports_zenith_def str_strip_ascii [OF a] startswith_iff by (metis append_assoc)
    qed
  qed
qed

definition banner_lines :: "bytes \<Rightarrow> bytes list" where
  "banner_lines p = [[], ''# '' @ replicate 70 (CHR ''=''), ''# MODULE: '' @ p, ''# '' @ replicate 70 (CHR ''=''), []]"

lemma module_banner: "module_banner p = join_with LF (banner_lines p)"
  by (simp add: module_banner_def banner_lines_def)

definition good_line :: "bytes \<Rightarrow> bool" where
  "good_line l \<longleftrightarrow> unbroken l \<and> \<not> imports_zenith l"

lemma good_lineI: "plain_line l \<Longrightarrow> harmless l \<Longrightarrow> good_line l"
  by (simp add: good_line_def plain_unbroken harmless_imports)

lemma fixed_lines_good: "\<forall>l \<in> set HEADER_LINES. good_line l" "\<forall>l \<in> set SELF_TEST_LINES. good_line l"
proof -
  have "list_all (\<lambda>l. plain_line l \<and> harmless l) HEADER_LINES" by code_simp
  then show "\<forall>l \<in> set HEADER_LINES. good_line l" by (auto simp: list_all_iff intro: good_lineI)
  have "list_all (\<lambda>l. plain_line l \<and> harmless l) SELF_TEST_LINES" by code_simp
  then show "\<forall>l \<in> set SELF_TEST_LINES. good_line l" by (auto simp: list_all_iff intro: good_lineI)
qed

lemma banner_lines_good: "\<forall>m \<in> set MODULE_FILES. \<forall>l \<in> set (banner_lines (fst m)). good_line l"
proof -
  have "list_all (\<lambda>m. list_all (\<lambda>l. plain_line l \<and> harmless l) (banner_lines (fst m))) MODULE_FILES" by code_simp
  then show ?thesis by (fastforce simp: list_all_iff intro: good_lineI)
qed

section \<open>The built file\<close>

text \<open>
  The lines the builder leaves out are those that begin, after white space, with
  \<open>from zenith\<close>, \<open>import\<close> and a space, or \<open>from typing\<close>: the prefixes listed for a module and the test of
  \<open>import zenith\<close> add nothing to these three. Other from-imports stay.
\<close>

definition left_out :: "bytes \<Rightarrow> bool" where
  "left_out l \<longleftrightarrow> (\<exists>p \<in> {''from zenith'', ''import '', ''from typing''}. startswith (str_strip l) p)"

lemma startswith_longer: "startswith s (p @ q) \<Longrightarrow> startswith s p"
  by (auto simp: startswith_iff)

lemma module_prefixes: "m \<in> set MODULE_FILES \<Longrightarrow> p \<in> set (snd m) \<Longrightarrow> \<exists>q. p = ''from zenith'' @ q"
proof -
  assume m: "m \<in> set MODULE_FILES" and p: "p \<in> set (snd m)"
  have "list_all (\<lambda>m. list_all (\<lambda>p. startswith p ''from zenith'') (snd m)) MODULE_FILES" by code_simp
  then have "startswith p ''from zenith''" using m p by (auto simp: list_all_iff)
  then show "\<exists>q. p = ''from zenith'' @ q" by (simp only: startswith_iff)
qed

lemma skipped_left_out: "m \<in> set MODULE_FILES \<Longrightarrow> skipped (snd m) l \<longleftrightarrow> left_out l"
proof -
  assume m: "m \<in> set MODULE_FILES"
  have "startswith (str_strip l) ''from zenith''" if "p \<in> set (snd m)" "startswith (str_strip l) p" for p
    using module_prefixes [OF m that(1)] that(2) startswith_longer by blast
  moreover have "startswith (str_strip l) ''import ''" if "startswith (str_strip l) ''import zenith''"
    using startswith_longer [of "str_strip l" "''import ''" "''zenith''"] that by simp
  ultimately show ?thesis by (auto simp: skipped_def left_out_def Let_def list_ex_iff)
qed

lemma left_out_imports: "\<not> left_out l \<Longrightarrow> \<not> imports_zenith l"
  using startswith_longer [of "str_strip l" "''import ''" "''zenith''"] by (auto simp: left_out_def imports_zenith_def)

text \<open>The lines a module keeps, and its lines in the built file.\<close>

definition kept_lines :: "sources \<Rightarrow> bytes \<times> bytes list \<Rightarrow> bytes list \<Rightarrow> bool" where
  "kept_lines files m ls \<longleftrightarrow> (\<exists>code. read_source files (fst m) = Inr code \<and>
     ls = filter (\<lambda>l. \<not> left_out l) (splitlines code))"

definition module_lines :: "bytes \<times> bytes list \<Rightarrow> bytes list \<Rightarrow> bytes list" where
  "module_lines m ls = banner_lines (fst m) @ (if ls = [] then [[]] else ls)"

lemma modules_kept:
  "rmap (module_parts files) ms = Inr parts \<Longrightarrow> set ms \<subseteq> set MODULE_FILES \<Longrightarrow>
   \<exists>kept. list_all2 (kept_lines files) ms kept \<and>
     concat parts = concat (map2 (\<lambda>m ls. map (join_with LF) [banner_lines (fst m), if ls = [] then [[]] else ls]) ms kept)"
proof (induction ms arbitrary: parts)
  case (Cons m ms)
  then obtain code rest where m: "read_source files (fst m) = Inr code" "rmap (module_parts files) ms = Inr rest"
      "parts = [module_banner (fst m), clean_source code (snd m)] # rest"
    by (auto simp: module_parts_def rbind_Inr_iff split: prod.splits)
  define ls where "ls = filter (\<lambda>l. \<not> left_out l) (splitlines code)"
  have f: "skipped (snd m) = left_out" using Cons.prems(2) skipped_left_out by (intro ext) simp
  obtain kept where "list_all2 (kept_lines files) ms kept"
      "concat rest = concat (map2 (\<lambda>m ls. map (join_with LF) [banner_lines (fst m), if ls = [] then [[]] else ls]) ms kept)"
    using Cons.IH [OF m(2)] Cons.prems(2) by auto
  moreover have "clean_source code (snd m) = join_with LF (if ls = [] then [[]] else ls)"
    by (simp add: clean_source_def ls_def f)
  moreover have "kept_lines files m ls" using m(1) unfolding kept_lines_def ls_def by blast
  ultimately show ?case using m(3) by (intro exI [of _ "ls # kept"]) (simp add: module_banner)
qed simp

lemma kept_good: "kept_lines files m ls \<Longrightarrow> \<forall>l \<in> set ls. good_line l"
  using splitlines_unbroken left_out_imports by (auto simp: kept_lines_def good_line_def)

lemma good_empty: "good_line []"
  by (simp add: good_lineI plain_line_def)

lemma module_lines_good: "list_all2 (kept_lines files) ms kept \<Longrightarrow> \<forall>m \<in> set ms. \<forall>l \<in> set (banner_lines (fst m)). good_line l \<Longrightarrow>
    \<forall>l \<in> set (concat (map2 module_lines ms kept)). good_line l"
proof (induction rule: list_all2_induct)
  case (Cons m ms ls kept)
  then have "\<forall>l \<in> set (module_lines m ls). good_line l"
    using kept_good [OF Cons.hyps(1)] good_empty by (auto simp: module_lines_def)
  with Cons show ?case by simp blast
qed simp

lemma built_lines:
  assumes "bundle_source files = Inr b"
  shows "\<exists>kept. list_all2 (kept_lines files) MODULE_FILES kept \<and>
    splitlines b = HEADER_LINES @ concat (map2 module_lines MODULE_FILES kept) @ SELF_TEST_LINES \<and>
    list_all (\<lambda>l. \<not> imports_zenith l) (splitlines b)"
proof -
  obtain parts where p: "rmap (module_parts files) MODULE_FILES = Inr parts" "b = join_with LF (HEADER # concat parts @ [SELF_TESTS]) @ LF"
    using assms by (auto simp: bundle_source_def rbind_Inr_iff)
  obtain kept where k: "list_all2 (kept_lines files) MODULE_FILES kept"
      "concat parts = concat (map2 (\<lambda>m ls. map (join_with LF) [banner_lines (fst m), if ls = [] then [[]] else ls]) MODULE_FILES kept)"
    using modules_kept [OF p(1) order_refl] by blast
  let ?g = "\<lambda>m ls. [banner_lines (fst m), if ls = [] then [[]] else ls]"
  let ?lss = "HEADER_LINES # concat (map2 ?g MODULE_FILES kept) @ [SELF_TEST_LINES]"
  have c: "concat (map2 (\<lambda>m ls. map (join_with LF) (?g m ls)) ms ks) = map (join_with LF) (concat (map2 ?g ms ks))"
    "concat (concat (map2 ?g ms ks)) = concat (map2 module_lines ms ks)"
    "\<forall>ls \<in> set (concat (map2 ?g ms ks)). ls \<noteq> []" for ms ks
    by (induction ms ks rule: list_induct2') (simp_all add: module_lines_def banner_lines_def del: set_concat)
  have ne: "HEADER_LINES \<noteq> []" "SELF_TEST_LINES \<noteq> []" by (simp_all add: HEADER_LINES_def SELF_TEST_LINES_def)
  have all: "\<forall>ls \<in> set ?lss. ls \<noteq> []" using c(3) [of MODULE_FILES kept] ne by (simp del: set_concat)
  have "join_with LF (HEADER # concat parts @ [SELF_TESTS]) = join_with LF (map (join_with LF) ?lss)"
    unfolding k(2) c(1) HEADER_def SELF_TESTS_def by simp
  also have "\<dots> = join_with LF (concat ?lss)"
    by (rule join_join [OF all])
  also have "concat ?lss = HEADER_LINES @ concat (map2 module_lines MODULE_FILES kept) @ SELF_TEST_LINES"
    by (simp only: concat.simps concat_append c(2) append_Nil2)
  finally have b: "b = join_with LF (HEADER_LINES @ concat (map2 module_lines MODULE_FILES kept) @ SELF_TEST_LINES) @ LF"
    using p(2) by simp
  have g: "\<forall>l \<in> set (HEADER_LINES @ concat (map2 module_lines MODULE_FILES kept) @ SELF_TEST_LINES). good_line l"
    using fixed_lines_good module_lines_good [OF k(1) banner_lines_good] by (simp only: set_append) blast
  have "splitlines b = HEADER_LINES @ concat (map2 module_lines MODULE_FILES kept) @ SELF_TEST_LINES"
    unfolding b by (rule splitlines_join) (use g ne in \<open>simp_all add: good_line_def\<close>)
  with k(1) g show ?thesis by (metis good_line_def list_all_iff)
qed

lemma rmap_cong: "\<forall>x \<in> set xs. f x = g x \<Longrightarrow> rmap f xs = rmap g xs"
  by (induction xs) simp_all

lemma bundle_ignores_target: "bundle_source (files(''zenith.py'' \<mapsto> c)) = bundle_source files"
proof -
  have "list_all (\<lambda>m. fst m \<noteq> ''zenith.py'') MODULE_FILES" by code_simp
  then have "\<forall>m \<in> set MODULE_FILES. module_parts (files(''zenith.py'' \<mapsto> c)) m = module_parts files m"
    by (auto simp: list_all_iff module_parts_def read_source_def)
  then show ?thesis by (simp only: bundle_source_def rmap_cong)
qed

text \<open>
  C40. When the builder ends without an error the digests are the same, and the file it wrote holds
  the header, then every module in the given order behind its banner, line by line and in order
  without the lines that begin with \<open>from zenith\<close>, \<open>import\<close> or \<open>from typing\<close> (\<open>left_out\<close>; the other
  from-imports of the standard library stay in the file), then the test runner; no line of it
  imports a module of the program. Building again from the result changes nothing.
\<close>

theorem bundle_standalone:
  assumes "bundle_main sha256 files = (Inr same, files')"
  shows "same \<and> bundle_main sha256 files' = (Inr True, files') \<and>
    (\<exists>b kept. files' = files(''zenith.py'' \<mapsto> b) \<and> list_all2 (kept_lines files) MODULE_FILES kept \<and>
      splitlines b = HEADER_LINES @ concat (map2 module_lines MODULE_FILES kept) @ SELF_TEST_LINES \<and>
      list_all (\<lambda>l. \<not> imports_zenith l) (splitlines b))"
proof -
  obtain b where b: "bundle_source files = Inr b" "files' = files(''zenith.py'' \<mapsto> b)" "same"
    using assms by (auto simp: bundle_main_def bundle_ignores_target Let_def split: sum.splits)
  have "bundle_main sha256 files' = (Inr True, files')"
    using b by (simp add: bundle_main_def bundle_ignores_target)
  with b built_lines [OF b(1)] show ?thesis by blast
qed

theorem bundle_standalone_witness:
  "\<exists>files' b. bundle_main id (\<lambda>_. Some (''import os'' @ LF @ ''x = 1'')) = (Inr True, files') \<and>
     files' ''zenith.py'' = Some b \<and> list_all (\<lambda>l. \<not> imports_zenith l) (splitlines b)"
proof -
  let ?F = "\<lambda>_. Some (''import os'' @ LF @ ''x = 1'')"
  have "utf8_valid (''import os'' @ LF @ ''x = 1'')" by (rule utf8_ascii) (simp add: LF_def)
  then have "module_parts ?F m = Inr [module_banner (fst m), clean_source (universal (''import os'' @ LF @ ''x = 1'')) (snd m)]" for m
    by (simp add: module_parts_def read_source_def py_decode_def split: prod.split)
  then have "\<exists>ys. rmap (module_parts ?F) ms = Inr ys" for ms by (induction ms) auto
  then obtain b where "bundle_source ?F = Inr b" unfolding bundle_source_def by (metis rbind_simps(2))
  then have "bundle_main id ?F = (Inr True, ?F(''zenith.py'' \<mapsto> b))" by (simp add: bundle_main_def bundle_ignores_target)
  with bundle_standalone [OF this] show ?thesis by (metis fun_upd_same)
qed

end
