(* ===== verification/ImportAudit.thy ===== *)
theory ImportAudit
  imports Terminal
begin

text \<open>
  \<open>cmd_verify_deps\<close> of \<open>zenith/cli/main.py\<close>: the audit of the imports of every Python file under a
  directory. The import statements of a source, in the order of \<open>ast.walk\<close>, are a parameter, and
  so is \<open>sys.stdlib_module_names\<close>. A set of names is a list without duplicates.
\<close>

section \<open>The files\<close>

datatype entry = File bytes bytes | Dir bytes "entry list"

definition SKIPPED_DIRS :: "bytes list" where
  "SKIPPED_DIRS = [''venv'', ''env'', ''data'', ''data_bench'', ''__pycache__'']"

definition skip_dir :: "bytes \<Rightarrow> bool" where
  "skip_dir d \<longleftrightarrow> startswith d ''.'' \<or> d \<in> set SKIPPED_DIRS"

definition path_join :: "bytes \<Rightarrow> bytes \<Rightarrow> bytes" where
  "path_join root f = root @ ''/'' @ f"

text \<open>\<open>os.walk\<close> from the top: the files of a directory, then its directories that are not skipped.\<close>

fun files_here :: "bytes \<Rightarrow> entry list \<Rightarrow> (bytes \<times> bytes) list" where
  "files_here root [] = []"
| "files_here root (File f src # es) = (if endswith f ''.py'' then [(path_join root f, src)] else []) @ files_here root es"
| "files_here root (Dir d sub # es) = files_here root es"

fun files_below :: "bytes \<Rightarrow> entry \<Rightarrow> (bytes \<times> bytes) list" where
  "files_below root (File f src) = []"
| "files_below root (Dir d es) = (if skip_dir d then [] else
     files_here (path_join root d) es @ concat (map (files_below (path_join root d)) es))"

definition py_files :: "bytes \<Rightarrow> entry list \<Rightarrow> (bytes \<times> bytes) list" where
  "py_files root es = files_here root es @ concat (map (files_below root) es)"

section \<open>The imports\<close>

datatype import_node = Import "bytes list" | ImportFrom "bytes option"

record audit =
  disallowed_imports :: "(bytes \<times> bytes) list"
  all_used_stdlibs :: "bytes list"

definition FALLBACK_NAMES :: "bytes list" where
  "FALLBACK_NAMES =
     [''os'', ''sys'', ''time'', ''math'', ''json'', ''struct'', ''zlib'', ''hashlib'',
      ''heapq'', ''threading'', ''asyncio'', ''argparse'', ''http'', ''socket'',
      ''socketserver'', ''urllib'', ''re'', ''collections'', ''unicodedata'', ''random'',
      ''string'', ''bisect'', ''array'', ''enum'', ''logging'', ''typing'', ''unittest'']"

definition root_mod :: "bytes \<Rightarrow> bytes" where
  "root_mod name = takeWhile (\<lambda>c. c \<noteq> CHR ''.'') name"

definition audit_root :: "bytes list \<Rightarrow> bytes \<Rightarrow> bytes \<Rightarrow> audit \<Rightarrow> audit" where
  "audit_root stdlib py_file r A =
     (if r \<noteq> ''zenith'' \<and> r \<noteq> ''tests'' then
        if r \<notin> set stdlib then A\<lparr>disallowed_imports := disallowed_imports A @ [(py_file, r)]\<rparr>
        else A\<lparr>all_used_stdlibs := List.insert r (all_used_stdlibs A)\<rparr>
      else A)"

fun node_roots :: "import_node \<Rightarrow> bytes list" where
  "node_roots (Import names) = map root_mod names"
| "node_roots (ImportFrom None) = []"
| "node_roots (ImportFrom (Some m)) = (if m = [] then [] else [root_mod m])"

text \<open>One file: reading or parsing it may raise.\<close>

definition audit_file :: "(bytes \<Rightarrow> import_node list res) \<Rightarrow> bytes list \<Rightarrow> bytes \<times> bytes \<Rightarrow> audit \<Rightarrow> audit res" where
  "audit_file nodes stdlib = (\<lambda>(py_file, src) A. rbind (py_decode src) (\<lambda>code. rbind (nodes code) (\<lambda>ns.
     Inr (fold (audit_root stdlib py_file) (concat (map node_roots ns)) A))))"

section \<open>The report\<close>

definition TICK :: bytes where
  "TICK = [CHR 0xE2, CHR 0x9C, CHR 0x93]"

definition audit_rows :: "nat \<Rightarrow> audit \<Rightarrow> bytes list list" where
  "audit_rows total_files A = (let used = all_used_stdlibs A in
     [[''Total Python Files Scanned'', str_nat total_files, ''100% of project source''],
      [''Standard Library Modules Used'', str_nat (length used),
       join_with '', '' (take 8 (sort used)) @ '' (+'' @ str_int (int (length used) - 8) @ '' more)''],
      [''Third-Party Dependencies Found'', str_nat (length (disallowed_imports A)), ''Zero foreign packages''],
      [''Zero-Dependency Constraint'', ''PASSED '' @ TICK, ''100% Pure Standard Library'']])"

text \<open>The printed texts without the title, and the exit code.\<close>

definition verify_deps :: "(bytes \<Rightarrow> import_node list res) \<Rightarrow> bytes list \<Rightarrow> bytes \<Rightarrow> entry list \<Rightarrow> (bytes list \<times> nat) res" where
  "verify_deps nodes stdlib_module_names project_root es =
     (let stdlib = (if stdlib_module_names = [] then FALLBACK_NAMES else stdlib_module_names);
          fs = py_files project_root es in
      rbind (rfold (audit_file nodes stdlib) fs \<lparr>disallowed_imports = [], all_used_stdlibs = []\<rparr>) (\<lambda>A.
      let table = format_table [''Audit Check'', ''Result'', ''Notes''] (audit_rows (length fs) A) in
      if disallowed_imports A \<noteq> [] then
        Inr ([table, CHR 0x0A # colorize ''FAILED: Disallowed third-party dependencies detected!'' RED] @
             map (\<lambda>(path, m). ''  - '' @ path @ '': '' @ m) (disallowed_imports A), 1)
      else
        Inr ([table, CHR 0x0A # GREEN @ BOLD @ TICK @ '' Zero-Dependency Manifest Verified: 0 third-party packages required.'' @ RESET @ [CHR 0x0A]], 0)))"

section \<open>The verdict\<close>

lemma audit_root_disallowed:
  "disallowed_imports (fold (audit_root stdlib p) rs A) =
     disallowed_imports A @ map (Pair p) (filter (\<lambda>r. r \<notin> set (''zenith'' # ''tests'' # stdlib)) rs)"
  by (induction rs arbitrary: A) (auto simp: audit_root_def)

text \<open>The roots of the imports of a file.\<close>

definition file_roots :: "(bytes \<Rightarrow> import_node list res) \<Rightarrow> bytes \<Rightarrow> bytes list" where
  "file_roots nodes src = (case nodes src of Inr ns \<Rightarrow> concat (map node_roots ns) | Inl _ \<Rightarrow> [])"

lemma audit_disallowed:
  "rfold (audit_file nodes stdlib) fs A = Inr B \<Longrightarrow>
   disallowed_imports B = disallowed_imports A @
     concat (map (\<lambda>f. map (Pair (fst f)) (filter (\<lambda>r. r \<notin> set (''zenith'' # ''tests'' # stdlib)) (file_roots nodes (snd f)))) fs)"
proof (induction fs arbitrary: A)
  case (Cons f fs)
  then obtain ns where ns: "utf8_valid (snd f)" "nodes (snd f) = Inr ns"
      "rfold (audit_file nodes stdlib) fs (fold (audit_root stdlib (fst f)) (concat (map node_roots ns)) A) = Inr B"
    by (cases f) (auto simp: audit_file_def rbind_Inr_iff py_decode_def split: if_splits)
  show ?case using Cons.IH [OF ns(3)] ns(2) by (cases f) (simp add: audit_root_disallowed file_roots_def)
qed simp

text \<open>
  The audit ends with code 0 just when every import of every scanned file is of the standard library
  or of the program, and otherwise with code 1 after a list of the others. The table says
  PASSED in both cases.
\<close>

theorem audit_verdict:
  assumes "verify_deps nodes names root es = Inr (out, code)" "names \<noteq> []"
  shows "(code = 0 \<longleftrightarrow> (\<forall>f \<in> set (py_files root es). set (file_roots nodes (snd f)) \<subseteq> {''zenith'', ''tests''} \<union> set names)) \<and>
    code \<in> {0, 1} \<and>
    (\<exists>A. hd out = format_table [''Audit Check'', ''Result'', ''Notes''] (audit_rows (length (py_files root es)) A) \<and>
      last (audit_rows (length (py_files root es)) A) ! 1 = ''PASSED '' @ TICK)"
proof -
  obtain A where A: "rfold (audit_file nodes names) (py_files root es) \<lparr>disallowed_imports = [], all_used_stdlibs = []\<rparr> = Inr A"
      "code = (if disallowed_imports A = [] then 0 else 1)"
      "hd out = format_table [''Audit Check'', ''Result'', ''Notes''] (audit_rows (length (py_files root es)) A)"
    using assms by (auto simp: verify_deps_def Let_def rbind_Inr_iff split: if_splits)
  have "disallowed_imports A = [] \<longleftrightarrow> (\<forall>f \<in> set (py_files root es). set (file_roots nodes (snd f)) \<subseteq> {''zenith'', ''tests''} \<union> set names)"
    unfolding audit_disallowed [OF A(1)] by (auto simp: filter_empty_conv)
  moreover have "last (audit_rows n A) ! 1 = ''PASSED '' @ TICK" for n by (simp add: audit_rows_def Let_def)
  ultimately show ?thesis using A(2,3) by auto
qed

end
