(* ===== verification/Spec2Isabelle.thy ===== *)
theory Spec2Isabelle
  imports Txn Resp KVSet KVString KVExpiry DocLaws HttpLaws ReplLaws BundleLaws ImportAudit
begin

text \<open>
  A model of ZenithDB, a multi-model database in Python, and what holds of it.

  \<^bold>\<open>The program.\<close> A log-structured merge tree (\<open>src/zenith/storage\<close>) stores byte strings
  under byte strings. Four engines (\<open>src/zenith/engine\<close>) keep all their data in such a tree:
  Redis-like keys, JSON documents, full-text search and vectors; \<open>engine/txn.py\<close> buffers the
  writes of a transaction. Two servers (\<open>src/zenith/server\<close>) make the engines available: RESP over
  TCP, with the parser and serializer of \<open>src/zenith/protocol\<close>, and REST over HTTP; a shell
  (\<open>src/zenith/cli\<close>) does the same for a terminal. \<open>src/tools/bundle.py\<close> builds
  \<open>src/zenith.py\<close>, one file with the code of all modules.

  \<^bold>\<open>How code becomes definitions.\<close> The definitions keep the names of the code.
  \<^item> An object is a record (\<open>lsm\<close>, \<open>wal\<close>, \<open>kv\<close>, \<open>docs\<close>, \<open>texts\<close>, \<open>vecs\<close>, \<open>txn\<close>,
    \<open>server\<close>, \<open>httpd\<close>); the engines extend the record \<open>db\<close>, whose field is the tree they share.
  \<^item> A method that may raise and changes its object is a function from the object to a result,
    \<open>Inl\<close> an exception or \<open>Inr\<close> a value, and the new object (\<open>pym\<close> in Prelude): the changes
    made before an exception stay visible. \<open>wp\<close> states what a call that returns establishes.
  \<^item> \<open>bytes\<close> and \<open>str\<close> are lists of 8-bit characters, a \<open>str\<close> being its UTF-8 encoding; a dict is
    an association list in insertion order; an int is \<open>int\<close>; a float is its 64 bits, with
    correctly rounded operations; the fields of the file formats are words of their width.
  \<^item> A directory is a map from file names to contents. A file that is being written has the bytes
    already on the disk and the bytes in the buffer; a crash keeps any prefix of the latter.

  \<^bold>\<open>The theories, from the bottom.\<close>
  \<^item> Python: Prelude (results, states, \<open>wp\<close>, lists), PyStruct (\<open>struct\<close>, CRC-32), PyStr, PyText,
    PyUnicode (text, UTF-8, \<open>int\<close>, \<open>split\<close>, \<open>repr\<close>), PyFloat, FloatOps (\<open>float\<close> and its text),
    PyCompare (comparison, \<open>list.sort\<close>), SortLaws (it is the stable sort of the library), Glob
    (\<open>fnmatch\<close>), Json, JsonLaws, JsonPretty (\<open>json\<close>), PyUrl (\<open>urllib.parse\<close>).
  \<^item> Storage: Wal and WalLog (\<open>wal.py\<close>), Bloom (\<open>bloom.py\<close>), SSTable and SSTableLaws
    (\<open>sstable.py\<close>), Lsm and Merge (\<open>lsm.py\<close>), LsmSpec (the meaning of a tree), LsmRefine (programs
    over a tree against maps, crashes), LsmFaults (crashes inside a flush or a compaction).
  \<^item> Contracts: Store (the locales below), Db (an engine over a tree), Keeps (what methods leave).
  \<^item> Engines: Txn; KV with KVLaws, KVString, KVList, KVHash, KVSet, KVZset, KVExpiry, KVFaults;
    Doc and DocLaws; Stemmer, StemmerLaws, TextIndex, TextLaws, TextSearch; Vector and VectorLaws.
  \<^item> Front ends: Resp (\<open>resp.py\<close>); Tcp, TcpLaws, TcpDurable (\<open>tcp.py\<close>); Http, HttpLaws
    (\<open>http.py\<close>); Terminal (\<open>terminal.py\<close>); Repl, ReplLaws, ImportAudit (\<open>cli/main.py\<close>).
  \<^item> Tools: Bundle, BundleLaws (\<open>tools/bundle.py\<close>).

  \<^bold>\<open>The contracts.\<close> \<open>kv_store\<close> (Store) is what an engine asks of its tree: \<open>repr s f n\<close> says
  that the store holds the map \<open>f\<close> and takes \<open>n\<close> more writes, and put, delete, get and scan act on
  \<open>f\<close>. It is interpreted on the tree (\<open>st\<close>), on the tree inside an engine (\<open>dbs\<close>) and on the
  engines whose other fields do not change (\<open>rest\<close>). \<open>marked_store\<close> adds the marks of a
  transaction. \<open>store_commands\<close> is a set of commands with a specification and an invariant: one
  induction over the command sequence, interpreted for strings, lists, hashes, sets, sorted sets,
  documents, texts and vectors. \<open>membership_filter\<close> and \<open>sorted_table\<close> are the contracts of a
  Bloom filter and a table, \<open>key_order\<close> that of a comparison which a key of the elements explains.

  \<^bold>\<open>What is shown.\<close>
  \<^item> Storage. Read through get and scan, any program of calls behaves as a map, with flushes and
    compactions in between. After a crash the reopened tree holds the state after a prefix of the
    calls: all of them in sync mode always, and all calls before a flush in every mode. A crash
    while compaction removes the old tables loses no more than one before it. These three need
    that no \<open>compact()\<close> is called while there are writes that no flush has followed
    (\<open>compacts_flushed\<close>): such a call can lose them. Compaction keeps the newest version
    of a key and drops the deletions. The log returns a prefix of what was appended, and stops at
    a changed byte; a table answers as the run it was written from; a filter that could be built
    never denies a key that was added.
  \<^item> Transactions. A commit applies the buffered writes in order; a transaction commits at most
    once and is inert afterwards; it reads its own writes. A crash inside a commit leaves a
    prefix of the writes made so far, in sync mode always all of them: the log marks are not used
    by recovery. A complete commit survives a crash in every mode.
  \<^item> Engines. Strings, lists, hashes, sets, sorted sets, documents, texts and vectors behave under
    any sequence of their commands as maps, lists, families of sets and maps with scores, and
    touch no other entry; the index entries, the postings and the statistics are exactly those of
    the stored objects. Queries, candidates of a text search and exact vector searches return
    what their description says; training assigns every vector to the first of its nearest
    centroids. Sets and, for what other keys hold, hashes need names without a colon.
  \<^item> Front ends. A serialised value is parsed back, whatever follows it. A connection is the
    sequence of its commands, however the bytes are cut into blocks, every complete command is
    answered, and every reply is one message to the peer when no text in it has a carriage
    return. What SET acknowledged is served after a crash of a server that syncs. Every HTTP
    response but that to OPTIONS is complete, a refusal changes nothing, and both servers and, for
    the plain forms of four commands, the shell show the same strings. The lines of a table have
    the same visible width, coloured cells included.
  \<^item> Tools. The single file consists of the modules, line by line, without the lines that begin
    with \<open>import\<close>, \<open>from zenith\<close> or \<open>from typing\<close>.
  \<^item> Faults. The lemmas of LsmFaults, KVFaults, WalLog, Txn, Resp and HttpLaws also show where the
    code does not do what its comments promise; they are proved like everything else, on concrete
    inputs where they are about a loss.

  \<^bold>\<open>Bounds.\<close> File names have a sequence number of eight digits and log sequence numbers 64 bits,
  so the contract of a tree allows at most 40000000 writes (\<open>room\<close>); a command consumes a fixed
  number of them. The head and tail of a list stay within \<open>INDEX_BOUND\<close>, so that the keys of its
  elements fit the table format. Names and values have to fit the fields of the formats
  (\<open>name_ok\<close>, \<open>val_ok\<close>), and no value is the tombstone. Every function is total, with a
  termination proof where the recursion is not structural. The RESP parser alone has fuel: the
  recursion limit of Python is its argument, and running out of it is the RecursionError of the
  code. A value needs the limit \<open>resp_depth\<close>, which is 2 for a flat command.

  \<^bold>\<open>Parameters.\<close> \<open>host\<close> (the SHA-256 hash pair and the sizes of a filter, computed with logarithms, which may raise),
  \<open>unicode\<close> (\<open>lower\<close>, normalisation, word characters), \<open>pymath\<close> (\<open>sum\<close>, \<open>math.log\<close>, squares,
  \<open>random.sample\<close>), \<open>site\<close> (those, \<open>re.search\<close>, the recursion limit, the texts of exceptions),
  \<open>http_site\<close> (\<open>site\<close> and the page of the dashboard), the clock of a tree, the checksum of the
  builder, and \<open>ast.walk\<close> for the audit. Where a law needs something of them it is a hypothesis
  (\<open>host_ok\<close>, \<open>unicode_ok\<close>), and the witnesses give concrete instances.

  \<^bold>\<open>Restrictions.\<close> \<open>int()\<close> and \<open>float()\<close> accept ASCII digits and white space only, and command names
  are compared in ASCII; a set is iterated in the order of insertion; \<open>json\<close> has no limit of
  digits or depth; ints among the coordinates of a vector are floats; the texts of exceptions are those
  of CPython 3.12; request targets are in origin form; lone surrogates do not occur. Methods
  are transitions: the locks of the tree and of a transaction make them so, and the commands of
  one event loop follow each other. HTTP requests are taken one at a time, although the code
  runs them in threads.

  \<^bold>\<open>Not modelled.\<close> The start and stop of the servers, sockets, threads and the event loop
  (\<open>TCPServer.start\<close>, \<open>serve_forever\<close>, \<open>HTTPServerWrapper.serve_forever\<close>): they are calls of
  the library without logic of the program. The HTML and the script of the dashboard, but for the
  path it asks for. \<open>ProgressBar\<close>, the banner, \<open>cli/bench.py\<close>, \<open>cmd_server\<close>, \<open>cmd_bench\<close> and
  \<open>main\<close> of the command line: clocks, random loads, threads and argument parsing. The tests.
\<close>

end
